(* ===== verification/Prelude.thy ===== *)
theory Prelude
  imports Main "HOL-Library.Word" "HOL-Library.Monad_Syntax"
begin

unbundle bit_operations_syntax

text \<open>
  What every component shares: the machine types of the RV32 target, C's conversions between
  signed and unsigned 32-bit integers written out on \<open>int\<close>, the byte memory with its
  little-endian and big-endian 32-bit accesses, and the lemmas on them.

  A computation that may touch memory returns an \<open>option\<close>: \<open>None\<close> is an access outside the
  mapped bytes or a loop that never returns, so \<open>f x = Some y\<close> says at once that \<open>f\<close> returns,
  that it touched mapped memory only, and what it returned.  Pointers are \<open>int\<close> addresses and
  \<open>NULL\<close> is \<open>0\<close>.
\<close>

type_synonym u8 = "8 word"
type_synonym u16 = "16 word"
type_synonym u32 = "32 word"
type_synonym u64 = "64 word"

named_theorems wrap_simps "conversions to 32-bit C integers, in range"
named_theorems mem_simps "loads and stores of the byte memory"

section \<open>C integers\<close>

text \<open>
  Where a component computes on \<open>int\<close>, an unsigned 32-bit operation is followed by
  \<open>to_u32\<close> and a conversion to a signed \<open>int\<close> by \<open>to_s32\<close> (what GCC does on this target).
\<close>

definition to_u32 :: "int \<Rightarrow> int" where
  "to_u32 x = x mod 4294967296"

definition to_s32 :: "int \<Rightarrow> int" where
  "to_s32 x = (x + 2147483648) mod 4294967296 - 2147483648"

abbreviation INT32_MAX :: int where "INT32_MAX \<equiv> 2147483647"
abbreviation UINT32_MAX :: int where "UINT32_MAX \<equiv> 4294967295"

lemma to_u32_id [wrap_simps]: "0 \<le> x \<Longrightarrow> x \<le> UINT32_MAX \<Longrightarrow> to_u32 x = x"
  by (simp add: to_u32_def)

lemma to_u32_nonneg [simp]: "0 \<le> to_u32 x"
  by (simp add: to_u32_def)

lemma to_u32_max [simp]: "to_u32 x \<le> UINT32_MAX"
proof -
  have "x mod 4294967296 < 4294967296" by simp
  then show ?thesis by (simp add: to_u32_def)
qed

lemma to_s32_id [wrap_simps]: "- 2147483648 \<le> x \<Longrightarrow> x \<le> INT32_MAX \<Longrightarrow> to_s32 x = x"
  by (simp add: to_s32_def)

lemma to_s32_min [simp]: "- 2147483648 \<le> to_s32 x"
  by (simp add: to_s32_def)

lemma to_s32_max [simp]: "to_s32 x \<le> INT32_MAX"
proof -
  have "(x + 2147483648) mod 4294967296 < 4294967296" by simp
  then show ?thesis by (simp add: to_s32_def)
qed

lemma to_s32_neg [wrap_simps]:
  "INT32_MAX < x \<Longrightarrow> x \<le> UINT32_MAX \<Longrightarrow> to_s32 x = x - 4294967296"
  using int_mod_pos_eq [of "x + 2147483648" 4294967296 1 "x - 2147483648"]
  by (simp add: to_s32_def)

lemma to_u32_neg [wrap_simps]: "- 4294967296 \<le> x \<Longrightarrow> x < 0 \<Longrightarrow> to_u32 x = x + 4294967296"
  using int_mod_pos_eq [of x 4294967296 "- 1" "x + 4294967296"]
  by (simp add: to_u32_def)

lemma to_u32_wrap [wrap_simps]:
  "UINT32_MAX < x \<Longrightarrow> x \<le> 8589934591 \<Longrightarrow> to_u32 x = x - 4294967296"
  using int_mod_pos_eq [of x 4294967296 1 "x - 4294967296"]
  by (simp add: to_u32_def)

lemma to_s32_to_u32: "to_s32 (to_u32 x) = to_s32 x"
  by (simp add: to_s32_def to_u32_def mod_simps)

lemma div4_within: "p mod 4 = 0 \<Longrightarrow> k < 4 \<Longrightarrow> (p + int k) div 4 = p div 4"
  by (simp add: div_plus_div_distrib_dvd_left [OF dvd_eq_mod_eq_0 [THEN iffD2]])

lemma uint_u32_bound: "uint (w :: u32) < 4294967296"
proof -
  have "uint w < 2 ^ LENGTH(32)" by (rule unsigned_less)
  then show ?thesis by simp
qed

lemma uint_eq_uint_iff [simp]: "uint a = uint b \<longleftrightarrow> a = b"
  by (simp add: word_uint_eq_iff)

section \<open>Bytes of a word\<close>

definition byte_of :: "nat \<Rightarrow> u32 \<Rightarrow> u8" where
  "byte_of k w = ucast (drop_bit (8 * k) w)"

definition word_of_bytes :: "u8 \<Rightarrow> u8 \<Rightarrow> u8 \<Rightarrow> u8 \<Rightarrow> u32" where
  "word_of_bytes b0 b1 b2 b3 =
     ucast b0 OR push_bit 8 (ucast b1) OR push_bit 16 (ucast b2) OR push_bit 24 (ucast b3)"

lemma bit_byte_of: "bit (byte_of k w) n \<longleftrightarrow> n < 8 \<and> bit w (8 * k + n)"
  by (auto simp: byte_of_def bit_simps)

lemma bit_word_of_bytes:
  "bit (word_of_bytes b0 b1 b2 b3) n \<longleftrightarrow>
     (if n < 8 then bit b0 n else if n < 16 then bit b1 (n - 8)
      else if n < 24 then bit b2 (n - 16) else n < 32 \<and> bit b3 (n - 24))"
  using bit_imp_le_length [of b0 n] bit_imp_le_length [of b1 "n - 8"] bit_imp_le_length [of b2 "n - 16"]
    bit_imp_le_length [of b3 "n - 24"]
  by (auto simp: word_of_bytes_def bit_simps)

lemma or_push_bit_add: "0 \<le> a \<Longrightarrow> a < 2 ^ n \<Longrightarrow> a OR push_bit n b = a + 2 ^ n * (b :: int)"
  using concat_bit_eq [of n a b]
  by (simp add: concat_bit_def take_bit_int_eq_self push_bit_eq_mult mult.commute)

lemma uint_word_of_bytes:
  "uint (word_of_bytes b0 b1 b2 b3) =
     uint b0 + 256 * uint b1 + 65536 * uint b2 + 16777216 * uint b3"
proof -
  have u: "0 \<le> uint b" "uint b < 256" for b :: u8
    using unsigned_less [of b] by simp_all
  have "uint (word_of_bytes b0 b1 b2 b3) =
      uint b0 OR push_bit 8 (uint b1) OR push_bit 16 (uint b2) OR push_bit 24 (uint b3)"
  proof (rule bit_eqI)
    fix n
    show "bit (uint (word_of_bytes b0 b1 b2 b3)) n \<longleftrightarrow>
        bit (uint b0 OR push_bit 8 (uint b1) OR push_bit 16 (uint b2) OR push_bit 24 (uint b3)) n"
      using bit_imp_le_length [of b0 n] bit_imp_le_length [of b1 "n - 8"]
        bit_imp_le_length [of b2 "n - 16"] bit_imp_le_length [of b3 "n - 24"]
      by (auto simp: bit_uint_iff bit_word_of_bytes bit_simps)
  qed
  also have "\<dots> = uint b0 + 256 * uint b1 + 65536 * uint b2 + 16777216 * uint b3"
  proof -
    have "uint b0 OR push_bit 8 (uint b1) = uint b0 + 2 ^ 8 * uint b1"
      using u [of b0] by (intro or_push_bit_add) simp_all
    moreover have "(uint b0 + 2 ^ 8 * uint b1) OR push_bit 16 (uint b2) =
        (uint b0 + 2 ^ 8 * uint b1) + 2 ^ 16 * uint b2"
      using u [of b0] u [of b1] by (intro or_push_bit_add) simp_all
    moreover have "(uint b0 + 2 ^ 8 * uint b1 + 2 ^ 16 * uint b2) OR push_bit 24 (uint b3) =
        (uint b0 + 2 ^ 8 * uint b1 + 2 ^ 16 * uint b2) + 2 ^ 24 * uint b3"
      using u [of b0] u [of b1] u [of b2] by (intro or_push_bit_add) simp_all
    ultimately show ?thesis by (simp only: or.assoc [symmetric]) simp
  qed
  finally show ?thesis .
qed

lemma word_of_byte_of [unfolded One_nat_def, simp]:
  "word_of_bytes (byte_of 0 w) (byte_of 1 w) (byte_of 2 w) (byte_of 3 w) = w"
  by (rule bit_word_eqI) (auto simp: bit_word_of_bytes bit_byte_of)

lemma byte_of_word_of [unfolded One_nat_def, simp]:
  "byte_of 0 (word_of_bytes b0 b1 b2 b3) = b0"
  "byte_of 1 (word_of_bytes b0 b1 b2 b3) = b1"
  "byte_of 2 (word_of_bytes b0 b1 b2 b3) = b2"
  "byte_of 3 (word_of_bytes b0 b1 b2 b3) = b3"
  by (rule bit_word_eqI; simp add: bit_word_of_bytes bit_byte_of)+

section \<open>Memory\<close>

type_synonym mem = "int \<Rightarrow> u8 option"

definition mapped :: "mem \<Rightarrow> int \<Rightarrow> int \<Rightarrow> bool" where
  "mapped m a n \<longleftrightarrow> (\<forall>i. a \<le> i \<and> i < a + n \<longrightarrow> m i \<noteq> None)"

definition load8 :: "mem \<Rightarrow> int \<Rightarrow> u8 option" where
  "load8 m a = m a"

definition store8 :: "mem \<Rightarrow> int \<Rightarrow> u8 \<Rightarrow> mem option" where
  "store8 m a v = (if m a = None then None else Some (m(a \<mapsto> v)))"

definition load32 :: "mem \<Rightarrow> int \<Rightarrow> u32 option" where
  "load32 m a = do {
     b0 \<leftarrow> m a; b1 \<leftarrow> m (a + 1); b2 \<leftarrow> m (a + 2); b3 \<leftarrow> m (a + 3);
     Some (word_of_bytes b0 b1 b2 b3) }"

definition store32 :: "mem \<Rightarrow> int \<Rightarrow> u32 \<Rightarrow> mem option" where
  "store32 m a v = do {
     m \<leftarrow> store8 m a (byte_of 0 v); m \<leftarrow> store8 m (a + 1) (byte_of 1 v);
     m \<leftarrow> store8 m (a + 2) (byte_of 2 v); store8 m (a + 3) (byte_of 3 v) }"

lemma mappedD: "mapped m a n \<Longrightarrow> a \<le> i \<Longrightarrow> i < a + n \<Longrightarrow> \<exists>b. m i = Some b"
  by (auto simp: mapped_def)

lemma mapped_sub: "mapped m a n \<Longrightarrow> a \<le> b \<Longrightarrow> b + k \<le> a + n \<Longrightarrow> mapped m b k"
  by (auto simp: mapped_def)

lemma mapped_dom: "mapped m a n \<Longrightarrow> dom m' = dom m \<Longrightarrow> mapped m' a n"
  by (auto simp: mapped_def dom_def set_eq_iff)

lemma store8_Some [mem_simps]: "store8 m a v = Some m' \<longleftrightarrow> m a \<noteq> None \<and> m' = m(a \<mapsto> v)"
  by (auto simp: store8_def)

lemma store8_dom: "store8 m a v = Some m' \<Longrightarrow> dom m' = dom m"
  by (auto simp: store8_def split: if_splits)

lemma load32_mapped: "mapped m a 4 \<Longrightarrow> \<exists>w. load32 m a = Some w"
  using mappedD [of m a 4 a] mappedD [of m a 4 "a + 1"] mappedD [of m a 4 "a + 2"]
    mappedD [of m a 4 "a + 3"]
  by (auto simp: load32_def)

lemma store32_mapped:
  assumes "mapped m a 4"
  shows "store32 m a v =
    Some (m(a \<mapsto> byte_of 0 v, a + 1 \<mapsto> byte_of 1 v, a + 2 \<mapsto> byte_of 2 v, a + 3 \<mapsto> byte_of 3 v))"
  using mappedD [OF assms, of a] mappedD [OF assms, of "a + 1"] mappedD [OF assms, of "a + 2"]
    mappedD [OF assms, of "a + 3"]
  by (auto simp: store32_def store8_def)

lemma store32_Some [mem_simps]:
  "store32 m a v = Some m' \<longleftrightarrow> mapped m a 4 \<and>
     m' = m(a \<mapsto> byte_of 0 v, a + 1 \<mapsto> byte_of 1 v, a + 2 \<mapsto> byte_of 2 v, a + 3 \<mapsto> byte_of 3 v)"
proof (cases "mapped m a 4")
  case True
  then show ?thesis by (auto simp: store32_mapped)
next
  case False
  then obtain i where "a \<le> i" "i < a + 4" "m i = None" by (auto simp: mapped_def)
  moreover from this have "i = a \<or> i = a + 1 \<or> i = a + 2 \<or> i = a + 3" by linarith
  ultimately have "store32 m a v = None"
    by (auto simp: store32_def store8_def)
  with False show ?thesis by simp
qed

lemma store32_dom: "store32 m a v = Some m' \<Longrightarrow> dom m' = dom m"
proof -
  assume "store32 m a v = Some m'"
  then have "mapped m a 4" and
    m': "m' = m(a \<mapsto> byte_of 0 v, a + 1 \<mapsto> byte_of 1 v, a + 2 \<mapsto> byte_of 2 v, a + 3 \<mapsto> byte_of 3 v)"
    by (auto simp: mem_simps)
  then have "a \<in> dom m" "a + 1 \<in> dom m" "a + 2 \<in> dom m" "a + 3 \<in> dom m"
    using mappedD [of m a 4] by auto
  then show ?thesis by (auto simp: m')
qed

lemma load32_store32: "store32 m a v = Some m' \<Longrightarrow> load32 m' a = Some v"
  by (auto simp: mem_simps load32_def)

lemma load32_store32_other:
  "store32 m a v = Some m' \<Longrightarrow> b + 4 \<le> a \<or> a + 4 \<le> b \<Longrightarrow> load32 m' b = load32 m b"
  by (auto simp: mem_simps load32_def)

lemma store32_other: "store32 m a v = Some m' \<Longrightarrow> b < a \<or> a + 4 \<le> b \<Longrightarrow> m' b = m b"
  by (auto simp: mem_simps)

text \<open>\<open>writes_only m m' a n\<close>: from \<open>m\<close> to \<open>m'\<close> only the bytes \<open>[a, a + n)\<close> may have changed.\<close>

definition writes_only :: "mem \<Rightarrow> mem \<Rightarrow> int \<Rightarrow> int \<Rightarrow> bool" where
  "writes_only m m' a n \<longleftrightarrow> dom m' = dom m \<and> (\<forall>x. x < a \<or> a + n \<le> x \<longrightarrow> m' x = m x)"

lemma writes_onlyI:
  "dom m' = dom m \<Longrightarrow> (\<And>x. x < a \<or> a + n \<le> x \<Longrightarrow> m' x = m x) \<Longrightarrow> writes_only m m' a n"
  by (simp add: writes_only_def)

lemma writes_only_refl [simp]: "writes_only m m a n"
  by (simp add: writes_only_def)

lemma writes_only_trans: "writes_only m m1 a n \<Longrightarrow> writes_only m1 m2 a n \<Longrightarrow> writes_only m m2 a n"
  by (simp add: writes_only_def)

lemma writes_only_mono:
  "writes_only m m' b k \<Longrightarrow> a \<le> b \<Longrightarrow> b + k \<le> a + n \<Longrightarrow> writes_only m m' a n"
  by (auto simp: writes_only_def)

lemma writes_only_same: "writes_only m m' a n \<Longrightarrow> x < a \<or> a + n \<le> x \<Longrightarrow> m' x = m x"
  by (auto simp: writes_only_def)

lemma writes_only_mapped: "writes_only m m' a n \<Longrightarrow> mapped m b k \<Longrightarrow> mapped m' b k"
  by (auto simp: writes_only_def intro: mapped_dom)

lemma store32_writes_only: "store32 m a v = Some m' \<Longrightarrow> writes_only m m' a 4"
  by (intro writes_onlyI store32_dom) (auto intro: store32_other)

section \<open>Results of kernel code\<close>

text \<open>
  Code of the kernel proper may also stop: \<open>halt()\<close> never returns, \<open>mret\<close> leaves M-mode for good,
  and code behind \<open>__builtin_unreachable()\<close> has no meaning.  \<open>Fault\<close> carries over a \<open>None\<close> of the
  memory layer: an unmapped access or a loop that does not return.
\<close>

datatype stop = Fault | Halted | Left_M_Mode | Unreachable

type_synonym 'a run = "stop + 'a"

definition lift_mem :: "'a option \<Rightarrow> 'a run" where
  "lift_mem x = (case x of None \<Rightarrow> Inl Fault | Some y \<Rightarrow> Inr y)"

lemma lift_mem_simps [simp]: "lift_mem (Some y) = Inr y" "lift_mem None = Inl Fault"
  "lift_mem x = Inr y \<longleftrightarrow> x = Some y"
  by (auto simp: lift_mem_def split: option.splits)

section \<open>Bytes and memory pictures used by witnesses\<close>

definition mem_of_list :: "int \<Rightarrow> u8 list \<Rightarrow> mem" where
  "mem_of_list a bs = (\<lambda>i. if a \<le> i \<and> i < a + int (length bs) then Some (bs ! nat (i - a)) else None)"

text \<open>A picture in rows of 16 bytes, for larger blobs.\<close>

fun mem_rows :: "u8 list list \<Rightarrow> int \<Rightarrow> mem" where
  "mem_rows [] b a = None"
| "mem_rows (r # rs) b a =
     (if a < b then None else if a < b + 16 then Some (r ! nat (a - b)) else mem_rows rs (b + 16) a)"

lemma mapped_mem_rows: "mapped (mem_rows rs b) b (16 * int (length rs))"
proof (induction rs arbitrary: b)
  case (Cons r rs)
  show ?case
    unfolding mapped_def
  proof (intro allI impI)
    fix i assume "b \<le> i \<and> i < b + 16 * int (length (r # rs))"
    with Cons [of "b + 16"] show "mem_rows (r # rs) b i \<noteq> None" by (auto simp: mapped_def)
  qed
qed (simp add: mapped_def)

lemma mapped_mem_of_list: "mapped (mem_of_list a bs) a (int (length bs))"
  by (auto simp: mapped_def mem_of_list_def)

end
