(* ===== verification/Klibc_String.thy ===== *)
theory Klibc_String
  imports Prelude
begin

text \<open>
  The freestanding string and memory routines of \<^verbatim>\<open>src/boot/crt0.c\<close>, which the kernel and
  libfdt link against.  Byte counts (\<open>size_t\<close>) are \<open>nat\<close>; a \<open>const char *\<close> is an address in the
  byte memory, and \<open>cstr_at m p s\<close> says that the C string at \<open>p\<close> has the bytes \<open>s\<close>.
\<close>

section \<open>Specification predicates\<close>

fun bytes_at :: "mem \<Rightarrow> int \<Rightarrow> u8 list \<Rightarrow> bool" where
  "bytes_at m p [] = True"
| "bytes_at m p (b # bs) = (m p = Some b \<and> bytes_at m (p + 1) bs)"

fun cstr_at :: "mem \<Rightarrow> int \<Rightarrow> u8 list \<Rightarrow> bool" where
  "cstr_at m p [] = (m p = Some 0)"
| "cstr_at m p (b # bs) = (b \<noteq> 0 \<and> m p = Some b \<and> cstr_at m (p + 1) bs)"

definition lit_bytes :: "string \<Rightarrow> u8 list" where
  "lit_bytes s = map of_char s"

fun load_bytes :: "mem \<Rightarrow> int \<Rightarrow> nat \<Rightarrow> u8 list option" where
  "load_bytes m a 0 = Some []"
| "load_bytes m a (Suc n) = do { b \<leftarrow> load8 m a; bs \<leftarrow> load_bytes m (a + 1) n; Some (b # bs) }"

fun store_bytes :: "mem \<Rightarrow> int \<Rightarrow> u8 list \<Rightarrow> mem option" where
  "store_bytes m a [] = Some m"
| "store_bytes m a (b # bs) = do { m \<leftarrow> store8 m a b; store_bytes m (a + 1) bs }"

section \<open>memcpy, memset, memmove, word-aligned memset\<close>

fun memcpy_loop :: "mem \<Rightarrow> int \<Rightarrow> int \<Rightarrow> nat \<Rightarrow> nat \<Rightarrow> mem option" where
  "memcpy_loop m dst src i 0 = Some m"
| "memcpy_loop m dst src i (Suc k) = do {
     b \<leftarrow> load8 m (src + int i);
     m \<leftarrow> store8 m (dst + int i) b;
     memcpy_loop m dst src (Suc i) k }"

definition memcpy :: "mem \<Rightarrow> int \<Rightarrow> int \<Rightarrow> nat \<Rightarrow> (int \<times> mem) option" where
  "memcpy m dest src n = do { m \<leftarrow> memcpy_loop m dest src 0 n; Some (dest, m) }"

fun memset_loop :: "mem \<Rightarrow> int \<Rightarrow> u8 \<Rightarrow> nat \<Rightarrow> mem option" where
  "memset_loop m ptr c 0 = Some m"
| "memset_loop m ptr c (Suc n) = do { m \<leftarrow> store8 m ptr c; memset_loop m (ptr + 1) c n }"

definition memset :: "mem \<Rightarrow> int \<Rightarrow> int \<Rightarrow> nat \<Rightarrow> (int \<times> mem) option" where
  "memset m s c n = do { m \<leftarrow> memset_loop m s (word_of_int c) n; Some (s, m) }"

text \<open>\<open>__builtin_memmove\<close> is the C library's \<open>memmove\<close>: as if through a temporary copy.\<close>

definition memmove :: "mem \<Rightarrow> int \<Rightarrow> int \<Rightarrow> nat \<Rightarrow> (int \<times> mem) option" where
  "memmove m dest src n = do {
     bs \<leftarrow> load_bytes m src n; m \<leftarrow> store_bytes m dest bs; Some (dest, m) }"

fun word_aligned_memset :: "mem \<Rightarrow> int \<Rightarrow> u32 \<Rightarrow> nat \<Rightarrow> mem option" where
  "word_aligned_memset m p num 0 = Some m"
| "word_aligned_memset m p num (Suc count) = do {
     m \<leftarrow> store32 m p num; word_aligned_memset m (p + 4) num count }"

section \<open>Comparison\<close>

fun memcmp :: "mem \<Rightarrow> int \<Rightarrow> int \<Rightarrow> nat \<Rightarrow> int option" where
  "memcmp m p1 p2 0 = Some 0"
| "memcmp m p1 p2 (Suc n) = do {
     a \<leftarrow> load8 m p1; b \<leftarrow> load8 m p2;
     if a \<noteq> b then Some (to_s32 ((p1 + 1) - (p2 + 1)))
     else memcmp m (p1 + 1) (p2 + 1) n }"

partial_function (option) strcmp :: "mem \<Rightarrow> int \<Rightarrow> int \<Rightarrow> int option" where [code]:
  "strcmp m s1 s2 = do {
     a \<leftarrow> load8 m s1; b \<leftarrow> load8 m s2;
     if a \<noteq> 0 \<and> a = b then strcmp m (s1 + 1) (s2 + 1)
     else Some (uint a - uint b) }"

fun strncmp_loop :: "mem \<Rightarrow> int \<Rightarrow> int \<Rightarrow> nat \<Rightarrow> int option" where
  "strncmp_loop m s1 s2 0 = Some 0"
| "strncmp_loop m s1 s2 (Suc n) = do {
     a \<leftarrow> load8 m s1; b \<leftarrow> load8 m s2;
     let diff = uint a - uint b in
     if diff \<noteq> 0 then Some diff
     else if a = 0 \<or> b = 0 then Some 0
     else strncmp_loop m s1 s2 n }"

definition strncmp :: "mem \<Rightarrow> int \<Rightarrow> int \<Rightarrow> nat \<Rightarrow> int option" where
  "strncmp m s1 s2 sz = strncmp_loop m s1 s2 (nat (to_s32 (int sz)))"

section \<open>Length and search\<close>

text \<open>The inner loop of \<open>strlen\<close>: the first byte of the word that is zero.\<close>

function zero_byte_from :: "u32 \<Rightarrow> nat \<Rightarrow> nat option" where
  "zero_byte_from chunk i =
     (if i < 4 then
        (let mask = push_bit (i * 8) 255 in
         if chunk AND mask = 0 then Some i else zero_byte_from chunk (Suc i))
      else None)"
  by pat_completeness auto
termination by (relation "measure (\<lambda>(c, i). 4 - i)") auto

declare zero_byte_from.simps [simp del]

partial_function (option) strlen_words :: "mem \<Rightarrow> int \<Rightarrow> int \<Rightarrow> int option" where [code]:
  "strlen_words m ptr len = do {
     chunk \<leftarrow> load32 m ptr;
     case zero_byte_from chunk 0 of
       Some i \<Rightarrow> Some (len + int i)
     | None \<Rightarrow> strlen_words m (ptr + 4) (len + 4) }"

function strlen_bytes :: "mem \<Rightarrow> int \<Rightarrow> int \<Rightarrow> int \<Rightarrow> int option option" where
  "strlen_bytes m s p next_aligned =
     (if p < next_aligned then do {
        b \<leftarrow> load8 m p;
        if b = 0 then Some (Some (p - s)) else strlen_bytes m s (p + 1) next_aligned }
      else Some None)"
  by pat_completeness auto
termination by (relation "measure (\<lambda>(m, s, p, n). nat (n - p))") auto

declare strlen_bytes.simps [simp del]

definition strlen :: "mem \<Rightarrow> int \<Rightarrow> int option" where
  "strlen m s =
     (if s mod 4 \<noteq> 0 then
        let next_aligned = 4 * (s div 4) + 4 in do {
          r \<leftarrow> strlen_bytes m s s next_aligned;
          case r of Some k \<Rightarrow> Some k
          | None \<Rightarrow> strlen_words m next_aligned (next_aligned - s) }
      else strlen_words m s 0)"

fun strnlen_loop :: "mem \<Rightarrow> int \<Rightarrow> nat \<Rightarrow> nat \<Rightarrow> int option" where
  "strnlen_loop m s i 0 = Some (to_u32 (int i - 1))"
| "strnlen_loop m s i (Suc k) = do {
     b \<leftarrow> load8 m (s + int i);
     if b = 0 then Some (int i) else strnlen_loop m s (Suc i) k }"

text \<open>The loop leaves with \<open>i = maxlen\<close>, so \<open>maxlen - 1\<close> is what the last equation returns.\<close>

definition strnlen :: "mem \<Rightarrow> int \<Rightarrow> nat \<Rightarrow> int option" where
  "strnlen m s maxlen = strnlen_loop m s 0 maxlen"

fun memchr :: "mem \<Rightarrow> int \<Rightarrow> int \<Rightarrow> nat \<Rightarrow> int option" where
  "memchr m ptr ch 0 = Some 0"
| "memchr m ptr ch (Suc count) = do {
     b \<leftarrow> load8 m ptr;
     if uint b = ch then Some ptr else memchr m (ptr + 1) ch count }"

partial_function (option) strrchr :: "mem \<Rightarrow> int \<Rightarrow> int \<Rightarrow> int option" where [code]:
  "strrchr m str ch = do {
     b \<leftarrow> load8 m str;
     if b \<noteq> 0 then (if uint b = ch then Some str else strrchr m str ch)
     else Some 0 }"

section \<open>Lemmas on strings in memory\<close>

lemma bytes_at_iff:
  "bytes_at m p bs \<longleftrightarrow> (\<forall>i < length bs. m (p + int i) = Some (bs ! i))"
proof (induction bs arbitrary: p)
  case (Cons b bs)
  show ?case
    by (auto simp: Cons.IH All_less_Suc2 add.assoc)
qed simp

lemma cstr_at_iff:
  "cstr_at m p s \<longleftrightarrow> 0 \<notin> set s \<and> bytes_at m p s \<and> m (p + int (length s)) = Some 0"
  by (induction s arbitrary: p) (auto simp: add.assoc)

lemma cstr_at_unique: "cstr_at m p s \<Longrightarrow> cstr_at m p t \<Longrightarrow> s = t"
proof (induction s arbitrary: p t)
  case Nil
  then show ?case by (cases t) auto
next
  case (Cons b s)
  then show ?case by (cases t) auto
qed

lemma load_bytes_Some: "load_bytes m a n = Some bs \<longleftrightarrow> length bs = n \<and> bytes_at m a bs"
proof (induction n arbitrary: a bs)
  case (Suc n)
  show ?case
    by (cases bs) (auto simp: Suc.IH load8_def bind_eq_Some_conv)
qed auto

lemma load_bytes_mapped: "mapped m a (int n) \<Longrightarrow> \<exists>bs. load_bytes m a n = Some bs"
proof (induction n arbitrary: a)
  case (Suc n)
  from Suc.prems have "\<exists>b. m a = Some b" by (intro mappedD) auto
  moreover from Suc.prems have "mapped m (a + 1) (int n)" by (rule mapped_sub) auto
  ultimately show ?case using Suc.IH by (fastforce simp: load8_def)
qed simp

lemma store_bytes_Some:
  "mapped m a (int (length bs)) \<Longrightarrow>
   \<exists>m'. store_bytes m a bs = Some m' \<and> writes_only m m' a (int (length bs)) \<and>
        bytes_at m' a bs"
proof (induction bs arbitrary: a m)
  case (Cons b bs)
  have b: "m a \<noteq> None" using Cons.prems by (auto simp: mapped_def)
  have "mapped (m(a \<mapsto> b)) (a + 1) (int (length bs))"
    using Cons.prems by (auto simp: mapped_def)
  from Cons.IH [OF this] obtain m' where m': "store_bytes (m(a \<mapsto> b)) (a + 1) bs = Some m'"
    "writes_only (m(a \<mapsto> b)) m' (a + 1) (int (length bs))" "bytes_at m' (a + 1) bs"
    by blast
  then show ?case
    using b by (auto simp: store8_def writes_only_def)
qed simp

section \<open>strlen\<close>

lemma mask8_u32: "(255 :: u32) = mask 8"
  by (simp add: mask_eq_exp_minus_1)

lemma word_and_byte_mask:
  fixes w :: u32
  assumes "i < 4"
  shows "w AND push_bit (i * 8) 255 = 0 \<longleftrightarrow> byte_of i w = 0"
proof
  assume a: "w AND push_bit (i * 8) 255 = 0"
  show "byte_of i w = 0"
  proof (rule bit_word_eqI)
    fix n assume "n < LENGTH(8)"
    with assms a [THEN arg_cong, of "\<lambda>x. bit x (8 * i + n)"]
    show "bit (byte_of i w) n = bit (0 :: u8) n"
      by (auto simp: bit_simps bit_byte_of mask8_u32 mult.commute)
  qed
next
  assume a: "byte_of i w = 0"
  show "w AND push_bit (i * 8) 255 = 0"
  proof (rule bit_word_eqI)
    fix n assume "n < LENGTH(32)"
    show "bit (w AND push_bit (i * 8) 255) n = bit (0 :: u32) n"
      using a [THEN arg_cong, of "\<lambda>x. bit x (n - 8 * i)"]
      by (auto simp: bit_simps bit_byte_of mask8_u32 mult.commute)
  qed
qed

lemma zero_byte_from_word:
  "zero_byte_from (word_of_bytes b0 b1 b2 b3) 0 =
     (if b0 = 0 then Some 0 else if b1 = 0 then Some 1 else if b2 = 0 then Some 2
      else if b3 = 0 then Some 3 else None)"
  using word_and_byte_mask [of 0 "word_of_bytes b0 b1 b2 b3"]
    word_and_byte_mask [of 1 "word_of_bytes b0 b1 b2 b3"]
    word_and_byte_mask [of 2 "word_of_bytes b0 b1 b2 b3"]
    word_and_byte_mask [of 3 "word_of_bytes b0 b1 b2 b3"]
  by (simp add: zero_byte_from.simps [of _ 0] zero_byte_from.simps [of _ "Suc 0"]
      zero_byte_from.simps [of _ 2] zero_byte_from.simps [of _ 3] zero_byte_from.simps [of _ 4]
      numeral_2_eq_2 [symmetric])

lemma list_quads:
  obtains "s = []" | x where "s = [x]" | x y where "s = [x, y]" | x y z where "s = [x, y, z]"
  | b0 b1 b2 b3 t where "s = b0 # b1 # b2 # b3 # t"
  by (metis neq_Nil_conv)

text \<open>
  The aligned word that holds the terminator has to be mapped as a whole: \<open>strlen\<close> reads words.
\<close>

definition last_word_mapped :: "mem \<Rightarrow> int \<Rightarrow> bool" where
  "last_word_mapped m e \<longleftrightarrow> mapped m (4 * (e div 4)) 4"

lemma strlen_words_cstr:
  "cstr_at m p s \<Longrightarrow> p mod 4 = 0 \<Longrightarrow> last_word_mapped m (p + int (length s)) \<Longrightarrow>
   strlen_words m p n = Some (n + int (length s))"
proof (induction s arbitrary: p n rule: length_induct)
  case (1 s)
  have al: "4 * (p div 4) = p" using "1.prems"(2) by presburger
  have word: "m (p + 1) \<noteq> None \<and> m (p + 2) \<noteq> None \<and> m (p + 3) \<noteq> None" if "length s < 4"
  proof -
    have "(p + int (length s)) div 4 = p div 4" using that "1.prems"(2) by (simp add: div4_within)
    with "1.prems"(3) al have "mapped m p 4" by (simp add: last_word_mapped_def)
    then show ?thesis by (auto simp: mapped_def)
  qed
  show ?case
  proof (cases s rule: list_quads)
    case (5 b0 b1 b2 b3 t)
    then have c: "b0 \<noteq> 0" "b1 \<noteq> 0" "b2 \<noteq> 0" "b3 \<noteq> 0" "m p = Some b0" "m (p + 1) = Some b1"
      "m (p + 2) = Some b2" "m (p + 3) = Some b3" "cstr_at m (p + 4) t"
      using "1.prems"(1) by (simp_all add: add.assoc)
    have e: "p + 4 + int (length t) = p + int (length s)" using 5 by simp
    have "strlen_words m (p + 4) (n + 4) = Some (n + 4 + int (length t))"
      using c(9) "1.prems"(2,3) 5 e by (intro "1.IH" [rule_format]) (simp_all add: add.assoc)
    with 5 c show ?thesis
      by (subst strlen_words.simps) (simp add: load32_def zero_byte_from_word)
  next
    case 1
    with "1.prems"(1) word obtain b1 b2 b3 where
      "m p = Some 0" "m (p + 1) = Some b1" "m (p + 2) = Some b2" "m (p + 3) = Some b3" by auto
    with 1 show ?thesis by (subst strlen_words.simps) (simp add: load32_def zero_byte_from_word)
  next
    case (2 x)
    with "1.prems"(1) word obtain b2 b3 where
      "x \<noteq> 0" "m p = Some x" "m (p + 1) = Some 0" "m (p + 2) = Some b2" "m (p + 3) = Some b3" by auto
    with 2 show ?thesis by (subst strlen_words.simps) (simp add: load32_def zero_byte_from_word)
  next
    case (3 x y)
    with "1.prems"(1) word obtain b3 where
      "x \<noteq> 0" "y \<noteq> 0" "m p = Some x" "m (p + 1) = Some y" "m (p + 2) = Some 0" "m (p + 3) = Some b3"
      by (auto simp: add.assoc)
    with 3 show ?thesis by (subst strlen_words.simps) (simp add: load32_def zero_byte_from_word)
  next
    case (4 x y z)
    with "1.prems"(1) have
      "x \<noteq> 0" "y \<noteq> 0" "z \<noteq> 0" "m p = Some x" "m (p + 1) = Some y" "m (p + 2) = Some z" "m (p + 3) = Some 0"
      by (auto simp: add.assoc)
    with 4 show ?thesis by (subst strlen_words.simps) (simp add: load32_def zero_byte_from_word)
  qed
qed

lemma strlen_bytes_cstr:
  "cstr_at m p s \<Longrightarrow> strlen_bytes m s0 p e =
     Some (if p + int (length s) < e then Some (p - s0 + int (length s)) else None)"
proof (induction s arbitrary: p)
  case Nil
  then show ?case by (simp add: strlen_bytes.simps [of m s0 p] load8_def)
next
  case (Cons b s)
  then show ?case
    by (auto simp: strlen_bytes.simps [of m s0 p] load8_def)
qed

lemma cstr_at_drop: "cstr_at m p s \<Longrightarrow> k \<le> length s \<Longrightarrow> cstr_at m (p + int k) (drop k s)"
proof (induction k arbitrary: p s)
  case (Suc k)
  then obtain b t where s: "s = b # t" by (cases s) auto
  with Suc.prems have "cstr_at m (p + 1 + int k) (drop k t)" by (intro Suc.IH) auto
  then show ?case by (simp add: s add.assoc)
qed simp

lemma strlen_cstr:
  assumes s: "cstr_at m p s" and e: "last_word_mapped m (p + int (length s))"
  shows "strlen m p = Some (int (length s))"
proof (cases "p mod 4 = 0")
  case True
  with strlen_words_cstr [OF s True e] show ?thesis by (simp add: strlen_def)
next
  case False
  define q where "q = 4 * (p div 4) + 4"
  have q: "p < q" "q mod 4 = 0" using False unfolding q_def by presburger+
  show ?thesis
  proof (cases "p + int (length s) < q")
    case True
    with False show ?thesis
      by (simp add: strlen_def Let_def q_def [symmetric] strlen_bytes_cstr [OF s])
  next
    case long: False
    define k where "k = nat (q - p)"
    have k: "p + int k = q" "k \<le> length s" using q long by (auto simp: k_def)
    have "strlen_words m q (q - p) = Some (q - p + int (length (drop k s)))"
      using cstr_at_drop [OF s k(2)] q e k by (intro strlen_words_cstr) (auto simp: of_nat_diff)
    with False long k show ?thesis
      by (simp add: strlen_def Let_def q_def [symmetric] strlen_bytes_cstr [OF s] of_nat_diff)
  qed
qed

section \<open>Comparison routines\<close>

lemma memcmp_spec:
  "bytes_at m p1 a \<Longrightarrow> bytes_at m p2 b \<Longrightarrow> length a = length b \<Longrightarrow>
   memcmp m p1 p2 (length a) = Some (if a = b then 0 else to_s32 (p1 - p2))"
proof (induction a arbitrary: p1 p2 b)
  case (Cons x a)
  then obtain y b' where "b = y # b'" by (cases b) auto
  with Cons show ?case by (auto simp: load8_def)
qed simp

lemma to_s32_eq_0: "to_s32 x = 0 \<Longrightarrow> \<bar>x\<bar> < 4294967296 \<Longrightarrow> x = 0"
proof -
  assume a: "to_s32 x = 0" "\<bar>x\<bar> < 4294967296"
  then have "(x + 2147483648) mod 4294967296 = 2147483648 mod 4294967296"
    by (simp add: to_s32_def)
  then have "4294967296 dvd x"
    by (simp only: mod_eq_dvd_iff) simp
  with a(2) show "x = 0" by (auto dest: zdvd_imp_le)
qed

lemma memcmp_zero_iff:
  assumes "bytes_at m p1 a" "bytes_at m p2 b" "length a = length b" "\<bar>p1 - p2\<bar> < 4294967296"
  shows "memcmp m p1 p2 (length a) = Some 0 \<longleftrightarrow> a = b"
proof -
  have "p1 \<noteq> p2" if "a \<noteq> b"
    using that assms(1-3) by (auto simp: bytes_at_iff nth_equalityI)
  then show ?thesis
    using memcmp_spec [OF assms(1-3)] to_s32_eq_0 [OF _ assms(4)] by auto
qed

fun strcmp_ref :: "u8 list \<Rightarrow> u8 list \<Rightarrow> int" where
  "strcmp_ref [] [] = 0"
| "strcmp_ref (a # s) [] = uint a"
| "strcmp_ref [] (b # t) = - uint b"
| "strcmp_ref (a # s) (b # t) = (if a = b then strcmp_ref s t else uint a - uint b)"

lemma strcmp_ref_zero: "0 \<notin> set s \<Longrightarrow> 0 \<notin> set t \<Longrightarrow> strcmp_ref s t = 0 \<longleftrightarrow> s = t"
  by (induction s t rule: strcmp_ref.induct) (auto simp: uint_0_iff)

lemma strcmp_spec:
  "cstr_at m p s \<Longrightarrow> cstr_at m q t \<Longrightarrow> strcmp m p q = Some (strcmp_ref s t)"
proof (induction s t arbitrary: p q rule: strcmp_ref.induct)
  case (4 a s b t)
  then show ?case by (subst strcmp.simps) (auto simp: load8_def)
qed (subst strcmp.simps; auto simp: load8_def)+

lemma strncmp_loop_first:
  "m p = Some a \<Longrightarrow> m q = Some b \<Longrightarrow>
   strncmp_loop m p q n = Some (if n = 0 then 0 else uint a - uint b)"
  by (induction n) (auto simp: load8_def Let_def)

lemma strncmp_first_byte:
  assumes "m p = Some a" "m q = Some b" "0 < n" "n \<le> 2147483647"
  shows "strncmp m p q n = Some (uint a - uint b)"
  using assms by (simp add: strncmp_def strncmp_loop_first wrap_simps)

section \<open>Searching routines\<close>

lemma strnlen_found:
  "cstr_at m (p + int i) s \<Longrightarrow> length s < n \<Longrightarrow> strnlen_loop m p i n = Some (int i + int (length s))"
proof (induction s arbitrary: i n)
  case Nil
  then show ?case by (cases n) (auto simp: load8_def)
next
  case (Cons b s)
  then obtain k where n: "n = Suc k" by (cases n) auto
  from Cons.prems have "cstr_at m (p + int (Suc i)) s" by (simp add: algebra_simps)
  with Cons n have "strnlen_loop m p (Suc i) k = Some (int (Suc i) + int (length s))" by auto
  with Cons.prems n show ?case by (auto simp: load8_def)
qed

lemma strnlen_not_found:
  "bytes_at m (p + int i) bs \<Longrightarrow> 0 \<notin> set bs \<Longrightarrow>
   strnlen_loop m p i (length bs) = Some (to_u32 (int i + int (length bs) - 1))"
proof (induction bs arbitrary: i)
  case (Cons b bs)
  from Cons.prems have "bytes_at m (p + int (Suc i)) bs" by (simp add: algebra_simps)
  with Cons have "strnlen_loop m p (Suc i) (length bs) = Some (to_u32 (int (Suc i) + int (length bs) - 1))"
    by auto
  with Cons.prems show ?case by (auto simp: load8_def)
qed simp

lemma memchr_found:
  "bytes_at m p (pre @ [c]) \<Longrightarrow> c \<notin> set pre \<Longrightarrow> length pre < n \<Longrightarrow>
   memchr m p (uint c) n = Some (p + int (length pre))"
proof (induction pre arbitrary: p n)
  case Nil
  then show ?case by (cases n) (auto simp: load8_def)
next
  case (Cons b pre)
  then show ?case by (cases n) (auto simp: load8_def)
qed

lemma memchr_absent:
  "bytes_at m p bs \<Longrightarrow> c \<notin> set bs \<Longrightarrow> memchr m p (uint c) (length bs) = Some 0"
  by (induction bs arbitrary: p) (auto simp: load8_def)

lemma strrchr_no_return:
  assumes "m p = Some b" "b \<noteq> 0" "uint b \<noteq> ch"
  shows "strrchr m p ch = None"
proof (rule ccontr)
  assume "strrchr m p ch \<noteq> None"
  then obtain y where y: "strrchr m p ch = Some y" by auto
  have "\<not> (\<exists>b. m p = Some b \<and> b \<noteq> 0 \<and> uint b \<noteq> ch)"
    by (rule strrchr.raw_induct [OF _ y]) (fastforce simp: load8_def bind_eq_Some_conv split: if_splits)
  with assms show False by blast
qed

lemma strrchr_first_char:
  assumes "m p = Some b"
  shows "strrchr m p ch = (if b = 0 then Some 0 else if uint b = ch then Some p else None)"
  using strrchr_no_return [of m p b ch] assms
  by (subst strrchr.simps) (auto simp: load8_def)

section \<open>Writing routines\<close>

lemma memset_loop_store_bytes: "memset_loop m p c n = store_bytes m p (replicate n c)"
  by (induction n arbitrary: m p) auto

lemma memset_spec:
  assumes "mapped m p (int n)"
  shows "\<exists>m'. memset m p c n = Some (p, m') \<and> writes_only m m' p (int n) \<and>
     bytes_at m' p (replicate n (word_of_int c))"
  using store_bytes_Some [of m p "replicate n (word_of_int c)"] assms
  by (auto simp: memset_def memset_loop_store_bytes)

lemma memcpy_loop_spec:
  "mapped m (src + int i) (int k) \<Longrightarrow> mapped m (dst + int i) (int k) \<Longrightarrow>
   dst \<le> src \<or> src + int (i + k) \<le> dst + int i \<Longrightarrow>
   \<exists>m'. memcpy_loop m dst src i k = Some m' \<and> dom m' = dom m \<and>
     (\<forall>j. i \<le> j \<and> j < i + k \<longrightarrow> m' (dst + int j) = m (src + int j)) \<and>
     (\<forall>a. a < dst + int i \<or> dst + int (i + k) \<le> a \<longrightarrow> m' a = m a)"
proof (induction k arbitrary: i m)
  case (Suc k)
  obtain b c where b: "m (src + int i) = Some b" and c: "m (dst + int i) = Some c"
    using Suc.prems(1,2) mappedD [of m "src + int i" _ "src + int i"]
      mappedD [of m "dst + int i" _ "dst + int i"] by fastforce
  let ?m = "m(dst + int i \<mapsto> b)"
  have d: "dom ?m = dom m" using c by auto
  have "mapped ?m (src + int (Suc i)) (int k)" "mapped ?m (dst + int (Suc i)) (int k)"
    by (rule mapped_dom [OF mapped_sub d], rule Suc.prems, simp, simp)+
  moreover have "dst \<le> src \<or> src + int (Suc i + k) \<le> dst + int (Suc i)"
    using Suc.prems(3) by auto
  ultimately obtain m' where m': "memcpy_loop ?m dst src (Suc i) k = Some m'" "dom m' = dom ?m"
    "\<forall>j. Suc i \<le> j \<and> j < Suc i + k \<longrightarrow> m' (dst + int j) = ?m (src + int j)"
    "\<forall>a. a < dst + int (Suc i) \<or> dst + int (Suc i + k) \<le> a \<longrightarrow> m' a = ?m a"
    using Suc.IH [of ?m "Suc i"] by blast
  have "m' (dst + int j) = m (src + int j)" if "i \<le> j" "j < i + Suc k" for j
  proof (cases "j = i")
    case True
    with m'(4) b show ?thesis by simp
  next
    case False
    with that m'(3) have "m' (dst + int j) = ?m (src + int j)" by auto
    also have "src + int j \<noteq> dst + int i" using that False Suc.prems(3) by auto
    then have "?m (src + int j) = m (src + int j)" by simp
    finally show ?thesis .
  qed
  moreover have "m' a = m a" if "a < dst + int i \<or> dst + int (i + Suc k) \<le> a" for a
    using that m'(4) by auto
  ultimately show ?case using b c m'(1,2) d by (auto simp: load8_def store8_def)
qed auto

lemma word_aligned_memset_spec:
  "mapped m p (4 * int n) \<Longrightarrow>
   \<exists>m'. word_aligned_memset m p num n = Some m' \<and> writes_only m m' p (4 * int n) \<and>
     (\<forall>i < n. load32 m' (p + 4 * int i) = Some num)"
proof (induction n arbitrary: m p)
  case (Suc n)
  have p4: "mapped m p 4" using Suc.prems by (rule mapped_sub) auto
  obtain m1 where m1: "store32 m p num = Some m1" using store32_mapped [OF p4] by blast
  note w1 = store32_writes_only [OF m1]
  have "mapped m1 (p + 4) (4 * int n)"
    by (rule writes_only_mapped [OF w1 mapped_sub [OF Suc.prems]]) auto
  from Suc.IH [OF this] obtain m' where m': "word_aligned_memset m1 (p + 4) num n = Some m'"
    "writes_only m1 m' (p + 4) (4 * int n)"
    "\<forall>i < n. load32 m' (p + 4 + 4 * int i) = Some num" by blast
  have "load32 m' p = load32 m1 p"
    using writes_only_same [OF m'(2)] by (simp add: load32_def)
  then have "load32 m' p = Some num" using load32_store32 [OF m1] by simp
  then have "load32 m' (p + 4 * int i) = Some num" if "i < Suc n" for i
    using m'(3) that by (cases i) (auto simp: algebra_simps)
  moreover have "writes_only m m' p (4 * int (Suc n))"
    by (rule writes_only_trans [of _ m1])
       (auto intro: writes_only_mono [OF w1] writes_only_mono [OF m'(2)])
  ultimately show ?case using m1 m'(1) by auto
qed auto

section \<open>Properties\<close>

text \<open>\<open>strlen\<close> on a NUL-terminated string at any alignment gives the number of bytes before the
  terminator, when the aligned word that holds the terminator is mapped as a whole.\<close>

theorem strlen_length:
  assumes "cstr_at m p s" "last_word_mapped m (p + int (length s))"
  shows "strlen m p = Some (int (length s))"
  using assms by (rule strlen_cstr)

theorem strlen_length_witness:
  "strlen (mem_of_list 2 [104, 101, 108, 108, 111, 0, 7, 7]) 3 = Some 4"
  using strlen_length [of "mem_of_list 2 [104, 101, 108, 108, 111, 0, 7, 7]" 3 "[101, 108, 108, 111]"]
  by (simp add: last_word_mapped_def mapped_def mem_of_list_def)

text \<open>\<open>memcmp\<close> gives 0 exactly for equal blocks, but for different ones it gives the distance of the
  two pointers, whatever the bytes are: its sign does not order the blocks.\<close>

theorem memcmp_result:
  assumes "bytes_at m p1 a" "bytes_at m p2 b" "length a = length b" "\<bar>p1 - p2\<bar> < 4294967296"
  shows "memcmp m p1 p2 (length a) = Some (if a = b then 0 else to_s32 (p1 - p2)) \<and>
    (memcmp m p1 p2 (length a) = Some 0 \<longleftrightarrow> a = b)"
  using memcmp_spec [OF assms(1-3)] memcmp_zero_iff [OF assms] by simp

theorem memcmp_result_witness:
  "memcmp (mem_of_list 4 [1, 9, 1, 2]) 4 6 (Suc (Suc 0)) = Some (- 2)"
  using memcmp_result [of "mem_of_list 4 [1, 9, 1, 2]" 4 "[1, 9]" 6 "[1, 2]"]
  by (simp add: mem_of_list_def to_s32_def del: memcmp.simps)

text \<open>\<open>strcmp\<close> on two NUL-terminated strings is the bytewise lexicographic comparison of the
  strings, and 0 exactly when they are equal.\<close>

theorem strcmp_lexicographic:
  assumes "cstr_at m p s" "cstr_at m q t"
  shows "strcmp m p q = Some (strcmp_ref s t) \<and> (strcmp m p q = Some 0 \<longleftrightarrow> s = t)"
  using strcmp_spec [OF assms] assms by (simp add: strcmp_ref_zero cstr_at_iff)

theorem strcmp_lexicographic_witness:
  "strcmp (mem_of_list 4 [97, 200, 0, 97, 98, 0]) 4 7 = Some 102"
  using strcmp_lexicographic [of "mem_of_list 4 [97, 200, 0, 97, 98, 0]" 4 "[97, 200]" 7 "[97, 98]"]
  by (simp add: mem_of_list_def)

text \<open>\<open>strncmp\<close> never moves past the first byte: for any non-zero count its result is the
  difference of the first bytes alone.\<close>

theorem strncmp_compares_first_byte:
  assumes "m p = Some a" "m q = Some b" "0 < n" "n \<le> 2147483647"
  shows "strncmp m p q n = Some (uint a - uint b)"
  using assms by (rule strncmp_first_byte)

theorem strncmp_compares_first_byte_witness:
  "strncmp (mem_of_list 4 [97, 98, 97, 99]) 4 6 2 = Some 0"
  using strncmp_compares_first_byte [of "mem_of_list 4 [97, 98, 97, 99]" 4 97 6 97 2]
  by (simp add: mem_of_list_def)

text \<open>\<open>strnlen\<close> gives the position of the first NUL among the first \<open>n\<close> bytes; when there is none
  it gives \<open>n - 1\<close> and not \<open>n\<close>.\<close>

theorem strnlen_result:
  assumes "bytes_at m p bs"
  shows "strnlen m p (length bs) =
    Some (let k = length (takeWhile (\<lambda>b. b \<noteq> 0) bs) in
          if k < length bs then int k else to_u32 (int (length bs) - 1))"
proof (cases "0 \<in> set bs")
  case True
  define s where "s = takeWhile (\<lambda>b. b \<noteq> 0) bs"
  have k: "length s < length bs"
    using True unfolding s_def by (induction bs) auto
  have "bs ! length s = 0" using nth_length_takeWhile [of "\<lambda>b. b \<noteq> 0" bs] k by (simp add: s_def)
  moreover have "bytes_at m p s"
    using assms by (auto simp: bytes_at_iff s_def takeWhile_nth) (metis k length_takeWhile_le order_less_le_trans s_def)
  moreover have "0 \<notin> set s" by (auto simp: s_def dest: set_takeWhileD)
  ultimately have "cstr_at m (p + int 0) s"
    using assms k by (simp add: cstr_at_iff bytes_at_iff)
  from strnlen_found [OF this k] k show ?thesis by (simp add: strnlen_def s_def Let_def)
next
  case False
  then have "length (takeWhile (\<lambda>b. b \<noteq> 0) bs) = length bs" by (induction bs) auto
  with strnlen_not_found [of m p 0 bs] assms False show ?thesis by (simp add: strnlen_def Let_def)
qed

theorem strnlen_result_witness:
  "strnlen (mem_of_list 4 [97, 98]) 4 (Suc (Suc 0)) = Some 1"
  using strnlen_result [of "mem_of_list 4 [97, 98]" 4 "[97, 98]"]
  by (simp add: mem_of_list_def to_u32_def Let_def)

text \<open>\<open>strrchr\<close> never advances: it answers from the first byte alone, and when that byte is neither
  NUL nor the one searched for it does not return.\<close>

theorem strrchr_answer:
  assumes "m p = Some b"
  shows "strrchr m p ch = (if b = 0 then Some 0 else if uint b = ch then Some p else None)"
  using assms by (rule strrchr_first_char)

theorem strrchr_answer_witness:
  "strrchr (mem_of_list 4 [97, 47, 0]) 4 47 = None"
  using strrchr_answer [of "mem_of_list 4 [97, 47, 0]" 4 97 47] by (simp add: mem_of_list_def)

text \<open>\<open>memcpy\<close> on mapped blocks copies \<open>n\<close> bytes and changes nothing else, when the blocks are
  disjoint and also when the destination starts at or below the source.\<close>

theorem memcpy_copies:
  assumes "mapped m src (int n)" "mapped m dst (int n)" "dst \<le> src \<or> src + int n \<le> dst"
  shows "\<exists>m'. memcpy m dst src n = Some (dst, m') \<and> writes_only m m' dst (int n) \<and>
    load_bytes m' dst n = load_bytes m src n"
proof -
  obtain m' where m': "memcpy_loop m dst src 0 n = Some m'" "dom m' = dom m"
    "\<forall>j. j < n \<longrightarrow> m' (dst + int j) = m (src + int j)"
    "\<forall>a. a < dst \<or> dst + int n \<le> a \<longrightarrow> m' a = m a"
    using memcpy_loop_spec [of m src 0 n dst] assms by auto
  obtain bs where bs: "load_bytes m src n = Some bs" using load_bytes_mapped [OF assms(1)] by blast
  then have "bytes_at m' dst bs" using m'(3) by (auto simp: load_bytes_Some bytes_at_iff)
  moreover have "length bs = n" using bs by (simp add: load_bytes_Some)
  ultimately have "load_bytes m' dst n = Some bs" by (simp only: load_bytes_Some)
  then have "load_bytes m' dst n = load_bytes m src n" using bs by simp
  with m' show ?thesis by (auto simp: memcpy_def writes_only_def)
qed

theorem memcpy_copies_witness:
  "\<exists>m'. memcpy (mem_of_list 4 [1, 2, 3, 4]) 4 6 2 = Some (4, m') \<and> load_bytes m' 4 2 = Some [3, 4]"
  using memcpy_copies [of "mem_of_list 4 [1, 2, 3, 4]" 6 2 4]
  by (auto simp: mapped_def mem_of_list_def numeral_2_eq_2 load8_def)

end
