(* ===== verification/Bit_Utils.thy ===== *)
theory Bit_Utils
  imports Prelude
begin

text \<open>
  The bit and arithmetic helpers of the kernel library: \<^verbatim>\<open>src/klibc/bitwise_utils.c\<close> (without
  the Zbb extension, which the build's \<^verbatim>\<open>-march=rv32imacd_zicsr\<close> does not enable) and
  \<^verbatim>\<open>src/klibc/math_utils.c\<close>, on 32-bit words.
\<close>

section \<open>bitwise_utils.c\<close>

function ctz_from :: "u32 \<Rightarrow> nat \<Rightarrow> nat" where
  "ctz_from x i =
     (if i < 32 then (if 1 AND drop_bit i x \<noteq> 0 then i else ctz_from x (Suc i)) else 32)"
  by pat_completeness auto
termination by (relation "measure (\<lambda>(x, i). 32 - i)") auto

declare ctz_from.simps [simp del]

definition count_trailing_zeroes :: "u32 \<Rightarrow> nat" where
  "count_trailing_zeroes x = ctz_from x 0"

definition byte_swap_32 :: "u32 \<Rightarrow> u32" where
  "byte_swap_32 original =
     push_bit 24 (original AND push_bit 0 255) OR
     push_bit 8 (original AND push_bit 8 255) OR
     drop_bit 8 (original AND push_bit 16 255) OR
     drop_bit 24 (original AND push_bit 24 255)"

section \<open>math_utils.c\<close>

record div_t =
  quot :: u32
  rem :: u32

text \<open>Signed division and remainder truncate towards zero; the operands are \<open>long\<close>, 32 bits.\<close>

definition div_long :: "int \<Rightarrow> int \<Rightarrow> int \<times> int" where
  "div_long a b = (let q = sgn a * sgn b * (\<bar>a\<bar> div \<bar>b\<bar>) in (q, a - q * b))"

definition udiv_and_ceil :: "u32 \<Rightarrow> u32 \<Rightarrow> u32" where
  "udiv_and_ceil a b = (a div b) + (if a mod b \<noteq> 0 then 1 else 0)"

definition udiv_py_power_of_2 :: "u32 \<Rightarrow> nat \<Rightarrow> div_t" where
  "udiv_py_power_of_2 a power_of_two =
     (let significant_bits = push_bit power_of_two (- 1 :: u32) in
      \<lparr>quot = drop_bit power_of_two a, rem = a AND NOT significant_bits\<rparr>)"

section \<open>Counting trailing zeroes\<close>

lemma one_and_drop_bit: "1 AND drop_bit i x \<noteq> (0 :: u32) \<longleftrightarrow> bit x i"
  by (simp add: and.commute [of 1] and_one_eq bit_iff_odd_drop_bit odd_iff_mod_2_eq_one)

lemma ctz_from_step:
  "ctz_from x i = (if i < 32 then (if bit x i then i else ctz_from x (Suc i)) else 32)"
  by (subst ctz_from.simps) (simp only: one_and_drop_bit)

lemma ctz_from_least:
  "i \<le> k \<Longrightarrow> k < 32 \<Longrightarrow> bit x k \<Longrightarrow> \<forall>j. i \<le> j \<and> j < k \<longrightarrow> \<not> bit x j \<Longrightarrow> ctz_from x i = k"
proof (induction x i rule: ctz_from.induct)
  case (1 x i)
  show ?case
  proof (cases "i = k")
    case True
    with 1 show ?thesis by (subst ctz_from_step) simp
  next
    case False
    then have nb: "\<not> bit x i" using "1.prems" by auto
    then have "1 AND drop_bit i x = 0" using one_and_drop_bit [of i x] by blast
    then have "ctz_from x (Suc i) = k" using "1.IH" "1.prems" False by auto
    with nb False "1.prems" show ?thesis by (simp add: ctz_from_step [of x i])
  qed
qed

lemma exists_least_bit:
  assumes "x \<noteq> (0 :: u32)"
  obtains k where "k < 32" "bit x k" "\<forall>j < k. \<not> bit x j"
proof -
  from assms have ex: "\<exists>k. bit x k" by (auto simp: bit_eq_iff)
  define k where "k = (LEAST k. bit x k)"
  have "bit x k" unfolding k_def using ex by (rule LeastI_ex)
  moreover have "\<forall>j < k. \<not> bit x j" unfolding k_def using not_less_Least by blast
  moreover have "k < 32" using \<open>bit x k\<close> bit_imp_le_length [of x k] by simp
  ultimately show ?thesis using that by blast
qed

lemma count_trailing_zeroes_spec:
  assumes "x \<noteq> 0"
  shows "count_trailing_zeroes x < 32 \<and> bit x (count_trailing_zeroes x) \<and>
    (\<forall>j < count_trailing_zeroes x. \<not> bit x j)"
proof -
  obtain k where k: "k < 32" "bit x k" "\<forall>j < k. \<not> bit x j"
    using assms by (rule exists_least_bit)
  then have "count_trailing_zeroes x = k"
    unfolding count_trailing_zeroes_def by (intro ctz_from_least) auto
  with k show ?thesis by simp
qed

lemma ctz_from_zero: "ctz_from 0 i = 32"
  by (induction "0 :: u32" i rule: ctz_from.induct) (simp add: ctz_from_step [of 0])

section \<open>Byte order and division\<close>

lemma mask8: "(255 :: u32) = mask 8"
  by (simp add: mask_eq_exp_minus_1)

lemma byte_swap_32_bytes:
  "byte_swap_32 (word_of_bytes b0 b1 b2 b3) = word_of_bytes b3 b2 b1 b0"
  by (rule bit_word_eqI)
     (auto simp: byte_swap_32_def bit_word_of_bytes bit_simps mask8 not_less
       dest: bit_imp_le_length)

lemma byte_swap_32_involutive: "byte_swap_32 (byte_swap_32 w) = w"
  by (metis byte_swap_32_bytes word_of_byte_of)

lemma unat_udiv_and_ceil:
  assumes "b \<noteq> 0"
  shows "unat (udiv_and_ceil a b) = (unat a + unat b - 1) div unat b"
proof -
  have b: "0 < unat b" using assms by (simp add: unat_gt_0)
  define q r where "q = unat a div unat b" and "r = unat a mod unat b"
  have a: "unat a = q * unat b + r" by (simp add: q_def r_def)
  have r: "r < unat b" using b by (simp add: r_def)
  have qr: "unat (a div b) = q" "unat (a mod b) = r"
    by (simp_all add: q_def r_def unat_div_distrib unat_mod_distrib)
  show ?thesis
  proof (cases "r = 0")
    case True
    then have "a mod b = 0" using qr(2) by (simp add: unat_eq_zero)
    moreover have "(unat a + unat b - 1) div unat b = q"
      using a b True by (intro div_nat_eqI) (auto simp: algebra_simps)
    ultimately show ?thesis by (simp add: udiv_and_ceil_def qr)
  next
    case False
    then have nz: "a mod b \<noteq> 0" using qr(2) by (metis unat_0)
    have "2 \<le> unat b" using r False by linarith
    then have "q \<le> unat a div 2" unfolding q_def by (rule div_le_mono2 [rotated]) simp
    moreover have "unat a < 2 ^ LENGTH(32)" by (rule unsigned_less)
    ultimately have lt: "q + 1 < 2 ^ 32" by simp
    have "(unat a + unat b - 1) div unat b = q + 1"
      using a r False by (intro div_nat_eqI) (auto simp: algebra_simps)
    moreover have "unat (a div b + 1) = q + 1"
      using lt by (simp add: unat_word_ariths unat_div_distrib q_def [symmetric])
    ultimately show ?thesis using nz by (simp add: udiv_and_ceil_def)
  qed
qed

lemma udiv_py_power_of_2_spec:
  assumes "n < 32"
  shows "unat (quot (udiv_py_power_of_2 a n)) = unat a div 2 ^ n"
    and "unat (rem (udiv_py_power_of_2 a n)) = unat a mod 2 ^ n"
proof -
  show "unat (quot (udiv_py_power_of_2 a n)) = unat a div 2 ^ n"
    by (simp only: udiv_py_power_of_2_def Let_def div_t.simps unat_drop_bit_eq)
       (simp add: drop_bit_eq_div)
  have "a AND NOT (push_bit n (- 1)) = take_bit n a"
    by (rule bit_word_eqI) (auto simp: bit_simps)
  then show "unat (rem (udiv_py_power_of_2 a n)) = unat a mod 2 ^ n"
    by (simp only: udiv_py_power_of_2_def Let_def div_t.simps unsigned_take_bit_eq) 
       (simp add: take_bit_eq_mod)
qed

end
