(* ===== verification/Bitmap.thy ===== *)
theory Bitmap
  imports Klibc_String Bit_Utils
begin

text \<open>
  The bitmap of \<^verbatim>\<open>src/klibc/bitmap.c\<close>.  The slot words live in the byte memory at \<open>slots_ptr\<close>,
  as in the code, so that what the bitmap overwrites is visible; \<open>used_slots\<close> is the abstract
  set it represents.  \<open>WORD_SIZE\<close> is \<open>__riscv_xlen\<close>, 32 for the build's \<^verbatim>\<open>rv32imacd_zicsr\<close>.
\<close>

abbreviation WORD_SIZE :: nat where "WORD_SIZE \<equiv> 32"
abbreviation WORD_MAX :: u32 where "WORD_MAX \<equiv> - 1"

record bitmap =
  slots_size :: nat
  free_slots_count :: u32
  last_freed :: u32
  slots_ptr :: int

section \<open>Operations\<close>

definition slot_addr :: "bitmap \<Rightarrow> nat \<Rightarrow> int" where
  "slot_addr bm i = slots_ptr bm + 4 * int i"

definition bitmap_is_used :: "mem \<Rightarrow> bitmap \<Rightarrow> nat \<Rightarrow> bool option" where
  "bitmap_is_used m bm slot_no = do {
     w \<leftarrow> load32 m (slot_addr bm (slot_no div WORD_SIZE));
     Some (w AND push_bit (slot_no mod WORD_SIZE) 1 \<noteq> 0) }"

definition enable_bit :: "mem \<Rightarrow> bitmap \<Rightarrow> nat \<Rightarrow> (bool \<times> mem) option" where
  "enable_bit m bm index =
     (let word_index = index div WORD_SIZE; bit_index = index mod WORD_SIZE in
      if word_index < slots_size bm then do {
        w \<leftarrow> load32 m (slot_addr bm word_index);
        m \<leftarrow> store32 m (slot_addr bm word_index) (w OR push_bit bit_index 1);
        Some (True, m) }
      else Some (False, m))"

definition bitmap_init :: "mem \<Rightarrow> bitmap \<Rightarrow> int \<Rightarrow> nat \<Rightarrow> (bitmap \<times> mem) run" where
  "bitmap_init m bm slots n =
     (if slots = 0 then Inl Halted
      else if slots = 0 \<or> n = 0 then Inr (bm, m)
      else lift_mem (do {
        m \<leftarrow> word_aligned_memset m slots 0 n;
        Some (bm\<lparr>slots_ptr := slots, slots_size := n,
                 free_slots_count := of_nat (n * WORD_SIZE), last_freed := 0\<rparr>, m) }))"

text \<open>The scan of \<open>bitmap_allocate_slot\<close>, from word \<open>i\<close> on.\<close>

function allocate_from :: "mem \<Rightarrow> bitmap \<Rightarrow> nat \<Rightarrow> (int \<times> bitmap \<times> mem) option" where
  "allocate_from m bm i =
     (if i < slots_size bm then do {
        w \<leftarrow> load32 m (slot_addr bm i);
        if w = WORD_MAX then allocate_from m bm (Suc i)
        else let offset = count_trailing_zeroes (NOT w) in do {
          m \<leftarrow> store32 m (slot_addr bm i) (w OR push_bit offset 1);
          Some (to_s32 (int (WORD_SIZE * i + offset)),
                bm\<lparr>free_slots_count := free_slots_count bm - 1\<rparr>, m) } }
      else Some (-1, bm, m))"
  by pat_completeness auto
termination by (relation "measure (\<lambda>(m, bm, i). slots_size bm - i)") auto

declare allocate_from.simps [simp del]

text \<open>The bitmap is passed by pointer: \<open>None\<close> is the \<open>NULL\<close> that the code tests for.\<close>

definition bitmap_allocate_slot ::
  "mem \<Rightarrow> bitmap option \<Rightarrow> (int \<times> bitmap option \<times> mem) option" where
  "bitmap_allocate_slot m map_ptr =
     (case map_ptr of
        None \<Rightarrow> Some (-1, None, m)
      | Some bm \<Rightarrow> do { (slot, bm, m) \<leftarrow> allocate_from m bm 0; Some (slot, Some bm, m) })"

definition bitmap_free_slot :: "mem \<Rightarrow> bitmap \<Rightarrow> nat \<Rightarrow> (bitmap \<times> mem) run" where
  "bitmap_free_slot m bm slot =
     (if \<not> slots_size bm > slot then Inl Halted
      else lift_mem (
        let word = slot div WORD_SIZE; offset = slot mod WORD_SIZE in do {
          snapshot \<leftarrow> load32 m (slot_addr bm word);
          m \<leftarrow> store32 m (slot_addr bm word) (snapshot AND NOT (push_bit offset 1));
          w \<leftarrow> load32 m (slot_addr bm word);
          Some (if w \<noteq> snapshot then bm\<lparr>free_slots_count := free_slots_count bm + 1\<rparr> else bm, m) }))"

function mark_loop :: "mem \<Rightarrow> bitmap \<Rightarrow> nat \<Rightarrow> nat \<Rightarrow> mem option" where
  "mark_loop m bm i last_slot =
     (if i < last_slot then do {
        (_, m) \<leftarrow> enable_bit m bm i; mark_loop m bm (Suc i) last_slot }
      else Some m)"
  by pat_completeness auto
termination by (relation "measure (\<lambda>(m, bm, i, last). last - i)") auto

declare mark_loop.simps [simp del]

definition bitmap_mark_as_used :: "mem \<Rightarrow> bitmap \<Rightarrow> nat \<Rightarrow> nat \<Rightarrow> mem option" where
  "bitmap_mark_as_used m bm first_slot slots_to_mark =
     (let last_slot = nat (to_u32 (int first_slot + int slots_to_mark)) in
      mark_loop m bm first_slot last_slot)"

section \<open>The set of used slots\<close>

definition slot_bit :: "mem \<Rightarrow> bitmap \<Rightarrow> nat \<Rightarrow> bool" where
  "slot_bit m bm k =
     (case load32 m (slot_addr bm (k div WORD_SIZE)) of
        None \<Rightarrow> False | Some w \<Rightarrow> bit w (k mod WORD_SIZE))"

definition bm_capacity :: "bitmap \<Rightarrow> nat" where
  "bm_capacity bm = WORD_SIZE * slots_size bm"

definition used_slots :: "mem \<Rightarrow> bitmap \<Rightarrow> nat set" where
  "used_slots m bm = {k. k < bm_capacity bm \<and> slot_bit m bm k}"

text \<open>
  A bitmap is usable when its words are mapped and its slot numbers fit the \<open>int\<close> that
  \<open>bitmap_allocate_slot\<close> returns.
\<close>

definition bm_ok :: "mem \<Rightarrow> bitmap \<Rightarrow> bool" where
  "bm_ok m bm \<longleftrightarrow> mapped m (slots_ptr bm) (4 * int (slots_size bm)) \<and> slots_size bm \<le> 67108864"

lemma bm_ok_writes: "bm_ok m bm \<Longrightarrow> writes_only m m' a n \<Longrightarrow> bm_ok m' bm"
  by (auto simp: bm_ok_def intro: writes_only_mapped)

lemma bm_ok_count [simp]: "bm_ok m (bm\<lparr>free_slots_count := c\<rparr>) = bm_ok m bm"
  by (simp add: bm_ok_def)

abbreviation bm_writes :: "bitmap \<Rightarrow> mem \<Rightarrow> mem \<Rightarrow> bool" where
  "bm_writes bm m m' \<equiv> writes_only m m' (slots_ptr bm) (4 * int (slots_size bm))"

lemma store_slot_writes:
  "store32 m (slot_addr bm i) v = Some m' \<Longrightarrow> i < slots_size bm \<Longrightarrow> bm_writes bm m m'"
  by (rule writes_only_mono [OF store32_writes_only]) (auto simp: slot_addr_def)

lemma bm_ok_word:
  assumes "bm_ok m bm" "i < slots_size bm"
  shows "mapped m (slot_addr bm i) 4" and "\<exists>w. load32 m (slot_addr bm i) = Some w"
proof -
  show "mapped m (slot_addr bm i) 4"
    using assms by (auto simp: bm_ok_def slot_addr_def elim!: mapped_sub)
  then show "\<exists>w. load32 m (slot_addr bm i) = Some w" by (rule load32_mapped)
qed

lemma store_slot_bit:
  assumes "store32 m (slot_addr bm i) v = Some m'"
  shows "slot_bit m' bm k = (if k div WORD_SIZE = i then bit v (k mod WORD_SIZE) else slot_bit m bm k)"
proof (cases "k div WORD_SIZE = i")
  case True
  with load32_store32 [OF assms] show ?thesis by (simp add: slot_bit_def)
next
  case False
  then have "load32 m' (slot_addr bm (k div WORD_SIZE)) = load32 m (slot_addr bm (k div WORD_SIZE))"
    by (intro load32_store32_other [OF assms]) (auto simp: slot_addr_def)
  with False show ?thesis by (simp add: slot_bit_def)
qed

lemma store_slot_bit_one:
  assumes "store32 m (slot_addr bm (j div WORD_SIZE)) v = Some m'"
    and "load32 m (slot_addr bm (j div WORD_SIZE)) = Some w"
    and "\<And>b. b < 32 \<Longrightarrow> bit v b = (if b = j mod WORD_SIZE then x else bit w b)"
  shows "slot_bit m' bm k = (if k = j then x else slot_bit m bm k)"
proof -
  have "k = j \<longleftrightarrow> k div WORD_SIZE = j div WORD_SIZE \<and> k mod WORD_SIZE = j mod WORD_SIZE"
    by (metis div_mult_mod_eq)
  moreover have "slot_bit m bm k = bit w (k mod WORD_SIZE)" if "k div WORD_SIZE = j div WORD_SIZE"
    using that assms(2) by (simp add: slot_bit_def)
  ultimately show ?thesis
    using assms(3) [of "k mod WORD_SIZE"]
    by (cases "k mod WORD_SIZE = j mod WORD_SIZE") (auto simp: store_slot_bit [OF assms(1)])
qed

lemma bit_or_push_1: "bit (w OR push_bit n 1 :: u32) b \<longleftrightarrow> bit w b \<or> (b = n \<and> n < 32)"
  by (auto simp: bit_simps)

lemma bit_and_not_push_1: "bit (w AND NOT (push_bit n 1) :: u32) b \<longleftrightarrow> bit w b \<and> b \<noteq> n"
  using bit_imp_le_length [of w b] by (auto simp: bit_simps)

lemma and_push_1: "(w AND push_bit n 1 :: u32) \<noteq> 0 \<longleftrightarrow> bit w n"
proof -
  have "(w AND push_bit n 1 :: u32) = (if bit w n then push_bit n 1 else 0)"
    by (rule bit_word_eqI) (auto simp: bit_simps)
  moreover have "push_bit n 1 \<noteq> (0 :: u32)" if "bit w n"
    using bit_imp_le_length [OF that] by (auto simp: bit_eq_iff bit_simps)
  ultimately show ?thesis by auto
qed


section \<open>What the operations do to the set\<close>

lemma bitmap_is_used_spec:
  assumes "bm_ok m bm" "k < bm_capacity bm"
  shows "bitmap_is_used m bm k = Some (k \<in> used_slots m bm)"
proof -
  have "k div WORD_SIZE < slots_size bm" using assms(2) by (simp add: bm_capacity_def less_mult_imp_div_less mult.commute)
  with assms(1) obtain w where "load32 m (slot_addr bm (k div WORD_SIZE)) = Some w"
    using bm_ok_word(2) by blast
  then show ?thesis
    using assms(2) by (simp add: bitmap_is_used_def used_slots_def slot_bit_def and_push_1 del: push_bit_of_1)
qed

lemma enable_bit_spec:
  assumes "bm_ok m bm"
  shows "\<exists>m'. enable_bit m bm k = Some (k < bm_capacity bm, m') \<and> bm_ok m' bm \<and>
    used_slots m' bm = used_slots m bm \<union> ({k} \<inter> {..< bm_capacity bm}) \<and>
    bm_writes bm m m'"
proof (cases "k < bm_capacity bm")
  case True
  then have i: "k div WORD_SIZE < slots_size bm"
    by (simp add: bm_capacity_def less_mult_imp_div_less mult.commute)
  let ?a = "slot_addr bm (k div WORD_SIZE)"
  obtain w where w: "load32 m ?a = Some w" using bm_ok_word(2) [OF assms i] by blast
  obtain m' where m': "store32 m ?a (w OR push_bit (k mod WORD_SIZE) 1) = Some m'"
    using store32_mapped [OF bm_ok_word(1) [OF assms i]] by blast
  have "slot_bit m' bm j = (if j = k then True else slot_bit m bm j)" for j
    by (rule store_slot_bit_one [OF m' w]) (auto simp: bit_or_push_1 simp del: push_bit_of_1)
  then have "used_slots m' bm = used_slots m bm \<union> ({k} \<inter> {..< bm_capacity bm})"
    using True by (auto simp: used_slots_def split: if_splits)
  moreover have "bm_writes bm m m'" using m' i by (rule store_slot_writes)
  ultimately show ?thesis
    using True i w m' assms
    by (auto simp: enable_bit_def Let_def intro: bm_ok_writes simp del: push_bit_of_1)
next
  case False
  then have "\<not> k div WORD_SIZE < slots_size bm"
    by (simp add: bm_capacity_def less_eq_div_iff_mult_less_eq mult.commute not_less)
  with False assms show ?thesis by (auto simp: enable_bit_def Let_def)
qed


lemma mark_loop_spec:
  "bm_ok m bm \<Longrightarrow>
   \<exists>m'. mark_loop m bm i last_slot = Some m' \<and> bm_ok m' bm \<and>
     used_slots m' bm = used_slots m bm \<union> ({i ..< last_slot} \<inter> {..< bm_capacity bm}) \<and>
     bm_writes bm m m'"
proof (induction "last_slot - i" arbitrary: i m)
  case 0
  then show ?case by (auto simp: mark_loop.simps [of m bm i])
next
  case (Suc n)
  then have lt: "i < last_slot" and n: "n = last_slot - Suc i" by simp_all
  from enable_bit_spec [OF Suc.prems, of i] obtain r m1 where
    m1: "enable_bit m bm i = Some (r, m1)" "bm_ok m1 bm"
      "used_slots m1 bm = used_slots m bm \<union> ({i} \<inter> {..< bm_capacity bm})" "bm_writes bm m m1"
    by blast
  from Suc.hyps(1) [OF n m1(2)] obtain m' where
    m': "mark_loop m1 bm (Suc i) last_slot = Some m'" "bm_ok m' bm"
      "used_slots m' bm = used_slots m1 bm \<union> ({Suc i ..< last_slot} \<inter> {..< bm_capacity bm})"
      "bm_writes bm m1 m'"
    by blast
  have "{i ..< last_slot} = insert i {Suc i ..< last_slot}" using lt by auto
  with lt m1 m' writes_only_trans [OF m1(4) m'(4)] show ?case
    by (auto simp: mark_loop.simps [of m bm i])
qed

lemma bitmap_mark_as_used_spec:
  assumes "bm_ok m bm" "first + n < 4294967296"
  shows "\<exists>m'. bitmap_mark_as_used m bm first n = Some m' \<and> bm_ok m' bm \<and>
     used_slots m' bm = used_slots m bm \<union> ({first ..< first + n} \<inter> {..< bm_capacity bm}) \<and>
     bm_writes bm m m'"
proof -
  have "nat (to_u32 (int first + int n)) = first + n"
    using assms(2) by (subst to_u32_id) (auto simp: nat_add_distrib)
  with mark_loop_spec [OF assms(1), of first "first + n"] show ?thesis
    by (simp add: bitmap_mark_as_used_def)
qed

lemma bitmap_init_spec:
  assumes "mapped m slots (4 * int n)" "slots \<noteq> 0" "0 < n" "n \<le> 67108864"
  shows "\<exists>bm' m'. bitmap_init m bm slots n = Inr (bm', m') \<and> bm_ok m' bm' \<and>
    slots_ptr bm' = slots \<and> slots_size bm' = n \<and> free_slots_count bm' = of_nat (WORD_SIZE * n) \<and>
    last_freed bm' = 0 \<and> used_slots m' bm' = {} \<and>
    writes_only m m' slots (4 * int n)"
proof -
  from word_aligned_memset_spec [OF assms(1), of 0] obtain m' where
    m': "word_aligned_memset m slots 0 n = Some m'" "writes_only m m' slots (4 * int n)"
      "\<forall>i < n. load32 m' (slots + 4 * int i) = Some 0" by blast
  let ?bm = "bm\<lparr>slots_ptr := slots, slots_size := n, free_slots_count := of_nat (n * WORD_SIZE),
    last_freed := 0\<rparr>"
  have "\<not> slot_bit m' ?bm k" if "k < bm_capacity ?bm" for k
  proof -
    have "k div WORD_SIZE < n"
      using that by (simp add: bm_capacity_def less_mult_imp_div_less mult.commute)
    then show ?thesis using m'(3) by (simp add: slot_bit_def slot_addr_def)
  qed
  then have "used_slots m' ?bm = {}" by (auto simp: used_slots_def)
  moreover have "bm_ok m' ?bm"
    using writes_only_mapped [OF m'(2) assms(1)] assms(4) by (simp add: bm_ok_def)
  ultimately show ?thesis
    using m' assms(2,3) by (auto simp: bitmap_init_def mult.commute)
qed

section \<open>Allocation\<close>

lemma full_word_iff: "w = (- 1 :: u32) \<longleftrightarrow> (\<forall>b < 32. bit w b)"
  by (auto simp: bit_eq_iff)

lemma slots_of_word:
  assumes "load32 m (slot_addr bm i) = Some w" "b < 32"
  shows "slot_bit m bm (32 * i + b) = bit w b"
  using assms by (simp add: slot_bit_def)

text \<open>Scanning from word \<open>i\<close> finds the least free slot of the words from \<open>i\<close> on.\<close>

definition least_free :: "nat set \<Rightarrow> nat \<Rightarrow> nat \<Rightarrow> nat \<Rightarrow> bool" where
  "least_free u lo hi k \<longleftrightarrow> lo \<le> k \<and> k < hi \<and> k \<notin> u \<and> (\<forall>j. lo \<le> j \<and> j < k \<longrightarrow> j \<in> u)"

lemma allocate_from_spec:
  assumes "bm_ok m bm"
  shows "({32 * i ..< bm_capacity bm} \<subseteq> used_slots m bm \<and> allocate_from m bm i = Some (-1, bm, m)) \<or>
    (\<exists>k m'. least_free (used_slots m bm) (32 * i) (bm_capacity bm) k \<and>
       allocate_from m bm i =
         Some (int k, bm\<lparr>free_slots_count := free_slots_count bm - 1\<rparr>, m') \<and>
       used_slots m' bm = insert k (used_slots m bm) \<and>
       bm_writes bm m m')"
proof (induction "slots_size bm - i" arbitrary: i)
  case 0
  then have "\<not> i < slots_size bm" by simp
  moreover from this have "{32 * i ..< bm_capacity bm} = {}" by (auto simp: bm_capacity_def)
  ultimately show ?case by (auto simp: allocate_from.simps [of m bm i])
next
  case (Suc n)
  then have i: "i < slots_size bm" and n: "n = slots_size bm - Suc i" by simp_all
  from i have cap: "32 * i + 32 \<le> bm_capacity bm" by (simp add: bm_capacity_def)
  obtain w where w: "load32 m (slot_addr bm i) = Some w" using bm_ok_word(2) [OF assms i] by blast
  note bits = slots_of_word [OF w]
  show ?case
  proof (cases "w = - 1")
    case True
    have used: "j \<in> used_slots m bm" if "32 * i \<le> j" "j < 32 * i + 32" for j
    proof -
      have "slot_bit m bm (32 * i + (j - 32 * i)) = bit w (j - 32 * i)"
        using that by (intro bits) auto
      with that True cap show ?thesis by (simp add: used_slots_def)
    qed
    have step: "allocate_from m bm i = allocate_from m bm (Suc i)"
      using i w True by (simp add: allocate_from.simps [of m bm i])
    have "{32 * i ..< bm_capacity bm} \<subseteq> used_slots m bm"
      if "{32 * Suc i ..< bm_capacity bm} \<subseteq> used_slots m bm"
      using that used by (auto simp: subset_iff) (metis add.commute linorder_not_less)
    moreover have "least_free (used_slots m bm) (32 * i) (bm_capacity bm) k"
      if "least_free (used_slots m bm) (32 * Suc i) (bm_capacity bm) k" for k
      using that used by (auto simp: least_free_def) (metis add.commute linorder_not_less)
    ultimately show ?thesis
      using Suc.hyps(1) [of "Suc i"] n unfolding step by blast
  next
    case False
    define off where "off = count_trailing_zeroes (NOT w)"
    have "NOT w \<noteq> 0" using False by (metis bit.double_compl bit.compl_zero)
    from count_trailing_zeroes_spec [OF this] have off: "off < 32" "bit (NOT w) off"
      "\<forall>j < off. \<not> bit (NOT w) j" by (simp_all add: off_def)
    then have nb: "\<not> bit w off" "\<forall>j < off. bit w j" by (auto simp: bit_simps)
    obtain m' where m': "store32 m (slot_addr bm i) (w OR push_bit off 1) = Some m'"
      using store32_mapped [OF bm_ok_word(1) [OF assms i]] by blast
    let ?k = "32 * i + off"
    have kd: "?k div 32 = i" "?k mod 32 = off" using off(1) by auto
    have "slot_bit m' bm j = (if j = ?k then True else slot_bit m bm j)" for j
      by (rule store_slot_bit_one) (use m' w kd in \<open>auto simp: bit_or_push_1 simp del: push_bit_of_1\<close>)
    then have u: "used_slots m' bm = insert ?k (used_slots m bm)"
      using cap off(1) by (auto simp: used_slots_def split: if_splits)
    have "least_free (used_slots m bm) (32 * i) (bm_capacity bm) ?k"
      unfolding least_free_def
    proof (intro conjI allI impI)
      show "?k \<notin> used_slots m bm" using bits [OF off(1)] nb(1) by (simp add: used_slots_def)
      fix j assume j: "32 * i \<le> j \<and> j < ?k"
      then have "slot_bit m bm (32 * i + (j - 32 * i)) = bit w (j - 32 * i)"
        using off(1) by (intro bits) auto
      with j nb(2) cap off(1) show "j \<in> used_slots m bm" by (auto simp: used_slots_def)
    qed (use cap off(1) in auto)
    moreover have "to_s32 (int ?k) = int ?k"
      using assms cap off(1) by (intro to_s32_id) (auto simp: bm_ok_def bm_capacity_def)
    then have "allocate_from m bm i =
        Some (int ?k, bm\<lparr>free_slots_count := free_slots_count bm - 1\<rparr>, m')"
      using i w False m' by (simp add: allocate_from.simps [of m bm i] off_def Let_def)
    ultimately show ?thesis using u store_slot_writes [OF m' i] by blast
  qed
qed


lemma bitmap_allocate_slot_spec:
  assumes "bm_ok m bm"
  shows "({..< bm_capacity bm} \<subseteq> used_slots m bm \<and>
      bitmap_allocate_slot m (Some bm) = Some (-1, Some bm, m)) \<or>
    (\<exists>k m'. least_free (used_slots m bm) 0 (bm_capacity bm) k \<and>
       bitmap_allocate_slot m (Some bm) =
         Some (int k, Some (bm\<lparr>free_slots_count := free_slots_count bm - 1\<rparr>), m') \<and>
       used_slots m' bm = insert k (used_slots m bm) \<and> bm_writes bm m m')"
  using allocate_from_spec [OF assms, of 0]
  by (auto simp: bitmap_allocate_slot_def atLeast0LessThan)

lemma used_slots_count [simp]: "used_slots m (bm\<lparr>free_slots_count := c\<rparr>) = used_slots m bm"
  by (simp add: used_slots_def slot_bit_def slot_addr_def bm_capacity_def)

lemma bm_capacity_count [simp]: "bm_capacity (bm\<lparr>free_slots_count := c\<rparr>) = bm_capacity bm"
  by (simp add: bm_capacity_def)

lemma used_slots_bound: "used_slots m bm \<subseteq> {..< bm_capacity bm}"
  by (auto simp: used_slots_def)

lemma finite_used_slots [simp]: "finite (used_slots m bm)"
  using used_slots_bound by (rule finite_subset) simp

lemma bm_ok_capacity: "bm_ok m bm \<Longrightarrow> bm_capacity bm \<le> 2147483648"
  by (simp add: bm_ok_def bm_capacity_def)

section \<open>Freeing\<close>

lemma clear_bit_eq: "(w AND NOT (push_bit n 1) :: u32) = w \<longleftrightarrow> \<not> bit w n"
proof
  assume "(w AND NOT (push_bit n 1)) = w"
  with bit_and_not_push_1 [of w n n] show "\<not> bit w n" by simp
next
  assume "\<not> bit w n"
  then show "(w AND NOT (push_bit n 1)) = w"
    by (intro bit_word_eqI) (auto simp: bit_and_not_push_1 simp del: push_bit_of_1)
qed

lemma bitmap_free_slot_spec:
  assumes "bm_ok m bm" "slot < slots_size bm"
  shows "\<exists>m'. bitmap_free_slot m bm slot =
      Inr (bm\<lparr>free_slots_count := free_slots_count bm + (if slot \<in> used_slots m bm then 1 else 0)\<rparr>, m') \<and>
    bm_ok m' bm \<and> used_slots m' bm = used_slots m bm - {slot} \<and> bm_writes bm m m'"
proof -
  have i: "slot div WORD_SIZE < slots_size bm" using assms(2) by auto
  have cap: "slot < bm_capacity bm" using assms(2) by (simp add: bm_capacity_def)
  let ?a = "slot_addr bm (slot div WORD_SIZE)" and ?b = "slot mod WORD_SIZE"
  obtain w where w: "load32 m ?a = Some w" using bm_ok_word(2) [OF assms(1) i] by blast
  obtain m' where m': "store32 m ?a (w AND NOT (push_bit ?b 1)) = Some m'"
    using store32_mapped [OF bm_ok_word(1) [OF assms(1) i]] by blast
  note w' = load32_store32 [OF m']
  have "slot_bit m' bm j = (if j = slot then False else slot_bit m bm j)" for j
    by (rule store_slot_bit_one [OF m' w]) (auto simp: bit_and_not_push_1 simp del: push_bit_of_1)
  then have u: "used_slots m' bm = used_slots m bm - {slot}"
    by (auto simp: used_slots_def split: if_splits)
  have in_used: "slot \<in> used_slots m bm \<longleftrightarrow> bit w ?b"
    using cap w by (simp add: used_slots_def slot_bit_def)
  note clear_bit_eq [of w ?b]
  then have "bitmap_free_slot m bm slot =
      Inr (bm\<lparr>free_slots_count := free_slots_count bm + (if slot \<in> used_slots m bm then 1 else 0)\<rparr>, m')"
    using assms(2) w m' w' by (simp add: bitmap_free_slot_def Let_def in_used del: push_bit_of_1)
  moreover have "bm_writes bm m m'" using m' i by (rule store_slot_writes)
  ultimately show ?thesis using u assms(1) by (blast intro: bm_ok_writes)
qed

lemma bitmap_free_slot_halts: "slots_size bm \<le> slot \<Longrightarrow> bitmap_free_slot m bm slot = Inl Halted"
  by (simp add: bitmap_free_slot_def)

section \<open>The free-slot counter\<close>

definition count_exact :: "mem \<Rightarrow> bitmap \<Rightarrow> bool" where
  "count_exact m bm \<longleftrightarrow>
     free_slots_count bm = of_nat (bm_capacity bm - card (used_slots m bm))"

lemma card_used_le: "card (used_slots m bm) \<le> bm_capacity bm"
  using card_mono [OF _ used_slots_bound] by fastforce

lemma count_exact_init:
  "slots_size bm = n \<Longrightarrow> used_slots m bm = {} \<Longrightarrow> free_slots_count bm = of_nat (WORD_SIZE * n) \<Longrightarrow>
   count_exact m bm"
  by (simp add: count_exact_def bm_capacity_def)

lemma count_exact_insert:
  assumes "count_exact m bm" "k < bm_capacity bm" "k \<notin> used_slots m bm"
    "used_slots m' bm = insert k (used_slots m bm)"
  shows "count_exact m' (bm\<lparr>free_slots_count := free_slots_count bm - 1\<rparr>)"
proof -
  have "card (insert k (used_slots m bm)) \<le> bm_capacity bm"
    using card_used_le [of m' bm] assms(4) by simp
  then have lt: "card (used_slots m bm) < bm_capacity bm" using assms(3) by simp
  then obtain c where c: "bm_capacity bm - card (used_slots m bm) = Suc c"
    by (metis Suc_diff_Suc)
  then have "bm_capacity bm - card (insert k (used_slots m bm)) = c" using assms(3) by simp
  with assms c show ?thesis by (simp add: count_exact_def del: of_nat_diff)
qed

lemma count_exact_remove:
  assumes "count_exact m bm" "used_slots m' bm = used_slots m bm - {k}"
  shows "count_exact m' (bm\<lparr>free_slots_count :=
    free_slots_count bm + (if k \<in> used_slots m bm then 1 else 0)\<rparr>)"
proof (cases "k \<in> used_slots m bm")
  case True
  then have "0 < card (used_slots m bm)" by (auto simp: card_gt_0_iff)
  moreover note card_used_le [of m bm]
  ultimately have "bm_capacity bm - (card (used_slots m bm) - 1) =
      Suc (bm_capacity bm - card (used_slots m bm))" by simp
  with True assms show ?thesis by (simp add: count_exact_def)
qed (use assms in \<open>simp add: count_exact_def\<close>)

section \<open>The allocator interface\<close>

text \<open>What a client of a slot allocator relies on, and what follows for a run of allocations.\<close>

fun alloc_many :: "('s \<Rightarrow> (int \<times> 's) option) \<Rightarrow> nat \<Rightarrow> 's \<Rightarrow> (int list \<times> 's) option" where
  "alloc_many f 0 s = Some ([], s)"
| "alloc_many f (Suc n) s = do {
     (k, s) \<leftarrow> f s; (ks, s) \<leftarrow> alloc_many f n s; Some (k # ks, s) }"

locale slot_allocator =
  fixes ok :: "'s \<Rightarrow> bool"
    and used :: "'s \<Rightarrow> nat set"
    and cap :: "'s \<Rightarrow> nat"
    and alloc :: "'s \<Rightarrow> (int \<times> 's) option"
  assumes used_bound: "ok s \<Longrightarrow> used s \<subseteq> {..< cap s}"
    and alloc_free: "ok s \<Longrightarrow> used s \<noteq> {..< cap s} \<Longrightarrow>
      \<exists>k s'. alloc s = Some (int k, s') \<and> k < cap s \<and> k \<notin> used s \<and>
             used s' = insert k (used s) \<and> cap s' = cap s \<and> ok s'"
    and alloc_full: "ok s \<Longrightarrow> used s = {..< cap s} \<Longrightarrow> alloc s = Some (-1, s)"
begin

lemma card_used: "ok s \<Longrightarrow> card (used s) \<le> cap s"
  using card_mono [OF _ used_bound, of s] by simp

lemma full_iff: "ok s \<Longrightarrow> used s = {..< cap s} \<longleftrightarrow> card (used s) = cap s"
proof (intro iffI)
  assume "ok s" "card (used s) = cap s"
  then show "used s = {..< cap s}" by (intro card_subset_eq) (simp_all add: used_bound)
qed simp

lemma alloc_many_distinct:
  "ok s \<Longrightarrow> n \<le> cap s - card (used s) \<Longrightarrow>
   \<exists>ks s'. alloc_many alloc n s = Some (map int ks, s') \<and> length ks = n \<and> distinct ks \<and>
     set ks \<inter> used s = {} \<and> used s' = used s \<union> set ks \<and> cap s' = cap s \<and> ok s'"
proof (induction n arbitrary: s)
  case (Suc n)
  have fin: "finite (used s)" using finite_subset [OF used_bound [OF Suc.prems(1)]] by simp
  have "card (used s) \<noteq> cap s" using Suc.prems by auto
  then have "used s \<noteq> {..< cap s}" using full_iff [OF Suc.prems(1)] by blast
  from alloc_free [OF Suc.prems(1) this] obtain k s1 where s1: "alloc s = Some (int k, s1)" "k < cap s"
    "k \<notin> used s" "used s1 = insert k (used s)" "cap s1 = cap s" "ok s1" by (elim exE conjE)
  have "n \<le> cap s1 - card (used s1)" using Suc.prems(2) fin s1(3-5) by simp
  from Suc.IH [OF s1(6) this] obtain ks s' where
    "alloc_many alloc n s1 = Some (map int ks, s')" "length ks = n" "distinct ks"
    "set ks \<inter> used s1 = {}" "used s' = used s1 \<union> set ks" "cap s' = cap s1" "ok s'" by blast
  with s1 show ?case by (intro exI [of _ "k # ks"] exI [of _ s']) simp
qed simp

lemma alloc_exhausted:
  assumes "ok s" "alloc_many alloc (cap s - card (used s)) s = Some (r, s')"
  shows "alloc s' = Some (-1, s')"
proof -
  from alloc_many_distinct [OF assms(1) order_refl] assms(2) obtain ks where
    ks: "length ks = cap s - card (used s)" "distinct ks" "set ks \<inter> used s = {}"
      "used s' = used s \<union> set ks" "cap s' = cap s" "ok s'"
    by (metis option.inject prod.inject)
  have "finite (used s)" using finite_subset [OF used_bound [OF assms(1)]] by simp
  then have "card (used s') = cap s'"
    using ks card_used [OF assms(1)] by (simp add: card_Un_disjoint Int_commute distinct_card)
  with ks(6) show ?thesis by (simp add: alloc_full full_iff)
qed

end

text \<open>The bitmap provides it.\<close>

definition bm_alloc :: "mem \<times> bitmap \<Rightarrow> (int \<times> mem \<times> bitmap) option" where
  "bm_alloc s = (case s of (m, bm) \<Rightarrow> do {
     (slot, bmo, m) \<leftarrow> bitmap_allocate_slot m (Some bm);
     Some (slot, m, case bmo of None \<Rightarrow> bm | Some bm \<Rightarrow> bm) })"

interpretation bm: slot_allocator "\<lambda>(m, bm). bm_ok m bm" "\<lambda>(m, bm). used_slots m bm"
  "\<lambda>(m, bm). bm_capacity bm" bm_alloc
proof (unfold_locales, goal_cases)
  case (1 s)
  then show ?case using used_slots_bound by (cases s) auto
next
  case (2 s)
  obtain m bm where s: "s = (m, bm)" by force
  with 2 have "bm_ok m bm" "\<not> {..< bm_capacity bm} \<subseteq> used_slots m bm"
    using used_slots_bound by auto
  with bitmap_allocate_slot_spec [of m bm] obtain k m' where
    "least_free (used_slots m bm) 0 (bm_capacity bm) k"
    "bitmap_allocate_slot m (Some bm) =
         Some (int k, Some (bm\<lparr>free_slots_count := free_slots_count bm - 1\<rparr>), m')"
    "used_slots m' bm = insert k (used_slots m bm)" "bm_writes bm m m'" by blast
  with \<open>bm_ok m bm\<close> show ?case
    unfolding s
    by (intro exI [of _ k] exI [of _ "(m', bm\<lparr>free_slots_count := free_slots_count bm - 1\<rparr>)"])
       (auto simp: bm_alloc_def least_free_def intro: bm_ok_writes)
next
  case (3 s)
  obtain m bm where s: "s = (m, bm)" by force
  with 3 have ok: "bm_ok m bm" and full: "used_slots m bm = {..< bm_capacity bm}" by simp_all
  have "\<not> least_free (used_slots m bm) 0 (bm_capacity bm) k" for k
    by (simp add: least_free_def full)
  with bitmap_allocate_slot_spec [OF ok]
  have "bitmap_allocate_slot m (Some bm) = Some (-1, Some bm, m)" by blast
  then show ?case by (simp add: s bm_alloc_def)
qed

section \<open>Properties\<close>

text \<open>C28: \<open>bitmap_allocate_slot\<close> takes the least free slot of the bitmap, marks it and nothing else, and
  counts it; on a full bitmap it gives -1 and changes nothing.  The counter stays exact.\<close>

theorem allocate_least_free:
  assumes "bm_ok m bm" "count_exact m bm"
  shows "(used_slots m bm = {..< bm_capacity bm} \<and>
      bitmap_allocate_slot m (Some bm) = Some (- 1, Some bm, m)) \<or>
    (\<exists>k m' bm'. bitmap_allocate_slot m (Some bm) = Some (int k, Some bm', m') \<and>
       k < bm_capacity bm \<and> k \<notin> used_slots m bm \<and> {..< k} \<subseteq> used_slots m bm \<and>
       used_slots m' bm' = insert k (used_slots m bm) \<and> bm_writes bm m m' \<and> count_exact m' bm')"
  using bitmap_allocate_slot_spec [OF assms(1)]
proof (elim disjE exE conjE)
  assume "{..< bm_capacity bm} \<subseteq> used_slots m bm"
    "bitmap_allocate_slot m (Some bm) = Some (- 1, Some bm, m)"
  with used_slots_bound [of m bm] show ?thesis by blast
next
  fix k m'
  assume k: "least_free (used_slots m bm) 0 (bm_capacity bm) k" and
    run: "bitmap_allocate_slot m (Some bm) =
         Some (int k, Some (bm\<lparr>free_slots_count := free_slots_count bm - 1\<rparr>), m')" and
    u: "used_slots m' bm = insert k (used_slots m bm)" and w: "bm_writes bm m m'"
  then have "count_exact m' (bm\<lparr>free_slots_count := free_slots_count bm - 1\<rparr>)"
    by (intro count_exact_insert [OF assms(2)]) (auto simp: least_free_def)
  moreover have "k < bm_capacity bm" "k \<notin> used_slots m bm" "{..< k} \<subseteq> used_slots m bm"
    using k by (auto simp: least_free_def)
  moreover have "used_slots m' (bm\<lparr>free_slots_count := free_slots_count bm - 1\<rparr>) =
    insert k (used_slots m bm)" using u by simp
  ultimately show ?thesis using run w by blast
qed

definition demo_bitmap :: bitmap where
  "demo_bitmap = \<lparr>slots_size = 1, free_slots_count = 30, last_freed = 0, slots_ptr = 8\<rparr>"

definition demo_bitmap_mem :: mem where
  "demo_bitmap_mem = mem_of_list 8 [5, 0, 0, 0]"

lemma demo_bitmap_ok: "bm_ok demo_bitmap_mem demo_bitmap"
  by (simp add: bm_ok_def demo_bitmap_def demo_bitmap_mem_def mapped_def mem_of_list_def)

lemma demo_bitmap_used: "used_slots demo_bitmap_mem demo_bitmap = {0, 2}"
proof -
  have w: "load32 demo_bitmap_mem 8 = Some 5"
    by code_simp
  have "bit (5 :: u32) k \<longleftrightarrow> k = 0 \<or> k = 2" if "k < 32" for k
  proof -
    have "(5 :: u32) = push_bit 2 1 OR push_bit 0 1" by simp
    then show ?thesis using that by (auto simp only: bit_or_iff bit_push_bit_iff bit_1_iff) auto
  qed
  then show ?thesis
    by (auto simp: used_slots_def slot_bit_def slot_addr_def demo_bitmap_def bm_capacity_def w)
qed

theorem allocate_least_free_witness:
  "\<exists>m' bm'. bitmap_allocate_slot demo_bitmap_mem (Some demo_bitmap) = Some (1, Some bm', m') \<and>
     used_slots m' bm' = {0, 1, 2}"
proof -
  have cap: "bm_capacity demo_bitmap = 32" by (simp add: bm_capacity_def demo_bitmap_def)
  have "count_exact demo_bitmap_mem demo_bitmap"
    unfolding count_exact_def demo_bitmap_used cap by (simp add: demo_bitmap_def)
  from allocate_least_free [OF demo_bitmap_ok this] show ?thesis
    unfolding demo_bitmap_used cap
  proof (elim disjE exE conjE)
    assume "{0, 2} = {..< 32 :: nat}"
    then have "(1 :: nat) \<in> {0, 2}" by simp
    then show ?thesis by simp
  next
    fix k m' bm'
    assume a: "bitmap_allocate_slot demo_bitmap_mem (Some demo_bitmap) = Some (int k, Some bm', m')"
      "k \<notin> {0, 2}" "{..< k} \<subseteq> {0, 2 :: nat}" "used_slots m' bm' = insert k {0, 2}"
    have "\<not> 1 < k" using a(3) by (auto dest: subsetD [of _ _ 1])
    with a(2) have "k = 1" by auto
    with a show ?thesis by (auto simp: insert_commute)
  qed
qed

text \<open>C15: \<open>n\<close> allocations in a row, when \<open>n\<close> slots are free, give \<open>n\<close> distinct slots that were all
  free, and leave exactly the old and the new slots used; once every free slot is taken the next
  allocation gives -1.\<close>

theorem allocations_distinct:
  assumes "bm_ok m bm" "n \<le> bm_capacity bm - card (used_slots m bm)"
  shows "\<exists>ks m' bm'. alloc_many bm_alloc n (m, bm) = Some (map int ks, m', bm') \<and>
    length ks = n \<and> distinct ks \<and> set ks \<inter> used_slots m bm = {} \<and>
    used_slots m' bm' = used_slots m bm \<union> set ks \<and>
    (n = bm_capacity bm - card (used_slots m bm) \<longrightarrow> bm_alloc (m', bm') = Some (- 1, m', bm'))"
proof -
  obtain ks s' where a: "alloc_many bm_alloc n (m, bm) = Some (map int ks, s')" "length ks = n"
    "distinct ks" "set ks \<inter> used_slots m bm = {}"
    "(case s' of (m, bm) \<Rightarrow> used_slots m bm) = used_slots m bm \<union> set ks"
    using bm.alloc_many_distinct [of "(m, bm)" n] assms by auto
  obtain m' bm' where s': "s' = (m', bm')" by force
  have "bm_alloc (m', bm') = Some (- 1, m', bm')" if "n = bm_capacity bm - card (used_slots m bm)"
    using bm.alloc_exhausted [of "(m, bm)" "map int ks" s'] assms(1) a(1) that s' by simp
  with a s' show ?thesis by auto
qed

theorem allocations_distinct_witness:
  "\<exists>ks m' bm'. alloc_many bm_alloc 30 (demo_bitmap_mem, demo_bitmap) = Some (map int ks, m', bm') \<and>
     distinct ks \<and> length ks = 30 \<and> bm_alloc (m', bm') = Some (- 1, m', bm')"
proof -
  have cap: "bm_capacity demo_bitmap - card (used_slots demo_bitmap_mem demo_bitmap) = 30"
    unfolding demo_bitmap_used by (simp add: bm_capacity_def demo_bitmap_def)
  show ?thesis
    using allocations_distinct [OF demo_bitmap_ok, of 30] unfolding cap by auto
qed

text \<open>C38: \<open>bitmap_free_slot\<close> frees one slot and counts it only when it was used, but it accepts no more
  slots than the bitmap has words: for the other 31/32 of the slots it halts the kernel.\<close>

theorem free_slot_behaviour:
  assumes "bm_ok m bm" "count_exact m bm"
  shows "if slot < slots_size bm
    then \<exists>m' bm'. bitmap_free_slot m bm slot = Inr (bm', m') \<and>
      used_slots m' bm' = used_slots m bm - {slot} \<and> bm_writes bm m m' \<and> count_exact m' bm'
    else bitmap_free_slot m bm slot = Inl Halted"
proof (cases "slot < slots_size bm")
  case True
  from bitmap_free_slot_spec [OF assms(1) True] obtain m' where
    f: "bitmap_free_slot m bm slot =
      Inr (bm\<lparr>free_slots_count := free_slots_count bm + (if slot \<in> used_slots m bm then 1 else 0)\<rparr>, m')"
    and u: "used_slots m' bm = used_slots m bm - {slot}" and w: "bm_writes bm m m'" by blast
  have "used_slots m' (bm\<lparr>free_slots_count := free_slots_count bm +
      (if slot \<in> used_slots m bm then 1 else 0)\<rparr>) = used_slots m bm - {slot}" using u by simp
  with f w count_exact_remove [OF assms(2) u] True show ?thesis by auto
qed (simp add: bitmap_free_slot_halts)

theorem free_slot_behaviour_witness:
  "bitmap_free_slot demo_bitmap_mem demo_bitmap 2 = Inl Halted"
proof -
  have "count_exact demo_bitmap_mem demo_bitmap"
    unfolding count_exact_def demo_bitmap_used by (simp add: bm_capacity_def demo_bitmap_def)
  from free_slot_behaviour [OF demo_bitmap_ok this, of 2] show ?thesis by (simp add: demo_bitmap_def)
qed

end
