(* ===== verification/Printf.thy ===== *)
theory Printf
  imports Prelude
begin

text \<open>
  The formatting engine of \<^verbatim>\<open>src/klibc/printf.c\<close>, as the build configures it:
  \<^verbatim>\<open>printf.h\<close>, included before the feature tests, defines the macros that switch floating
  point and \<open>long long\<close> support off.  A format is the \<open>string\<close> up to its terminator and \<open>*format\<close> at
  the end is NUL (\<open>peek\<close>); reading on past the terminator is \<open>None\<close>, and so is a \<open>va_arg\<close> that finds
  no argument or one of the other kind.  A \<open>char\<close> of this target is unsigned.

  An output function takes the character, the buffer state, the index and the limit, as
  \<open>out_fct_type\<close> does; the locale \<open>stream_sink\<close> states what the callers rely on.
\<close>

type_synonym 'b sink = "char \<Rightarrow> 'b \<Rightarrow> int \<Rightarrow> int \<Rightarrow> 'b option"

datatype arg = AInt u32 | AStr string

section \<open>Flags and limits\<close>

definition FLAGS_ZEROPAD :: u32 where "FLAGS_ZEROPAD = 1"
definition FLAGS_LEFT :: u32 where "FLAGS_LEFT = 2"
definition FLAGS_PLUS :: u32 where "FLAGS_PLUS = 4"
definition FLAGS_SPACE :: u32 where "FLAGS_SPACE = 8"
definition FLAGS_HASH :: u32 where "FLAGS_HASH = 16"
definition FLAGS_UPPERCASE :: u32 where "FLAGS_UPPERCASE = 32"
definition FLAGS_CHAR :: u32 where "FLAGS_CHAR = 64"
definition FLAGS_SHORT :: u32 where "FLAGS_SHORT = 128"
definition FLAGS_LONG :: u32 where "FLAGS_LONG = 256"
definition FLAGS_LONG_LONG :: u32 where "FLAGS_LONG_LONG = 512"
definition FLAGS_PRECISION :: u32 where "FLAGS_PRECISION = 1024"

lemmas flag_defs = FLAGS_ZEROPAD_def FLAGS_LEFT_def FLAGS_PLUS_def FLAGS_SPACE_def FLAGS_HASH_def
  FLAGS_UPPERCASE_def FLAGS_CHAR_def FLAGS_SHORT_def FLAGS_LONG_def FLAGS_LONG_LONG_def
  FLAGS_PRECISION_def

definition has_flag :: "u32 \<Rightarrow> u32 \<Rightarrow> bool" where
  "has_flag flags f \<longleftrightarrow> flags AND f \<noteq> 0"

abbreviation PRINTF_NTOA_BUFFER_SIZE :: int where "PRINTF_NTOA_BUFFER_SIZE \<equiv> 32"

section \<open>Output functions\<close>

definition out_buffer :: "string sink" where
  "out_buffer c buffer idx maxlen =
     (if idx < maxlen then (if idx < int (length buffer) then Some (buffer[nat idx := c]) else None)
      else Some buffer)"

definition out_null :: "'b sink" where
  "out_null c buffer idx maxlen = Some buffer"

text \<open>The console is the list of characters handed to \<open>_putchar\<close>.\<close>

definition putchar :: "char \<Rightarrow> string \<Rightarrow> string" where
  "putchar c console = console @ [c]"

definition out_char :: "string sink" where
  "out_char c console idx maxlen = Some (if c \<noteq> CHR 0x00 then putchar c console else console)"

definition out_fct :: "(char \<Rightarrow> 'a \<Rightarrow> 'a) \<Rightarrow> 'a sink" where
  "out_fct fct c a idx maxlen = Some (if c \<noteq> CHR 0x00 then fct c a else a)"

text \<open>
  A loop that puts \<open>n\<close> copies of a character, and one that puts a string.  The index is a \<open>size_t\<close> and
  wraps around at 32 bits.
\<close>

fun out_repeat :: "'b sink \<Rightarrow> int \<Rightarrow> nat \<Rightarrow> char \<Rightarrow> 'b \<times> int \<Rightarrow> ('b \<times> int) option" where
  "out_repeat out maxlen 0 c s = Some s"
| "out_repeat out maxlen (Suc n) c (b, idx) = do {
     b \<leftarrow> out c b idx maxlen; out_repeat out maxlen n c (b, to_u32 (idx + 1)) }"

fun out_string :: "'b sink \<Rightarrow> int \<Rightarrow> string \<Rightarrow> 'b \<times> int \<Rightarrow> ('b \<times> int) option" where
  "out_string out maxlen [] s = Some s"
| "out_string out maxlen (c # cs) (b, idx) = do {
     b \<leftarrow> out c b idx maxlen; out_string out maxlen cs (b, to_u32 (idx + 1)) }"

section \<open>Scanning helpers\<close>

definition peek :: "string \<Rightarrow> char" where
  "peek s = (case s of [] \<Rightarrow> CHR 0x00 | c # _ \<Rightarrow> c)"

definition is_digit :: "char \<Rightarrow> bool" where
  "is_digit ch \<longleftrightarrow> of_char ch \<ge> (48 :: int) \<and> of_char ch \<le> (57 :: int)"

fun atoi_from :: "int \<Rightarrow> string \<Rightarrow> int \<times> string" where
  "atoi_from i [] = (i, [])"
| "atoi_from i (c # s) =
     (if is_digit c then atoi_from (to_u32 (i * 10 + (of_char c - 48))) s else (i, c # s))"

definition atoi :: "string \<Rightarrow> int \<times> string" where
  "atoi s = atoi_from 0 s"

definition strnlen_s :: "string \<Rightarrow> int \<Rightarrow> int" where
  "strnlen_s str maxsize = min (int (length str)) maxsize"

section \<open>Integers\<close>

text \<open>\<open>_out_rev\<close>: \<open>buf\<close> holds the digits least significant first, \<open>len\<close> is its length.\<close>

definition out_rev ::
  "'b sink \<Rightarrow> int \<Rightarrow> string \<Rightarrow> int \<Rightarrow> u32 \<Rightarrow> 'b \<times> int \<Rightarrow> ('b \<times> int) option" where
  "out_rev out maxlen buf width flags s = (let start_idx = snd s in do {
     s \<leftarrow> (if \<not> has_flag flags FLAGS_LEFT \<and> \<not> has_flag flags FLAGS_ZEROPAD
          then out_repeat out maxlen (nat (width - int (length buf))) CHR '' '' s else Some s);
     s \<leftarrow> out_string out maxlen (rev buf) s;
     if has_flag flags FLAGS_LEFT
     then out_repeat out maxlen (nat (width - to_u32 (snd s - start_idx))) CHR '' '' s else Some s })"

text \<open>The padding loops of \<open>_ntoa_format\<close> stop at the requested length or the end of the buffer.\<close>

function zero_fill :: "string \<Rightarrow> int \<Rightarrow> string" where
  "zero_fill buf n =
     (if int (length buf) < n \<and> int (length buf) < PRINTF_NTOA_BUFFER_SIZE then zero_fill (buf @ ''0'') n else buf)"
  by pat_completeness auto
termination by (relation "measure (\<lambda>(buf, n). 32 - length buf)") auto

declare zero_fill.simps [simp del]

definition push_char :: "string \<Rightarrow> char \<Rightarrow> string" where
  "push_char buf c = (if int (length buf) < PRINTF_NTOA_BUFFER_SIZE then buf @ [c] else buf)"

definition hash_prefix :: "string \<Rightarrow> int \<Rightarrow> int \<Rightarrow> int \<Rightarrow> u32 \<Rightarrow> string" where
  "hash_prefix buf base prec width flags =
     (let len = int (length buf);
          buf = (if \<not> has_flag flags FLAGS_PRECISION \<and> len \<noteq> 0 \<and> (len = prec \<or> len = width)
                 then (let buf = take (length buf - 1) buf in
                       if length buf \<noteq> 0 \<and> base = 16 then take (length buf - 1) buf else buf)
                 else buf);
          room = int (length buf) < PRINTF_NTOA_BUFFER_SIZE;
          buf = (if base = 16 \<and> \<not> has_flag flags FLAGS_UPPERCASE \<and> room then buf @ ''x''
                 else if base = 16 \<and> has_flag flags FLAGS_UPPERCASE \<and> room then buf @ ''X''
                 else if base = 2 \<and> room then buf @ ''b''
                 else buf)
      in push_char buf CHR ''0'')"

definition ntoa_format ::
  "'b sink \<Rightarrow> int \<Rightarrow> string \<Rightarrow> bool \<Rightarrow> int \<Rightarrow> int \<Rightarrow> int \<Rightarrow> u32 \<Rightarrow> 'b \<times> int \<Rightarrow> ('b \<times> int) option" where
  "ntoa_format out maxlen buf negative base prec width flags s =
     (let width = (if \<not> has_flag flags FLAGS_LEFT \<and> width \<noteq> 0 \<and> has_flag flags FLAGS_ZEROPAD \<and>
                      (negative \<or> has_flag flags (FLAGS_PLUS OR FLAGS_SPACE))
                   then width - 1 else width);
          buf = (if \<not> has_flag flags FLAGS_LEFT
                 then (let buf = zero_fill buf prec in
                       if has_flag flags FLAGS_ZEROPAD then zero_fill buf width else buf)
                 else buf);
          buf = (if has_flag flags FLAGS_HASH then hash_prefix buf base prec width flags else buf);
          buf = (if int (length buf) < PRINTF_NTOA_BUFFER_SIZE
                 then (if negative then buf @ ''-''
                       else if has_flag flags FLAGS_PLUS then buf @ ''+''
                       else if has_flag flags FLAGS_SPACE then buf @ '' ''
                       else buf)
                 else buf)
      in out_rev out maxlen buf width flags s)"

definition digit_char :: "bool \<Rightarrow> int \<Rightarrow> char" where
  "digit_char upper digit =
     (if digit < 10 then char_of (48 + digit) else char_of ((if upper then 65 else 97) + digit - 10))"

function ntoa_digits :: "int \<Rightarrow> int \<Rightarrow> bool \<Rightarrow> string \<Rightarrow> string" where
  "ntoa_digits value base upper buf =
     (let buf' = buf @ [digit_char upper (value mod base)]; value' = value div base in
      if value' \<noteq> 0 \<and> int (length buf') < PRINTF_NTOA_BUFFER_SIZE
      then ntoa_digits value' base upper buf' else buf')"
  by pat_completeness auto
termination by (relation "measure (\<lambda>(v, b, u, buf). 32 - length buf)") auto

declare ntoa_digits.simps [simp del]

definition ntoa_long ::
  "'b sink \<Rightarrow> int \<Rightarrow> int \<Rightarrow> bool \<Rightarrow> int \<Rightarrow> int \<Rightarrow> int \<Rightarrow> u32 \<Rightarrow> 'b \<times> int \<Rightarrow> ('b \<times> int) option" where
  "ntoa_long out maxlen value negative base prec width flags s =
     (let flags = (if value = 0 then flags AND NOT FLAGS_HASH else flags);
          buf = (if \<not> has_flag flags FLAGS_PRECISION \<or> value \<noteq> 0
                 then ntoa_digits value base (has_flag flags FLAGS_UPPERCASE) [] else [])
      in ntoa_format out maxlen buf negative base prec width flags s)"

section \<open>The format interpreter\<close>

fun parse_flags :: "u32 \<Rightarrow> string \<Rightarrow> u32 \<times> string" where
  "parse_flags flags [] = (flags, [])"
| "parse_flags flags (c # s) =
     (if c = CHR ''0'' then parse_flags (flags OR FLAGS_ZEROPAD) s
      else if c = CHR ''-'' then parse_flags (flags OR FLAGS_LEFT) s
      else if c = CHR ''+'' then parse_flags (flags OR FLAGS_PLUS) s
      else if c = CHR '' '' then parse_flags (flags OR FLAGS_SPACE) s
      else if c = CHR ''#'' then parse_flags (flags OR FLAGS_HASH) s
      else (flags, c # s))"

fun va_int :: "arg list \<Rightarrow> (u32 \<times> arg list) option" where
  "va_int (AInt w # va) = Some (w, va)"
| "va_int va = None"

fun va_str :: "arg list \<Rightarrow> (string \<times> arg list) option" where
  "va_str (AStr t # va) = Some (t, va)"
| "va_str va = None"

definition parse_width :: "u32 \<Rightarrow> string \<Rightarrow> arg list \<Rightarrow> (int \<times> u32 \<times> string \<times> arg list) option" where
  "parse_width flags s va =
     (if is_digit (peek s) then (let (w, s) = atoi s in Some (w, flags, s, va))
      else if peek s = CHR ''*'' then do {
        (w, va) \<leftarrow> va_int va;
        if sint w < 0 then Some (uint (- w), flags OR FLAGS_LEFT, tl s, va)
        else Some (uint w, flags, tl s, va) }
      else Some (0, flags, s, va))"

definition parse_precision :: "u32 \<Rightarrow> string \<Rightarrow> arg list \<Rightarrow> (int \<times> u32 \<times> string \<times> arg list) option" where
  "parse_precision flags s va =
     (if peek s = CHR ''.'' then
        (let flags = flags OR FLAGS_PRECISION; s = tl s in
         if is_digit (peek s) then (let (p, s) = atoi s in Some (p, flags, s, va))
         else if peek s = CHR ''*'' then do {
           (p, va) \<leftarrow> va_int va;
           Some (if sint p > 0 then uint p else 0, flags, tl s, va) }
         else Some (0, flags, s, va))
      else Some (0, flags, s, va))"

text \<open>
  \<open>ptrdiff_t\<close> and \<open>size_t\<close> are as wide as \<open>long\<close> here, \<open>intmax_t\<close> is not.
\<close>

definition parse_length :: "u32 \<Rightarrow> string \<Rightarrow> u32 \<times> string" where
  "parse_length flags s =
     (if peek s = CHR ''l'' then
        (let flags = flags OR FLAGS_LONG; s = tl s in
         if peek s = CHR ''l'' then (flags OR FLAGS_LONG_LONG, tl s) else (flags, s))
      else if peek s = CHR ''h'' then
        (let flags = flags OR FLAGS_SHORT; s = tl s in
         if peek s = CHR ''h'' then (flags OR FLAGS_CHAR, tl s) else (flags, s))
      else if peek s = CHR ''t'' then (flags OR FLAGS_LONG, tl s)
      else if peek s = CHR ''j'' then (flags OR FLAGS_LONG_LONG, tl s)
      else if peek s = CHR ''z'' then (flags OR FLAGS_LONG, tl s)
      else (flags, s))"

text \<open>\<open>(char)\<close> and \<open>(short int)\<close> of an \<open>int\<close> argument, and of an unsigned one.\<close>

definition signed_arg :: "u32 \<Rightarrow> u32 \<Rightarrow> int" where
  "signed_arg flags w =
     (if has_flag flags FLAGS_CHAR then uint (ucast w :: u8)
      else if has_flag flags FLAGS_SHORT then sint (ucast w :: u16)
      else sint w)"

definition unsigned_arg :: "u32 \<Rightarrow> u32 \<Rightarrow> int" where
  "unsigned_arg flags w =
     (if has_flag flags FLAGS_CHAR then uint (ucast w :: u8)
      else if has_flag flags FLAGS_SHORT then uint (ucast w :: u16)
      else uint w)"

definition spec_base :: "char \<Rightarrow> int" where
  "spec_base c = (if c = CHR ''x'' \<or> c = CHR ''X'' then 16 else if c = CHR ''o'' then 8
                  else if c = CHR ''b'' then 2 else 10)"

definition spec_flags :: "char \<Rightarrow> u32 \<Rightarrow> u32" where
  "spec_flags c flags =
     (let flags = (if spec_base c = 10 then flags AND NOT FLAGS_HASH else flags);
          flags = (if c = CHR ''X'' then flags OR FLAGS_UPPERCASE else flags);
          flags = (if c \<noteq> CHR ''i'' \<and> c \<noteq> CHR ''d''
                   then flags AND NOT (FLAGS_PLUS OR FLAGS_SPACE) else flags)
      in if has_flag flags FLAGS_PRECISION then flags AND NOT FLAGS_ZEROPAD else flags)"

text \<open>With \<open>FLAGS_LONG_LONG\<close> the branch is compiled out: no argument is read, nothing is printed.\<close>

definition convert_integer ::
  "'b sink \<Rightarrow> int \<Rightarrow> char \<Rightarrow> u32 \<Rightarrow> int \<Rightarrow> int \<Rightarrow> arg list \<Rightarrow> 'b \<times> int \<Rightarrow> (('b \<times> int) \<times> arg list) option" where
  "convert_integer out maxlen c flags width precision va s =
     (let base = spec_base c; flags = spec_flags c flags in
      if has_flag flags FLAGS_LONG_LONG then Some (s, va)
      else do {
        (w, va) \<leftarrow> va_int va;
        s \<leftarrow> (if c = CHR ''i'' \<or> c = CHR ''d'' then
                (let value = (if has_flag flags FLAGS_LONG then sint w else signed_arg flags w) in
                 ntoa_long out maxlen \<bar>value\<bar> (value < 0) base precision width flags s)
              else
                (let value = (if has_flag flags FLAGS_LONG then uint w else unsigned_arg flags w) in
                 ntoa_long out maxlen value False base precision width flags s));
        Some (s, va) })"

definition convert_char ::
  "'b sink \<Rightarrow> int \<Rightarrow> u32 \<Rightarrow> int \<Rightarrow> arg list \<Rightarrow> 'b \<times> int \<Rightarrow> (('b \<times> int) \<times> arg list) option" where
  "convert_char out maxlen flags width va s = do {
     s \<leftarrow> (if \<not> has_flag flags FLAGS_LEFT then out_repeat out maxlen (nat (width - 1)) CHR '' '' s else Some s);
     (w, va) \<leftarrow> va_int va;
     s \<leftarrow> out_string out maxlen [char_of (uint w)] s;
     s \<leftarrow> (if has_flag flags FLAGS_LEFT then out_repeat out maxlen (nat (width - 1)) CHR '' '' s else Some s);
     Some (s, va) }"

definition convert_string ::
  "'b sink \<Rightarrow> int \<Rightarrow> u32 \<Rightarrow> int \<Rightarrow> int \<Rightarrow> arg list \<Rightarrow> 'b \<times> int \<Rightarrow> (('b \<times> int) \<times> arg list) option" where
  "convert_string out maxlen flags width precision va s = do {
     (p, va) \<leftarrow> va_str va;
     let l = strnlen_s p (if precision \<noteq> 0 then precision else 4294967295);
         l = (if has_flag flags FLAGS_PRECISION then min l precision else l) in do {
     s \<leftarrow> (if \<not> has_flag flags FLAGS_LEFT then out_repeat out maxlen (nat (width - l)) CHR '' '' s else Some s);
     s \<leftarrow> out_string out maxlen (if has_flag flags FLAGS_PRECISION then take (nat precision) p else p) s;
     s \<leftarrow> (if has_flag flags FLAGS_LEFT then out_repeat out maxlen (nat (width - l)) CHR '' '' s else Some s);
     Some (s, va) }}"

text \<open>\<open>%p\<close>: 8 hexadecimal digits, \<open>sizeof(void*) * 2\<close> wide, in upper case.\<close>

definition convert_pointer ::
  "'b sink \<Rightarrow> int \<Rightarrow> u32 \<Rightarrow> int \<Rightarrow> arg list \<Rightarrow> 'b \<times> int \<Rightarrow> (('b \<times> int) \<times> arg list) option" where
  "convert_pointer out maxlen flags precision va s = do {
     (w, va) \<leftarrow> va_int va;
     s \<leftarrow> ntoa_long out maxlen (uint w) False 16 precision 8
           (flags OR (FLAGS_ZEROPAD OR FLAGS_UPPERCASE)) s;
     Some (s, va) }"

definition convert ::
  "'b sink \<Rightarrow> int \<Rightarrow> char \<Rightarrow> u32 \<Rightarrow> int \<Rightarrow> int \<Rightarrow> arg list \<Rightarrow> 'b \<times> int \<Rightarrow> (('b \<times> int) \<times> arg list) option" where
  "convert out maxlen c flags width precision va s =
     (if c \<in> set ''diuxXob'' then convert_integer out maxlen c flags width precision va s
      else if c = CHR ''c'' then convert_char out maxlen flags width va s
      else if c = CHR ''s'' then convert_string out maxlen flags width precision va s
      else if c = CHR ''p'' then convert_pointer out maxlen flags precision va s
      else do { s \<leftarrow> out_string out maxlen [c] s; Some (s, va) })"

text \<open>
  One directive after its \<open>%\<close>: flags, width, precision, length, then the conversion.  At the
  terminator the code prints a NUL and steps over it, so the scan leaves the string.
\<close>

definition directive ::
  "'b sink \<Rightarrow> int \<Rightarrow> string \<Rightarrow> arg list \<Rightarrow> 'b \<times> int \<Rightarrow> (('b \<times> int) \<times> string \<times> arg list) option" where
  "directive out maxlen fmt va s =
     (let (flags, fmt) = parse_flags 0 fmt in do {
      (width, flags, fmt, va) \<leftarrow> parse_width flags fmt va;
      (precision, flags, fmt, va) \<leftarrow> parse_precision flags fmt va;
      let (flags, fmt) = parse_length flags fmt in
      (case fmt of
         [] \<Rightarrow> None
       | c # fmt \<Rightarrow> do {
           (s, va) \<leftarrow> convert out maxlen c flags width precision va s;
           Some (s, fmt, va) }) })"

lemma length_atoi_from: "length (snd (atoi_from i s)) \<le> length s"
  by (induction i s rule: atoi_from.induct) auto

lemma length_parse_flags: "length (snd (parse_flags f s)) \<le> length s"
  by (induction f s rule: parse_flags.induct) auto

lemma length_parse_width: "parse_width f s va = Some (w, f', s', va') \<Longrightarrow> length s' \<le> length s"
  using length_atoi_from [of 0 s]
  by (auto simp: parse_width_def atoi_def bind_eq_Some_conv split: if_splits prod.splits)

lemma length_parse_precision: "parse_precision f s va = Some (w, f', s', va') \<Longrightarrow> length s' \<le> length s"
  using length_atoi_from [of 0 "tl s"]
  by (auto simp: parse_precision_def atoi_def bind_eq_Some_conv Let_def split: if_splits prod.splits)

lemma length_parse_length: "length (snd (parse_length f s)) \<le> length s"
  by (auto simp: parse_length_def Let_def)

text \<open>The scanning part of a directive, on its own.\<close>

definition parse_directive ::
  "string \<Rightarrow> arg list \<Rightarrow> (char \<times> u32 \<times> int \<times> int \<times> string \<times> arg list) option" where
  "parse_directive fmt va =
     (let (flags, fmt) = parse_flags 0 fmt in do {
      (width, flags, fmt, va) \<leftarrow> parse_width flags fmt va;
      (precision, flags, fmt, va) \<leftarrow> parse_precision flags fmt va;
      let (flags, fmt) = parse_length flags fmt in
      (case fmt of [] \<Rightarrow> None | c # fmt \<Rightarrow> Some (c, flags, width, precision, fmt, va)) })"

lemma directive_split:
  "directive out maxlen fmt va s = do {
     (c, flags, width, precision, fmt, va) \<leftarrow> parse_directive fmt va;
     (s, va) \<leftarrow> convert out maxlen c flags width precision va s; Some (s, fmt, va) }"
  by (simp add: directive_def parse_directive_def Let_def bind_assoc
      split: prod.splits bind_splits list.splits)

lemma length_parse_directive:
  assumes "parse_directive fmt va = Some (c, flags, width, precision, fmt', va')"
  shows "length fmt' < length fmt"
proof -
  obtain f1 s1 where p1: "parse_flags 0 fmt = (f1, s1)" by force
  with assms obtain w f2 s2 va2 p f3 s3 va3 where
    p2: "parse_width f1 s1 va = Some (w, f2, s2, va2)"
    and p3: "parse_precision f2 s2 va2 = Some (p, f3, s3, va3)"
    and rest: "(let (flags, fmt) = parse_length f3 s3 in
      (case fmt of [] \<Rightarrow> None | c # fmt \<Rightarrow> Some (c, flags, w, p, fmt, va3))) =
      Some (c, flags, width, precision, fmt', va')"
    by (auto simp: parse_directive_def bind_eq_Some_conv)
  then have p4: "snd (parse_length f3 s3) = c # fmt'"
    by (auto split: prod.splits list.splits)
  have "length fmt' < length (snd (parse_length f3 s3))" by (simp add: p4)
  also have "\<dots> \<le> length s3" by (rule length_parse_length)
  also have "\<dots> \<le> length s2" using p3 by (rule length_parse_precision)
  also have "\<dots> \<le> length s1" using p2 by (rule length_parse_width)
  also have "\<dots> \<le> length fmt" using length_parse_flags [of 0 fmt] p1 by simp
  finally show ?thesis .
qed

lemma length_directive:
  "directive out maxlen fmt va s = Some (s', fmt', va') \<Longrightarrow> length fmt' < length fmt"
  by (auto simp: directive_split bind_eq_Some_conv dest: length_parse_directive)

function vsnprintf_loop ::
  "'b sink \<Rightarrow> int \<Rightarrow> string \<Rightarrow> arg list \<Rightarrow> 'b \<times> int \<Rightarrow> ('b \<times> int) option" where
  "vsnprintf_loop out maxlen fmt va s =
     (case fmt of
        [] \<Rightarrow> Some s
      | c # fmt \<Rightarrow>
          if c \<noteq> CHR ''%'' then do {
            s \<leftarrow> out_string out maxlen [c] s; vsnprintf_loop out maxlen fmt va s }
          else do {
            (s, fmt, va) \<leftarrow> directive out maxlen fmt va s; vsnprintf_loop out maxlen fmt va s })"
  by pat_completeness auto
termination
  by (relation "measure (\<lambda>(out, maxlen, fmt, va, s). length fmt)") (auto dest: length_directive)

declare vsnprintf_loop.simps [simp del]

definition internal_vsnprintf ::
  "'b sink \<Rightarrow> bool \<Rightarrow> 'b \<Rightarrow> int \<Rightarrow> string \<Rightarrow> arg list \<Rightarrow> ('b \<times> int) option" where
  "internal_vsnprintf out buffer_is_null buffer maxlen format va =
     (let out = (if buffer_is_null then out_null else out) in do {
      (buffer, idx) \<leftarrow> vsnprintf_loop out maxlen format va (buffer, 0);
      buffer \<leftarrow> out CHR 0x00 buffer
        (if idx < maxlen then idx else to_u32 (maxlen - 1)) maxlen;
      Some (buffer, to_s32 idx) })"

section \<open>The public functions\<close>

definition printf :: "string \<Rightarrow> arg list \<Rightarrow> string \<Rightarrow> (string \<times> int) option" where
  "printf format va console = internal_vsnprintf out_char False console 4294967295 format va"

definition sprintf :: "string \<Rightarrow> string \<Rightarrow> arg list \<Rightarrow> (string \<times> int) option" where
  "sprintf buffer format va = internal_vsnprintf out_buffer False buffer 4294967295 format va"

definition snprintf :: "string \<Rightarrow> int \<Rightarrow> string \<Rightarrow> arg list \<Rightarrow> (string \<times> int) option" where
  "snprintf buffer count format va = internal_vsnprintf out_buffer False buffer count format va"

definition vprintf :: "string \<Rightarrow> arg list \<Rightarrow> string \<Rightarrow> (string \<times> int) option" where
  "vprintf format va console = internal_vsnprintf out_char False console 4294967295 format va"

definition vsnprintf :: "string \<Rightarrow> int \<Rightarrow> string \<Rightarrow> arg list \<Rightarrow> (string \<times> int) option" where
  "vsnprintf buffer count format va = internal_vsnprintf out_buffer False buffer count format va"

definition fctprintf :: "(char \<Rightarrow> 'a \<Rightarrow> 'a) \<Rightarrow> 'a \<Rightarrow> string \<Rightarrow> arg list \<Rightarrow> ('a \<times> int) option" where
  "fctprintf out arg format va = internal_vsnprintf (out_fct out) False arg 4294967295 format va"

section \<open>Bounds of the digit buffer\<close>

lemma length_zero_fill: "length buf \<le> 32 \<Longrightarrow> length (zero_fill buf n) \<le> 32"
  by (induction buf n rule: zero_fill.induct) (subst zero_fill.simps; auto)

lemma length_ntoa_digits: "length buf < 32 \<Longrightarrow> length (ntoa_digits v base up buf) \<le> 32"
  by (induction v base up buf rule: ntoa_digits.induct) (subst ntoa_digits.simps; auto simp: Let_def)

lemma length_hash_prefix: "length buf \<le> 32 \<Longrightarrow> length (hash_prefix buf base prec width flags) \<le> 32"
  by (auto simp: hash_prefix_def push_char_def Let_def)

section \<open>Everything goes through the sink in order\<close>

lemma out_string_append:
  "out_string out maxlen (xs @ ys) s = do { s \<leftarrow> out_string out maxlen xs s; out_string out maxlen ys s }"
  by (induction xs arbitrary: s) (auto split: bind_splits)

lemma out_repeat_string: "out_repeat out maxlen n c s = out_string out maxlen (replicate n c) s"
  by (induction n arbitrary: s) (auto split: bind_splits)

lemma out_string_index:
  "out_string out maxlen cs s = Some s' \<Longrightarrow> to_u32 (snd s' - snd s) = to_u32 (int (length cs))"
proof (induction cs arbitrary: s)
  case (Cons c cs)
  obtain b i where s: "s = (b, i)" by force
  with Cons.prems obtain b' where "out_string out maxlen cs (b', to_u32 (i + 1)) = Some s'"
    by (auto simp: bind_eq_Some_conv)
  from Cons.IH [OF this] have "to_u32 (to_u32 (snd s' - to_u32 (i + 1)) + 1) = to_u32 (to_u32 (int (length cs)) + 1)"
    by simp
  then show ?case by (simp add: s to_u32_def mod_simps algebra_simps)
qed simp

definition rev_chars :: "string \<Rightarrow> int \<Rightarrow> u32 \<Rightarrow> string" where
  "rev_chars buf width flags =
     (if \<not> has_flag flags FLAGS_LEFT \<and> \<not> has_flag flags FLAGS_ZEROPAD
      then replicate (nat (width - int (length buf))) CHR '' '' else []) @
     rev buf @
     (if has_flag flags FLAGS_LEFT then replicate (nat (width - int (length buf))) CHR '' '' else [])"

lemma out_rev_string:
  assumes "length buf \<le> 32"
  shows "out_rev out maxlen buf width flags s = out_string out maxlen (rev_chars buf width flags) s"
proof (cases "has_flag flags FLAGS_LEFT")
  case True
  have "to_u32 (int (length (rev buf))) = int (length buf)" using assms by (simp add: to_u32_id)
  then have idx: "to_u32 (snd s' - snd s) = int (length buf)" if "out_string out maxlen (rev buf) s = Some s'" for s'
    using out_string_index [OF that] by simp
  have "out_rev out maxlen buf width flags s = do {
      s' \<leftarrow> out_string out maxlen (rev buf) s;
      out_string out maxlen (replicate (nat (width - to_u32 (snd s' - snd s))) CHR '' '') s' }"
    using True by (simp add: out_rev_def Let_def out_repeat_string)
  also have "\<dots> = do { s' \<leftarrow> out_string out maxlen (rev buf) s;
      out_string out maxlen (replicate (nat (width - int (length buf))) CHR '' '') s' }"
    using idx by (intro Option.bind_cong) auto
  finally show ?thesis using True by (simp add: rev_chars_def out_string_append)
next
  case False
  then show ?thesis
    by (simp add: out_rev_def Let_def out_repeat_string rev_chars_def out_string_append)
qed

text \<open>The buffer and the width that \<open>_ntoa_format\<close> hands to \<open>_out_rev\<close>.\<close>

definition format_width :: "bool \<Rightarrow> int \<Rightarrow> u32 \<Rightarrow> int" where
  "format_width negative width flags =
     (if \<not> has_flag flags FLAGS_LEFT \<and> width \<noteq> 0 \<and> has_flag flags FLAGS_ZEROPAD \<and>
         (negative \<or> has_flag flags (FLAGS_PLUS OR FLAGS_SPACE))
      then width - 1 else width)"

definition format_buf :: "string \<Rightarrow> bool \<Rightarrow> int \<Rightarrow> int \<Rightarrow> int \<Rightarrow> u32 \<Rightarrow> string" where
  "format_buf buf negative base prec width flags =
     (let buf = (if \<not> has_flag flags FLAGS_LEFT
                 then (let buf = zero_fill buf prec in
                       if has_flag flags FLAGS_ZEROPAD then zero_fill buf width else buf)
                 else buf);
          buf = (if has_flag flags FLAGS_HASH then hash_prefix buf base prec width flags else buf)
      in if int (length buf) < PRINTF_NTOA_BUFFER_SIZE
         then (if negative then buf @ ''-''
               else if has_flag flags FLAGS_PLUS then buf @ ''+''
               else if has_flag flags FLAGS_SPACE then buf @ '' ''
               else buf)
         else buf)"

lemma length_sign:
  "length b \<le> 32 \<Longrightarrow> length (if int (length b) < 32 then
     (if neg then b @ [x] else if pls then b @ [y] else if space then b @ [z] else b) else b) \<le> 32"
  by auto

lemma length_format_buf:
  "length buf \<le> 32 \<Longrightarrow> length (format_buf buf negative base prec width flags) \<le> 32"
  unfolding format_buf_def Let_def
  by (rule length_sign) (simp add: length_zero_fill length_hash_prefix)

lemma ntoa_format_string:
  assumes "length buf \<le> 32"
  shows "ntoa_format out maxlen buf negative base prec width flags s =
     out_string out maxlen (rev_chars
       (format_buf buf negative base prec (format_width negative width flags) flags)
       (format_width negative width flags) flags) s"
proof -
  define w where "w = format_width negative width flags"
  from length_format_buf [OF assms] have l: "length (format_buf buf negative base prec w flags) \<le> 32" .
  have "ntoa_format out maxlen buf negative base prec width flags s =
      out_rev out maxlen (format_buf buf negative base prec w flags) w flags s"
    by (simp only: ntoa_format_def Let_def format_buf_def format_width_def w_def)
  with out_rev_string [OF l] show ?thesis by (simp add: w_def)
qed

definition long_chars :: "int \<Rightarrow> bool \<Rightarrow> int \<Rightarrow> int \<Rightarrow> int \<Rightarrow> u32 \<Rightarrow> string" where
  "long_chars value negative base prec width flags =
     (let flags = (if value = 0 then flags AND NOT FLAGS_HASH else flags);
          buf = (if \<not> has_flag flags FLAGS_PRECISION \<or> value \<noteq> 0
                 then ntoa_digits value base (has_flag flags FLAGS_UPPERCASE) [] else []);
          width = format_width negative width flags
      in rev_chars (format_buf buf negative base prec width flags) width flags)"

lemma ntoa_long_string:
  "ntoa_long out maxlen value negative base prec width flags s =
     out_string out maxlen (long_chars value negative base prec width flags) s"
  using length_ntoa_digits [of "[]"] by (simp add: ntoa_long_def Let_def ntoa_format_string long_chars_def)

section \<open>The characters a format produces\<close>

text \<open>
  \<open>render\<close> is the specification of the whole engine: the characters a format and its arguments
  stand for, with no sink, index or limit.
\<close>

definition integer_chars :: "char \<Rightarrow> u32 \<Rightarrow> int \<Rightarrow> int \<Rightarrow> arg list \<Rightarrow> (string \<times> arg list) option" where
  "integer_chars c flags width precision va =
     (let flags = spec_flags c flags in
      if has_flag flags FLAGS_LONG_LONG then Some ([], va)
      else do {
        (w, va) \<leftarrow> va_int va;
        Some (if c = CHR ''i'' \<or> c = CHR ''d'' then
                (let value = (if has_flag flags FLAGS_LONG then sint w else signed_arg flags w) in
                 long_chars \<bar>value\<bar> (value < 0) (spec_base c) precision width flags)
              else long_chars (if has_flag flags FLAGS_LONG then uint w else unsigned_arg flags w) False
                     (spec_base c) precision width flags, va) })"

definition pad_to :: "u32 \<Rightarrow> int \<Rightarrow> int \<Rightarrow> string \<Rightarrow> string" where
  "pad_to flags width l cs =
     (let pad = replicate (nat (width - l)) CHR '' '' in
      if has_flag flags FLAGS_LEFT then cs @ pad else pad @ cs)"

definition string_chars :: "u32 \<Rightarrow> int \<Rightarrow> int \<Rightarrow> string \<Rightarrow> string" where
  "string_chars flags width precision p =
     (let l = strnlen_s p (if precision \<noteq> 0 then precision else 4294967295) in
      pad_to flags width (if has_flag flags FLAGS_PRECISION then min l precision else l)
        (if has_flag flags FLAGS_PRECISION then take (nat precision) p else p))"

definition convert_chars ::
  "char \<Rightarrow> u32 \<Rightarrow> int \<Rightarrow> int \<Rightarrow> arg list \<Rightarrow> (string \<times> arg list) option" where
  "convert_chars c flags width precision va =
     (if c \<in> set ''diuxXob'' then integer_chars c flags width precision va
      else if c = CHR ''c'' then do {
        (w, va) \<leftarrow> va_int va; Some (pad_to flags width 1 [char_of (uint w)], va) }
      else if c = CHR ''s'' then do {
        (p, va) \<leftarrow> va_str va; Some (string_chars flags width precision p, va) }
      else if c = CHR ''p'' then do {
        (w, va) \<leftarrow> va_int va;
        Some (long_chars (uint w) False 16 precision 8
                (flags OR (FLAGS_ZEROPAD OR FLAGS_UPPERCASE)), va) }
      else Some ([c], va))"

lemma convert_integer_of:
  "convert_integer out maxlen c flags width precision va s = do {
     (cs, va) \<leftarrow> integer_chars c flags width precision va;
     s \<leftarrow> out_string out maxlen cs s; Some (s, va) }"
proof (cases "has_flag (spec_flags c flags) FLAGS_LONG_LONG")
  case True
  then show ?thesis by (simp add: convert_integer_def integer_chars_def)
next
  case False
  then show ?thesis
    by (cases "va_int va"; cases "c = CHR ''i'' \<or> c = CHR ''d''")
       (simp_all add: convert_integer_def integer_chars_def ntoa_long_string Let_def split: prod.splits)
qed

lemma convert_char_of:
  "convert_char out maxlen flags width va s = do {
     (w, va) \<leftarrow> va_int va;
     s \<leftarrow> out_string out maxlen (pad_to flags width 1 [char_of (uint w)]) s; Some (s, va) }"
proof (cases "va_int va")
  case None
  then show ?thesis by (simp add: convert_char_def)
next
  case (Some x)
  then show ?thesis
    by (cases x; cases "has_flag flags FLAGS_LEFT")
       (simp_all add: convert_char_def pad_to_def out_repeat_string out_string_append Let_def
         del: out_string.simps append_Cons)
qed

lemma convert_string_of:
  "convert_string out maxlen flags width precision va s = do {
     (p, va) \<leftarrow> va_str va;
     s \<leftarrow> out_string out maxlen (string_chars flags width precision p) s; Some (s, va) }"
  by (cases "va_str va"; cases "has_flag flags FLAGS_LEFT"; cases "has_flag flags FLAGS_PRECISION")
     (simp_all add: convert_string_def string_chars_def pad_to_def out_repeat_string
       out_string_append Let_def split: prod.splits)

lemma convert_of:
  "convert out maxlen c flags width precision va s = do {
     (cs, va) \<leftarrow> convert_chars c flags width precision va;
     s \<leftarrow> out_string out maxlen cs s; Some (s, va) }"
proof -
  consider "c \<in> set ''diuxXob''" | "c = CHR ''c''" | "c = CHR ''s''" | "c = CHR ''p''"
    | "c \<notin> set ''diuxXob''" "c \<noteq> CHR ''c''" "c \<noteq> CHR ''s''" "c \<noteq> CHR ''p''" by blast
  then show ?thesis
  proof cases
    case 1
    then show ?thesis by (simp only: convert_def convert_chars_def if_True convert_integer_of)
  next
    case 2
    then show ?thesis
      by (cases "va_int va") (auto simp: convert_def convert_chars_def convert_char_of)
  next
    case 3
    then show ?thesis
      by (cases "va_str va") (auto simp: convert_def convert_chars_def convert_string_of)
  next
    case 4
    then show ?thesis
      by (cases "va_int va") (auto simp: convert_def convert_chars_def convert_pointer_def ntoa_long_string)
  next
    case 5
    then show ?thesis by (simp only: convert_def convert_chars_def if_False) simp
  qed
qed

lemma directive_of:
  "directive out maxlen fmt va s = do {
     (c, flags, width, precision, fmt, va) \<leftarrow> parse_directive fmt va;
     (cs, va) \<leftarrow> convert_chars c flags width precision va;
     s \<leftarrow> out_string out maxlen cs s; Some (s, fmt, va) }"
  by (simp add: directive_split convert_of split: prod.splits bind_splits)

function render :: "string \<Rightarrow> arg list \<Rightarrow> string option" where
  "render fmt va =
     (case fmt of
        [] \<Rightarrow> Some []
      | c # fmt \<Rightarrow>
          if c \<noteq> CHR ''%'' then do { cs \<leftarrow> render fmt va; Some (c # cs) }
          else do {
            (c, flags, width, precision, fmt, va) \<leftarrow> parse_directive fmt va;
            (cs, va) \<leftarrow> convert_chars c flags width precision va;
            rest \<leftarrow> render fmt va;
            Some (cs @ rest) })"
  by pat_completeness auto
termination
  by (relation "measure (\<lambda>(fmt, va). length fmt)") (auto dest: length_parse_directive)

declare render.simps [simp del]

lemma render_simps [simp]:
  "render [] va = Some []"
  "render (c # fmt) va =
     (if c \<noteq> CHR ''%'' then do { cs \<leftarrow> render fmt va; Some (c # cs) }
      else do {
        (c, flags, width, precision, fmt, va) \<leftarrow> parse_directive fmt va;
        (cs, va) \<leftarrow> convert_chars c flags width precision va;
        rest \<leftarrow> render fmt va;
        Some (cs @ rest) })"
  by (simp_all add: render.simps [of "[]"] render.simps [of "c # fmt"])

lemma vsnprintf_loop_simps [simp]:
  "vsnprintf_loop out maxlen [] va s = Some s"
  "vsnprintf_loop out maxlen (c # fmt) va s =
     (if c \<noteq> CHR ''%'' then do {
        s \<leftarrow> out_string out maxlen [c] s; vsnprintf_loop out maxlen fmt va s }
      else do {
        (s, fmt, va) \<leftarrow> directive out maxlen fmt va s; vsnprintf_loop out maxlen fmt va s })"
  by (simp_all add: vsnprintf_loop.simps [of out maxlen "[]"] vsnprintf_loop.simps [of out maxlen "c # fmt"])

lemma bind_None_right [simp]: "Option.bind x (\<lambda>_. None) = None"
  by (cases x) auto

lemma vsnprintf_loop_render:
  "vsnprintf_loop out maxlen fmt va s = do { cs \<leftarrow> render fmt va; out_string out maxlen cs s }"
proof (induction "length fmt" arbitrary: fmt va s rule: less_induct)
  case less
  show ?case
  proof (cases fmt)
    case Nil
    then show ?thesis by simp
  next
    case (Cons c rest)
    show ?thesis
    proof (cases "c = CHR ''%''")
      case False
      obtain b i where s: "s = (b, i)" by force
      show ?thesis
        using False Cons less
        by (cases "render rest va")
           (simp_all add: s split: bind_splits)
    next
      case True
      show ?thesis
      proof (cases "parse_directive rest va")
        case None
        then show ?thesis
          using True Cons
          by (simp add: directive_of)
      next
        case (Some d)
        obtain k flags w p fmt' va1 where d: "d = (k, flags, w, p, fmt', va1)" by (cases d) auto
        have len: "length fmt' < length fmt"
          using length_parse_directive [of rest va k flags w p fmt' va1] Some d Cons by simp
        show ?thesis
        proof (cases "convert_chars k flags w p va1")
          case None
          with True Cons Some d show ?thesis
            by (simp add: directive_of)
        next
          case conv: (Some x)
          obtain cs va2 where x: "x = (cs, va2)" by force
          have "vsnprintf_loop out maxlen fmt va s = do {
              s \<leftarrow> out_string out maxlen cs s; vsnprintf_loop out maxlen fmt' va2 s }"
            using True Cons Some d conv x
            by (simp add: directive_of)
          also have "\<dots> = do { rest \<leftarrow> render fmt' va2; out_string out maxlen (cs @ rest) s }"
            by (cases "render fmt' va2") (simp_all add: less [OF len] out_string_append)
          also have "\<dots> = do { cs \<leftarrow> render fmt va; out_string out maxlen cs s }"
            using True Cons Some d conv x by simp
          finally show ?thesis .
        qed
      qed
    qed
  qed
qed

section \<open>Sinks\<close>

text \<open>
  A stream sink consumes every character but NUL, in order, and never fails: what \<open>printf\<close> and
  \<open>fctprintf\<close> rely on.
\<close>

abbreviation non_nul :: "string \<Rightarrow> string" where
  "non_nul cs \<equiv> filter (\<lambda>c. c \<noteq> CHR 0x00) cs"

locale stream_sink =
  fixes out :: "'b sink"
    and contents :: "'b \<Rightarrow> string"
  assumes put: "\<exists>b'. out c b i maxlen = Some b' \<and> contents b' = contents b @ non_nul [c]"
begin

lemma out_string_contents:
  "0 \<le> i \<Longrightarrow> i \<le> UINT32_MAX \<Longrightarrow>
   \<exists>b'. out_string out maxlen cs (b, i) = Some (b', to_u32 (i + int (length cs))) \<and>
        contents b' = contents b @ non_nul cs"
proof (induction cs arbitrary: b i)
  case Nil
  then show ?case by (simp add: to_u32_id)
next
  case (Cons c cs)
  obtain b1 where b1: "out c b i maxlen = Some b1" "contents b1 = contents b @ non_nul [c]"
    using put by blast
  have "0 \<le> to_u32 (i + 1)" "to_u32 (i + 1) \<le> UINT32_MAX" by (simp_all add: to_u32_def)
  from Cons.IH [OF this, of b1] obtain b' where
    "out_string out maxlen cs (b1, to_u32 (i + 1)) = Some (b', to_u32 (to_u32 (i + 1) + int (length cs)))"
    "contents b' = contents b1 @ non_nul cs" by blast
  with b1 show ?case by (auto simp: to_u32_def mod_simps algebra_simps)
qed

lemma vsnprintf_contents:
  assumes "render fmt va = Some cs"
  shows "\<exists>b'. internal_vsnprintf out False b maxlen fmt va = Some (b', to_s32 (int (length cs))) \<and>
    contents b' = contents b @ non_nul cs"
proof -
  let ?i = "to_u32 (int (length cs))"
  obtain b1 where b1: "out_string out maxlen cs (b, 0) = Some (b1, ?i)"
    "contents b1 = contents b @ non_nul cs" using out_string_contents [of 0 maxlen cs b] by auto
  obtain b' where "out CHR 0x00 b1 (if ?i < maxlen then ?i
      else to_u32 (maxlen - 1)) maxlen = Some b'" "contents b' = contents b1"
    using put [of "CHR 0x00" b1] by auto
  with b1 assms show ?thesis
    by (simp add: internal_vsnprintf_def vsnprintf_loop_render to_s32_to_u32)
qed

end

interpretation console: stream_sink out_char "\<lambda>console. console"
  by unfold_locales (simp add: out_char_def putchar_def)

interpretation callback: stream_sink "out_fct (\<lambda>c a. a @ [c])" "\<lambda>a. a"
  by unfold_locales (simp add: out_fct_def)

text \<open>The buffer sink: characters at index \<open>i\<close> onwards, cut off at \<open>maxlen\<close>.\<close>

lemma out_string_buffer:
  "n \<le> length b \<Longrightarrow> int (i + length cs) \<le> UINT32_MAX \<Longrightarrow>
   out_string out_buffer (int n) cs (b, int i) =
     Some (if i < n then take i b @ take (n - i) cs @ drop (i + min (n - i) (length cs)) b else b,
           int (i + length cs))"
proof (induction cs arbitrary: b i)
  case (Cons c cs)
  have IH: "out_string out_buffer (int n) cs (b', int (Suc i)) =
     Some (if Suc i < n then take (Suc i) b' @ take (n - Suc i) cs @
             drop (Suc i + min (n - Suc i) (length cs)) b' else b', int (Suc i + length cs))"
    if "length b' = length b" for b'
    using Cons.IH [of b' "Suc i"] Cons.prems that by simp
  have u: "to_u32 (int i + 1) = int (Suc i)" using Cons.prems(2) by (simp add: to_u32_id)
  show ?case
  proof (cases "i < n")
    case True
    with Cons.prems have "i < length b" by simp
    then have upd: "b[i := c] = take i b @ c # drop (Suc i) b" by (rule upd_conv_take_nth_drop)
    have "out_string out_buffer (int n) (c # cs) (b, int i) =
        out_string out_buffer (int n) cs (b[i := c], int (Suc i))"
      using True \<open>i < length b\<close> by (simp add: out_buffer_def u del: of_nat_Suc)
    also have "\<dots> = Some (if Suc i < n then take (Suc i) (b[i := c]) @ take (n - Suc i) cs @
             drop (Suc i + min (n - Suc i) (length cs)) (b[i := c]) else b[i := c], int (Suc i + length cs))"
      by (rule IH) simp
    finally show ?thesis
      using True \<open>i < length b\<close>
      by (auto simp: upd take_Cons' Suc_diff_Suc not_less le_Suc_eq min_def Suc_le_eq
          add.commute [of "length cs"])
  next
    case False
    then have "out_string out_buffer (int n) (c # cs) (b, int i) =
        out_string out_buffer (int n) cs (b, int (Suc i))"
      by (simp add: out_buffer_def u del: of_nat_Suc)
    with IH [of b] False show ?thesis by simp
  qed
qed auto

lemma snprintf_render:
  assumes "0 < n" "n \<le> length buffer" "render fmt va = Some cs" "int n \<le> UINT32_MAX" "int (length cs) \<le> UINT32_MAX"
  shows "snprintf buffer (int n) fmt va =
    Some (take (n - 1) cs @ CHR 0x00 # drop (Suc (min (length cs) (n - 1))) buffer, to_s32 (int (length cs)))"
proof -
  let ?b = "take n cs @ drop (min n (length cs)) buffer"
  have loop: "vsnprintf_loop out_buffer (int n) fmt va (buffer, 0) = Some (?b, int (length cs))"
    using out_string_buffer [OF assms(2), of 0 cs] assms(1,3,5) by (simp add: vsnprintf_loop_render)
  have len: "length ?b = length buffer" using assms(2) by auto
  have n: "to_u32 (int n - 1) = int n - 1"
    using assms(1,4) by (intro to_u32_id) auto
  show ?thesis
  proof (cases "length cs < n")
    case True
    then have "?b[length cs := CHR 0x00] = take (n - 1) cs @ CHR 0x00 # drop (Suc (length cs)) buffer"
      using assms(2) by (auto simp: list_update_append Cons_nth_drop_Suc [symmetric])
    with True loop len assms(2) show ?thesis
      by (simp add: snprintf_def internal_vsnprintf_def out_buffer_def)
  next
    case False
    then have "?b[n - 1 := CHR 0x00] = take (n - 1) cs @ CHR 0x00 # drop n buffer"
      using assms(1,2) by (auto simp: list_update_append upd_conv_take_nth_drop min_def)
    moreover have "nat (int n - 1) = n - 1" by simp
    ultimately show ?thesis
      using False loop len assms(1,2) n
      by (simp add: snprintf_def internal_vsnprintf_def out_buffer_def min_def)
  qed
qed

section \<open>Digits\<close>

text \<open>\<open>lsd base v\<close>: the digits of \<open>v\<close>, least significant first (one digit for 0).\<close>

function lsd :: "int \<Rightarrow> int \<Rightarrow> int list" where
  "lsd base v = (if v < base \<or> base < 2 then [v] else v mod base # lsd base (v div base))"
  by pat_completeness auto
termination
proof (relation "measure (\<lambda>(base, v). nat v)", goal_cases)
  case (2 base v)
  then have "v div base < v" by (intro int_div_less_self) auto
  with 2 show ?case by simp
qed simp

declare lsd.simps [simp del]

lemma lsd_small: "v < base \<Longrightarrow> lsd base v = [v]"
  by (simp add: lsd.simps [of base v])

lemma lsd_step: "2 \<le> base \<Longrightarrow> base \<le> v \<Longrightarrow> lsd base v = v mod base # lsd base (v div base)"
  by (simp add: lsd.simps [of base v])

lemma length_lsd: "2 \<le> base \<Longrightarrow> 0 \<le> v \<Longrightarrow> v < base ^ n \<Longrightarrow> 0 < n \<Longrightarrow> length (lsd base v) \<le> n"
proof (induction n arbitrary: v)
  case (Suc n)
  show ?case
  proof (cases "v < base")
    case False
    then have "0 < n" using Suc.prems by (cases n) auto
    moreover have "v div base < base ^ n"
    proof (rule ccontr)
      assume "\<not> v div base < base ^ n"
      then have "base ^ n * base \<le> v div base * base"
        using Suc.prems(1) by (intro mult_right_mono) auto
      also have "\<dots> \<le> v" using Suc.prems(1) by (simp add: minus_mod_eq_div_mult [symmetric])
      finally show False using Suc.prems(3) by (simp add: mult.commute)
    qed
    moreover have "0 \<le> v div base" using Suc.prems by (simp add: pos_imp_zdiv_nonneg_iff)
    ultimately show ?thesis using False Suc by (simp add: lsd_step)
  qed (simp add: lsd_small)
qed simp

lemma ntoa_digits_lsd:
  "2 \<le> base \<Longrightarrow> 0 \<le> v \<Longrightarrow> length buf + length (lsd base v) \<le> 32 \<Longrightarrow>
   ntoa_digits v base up buf = buf @ map (digit_char up) (lsd base v)"
proof (induction v base up buf rule: ntoa_digits.induct)
  case (1 v base up buf)
  show ?case
  proof (cases "v < base")
    case True
    with 1 show ?thesis
      by (subst ntoa_digits.simps) (simp add: lsd_small Let_def)
  next
    case False
    then have l: "lsd base v = v mod base # lsd base (v div base)" using 1 by (simp add: lsd_step)
    have "lsd base (v div base) \<noteq> []" by (simp add: lsd.simps [of base "v div base"])
    with l "1.prems"(3) have room: "int (length buf) + 1 < 32"
      by (cases "lsd base (v div base)") auto
    have nz: "v div base \<noteq> 0" "0 \<le> v div base"
      using False "1.prems" by (simp_all add: zdiv_eq_0_iff pos_imp_zdiv_nonneg_iff)
    then show ?thesis
      using 1 False room l by (subst ntoa_digits.simps) (simp add: Let_def)
  qed
qed

lemma lsd_digits: "2 \<le> base \<Longrightarrow> 0 \<le> v \<Longrightarrow> d \<in> set (lsd base v) \<Longrightarrow> 0 \<le> d \<and> d < base"
proof (induction base v rule: lsd.induct)
  case (1 base v)
  show ?case
  proof (cases "v < base")
    case True
    with 1 show ?thesis by (simp add: lsd_small)
  next
    case False
    with "1.prems" consider "d = v mod base" | "d \<in> set (lsd base (v div base))"
      by (auto simp: lsd_step)
    then show ?thesis
      using "1.IH" False "1.prems" by cases (auto simp: pos_imp_zdiv_nonneg_iff)
  qed
qed

definition digit_value :: "char \<Rightarrow> int" where
  "digit_value c = (let k = of_char c in if k < 58 then k - 48 else if k < 97 then k - 55 else k - 87)"

definition chars_value :: "int \<Rightarrow> string \<Rightarrow> int" where
  "chars_value base cs = foldl (\<lambda>a c. a * base + digit_value c) 0 cs"

lemma of_char_digit_char:
  "0 \<le> d \<Longrightarrow> d < 16 \<Longrightarrow>
   of_char (digit_char up d) = (if d < 10 then 48 + d else if up then 55 + d else 87 + d)"
  by (auto simp: digit_char_def)

lemma digit_value_char: "0 \<le> d \<Longrightarrow> d < 16 \<Longrightarrow> digit_value (digit_char up d) = d"
  by (auto simp: digit_value_def of_char_digit_char)

lemma chars_value_lsd:
  "2 \<le> base \<Longrightarrow> base \<le> 16 \<Longrightarrow> 0 \<le> v \<Longrightarrow> chars_value base (rev (map (digit_char up) (lsd base v))) = v"
proof (induction base v rule: lsd.induct)
  case (1 base v)
  show ?case
  proof (cases "v < base")
    case True
    with 1 show ?thesis by (simp add: lsd_small chars_value_def digit_value_char)
  next
    case False
    have m: "0 \<le> v mod base" "v mod base < 16"
      using "1.prems" pos_mod_bound [of base v] pos_mod_sign [of base v] by linarith+
    have "chars_value base (rev (map (digit_char up) (lsd base (v div base)))) = v div base"
      using 1 False by (simp add: pos_imp_zdiv_nonneg_iff)
    with False "1.prems" m show ?thesis
      by (simp add: lsd_step chars_value_def digit_value_char)
  qed
qed

text \<open>\<open>_atoi\<close> reads decimal digits back.\<close>

lemma is_digit_char: "0 \<le> d \<Longrightarrow> d < 10 \<Longrightarrow> is_digit (digit_char up d)"
  by (simp add: is_digit_def of_char_digit_char)

lemma atoi_from_append:
  "(\<forall>c \<in> set cs. is_digit c) \<Longrightarrow> atoi_from i (cs @ rest) = atoi_from (fst (atoi_from i cs)) rest"
  by (induction i cs rule: atoi_from.induct) auto

lemma atoi_from_stop: "rest = [] \<or> \<not> is_digit (hd rest) \<Longrightarrow> atoi_from i rest = (i, rest)"
  by (cases rest) auto

lemma atoi_lsd:
  "0 \<le> v \<Longrightarrow> v \<le> UINT32_MAX \<Longrightarrow> atoi_from 0 (rev (map (digit_char up) (lsd 10 v))) = (v, [])"
proof (induction "nat v" arbitrary: v rule: less_induct)
  case less
  show ?case
  proof (cases "v < 10")
    case True
    with less.prems show ?thesis
      by (simp add: lsd_small is_digit_char of_char_digit_char to_u32_id)
  next
    case False
    let ?cs = "rev (map (digit_char up) (lsd 10 (v div 10)))"
    have q: "v div 10 < v" "0 \<le> v div 10" using False by auto
    then have IH: "atoi_from 0 ?cs = (v div 10, [])"
      using less.prems by (intro less.hyps) auto
    have "is_digit (digit_char up d)" if "d \<in> set (lsd 10 (v div 10))" for d
      using lsd_digits [OF _ q(2) that] by (intro is_digit_char) simp_all
    then have dig: "\<forall>c \<in> set ?cs. is_digit c" by simp
    have m: "0 \<le> v mod 10" "v mod 10 < 10" by auto
    have "to_u32 (v div 10 * 10 + v mod 10) = v" using less.prems by (simp add: to_u32_id)
    then have "atoi_from 0 (?cs @ [digit_char up (v mod 10)]) = (v, [])"
      using m by (simp add: atoi_from_append [OF dig] IH is_digit_char of_char_digit_char)
    moreover have "lsd 10 v = v mod 10 # lsd 10 (v div 10)" using False by (simp add: lsd_step)
    ultimately show ?thesis by simp
  qed
qed

section \<open>Plain integer conversions\<close>

lemmas directive_defs = parse_directive_def Let_def parse_width_def peek_def is_digit_def
  parse_precision_def parse_length_def

lemma zero_fill_0 [simp]: "zero_fill buf 0 = buf"
  by (simp add: zero_fill.simps [of buf])

lemma long_chars_plain:
  assumes "2 \<le> base" "0 \<le> v" "length (lsd base v) \<le> 32"
  shows "long_chars v False base 0 0 0 = rev (map (digit_char False) (lsd base v))"
  using ntoa_digits_lsd [of base v "[]" False] assms
  by (cases "v = 0") (simp_all add: long_chars_def Let_def has_flag_def rev_chars_def format_buf_def format_width_def)

lemma length_lsd_u32: "2 \<le> base \<Longrightarrow> length (lsd base (uint (w :: u32))) \<le> 32"
proof (rule length_lsd)
  assume b: "2 \<le> base"
  have "uint w < 2 ^ 32" using uint_u32_bound [of w] by simp
  also have "(2 :: int) ^ 32 \<le> base ^ 32" using b by (intro power_mono) auto
  finally show "uint w < base ^ 32" .
qed simp_all

text \<open>\<open>%u\<close>, \<open>%x\<close>, \<open>%i\<close> and \<open>%d\<close> without flags, width or precision.\<close>

lemma unsigned_chars:
  "render (CHR ''%'' # CHR ''u'' # fmt) (AInt w # va) =
     do { cs \<leftarrow> render fmt va; Some (rev (map (digit_char False) (lsd 10 (uint w))) @ cs) }"
  "render (CHR ''%'' # CHR ''x'' # fmt) (AInt w # va) =
     do { cs \<leftarrow> render fmt va; Some (rev (map (digit_char False) (lsd 16 (uint w))) @ cs) }"
  by (simp_all add: directive_defs convert_chars_def integer_chars_def spec_flags_def spec_base_def
      has_flag_def unsigned_arg_def long_chars_plain length_lsd_u32)

lemma signed_chars:
  "render (CHR ''%'' # CHR ''i'' # fmt) (AInt w # va) =
     do { cs \<leftarrow> render fmt va; Some (long_chars \<bar>sint w\<bar> (sint w < 0) 10 0 0 0 @ cs) }"
  "render (CHR ''%'' # CHR ''d'' # fmt) (AInt w # va) =
     do { cs \<leftarrow> render fmt va; Some (long_chars \<bar>sint w\<bar> (sint w < 0) 10 0 0 0 @ cs) }"
  by (simp_all add: directive_defs convert_chars_def integer_chars_def spec_flags_def spec_base_def
      has_flag_def signed_arg_def)

lemma pointer_chars:
  "render (CHR ''%'' # CHR ''p'' # fmt) (AInt w # va) = do { cs \<leftarrow> render fmt va;
     Some (long_chars (uint w) False 16 0 8 (FLAGS_ZEROPAD OR FLAGS_UPPERCASE) @ cs) }"
  by (simp add: directive_defs convert_chars_def)

lemma render_cons: "c \<noteq> CHR ''%'' \<Longrightarrow> render (c # fmt) va = do { cs \<leftarrow> render fmt va; Some (c # cs) }"
  by simp

section \<open>The digit buffer\<close>

text \<open>No conversion writes outside the 32-byte digit buffer: the digits, the zero padding, the
  base prefix and the sign together never take more than 32 characters, whatever the value, base,
  width, precision and flags.\<close>

lemma digit_buffer_bound:
  "length (ntoa_digits v base up []) \<le> 32 \<and>
   length (format_buf (ntoa_digits v base up []) negative base prec width flags) \<le> 32"
  using length_ntoa_digits [of "[]" v base up] by (simp add: length_format_buf)

end
