(* ===== verification/Fdt.thy ===== *)
theory Fdt
  imports Klibc_String
begin

text \<open>
  libfdt's access to a flattened device tree: the header fields of \<^verbatim>\<open>libfdt/fdt.h\<close> and
  \<^verbatim>\<open>libfdt/libfdt.h\<close>, the assumption switches of \<^verbatim>\<open>libfdt/libfdt_internal.h\<close> and the checks and
  tag walkers of \<^verbatim>\<open>libfdt/fdt.c\<close>.  A C \<open>int\<close> or \<open>uint32_t\<close> is an \<open>int\<close> with the conversions
  written out; a pointer into the blob is an address, and a negative result is an error code, as
  in the code.
\<close>

section \<open>Constants\<close>

abbreviation FDT_ERR_NOTFOUND :: int where "FDT_ERR_NOTFOUND \<equiv> 1"
abbreviation FDT_ERR_EXISTS :: int where "FDT_ERR_EXISTS \<equiv> 2"
abbreviation FDT_ERR_NOSPACE :: int where "FDT_ERR_NOSPACE \<equiv> 3"
abbreviation FDT_ERR_BADOFFSET :: int where "FDT_ERR_BADOFFSET \<equiv> 4"
abbreviation FDT_ERR_BADPATH :: int where "FDT_ERR_BADPATH \<equiv> 5"
abbreviation FDT_ERR_BADPHANDLE :: int where "FDT_ERR_BADPHANDLE \<equiv> 6"
abbreviation FDT_ERR_BADSTATE :: int where "FDT_ERR_BADSTATE \<equiv> 7"
abbreviation FDT_ERR_TRUNCATED :: int where "FDT_ERR_TRUNCATED \<equiv> 8"
abbreviation FDT_ERR_BADMAGIC :: int where "FDT_ERR_BADMAGIC \<equiv> 9"
abbreviation FDT_ERR_BADVERSION :: int where "FDT_ERR_BADVERSION \<equiv> 10"
abbreviation FDT_ERR_BADSTRUCTURE :: int where "FDT_ERR_BADSTRUCTURE \<equiv> 11"
abbreviation FDT_ERR_BADLAYOUT :: int where "FDT_ERR_BADLAYOUT \<equiv> 12"
abbreviation FDT_ERR_INTERNAL :: int where "FDT_ERR_INTERNAL \<equiv> 13"
abbreviation FDT_ERR_BADNCELLS :: int where "FDT_ERR_BADNCELLS \<equiv> 14"
abbreviation FDT_ERR_BADVALUE :: int where "FDT_ERR_BADVALUE \<equiv> 15"
abbreviation FDT_ERR_BADOVERLAY :: int where "FDT_ERR_BADOVERLAY \<equiv> 16"
abbreviation FDT_ERR_NOPHANDLES :: int where "FDT_ERR_NOPHANDLES \<equiv> 17"
abbreviation FDT_ERR_BADFLAGS :: int where "FDT_ERR_BADFLAGS \<equiv> 18"
abbreviation FDT_ERR_ALIGNMENT :: int where "FDT_ERR_ALIGNMENT \<equiv> 19"

abbreviation FDT_MAGIC :: int where "FDT_MAGIC \<equiv> 0xd00dfeed"
abbreviation FDT_SW_MAGIC :: int where "FDT_SW_MAGIC \<equiv> 0x2ff20112"
abbreviation FDT_TAGSIZE :: int where "FDT_TAGSIZE \<equiv> 4"
abbreviation FDT_BEGIN_NODE :: int where "FDT_BEGIN_NODE \<equiv> 1"
abbreviation FDT_END_NODE :: int where "FDT_END_NODE \<equiv> 2"
abbreviation FDT_PROP :: int where "FDT_PROP \<equiv> 3"
abbreviation FDT_NOP :: int where "FDT_NOP \<equiv> 4"
abbreviation FDT_END :: int where "FDT_END \<equiv> 9"

abbreviation FDT_FIRST_SUPPORTED_VERSION :: int where "FDT_FIRST_SUPPORTED_VERSION \<equiv> 2"
abbreviation FDT_LAST_COMPATIBLE_VERSION :: int where "FDT_LAST_COMPATIBLE_VERSION \<equiv> 16"
abbreviation FDT_LAST_SUPPORTED_VERSION :: int where "FDT_LAST_SUPPORTED_VERSION \<equiv> 17"

abbreviation FDT_V1_SIZE :: int where "FDT_V1_SIZE \<equiv> 28"
abbreviation FDT_V2_SIZE :: int where "FDT_V2_SIZE \<equiv> 32"
abbreviation FDT_V3_SIZE :: int where "FDT_V3_SIZE \<equiv> 36"
abbreviation FDT_V16_SIZE :: int where "FDT_V16_SIZE \<equiv> 36"
abbreviation FDT_V17_SIZE :: int where "FDT_V17_SIZE \<equiv> 40"

section \<open>Assumption switches\<close>

text \<open>The build leaves \<open>FDT_ASSUME_MASK\<close> at 0: no check is switched off.\<close>

datatype assumption =
  PERFECT | VALID_DTB | VALID_INPUT | LATEST | NO_ROLLBACK | LIBFDT_ORDER | LIBFDT_FLAWLESS

fun assume_mask :: "assumption \<Rightarrow> u8" where
  "assume_mask PERFECT = 255" | "assume_mask VALID_DTB = 1" | "assume_mask VALID_INPUT = 2"
| "assume_mask LATEST = 4" | "assume_mask NO_ROLLBACK = 8" | "assume_mask LIBFDT_ORDER = 16"
| "assume_mask LIBFDT_FLAWLESS = 32"

definition FDT_ASSUME_MASK :: u8 where "FDT_ASSUME_MASK = 0"

definition can_assume :: "assumption \<Rightarrow> bool" where
  "can_assume a \<longleftrightarrow> FDT_ASSUME_MASK AND assume_mask a \<noteq> 0"

lemma can_assume_False [simp]: "can_assume a = False"
  by (simp add: can_assume_def FDT_ASSUME_MASK_def)

section \<open>Big-endian fields and the header\<close>

definition fdt32_to_cpu :: "u32 \<Rightarrow> u32" where
  "fdt32_to_cpu x = word_of_bytes (byte_of 3 x) (byte_of 2 x) (byte_of 1 x) (byte_of 0 x)"

definition fdt32_ld :: "mem \<Rightarrow> int \<Rightarrow> int option" where
  "fdt32_ld m p = do {
     b0 \<leftarrow> load8 m p; b1 \<leftarrow> load8 m (p + 1); b2 \<leftarrow> load8 m (p + 2); b3 \<leftarrow> load8 m (p + 3);
     Some (uint (word_of_bytes b3 b2 b1 b0)) }"

definition fdt32_ld_native :: "mem \<Rightarrow> int \<Rightarrow> int option" where
  "fdt32_ld_native m p = do { x \<leftarrow> load32 m p; Some (uint (fdt32_to_cpu x)) }"

definition fdt_magic :: "mem \<Rightarrow> int \<Rightarrow> int option" where "fdt_magic m fdt = fdt32_ld m fdt"
definition fdt_totalsize :: "mem \<Rightarrow> int \<Rightarrow> int option" where "fdt_totalsize m fdt = fdt32_ld m (fdt + 4)"
definition fdt_off_dt_struct :: "mem \<Rightarrow> int \<Rightarrow> int option" where
  "fdt_off_dt_struct m fdt = fdt32_ld m (fdt + 8)"
definition fdt_off_dt_strings :: "mem \<Rightarrow> int \<Rightarrow> int option" where
  "fdt_off_dt_strings m fdt = fdt32_ld m (fdt + 12)"
definition fdt_off_mem_rsvmap :: "mem \<Rightarrow> int \<Rightarrow> int option" where
  "fdt_off_mem_rsvmap m fdt = fdt32_ld m (fdt + 16)"
definition fdt_version :: "mem \<Rightarrow> int \<Rightarrow> int option" where "fdt_version m fdt = fdt32_ld m (fdt + 20)"
definition fdt_last_comp_version :: "mem \<Rightarrow> int \<Rightarrow> int option" where
  "fdt_last_comp_version m fdt = fdt32_ld m (fdt + 24)"
definition fdt_size_dt_strings :: "mem \<Rightarrow> int \<Rightarrow> int option" where
  "fdt_size_dt_strings m fdt = fdt32_ld m (fdt + 32)"
definition fdt_size_dt_struct :: "mem \<Rightarrow> int \<Rightarrow> int option" where
  "fdt_size_dt_struct m fdt = fdt32_ld m (fdt + 36)"

lemma fdt32_ld_native_eq: "fdt32_ld_native m p = fdt32_ld m p"
  by (cases "m p"; cases "m (p + 1)"; cases "m (p + 2)"; cases "m (p + 3)")
     (simp_all add: fdt32_ld_native_def fdt32_ld_def load32_def load8_def fdt32_to_cpu_def)

text \<open>Equations for evaluation: the same values without bit operations.\<close>

lemma fdt32_ld_code [code]:
  "fdt32_ld m p = do {
     b0 \<leftarrow> load8 m p; b1 \<leftarrow> load8 m (p + 1); b2 \<leftarrow> load8 m (p + 2); b3 \<leftarrow> load8 m (p + 3);
     Some (uint b3 + 256 * uint b2 + 65536 * uint b1 + 16777216 * uint b0) }"
  by (simp add: fdt32_ld_def uint_word_of_bytes)

declare fdt32_ld_native_eq [code]

declare can_assume_False [code]

lemma fdt32_ld_mapped: "mapped m p 4 \<Longrightarrow> \<exists>v. fdt32_ld m p = Some v"
  using mappedD [of m p 4 p] mappedD [of m p 4 "p + 1"] mappedD [of m p 4 "p + 2"]
    mappedD [of m p 4 "p + 3"]
  by (auto simp: fdt32_ld_def load8_def)

lemma fdt32_ld_range: "fdt32_ld m p = Some v \<Longrightarrow> 0 \<le> v \<and> v \<le> UINT32_MAX"
proof -
  assume "fdt32_ld m p = Some v"
  then obtain w :: u32 where "v = uint w" by (auto simp: fdt32_ld_def bind_eq_Some_conv)
  moreover have "uint w < 2 ^ LENGTH(32)" by (rule unsigned_less)
  ultimately show ?thesis by simp
qed

section \<open>Header checks\<close>

definition fdt_ro_probe :: "mem \<Rightarrow> int \<Rightarrow> int option" where
  "fdt_ro_probe m fdt = do {
     totalsize \<leftarrow> fdt_totalsize m fdt;
     if can_assume VALID_DTB then Some (to_s32 totalsize)
     else if fdt mod 8 \<noteq> 0 then Some (- FDT_ERR_ALIGNMENT)
     else do {
       magic \<leftarrow> fdt_magic m fdt;
       err \<leftarrow> (if magic = FDT_MAGIC then
                (if \<not> can_assume LATEST then do {
                   version \<leftarrow> fdt_version m fdt;
                   if version < FDT_FIRST_SUPPORTED_VERSION then Some (- FDT_ERR_BADVERSION)
                   else do {
                     last_comp \<leftarrow> fdt_last_comp_version m fdt;
                     Some (if last_comp > FDT_LAST_SUPPORTED_VERSION then - FDT_ERR_BADVERSION else 0) } }
                 else Some 0)
              else if magic = FDT_SW_MAGIC then
                (if \<not> can_assume VALID_INPUT then do {
                   sz \<leftarrow> fdt_size_dt_struct m fdt;
                   Some (if sz = 0 then - FDT_ERR_BADSTATE else 0) }
                 else Some 0)
              else Some (- FDT_ERR_BADMAGIC));
       Some (if err \<noteq> 0 then err
             else if totalsize < INT32_MAX then totalsize else - FDT_ERR_TRUNCATED) } }"

definition check_off :: "int \<Rightarrow> int \<Rightarrow> int \<Rightarrow> bool" where
  "check_off hdrsize totalsize off \<longleftrightarrow> off \<ge> hdrsize \<and> off \<le> totalsize"

definition check_block :: "int \<Rightarrow> int \<Rightarrow> int \<Rightarrow> int \<Rightarrow> bool" where
  "check_block hdrsize totalsize base sz \<longleftrightarrow>
     (if \<not> check_off hdrsize totalsize base then False
      else if to_u32 (base + sz) < base then False
      else if \<not> check_off hdrsize totalsize (to_u32 (base + sz)) then False
      else True)"

definition fdt_header_size_of :: "int \<Rightarrow> int" where
  "fdt_header_size_of version =
     (if version \<le> 1 then FDT_V1_SIZE else if version \<le> 2 then FDT_V2_SIZE
      else if version \<le> 3 then FDT_V3_SIZE else if version \<le> 16 then FDT_V16_SIZE
      else FDT_V17_SIZE)"

definition fdt_header_size :: "mem \<Rightarrow> int \<Rightarrow> int option" where
  "fdt_header_size m fdt =
     (if can_assume LATEST then Some FDT_V17_SIZE
      else do { version \<leftarrow> fdt_version m fdt; Some (fdt_header_size_of version) })"

definition fdt_check_header :: "mem \<Rightarrow> int \<Rightarrow> int option" where
  "fdt_check_header m fdt =
     (if fdt mod 8 \<noteq> 0 then Some (- FDT_ERR_ALIGNMENT) else do {
      magic \<leftarrow> fdt_magic m fdt;
      if magic \<noteq> FDT_MAGIC then Some (- FDT_ERR_BADMAGIC) else do {
      version \<leftarrow> fdt_version m fdt;
      last_comp \<leftarrow> fdt_last_comp_version m fdt;
      if \<not> can_assume LATEST \<and>
         (version < FDT_FIRST_SUPPORTED_VERSION \<or> last_comp > FDT_LAST_SUPPORTED_VERSION)
      then Some (- FDT_ERR_BADVERSION)
      else if \<not> can_assume LATEST \<and> version < last_comp then Some (- FDT_ERR_BADVERSION)
      else do {
        hdrsize \<leftarrow> fdt_header_size m fdt;
        totalsize \<leftarrow> fdt_totalsize m fdt;
        if can_assume VALID_DTB then Some 0
        else if totalsize < hdrsize \<or> totalsize > INT32_MAX then Some (- FDT_ERR_TRUNCATED)
        else do {
          off_rsv \<leftarrow> fdt_off_mem_rsvmap m fdt;
          off_struct \<leftarrow> fdt_off_dt_struct m fdt;
          if off_rsv mod 8 \<noteq> 0 then Some (- FDT_ERR_ALIGNMENT)
          else if off_struct mod FDT_TAGSIZE \<noteq> 0 then Some (- FDT_ERR_ALIGNMENT)
          else if \<not> check_off hdrsize totalsize off_rsv then Some (- FDT_ERR_TRUNCATED)
          else do {
            struct_ok \<leftarrow>
              (if \<not> can_assume LATEST \<and> version < 17
               then Some (check_off hdrsize totalsize off_struct)
               else do {
                 size_struct \<leftarrow> fdt_size_dt_struct m fdt;
                 Some (check_block hdrsize totalsize off_struct size_struct) });
            if \<not> struct_ok then Some (- FDT_ERR_TRUNCATED)
            else do {
              off_strings \<leftarrow> fdt_off_dt_strings m fdt;
              size_strings \<leftarrow> fdt_size_dt_strings m fdt;
              if \<not> check_block hdrsize totalsize off_strings size_strings
              then Some (- FDT_ERR_TRUNCATED) else Some 0 } } } } } })"

section \<open>Offsets and tags\<close>

definition fdt_offset_ptr_raw :: "mem \<Rightarrow> int \<Rightarrow> int \<Rightarrow> int option" where
  "fdt_offset_ptr_raw m fdt offset = do {
     off_struct \<leftarrow> fdt_off_dt_struct m fdt; Some (fdt + off_struct + offset) }"

definition fdt_offset_ptr :: "mem \<Rightarrow> int \<Rightarrow> int \<Rightarrow> int \<Rightarrow> int option" where
  "fdt_offset_ptr m fdt offset len = do {
     off_struct \<leftarrow> fdt_off_dt_struct m fdt;
     let uoffset = to_u32 offset; absoffset = to_u32 (offset + off_struct) in
     if offset < 0 then Some 0
     else do {
       totalsize \<leftarrow> fdt_totalsize m fdt;
       if \<not> can_assume VALID_INPUT \<and>
          (absoffset < uoffset \<or> to_u32 (absoffset + len) < absoffset \<or>
           to_u32 (absoffset + len) > totalsize)
       then Some 0
       else do {
         version \<leftarrow> fdt_version m fdt;
         if can_assume LATEST \<or> version \<ge> 17 then do {
           size_struct \<leftarrow> fdt_size_dt_struct m fdt;
           if to_u32 (uoffset + len) < uoffset \<or> to_u32 (offset + len) > size_struct
           then Some 0 else fdt_offset_ptr_raw m fdt offset }
         else fdt_offset_ptr_raw m fdt offset } } }"

definition fdt_tagalign :: "int \<Rightarrow> int" where
  "fdt_tagalign x = to_s32 (4 * (to_u32 (x + 3) div 4))"

text \<open>The name of a node: up to and including its NUL, or past the end of the block.\<close>

partial_function (option) fdt_skip_name :: "mem \<Rightarrow> int \<Rightarrow> int \<Rightarrow> (int \<times> int) option" where [code]:
  "fdt_skip_name m fdt offset = do {
     p \<leftarrow> fdt_offset_ptr m fdt offset 1;
     if p = 0 then Some (0, offset + 1)
     else do {
       c \<leftarrow> load8 m p;
       if c \<noteq> 0 then fdt_skip_name m fdt (offset + 1) else Some (p, offset + 1) } }"

text \<open>The tag at an offset and \<open>*nextoffset\<close>.\<close>

definition fdt_next_tag :: "mem \<Rightarrow> int \<Rightarrow> int \<Rightarrow> (int \<times> int) option" where
  "fdt_next_tag m fdt startoffset = do {
     tagp \<leftarrow> fdt_offset_ptr m fdt startoffset FDT_TAGSIZE;
     if \<not> can_assume VALID_DTB \<and> tagp = 0 then Some (FDT_END, - FDT_ERR_TRUNCATED)
     else do {
       tag \<leftarrow> fdt32_ld_native m tagp;
       let offset = to_s32 (startoffset + FDT_TAGSIZE) in do {
       skip \<leftarrow>
         (if tag = FDT_BEGIN_NODE then do {
            (p, offset) \<leftarrow> fdt_skip_name m fdt offset;
            Some (if \<not> can_assume VALID_DTB \<and> p = 0 then None else Some offset) }
          else if tag = FDT_PROP then do {
            lenp \<leftarrow> fdt_offset_ptr m fdt offset 4;
            if \<not> can_assume VALID_DTB \<and> lenp = 0 then Some None
            else do {
              len \<leftarrow> fdt32_ld_native m lenp;
              let sum = to_u32 (len + offset) in
              if \<not> can_assume VALID_DTB \<and> (INT32_MAX \<le> sum \<or> sum < to_u32 offset) then Some None
              else do {
                version \<leftarrow> fdt_version m fdt;
                let offset = to_s32 (offset + 12 - FDT_TAGSIZE + len) in
                Some (Some (if \<not> can_assume LATEST \<and> version < 16 \<and> len \<ge> 8 \<and>
                               to_u32 (offset - len) mod 8 \<noteq> 0
                            then to_s32 (offset + 4) else offset)) } } }
          else if tag = FDT_END \<or> tag = FDT_END_NODE \<or> tag = FDT_NOP then Some (Some offset)
          else Some None);
       (case skip of
          None \<Rightarrow> Some (FDT_END, - FDT_ERR_BADSTRUCTURE)
        | Some offset \<Rightarrow> do {
            q \<leftarrow> fdt_offset_ptr m fdt startoffset (to_u32 (offset - startoffset));
            Some (if q = 0 then (FDT_END, - FDT_ERR_BADSTRUCTURE)
                  else (tag, fdt_tagalign offset)) }) } } }"

section \<open>Node walkers\<close>

definition fdt_check_node_offset :: "mem \<Rightarrow> int \<Rightarrow> int \<Rightarrow> int option" where
  "fdt_check_node_offset m fdt offset =
     (if \<not> can_assume VALID_INPUT \<and> (offset < 0 \<or> offset mod FDT_TAGSIZE \<noteq> 0)
      then Some (- FDT_ERR_BADOFFSET)
      else do {
        (tag, offset) \<leftarrow> fdt_next_tag m fdt offset;
        Some (if tag \<noteq> FDT_BEGIN_NODE then - FDT_ERR_BADOFFSET else offset) })"

definition fdt_check_prop_offset :: "mem \<Rightarrow> int \<Rightarrow> int \<Rightarrow> int option" where
  "fdt_check_prop_offset m fdt offset =
     (if \<not> can_assume VALID_INPUT \<and> (offset < 0 \<or> offset mod FDT_TAGSIZE \<noteq> 0)
      then Some (- FDT_ERR_BADOFFSET)
      else do {
        (tag, offset) \<leftarrow> fdt_next_tag m fdt offset;
        Some (if tag \<noteq> FDT_PROP then - FDT_ERR_BADOFFSET else offset) })"

text \<open>
  The loop of \<open>fdt_next_node\<close> from \<open>nextoffset\<close>; \<open>depth\<close> is \<open>None\<close> for a null pointer and else
  the value behind it, returned with the result.
\<close>

partial_function (option) fdt_next_node_loop ::
  "mem \<Rightarrow> int \<Rightarrow> int \<Rightarrow> int option \<Rightarrow> (int \<times> int option) option" where [code]:
  "fdt_next_node_loop m fdt offset depth = do {
     (tag, nextoffset) \<leftarrow> fdt_next_tag m fdt offset;
     if tag = FDT_BEGIN_NODE then Some (offset, map_option (\<lambda>d. to_s32 (d + 1)) depth)
     else if tag = FDT_END_NODE then
       let depth' = map_option (\<lambda>d. to_s32 (d - 1)) depth in
       if (case depth' of Some d \<Rightarrow> d < 0 | None \<Rightarrow> False) then Some (nextoffset, depth')
       else fdt_next_node_loop m fdt nextoffset depth'
     else if tag = FDT_END then
       Some (if nextoffset \<ge> 0 \<or> (nextoffset = - FDT_ERR_TRUNCATED \<and> depth = None)
             then - FDT_ERR_NOTFOUND else nextoffset, depth)
     else fdt_next_node_loop m fdt nextoffset depth }"

definition fdt_next_node :: "mem \<Rightarrow> int \<Rightarrow> int \<Rightarrow> int option \<Rightarrow> (int \<times> int option) option" where
  "fdt_next_node m fdt offset depth =
     (if offset \<ge> 0 then do {
        nextoffset \<leftarrow> fdt_check_node_offset m fdt offset;
        if nextoffset < 0 then Some (nextoffset, depth)
        else fdt_next_node_loop m fdt nextoffset depth }
      else fdt_next_node_loop m fdt 0 depth)"

definition fdt_first_subnode :: "mem \<Rightarrow> int \<Rightarrow> int \<Rightarrow> int option" where
  "fdt_first_subnode m fdt offset = do {
     (offset, depth) \<leftarrow> fdt_next_node m fdt offset (Some 0);
     Some (if offset < 0 \<or> depth \<noteq> Some 1 then - FDT_ERR_NOTFOUND else offset) }"

partial_function (option) fdt_next_subnode_loop ::
  "mem \<Rightarrow> int \<Rightarrow> int \<Rightarrow> int \<Rightarrow> int option" where [code]:
  "fdt_next_subnode_loop m fdt offset depth = do {
     (offset, d) \<leftarrow> fdt_next_node m fdt offset (Some depth);
     let depth = the d in
     if offset < 0 \<or> depth < 1 then Some (- FDT_ERR_NOTFOUND)
     else if depth > 1 then fdt_next_subnode_loop m fdt offset depth
     else Some offset }"

definition fdt_next_subnode :: "mem \<Rightarrow> int \<Rightarrow> int \<Rightarrow> int option" where
  "fdt_next_subnode m fdt offset = fdt_next_subnode_loop m fdt offset 1"

function fdt_find_string_from :: "mem \<Rightarrow> int \<Rightarrow> int \<Rightarrow> int \<Rightarrow> nat \<Rightarrow> int option" where
  "fdt_find_string_from m p final s slen =
     (if p \<le> final then do {
        c \<leftarrow> memcmp m p s slen;
        found \<leftarrow> (if c = 0 then do { b \<leftarrow> load8 m (p + int slen); Some (b = 0) } else Some False);
        if found then Some p else fdt_find_string_from m (p + 1) final s slen }
      else Some 0)"
  by pat_completeness auto
termination by (relation "measure (\<lambda>(m, p, final, s, n). nat (final + 1 - p))") auto

declare fdt_find_string_from.simps [simp del]

definition fdt_find_string_len :: "mem \<Rightarrow> int \<Rightarrow> int \<Rightarrow> int \<Rightarrow> nat \<Rightarrow> int option" where
  "fdt_find_string_len m strtab tabsize s slen =
     fdt_find_string_from m strtab (strtab + tabsize - (int slen + 1)) s slen"

definition fdt_move :: "mem \<Rightarrow> int \<Rightarrow> int \<Rightarrow> int \<Rightarrow> (int \<times> mem) option" where
  "fdt_move m fdt buf bufsize =
     (if \<not> can_assume VALID_INPUT \<and> bufsize < 0 then Some (- FDT_ERR_NOSPACE, m) else do {
      err \<leftarrow> fdt_ro_probe m fdt;
      if err < 0 then Some (err, m) else do {
      totalsize \<leftarrow> fdt_totalsize m fdt;
      if totalsize > to_u32 bufsize then Some (- FDT_ERR_NOSPACE, m)
      else do { (_, m) \<leftarrow> memmove m buf fdt (nat totalsize); Some (0, m) } } })"

section \<open>Walks over a mapped blob stay inside it\<close>

text \<open>
  \<open>blob m fdt\<close>: the header and \<open>totalsize\<close> bytes (rounded up to a word) are mapped at an aligned
  non-null address and end below 4 GiB, the size fits an \<open>int\<close> and the structure block does not
  start in the magic.
  Nothing is assumed about the contents.
\<close>

definition hdr :: "mem \<Rightarrow> int \<Rightarrow> int \<Rightarrow> int" where
  "hdr m fdt k = the (fdt32_ld m (fdt + k))"

abbreviation h_totalsize where "h_totalsize m fdt \<equiv> hdr m fdt 4"
abbreviation h_off_struct where "h_off_struct m fdt \<equiv> hdr m fdt 8"
abbreviation h_off_strings where "h_off_strings m fdt \<equiv> hdr m fdt 12"
abbreviation h_off_rsvmap where "h_off_rsvmap m fdt \<equiv> hdr m fdt 16"
abbreviation h_version where "h_version m fdt \<equiv> hdr m fdt 20"
abbreviation h_last_comp where "h_last_comp m fdt \<equiv> hdr m fdt 24"
abbreviation h_size_strings where "h_size_strings m fdt \<equiv> hdr m fdt 32"
abbreviation h_size_struct where "h_size_struct m fdt \<equiv> hdr m fdt 36"

definition blob :: "mem \<Rightarrow> int \<Rightarrow> bool" where
  "blob m fdt \<longleftrightarrow> 0 < fdt \<and> fdt mod 8 = 0 \<and> mapped m fdt 40 \<and>
     mapped m fdt (4 * ((h_totalsize m fdt + 3) div 4)) \<and>
     h_totalsize m fdt \<le> INT32_MAX \<and> fdt + h_totalsize m fdt \<le> 4294967296 \<and>
     4 \<le> h_off_struct m fdt"

definition struct_fits :: "mem \<Rightarrow> int \<Rightarrow> int \<Rightarrow> int \<Rightarrow> bool" where
  "struct_fits m fdt offset n \<longleftrightarrow> 0 \<le> offset \<and>
     h_off_struct m fdt + offset + n \<le> h_totalsize m fdt \<and>
     (17 \<le> h_version m fdt \<longrightarrow> offset + n \<le> h_size_struct m fdt)"

lemma blob_field:
  assumes "mapped m fdt 40" "0 \<le> k" "k \<le> 36"
  shows "fdt32_ld m (fdt + k) = Some (hdr m fdt k)" "0 \<le> hdr m fdt k" "hdr m fdt k \<le> UINT32_MAX"
proof -
  have "mapped m (fdt + k) 4" using assms by (intro mapped_sub [OF assms(1)]) auto
  then obtain v where "fdt32_ld m (fdt + k) = Some v" using fdt32_ld_mapped by blast
  with fdt32_ld_range [OF this]
  show "fdt32_ld m (fdt + k) = Some (hdr m fdt k)" "0 \<le> hdr m fdt k" "hdr m fdt k \<le> UINT32_MAX"
    by (auto simp: hdr_def)
qed

lemma header_fields:
  assumes "mapped m fdt 40"
  shows "fdt_magic m fdt = Some (hdr m fdt 0)" "fdt_totalsize m fdt = Some (h_totalsize m fdt)"
    "fdt_off_dt_struct m fdt = Some (h_off_struct m fdt)"
    "fdt_off_dt_strings m fdt = Some (h_off_strings m fdt)"
    "fdt_off_mem_rsvmap m fdt = Some (h_off_rsvmap m fdt)"
    "fdt_version m fdt = Some (h_version m fdt)"
    "fdt_last_comp_version m fdt = Some (h_last_comp m fdt)"
    "fdt_size_dt_strings m fdt = Some (h_size_strings m fdt)"
    "fdt_size_dt_struct m fdt = Some (h_size_struct m fdt)"
  using blob_field(1) [OF assms, of 0] blob_field(1) [OF assms, of 4] blob_field(1) [OF assms, of 8]
    blob_field(1) [OF assms, of 12] blob_field(1) [OF assms, of 16] blob_field(1) [OF assms, of 20]
    blob_field(1) [OF assms, of 24] blob_field(1) [OF assms, of 32] blob_field(1) [OF assms, of 36]
  by (simp_all add: fdt_magic_def fdt_totalsize_def fdt_off_dt_struct_def fdt_off_dt_strings_def
      fdt_off_mem_rsvmap_def fdt_version_def fdt_last_comp_version_def fdt_size_dt_strings_def
      fdt_size_dt_struct_def)

lemma blob_header: "blob m fdt \<Longrightarrow> mapped m fdt 40"
  by (simp add: blob_def)

lemmas blob_simps = header_fields [OF blob_header]

lemma blob_bounds:
  assumes "blob m fdt"
  shows "4 \<le> h_off_struct m fdt" "h_off_struct m fdt \<le> UINT32_MAX" "0 \<le> h_totalsize m fdt"
    "h_totalsize m fdt \<le> INT32_MAX" "0 \<le> h_size_struct m fdt" "h_size_struct m fdt \<le> UINT32_MAX"
    "0 \<le> h_off_strings m fdt" "h_off_strings m fdt \<le> UINT32_MAX" "0 \<le> h_size_strings m fdt"
    "h_size_strings m fdt \<le> UINT32_MAX" "0 < fdt" "0 \<le> h_version m fdt"
  using assms blob_field(2,3) [OF blob_header [OF assms]] by (simp_all add: blob_def)

lemma blob_mapped_tail:
  assumes "blob m fdt" "fdt \<le> p" "p + n \<le> fdt + h_totalsize m fdt"
  shows "mapped m p n"
proof -
  have "h_totalsize m fdt \<le> 4 * ((h_totalsize m fdt + 3) div 4)" by presburger
  then show ?thesis using assms by (auto simp: blob_def intro: mapped_sub)
qed

lemma struct_fits_mapped:
  assumes "blob m fdt" "struct_fits m fdt offset n"
  shows "mapped m (fdt + h_off_struct m fdt + offset) n"
  using assms blob_bounds [OF assms(1)]
  by (intro blob_mapped_tail [OF assms(1)]) (auto simp: struct_fits_def)

lemma struct_fits_le:
  "struct_fits m fdt offset n \<Longrightarrow> offset \<le> a \<Longrightarrow> a + k \<le> offset + n \<Longrightarrow> struct_fits m fdt a k"
  by (auto simp: struct_fits_def)

lemma to_u32_le: "0 \<le> x \<Longrightarrow> to_u32 x \<le> x"
  by (simp add: to_u32_def zmod_le_nonneg_dividend)

lemma fdt_offset_ptr_eq:
  assumes b: "blob m fdt" and o: "offset \<le> INT32_MAX" "0 \<le> n" "n \<le> UINT32_MAX"
  shows "fdt_offset_ptr m fdt offset n =
    Some (if struct_fits m fdt offset n then fdt + h_off_struct m fdt + offset else 0)"
proof (cases "offset < 0")
  case True
  then show ?thesis by (simp add: fdt_offset_ptr_def blob_simps [OF b] struct_fits_def Let_def)
next
  case False
  note bb = blob_bounds [OF b]
  have u: "to_u32 offset = offset" using False o by (simp add: wrap_simps)
  define a where "a = offset + h_off_struct m fdt"
  have a: "0 \<le> a" "a \<le> 6442450942" using False o bb by (auto simp: a_def)
  have t1: "to_u32 a < offset \<or> to_u32 (to_u32 a + n) < to_u32 a \<or>
     to_u32 (to_u32 a + n) > h_totalsize m fdt \<longleftrightarrow> \<not> a + n \<le> h_totalsize m fdt"
  proof (cases "a \<le> UINT32_MAX")
    case True
    with a have ua: "to_u32 a = a" by (simp add: wrap_simps)
    show ?thesis
    proof (cases "a + n \<le> UINT32_MAX")
      case True
      with a o have "to_u32 (a + n) = a + n" by (simp add: wrap_simps)
      with ua o bb show ?thesis by (auto simp: a_def)
    next
      case False
      with a ua o have "to_u32 (a + n) = a + n - 4294967296" using True by (intro to_u32_wrap) auto
      with ua False True o bb show ?thesis by auto
    qed
  next
    case big: False
    then have "to_u32 a = a - 4294967296" using a by (intro to_u32_wrap) auto
    with big o bb a show ?thesis by (auto simp: a_def)
  qed
  have t2: "to_u32 (offset + n) < offset \<or> to_u32 (offset + n) > h_size_struct m fdt \<longleftrightarrow>
     \<not> offset + n \<le> h_size_struct m fdt"
  proof (cases "offset + n \<le> UINT32_MAX")
    case True
    with False o have "to_u32 (offset + n) = offset + n" by (simp add: wrap_simps)
    with o show ?thesis by auto
  next
    case wrap: False
    then have "to_u32 (offset + n) = offset + n - 4294967296" using False o by (intro to_u32_wrap) auto
    with wrap o bb show ?thesis by auto
  qed
  show ?thesis
    using False t1 t2
    by (simp add: fdt_offset_ptr_def fdt_offset_ptr_raw_def blob_simps [OF b] u a_def [symmetric]
        struct_fits_def Let_def) (auto simp: a_def algebra_simps)
qed

lemma to_u32_cong: "x mod 4294967296 = y mod 4294967296 \<Longrightarrow> to_u32 x = to_u32 y"
  by (simp add: to_u32_def)

lemma to_s32_mod: "to_s32 x mod 4294967296 = x mod 4294967296"
  by (simp add: to_s32_def mod_diff_left_eq)

lemma to_u32_to_s32: "to_u32 (to_s32 x - s) = to_u32 (x - s)"
  by (intro to_u32_cong) (metis mod_diff_left_eq to_s32_mod)

lemma to_s32_add: "to_s32 (to_s32 x + k) = to_s32 (x + k)"
proof -
  have "(to_s32 x + (k + 2147483648)) mod 4294967296 = (x + (k + 2147483648)) mod 4294967296"
    by (metis mod_add_left_eq to_s32_mod)
  then show ?thesis unfolding to_s32_def [of "to_s32 x + k"] to_s32_def [of "x + k"]
    by (simp only: add.assoc)
qed

lemma fdt_tagalign_eq: "0 \<le> x \<Longrightarrow> x \<le> 2147483640 \<Longrightarrow> fdt_tagalign x = 4 * ((x + 3) div 4)"
  by (simp add: fdt_tagalign_def wrap_simps)

lemma fdt_skip_name_spec:
  assumes b: "blob m fdt"
  shows "0 \<le> offset \<Longrightarrow> offset \<le> INT32_MAX \<Longrightarrow>
    (\<exists>off'. fdt_skip_name m fdt offset = Some (0, off')) \<or>
    (\<exists>s p. cstr_at m (fdt + h_off_struct m fdt + offset) s \<and> p \<noteq> 0 \<and>
       struct_fits m fdt offset (int (length s) + 1) \<and>
       fdt_skip_name m fdt offset = Some (p, offset + int (length s) + 1))"
proof (induction "nat (INT32_MAX - offset)" arbitrary: offset rule: less_induct)
  case less
  let ?p = "fdt + h_off_struct m fdt + offset"
  note bb = blob_bounds [OF b]
  show ?case
  proof (cases "struct_fits m fdt offset 1")
    case False
    then show ?thesis
      using less.prems by (subst (1) fdt_skip_name.simps) (simp add: fdt_offset_ptr_eq [OF b])
  next
    case True
    then have off: "offset + 1 \<le> INT32_MAX" using bb by (simp add: struct_fits_def)
    from struct_fits_mapped [OF b True] obtain c where c: "m ?p = Some c"
      by (auto dest: mappedD)
    have p: "?p \<noteq> 0" using bb less.prems by simp
    have eq: "fdt_skip_name m fdt offset =
        (if c \<noteq> 0 then fdt_skip_name m fdt (offset + 1) else Some (?p, offset + 1))"
      using less.prems True c p
      by (subst fdt_skip_name.simps) (simp add: fdt_offset_ptr_eq [OF b] load8_def)
    show ?thesis
    proof (cases "c = 0")
      case True
      with eq c p \<open>struct_fits m fdt offset 1\<close> show ?thesis
        by (intro disjI2 exI [of _ "[]"] exI [of _ ?p]) simp
    next
      case nz: False
      have "(\<exists>off'. fdt_skip_name m fdt (offset + 1) = Some (0, off')) \<or>
        (\<exists>s p. cstr_at m (fdt + h_off_struct m fdt + (offset + 1)) s \<and> p \<noteq> 0 \<and>
         struct_fits m fdt (offset + 1) (int (length s) + 1) \<and>
         fdt_skip_name m fdt (offset + 1) = Some (p, offset + 1 + int (length s) + 1))"
        using less.prems off by (intro less.hyps) auto
      then show ?thesis
      proof (elim disjE exE conjE)
        fix s p
        assume "cstr_at m (fdt + h_off_struct m fdt + (offset + 1)) s" "p \<noteq> 0"
          "struct_fits m fdt (offset + 1) (int (length s) + 1)"
          "fdt_skip_name m fdt (offset + 1) = Some (p, offset + 1 + int (length s) + 1)"
        with eq nz c less.prems show ?thesis
          by (intro disjI2 exI [of _ "c # s"] exI [of _ p]) (simp add: struct_fits_def algebra_simps)
      qed (simp add: eq nz)
    qed
  qed
qed

text \<open>
  \<open>tag_at m fdt off tag next\<close>: a well-formed tag at \<open>off\<close> and the aligned offset behind what belongs
  to it.  \<open>sfield\<close> is the big-endian cell at an offset of the structure block.
\<close>

definition sfield :: "mem \<Rightarrow> int \<Rightarrow> int \<Rightarrow> int" where
  "sfield m fdt offset = hdr m fdt (h_off_struct m fdt + offset)"

definition tag_end :: "mem \<Rightarrow> int \<Rightarrow> int \<Rightarrow> int \<Rightarrow> int \<Rightarrow> bool" where
  "tag_end m fdt off tag e \<longleftrightarrow>
     (if tag = FDT_BEGIN_NODE then
        \<exists>s. cstr_at m (fdt + h_off_struct m fdt + off + 4) s \<and> e = off + 5 + int (length s)
      else if tag = FDT_PROP then
        let len = sfield m fdt (off + 4) in
        0 \<le> len \<and> (e = off + 12 + len \<or> (h_version m fdt < 16 \<and> 8 \<le> len \<and> e = off + 16 + len))
      else e = off + 4)"

definition tag_at :: "mem \<Rightarrow> int \<Rightarrow> int \<Rightarrow> int \<Rightarrow> int \<Rightarrow> bool" where
  "tag_at m fdt off tag next \<longleftrightarrow>
     tag = sfield m fdt off \<and> tag \<in> {FDT_BEGIN_NODE, FDT_END_NODE, FDT_PROP, FDT_NOP, FDT_END} \<and>
     (\<exists>e. tag_end m fdt off tag e \<and> off + 4 \<le> e \<and> struct_fits m fdt off (e - off) \<and>
          next = 4 * ((e + 3) div 4))"

lemma sfield_load:
  assumes b: "blob m fdt" and f: "struct_fits m fdt off 4"
  shows "fdt32_ld m (fdt + h_off_struct m fdt + off) = Some (sfield m fdt off)"
    "0 \<le> sfield m fdt off" "sfield m fdt off \<le> UINT32_MAX"
proof -
  obtain v where v: "fdt32_ld m (fdt + h_off_struct m fdt + off) = Some v"
    using fdt32_ld_mapped [OF struct_fits_mapped [OF b f]] by blast
  then have "sfield m fdt off = v" by (simp add: sfield_def hdr_def add.assoc)
  with v fdt32_ld_range [OF v] show "fdt32_ld m (fdt + h_off_struct m fdt + off) = Some (sfield m fdt off)"
    "0 \<le> sfield m fdt off" "sfield m fdt off \<le> UINT32_MAX" by auto
qed

lemma tag_at_bounds:
  assumes "blob m fdt" "tag_at m fdt off tag next"
  shows "0 \<le> off" "off + 4 \<le> next" "next \<le> 2147483644" "next mod 4 = 0" "struct_fits m fdt off 4"
proof -
  from assms(2) obtain e where e: "off + 4 \<le> e" "struct_fits m fdt off (e - off)"
    "next = 4 * ((e + 3) div 4)" by (auto simp: tag_at_def)
  have "e \<le> 2147483643" "0 \<le> off" using e(2) blob_bounds [OF assms(1)] by (auto simp: struct_fits_def)
  with e show "0 \<le> off" "off + 4 \<le> next" "next \<le> 2147483644" "next mod 4 = 0"
    "struct_fits m fdt off 4"
    by (auto intro: struct_fits_le) 
qed

text \<open>The final step of \<open>fdt_next_tag\<close>, shared by all tags.\<close>

lemma next_tag_finish:
  assumes b: "blob m fdt" and o: "struct_fits m fdt off 4"
    and e: "off + 4 \<le> e" "e - off \<le> UINT32_MAX" "tag_end m fdt off tag e"
    "tag = sfield m fdt off" "tag \<in> {FDT_BEGIN_NODE, FDT_END_NODE, FDT_PROP, FDT_NOP, FDT_END}"
    and x: "to_s32 x = to_s32 e" "to_u32 (x - off) = to_u32 (e - off)"
  shows "\<exists>tag' next.
     (do { q \<leftarrow> fdt_offset_ptr m fdt off (to_u32 (x - off));
           Some (if q = 0 then (FDT_END, - FDT_ERR_BADSTRUCTURE) else (tag, fdt_tagalign x)) }) =
       Some (tag', next) \<and>
     (tag' = FDT_END \<and> next = - FDT_ERR_BADSTRUCTURE \<or> tag_at m fdt off tag' next)"
proof -
  note bb = blob_bounds [OF b]
  have off: "0 \<le> off" "off \<le> INT32_MAX" using o bb by (auto simp: struct_fits_def)
  have u: "to_u32 (x - off) = e - off" using e(1,2) x(2) by (simp add: wrap_simps)
  show ?thesis
  proof (cases "struct_fits m fdt off (e - off)")
    case True
    then have "e \<le> 2147483640 + 3" using bb by (simp add: struct_fits_def)
    have al: "fdt_tagalign x = 4 * ((e + 3) div 4)"
    proof -
      have "x mod 4294967296 = e mod 4294967296" using x(1) by (metis to_s32_mod)
      then have "to_u32 (x + 3) = to_u32 (e + 3)" by (intro to_u32_cong) (metis mod_add_left_eq)
      then show ?thesis using \<open>e \<le> _\<close> off e(1) by (simp add: fdt_tagalign_def wrap_simps)
    qed
    have "tag_at m fdt off tag (fdt_tagalign x)"
      unfolding tag_at_def using e True al by blast
    moreover have "fdt_offset_ptr m fdt off (e - off) = Some (fdt + h_off_struct m fdt + off)"
      using True off e(1,2) by (subst fdt_offset_ptr_eq [OF b]) simp_all
    ultimately show ?thesis using u off bb by simp
  next
    case False
    then have "fdt_offset_ptr m fdt off (e - off) = Some 0"
      using off e(1,2) by (subst fdt_offset_ptr_eq [OF b]) simp_all
    with u show ?thesis by simp
  qed
qed

lemma fdt_next_tag_spec:
  assumes b: "blob m fdt" and off: "off \<le> INT32_MAX"
  shows "\<exists>tag next. fdt_next_tag m fdt off = Some (tag, next) \<and>
    (tag = FDT_END \<and> next \<in> {- FDT_ERR_TRUNCATED, - FDT_ERR_BADSTRUCTURE} \<or>
     tag_at m fdt off tag next)"
proof (cases "struct_fits m fdt off 4")
  case False
  then show ?thesis by (simp add: fdt_next_tag_def fdt_offset_ptr_eq [OF b off])
next
  case o: True
  note bb = blob_bounds [OF b]
  define base where "base = fdt + h_off_struct m fdt"
  have off0: "0 \<le> off" "off + 4 \<le> INT32_MAX" using o bb by (auto simp: struct_fits_def)
  have ptr: "fdt_offset_ptr m fdt off 4 = Some (base + off)" "base + off \<noteq> 0"
    using o off bb off0 by (simp_all add: fdt_offset_ptr_eq [OF b off] base_def)
  define tag where "tag = sfield m fdt off"
  have ld: "fdt32_ld m (base + off) = Some tag" using sfield_load(1) [OF b o] by (simp add: tag_def base_def)
  have off4: "to_s32 (off + 4) = off + 4" using off0 by (simp add: wrap_simps)
  note eq = fdt_next_tag_def [of m fdt off] ptr fdt32_ld_native_eq ld off4 Let_def
  consider (bnode) "tag = FDT_BEGIN_NODE" | (isprop) "tag = FDT_PROP"
    | (plain) "tag \<in> {FDT_END, FDT_END_NODE, FDT_NOP}" | (bad) "tag \<notin> {1, 2, 3, 4, 9}"
    by auto
  then show ?thesis
  proof cases
    case plain
    have "\<exists>tag' next.
     (do { q \<leftarrow> fdt_offset_ptr m fdt off (to_u32 (off + 4 - off));
           Some (if q = 0 then (FDT_END, - FDT_ERR_BADSTRUCTURE) else (tag, fdt_tagalign (off + 4))) }) =
       Some (tag', next) \<and>
     (tag' = FDT_END \<and> next = - FDT_ERR_BADSTRUCTURE \<or> tag_at m fdt off tag' next)"
      using plain by (intro next_tag_finish [OF b o, of "off + 4"]) (auto simp: tag_end_def tag_def)
    with plain show ?thesis by (auto simp: eq)
  next
    case bnode
    have c: "0 \<le> off + 4" "off + 4 \<le> INT32_MAX" using off0 by simp_all
    from fdt_skip_name_spec [OF b c] show ?thesis
    proof (elim disjE exE conjE)
      fix off' assume "fdt_skip_name m fdt (off + 4) = Some (0, off')"
      with bnode show ?thesis by (simp add: eq)
    next
      fix s p assume s: "cstr_at m (fdt + h_off_struct m fdt + (off + 4)) s" "p \<noteq> 0"
        "struct_fits m fdt (off + 4) (int (length s) + 1)"
        "fdt_skip_name m fdt (off + 4) = Some (p, off + 4 + int (length s) + 1)"
      define e where "e = off + 4 + int (length s) + 1"
      have "off + 5 + int (length s) \<le> INT32_MAX" using s(3) bb off0 by (simp add: struct_fits_def)
      then have "\<exists>tag' next.
       (do { q \<leftarrow> fdt_offset_ptr m fdt off (to_u32 (e - off));
             Some (if q = 0 then (FDT_END, - FDT_ERR_BADSTRUCTURE) else (tag, fdt_tagalign e)) }) =
         Some (tag', next) \<and>
       (tag' = FDT_END \<and> next = - FDT_ERR_BADSTRUCTURE \<or> tag_at m fdt off tag' next)"
        using s(1) bnode off0
        by (intro next_tag_finish [OF b o, of e]) (auto simp: tag_end_def tag_def e_def add.assoc)
      moreover have "fdt_next_tag m fdt off =
         (do { q \<leftarrow> fdt_offset_ptr m fdt off (to_u32 (e - off));
               Some (if q = 0 then (FDT_END, - FDT_ERR_BADSTRUCTURE) else (tag, fdt_tagalign e)) })"
        using bnode s(2,4) by (simp add: eq e_def cong: if_cong)
      ultimately show ?thesis by auto
    qed
  next
    case isprop
    show ?thesis
    proof (cases "struct_fits m fdt (off + 4) 4")
      case False
      then have "fdt_offset_ptr m fdt (off + 4) 4 = Some 0"
        using off0 by (simp add: fdt_offset_ptr_eq [OF b])
      with isprop show ?thesis by (simp add: eq)
    next
      case f: True
      define len where "len = sfield m fdt (off + 4)"
      have p4: "fdt_offset_ptr m fdt (off + 4) 4 = Some (base + (off + 4))" "base + (off + 4) \<noteq> 0"
        using f off0 bb by (simp_all add: fdt_offset_ptr_eq [OF b] base_def)
      have ld4: "fdt32_ld m (base + (off + 4)) = Some len" "0 \<le> len" "len \<le> UINT32_MAX"
        using sfield_load [OF b f] by (simp_all add: len_def base_def)
      have ver: "fdt_version m fdt = Some (h_version m fdt)" by (rule blob_simps [OF b])
      show ?thesis
      proof (cases "INT32_MAX \<le> to_u32 (len + (off + 4)) \<or> to_u32 (len + (off + 4)) < to_u32 (off + 4)")
        case True
        with isprop p4 ld4 show ?thesis by (simp add: eq)
      next
        case False
        have sum: "len + off + 4 < INT32_MAX"
        proof (rule ccontr)
          assume "\<not> ?thesis"
          with False ld4 off0 show False
            by (cases "len + (off + 4) \<le> UINT32_MAX") (auto simp: to_u32_id to_u32_wrap)
        qed
        define x0 where "x0 = to_s32 (off + 4 + 12 - 4 + len)"
        define pad where "pad \<longleftrightarrow> h_version m fdt < 16 \<and> 8 \<le> len \<and> to_u32 (x0 - len) mod 8 \<noteq> 0"
        define e where "e = off + 12 + len + (if pad then 4 else 0)"
        have x0: "to_s32 (12 + off + len) = x0" by (simp add: x0_def algebra_simps)
        have x: "(if pad then to_s32 (x0 + 4) else x0) = to_s32 e"
          by (simp add: x0_def e_def to_s32_add [unfolded add.commute [of "to_s32 _"]] algebra_simps)
        have "\<exists>tag' next.
         (do { q \<leftarrow> fdt_offset_ptr m fdt off (to_u32 (to_s32 e - off));
               Some (if q = 0 then (FDT_END, - FDT_ERR_BADSTRUCTURE) else (tag, fdt_tagalign (to_s32 e))) }) =
           Some (tag', next) \<and>
         (tag' = FDT_END \<and> next = - FDT_ERR_BADSTRUCTURE \<or> tag_at m fdt off tag' next)"
        proof (rule next_tag_finish [OF b o, of e])
          show "off + 4 \<le> e" "e - off \<le> UINT32_MAX" using ld4 sum off0 by (auto simp: e_def)
          show "tag_end m fdt off tag e" using isprop ld4(2) by (auto simp: tag_end_def e_def pad_def len_def Let_def)
          show "to_s32 (to_s32 e) = to_s32 e" using to_s32_add [of e 0] by simp
        qed (use isprop in \<open>simp_all add: tag_def to_u32_to_s32\<close>)
        moreover have "fdt_next_tag m fdt off =
          (do { q \<leftarrow> fdt_offset_ptr m fdt off (to_u32 (to_s32 e - off));
               Some (if q = 0 then (FDT_END, - FDT_ERR_BADSTRUCTURE) else (tag, fdt_tagalign (to_s32 e))) })"
        proof (cases pad)
          case True
          with x have "to_s32 e = to_s32 (x0 + 4)" by simp
          with True isprop p4 ld4 False ver x0 show ?thesis by (simp add: eq pad_def cong: if_cong)
        next
          case np: False
          with x have "to_s32 e = x0" by simp
          with np isprop p4 ld4 False ver x0 show ?thesis
            by (simp add: eq pad_def cong: if_cong) blast
        qed
        ultimately show ?thesis by auto
      qed
    qed
  next
    case bad
    then show ?thesis by (simp add: eq)
  qed
qed

lemma fdt_next_tag_cases:
  assumes "blob m fdt" "off \<le> INT32_MAX"
  obtains (bad) nx where "fdt_next_tag m fdt off = Some (FDT_END, nx)"
      "nx = - FDT_ERR_TRUNCATED \<or> nx = - FDT_ERR_BADSTRUCTURE"
    | (good) tag nx where "fdt_next_tag m fdt off = Some (tag, nx)" "tag_at m fdt off tag nx"
  using fdt_next_tag_spec [OF assms] by auto

lemma tag_at_tags:
  "tag_at m fdt off tag next \<Longrightarrow> tag = 1 \<or> tag = 2 \<or> tag = 3 \<or> tag = 4 \<or> tag = 9"
  by (auto simp: tag_at_def)

section \<open>Walking from node to node\<close>

definition node_at :: "mem \<Rightarrow> int \<Rightarrow> int \<Rightarrow> bool" where
  "node_at m fdt off \<longleftrightarrow> off mod 4 = 0 \<and>
     (\<exists>next. fdt_next_tag m fdt off = Some (FDT_BEGIN_NODE, next) \<and>
             tag_at m fdt off FDT_BEGIN_NODE next)"

definition prop_at :: "mem \<Rightarrow> int \<Rightarrow> int \<Rightarrow> bool" where
  "prop_at m fdt off \<longleftrightarrow> off mod 4 = 0 \<and>
     (\<exists>next. fdt_next_tag m fdt off = Some (FDT_PROP, next) \<and> tag_at m fdt off FDT_PROP next)"

lemma fdt_check_node_offset_spec:
  assumes b: "blob m fdt" and off: "off \<le> INT32_MAX"
  shows "\<exists>r. fdt_check_node_offset m fdt off = Some r \<and>
     (r = - FDT_ERR_BADOFFSET \<or> node_at m fdt off \<and> tag_at m fdt off FDT_BEGIN_NODE r)"
  by (rule fdt_next_tag_cases [OF b off]) (auto simp: fdt_check_node_offset_def node_at_def)

lemma fdt_check_prop_offset_spec:
  assumes b: "blob m fdt" and off: "off \<le> INT32_MAX"
  shows "\<exists>r. fdt_check_prop_offset m fdt off = Some r \<and>
     (r = - FDT_ERR_BADOFFSET \<or> prop_at m fdt off \<and> tag_at m fdt off FDT_PROP r)"
  by (rule fdt_next_tag_cases [OF b off]) (auto simp: fdt_check_prop_offset_def prop_at_def)

definition node_result :: "mem \<Rightarrow> int \<Rightarrow> int \<Rightarrow> int \<Rightarrow> int option \<Rightarrow> bool" where
  "node_result m fdt low r depth \<longleftrightarrow>
     (r < 0 \<and> r \<in> {- FDT_ERR_NOTFOUND, - FDT_ERR_BADOFFSET, - FDT_ERR_TRUNCATED, - FDT_ERR_BADSTRUCTURE}) \<or>
     (low \<le> r \<and> r \<le> 2147483644 \<and> r mod 4 = 0 \<and>
       ((\<exists>d. depth = Some d \<and> d < 0) \<or> node_at m fdt r))"

lemma node_result_mono: "node_result m fdt a r d \<Longrightarrow> b \<le> a \<Longrightarrow> node_result m fdt b r d"
  by (auto simp: node_result_def)

lemma fdt_next_node_loop_spec:
  assumes b: "blob m fdt"
  shows "0 \<le> off \<Longrightarrow> off \<le> INT32_MAX \<Longrightarrow> off mod 4 = 0 \<Longrightarrow>
    \<exists>r d. fdt_next_node_loop m fdt off depth = Some (r, d) \<and> node_result m fdt off r d \<and>
          (d = None \<longleftrightarrow> depth = None)"
proof (induction "nat (INT32_MAX - off)" arbitrary: off depth rule: less_induct)
  case less
  show ?case
  proof (rule fdt_next_tag_cases [OF b less.prems(2)])
    fix nx assume "fdt_next_tag m fdt off = Some (FDT_END, nx)"
      "nx = - FDT_ERR_TRUNCATED \<or> nx = - FDT_ERR_BADSTRUCTURE"
    then show ?thesis
      by (subst (1) fdt_next_node_loop.simps) (auto simp: node_result_def)
  next
    fix tag nx
    assume good: "fdt_next_tag m fdt off = Some (tag, nx)" "tag_at m fdt off tag nx"
    note tb = tag_at_bounds [OF b good(2)]
    have IH: "\<exists>r d. fdt_next_node_loop m fdt nx depth' = Some (r, d) \<and> node_result m fdt off r d \<and>
          (d = None \<longleftrightarrow> depth' = None)" for depth'
    proof -
      have "\<exists>r d. fdt_next_node_loop m fdt nx depth' = Some (r, d) \<and> node_result m fdt nx r d \<and>
          (d = None \<longleftrightarrow> depth' = None)"
        using less.prems(1) tb by (intro less.hyps) auto
      then show ?thesis using node_result_mono [of m fdt nx _ _ off] tb(2) by fastforce
    qed
    let ?d = "map_option (\<lambda>d. to_s32 (d - 1)) depth"
    have dn: "?d = None \<longleftrightarrow> depth = None" by simp
    from tag_at_tags [OF good(2)] show ?thesis
    proof (elim disjE)
      assume "tag = 1"
      with good tb less.prems show ?thesis
        by (subst (1) fdt_next_node_loop.simps) (auto simp: node_result_def node_at_def)
    next
      assume t: "tag = 2"
      show ?thesis
      proof (cases "case ?d of Some d \<Rightarrow> d < 0 | None \<Rightarrow> False")
        case True
        with good t tb show ?thesis
          by (subst (1) fdt_next_node_loop.simps) (auto simp: node_result_def split: option.splits)
      next
        case False
        with good t have "fdt_next_node_loop m fdt off depth = fdt_next_node_loop m fdt nx ?d"
          by (subst (1) fdt_next_node_loop.simps) (simp add: Let_def)
        with IH [of ?d] dn show ?thesis by simp
      qed
    next
      assume "tag = 3"
      with good have "fdt_next_node_loop m fdt off depth = fdt_next_node_loop m fdt nx depth"
        by (subst (1) fdt_next_node_loop.simps) simp
      with IH [of depth] show ?thesis by simp
    next
      assume "tag = 4"
      with good have "fdt_next_node_loop m fdt off depth = fdt_next_node_loop m fdt nx depth"
        by (subst (1) fdt_next_node_loop.simps) simp
      with IH [of depth] show ?thesis by simp
    next
      assume "tag = 9"
      with good tb show ?thesis
        by (subst (1) fdt_next_node_loop.simps) (auto simp: node_result_def)
    qed
  qed
qed

lemma fdt_next_node_spec:
  assumes b: "blob m fdt" and off: "off \<le> INT32_MAX"
  shows "\<exists>r d. fdt_next_node m fdt off depth = Some (r, d) \<and>
     node_result m fdt (max 0 (off + 1)) r d \<and> (d = None \<longleftrightarrow> depth = None)"
proof (cases "0 \<le> off")
  case False
  then show ?thesis
    using fdt_next_node_loop_spec [OF b, of 0 depth] by (simp add: fdt_next_node_def)
next
  case True
  from fdt_check_node_offset_spec [OF b off]
  obtain n where n: "fdt_check_node_offset m fdt off = Some n"
    "n = - FDT_ERR_BADOFFSET \<or> node_at m fdt off \<and> tag_at m fdt off FDT_BEGIN_NODE n"
    by (elim exE conjE)
  show ?thesis
  proof (cases "n < 0")
    case True
    moreover have "n = - FDT_ERR_BADOFFSET"
    proof (rule ccontr)
      assume "n \<noteq> - FDT_ERR_BADOFFSET"
      with n(2) have "tag_at m fdt off FDT_BEGIN_NODE n" by blast
      from tag_at_bounds(1,2) [OF b this] True show False by simp
    qed
    ultimately show ?thesis using \<open>0 \<le> off\<close> n(1)
      by (simp add: fdt_next_node_def node_result_def)
  next
    case False
    with n(2) have "tag_at m fdt off FDT_BEGIN_NODE n" by auto
    note nb = tag_at_bounds [OF b this]
    have max1: "max 0 (off + 1) \<le> n" using nb by simp
    from fdt_next_node_loop_spec [OF b, of n depth] nb False
    obtain r d where "fdt_next_node_loop m fdt n depth = Some (r, d)" "node_result m fdt n r d"
      "d = None \<longleftrightarrow> depth = None" by auto
    with False n(1) \<open>0 \<le> off\<close> node_result_mono [OF this(2) max1] show ?thesis
      by (simp add: fdt_next_node_def)
  qed
qed

lemma fdt_next_node_None:
  assumes b: "blob m fdt" and off: "off \<le> INT32_MAX"
  obtains r where "fdt_next_node m fdt off None = Some (r, None)"
    "r < 0 \<or> (max 0 (off + 1) \<le> r \<and> r \<le> 2147483644 \<and> node_at m fdt r)"
proof -
  obtain r where r: "fdt_next_node m fdt off None = Some (r, None)"
    "node_result m fdt (max 0 (off + 1)) r None"
    using fdt_next_node_spec [OF b off, of None] by auto
  then have "r < 0 \<or> (max 0 (off + 1) \<le> r \<and> r \<le> 2147483644 \<and> node_at m fdt r)"
    by (auto simp: node_result_def)
  with r(1) show thesis by (rule that)
qed

section \<open>What the header check establishes\<close>

lemma check_block_iff:
  assumes "0 \<le> base" "base \<le> UINT32_MAX" "0 \<le> sz" "sz \<le> UINT32_MAX" "ts \<le> INT32_MAX"
  shows "check_block h ts base sz \<longleftrightarrow> h \<le> base \<and> base + sz \<le> ts"
proof (cases "base + sz \<le> UINT32_MAX")
  case True
  with assms have "to_u32 (base + sz) = base + sz" by (simp add: wrap_simps)
  with assms show ?thesis by (auto simp: check_block_def check_off_def)
next
  case False
  with assms have "to_u32 (base + sz) = base + sz - 4294967296" by (intro to_u32_wrap) auto
  with False assms show ?thesis by (auto simp: check_block_def check_off_def)
qed

definition header_ok :: "mem \<Rightarrow> int \<Rightarrow> bool" where
  "header_ok m fdt \<longleftrightarrow>
     (let hs = fdt_header_size_of (h_version m fdt); ts = h_totalsize m fdt in
      fdt mod 8 = 0 \<and> hdr m fdt 0 = FDT_MAGIC \<and>
      2 \<le> h_version m fdt \<and> h_last_comp m fdt \<le> 17 \<and> h_last_comp m fdt \<le> h_version m fdt \<and>
      hs \<le> ts \<and> ts \<le> INT32_MAX \<and>
      h_off_rsvmap m fdt mod 8 = 0 \<and> h_off_struct m fdt mod 4 = 0 \<and>
      hs \<le> h_off_rsvmap m fdt \<and> h_off_rsvmap m fdt \<le> ts \<and>
      hs \<le> h_off_struct m fdt \<and> h_off_struct m fdt \<le> ts \<and>
      (17 \<le> h_version m fdt \<longrightarrow> h_off_struct m fdt + h_size_struct m fdt \<le> ts) \<and>
      hs \<le> h_off_strings m fdt \<and> h_off_strings m fdt + h_size_strings m fdt \<le> ts)"

lemma fdt_check_header_iff:
  assumes m: "mapped m fdt 40"
  shows "fdt_check_header m fdt = Some 0 \<longleftrightarrow> header_ok m fdt"
proof -
  note hf = header_fields [OF m]
  note r = blob_field(2,3) [OF m]
  have st: "check_off h t (h_off_struct m fdt) \<longleftrightarrow> h \<le> h_off_struct m fdt \<and> h_off_struct m fdt \<le> t"
    "check_off h t (h_off_rsvmap m fdt) \<longleftrightarrow> h \<le> h_off_rsvmap m fdt \<and> h_off_rsvmap m fdt \<le> t" for h t
    by (auto simp: check_off_def)
  have bl: "h_totalsize m fdt \<le> INT32_MAX \<Longrightarrow> check_block h (h_totalsize m fdt) (h_off_struct m fdt) (h_size_struct m fdt)
      \<longleftrightarrow> h \<le> h_off_struct m fdt \<and> h_off_struct m fdt + h_size_struct m fdt \<le> h_totalsize m fdt"
    "h_totalsize m fdt \<le> INT32_MAX \<Longrightarrow> check_block h (h_totalsize m fdt) (h_off_strings m fdt) (h_size_strings m fdt)
      \<longleftrightarrow> h \<le> h_off_strings m fdt \<and> h_off_strings m fdt + h_size_strings m fdt \<le> h_totalsize m fdt" for h
    by (simp_all add: check_block_iff r)
  have ss: "0 \<le> h_size_struct m fdt" using r(1) [of 36] by simp
  show ?thesis
  proof (cases "h_totalsize m fdt \<le> INT32_MAX")
    case True
    then show ?thesis
      unfolding fdt_check_header_def fdt_header_size_def header_ok_def Let_def
      using ss by (simp add: hf st bl) linarith
  next
    case False
    then show ?thesis
      unfolding fdt_check_header_def fdt_header_size_def header_ok_def Let_def
      by (simp add: hf)
  qed
qed

lemma header_ok_blob:
  assumes "mapped m fdt 40" "header_ok m fdt" "0 < fdt" "fdt + h_totalsize m fdt \<le> 4294967296"
    "mapped m fdt (4 * ((h_totalsize m fdt + 3) div 4))"
  shows "blob m fdt"
proof -
  have "28 \<le> fdt_header_size_of v" for v by (simp add: fdt_header_size_of_def)
  from this [of "h_version m fdt"] assms show ?thesis
    by (simp add: blob_def header_ok_def Let_def)
qed

section \<open>A sample tree\<close>

text \<open>
  A version-17 tree at address 4096: the root with \<open>compatible = "a"\<close> and a child \<open>b\<close> with
  \<open>compatible = "x", "virt"\<close>.  The strings \<open>compatible\<close> and \<open>virt\<close> are at address 256.
\<close>

definition demo_tree :: "u8 list list" where
  "demo_tree =
    [[208, 13, 254, 237, 0, 0, 0, 132, 0, 0, 0, 56, 0, 0, 0, 120],
     [0, 0, 0, 40, 0, 0, 0, 17, 0, 0, 0, 16, 0, 0, 0, 0],
     [0, 0, 0, 12, 0, 0, 0, 64, 0, 0, 0, 0, 0, 0, 0, 0],
     [0, 0, 0, 0, 0, 0, 0, 0, 0, 0, 0, 1, 0, 0, 0, 0],
     [0, 0, 0, 3, 0, 0, 0, 2, 0, 0, 0, 0, 97, 0, 0, 0],
     [0, 0, 0, 1, 98, 0, 0, 0, 0, 0, 0, 3, 0, 0, 0, 7],
     [0, 0, 0, 0, 120, 0, 118, 105, 114, 116, 0, 0, 0, 0, 0, 2],
     [0, 0, 0, 2, 0, 0, 0, 9, 99, 111, 109, 112, 97, 116, 105, 98],
     [108, 101, 0, 0, 0, 0, 0, 0, 0, 0, 0, 0, 0, 0, 0, 0]]"

definition demo_literals :: "u8 list list" where
  "demo_literals = [[99, 111, 109, 112, 97, 116, 105, 98, 108, 101, 0, 118, 105, 114, 116, 0]]"

definition demo_fdt_mem :: mem where
  "demo_fdt_mem a = (if 4096 \<le> a then mem_rows demo_tree 4096 a else mem_rows demo_literals 256 a)"

lemma demo_fdt_fields:
  "hdr demo_fdt_mem 4096 0 = FDT_MAGIC" "h_totalsize demo_fdt_mem 4096 = 132"
  "h_off_struct demo_fdt_mem 4096 = 56" "h_off_strings demo_fdt_mem 4096 = 120"
  "h_version demo_fdt_mem 4096 = 17" "h_last_comp demo_fdt_mem 4096 = 16"
  by code_simp+

lemma demo_fdt_mapped: "mapped demo_fdt_mem 4096 144"
proof -
  have "mapped (mem_rows demo_tree 4096) 4096 144"
    using mapped_mem_rows [of demo_tree 4096] by (simp add: demo_tree_def)
  then show ?thesis by (auto simp: mapped_def demo_fdt_mem_def)
qed

lemma demo_fdt_blob: "blob demo_fdt_mem 4096"
  unfolding blob_def demo_fdt_fields
  by (simp add: mapped_sub [OF demo_fdt_mapped])

section \<open>Properties\<close>

text \<open>C18: \<open>fdt_check_header\<close> accepts exactly the headers whose magic, version pair, size, alignments and
  block positions are all consistent; every block it accepts lies inside the blob, with no
  wrap-around in the sums.\<close>

theorem check_header_exact:
  assumes "mapped m fdt 40"
  shows "fdt_check_header m fdt = Some 0 \<longleftrightarrow> header_ok m fdt"
  using assms by (rule fdt_check_header_iff)

theorem check_header_exact_witness: "fdt_check_header demo_fdt_mem 4096 = Some 0"
proof -
  have "header_ok demo_fdt_mem 4096" by code_simp
  with check_header_exact [of demo_fdt_mem 4096] show ?thesis
    using mapped_sub [OF demo_fdt_mapped, of 4096 40] by simp
qed

text \<open>C30: on a mapped blob with arbitrary contents \<open>fdt_next_tag\<close> never faults and always returns: either
  a well-formed tag that lies with its name or value inside the structure block, and the aligned
  offset behind it, or the end tag with an error.\<close>

theorem next_tag_safe:
  assumes "blob m fdt" "off \<le> INT32_MAX"
  shows "\<exists>tag next. fdt_next_tag m fdt off = Some (tag, next) \<and>
    (tag = FDT_END \<and> next \<in> {- FDT_ERR_TRUNCATED, - FDT_ERR_BADSTRUCTURE} \<or>
     tag_at m fdt off tag next)"
  using assms by (rule fdt_next_tag_spec)

theorem next_tag_safe_witness: "\<exists>next. fdt_next_tag demo_fdt_mem 4096 24 = Some (FDT_BEGIN_NODE, next)"
proof -
  have "fdt_next_tag demo_fdt_mem 4096 24 = Some (FDT_BEGIN_NODE, 32)" by code_simp
  with next_tag_safe [OF demo_fdt_blob, of 24] show ?thesis by simp
qed

text \<open>\<open>fdt_next_node\<close> on a mapped blob with arbitrary contents always returns: a documented error,
  or an aligned offset strictly behind the one it started from where a node begins (or, with depth
  tracking, where the walk left the starting node's parent).\<close>

theorem next_node_advances:
  assumes "blob m fdt" "off \<le> INT32_MAX"
  shows "\<exists>r d. fdt_next_node m fdt off depth = Some (r, d) \<and>
     node_result m fdt (max 0 (off + 1)) r d \<and> (d = None \<longleftrightarrow> depth = None)"
  using assms by (rule fdt_next_node_spec)

theorem next_node_advances_witness:
  "\<exists>r d. fdt_next_node demo_fdt_mem 4096 0 (Some 0) = Some (r, d) \<and> r = 24 \<and> d = Some 1"
proof -
  have "fdt_next_node demo_fdt_mem 4096 0 (Some 0) = Some (24, Some 1)" by code_simp
  with next_node_advances [OF demo_fdt_blob, of 0 "Some 0"] show ?thesis by simp
qed

end
