(* ===== verification/Fdt_Ro.thy ===== *)
theory Fdt_Ro
  imports Fdt
begin

text \<open>
  Read-only access to a flattened device tree, \<^verbatim>\<open>libfdt/fdt_ro.c\<close>: strings, memory reservations,
  properties, names and paths, searches by property, handle and compatible string.  A null pointer
  is 0, an \<open>int *lenp\<close> argument is a second result, and a string literal of the C text is its
  address \<open>lit s\<close> in the image (the linker chooses it).
\<close>

type_synonym literals = "string \<Rightarrow> int"

abbreviation FDT_MAX_PHANDLE :: int where "FDT_MAX_PHANDLE \<equiv> 0xfffffffe"

section \<open>Strings\<close>

definition fdt_get_string :: "mem \<Rightarrow> int \<Rightarrow> int \<Rightarrow> (int \<times> int) option" where
  "fdt_get_string m fdt stroffset = do {
     totalsize \<leftarrow> fdt_ro_probe m fdt;
     if totalsize < 0 then Some (0, totalsize) else do {
     off_strings \<leftarrow> fdt_off_dt_strings m fdt;
     let absoffset = to_u32 (stroffset + off_strings);
         len = totalsize - absoffset in
     if absoffset \<ge> totalsize then Some (0, - FDT_ERR_BADOFFSET) else do {
     magic \<leftarrow> fdt_magic m fdt;
     r \<leftarrow> (if magic = FDT_MAGIC then
            (if stroffset < 0 then Some (Inl (- FDT_ERR_BADOFFSET)) else do {
               version \<leftarrow> fdt_version m fdt;
               if can_assume LATEST \<or> version \<ge> 17 then do {
                 size_strings \<leftarrow> fdt_size_dt_strings m fdt;
                 Some (if stroffset \<ge> size_strings then Inl (- FDT_ERR_BADOFFSET)
                       else if size_strings - stroffset < len then Inr (size_strings - stroffset)
                       else Inr len) }
               else Some (Inr len) })
          else if magic = FDT_SW_MAGIC then do {
            size_strings \<leftarrow> fdt_size_dt_strings m fdt;
            let sw_stroffset = to_u32 (- stroffset) in
            Some (if stroffset \<ge> 0 \<or> sw_stroffset > size_strings then Inl (- FDT_ERR_BADOFFSET)
                  else if sw_stroffset < len then Inr sw_stroffset else Inr len) }
          else Some (Inl (- FDT_ERR_INTERNAL)));
     (case r of Inl err \<Rightarrow> Some (0, err)
      | Inr len \<Rightarrow> do {
          let s = fdt + absoffset in do {
          n \<leftarrow> memchr m s 0 (nat len);
          Some (if n = 0 then (0, - FDT_ERR_TRUNCATED) else (s, to_s32 (n - s))) } }) } } }"

definition fdt_string :: "mem \<Rightarrow> int \<Rightarrow> int \<Rightarrow> int option" where
  "fdt_string m fdt stroffset = do { (s, _) \<leftarrow> fdt_get_string m fdt stroffset; Some s }"

definition fdt_string_eq :: "mem \<Rightarrow> int \<Rightarrow> int \<Rightarrow> int \<Rightarrow> int \<Rightarrow> bool option" where
  "fdt_string_eq m fdt stroffset s len = do {
     (p, slen) \<leftarrow> fdt_get_string m fdt stroffset;
     if p \<noteq> 0 \<and> slen = len then do { c \<leftarrow> memcmp m p s (nat (to_u32 len)); Some (c = 0) }
     else Some False }"

section \<open>Memory reservations\<close>

definition fdt64_ld :: "mem \<Rightarrow> int \<Rightarrow> int option" where
  "fdt64_ld m p = do { hi \<leftarrow> fdt32_ld m p; lo \<leftarrow> fdt32_ld m (p + 4); Some (hi * 4294967296 + lo) }"

definition fdt_mem_rsv_raw :: "mem \<Rightarrow> int \<Rightarrow> int \<Rightarrow> int option" where
  "fdt_mem_rsv_raw m fdt n = do { off \<leftarrow> fdt_off_mem_rsvmap m fdt; Some (fdt + off + 16 * n) }"

definition fdt_mem_rsv :: "mem \<Rightarrow> int \<Rightarrow> int \<Rightarrow> int option" where
  "fdt_mem_rsv m fdt n = do {
     off_rsv \<leftarrow> fdt_off_mem_rsvmap m fdt;
     let offset = to_u32 (n * 16); absoffset = to_u32 (off_rsv + offset) in
     if \<not> can_assume VALID_INPUT \<and> absoffset < off_rsv then Some 0
     else do {
       totalsize \<leftarrow> fdt_totalsize m fdt;
       if \<not> can_assume VALID_INPUT \<and> absoffset > to_u32 (totalsize - 16) then Some 0
       else fdt_mem_rsv_raw m fdt n } }"

definition fdt_get_mem_rsv :: "mem \<Rightarrow> int \<Rightarrow> int \<Rightarrow> (int \<times> (int \<times> int) option) option" where
  "fdt_get_mem_rsv m fdt n = do {
     err \<leftarrow> fdt_ro_probe m fdt;
     if err < 0 then Some (err, None) else do {
     re \<leftarrow> fdt_mem_rsv m fdt n;
     if \<not> can_assume VALID_INPUT \<and> re = 0 then Some (- FDT_ERR_BADOFFSET, None)
     else do { a \<leftarrow> fdt64_ld m re; s \<leftarrow> fdt64_ld m (re + 8); Some (0, Some (a, s)) } } }"

partial_function (option) fdt_num_mem_rsv_from :: "mem \<Rightarrow> int \<Rightarrow> int \<Rightarrow> int option" where [code]:
  "fdt_num_mem_rsv_from m fdt i = do {
     re \<leftarrow> fdt_mem_rsv m fdt i;
     if re \<noteq> 0 then do {
       s \<leftarrow> fdt64_ld m (re + 8);
       if s = 0 then Some i else fdt_num_mem_rsv_from m fdt (to_s32 (i + 1)) }
     else Some (- FDT_ERR_TRUNCATED) }"

definition fdt_num_mem_rsv :: "mem \<Rightarrow> int \<Rightarrow> int option" where
  "fdt_num_mem_rsv m fdt = do {
     err \<leftarrow> fdt_ro_probe m fdt;
     if err < 0 then Some err else fdt_num_mem_rsv_from m fdt 0 }"

section \<open>Names\<close>

definition fdt_get_name :: "mem \<Rightarrow> int \<Rightarrow> int \<Rightarrow> (int \<times> int) option" where
  "fdt_get_name m fdt nodeoffset = do {
     nh \<leftarrow> fdt_offset_ptr_raw m fdt nodeoffset;
     err \<leftarrow> (if can_assume VALID_DTB then Some 0 else do {
               err \<leftarrow> fdt_ro_probe m fdt;
               if err < 0 then Some err else fdt_check_node_offset m fdt nodeoffset });
     if err < 0 then Some (0, err) else do {
     version \<leftarrow> fdt_version m fdt;
     let nameptr = nh + 4 in
     if \<not> can_assume LATEST \<and> version < 16 then do {
       leaf \<leftarrow> strrchr m nameptr 47;
       if leaf = 0 then Some (0, - FDT_ERR_BADSTRUCTURE)
       else do { len \<leftarrow> strlen m (leaf + 1); Some (leaf + 1, to_s32 len) } }
     else do { len \<leftarrow> strlen m nameptr; Some (nameptr, to_s32 len) } } }"

definition fdt_nodename_eq :: "mem \<Rightarrow> int \<Rightarrow> int \<Rightarrow> int \<Rightarrow> int \<Rightarrow> bool option" where
  "fdt_nodename_eq m fdt offset s len = do {
     (p, olen) \<leftarrow> fdt_get_name m fdt offset;
     if p = 0 \<or> olen < len then Some False else do {
     c \<leftarrow> memcmp m p s (nat (to_u32 len));
     if c \<noteq> 0 then Some False else do {
     b \<leftarrow> load8 m (p + len);
     if b = 0 then Some True else do {
     at \<leftarrow> memchr m s 64 (nat (to_u32 len));
     Some (at = 0 \<and> b = 64) } } } }"

section \<open>Properties\<close>

partial_function (option) nextprop :: "mem \<Rightarrow> int \<Rightarrow> int \<Rightarrow> int option" where [code]:
  "nextprop m fdt offset = do {
     (tag, nextoffset) \<leftarrow> fdt_next_tag m fdt offset;
     if tag = FDT_END then
       Some (if nextoffset \<ge> 0 then - FDT_ERR_BADSTRUCTURE else nextoffset)
     else if tag = FDT_PROP then Some offset
     else if tag = FDT_NOP then nextprop m fdt nextoffset
     else Some (- FDT_ERR_NOTFOUND) }"

definition fdt_first_property_offset :: "mem \<Rightarrow> int \<Rightarrow> int \<Rightarrow> int option" where
  "fdt_first_property_offset m fdt nodeoffset = do {
     offset \<leftarrow> fdt_check_node_offset m fdt nodeoffset;
     if offset < 0 then Some offset else nextprop m fdt offset }"

definition fdt_next_property_offset :: "mem \<Rightarrow> int \<Rightarrow> int \<Rightarrow> int option" where
  "fdt_next_property_offset m fdt offset = do {
     offset \<leftarrow> fdt_check_prop_offset m fdt offset;
     if offset < 0 then Some offset else nextprop m fdt offset }"

definition fdt_get_property_by_offset_unchecked :: "mem \<Rightarrow> int \<Rightarrow> int \<Rightarrow> (int \<times> int) option" where
  "fdt_get_property_by_offset_unchecked m fdt offset = do {
     err \<leftarrow> (if can_assume VALID_INPUT then Some 0 else fdt_check_prop_offset m fdt offset);
     if err < 0 then Some (0, err) else do {
     prop \<leftarrow> fdt_offset_ptr_raw m fdt offset;
     len \<leftarrow> fdt32_ld m (prop + 4);
     Some (prop, to_s32 len) } }"

definition fdt_get_property_by_offset :: "mem \<Rightarrow> int \<Rightarrow> int \<Rightarrow> (int \<times> int) option" where
  "fdt_get_property_by_offset m fdt offset = do {
     version \<leftarrow> fdt_version m fdt;
     if \<not> can_assume LATEST \<and> version < 16 then Some (0, - FDT_ERR_BADVERSION)
     else fdt_get_property_by_offset_unchecked m fdt offset }"

text \<open>The property found, \<open>*lenp\<close> and \<open>*poffset\<close>.\<close>

partial_function (option) fdt_get_property_loop ::
  "mem \<Rightarrow> int \<Rightarrow> int \<Rightarrow> int \<Rightarrow> int \<Rightarrow> (int \<times> int \<times> int) option" where [code]:
  "fdt_get_property_loop m fdt offset name namelen =
     (if offset < 0 then Some (0, offset, 0) else do {
      (prop, len) \<leftarrow> fdt_get_property_by_offset_unchecked m fdt offset;
      if \<not> can_assume LIBFDT_FLAWLESS \<and> prop = 0
      then Some (0, - FDT_ERR_INTERNAL, 0) else do {
      nameoff \<leftarrow> fdt32_ld m (prop + 8);
      eq \<leftarrow> fdt_string_eq m fdt (to_s32 nameoff) name namelen;
      if eq then Some (prop, len, offset) else do {
      offset \<leftarrow> fdt_next_property_offset m fdt offset;
      fdt_get_property_loop m fdt offset name namelen } } })"

definition fdt_get_property_namelen_any ::
  "mem \<Rightarrow> int \<Rightarrow> int \<Rightarrow> int \<Rightarrow> int \<Rightarrow> (int \<times> int \<times> int) option" where
  "fdt_get_property_namelen_any m fdt offset name namelen = do {
     offset \<leftarrow> fdt_first_property_offset m fdt offset;
     fdt_get_property_loop m fdt offset name namelen }"

definition fdt_get_property_namelen ::
  "mem \<Rightarrow> int \<Rightarrow> int \<Rightarrow> int \<Rightarrow> int \<Rightarrow> (int \<times> int) option" where
  "fdt_get_property_namelen m fdt offset name namelen = do {
     version \<leftarrow> fdt_version m fdt;
     if \<not> can_assume LATEST \<and> version < 16 then Some (0, - FDT_ERR_BADVERSION)
     else do {
       (prop, len, _) \<leftarrow> fdt_get_property_namelen_any m fdt offset name namelen;
       Some (prop, len) } }"

definition fdt_get_property :: "mem \<Rightarrow> int \<Rightarrow> int \<Rightarrow> int \<Rightarrow> (int \<times> int) option" where
  "fdt_get_property m fdt nodeoffset name = do {
     n \<leftarrow> strlen m name; fdt_get_property_namelen m fdt nodeoffset name (to_s32 n) }"

text \<open>The address of the data of a property; before version 16 a large value is 8-aligned.\<close>

definition prop_data :: "mem \<Rightarrow> int \<Rightarrow> int \<Rightarrow> int \<Rightarrow> int option" where
  "prop_data m fdt prop offset = do {
     version \<leftarrow> fdt_version m fdt;
     if \<not> can_assume LATEST \<and> version < 16 \<and> to_u32 (offset + 12) mod 8 \<noteq> 0 then do {
       len \<leftarrow> fdt32_ld m (prop + 4);
       Some (if len \<ge> 8 then prop + 12 + 4 else prop + 12) }
     else Some (prop + 12) }"

definition fdt_getprop_namelen ::
  "mem \<Rightarrow> int \<Rightarrow> int \<Rightarrow> int \<Rightarrow> int \<Rightarrow> (int \<times> int) option" where
  "fdt_getprop_namelen m fdt nodeoffset name namelen = do {
     (prop, len, poffset) \<leftarrow> fdt_get_property_namelen_any m fdt nodeoffset name namelen;
     if prop = 0 then Some (0, len)
     else do { data \<leftarrow> prop_data m fdt prop poffset; Some (data, len) } }"

text \<open>\<open>want_name\<close> is \<open>namep != NULL\<close>; the middle result is \<open>*namep\<close>.\<close>

definition fdt_getprop_by_offset ::
  "mem \<Rightarrow> int \<Rightarrow> int \<Rightarrow> bool \<Rightarrow> (int \<times> int option \<times> int) option" where
  "fdt_getprop_by_offset m fdt offset want_name = do {
     (prop, len) \<leftarrow> fdt_get_property_by_offset_unchecked m fdt offset;
     if prop = 0 then Some (0, None, len) else do {
     (name, err) \<leftarrow>
       (if want_name then do {
          nameoff \<leftarrow> fdt32_ld m (prop + 8);
          (name, namelen) \<leftarrow> fdt_get_string m fdt (to_s32 nameoff);
          Some (Some name, if name = 0 then Some namelen else None) }
        else Some (None, None));
     case err of Some namelen \<Rightarrow> Some (0, name, namelen)
     | None \<Rightarrow> do { data \<leftarrow> prop_data m fdt prop offset; Some (data, name, len) } } }"

definition fdt_getprop :: "mem \<Rightarrow> int \<Rightarrow> int \<Rightarrow> int \<Rightarrow> (int \<times> int) option" where
  "fdt_getprop m fdt nodeoffset name = do {
     n \<leftarrow> strlen m name; fdt_getprop_namelen m fdt nodeoffset name (to_s32 n) }"

definition fdt_get_phandle :: "mem \<Rightarrow> literals \<Rightarrow> int \<Rightarrow> int \<Rightarrow> int option" where
  "fdt_get_phandle m lit fdt nodeoffset = do {
     (php, len) \<leftarrow> fdt_getprop m fdt nodeoffset (lit ''phandle'');
     if php = 0 \<or> len \<noteq> 4 then do {
       (php, len) \<leftarrow> fdt_getprop m fdt nodeoffset (lit ''linux,phandle'');
       if php = 0 \<or> len \<noteq> 4 then Some 0 else fdt32_ld m php }
     else fdt32_ld m php }"

partial_function (option) fdt_find_max_phandle_from ::
  "mem \<Rightarrow> literals \<Rightarrow> int \<Rightarrow> int \<Rightarrow> int \<Rightarrow> (int \<times> int option) option" where [code]:
  "fdt_find_max_phandle_from m lit fdt offset best = do {
     (offset, _) \<leftarrow> fdt_next_node m fdt offset None;
     if offset < 0 then
       Some (if offset = - FDT_ERR_NOTFOUND then (0, Some best) else (offset, None))
     else do {
       v \<leftarrow> fdt_get_phandle m lit fdt offset;
       fdt_find_max_phandle_from m lit fdt offset (if v > best then v else best) } }"

definition fdt_find_max_phandle :: "mem \<Rightarrow> literals \<Rightarrow> int \<Rightarrow> (int \<times> int option) option" where
  "fdt_find_max_phandle m lit fdt = fdt_find_max_phandle_from m lit fdt (- 1) 0"

definition fdt_generate_phandle :: "mem \<Rightarrow> literals \<Rightarrow> int \<Rightarrow> (int \<times> int option) option" where
  "fdt_generate_phandle m lit fdt = do {
     (err, best) \<leftarrow> fdt_find_max_phandle m lit fdt;
     Some (if err < 0 then (err, None)
           else if the best = FDT_MAX_PHANDLE then (- FDT_ERR_NOPHANDLES, None)
           else (0, Some (to_u32 (the best + 1)))) }"

section \<open>Nodes by name and path\<close>

partial_function (option) fdt_subnode_offset_loop ::
  "mem \<Rightarrow> int \<Rightarrow> int \<Rightarrow> int \<Rightarrow> int \<Rightarrow> int \<Rightarrow> int option" where [code]:
  "fdt_subnode_offset_loop m fdt offset depth name namelen =
     (if offset \<ge> 0 \<and> depth \<ge> 0 then do {
        hit \<leftarrow> (if depth = 1 then fdt_nodename_eq m fdt offset name namelen else Some False);
        if hit then Some offset
        else do {
          (offset, d) \<leftarrow> fdt_next_node m fdt offset (Some depth);
          fdt_subnode_offset_loop m fdt offset (the d) name namelen } }
      else Some (if depth < 0 then - FDT_ERR_NOTFOUND else offset))"

definition fdt_subnode_offset_namelen :: "mem \<Rightarrow> int \<Rightarrow> int \<Rightarrow> int \<Rightarrow> int \<Rightarrow> int option" where
  "fdt_subnode_offset_namelen m fdt offset name namelen = do {
     err \<leftarrow> fdt_ro_probe m fdt;
     if err < 0 then Some err else fdt_subnode_offset_loop m fdt offset 0 name namelen }"

definition fdt_subnode_offset :: "mem \<Rightarrow> int \<Rightarrow> int \<Rightarrow> int \<Rightarrow> int option" where
  "fdt_subnode_offset m fdt parentoffset name = do {
     n \<leftarrow> strlen m name; fdt_subnode_offset_namelen m fdt parentoffset name (to_s32 n) }"

text \<open>\<open>while (*p == '/') \<dots>\<close>: the first other character, or \<open>None\<close> at the end of the path.\<close>

partial_function (option) skip_slashes :: "mem \<Rightarrow> int \<Rightarrow> int \<Rightarrow> int option option" where [code]:
  "skip_slashes m p stop = do {
     b \<leftarrow> load8 m p;
     if b = 47 then
       (if p + 1 = stop then Some None else skip_slashes m (p + 1) stop)
     else Some (Some p) }"

partial_function (option) fdt_path_walk :: "mem \<Rightarrow> int \<Rightarrow> int \<Rightarrow> int \<Rightarrow> int \<Rightarrow> int option" where [code]:
  "fdt_path_walk m fdt offset p stop =
     (if p < stop then do {
        r \<leftarrow> skip_slashes m p stop;
        case r of None \<Rightarrow> Some offset
        | Some p \<Rightarrow> do {
            q \<leftarrow> memchr m p 47 (nat (stop - p));
            let q = (if q = 0 then stop else q) in do {
            offset \<leftarrow> fdt_subnode_offset_namelen m fdt offset p (q - p);
            if offset < 0 then Some offset else fdt_path_walk m fdt offset q stop } } }
      else Some offset)"

text \<open>The end of \<open>fdt_path_getprop_namelen\<close> and the test of \<open>fdt_get_alias_namelen\<close>.\<close>

definition path_getprop_at ::
  "mem \<Rightarrow> int \<Rightarrow> int \<Rightarrow> int \<Rightarrow> int \<Rightarrow> (int \<times> int option) option" where
  "path_getprop_at m fdt offset propname propnamelen =
     (if offset < 0 then Some (0, None)
      else do { (p, len) \<leftarrow> fdt_getprop_namelen m fdt offset propname propnamelen; Some (p, Some len) })"

definition alias_ok :: "mem \<Rightarrow> int \<Rightarrow> int option \<Rightarrow> bool option" where
  "alias_ok m alias len =
     (if alias \<noteq> 0 \<and> the len > 0 then do {
        z \<leftarrow> load8 m (alias + the len - 1);
        if z \<noteq> 0 then Some False else do { b \<leftarrow> load8 m alias; Some (b = 47) } }
      else Some False)"

text \<open>
  A path that does not start with a slash starts with an alias, a property of \<open>/aliases\<close> whose
  value is a path: \<open>fdt_get_alias_namelen\<close> and \<open>fdt_path_offset\<close> are unfolded in the recursion.
\<close>

partial_function (option) fdt_path_offset_namelen ::
  "mem \<Rightarrow> literals \<Rightarrow> int \<Rightarrow> int \<Rightarrow> int \<Rightarrow> int option" where [code]:
  "fdt_path_offset_namelen m lit fdt path namelen = do {
     err \<leftarrow> fdt_ro_probe m fdt;
     if err < 0 then Some err
     else if \<not> can_assume VALID_INPUT \<and> namelen \<le> 0 then Some (- FDT_ERR_BADPATH)
     else do {
       b \<leftarrow> load8 m path;
       let stop = path + namelen in
       if b \<noteq> 47 then do {
         q \<leftarrow> memchr m path 47 (nat (stop - path));
         let q = (if q = 0 then stop else q) in do {
         n \<leftarrow> strlen m (lit ''/aliases'');
         node \<leftarrow> fdt_path_offset_namelen m lit fdt (lit ''/aliases'') (to_s32 n);
         (alias, len) \<leftarrow> path_getprop_at m fdt node path (q - path);
         ok \<leftarrow> alias_ok m alias len;
         if \<not> ok then Some (- FDT_ERR_BADPATH)
         else do {
           n \<leftarrow> strlen m alias;
           offset \<leftarrow> fdt_path_offset_namelen m lit fdt alias (to_s32 n);
           fdt_path_walk m fdt offset q stop } } }
       else fdt_path_walk m fdt 0 path stop } }"

definition fdt_path_offset :: "mem \<Rightarrow> literals \<Rightarrow> int \<Rightarrow> int \<Rightarrow> int option" where
  "fdt_path_offset m lit fdt path = do {
     n \<leftarrow> strlen m path; fdt_path_offset_namelen m lit fdt path (to_s32 n) }"

definition fdt_path_getprop_namelen ::
  "mem \<Rightarrow> literals \<Rightarrow> int \<Rightarrow> int \<Rightarrow> int \<Rightarrow> int \<Rightarrow> (int \<times> int option) option" where
  "fdt_path_getprop_namelen m lit fdt path propname propnamelen = do {
     offset \<leftarrow> fdt_path_offset m lit fdt path;
     path_getprop_at m fdt offset propname propnamelen }"

definition fdt_get_alias_namelen :: "mem \<Rightarrow> literals \<Rightarrow> int \<Rightarrow> int \<Rightarrow> int \<Rightarrow> int option" where
  "fdt_get_alias_namelen m lit fdt name namelen = do {
     (alias, len) \<leftarrow> fdt_path_getprop_namelen m lit fdt (lit ''/aliases'') name namelen;
     ok \<leftarrow> alias_ok m alias len;
     Some (if \<not> can_assume VALID_DTB \<and> \<not> ok then 0 else alias) }"

definition fdt_get_alias :: "mem \<Rightarrow> literals \<Rightarrow> int \<Rightarrow> int \<Rightarrow> int option" where
  "fdt_get_alias m lit fdt name = do {
     n \<leftarrow> strlen m name; fdt_get_alias_namelen m lit fdt name (to_s32 n) }"

definition fdt_get_symbol_namelen :: "mem \<Rightarrow> literals \<Rightarrow> int \<Rightarrow> int \<Rightarrow> int \<Rightarrow> int option" where
  "fdt_get_symbol_namelen m lit fdt name namelen = do {
     (p, _) \<leftarrow> fdt_path_getprop_namelen m lit fdt (lit ''/__symbols__'') name namelen; Some p }"

definition fdt_get_symbol :: "mem \<Rightarrow> literals \<Rightarrow> int \<Rightarrow> int \<Rightarrow> int option" where
  "fdt_get_symbol m lit fdt name = do {
     n \<leftarrow> strlen m name; fdt_get_symbol_namelen m lit fdt name (to_s32 n) }"

text \<open>\<open>fdt_get_path\<close>: dropping path components, then the main loop.\<close>

partial_function (option) back_to_slash :: "mem \<Rightarrow> int \<Rightarrow> int \<Rightarrow> int option" where [code]:
  "back_to_slash m buf p = do {
     let p = p - 1 in do {
     b \<leftarrow> load8 m (buf + p - 1);
     if b \<noteq> 47 then back_to_slash m buf p else Some p } }"

partial_function (option) drop_components ::
  "mem \<Rightarrow> int \<Rightarrow> int \<Rightarrow> int \<Rightarrow> int \<Rightarrow> (int \<times> int) option" where [code]:
  "drop_components m buf p pdepth depth =
     (if pdepth > depth then do {
        p \<leftarrow> back_to_slash m buf p; drop_components m buf p (pdepth - 1) depth }
      else Some (p, pdepth))"

definition walk_error :: "int \<Rightarrow> int" where
  "walk_error offset =
     (if offset = - FDT_ERR_NOTFOUND \<or> offset \<ge> 0 then - FDT_ERR_BADOFFSET
      else if offset = - FDT_ERR_BADOFFSET then - FDT_ERR_BADSTRUCTURE else offset)"

partial_function (option) fdt_get_path_loop ::
  "mem \<Rightarrow> int \<Rightarrow> int \<Rightarrow> int \<Rightarrow> int \<Rightarrow> int \<Rightarrow> int \<Rightarrow> int \<Rightarrow> int \<Rightarrow> (int \<times> mem) option" where [code]:
  "fdt_get_path_loop m fdt nodeoffset buf buflen offset depth p pdepth =
     (if offset \<ge> 0 \<and> offset \<le> nodeoffset then do {
        (p, pdepth) \<leftarrow> drop_components m buf p pdepth depth;
        r \<leftarrow> (if pdepth \<ge> depth then do {
               (name, namelen) \<leftarrow> fdt_get_name m fdt offset;
               if name = 0 then Some (Inl namelen)
               else if p + namelen + 1 \<le> buflen then do {
                 (_, m) \<leftarrow> memcpy m (buf + p) name (nat (to_u32 namelen));
                 m \<leftarrow> store8 m (buf + p + namelen) 47;
                 Some (Inr (m, p + namelen + 1, pdepth + 1)) }
               else Some (Inr (m, p, pdepth)) }
             else Some (Inr (m, p, pdepth)));
        case r of Inl err \<Rightarrow> Some (err, m)
        | Inr (m, p, pdepth) \<Rightarrow>
            if offset = nodeoffset then
              (if pdepth < depth + 1 then Some (- FDT_ERR_NOSPACE, m)
               else do { m \<leftarrow> store8 m (buf + (if p > 1 then p - 1 else p)) 0; Some (0, m) })
            else do {
              (offset, d) \<leftarrow> fdt_next_node m fdt offset (Some depth);
              fdt_get_path_loop m fdt nodeoffset buf buflen offset (the d) p pdepth } }
      else Some (walk_error offset, m))"

definition fdt_get_path :: "mem \<Rightarrow> int \<Rightarrow> int \<Rightarrow> int \<Rightarrow> int \<Rightarrow> (int \<times> mem) option" where
  "fdt_get_path m fdt nodeoffset buf buflen = do {
     err \<leftarrow> fdt_ro_probe m fdt;
     if err < 0 then Some (err, m)
     else if buflen < 2 then Some (- FDT_ERR_NOSPACE, m)
     else fdt_get_path_loop m fdt nodeoffset buf buflen 0 0 0 0 }"

section \<open>Depth and parents\<close>

partial_function (option) fdt_supernode_loop ::
  "mem \<Rightarrow> int \<Rightarrow> int \<Rightarrow> int \<Rightarrow> int \<Rightarrow> int \<Rightarrow> int \<Rightarrow> (int \<times> int option) option" where [code]:
  "fdt_supernode_loop m fdt nodeoffset supernodedepth offset depth supernodeoffset =
     (if offset \<ge> 0 \<and> offset \<le> nodeoffset then
        let supernodeoffset = (if depth = supernodedepth then offset else supernodeoffset) in
        if offset = nodeoffset then
          Some (if supernodedepth > depth then - FDT_ERR_NOTFOUND else supernodeoffset, Some depth)
        else do {
          (offset, d) \<leftarrow> fdt_next_node m fdt offset (Some depth);
          fdt_supernode_loop m fdt nodeoffset supernodedepth offset (the d) supernodeoffset }
      else Some (if \<not> can_assume VALID_INPUT then walk_error offset else offset, None))"

definition fdt_supernode_atdepth_offset ::
  "mem \<Rightarrow> int \<Rightarrow> int \<Rightarrow> int \<Rightarrow> (int \<times> int option) option" where
  "fdt_supernode_atdepth_offset m fdt nodeoffset supernodedepth = do {
     err \<leftarrow> fdt_ro_probe m fdt;
     if err < 0 then Some (err, None)
     else if supernodedepth < 0 then Some (- FDT_ERR_NOTFOUND, None)
     else fdt_supernode_loop m fdt nodeoffset supernodedepth 0 0 (- FDT_ERR_INTERNAL) }"

definition fdt_node_depth :: "mem \<Rightarrow> int \<Rightarrow> int \<Rightarrow> int option" where
  "fdt_node_depth m fdt nodeoffset = do {
     (err, nodedepth) \<leftarrow> fdt_supernode_atdepth_offset m fdt nodeoffset 0;
     Some (if err \<noteq> 0 then
             (if can_assume LIBFDT_FLAWLESS \<or> err < 0 then err else - FDT_ERR_INTERNAL)
           else the nodedepth) }"

definition fdt_parent_offset :: "mem \<Rightarrow> int \<Rightarrow> int \<Rightarrow> int option" where
  "fdt_parent_offset m fdt nodeoffset = do {
     nodedepth \<leftarrow> fdt_node_depth m fdt nodeoffset;
     if nodedepth < 0 then Some nodedepth
     else do {
       (r, _) \<leftarrow> fdt_supernode_atdepth_offset m fdt nodeoffset (nodedepth - 1); Some r } }"

section \<open>Searches over all nodes\<close>

partial_function (option) fdt_node_by_prop_loop ::
  "mem \<Rightarrow> int \<Rightarrow> int \<Rightarrow> int \<Rightarrow> int \<Rightarrow> int \<Rightarrow> int option" where [code]:
  "fdt_node_by_prop_loop m fdt offset propname propval proplen = do {
     (offset, _) \<leftarrow> fdt_next_node m fdt offset None;
     if offset < 0 then Some offset else do {
     (val, len) \<leftarrow> fdt_getprop m fdt offset propname;
     hit \<leftarrow> (if val \<noteq> 0 \<and> len = proplen
            then do { c \<leftarrow> memcmp m val propval (nat (to_u32 len)); Some (c = 0) }
            else Some False);
     if hit then Some offset else fdt_node_by_prop_loop m fdt offset propname propval proplen } }"

definition fdt_node_offset_by_prop_value ::
  "mem \<Rightarrow> int \<Rightarrow> int \<Rightarrow> int \<Rightarrow> int \<Rightarrow> int \<Rightarrow> int option" where
  "fdt_node_offset_by_prop_value m fdt startoffset propname propval proplen = do {
     err \<leftarrow> fdt_ro_probe m fdt;
     if err < 0 then Some err
     else fdt_node_by_prop_loop m fdt startoffset propname propval proplen }"

partial_function (option) fdt_node_by_phandle_loop ::
  "mem \<Rightarrow> literals \<Rightarrow> int \<Rightarrow> int \<Rightarrow> int \<Rightarrow> int option" where [code]:
  "fdt_node_by_phandle_loop m lit fdt offset phandle = do {
     (offset, _) \<leftarrow> fdt_next_node m fdt offset None;
     if offset < 0 then Some offset else do {
     h \<leftarrow> fdt_get_phandle m lit fdt offset;
     if h = phandle then Some offset else fdt_node_by_phandle_loop m lit fdt offset phandle } }"

definition fdt_node_offset_by_phandle :: "mem \<Rightarrow> literals \<Rightarrow> int \<Rightarrow> int \<Rightarrow> int option" where
  "fdt_node_offset_by_phandle m lit fdt phandle =
     (if phandle = 0 \<or> phandle = UINT32_MAX then Some (- FDT_ERR_BADPHANDLE) else do {
      err \<leftarrow> fdt_ro_probe m fdt;
      if err < 0 then Some err else fdt_node_by_phandle_loop m lit fdt (- 1) phandle })"

section \<open>String lists and compatible strings\<close>

partial_function (option) fdt_stringlist_contains_loop ::
  "mem \<Rightarrow> int \<Rightarrow> int \<Rightarrow> int \<Rightarrow> int \<Rightarrow> int option" where [code]:
  "fdt_stringlist_contains_loop m strlist listlen str len =
     (if listlen \<ge> len then do {
        c \<leftarrow> memcmp m str strlist (nat (len + 1));
        if c = 0 then Some 1 else do {
        p \<leftarrow> memchr m strlist 0 (nat (to_u32 listlen));
        if p = 0 then Some 0
        else fdt_stringlist_contains_loop m (p + 1) (listlen - ((p - strlist) + 1)) str len } }
      else Some 0)"

definition fdt_stringlist_contains :: "mem \<Rightarrow> int \<Rightarrow> int \<Rightarrow> int \<Rightarrow> int option" where
  "fdt_stringlist_contains m strlist listlen str = do {
     len \<leftarrow> strlen m str; fdt_stringlist_contains_loop m strlist listlen str (to_s32 len) }"

partial_function (option) fdt_stringlist_count_loop :: "mem \<Rightarrow> int \<Rightarrow> int \<Rightarrow> int \<Rightarrow> int option" where [code]:
  "fdt_stringlist_count_loop m list stop n =
     (if list < stop then do {
        k \<leftarrow> strnlen m list (nat (stop - list));
        let length = to_s32 (k + 1) in
        if list + length > stop then Some (- FDT_ERR_BADVALUE)
        else fdt_stringlist_count_loop m (list + length) stop (n + 1) }
      else Some n)"

definition fdt_stringlist_count :: "mem \<Rightarrow> int \<Rightarrow> int \<Rightarrow> int \<Rightarrow> int option" where
  "fdt_stringlist_count m fdt nodeoffset property = do {
     (list, length) \<leftarrow> fdt_getprop m fdt nodeoffset property;
     if list = 0 then Some length else fdt_stringlist_count_loop m list (list + length) 0 }"

partial_function (option) fdt_stringlist_search_loop ::
  "mem \<Rightarrow> int \<Rightarrow> int \<Rightarrow> int \<Rightarrow> int \<Rightarrow> int \<Rightarrow> int option" where [code]:
  "fdt_stringlist_search_loop m list stop str len idx =
     (if list < stop then do {
        k \<leftarrow> strnlen m list (nat (stop - list));
        let length = to_s32 (k + 1) in
        if list + length > stop then Some (- FDT_ERR_BADVALUE) else do {
        hit \<leftarrow> (if length = len
               then do { c \<leftarrow> memcmp m list str (nat (to_u32 length)); Some (c = 0) }
               else Some False);
        if hit then Some idx
        else fdt_stringlist_search_loop m (list + length) stop str len (idx + 1) } }
      else Some (- FDT_ERR_NOTFOUND))"

definition fdt_stringlist_search :: "mem \<Rightarrow> int \<Rightarrow> int \<Rightarrow> int \<Rightarrow> int \<Rightarrow> int option" where
  "fdt_stringlist_search m fdt nodeoffset property str = do {
     (list, length) \<leftarrow> fdt_getprop m fdt nodeoffset property;
     if list = 0 then Some length else do {
     n \<leftarrow> strlen m str;
     fdt_stringlist_search_loop m list (list + length) str (to_s32 (n + 1)) 0 } }"

partial_function (option) fdt_stringlist_get_loop ::
  "mem \<Rightarrow> int \<Rightarrow> int \<Rightarrow> int \<Rightarrow> (int \<times> int) option" where [code]:
  "fdt_stringlist_get_loop m list stop idx =
     (if list < stop then do {
        k \<leftarrow> strnlen m list (nat (stop - list));
        let length = to_s32 (k + 1) in
        if list + length > stop then Some (0, - FDT_ERR_BADVALUE)
        else if idx = 0 then Some (list, length - 1)
        else fdt_stringlist_get_loop m (list + length) stop (idx - 1) }
      else Some (0, - FDT_ERR_NOTFOUND))"

definition fdt_stringlist_get :: "mem \<Rightarrow> int \<Rightarrow> int \<Rightarrow> int \<Rightarrow> int \<Rightarrow> (int \<times> int) option" where
  "fdt_stringlist_get m fdt nodeoffset property idx = do {
     (list, length) \<leftarrow> fdt_getprop m fdt nodeoffset property;
     if list = 0 then Some (0, length) else fdt_stringlist_get_loop m list (list + length) idx }"

definition fdt_node_check_compatible :: "mem \<Rightarrow> literals \<Rightarrow> int \<Rightarrow> int \<Rightarrow> int \<Rightarrow> int option" where
  "fdt_node_check_compatible m lit fdt nodeoffset compatible = do {
     (prop, len) \<leftarrow> fdt_getprop m fdt nodeoffset (lit ''compatible'');
     if prop = 0 then Some len else do {
     r \<leftarrow> fdt_stringlist_contains m prop len compatible;
     Some (if r = 0 then 1 else 0) } }"

partial_function (option) fdt_node_by_compatible_loop ::
  "mem \<Rightarrow> literals \<Rightarrow> int \<Rightarrow> int \<Rightarrow> int \<Rightarrow> int option" where [code]:
  "fdt_node_by_compatible_loop m lit fdt offset compatible = do {
     (offset, _) \<leftarrow> fdt_next_node m fdt offset None;
     if offset < 0 then Some offset else do {
     err \<leftarrow> fdt_node_check_compatible m lit fdt offset compatible;
     if err < 0 \<and> err \<noteq> - FDT_ERR_NOTFOUND then Some err
     else if err = 0 then Some offset
     else fdt_node_by_compatible_loop m lit fdt offset compatible } }"

definition fdt_node_offset_by_compatible :: "mem \<Rightarrow> literals \<Rightarrow> int \<Rightarrow> int \<Rightarrow> int \<Rightarrow> int option" where
  "fdt_node_offset_by_compatible m lit fdt startoffset compatible = do {
     err \<leftarrow> fdt_ro_probe m fdt;
     if err < 0 then Some err
     else fdt_node_by_compatible_loop m lit fdt startoffset compatible }"

section \<open>Reads through a mapped blob do not fault\<close>

lemma memchr_nul:
  "mapped m p (int n) \<Longrightarrow> memchr m p 0 n = Some 0 \<or>
     (\<exists>s. cstr_at m p s \<and> length s < n \<and> memchr m p 0 n = Some (p + int (length s)))"
proof (induction n arbitrary: p)
  case (Suc n)
  obtain b where b: "m p = Some b" using mappedD [OF Suc.prems, of p] by auto
  show ?case
  proof (cases "b = 0")
    case True
    with b show ?thesis by (intro disjI2 exI [of _ "[]"]) (simp add: load8_def)
  next
    case False
    then have step: "memchr m p 0 (Suc n) = memchr m (p + 1) 0 n"
      using b by (simp add: load8_def uint_0_iff)
    have "mapped m (p + 1) (int n)" by (rule mapped_sub [OF Suc.prems]) simp_all
    from Suc.IH [OF this] show ?thesis
    proof (elim disjE exE conjE)
      fix s assume "cstr_at m (p + 1) s" "length s < n" "memchr m (p + 1) 0 n = Some (p + 1 + int (length s))"
      with step b False show ?thesis by (intro disjI2 exI [of _ "b # s"]) simp
    qed (use step in simp)
  qed
qed simp

lemma memcmp_total:
  "mapped m p (int n) \<Longrightarrow> mapped m q (int n) \<Longrightarrow> \<exists>c. memcmp m p q n = Some c"
proof -
  assume a: "mapped m p (int n)" "mapped m q (int n)"
  obtain x y where "load_bytes m p n = Some x" "load_bytes m q n = Some y"
    using load_bytes_mapped [OF a(1)] load_bytes_mapped [OF a(2)] by blast
  then have "bytes_at m p x" "bytes_at m q y" "length x = n" "length y = n"
    by (simp_all add: load_bytes_Some)
  then show ?thesis using memcmp_spec [of m p x q y] by auto
qed

lemma fdt_ro_probe_spec:
  assumes b: "blob m fdt"
  shows "\<exists>r. fdt_ro_probe m fdt = Some r \<and> (r < 0 \<or> (r = h_totalsize m fdt \<and> r < INT32_MAX \<and>
    (hdr m fdt 0 = FDT_MAGIC \<and> 2 \<le> h_version m fdt \<and> h_last_comp m fdt \<le> 17 \<or>
     hdr m fdt 0 = FDT_SW_MAGIC \<and> h_size_struct m fdt \<noteq> 0)))"
  using b blob_bounds [OF b] by (simp add: fdt_ro_probe_def blob_simps [OF b])

lemma fdt_ro_probe_magic:
  "blob m fdt \<Longrightarrow> hdr m fdt 0 = FDT_MAGIC \<Longrightarrow> 2 \<le> h_version m fdt \<Longrightarrow> h_last_comp m fdt \<le> 17 \<Longrightarrow>
   h_totalsize m fdt < INT32_MAX \<Longrightarrow> fdt_ro_probe m fdt = Some (h_totalsize m fdt)"
  by (simp add: fdt_ro_probe_def blob_simps) (simp add: blob_def)

text \<open>\<open>string_in\<close>: a NUL-terminated string that lies, terminator included, inside the blob.\<close>

definition string_in :: "mem \<Rightarrow> int \<Rightarrow> int \<Rightarrow> u8 list \<Rightarrow> bool" where
  "string_in m fdt p s \<longleftrightarrow> cstr_at m p s \<and> fdt \<le> p \<and> p + int (length s) < fdt + h_totalsize m fdt"

lemma string_in_memchr:
  assumes b: "blob m fdt" and p: "fdt \<le> p" "0 \<le> n" "p + n \<le> fdt + h_totalsize m fdt"
  shows "memchr m p 0 (nat n) = Some 0 \<or>
    (\<exists>s. string_in m fdt p s \<and> int (length s) < n \<and> memchr m p 0 (nat n) = Some (p + int (length s)))"
proof -
  have "mapped m p (int (nat n))" using p by (intro blob_mapped_tail [OF b]) auto
  from memchr_nul [OF this] show ?thesis using p by (auto simp: string_in_def)
qed

lemma string_in_last_word:
  assumes b: "blob m fdt" and s: "string_in m fdt p s"
  shows "last_word_mapped m (p + int (length s))"
proof -
  let ?e = "p + int (length s)"
  have e: "fdt \<le> ?e" "?e < fdt + h_totalsize m fdt" using s by (auto simp: string_in_def)
  have "fdt mod 8 = 0" using b by (simp add: blob_def)
  then have al: "fdt mod 4 = 0" by presburger
  have "fdt \<le> 4 * (?e div 4)" "4 * (?e div 4) + 4 \<le> fdt + 4 * ((h_totalsize m fdt + 3) div 4)"
    using e al by presburger+
  then show ?thesis unfolding last_word_mapped_def
    using b by (auto simp: blob_def intro: mapped_sub)
qed

lemma strlen_string_in:
  "blob m fdt \<Longrightarrow> string_in m fdt p s \<Longrightarrow> strlen m p = Some (int (length s))"
  by (rule strlen_cstr) (auto simp: string_in_def intro: string_in_last_word)

lemma fdt_get_string_spec:
  assumes b: "blob m fdt"
  shows "\<exists>p n. fdt_get_string m fdt off = Some (p, n) \<and>
    (p = 0 \<and> n < 0 \<or> (\<exists>s. p \<noteq> 0 \<and> string_in m fdt p s \<and> n = int (length s)))"
proof -
  note bb = blob_bounds [OF b]
  obtain r where r: "fdt_ro_probe m fdt = Some r" "r < 0 \<or> (r = h_totalsize m fdt \<and>
    (hdr m fdt 0 = FDT_MAGIC \<or> hdr m fdt 0 = FDT_SW_MAGIC))"
    using fdt_ro_probe_spec [OF b] by blast
  show ?thesis
  proof (cases "r < 0")
    case True
    with r show ?thesis by (simp add: fdt_get_string_def)
  next
    case False
    with r(2) have rt: "r = h_totalsize m fdt"
      and magic: "hdr m fdt 0 = FDT_MAGIC \<or> hdr m fdt 0 = FDT_SW_MAGIC" by auto
    define a where "a = to_u32 (off + h_off_strings m fdt)"
    define len where "len = r - a"
    have a0: "0 \<le> a" by (simp add: a_def)
    have fin: "\<exists>p n. (do { k \<leftarrow> memchr m (fdt + a) 0 (nat l);
          Some (if k = 0 then (0, - FDT_ERR_TRUNCATED) else (fdt + a, to_s32 (k - (fdt + a)))) }) = Some (p, n) \<and>
        (p = 0 \<and> n < 0 \<or> (\<exists>s. p \<noteq> 0 \<and> string_in m fdt p s \<and> n = int (length s)))"
      if l: "0 \<le> l" "l \<le> len" for l
    proof -
      have rg: "fdt \<le> fdt + a" "fdt + a + l \<le> fdt + h_totalsize m fdt"
        using l rt a0 by (simp_all add: len_def)
      from string_in_memchr [OF b rg(1) l(1) rg(2)] show ?thesis
      proof (elim disjE exE conjE)
        fix s assume s: "string_in m fdt (fdt + a) s" "int (length s) < l"
          "memchr m (fdt + a) 0 (nat l) = Some (fdt + a + int (length s))"
        have "int (length s) \<le> INT32_MAX" using s(2) l a0 rt bb by (simp add: len_def)
        then have "to_s32 (int (length s)) = int (length s)" by (simp add: wrap_simps)
        with s bb a0 show ?thesis by auto
      qed simp_all
    qed
    show ?thesis
    proof (cases "a < r")
      case False
      with r \<open>\<not> r < 0\<close> show ?thesis
        by (simp add: fdt_get_string_def blob_simps [OF b] Let_def a_def)
    next
      case True
      then have len: "0 \<le> len" by (simp add: len_def)
      from magic show ?thesis
      proof
        assume mg: "hdr m fdt 0 = FDT_MAGIC"
        show ?thesis
        proof (cases "off < 0 \<or> (17 \<le> h_version m fdt \<and> h_size_strings m fdt \<le> off)")
          case True
          with mg \<open>a < r\<close> r \<open>\<not> r < 0\<close> show ?thesis
            by (auto simp: fdt_get_string_def blob_simps [OF b] Let_def a_def)
        next
          case nb: False
          define l where "l = (if 17 \<le> h_version m fdt \<and> h_size_strings m fdt - off < len
             then h_size_strings m fdt - off else len)"
          have "0 \<le> l" "l \<le> len" using nb len by (auto simp: l_def)
          note ex = fin [OF this]
          have "fdt_get_string m fdt off = (do { k \<leftarrow> memchr m (fdt + a) 0 (nat l);
              Some (if k = 0 then (0, - FDT_ERR_TRUNCATED) else (fdt + a, to_s32 (k - (fdt + a)))) })"
            using nb mg \<open>a < r\<close> r(1) \<open>\<not> r < 0\<close>
            by (simp add: fdt_get_string_def blob_simps [OF b] Let_def a_def [symmetric]
                 len_def [symmetric] l_def)
          with ex show ?thesis by simp
        qed
      next
        assume mg: "hdr m fdt 0 = FDT_SW_MAGIC"
        show ?thesis
        proof (cases "0 \<le> off \<or> h_size_strings m fdt < to_u32 (- off)")
          case True
          with mg \<open>a < r\<close> r \<open>\<not> r < 0\<close> show ?thesis
            by (auto simp: fdt_get_string_def blob_simps [OF b] Let_def a_def)
        next
          case nb: False
          define l where "l = (if to_u32 (- off) < len then to_u32 (- off) else len)"
          have "0 \<le> l" "l \<le> len" using len by (auto simp: l_def)
          note ex = fin [OF this]
          have "fdt_get_string m fdt off = (do { k \<leftarrow> memchr m (fdt + a) 0 (nat l);
              Some (if k = 0 then (0, - FDT_ERR_TRUNCATED) else (fdt + a, to_s32 (k - (fdt + a)))) })"
            using nb mg \<open>a < r\<close> r(1) \<open>\<not> r < 0\<close>
            by (simp add: fdt_get_string_def blob_simps [OF b] Let_def a_def [symmetric]
                 len_def [symmetric] l_def)
          with ex show ?thesis by simp
        qed
      qed
    qed
  qed
qed

lemma fdt_get_name_spec:
  assumes b: "blob m fdt" and off: "off \<le> INT32_MAX" and v: "16 \<le> h_version m fdt"
  shows "\<exists>p n. fdt_get_name m fdt off = Some (p, n) \<and>
    (p = 0 \<and> n < 0 \<or> (\<exists>s. p \<noteq> 0 \<and> string_in m fdt p s \<and> n = int (length s) \<and>
       p = fdt + h_off_struct m fdt + off + 4 \<and> node_at m fdt off))"
proof -
  note bb = blob_bounds [OF b]
  obtain r where r: "fdt_ro_probe m fdt = Some r" using fdt_ro_probe_spec [OF b] by blast
  from fdt_check_node_offset_spec [OF b off]
  obtain n where n: "fdt_check_node_offset m fdt off = Some n"
    "n = - FDT_ERR_BADOFFSET \<or> node_at m fdt off \<and> tag_at m fdt off FDT_BEGIN_NODE n"
    by (elim exE conjE)
  show ?thesis
  proof (cases "r < 0 \<or> n < 0")
    case True
    with r n(1) show ?thesis by (auto simp: fdt_get_name_def fdt_offset_ptr_raw_def blob_simps [OF b])
  next
    case False
    with n(2) have na: "node_at m fdt off" and t: "tag_at m fdt off FDT_BEGIN_NODE n" by auto
    from t obtain e where e: "tag_end m fdt off FDT_BEGIN_NODE e" "struct_fits m fdt off (e - off)"
      by (auto simp: tag_at_def)
    then obtain s where s: "cstr_at m (fdt + h_off_struct m fdt + off + 4) s" "e = off + 5 + int (length s)"
      by (auto simp: tag_end_def)
    let ?p = "fdt + h_off_struct m fdt + off + 4"
    have si: "string_in m fdt ?p s"
      using s e(2) bb by (auto simp: string_in_def struct_fits_def)
    have len: "to_s32 (int (length s)) = int (length s)"
      using s(2) e(2) bb by (auto simp: struct_fits_def intro!: to_s32_id)
    have "?p \<noteq> 0" using tag_at_bounds(1) [OF b t] bb by simp
    moreover have "fdt_get_name m fdt off = Some (?p, int (length s))"
      using False r n(1) v strlen_string_in [OF b si] len
      by (simp add: fdt_get_name_def fdt_offset_ptr_raw_def blob_simps [OF b])
    ultimately show ?thesis using si na by blast
  qed
qed

section \<open>Properties of a node\<close>

lemma prop_at_bounds:
  assumes b: "blob m fdt" and p: "prop_at m fdt off"
  shows "0 \<le> off" "off \<le> 2147483640" "0 \<le> sfield m fdt (off + 4)"
    "struct_fits m fdt off (12 + sfield m fdt (off + 4))"
proof -
  from p obtain nx where t: "tag_at m fdt off FDT_PROP nx" by (auto simp: prop_at_def)
  note tb = tag_at_bounds [OF b t]
  from tb show "0 \<le> off" "off \<le> 2147483640" by simp_all
  from t obtain e where e: "tag_end m fdt off FDT_PROP e" "struct_fits m fdt off (e - off)" "off + 4 \<le> e"
    by (auto simp: tag_at_def)
  have e': "e = off + 12 + sfield m fdt (off + 4) \<or> (8 \<le> sfield m fdt (off + 4) \<and>
      e = off + 16 + sfield m fdt (off + 4))"
    using e(1) by (auto simp: tag_end_def Let_def)
  show "0 \<le> sfield m fdt (off + 4)"
    using e(1) by (simp add: tag_end_def Let_def)
  show "struct_fits m fdt off (12 + sfield m fdt (off + 4))"
    by (rule struct_fits_le [OF e(2)]) (use e' in auto)
qed

lemma nextprop_spec:
  assumes b: "blob m fdt"
  shows "0 \<le> off \<Longrightarrow> off \<le> INT32_MAX \<Longrightarrow> off mod 4 = 0 \<Longrightarrow>
    \<exists>r. nextprop m fdt off = Some r \<and> (r < 0 \<or> off \<le> r \<and> prop_at m fdt r)"
proof (induction "nat (INT32_MAX - off)" arbitrary: off rule: less_induct)
  case less
  show ?case
  proof (rule fdt_next_tag_cases [OF b less.prems(2)])
    fix nx assume "fdt_next_tag m fdt off = Some (FDT_END, nx)"
      "nx = - FDT_ERR_TRUNCATED \<or> nx = - FDT_ERR_BADSTRUCTURE"
    then show ?thesis by (subst (1) nextprop.simps) auto
  next
    fix tag nx
    assume good: "fdt_next_tag m fdt off = Some (tag, nx)" "tag_at m fdt off tag nx"
    note tb = tag_at_bounds [OF b good(2)]
    show ?thesis
    proof (cases "tag = FDT_NOP")
      case True
      with good(1) have eq: "nextprop m fdt off = nextprop m fdt nx"
        by (subst nextprop.simps) simp
      have "\<exists>r. nextprop m fdt nx = Some r \<and> (r < 0 \<or> nx \<le> r \<and> prop_at m fdt r)"
        using less.prems(1) tb by (intro less.hyps) auto
      with eq tb(2) show ?thesis by fastforce
    next
      case False
      with good less.prems show ?thesis
        by (subst (1) nextprop.simps) (auto simp: prop_at_def)
    qed
  qed
qed

lemma fdt_first_property_offset_spec:
  assumes b: "blob m fdt" and off: "off \<le> INT32_MAX"
  shows "\<exists>r. fdt_first_property_offset m fdt off = Some r \<and> (r < 0 \<or> off < r \<and> prop_at m fdt r)"
proof -
  from fdt_check_node_offset_spec [OF b off]
  obtain n where n: "fdt_check_node_offset m fdt off = Some n"
    "n = - FDT_ERR_BADOFFSET \<or> node_at m fdt off \<and> tag_at m fdt off FDT_BEGIN_NODE n"
    by (elim exE conjE)
  from n(2) show ?thesis
  proof
    assume t: "node_at m fdt off \<and> tag_at m fdt off FDT_BEGIN_NODE n"
    note tb = tag_at_bounds [OF b conjunct2 [OF t]]
    have "0 \<le> n" "n \<le> INT32_MAX" using tb by simp_all
    from nextprop_spec [OF b this tb(4)] tb n(1) show ?thesis
      by (auto simp: fdt_first_property_offset_def)
  qed (simp add: n(1) fdt_first_property_offset_def)
qed

lemma fdt_next_property_offset_spec:
  assumes b: "blob m fdt" and off: "off \<le> INT32_MAX"
  shows "\<exists>r. fdt_next_property_offset m fdt off = Some r \<and> (r < 0 \<or> off < r \<and> prop_at m fdt r)"
proof -
  from fdt_check_prop_offset_spec [OF b off]
  obtain n where n: "fdt_check_prop_offset m fdt off = Some n"
    "n = - FDT_ERR_BADOFFSET \<or> prop_at m fdt off \<and> tag_at m fdt off FDT_PROP n"
    by (elim exE conjE)
  from n(2) show ?thesis
  proof
    assume t: "prop_at m fdt off \<and> tag_at m fdt off FDT_PROP n"
    note tb = tag_at_bounds [OF b conjunct2 [OF t]]
    have "0 \<le> n" "n \<le> INT32_MAX" using tb by simp_all
    from nextprop_spec [OF b this tb(4)] tb n(1) show ?thesis
      by (auto simp: fdt_next_property_offset_def)
  qed (simp add: n(1) fdt_next_property_offset_def)
qed

abbreviation prop_addr :: "mem \<Rightarrow> int \<Rightarrow> int \<Rightarrow> int" where
  "prop_addr m fdt off \<equiv> fdt + h_off_struct m fdt + off"

lemma prop_at_reads:
  assumes b: "blob m fdt" and p: "prop_at m fdt off"
  shows "fdt_get_property_by_offset_unchecked m fdt off = Some (prop_addr m fdt off, sfield m fdt (off + 4))"
    "fdt32_ld m (prop_addr m fdt off + 8) = Some (sfield m fdt (off + 8))"
    "fdt32_ld m (prop_addr m fdt off + 4) = Some (sfield m fdt (off + 4))"
    "prop_addr m fdt off \<noteq> 0"
proof -
  note pb = prop_at_bounds [OF b p] and bb = blob_bounds [OF b]
  have ld: "fdt32_ld m (prop_addr m fdt off + k) = Some (sfield m fdt (off + k))"
    if "0 \<le> k" "k \<le> 8" for k
    using sfield_load(1) [OF b struct_fits_le [OF pb(4)], of "off + k"] that pb(3)
    by (simp add: add.assoc)
  show "fdt32_ld m (prop_addr m fdt off + 8) = Some (sfield m fdt (off + 8))"
    "fdt32_ld m (prop_addr m fdt off + 4) = Some (sfield m fdt (off + 4))"
    by (rule ld; simp)+
  show "prop_addr m fdt off \<noteq> 0" using pb(1) bb by simp
  from p obtain nx where t: "off mod 4 = 0" "fdt_next_tag m fdt off = Some (FDT_PROP, nx)"
    "tag_at m fdt off FDT_PROP nx" by (auto simp: prop_at_def)
  have n: "fdt_check_prop_offset m fdt off = Some nx" "0 \<le> nx"
    using t pb(1) tag_at_bounds [OF b t(3)] by (simp_all add: fdt_check_prop_offset_def)
  have "sfield m fdt (off + 4) \<le> INT32_MAX" using pb bb by (simp add: struct_fits_def)
  then show "fdt_get_property_by_offset_unchecked m fdt off = Some (prop_addr m fdt off, sfield m fdt (off + 4))"
    using n ld [of 4] pb(3)
    by (simp add: fdt_get_property_by_offset_unchecked_def fdt_offset_ptr_raw_def blob_simps [OF b] wrap_simps)
qed

lemma prop_data_spec:
  assumes b: "blob m fdt" and p: "prop_at m fdt off"
  shows "\<exists>a. prop_data m fdt (prop_addr m fdt off) off = Some a \<and> a \<noteq> 0 \<and>
    (16 \<le> h_version m fdt \<longrightarrow> a = prop_addr m fdt off + 12)"
  using prop_at_reads(3,4) [OF b p] prop_at_bounds(1) [OF b p] blob_bounds [OF b]
  by (simp add: prop_data_def blob_simps [OF b])

text \<open>
  The properties of a node in order: \<open>props_from m fdt off ps r\<close> follows
  \<open>fdt_next_property_offset\<close> from \<open>off\<close> to the error code \<open>r\<close> that ends the list.
\<close>

inductive props_from :: "mem \<Rightarrow> int \<Rightarrow> int \<Rightarrow> int list \<Rightarrow> int \<Rightarrow> bool" for m fdt where
  stop: "r < 0 \<Longrightarrow> props_from m fdt r [] r"
| step: "0 \<le> off \<Longrightarrow> fdt_next_property_offset m fdt off = Some off' \<Longrightarrow>
    props_from m fdt off' ps r \<Longrightarrow> props_from m fdt off (off # ps) r"

inductive_simps props_from_neg: "props_from m fdt off [] r"
inductive_simps props_from_Cons: "props_from m fdt off (p # ps) r"

lemma props_from_exists:
  assumes b: "blob m fdt"
  shows "off < 0 \<or> prop_at m fdt off \<Longrightarrow>
    \<exists>ps r. props_from m fdt off ps r \<and> r < 0 \<and> (\<forall>p \<in> set ps. prop_at m fdt p)"
proof (induction "nat (INT32_MAX - off)" arbitrary: off rule: less_induct)
  case less
  show ?case
  proof (cases "off < 0")
    case True
    then show ?thesis by (intro exI [of _ "[]"] exI [of _ off]) (simp add: props_from_neg)
  next
    case False
    with less.prems have p: "prop_at m fdt off" by simp
    note pb = prop_at_bounds [OF b p]
    have "off \<le> INT32_MAX" using pb by simp
    from fdt_next_property_offset_spec [OF b this] obtain o' where
      o': "fdt_next_property_offset m fdt off = Some o'" "o' < 0 \<or> off < o' \<and> prop_at m fdt o'" by blast
    have "\<exists>ps r. props_from m fdt o' ps r \<and> r < 0 \<and> (\<forall>p \<in> set ps. prop_at m fdt p)"
    proof (cases "o' < 0")
      case True
      then show ?thesis by (intro exI [of _ "[]"] exI [of _ o']) (simp add: props_from_neg)
    next
      case False
      with o'(2) pb show ?thesis by (intro less.hyps) auto
    qed
    then obtain ps r where "props_from m fdt o' ps r" "r < 0" "\<forall>p \<in> set ps. prop_at m fdt p" by blast
    with p o'(1) pb(1) show ?thesis
      by (intro exI [of _ "off # ps"] exI [of _ r]) (auto intro: props_from.step)
  qed
qed

text \<open>The string at \<open>off\<close> of the strings block reads \<open>s\<close>.\<close>

definition str_is :: "mem \<Rightarrow> int \<Rightarrow> int \<Rightarrow> u8 list \<Rightarrow> bool" where
  "str_is m fdt off s \<longleftrightarrow>
     (\<exists>p. p \<noteq> 0 \<and> fdt_get_string m fdt off = Some (p, int (length s)) \<and> cstr_at m p s)"

lemma bytes_at_mapped: "bytes_at m p s \<Longrightarrow> mapped m p (int (length s))"
proof -
  assume a: "bytes_at m p s"
  have "m i \<noteq> None" if "p \<le> i" "i < p + int (length s)" for i
    using a [unfolded bytes_at_iff, rule_format, of "nat (i - p)"] that by auto
  then show ?thesis by (auto simp: mapped_def)
qed

lemma fdt_string_eq_spec:
  assumes b: "blob m fdt" and n: "bytes_at m name s" "0 \<le> name" "name < 4294967296"
    "int (length s) \<le> UINT32_MAX"
  shows "fdt_string_eq m fdt off name (int (length s)) = Some (str_is m fdt off s)"
proof -
  from fdt_get_string_spec [OF b, of off] obtain p k where g: "fdt_get_string m fdt off = Some (p, k)"
    "p = 0 \<and> k < 0 \<or> (\<exists>s. p \<noteq> 0 \<and> string_in m fdt p s \<and> k = int (length s))" by (elim exE conjE)
  from g(2) show ?thesis
  proof (elim disjE exE conjE)
    assume "p = 0" "k < 0"
    with g(1) show ?thesis by (simp add: fdt_string_eq_def str_is_def)
  next
    fix t assume t: "p \<noteq> 0" "string_in m fdt p t" "k = int (length t)"
    then have c: "cstr_at m p t" by (simp add: string_in_def)
    have "0 < p" "p < 4294967296" using t(2) b by (simp_all add: string_in_def blob_def)
    with n(2,3) have r: "\<bar>p - name\<bar> < 4294967296" by simp
    from c have bt: "bytes_at m p t" by (simp add: cstr_at_iff)
    show ?thesis
    proof (cases "length t = length s")
      case False
      with g(1) t show ?thesis by (auto simp: fdt_string_eq_def str_is_def)
    next
      case True
      with memcmp_zero_iff [OF bt n(1) True r] memcmp_spec [OF bt n(1) True] obtain d where
        d: "memcmp m p name (length s) = Some d" "d = 0 \<longleftrightarrow> t = s" by auto
      have "str_is m fdt off s \<longleftrightarrow> cstr_at m p s"
        using g(1) t True by (simp add: str_is_def)
      also have "\<dots> \<longleftrightarrow> t = s"
        using c cstr_at_unique [OF c, of s] by blast
      finally have "str_is m fdt off s \<longleftrightarrow> t = s" .
      with g(1) t True d n(4) show ?thesis
        by (simp add: fdt_string_eq_def to_u32_id)
    qed
  qed
qed

definition named :: "mem \<Rightarrow> int \<Rightarrow> u8 list \<Rightarrow> int \<Rightarrow> bool" where
  "named m fdt s off \<longleftrightarrow> str_is m fdt (to_s32 (sfield m fdt (off + 8))) s"

text \<open>The search loop finds the first property with the name.\<close>

lemma fdt_get_property_loop_find:
  assumes b: "blob m fdt" and n: "bytes_at m name s" "0 \<le> name" "name < 4294967296"
    "int (length s) \<le> UINT32_MAX"
  shows "props_from m fdt off ps r \<Longrightarrow> (\<forall>p \<in> set ps. prop_at m fdt p) \<Longrightarrow>
    fdt_get_property_loop m fdt off name (int (length s)) =
      Some (case find (named m fdt s) ps of
              Some p \<Rightarrow> (prop_addr m fdt p, sfield m fdt (p + 4), p)
            | None \<Rightarrow> (0, r, 0))"
proof (induction rule: props_from.induct)
  case (stop r)
  then show ?case by (subst fdt_get_property_loop.simps) simp
next
  case (step off off' ps r)
  then have p: "prop_at m fdt off" by simp
  note rd = prop_at_reads [OF b p]
  have eq: "fdt_string_eq m fdt (to_s32 (sfield m fdt (off + 8))) name (int (length s)) =
      Some (named m fdt s off)"
    using fdt_string_eq_spec [OF b n] by (simp add: named_def)
  show ?case
    using step rd eq by (subst fdt_get_property_loop.simps) simp
qed

section \<open>Property lookup\<close>

text \<open>\<open>c_string m p s\<close>: a C string outside the blob, such as a literal of the program.\<close>

definition c_string :: "mem \<Rightarrow> int \<Rightarrow> u8 list \<Rightarrow> bool" where
  "c_string m p s \<longleftrightarrow> cstr_at m p s \<and> last_word_mapped m (p + int (length s)) \<and> 0 < p \<and>
     p + int (length s) < 4294967296 \<and> int (length s) \<le> 2147483640"

lemma c_string_strlen: "c_string m p s \<Longrightarrow> strlen m p = Some (int (length s))"
  by (auto simp: c_string_def intro: strlen_cstr)

lemma c_string_bytes:
  assumes "c_string m p s"
  shows "bytes_at m p s" "0 \<le> p" "p < 4294967296" "int (length s) \<le> UINT32_MAX"
    "to_s32 (int (length s)) = int (length s)" "0 \<notin> set s" "bytes_at m p (s @ [0])"
proof -
  show "bytes_at m p s" "0 \<le> p" "p < 4294967296" "int (length s) \<le> UINT32_MAX" "0 \<notin> set s"
    using assms by (auto simp: c_string_def cstr_at_iff)
  show "to_s32 (int (length s)) = int (length s)"
    using assms by (intro to_s32_id) (auto simp: c_string_def)
  show "bytes_at m p (s @ [0])"
    using assms by (auto simp: c_string_def cstr_at_iff bytes_at_iff nth_append less_Suc_eq)
qed

definition props_of :: "mem \<Rightarrow> int \<Rightarrow> int \<Rightarrow> int list \<Rightarrow> int \<Rightarrow> bool" where
  "props_of m fdt node ps r \<longleftrightarrow> r < 0 \<and> (\<forall>p \<in> set ps. prop_at m fdt p) \<and>
     (\<exists>first. fdt_first_property_offset m fdt node = Some first \<and> props_from m fdt first ps r)"

lemma props_of_exists:
  assumes b: "blob m fdt" and off: "node \<le> INT32_MAX"
  shows "\<exists>ps r. props_of m fdt node ps r"
proof -
  from fdt_first_property_offset_spec [OF b off] obtain f where
    f: "fdt_first_property_offset m fdt node = Some f" "f < 0 \<or> prop_at m fdt f" by blast
  from props_from_exists [OF b f(2)] f(1) show ?thesis unfolding props_of_def by blast
qed

text \<open>Where the value of the property at \<open>p\<close> starts.\<close>

definition data_addr :: "mem \<Rightarrow> int \<Rightarrow> int \<Rightarrow> int" where
  "data_addr m fdt p = the (prop_data m fdt (prop_addr m fdt p) p)"

lemma data_addr_spec:
  assumes "blob m fdt" "prop_at m fdt p"
  shows "prop_data m fdt (prop_addr m fdt p) p = Some (data_addr m fdt p)" "data_addr m fdt p \<noteq> 0"
    "16 \<le> h_version m fdt \<Longrightarrow> data_addr m fdt p = prop_addr m fdt p + 12"
  using prop_data_spec [OF assms] by (auto simp: data_addr_def)

definition lookup :: "mem \<Rightarrow> int \<Rightarrow> u8 list \<Rightarrow> int list \<Rightarrow> int \<Rightarrow> int \<times> int" where
  "lookup m fdt s ps r =
     (case find (named m fdt s) ps of
        Some p \<Rightarrow> (data_addr m fdt p, sfield m fdt (p + 4)) | None \<Rightarrow> (0, r))"

lemma fdt_getprop_lookup:
  assumes b: "blob m fdt" and ps: "props_of m fdt node ps r" and n: "c_string m name s"
  shows "fdt_getprop m fdt node name = Some (lookup m fdt s ps r)"
proof -
  note nb = c_string_bytes [OF n]
  from ps obtain f where f: "fdt_first_property_offset m fdt node = Some f" "props_from m fdt f ps r"
    "\<forall>p \<in> set ps. prop_at m fdt p" by (auto simp: props_of_def)
  note loop = fdt_get_property_loop_find [OF b nb(1-4) f(2,3)]
  note eq = fdt_getprop_def c_string_strlen [OF n] nb(5) fdt_getprop_namelen_def
    fdt_get_property_namelen_any_def lookup_def
  show ?thesis
  proof (cases "find (named m fdt s) ps")
    case None
    with f(1) loop show ?thesis by (simp add: eq)
  next
    case (Some p)
    then have "p \<in> set ps" by (auto simp: find_Some_iff)
    with f(3) have p: "prop_at m fdt p" by simp
    from Some f(1) loop prop_at_reads(4) [OF b p] data_addr_spec(1) [OF b p] show ?thesis
      by (simp add: eq)
  qed
qed

lemma lookup_range:
  assumes b: "blob m fdt" and ps: "props_of m fdt node ps r" and v: "16 \<le> h_version m fdt"
    and l: "lookup m fdt s ps r = (a, n)"
  shows "a = 0 \<and> n < 0 \<or>
    fdt < a \<and> 0 \<le> n \<and> a + n \<le> fdt + h_totalsize m fdt \<and>
    (\<exists>p \<in> set ps. prop_at m fdt p \<and> named m fdt s p \<and> a = prop_addr m fdt p + 12 \<and> n = sfield m fdt (p + 4))"
proof (cases "find (named m fdt s) ps")
  case None
  with l ps show ?thesis by (auto simp: lookup_def props_of_def)
next
  case (Some p)
  then have p: "p \<in> set ps" "named m fdt s p" by (auto simp: find_Some_iff)
  with ps have pa: "prop_at m fdt p" by (simp add: props_of_def)
  note pb = prop_at_bounds [OF b pa]
  have "a = prop_addr m fdt p + 12" "n = sfield m fdt (p + 4)"
    using l Some data_addr_spec(3) [OF b pa v] by (auto simp: lookup_def)
  with p pa pb blob_bounds [OF b] show ?thesis by (auto simp: struct_fits_def)
qed

section \<open>String lists\<close>

text \<open>The NUL-terminated strings at the front of a byte sequence.\<close>

function nul_strings :: "u8 list \<Rightarrow> u8 list list" where
  "nul_strings bs =
     (if 0 \<in> set bs then takeWhile (\<lambda>b. b \<noteq> 0) bs # nul_strings (tl (dropWhile (\<lambda>b. b \<noteq> 0) bs))
      else [])"
  by pat_completeness auto
termination
proof (relation "measure length")
  fix bs :: "u8 list" assume "0 \<in> set bs"
  then have "0 < length bs" by auto
  with length_dropWhile_le [of "\<lambda>b. b \<noteq> 0" bs]
  have "length (dropWhile (\<lambda>b. b \<noteq> 0) bs) - 1 < length bs" by linarith
  then show "(tl (dropWhile (\<lambda>b. b \<noteq> 0) bs), bs) \<in> measure length" by simp
qed simp

declare nul_strings.simps [simp del]

lemma takeWhile_nul: "0 \<notin> set s \<Longrightarrow> takeWhile (\<lambda>b. b \<noteq> 0) (s @ 0 # bs) = s"
  by (induction s) auto

lemma dropWhile_nul: "0 \<notin> set s \<Longrightarrow> dropWhile (\<lambda>b. b \<noteq> 0) (s @ 0 # bs) = 0 # bs"
  by (induction s) auto

lemma nul_strings_split:
  "0 \<notin> set s \<Longrightarrow> nul_strings (s @ 0 # bs) = s # nul_strings bs"
  by (subst nul_strings.simps) (simp add: takeWhile_nul dropWhile_nul)

lemma nul_strings_none: "0 \<notin> set bs \<Longrightarrow> nul_strings bs = []"
  by (subst nul_strings.simps) simp

lemma bytes_at_append:
  "bytes_at m p (a @ b) \<longleftrightarrow> bytes_at m p a \<and> bytes_at m (p + int (length a)) b"
  by (induction a arbitrary: p) (auto simp: add.assoc)

lemma bytes_at_take: "bytes_at m p bs \<Longrightarrow> bytes_at m p (take n bs)"
  by (simp add: bytes_at_iff)

lemma split_at_zero:
  assumes "0 \<in> set (bs :: u8 list)"
  obtains t rest where "bs = t @ 0 # rest" "0 \<notin> set t"
  using split_list_first [OF assms] by blast

lemma nul_strings_length: "t \<in> set (nul_strings bs) \<Longrightarrow> length t < length bs"
proof (induction bs rule: nul_strings.induct)
  case (1 bs)
  show ?case
  proof (cases "0 \<in> set bs")
    case False
    with "1.prems" show ?thesis by (simp add: nul_strings_none)
  next
    case True
    then obtain u rest where u: "bs = u @ 0 # rest" "0 \<notin> set u" by (rule split_at_zero)
    then have "tl (dropWhile (\<lambda>b. b \<noteq> 0) bs) = rest" by (simp add: dropWhile_nul)
    with "1.IH" [OF True] have "t \<in> set (nul_strings rest) \<Longrightarrow> length t < length rest" by simp
    with "1.prems" u show ?thesis by (auto simp: nul_strings_split)
  qed
qed

lemma prefix_nul:
  "0 \<notin> set s \<Longrightarrow> 0 \<notin> set t \<Longrightarrow> take (Suc (length s)) (t @ 0 # r) = s @ [0] \<longleftrightarrow> t = s"
proof (induction s arbitrary: t)
  case Nil
  then show ?case by (cases t) auto
next
  case (Cons a s)
  then show ?case by (cases t) auto
qed

text \<open>
  \<open>fdt_stringlist_contains\<close> on the bytes \<open>bs\<close> of a list, followed by the byte \<open>nb\<close>: the last
  comparison may look at one byte more than the list has.
\<close>

lemma stringlist_contains_loop_spec:
  assumes str: "bytes_at m str (s @ [0])" "0 \<notin> set s" "0 \<le> str" "str < 4294967296"
  shows "bytes_at m p (bs @ [nb]) \<Longrightarrow> 0 < p \<Longrightarrow> p + int (length bs) \<le> 4294967295 \<Longrightarrow>
    int (length bs) \<le> INT32_MAX \<Longrightarrow>
    fdt_stringlist_contains_loop m p (int (length bs)) str (int (length s)) =
      Some (if s \<in> set (nul_strings (bs @ [nb])) then 1 else 0)"
proof (induction "length bs" arbitrary: bs p rule: less_induct)
  case less
  show ?case
  proof (cases "length s \<le> length bs")
    case False
    have "s \<notin> set (nul_strings (bs @ [nb]))"
      using nul_strings_length [of s "bs @ [nb]"] False by auto
    with False show ?thesis by (subst fdt_stringlist_contains_loop.simps) simp
  next
    case le: True
    let ?x = "take (Suc (length s)) (bs @ [nb])"
    have lx: "length (s @ [0]) = length ?x" using le by simp
    have bx: "bytes_at m p ?x" using less.prems(1) by (rule bytes_at_take)
    have r: "\<bar>str - p\<bar> < 4294967296" using str(3,4) less.prems(2,3) by simp
    obtain c where c: "memcmp m str p (Suc (length s)) = Some c" "c = 0 \<longleftrightarrow> ?x = s @ [0]"
      using memcmp_spec [OF str(1) bx lx] memcmp_zero_iff [OF str(1) bx lx r]
      by (simp del: take_append) (metis option.sel)
    have n: "nat (int (length s) + 1) = Suc (length s)" "nat (to_u32 (int (length bs))) = length bs"
      using less.prems(4) by (simp_all add: to_u32_id)
    have bp: "bytes_at m p bs" using less.prems(1) by (simp add: bytes_at_append)
    show ?thesis
    proof (cases "0 \<in> set bs")
      case False
      have "?x = s @ [0] \<longleftrightarrow> bs = s \<and> nb = 0"
      proof
        assume a: "?x = s @ [0]"
        have "length bs = length s"
        proof (rule ccontr)
          assume "length bs \<noteq> length s"
          with le have "?x = take (Suc (length s)) bs" by simp
          with a have "take (Suc (length s)) bs = s @ [0]" by (simp only:)
          then have "0 \<in> set (take (Suc (length s)) bs)" by (simp only:) simp
          with False show False by (auto dest: in_set_takeD)
        qed
        with a show "bs = s \<and> nb = 0" by simp
      qed simp
      moreover have "nul_strings (bs @ [nb]) = (if nb = 0 then [bs] else [])"
        using False nul_strings_split [of bs "[]"] by (auto simp: nul_strings_none)
      moreover have "memchr m p 0 (length bs) = Some 0"
        using memchr_absent [OF bp, of 0] False by simp
      ultimately show ?thesis
        using c n le by (subst fdt_stringlist_contains_loop.simps) auto
    next
      case True
      then obtain t rest where t: "bs = t @ 0 # rest" "0 \<notin> set t" by (rule split_at_zero)
      have x: "?x = s @ [0] \<longleftrightarrow> t = s"
        using prefix_nul [OF str(2) t(2), of "rest @ [nb]"] t(1) by simp
      have mc: "memchr m p 0 (length bs) = Some (p + int (length t))"
        using memchr_found [of m p t 0 "length bs"] bp t by (auto simp: bytes_at_append)
      have "bytes_at m (p + int (length t) + 1) (rest @ [nb])"
        using less.prems(1) t(1) by (simp add: bytes_at_append add.assoc)
      then have IH: "fdt_stringlist_contains_loop m (p + int (length t) + 1) (int (length rest)) str
          (int (length s)) = Some (if s \<in> set (nul_strings (rest @ [nb])) then 1 else 0)"
        using less.prems(2-4) t(1) by (intro less.hyps) auto
      have "nul_strings (bs @ [nb]) = t # nul_strings (rest @ [nb])"
        using nul_strings_split [OF t(2), of "rest @ [nb]"] t(1) by simp
      moreover have "int (length bs) - (p + int (length t) - p + 1) = int (length rest)" using t(1) by simp
      ultimately show ?thesis
        using c n le mc IH x less.prems(2)
        by (subst fdt_stringlist_contains_loop.simps) (auto simp: add.assoc)
    qed
  qed
qed

lemma fdt_stringlist_contains_spec:
  assumes str: "c_string m str s"
    and bs: "bytes_at m p (bs @ [nb])" "0 < p" "p + int (length bs) \<le> 4294967295"
      "int (length bs) \<le> INT32_MAX"
  shows "fdt_stringlist_contains m p (int (length bs)) str =
     Some (if s \<in> set (nul_strings (bs @ [nb])) then 1 else 0)"
proof -
  note sb = c_string_bytes [OF str]
  show ?thesis
    using stringlist_contains_loop_spec [OF sb(7,6,2,3) bs]
    by (simp add: fdt_stringlist_contains_def c_string_strlen [OF str] sb(5))
qed

section \<open>Compatible nodes\<close>

text \<open>One byte behind the blob is mapped too, for the over-read described above.\<close>

definition blob_slack :: "mem \<Rightarrow> int \<Rightarrow> bool" where
  "blob_slack m fdt \<longleftrightarrow> blob m fdt \<and> 16 \<le> h_version m fdt \<and>
     m (fdt + h_totalsize m fdt) \<noteq> None \<and> fdt + h_totalsize m fdt \<le> 4294967295"

definition strings_at :: "mem \<Rightarrow> int \<Rightarrow> int \<Rightarrow> u8 list list" where
  "strings_at m a n = nul_strings (the (load_bytes m a (Suc (nat n))))"

lemma blob_slack_bytes:
  assumes b: "blob_slack m fdt" and a: "fdt \<le> a" "0 \<le> n" "a + n \<le> fdt + h_totalsize m fdt"
  obtains bs nb where "bytes_at m a (bs @ [nb])" "int (length bs) = n"
    "strings_at m a n = nul_strings (bs @ [nb])"
proof -
  have bl: "blob m fdt" using b by (simp add: blob_slack_def)
  have "mapped m fdt (h_totalsize m fdt)" by (rule blob_mapped_tail [OF bl]) simp_all
  moreover have "i < fdt + h_totalsize m fdt \<or> i = fdt + h_totalsize m fdt"
    if "i < fdt + (h_totalsize m fdt + 1)" for i using that by linarith
  ultimately have "mapped m fdt (h_totalsize m fdt + 1)"
    using b unfolding mapped_def blob_slack_def by blast
  then have "mapped m a (int (Suc (nat n)))" using a by (auto intro: mapped_sub)
  from load_bytes_mapped [OF this] obtain xs where x: "load_bytes m a (Suc (nat n)) = Some xs" by blast
  then have xs: "bytes_at m a xs" "length xs = Suc (nat n)" by (simp_all only: load_bytes_Some)
  then have "xs = butlast xs @ [last xs]" by (metis append_butlast_last_id list.size(3) nat.distinct(1))
  with x xs a(2) show thesis
    by (intro that [of "butlast xs" "last xs"]) (simp_all add: strings_at_def)
qed

lemma fdt_node_check_compatible_spec:
  assumes b: "blob_slack m fdt" and l: "c_string m (lit ''compatible'') (lit_bytes ''compatible'')"
    and s: "c_string m cs s" and ps: "props_of m fdt node ps r"
    and look: "lookup m fdt (lit_bytes ''compatible'') ps r = (a, n)"
  shows "fdt_node_check_compatible m lit fdt node cs =
     Some (if a = 0 then n else if s \<in> set (strings_at m a n) then 0 else 1)"
proof -
  have bl: "blob m fdt" and v: "16 \<le> h_version m fdt" using b by (simp_all add: blob_slack_def)
  have g: "fdt_getprop m fdt node (lit ''compatible'') = Some (a, n)"
    using fdt_getprop_lookup [OF bl ps l] look by simp
  show ?thesis
  proof (cases "a = 0")
    case True
    with g show ?thesis by (simp add: fdt_node_check_compatible_def)
  next
    case False
    with lookup_range [OF bl ps v look]
    have rg: "fdt < a" "0 \<le> n" "a + n \<le> fdt + h_totalsize m fdt" by auto
    then obtain bs nb where x: "bytes_at m a (bs @ [nb])" "int (length bs) = n"
      "strings_at m a n = nul_strings (bs @ [nb])"
      using blob_slack_bytes [OF b, of a n] by (metis less_imp_le)
    have "0 < a" "a + int (length bs) \<le> 4294967295" "int (length bs) \<le> INT32_MAX"
      using rg x(2) b blob_bounds [OF bl] by (simp_all add: blob_slack_def)
    from fdt_stringlist_contains_spec [OF s x(1) this] x(2,3) g False show ?thesis
      by (simp add: fdt_node_check_compatible_def)
  qed
qed

text \<open>The nodes behind \<open>off\<close> in the order of the blob.\<close>

inductive nodes_from :: "mem \<Rightarrow> int \<Rightarrow> int \<Rightarrow> int list \<Rightarrow> int \<Rightarrow> bool" for m fdt where
  stop: "fdt_next_node m fdt off None = Some (r, None) \<Longrightarrow> r < 0 \<Longrightarrow> nodes_from m fdt off [] r"
| step: "fdt_next_node m fdt off None = Some (off', None) \<Longrightarrow> 0 \<le> off' \<Longrightarrow>
    nodes_from m fdt off' ns r \<Longrightarrow> nodes_from m fdt off (off' # ns) r"

lemma nodes_from_exists:
  assumes b: "blob m fdt"
  shows "off \<le> INT32_MAX \<Longrightarrow>
    \<exists>ns r. nodes_from m fdt off ns r \<and> r < 0 \<and> sorted_wrt (<) (off # ns) \<and> (\<forall>n \<in> set ns. node_at m fdt n)"
proof (induction "nat (INT32_MAX - off)" arbitrary: off rule: less_induct)
  case less
  obtain q where q: "fdt_next_node m fdt off None = Some (q, None)"
    "q < 0 \<or> (max 0 (off + 1) \<le> q \<and> q \<le> 2147483644 \<and> node_at m fdt q)"
    by (rule fdt_next_node_None [OF b less.prems])
  show ?case
  proof (cases "q < 0")
    case True
    with q(1) show ?thesis
      by (intro exI [of _ "[]"] exI [of _ q]) (auto intro: nodes_from.stop)
  next
    case False
    with q(2) have qn: "off < q" "q \<le> 2147483644" "node_at m fdt q" by auto
    have "nat (INT32_MAX - q) < nat (INT32_MAX - off)" using qn(1,2) by simp
    moreover have "q \<le> INT32_MAX" using qn(2) by simp
    ultimately obtain ns r where ns: "nodes_from m fdt q ns r" "r < 0" "sorted_wrt (<) (q # ns)"
      "\<forall>n \<in> set ns. node_at m fdt n" using less.hyps by blast
    have "nodes_from m fdt off (q # ns) r" using q(1) False ns(1) by (auto intro: nodes_from.step)
    moreover have "sorted_wrt (<) (off # q # ns)" using ns(3) qn(1) by auto
    ultimately show ?thesis using ns(2,4) qn(3)
      by (intro exI [of _ "q # ns"] exI [of _ r]) simp
  qed
qed

lemma fdt_node_by_compatible_loop_find:
  "nodes_from m fdt off ns r \<Longrightarrow>
   (\<And>n. n \<in> set ns \<Longrightarrow> fdt_node_check_compatible m lit fdt n cs = Some (chk n)) \<Longrightarrow>
   fdt_node_by_compatible_loop m lit fdt off cs =
     Some (case find (\<lambda>n. chk n = 0 \<or> (chk n < 0 \<and> chk n \<noteq> - FDT_ERR_NOTFOUND)) ns of
             Some n \<Rightarrow> (if chk n = 0 then n else chk n) | None \<Rightarrow> r)"
proof (induction rule: nodes_from.induct)
  case (stop off r)
  then show ?case by (subst fdt_node_by_compatible_loop.simps) simp
next
  case (step off off' ns r)
  then show ?case by (subst fdt_node_by_compatible_loop.simps) simp
qed

lemma fdt_node_offset_by_compatible_spec:
  assumes b: "blob_slack m fdt" and l: "c_string m (lit ''compatible'') (lit_bytes ''compatible'')"
    and s: "c_string m cs s" and off: "start \<le> INT32_MAX"
    and pr: "fdt_ro_probe m fdt = Some t" "0 \<le> t"
  shows "\<exists>ns r chk. nodes_from m fdt start ns r \<and>
    (\<forall>n \<in> set ns. fdt_node_check_compatible m lit fdt n cs = Some (chk n)) \<and>
    fdt_node_offset_by_compatible m lit fdt start cs =
     Some (case find (\<lambda>n. chk n = 0 \<or> (chk n < 0 \<and> chk n \<noteq> - FDT_ERR_NOTFOUND)) ns of
             Some n \<Rightarrow> (if chk n = 0 then n else chk n) | None \<Rightarrow> r)"
proof -
  have bl: "blob m fdt" using b by (simp add: blob_slack_def)
  from nodes_from_exists [OF bl off] obtain ns r where ns: "nodes_from m fdt start ns r"
    "\<forall>n \<in> set ns. node_at m fdt n" by blast
  define chk where "chk n = the (fdt_node_check_compatible m lit fdt n cs)" for n
  have ck: "fdt_node_check_compatible m lit fdt n cs = Some (chk n)" if "n \<in> set ns" for n
  proof -
    from ns(2) that have "node_at m fdt n" by simp
    then obtain x where "tag_at m fdt n FDT_BEGIN_NODE x" by (auto simp: node_at_def)
    from tag_at_bounds [OF bl this] have "n \<le> INT32_MAX" by simp
    from props_of_exists [OF bl this] obtain ps r where ps: "props_of m fdt n ps r" by blast
    obtain a k where "lookup m fdt (lit_bytes ''compatible'') ps r = (a, k)" by fastforce
    from fdt_node_check_compatible_spec [where lit = lit, OF b l s ps this] show ?thesis
      by (simp add: chk_def)
  qed
  with ns(1) fdt_node_by_compatible_loop_find [OF ns(1) ck] pr show ?thesis
    by (intro exI [of _ ns] exI [of _ r] exI [of _ chk])
       (simp add: fdt_node_offset_by_compatible_def)
qed

section \<open>Properties\<close>

text \<open>The literals of the sample memory.\<close>

definition demo_lit :: literals where
  "demo_lit s = (if s = ''compatible'' then 256 else 267)"

lemma demo_strings:
  "c_string demo_fdt_mem (demo_lit ''compatible'') (lit_bytes ''compatible'')"
  "c_string demo_fdt_mem (demo_lit ''virt'') (lit_bytes ''virt'')"
proof -
  have m: "mapped demo_fdt_mem 256 16"
    using mapped_mem_rows [of demo_literals 256]
    by (auto simp: mapped_def demo_fdt_mem_def demo_literals_def)
  have c: "cstr_at demo_fdt_mem 256 (lit_bytes ''compatible'')" "cstr_at demo_fdt_mem 267 (lit_bytes ''virt'')"
    by code_simp+
  show "c_string demo_fdt_mem (demo_lit ''compatible'') (lit_bytes ''compatible'')"
    "c_string demo_fdt_mem (demo_lit ''virt'') (lit_bytes ''virt'')"
    using c by (simp_all add: c_string_def demo_lit_def last_word_mapped_def lit_bytes_def mapped_sub [OF m])
qed

lemma demo_blob_slack: "blob_slack demo_fdt_mem 4096"
  using mappedD [OF demo_fdt_mapped, of 4228] demo_fdt_blob
  by (auto simp: blob_slack_def demo_fdt_fields)

text \<open>\<open>fdt_get_string\<close> on a mapped blob with arbitrary contents always returns: null with an error,
  or a string that lies with its terminator inside the blob, with its length.\<close>

theorem get_string_safe:
  assumes "blob m fdt"
  shows "\<exists>p n. fdt_get_string m fdt off = Some (p, n) \<and>
    (p = 0 \<and> n < 0 \<or> (\<exists>s. p \<noteq> 0 \<and> string_in m fdt p s \<and> n = int (length s)))"
  using assms by (rule fdt_get_string_spec)

theorem get_string_safe_witness:
  "\<exists>p. fdt_get_string demo_fdt_mem 4096 3 = Some (p, 7)"
proof -
  have "fdt_get_string demo_fdt_mem 4096 3 = Some (4219, 7)" by code_simp
  with get_string_safe [OF demo_fdt_blob, of 3] show ?thesis by simp
qed

text \<open>C39: \<open>fdt_stringlist_contains\<close> finds a string exactly when it is one of the NUL-terminated strings of
  the list read together with the byte behind it: an unterminated last string counts when a NUL
  happens to follow the list.\<close>

theorem stringlist_contains_iff:
  assumes "c_string m str s" "bytes_at m p (bs @ [nb])" "0 < p"
    "p + int (length bs) \<le> 4294967295" "int (length bs) \<le> INT32_MAX"
  shows "fdt_stringlist_contains m p (int (length bs)) str =
     Some (if s \<in> set (nul_strings (bs @ [nb])) then 1 else 0)"
  using assms by (rule fdt_stringlist_contains_spec)

theorem stringlist_contains_iff_witness:
  "fdt_stringlist_contains demo_fdt_mem 4196 6 (demo_lit ''virt'') = Some 1"
proof -
  have b: "bytes_at demo_fdt_mem 4196 ([120, 0, 118, 105, 114, 116] @ [0])" by code_simp
  have n: "nul_strings ([120, 0, 118, 105, 114, 116] @ [0]) = [[120], [118, 105, 114, 116]]"
    by (simp add: nul_strings.simps)
  have v: "lit_bytes ''virt'' = [118, 105, 114, 116]" by code_simp
  show ?thesis
    using stringlist_contains_iff [OF demo_strings(2) b] unfolding n v by simp
qed

end
