(* ===== verification/Fdt_Check.thy ===== *)
theory Fdt_Check
  imports Fdt_Ro
begin

text \<open>
  The full check of a blob (\<^verbatim>\<open>libfdt/fdt_check.c\<close>), the cell counts of a node
  (\<^verbatim>\<open>libfdt/fdt_addresses.c\<close>) and the error texts (\<^verbatim>\<open>libfdt/fdt_strerror.c\<close>).
\<close>

section \<open>Cell counts\<close>

abbreviation FDT_MAX_NCELLS :: int where "FDT_MAX_NCELLS \<equiv> 4"

definition fdt_cells :: "mem \<Rightarrow> int \<Rightarrow> int \<Rightarrow> int \<Rightarrow> int option" where
  "fdt_cells m fdt nodeoffset name = do {
     (c, len) \<leftarrow> fdt_getprop m fdt nodeoffset name;
     if c = 0 then Some len
     else if len \<noteq> 4 then Some (- FDT_ERR_BADNCELLS)
     else do {
       val \<leftarrow> fdt32_ld_native m c;
       Some (if val > FDT_MAX_NCELLS then - FDT_ERR_BADNCELLS else to_s32 val) } }"

definition fdt_address_cells :: "mem \<Rightarrow> literals \<Rightarrow> int \<Rightarrow> int \<Rightarrow> int option" where
  "fdt_address_cells m lit fdt nodeoffset = do {
     val \<leftarrow> fdt_cells m fdt nodeoffset (lit ''#address-cells'');
     Some (if val = 0 then - FDT_ERR_BADNCELLS
           else if val = - FDT_ERR_NOTFOUND then 2 else val) }"

definition fdt_size_cells :: "mem \<Rightarrow> literals \<Rightarrow> int \<Rightarrow> int \<Rightarrow> int option" where
  "fdt_size_cells m lit fdt nodeoffset = do {
     val \<leftarrow> fdt_cells m fdt nodeoffset (lit ''#size-cells'');
     Some (if val = - FDT_ERR_NOTFOUND then 1 else val) }"

section \<open>The full check\<close>

text \<open>One pass over all tags; \<open>depth\<close> is an \<open>unsigned int\<close>.\<close>

partial_function (option) fdt_check_full_loop :: "mem \<Rightarrow> int \<Rightarrow> int \<Rightarrow> int \<Rightarrow> bool \<Rightarrow> int option" where [code]:
  "fdt_check_full_loop m fdt offset depth expect_end = do {
     (tag, nextoffset) \<leftarrow> fdt_next_tag m fdt offset;
     if nextoffset < 0 then Some nextoffset
     else if expect_end \<and> tag \<noteq> FDT_END \<and> tag \<noteq> FDT_NOP then Some (- FDT_ERR_BADSTRUCTURE)
     else if tag = FDT_NOP then fdt_check_full_loop m fdt nextoffset depth expect_end
     else if tag = FDT_END then Some (if depth \<noteq> 0 then - FDT_ERR_BADSTRUCTURE else 0)
     else if tag = FDT_BEGIN_NODE then
       let depth = to_u32 (depth + 1) in
       if depth > INT32_MAX then Some (- FDT_ERR_BADSTRUCTURE)
       else do {
         err \<leftarrow> (if depth = 1 then do {
                  (name, len) \<leftarrow> fdt_get_name m fdt offset;
                  if name = 0 then Some (Some len)
                  else do {
                    b \<leftarrow> load8 m name;
                    Some (if b \<noteq> 0 \<or> len \<noteq> 0 then Some (- FDT_ERR_BADSTRUCTURE) else None) } }
                else Some None);
         case err of Some e \<Rightarrow> Some e
         | None \<Rightarrow> fdt_check_full_loop m fdt nextoffset depth expect_end }
     else if tag = FDT_END_NODE then
       (if depth = 0 then Some (- FDT_ERR_BADSTRUCTURE)
        else let depth = depth - 1 in
          fdt_check_full_loop m fdt nextoffset depth (if depth = 0 then True else expect_end))
     else if tag = FDT_PROP then do {
       (prop, _, err) \<leftarrow> fdt_getprop_by_offset m fdt offset True;
       if prop = 0 then Some err else fdt_check_full_loop m fdt nextoffset depth expect_end }
     else Some (- FDT_ERR_INTERNAL) }"

definition fdt_check_full :: "mem \<Rightarrow> int \<Rightarrow> int \<Rightarrow> int option" where
  "fdt_check_full m fdt bufsize =
     (if can_assume PERFECT then Some 0
      else if bufsize < FDT_V1_SIZE then Some (- FDT_ERR_TRUNCATED)
      else do {
        hdrsize \<leftarrow> fdt_header_size m fdt;
        if bufsize < hdrsize then Some (- FDT_ERR_TRUNCATED) else do {
        err \<leftarrow> fdt_check_header m fdt;
        if err \<noteq> 0 then Some err else do {
        totalsize \<leftarrow> fdt_totalsize m fdt;
        if bufsize < totalsize then Some (- FDT_ERR_TRUNCATED) else do {
        num_memrsv \<leftarrow> fdt_num_mem_rsv m fdt;
        if num_memrsv < 0 then Some num_memrsv
        else fdt_check_full_loop m fdt 0 0 False } } } })"

section \<open>Error texts\<close>

definition fdt_errtable :: "string option list" where
  "fdt_errtable =
     [None, Some ''FDT_ERR_NOTFOUND'', Some ''FDT_ERR_EXISTS'', Some ''FDT_ERR_NOSPACE'',
      Some ''FDT_ERR_BADOFFSET'', Some ''FDT_ERR_BADPATH'', Some ''FDT_ERR_BADPHANDLE'',
      Some ''FDT_ERR_BADSTATE'', Some ''FDT_ERR_TRUNCATED'', Some ''FDT_ERR_BADMAGIC'',
      Some ''FDT_ERR_BADVERSION'', Some ''FDT_ERR_BADSTRUCTURE'', Some ''FDT_ERR_BADLAYOUT'',
      Some ''FDT_ERR_INTERNAL'', Some ''FDT_ERR_BADNCELLS'', Some ''FDT_ERR_BADVALUE'',
      Some ''FDT_ERR_BADOVERLAY'', Some ''FDT_ERR_NOPHANDLES'', Some ''FDT_ERR_BADFLAGS'',
      Some ''FDT_ERR_ALIGNMENT'']"

text \<open>The text itself; the code returns the address of the literal.\<close>

definition fdt_strerror :: "int \<Rightarrow> string" where
  "fdt_strerror errval =
     (if errval > 0 then ''<valid offset/length>''
      else if errval = 0 then ''<no error>''
      else if - errval < int (length fdt_errtable) then
        (case fdt_errtable ! nat (- errval) of Some s \<Rightarrow> s | None \<Rightarrow> ''<unknown error>'')
      else ''<unknown error>'')"

section \<open>The full check always returns\<close>

lemma fdt_mem_rsv_eq:
  assumes b: "blob m fdt" and i: "0 \<le> i" "i \<le> 134217728" and t: "16 \<le> h_totalsize m fdt"
  shows "fdt_mem_rsv m fdt i = Some
    (if h_off_rsvmap m fdt + 16 * i \<le> h_totalsize m fdt - 16
     then fdt + h_off_rsvmap m fdt + 16 * i else 0)"
proof -
  note bb = blob_bounds [OF b]
  have o: "0 \<le> h_off_rsvmap m fdt" "h_off_rsvmap m fdt \<le> UINT32_MAX"
    using blob_field(2,3) [OF blob_header [OF b], of 16] by simp_all
  have u: "to_u32 (i * 16) = 16 * i" "to_u32 (h_totalsize m fdt - 16) = h_totalsize m fdt - 16"
    using i t bb by (auto simp: wrap_simps)
  have a: "to_u32 (h_off_rsvmap m fdt + 16 * i) =
      (if h_off_rsvmap m fdt + 16 * i \<le> UINT32_MAX then h_off_rsvmap m fdt + 16 * i
       else h_off_rsvmap m fdt + 16 * i - 4294967296)"
    using o i by (auto simp: to_u32_id to_u32_wrap)
  show ?thesis
    using o i bb t
    by (simp add: fdt_mem_rsv_def fdt_mem_rsv_raw_def blob_simps [OF b] u a Let_def)
qed

lemma fdt64_ld_mapped: "mapped m p 8 \<Longrightarrow> \<exists>v. fdt64_ld m p = Some v"
  using fdt32_ld_mapped [OF mapped_sub [of m p 8 p 4]]
    fdt32_ld_mapped [OF mapped_sub [of m p 8 "p + 4" 4]]
  by (auto simp: fdt64_ld_def)

lemma fdt_num_mem_rsv_from_total:
  assumes b: "blob m fdt" and t: "16 \<le> h_totalsize m fdt"
  shows "0 \<le> i \<Longrightarrow> 16 * i \<le> h_totalsize m fdt \<Longrightarrow> \<exists>r. fdt_num_mem_rsv_from m fdt i = Some r"
proof (induction "nat (h_totalsize m fdt - i)" arbitrary: i rule: less_induct)
  case less
  note bb = blob_bounds [OF b]
  have i: "i \<le> 134217728" using less.prems bb by simp
  note eq = fdt_mem_rsv_eq [OF b less.prems(1) i t]
  show ?case
  proof (cases "h_off_rsvmap m fdt + 16 * i \<le> h_totalsize m fdt - 16")
    case False
    with eq show ?thesis by (subst fdt_num_mem_rsv_from.simps) simp
  next
    case True
    have o: "0 \<le> h_off_rsvmap m fdt"
      using blob_field(2) [OF blob_header [OF b], of 16] by simp
    have "mapped m (fdt + h_off_rsvmap m fdt + 16 * i + 8) 8"
      using True less.prems(1) o by (intro blob_mapped_tail [OF b]) auto
    then obtain s where s: "fdt64_ld m (fdt + h_off_rsvmap m fdt + 16 * i + 8) = Some s"
      using fdt64_ld_mapped by blast
    have "\<exists>r. fdt_num_mem_rsv_from m fdt (i + 1) = Some r"
      using True less.prems(1) o by (intro less.hyps) auto
    moreover have "to_s32 (i + 1) = i + 1" using i less.prems(1) by (simp add: wrap_simps)
    moreover have "fdt + h_off_rsvmap m fdt + 16 * i \<noteq> 0" using o less.prems(1) bb by simp
    ultimately show ?thesis using eq True s
      by (subst fdt_num_mem_rsv_from.simps) auto
  qed
qed

lemma fdt_num_mem_rsv_total:
  assumes b: "blob m fdt" and t: "16 \<le> h_totalsize m fdt"
  shows "\<exists>r. fdt_num_mem_rsv m fdt = Some r"
  using fdt_ro_probe_spec [OF b] fdt_num_mem_rsv_from_total [OF b t, of 0] blob_bounds(3) [OF b]
  by (auto simp: fdt_num_mem_rsv_def)

lemma fdt_getprop_by_offset_total:
  assumes b: "blob m fdt" and p: "prop_at m fdt off"
  shows "\<exists>a s n. fdt_getprop_by_offset m fdt off True = Some (a, s, n) \<and> (a = 0 \<longrightarrow> n < 0)"
proof -
  obtain q k where g: "fdt_get_string m fdt (to_s32 (sfield m fdt (off + 8))) = Some (q, k)"
    "q = 0 \<longrightarrow> k < 0" using fdt_get_string_spec [OF b, of "to_s32 (sfield m fdt (off + 8))"] by blast
  obtain d where d: "prop_data m fdt (prop_addr m fdt off) off = Some d" "d \<noteq> 0"
    using prop_data_spec [OF b p] by blast
  show ?thesis
    using prop_at_reads [OF b p] g d by (simp add: fdt_getprop_by_offset_def)
qed

lemma fdt_check_full_loop_total:
  assumes b: "blob m fdt" and v: "16 \<le> h_version m fdt"
  shows "0 \<le> off \<Longrightarrow> off \<le> INT32_MAX \<Longrightarrow> off mod 4 = 0 \<Longrightarrow>
    \<exists>r. fdt_check_full_loop m fdt off depth e = Some r \<and> r \<le> 0"
proof (induction "nat (INT32_MAX - off)" arbitrary: off depth e rule: less_induct)
  case less
  show ?case
  proof (rule fdt_next_tag_cases [OF b less.prems(2)])
    fix nx assume "fdt_next_tag m fdt off = Some (FDT_END, nx)"
      "nx = - FDT_ERR_TRUNCATED \<or> nx = - FDT_ERR_BADSTRUCTURE"
    then show ?thesis by (subst fdt_check_full_loop.simps) auto
  next
    fix tag nx
    assume good: "fdt_next_tag m fdt off = Some (tag, nx)" "tag_at m fdt off tag nx"
    note tb = tag_at_bounds [OF b good(2)]
    have IH: "\<exists>r. fdt_check_full_loop m fdt nx d x = Some r \<and> r \<le> 0" for d x
      using less.prems(1) tb by (intro less.hyps) auto
    note unf = fdt_check_full_loop.simps [of m fdt off depth e]
    from tag_at_tags [OF good(2)] show ?thesis
    proof (elim disjE)
      assume t: "tag = 1"
      from fdt_get_name_spec [OF b less.prems(2) v] obtain p n where
        g: "fdt_get_name m fdt off = Some (p, n)" "p = 0 \<and> n < 0 \<or> (\<exists>s. p \<noteq> 0 \<and> string_in m fdt p s)"
        by blast
      have "\<exists>c. p \<noteq> 0 \<longrightarrow> m p = Some c"
      proof (cases "p = 0")
        case False
        with g(2) obtain s where "string_in m fdt p s" by auto
        then have "\<exists>c. m p = Some c" by (cases s) (auto simp: string_in_def)
        then show ?thesis by blast
      qed simp
      then obtain c where c: "p \<noteq> 0 \<longrightarrow> m p = Some c" by blast
      with good(1) t tb g IH [of "to_u32 (depth + 1)" e] show ?thesis
        by (cases "p = 0") (auto simp: unf Let_def load8_def)
    next
      assume "tag = 2"
      with good(1) tb IH [of "depth - 1" e] IH [of "depth - 1" True] show ?thesis
        by (auto simp: unf Let_def)
    next
      assume t: "tag = 3"
      with good less.prems(3) have "prop_at m fdt off" by (auto simp: prop_at_def)
      from fdt_getprop_by_offset_total [OF b this] obtain a s n where
        "fdt_getprop_by_offset m fdt off True = Some (a, s, n)" "a = 0 \<longrightarrow> n < 0" by blast
      with good(1) t tb IH [of depth e] show ?thesis by (auto simp: unf)
    next
      assume "tag = 4"
      with good(1) tb IH [of depth e] show ?thesis by (auto simp: unf)
    next
      assume "tag = 9"
      with good(1) tb show ?thesis by (auto simp: unf)
    qed
  qed
qed

lemma fdt_check_full_total:
  assumes m: "mapped m fdt 40" "mapped m fdt (4 * ((h_totalsize m fdt + 3) div 4))"
    and a: "0 < fdt" "fdt + h_totalsize m fdt \<le> 4294967296"
    and v: "16 \<le> h_version m fdt"
  shows "\<exists>r. fdt_check_full m fdt bufsize = Some r \<and>
    (r = 0 \<longrightarrow> header_ok m fdt \<and> h_totalsize m fdt \<le> bufsize)"
proof -
  have "\<exists>e. fdt_check_header m fdt = Some e"
    unfolding fdt_check_header_def fdt_header_size_def by (simp add: header_fields [OF m(1)])
  then obtain e where e: "fdt_check_header m fdt = Some e" ..
  have hs: "fdt_header_size m fdt = Some (fdt_header_size_of (h_version m fdt))"
    by (simp add: fdt_header_size_def header_fields [OF m(1)])
  show ?thesis
  proof (cases "e = 0")
    case False
    with e hs show ?thesis by (auto simp: fdt_check_full_def)
  next
    case True
    with e fdt_check_header_iff [OF m(1)] have h: "header_ok m fdt" by simp
    have b: "blob m fdt" by (rule header_ok_blob [OF m(1) h a m(2)])
    have "28 \<le> fdt_header_size_of (h_version m fdt)" by (simp add: fdt_header_size_of_def)
    with h have "16 \<le> h_totalsize m fdt" by (simp add: header_ok_def Let_def)
    from fdt_num_mem_rsv_total [OF b this] obtain k where k: "fdt_num_mem_rsv m fdt = Some k" ..
    have "\<exists>r. fdt_check_full_loop m fdt 0 0 False = Some r \<and> r \<le> 0"
      by (rule fdt_check_full_loop_total [OF b v]) simp_all
    with e True hs k h header_fields(2) [OF m(1)] show ?thesis
      by (auto simp: fdt_check_full_def)
  qed
qed

text \<open>
  Before version 16 the name of a node goes through the kernel's \<open>strrchr\<close>, which never advances:
  a name that starts with anything but a slash or NUL hangs the walk.
\<close>

lemma fdt_get_name_None:
  assumes b: "blob m fdt" and v: "h_version m fdt < 16" and n: "node_at m fdt off"
    and pr: "fdt_ro_probe m fdt = Some t" "0 \<le> t"
    and c: "m (fdt + h_off_struct m fdt + off + 4) = Some c" "c \<noteq> 0" "c \<noteq> 47"
  shows "fdt_get_name m fdt off = None"
proof -
  from n obtain nx where t: "fdt_next_tag m fdt off = Some (FDT_BEGIN_NODE, nx)" "off mod 4 = 0"
    "tag_at m fdt off FDT_BEGIN_NODE nx" by (auto simp: node_at_def)
  note tb = tag_at_bounds [OF b t(3)]
  have "fdt_check_node_offset m fdt off = Some nx"
    using t tb by (simp add: fdt_check_node_offset_def)
  moreover have "strrchr m (fdt + h_off_struct m fdt + off + 4) 47 = None"
  proof (rule strrchr_no_return [where m = m, OF c(1,2)], rule notI)
    assume "uint c = 47"
    then have "uint c = uint (47 :: u8)" by simp
    with c(3) show False by (simp only: uint_eq_uint_iff)
  qed
  ultimately show ?thesis using pr v tb
    by (simp add: fdt_get_name_def fdt_offset_ptr_raw_def blob_simps [OF b])
qed

section \<open>Properties\<close>

text \<open>C33: \<open>fdt_check_full\<close> returns on every mapped blob of version 16 or later, whatever its contents, and
  when it returns 0 the header is consistent and the blob fits the buffer.\<close>

theorem check_full_returns:
  assumes "mapped m fdt 40" "mapped m fdt (4 * ((h_totalsize m fdt + 3) div 4))"
    "0 < fdt" "fdt + h_totalsize m fdt \<le> 4294967296" "16 \<le> h_version m fdt"
  shows "\<exists>r. fdt_check_full m fdt bufsize = Some r \<and>
    (r = 0 \<longrightarrow> header_ok m fdt \<and> h_totalsize m fdt \<le> bufsize)"
  using assms by (rule fdt_check_full_total)

theorem check_full_returns_witness:
  "fdt_check_full demo_fdt_mem 4096 132 = Some 0 \<and> header_ok demo_fdt_mem 4096"
proof -
  have "fdt_check_full demo_fdt_mem 4096 132 = Some 0" by code_simp
  then show ?thesis
    using check_full_returns [of demo_fdt_mem 4096 132]
      mapped_sub [OF demo_fdt_mapped, of 4096 40] mapped_sub [OF demo_fdt_mapped, of 4096 132]
    by (simp add: demo_fdt_fields)
qed

text \<open>Before version 16 the name of a node goes through the kernel's \<open>strrchr\<close>, which never advances:
  for a node whose name starts with anything but a slash \<open>fdt_get_name\<close> does not return.\<close>

theorem old_get_name_hangs:
  assumes "blob m fdt" "h_version m fdt < 16" "node_at m fdt off"
    "fdt_ro_probe m fdt = Some t" "0 \<le> t"
    "m (fdt + h_off_struct m fdt + off + 4) = Some c" "c \<noteq> 0" "c \<noteq> 47"
  shows "fdt_get_name m fdt off = None"
  using assms by (rule fdt_get_name_None)

definition demo_old_mem :: mem where
  "demo_old_mem = demo_fdt_mem(4119 \<mapsto> 3, 4123 \<mapsto> 2)"

theorem old_get_name_hangs_witness: "fdt_get_name demo_old_mem 4096 24 = None"
proof -
  have f: "h_totalsize demo_old_mem 4096 = 132" "h_off_struct demo_old_mem 4096 = 56"
    "h_version demo_old_mem 4096 = 3" by code_simp+
  have dm: "mapped demo_old_mem 4096 144"
    using demo_fdt_mapped by (auto simp: mapped_def demo_old_mem_def)
  have b: "blob demo_old_mem 4096"
    unfolding blob_def f by (simp add: mapped_sub [OF dm])
  have "fdt_next_tag demo_old_mem 4096 24 = Some (FDT_BEGIN_NODE, 32)" by code_simp
  with fdt_next_tag_spec [OF b, of 24] have n: "node_at demo_old_mem 4096 24"
    by (simp add: node_at_def)
  have p: "fdt_ro_probe demo_old_mem 4096 = Some 132" by code_simp
  have c: "demo_old_mem 4180 = Some 98" by code_simp
  show ?thesis
    using old_get_name_hangs [OF b _ n p, of 98] c f by simp
qed

end
