(* ===== verification/Kernel.thy ===== *)
theory Kernel
  imports Bitmap Printf Fdt_Check
begin

text \<open>
  The state of the kernel and the way its code runs: memory, control and status registers, the
  console, the device registers and the static variables of \<^verbatim>\<open>src/\<close>; printing, assertions and
  panics (\<^verbatim>\<open>klibc/panic.h\<close>, \<^verbatim>\<open>klibc/k_assert.h\<close>), \<^verbatim>\<open>riscv/csr_operations.h\<close>, \<^verbatim>\<open>riscv/halt.c\<close>,
  \<^verbatim>\<open>drivers/power.c\<close> and \<^verbatim>\<open>drivers/uart.c\<close>.

  A computation takes the state and gives a result or a reason to stop, with the state at that
  point.  What the build and the machine decide is in an \<open>image\<close>: the addresses of literals, of the
  kernel image and of functions, the legalised value of a CSR write, and what a device register
  answers to the \<open>n\<close>-th volatile read.
\<close>

section \<open>State\<close>

datatype csr = Mstatus | Misa | Mie | Mip | Mideleg | Medeleg | Mepc | Mcause | Mtval | Mtvec
  | Mhartid | Satp | Scause | Sepc | Stval | Sstatus | Stvec | Pmpaddr0 | Pmpaddr1 | Pmpcfg0

record image =
  lit :: literals
  src_file :: "string \<Rightarrow> string"
  kernel_start :: int
  kernel_end :: int
  m_mode_handle_addr :: int
  s_mode_handle_addr :: int
  test_addr :: int
  csr_warl :: "csr \<Rightarrow> u32 \<Rightarrow> u32 \<Rightarrow> u32"
  device_read :: "nat \<Rightarrow> int \<Rightarrow> u32"

record ram_descriptor =
  physicaddr :: int
  space_size :: int

record riscv_timer =
  mtime :: int
  mtimecmp :: int

datatype power_fn = Syscon_shutdown | Syscon_reboot

text \<open>
  \<open>k_csr_log\<close> and \<open>k_mmio\<close> list the CSR writes and the volatile 32-bit stores in program order;
  \<open>k_console\<close> lists the bytes stored at the UART (\<open>uart_stores\<close> below); \<open>k_clock\<close> counts the volatile loads.
\<close>

record kernel =
  k_mem :: mem
  k_csr :: "csr \<Rightarrow> u32"
  k_csr_log :: "(csr \<times> u32) list"
  k_console :: string
  k_mmio :: "(int \<times> u32) list"
  k_clock :: nat
  ram_regions :: "ram_descriptor list"
  ram_regions_index :: nat
  physical_bitmap :: bitmap
  clint_addr :: int
  present_timer :: riscv_timer
  shutdown_fn :: "power_fn option"
  reboot_fn :: "power_fn option"

section \<open>Computations\<close>

type_synonym 'a kc = "kernel \<Rightarrow> 'a run \<times> kernel"

definition kret :: "'a \<Rightarrow> 'a kc" where
  "kret x k = (Inr x, k)"

definition kstop :: "stop \<Rightarrow> 'a kc" where
  "kstop e k = (Inl e, k)"

definition kbind :: "'a kc \<Rightarrow> ('a \<Rightarrow> 'b kc) \<Rightarrow> 'b kc" where
  "kbind c f k = (case c k of (Inl e, k) \<Rightarrow> (Inl e, k) | (Inr x, k) \<Rightarrow> f x k)"

primrec kdo :: "unit kc list \<Rightarrow> unit kc" where
  "kdo [] = kret ()"
| "kdo (c # cs) = kbind c (\<lambda>_. kdo cs)"

definition kthen :: "unit kc list \<Rightarrow> 'a kc \<Rightarrow> 'a kc" where
  "kthen cs c = kbind (kdo cs) (\<lambda>_. c)"

definition kget :: "(kernel \<Rightarrow> 'a) \<Rightarrow> 'a kc" where
  "kget f k = (Inr (f k), k)"

definition kmod :: "(kernel \<Rightarrow> kernel) \<Rightarrow> unit kc" where
  "kmod f k = (Inr (), f k)"

definition kwhen :: "bool \<Rightarrow> unit kc \<Rightarrow> unit kc" where
  "kwhen b c = (if b then c else kret ())"

text \<open>A read-only library call on the memory.\<close>

definition kread :: "(mem \<Rightarrow> 'a option) \<Rightarrow> 'a kc" where
  "kread f k = (lift_mem (f (k_mem k)), k)"

text \<open>Running the combinators.\<close>

lemma kret_run [simp]: "kret x k = (Inr x, k)"
  by (simp add: kret_def)

lemma kstop_run [simp]: "kstop e k = (Inl e, k)"
  by (simp add: kstop_def)

lemma kget_run [simp]: "kget f k = (Inr (f k), k)"
  by (simp add: kget_def)

lemma kmod_run [simp]: "kmod f k = (Inr (), f k)"
  by (simp add: kmod_def)

lemma kwhen_run [simp]: "kwhen b c k = (if b then c k else (Inr (), k))"
  by (simp add: kwhen_def)

lemma kbind_Inr [simp]: "c k = (Inr x, k') \<Longrightarrow> kbind c f k = f x k'"
  by (simp add: kbind_def)

lemma kbind_Inl [simp]: "c k = (Inl e, k') \<Longrightarrow> kbind c f k = (Inl e, k')"
  by (simp add: kbind_def)

lemma kread_Some [simp]: "f (k_mem k) = Some x \<Longrightarrow> kread f k = (Inr x, k)"
  by (simp add: kread_def)

lemma kdo_Cons_run: "kdo (c # cs) k = (case c k of (Inl e, k) \<Rightarrow> (Inl e, k) | (Inr _, k) \<Rightarrow> kdo cs k)"
  by (simp add: kbind_def split: prod.splits sum.splits)

lemma kbind_cases:
  assumes "kbind c f k = (r, k')"
  obtains (stop) e where "c k = (Inl e, k')" "r = Inl e"
    | (step) x k1 where "c k = (Inr x, k1)" "f x k1 = (r, k')"
  using assms by (auto simp: kbind_def split: prod.splits sum.splits)

section \<open>Registers and devices\<close>

definition READ_CSR :: "csr \<Rightarrow> u32 kc" where
  "READ_CSR c = kget (\<lambda>k. k_csr k c)"

definition WRITE_CSR :: "image \<Rightarrow> csr \<Rightarrow> u32 \<Rightarrow> unit kc" where
  "WRITE_CSR img c v = kmod (\<lambda>k. k\<lparr>k_csr := (k_csr k)(c := csr_warl img c (k_csr k c) v),
     k_csr_log := k_csr_log k @ [(c, v)]\<rparr>)"

definition mmio_write :: "int \<Rightarrow> u32 \<Rightarrow> unit kc" where
  "mmio_write a v = kmod (\<lambda>k. k\<lparr>k_mmio := k_mmio k @ [(a, v)]\<rparr>)"

definition mmio_read :: "image \<Rightarrow> int \<Rightarrow> u32 kc" where
  "mmio_read img a = kbind (kget k_clock) (\<lambda>n.
     kbind (kmod (\<lambda>k. k\<lparr>k_clock := Suc n\<rparr>)) (\<lambda>_. kret (device_read img n a)))"

text \<open>\<open>w\<close> bits of a register from bit \<open>p\<close> on, as the bit-field unions of the headers have them.\<close>

definition set_field :: "nat \<Rightarrow> nat \<Rightarrow> u32 \<Rightarrow> u32 \<Rightarrow> u32" where
  "set_field p w v x = (x AND NOT (push_bit p (mask w))) OR push_bit p (v AND mask w)"

lemma bit_set_field:
  "bit (set_field p w v x) n \<longleftrightarrow>
     (if p \<le> n \<and> n < p + w then n < 32 \<and> bit v (n - p) else bit x n)"
  using bit_imp_le_length [of x n]
  by (auto simp: set_field_def bit_simps)

section \<open>Console, assertions, panic, halt\<close>

definition k_printf :: "string \<Rightarrow> arg list \<Rightarrow> unit kc" where
  "k_printf fmt va k = (case Printf.printf fmt va (k_console k) of
     None \<Rightarrow> (Inl Fault, k) | Some (out, n) \<Rightarrow> (Inr (), k\<lparr>k_console := out\<rparr>))"

text \<open>\<open>_putchar\<close> stores its byte at \<open>uart_base[UART_RECEIVER_BUFF]\<close>, the one device register with byte stores.\<close>

definition uart_base :: int where "uart_base = 0x10000000"

definition uart_stores :: "kernel \<Rightarrow> (int \<times> u8) list" where
  "uart_stores k = map (\<lambda>c. (uart_base, word_of_int (of_char c))) (k_console k)"

definition k_putchar :: "char \<Rightarrow> unit kc" where
  "k_putchar c = kmod (\<lambda>k. k\<lparr>k_console := Printf.putchar c (k_console k)\<rparr>)"

definition uart_print :: "string \<Rightarrow> unit kc" where
  "uart_print str = kdo (map k_putchar str)"

definition uart_println :: "string \<Rightarrow> unit kc" where
  "uart_println str = kdo [uart_print str, k_putchar CHR 0x0A]"

definition disable_interrupts :: "image \<Rightarrow> unit kc" where
  "disable_interrupts img = kbind (READ_CSR Mstatus) (\<lambda>mstatus.
     WRITE_CSR img Mstatus (set_field 3 1 0 mstatus))"

text \<open>Interrupts stay off and the hart sleeps in \<open>wfi\<close> for ever.\<close>

definition halt :: "image \<Rightarrow> 'a kc" where
  "halt img = kbind (disable_interrupts img) (\<lambda>_. kstop Halted)"

definition KERNEL_PANIC :: "image \<Rightarrow> string \<Rightarrow> arg list \<Rightarrow> 'a kc" where
  "KERNEL_PANIC img fmt va = kthen
     [k_printf ''[PANIC] halting: '' [], k_printf fmt va, k_putchar CHR 0x0A] (halt img)"

text \<open>
  The stringified condition is part of the format, so a \<open>%\<close> in it is a directive.
\<close>

definition DEBUG_ASSERT ::
  "image \<Rightarrow> bool \<Rightarrow> string \<Rightarrow> string \<Rightarrow> string \<Rightarrow> u32 \<Rightarrow> unit kc" where
  "DEBUG_ASSERT img condition cond_text file func line = kwhen (\<not> condition) (kthen
     [k_printf (''-----------------------------------'' @ [CHR 0x0A]) [],
      k_printf (''[HALT] Assertion failed: '' @ cond_text @ '' evaluates to '' @ [CHR 0x27] @
        ''false'' @ [CHR 0x27, CHR 0x0A] @ ''at %s: in function %s, line %d'' @ [CHR 0x0A])
        [AStr (src_file img file), AStr func, AInt line]]
     (halt img))"

section \<open>Power control\<close>

abbreviation SYSCON_BASE :: int where "SYSCON_BASE \<equiv> 0x100000"
abbreviation SYSCON_SHUTDOWN :: u32 where "SYSCON_SHUTDOWN \<equiv> 0x5555"
abbreviation SYSCON_REBOOT :: u32 where "SYSCON_REBOOT \<equiv> 0x7777"

definition syscon_shutdown :: "u32 \<Rightarrow> unit kc" where
  "syscon_shutdown exit_code = mmio_write SYSCON_BASE (push_bit 16 exit_code OR SYSCON_SHUTDOWN)"

definition syscon_reboot :: "unit kc" where
  "syscon_reboot = mmio_write SYSCON_BASE SYSCON_REBOOT"

definition call_power :: "power_fn option \<Rightarrow> u32 \<Rightarrow> unit kc" where
  "call_power f x = (case f of None \<Rightarrow> kstop Fault
     | Some Syscon_shutdown \<Rightarrow> syscon_shutdown x | Some Syscon_reboot \<Rightarrow> syscon_reboot)"

text \<open>Calls through the function pointers, null until \<open>init_power_controller\<close> has run.\<close>

definition shutdown :: "u32 \<Rightarrow> unit kc" where
  "shutdown exit_code = kbind (kget shutdown_fn) (\<lambda>f. call_power f exit_code)"

definition reboot :: "unit kc" where
  "reboot = kbind (kget reboot_fn) (\<lambda>f. call_power f 0)"

definition init_power_controller :: "unit kc" where
  "init_power_controller =
     kmod (\<lambda>k. k\<lparr>shutdown_fn := Some Syscon_shutdown, reboot_fn := Some Syscon_reboot\<rparr>)"

section \<open>What the basic computations do\<close>

lemma k_printf_render:
  "render fmt va = Some cs \<Longrightarrow>
   k_printf fmt va k = (Inr (), k\<lparr>k_console := k_console k @ non_nul cs\<rparr>)"
  using console.vsnprintf_contents [of fmt va cs "k_console k" 4294967295]
  by (auto simp: k_printf_def Printf.printf_def)

lemma render_plain: "CHR ''%'' \<notin> set fmt \<Longrightarrow> render fmt va = Some fmt"
  by (induction fmt) auto

text \<open>A format without directives prints itself.\<close>

lemma k_printf_plain [simp]:
  "CHR ''%'' \<notin> set fmt \<Longrightarrow> CHR 0x00 \<notin> set fmt \<Longrightarrow>
   k_printf fmt va k = (Inr (), k\<lparr>k_console := k_console k @ fmt\<rparr>)"
proof -
  assume f: "CHR ''%'' \<notin> set fmt" "CHR 0x00 \<notin> set fmt"
  then have "non_nul fmt = fmt" by (intro filter_True) auto
  with k_printf_render [OF render_plain [OF f(1)]] show ?thesis by simp
qed

text \<open>Printing never touches more than the console; it faults when the arguments do not fit.\<close>

lemma k_printf_cases:
  obtains (ok) c where "k_printf fmt va k = (Inr (), k\<lparr>k_console := c\<rparr>)"
    | (bad) "k_printf fmt va k = (Inl Fault, k)"
  by (cases "Printf.printf fmt va (k_console k)") (auto simp: k_printf_def)

lemma k_putchar_run [simp]: "k_putchar c k = (Inr (), k\<lparr>k_console := k_console k @ [c]\<rparr>)"
  by (simp add: k_putchar_def Printf.putchar_def)

lemma k_putchar_stores:
  "uart_stores (snd (k_putchar c k)) = uart_stores k @ [(uart_base, word_of_int (of_char c))]"
  by (simp add: uart_stores_def)

lemma READ_CSR_run [simp]: "READ_CSR c k = (Inr (k_csr k c), k)"
  by (simp add: READ_CSR_def)

lemma WRITE_CSR_run [simp]:
  "WRITE_CSR img c v k = (Inr (), k\<lparr>k_csr := (k_csr k)(c := csr_warl img c (k_csr k c) v),
     k_csr_log := k_csr_log k @ [(c, v)]\<rparr>)"
  by (simp add: WRITE_CSR_def)

lemma mmio_write_run [simp]: "mmio_write a v k = (Inr (), k\<lparr>k_mmio := k_mmio k @ [(a, v)]\<rparr>)"
  by (simp add: mmio_write_def)

lemma mmio_read_run [simp]:
  "mmio_read img a k = (Inr (device_read img (k_clock k) a), k\<lparr>k_clock := Suc (k_clock k)\<rparr>)"
  by (simp add: mmio_read_def)

text \<open>The state in which \<open>halt\<close> leaves the hart.\<close>

definition halted :: "image \<Rightarrow> kernel \<Rightarrow> kernel" where
  "halted img k = (let v = set_field 3 1 0 (k_csr k Mstatus) in
     k\<lparr>k_csr := (k_csr k)(Mstatus := csr_warl img Mstatus (k_csr k Mstatus) v),
       k_csr_log := k_csr_log k @ [(Mstatus, v)]\<rparr>)"

lemma disable_interrupts_run [simp]: "disable_interrupts img k = (Inr (), halted img k)"
  by (simp add: disable_interrupts_def halted_def Let_def)

lemma halt_run [simp]: "halt img k = (Inl Halted, halted img k)"
  by (simp add: halt_def)

lemma halted_console [simp]:
  "halted img (k\<lparr>k_console := c\<rparr>) = (halted img k)\<lparr>k_console := c\<rparr>"
  "k_console (halted img k) = k_console k"
  by (simp_all add: halted_def Let_def)

lemma KERNEL_PANIC_halts:
  assumes "render fmt va = Some cs"
  shows "KERNEL_PANIC img fmt va k = (Inl Halted, (halted img k)\<lparr>k_console :=
    k_console k @ ''[PANIC] halting: '' @ non_nul cs @ [CHR 0x0A]\<rparr>)"
  by (simp add: KERNEL_PANIC_def kthen_def k_printf_render [OF assms])

lemma DEBUG_ASSERT_True [simp]: "DEBUG_ASSERT img True t f g l k = (Inr (), k)"
  by (simp add: DEBUG_ASSERT_def)

lemma DEBUG_ASSERT_False:
  "\<exists>e k'. DEBUG_ASSERT img False t f g l k = (Inl e, k') \<and> (e = Halted \<or> e = Fault)"
  by (auto simp: DEBUG_ASSERT_def kthen_def kbind_def k_printf_def split: prod.splits sum.splits option.splits)

lemma kthen_Nil [simp]: "kthen [] c = c"
  by (rule ext) (simp add: kthen_def)

lemma kthen_Inr [simp]: "a k = (Inr (), k') \<Longrightarrow> kthen (a # as) c k = kthen as c k'"
  by (simp add: kthen_def kbind_def)

lemma kthen_Inl [simp]: "a k = (Inl e, k') \<Longrightarrow> kthen (a # as) c k = (Inl e, k')"
  by (simp add: kthen_def)

lemma kdo_Nil_run [simp]: "kdo [] k = (Inr (), k)"
  by simp

lemma kdo_Inr [simp]: "a k = (Inr (), k') \<Longrightarrow> kdo (a # as) k = kdo as k'"
  by simp

lemma kdo_Inl [simp]: "a k = (Inl e, k') \<Longrightarrow> kdo (a # as) k = (Inl e, k')"
  by simp

declare kdo.simps(2) [simp del]

section \<open>Frames\<close>

text \<open>
  \<open>keeps f c\<close>: when \<open>c\<close> returns, \<open>f\<close> of the state is what it was.  The rules collected in
  \<open>keep_intros\<close> decide it by the shape of a computation.
\<close>

named_theorems keep_intros

definition keeps :: "(kernel \<Rightarrow> 'b) \<Rightarrow> 'a kc \<Rightarrow> bool" where
  "keeps f c \<longleftrightarrow> (\<forall>k x k'. c k = (Inr x, k') \<longrightarrow> f k' = f k)"

lemma keepsD: "keeps f c \<Longrightarrow> c k = (Inr x, k') \<Longrightarrow> f k' = f k"
  by (auto simp: keeps_def)

lemma keeps_basic [keep_intros]:
  "keeps f (kret x)" "keeps f (kstop e)" "keeps f (kget g)" "keeps f (kread h)"
  "keeps f (READ_CSR c)" "keeps f (halt img)"
  by (auto simp: keeps_def kread_def)

lemma keeps_kbind [keep_intros]:
  "keeps f c \<Longrightarrow> (\<And>x. keeps f (g x)) \<Longrightarrow> keeps f (kbind c g)"
  unfolding keeps_def by (auto elim!: kbind_cases)

lemma keeps_kdo_Nil [keep_intros]: "keeps f (kdo [])"
  by (simp add: keeps_def)

lemma keeps_kdo_Cons [keep_intros]: "keeps f c \<Longrightarrow> keeps f (kdo cs) \<Longrightarrow> keeps f (kdo (c # cs))"
  by (simp add: kdo.simps(2) keeps_kbind)

lemma keeps_kthen [keep_intros]: "keeps f (kdo cs) \<Longrightarrow> keeps f c \<Longrightarrow> keeps f (kthen cs c)"
  by (simp add: kthen_def keeps_kbind)

lemma keeps_kwhen [keep_intros]: "keeps f c \<Longrightarrow> keeps f (kwhen b c)"
  by (auto simp: keeps_def)

lemma keeps_if [keep_intros]: "keeps f c \<Longrightarrow> keeps f d \<Longrightarrow> keeps f (if b then c else d)"
  by simp

lemma keeps_kmod: "(\<And>k. f (g k) = f k) \<Longrightarrow> keeps f (kmod g)"
  by (auto simp: keeps_def)

lemma keeps_k_printf:
  assumes "\<And>k c. f (k\<lparr>k_console := c\<rparr>) = f k"
  shows "keeps f (k_printf fmt va)"
  unfolding keeps_def
proof (intro allI impI)
  fix k x k' assume a: "k_printf fmt va k = (Inr x, k')"
  show "f k' = f k"
    by (rule k_printf_cases [of fmt va k]) (use a assms in auto)
qed

text \<open>A panic never returns, and an assertion that returns has printed nothing.\<close>

lemma KERNEL_PANIC_stops: "KERNEL_PANIC img fmt va k \<noteq> (Inr x, k')"
  by (auto simp: KERNEL_PANIC_def kthen_def elim!: kbind_cases)

lemma keeps_KERNEL_PANIC [keep_intros]: "keeps f (KERNEL_PANIC img fmt va)"
  by (auto simp: keeps_def KERNEL_PANIC_stops)

lemma keeps_DEBUG_ASSERT [keep_intros]: "keeps f (DEBUG_ASSERT img b t fl g l)"
proof (cases b)
  case False
  have "DEBUG_ASSERT img False t fl g l k \<noteq> (Inr x, k')" for k x k'
    using DEBUG_ASSERT_False [of img t fl g l k] by auto
  with False show ?thesis by (auto simp: keeps_def)
qed (simp add: keeps_def)

lemma keeps_kdo_all: "(\<And>c. c \<in> set cs \<Longrightarrow> keeps f c) \<Longrightarrow> keeps f (kdo cs)"
  by (induction cs) (simp_all add: keep_intros)

text \<open>The CSR file and its log; memory; the region table.\<close>

abbreviation csrs :: "kernel \<Rightarrow> (csr \<Rightarrow> u32) \<times> (csr \<times> u32) list" where
  "csrs k \<equiv> (k_csr k, k_csr_log k)"

lemma keeps_print [keep_intros]:
  "keeps (\<lambda>k. (k_csr k, k_csr_log k)) (k_printf fmt va)"
  "keeps k_mem (k_printf fmt va)"
  "keeps (\<lambda>k. (ram_regions k, ram_regions_index k)) (k_printf fmt va)"
  by (rule keeps_k_printf; simp)+

section \<open>A machine for the witnesses\<close>

definition demo_image :: image where
  "demo_image = \<lparr>lit = (\<lambda>_. 0), src_file = (\<lambda>s. s), kernel_start = 0x80000000,
     kernel_end = 0x80010000, m_mode_handle_addr = 0x80000100, s_mode_handle_addr = 0x80000200,
     test_addr = 0x80000300, csr_warl = (\<lambda>_ _ v. v), device_read = (\<lambda>n a. 7)\<rparr>"

definition demo_kernel :: kernel where
  "demo_kernel = \<lparr>k_mem = Map.empty, k_csr = (\<lambda>_. 0)(Misa := 0x40141105, Mstatus := 0x1888),
     k_csr_log = [], k_console = [], k_mmio = [], k_clock = 0,
     ram_regions = replicate 16 \<lparr>physicaddr = 0, space_size = 0\<rparr>, ram_regions_index = 0,
     physical_bitmap = \<lparr>slots_size = 0, free_slots_count = 0, last_freed = 0, slots_ptr = 0\<rparr>,
     clint_addr = 0, present_timer = \<lparr>mtime = 0, mtimecmp = 0\<rparr>, shutdown_fn = None, reboot_fn = None\<rparr>"

end
