(* ===== verification/Interrupts.thy ===== *)
theory Interrupts
  imports Kernel
begin

text \<open>
  Traps and privilege: \<^verbatim>\<open>riscv/interrupts/interrupts.c\<close> and its headers,
  \<^verbatim>\<open>riscv/switch_to_supervisor.c\<close>, \<^verbatim>\<open>riscv/extension_check.c\<close> and the page-table entry layout of
  \<^verbatim>\<open>riscv/pmp/page_tables.h\<close>.  The unnamed and single-bit fields of \<open>union mstatus_32\<close> put
  \<open>machine_interrupt_enable\<close> at bit 3, \<open>machine_prev_interrupt_enable\<close> at bit 7 and
  \<open>machine_prev_privilege\<close> at bits 11 and 12.
\<close>

section \<open>Constants of the headers\<close>

abbreviation nl :: string where "nl \<equiv> [CHR 0x0A]"

abbreviation RISCV_PRIV_LVL_USER :: u32 where "RISCV_PRIV_LVL_USER \<equiv> 0"
abbreviation RISCV_PRIV_LVL_SUPERVISOR :: u32 where "RISCV_PRIV_LVL_SUPERVISOR \<equiv> 1"
abbreviation RISCV_PRIV_LVL_MACHINE :: u32 where "RISCV_PRIV_LVL_MACHINE \<equiv> 3"

datatype interrupt_source = INTSRC_MACHINE_SOFTWARE | INTSRC_MACHINE_TIMER | INTSRC_MACHINE_EXTERNAL
  | INTSRC_SUPERVISOR_SOFTWARE | INTSRC_SUPERVISOR_TIMER | INTSRC_SUPERVISOR_EXTERNAL
  | INTSRC_LOCAL_COUNTER_OVERFLOW

primrec intsrc_bit :: "interrupt_source \<Rightarrow> nat" where
  "intsrc_bit INTSRC_MACHINE_SOFTWARE = 3"
| "intsrc_bit INTSRC_MACHINE_TIMER = 7"
| "intsrc_bit INTSRC_MACHINE_EXTERNAL = 11"
| "intsrc_bit INTSRC_SUPERVISOR_SOFTWARE = 1"
| "intsrc_bit INTSRC_SUPERVISOR_TIMER = 5"
| "intsrc_bit INTSRC_SUPERVISOR_EXTERNAL = 9"
| "intsrc_bit INTSRC_LOCAL_COUNTER_OVERFLOW = 13"

definition intsrc :: "interrupt_source \<Rightarrow> u32" where
  "intsrc s = push_bit (intsrc_bit s) 1"

definition RISCV_ALL_INTR_SOURCES_ON :: u32 where
  "RISCV_ALL_INTR_SOURCES_ON =
     intsrc INTSRC_MACHINE_EXTERNAL OR intsrc INTSRC_MACHINE_TIMER OR
     intsrc INTSRC_MACHINE_SOFTWARE OR intsrc INTSRC_SUPERVISOR_EXTERNAL OR
     intsrc INTSRC_SUPERVISOR_SOFTWARE OR intsrc INTSRC_SUPERVISOR_SOFTWARE OR
     intsrc INTSRC_SUPERVISOR_TIMER"

text \<open>The exception numbers of \<open>mcause\<close>, from \<^verbatim>\<open>exception_codes.h\<close>.\<close>

datatype exception_code = MCAUSE_MISALIGNED_INSTRUCTION | MCAUSE_INSTRUCTION_ACCESS_FAULT
  | MCAUSE_ILLEGAL_INSTRUCTION | MCAUSE_BREAKPOINT | MCAUSE_MISALIGNED_LOAD
  | MCAUSE_LOAD_ACCESS_FAULT | MCAUSE_MISALIGNED_STORE | MCAUSE_STORE_ACCESS_FAULT
  | MCAUSE_ECALL_FROM_USER | MCAUSE_ECALL_FROM_SUPERVISOR | MCAUSE_ECALL_FROM_MACHINE
  | MCAUSE_INSTRUCTION_PAGE_FAULT | MCAUSE_LOAD_PAGE_FAULT | MCAUSE_STORE_PAGE_FAULT
  | MCAUSE_DOUBLE_TRAP | MCAUSE_SOFTWARE_CHECK | MCAUSE_HARDWARE_ERROR

primrec exception_no :: "exception_code \<Rightarrow> nat" where
  "exception_no MCAUSE_MISALIGNED_INSTRUCTION = 0"
| "exception_no MCAUSE_INSTRUCTION_ACCESS_FAULT = 1"
| "exception_no MCAUSE_ILLEGAL_INSTRUCTION = 2"
| "exception_no MCAUSE_BREAKPOINT = 3"
| "exception_no MCAUSE_MISALIGNED_LOAD = 4"
| "exception_no MCAUSE_LOAD_ACCESS_FAULT = 5"
| "exception_no MCAUSE_MISALIGNED_STORE = 6"
| "exception_no MCAUSE_STORE_ACCESS_FAULT = 7"
| "exception_no MCAUSE_ECALL_FROM_USER = 8"
| "exception_no MCAUSE_ECALL_FROM_SUPERVISOR = 9"
| "exception_no MCAUSE_ECALL_FROM_MACHINE = 11"
| "exception_no MCAUSE_INSTRUCTION_PAGE_FAULT = 12"
| "exception_no MCAUSE_LOAD_PAGE_FAULT = 13"
| "exception_no MCAUSE_STORE_PAGE_FAULT = 15"
| "exception_no MCAUSE_DOUBLE_TRAP = 16"
| "exception_no MCAUSE_SOFTWARE_CHECK = 18"
| "exception_no MCAUSE_HARDWARE_ERROR = 19"

section \<open>Interrupt control\<close>

definition enable_interrupts :: "image \<Rightarrow> unit kc" where
  "enable_interrupts img = kbind (READ_CSR Mstatus) (\<lambda>mstatus.
     kdo [WRITE_CSR img Mip 0, WRITE_CSR img Mstatus (set_field 3 1 1 mstatus)])"

definition print_reg :: "string \<Rightarrow> u32 \<Rightarrow> unit kc" where
  "print_reg label v = k_printf (label @ ''= 0x%x'' @ nl) [AInt v]"

definition m_mode_handle :: "unit kc" where
  "m_mode_handle =
     kbind (READ_CSR Mcause) (\<lambda>cause. kbind (READ_CSR Mepc) (\<lambda>epc.
     kbind (READ_CSR Mtval) (\<lambda>tval. kbind (READ_CSR Mstatus) (\<lambda>status.
     kbind (READ_CSR Satp) (\<lambda>satp. kdo
       [k_printf (nl @ ''========== TRAP =========='' @ nl) [],
        print_reg ''mcause '' cause, print_reg ''mepc   '' epc, print_reg ''mtval  '' tval,
        print_reg ''mstatus'' status, print_reg ''satp   '' satp,
        kbind (READ_CSR Mtvec) (print_reg ''mtvec  ''),
        k_printf (''=========================='' @ nl) [],
        shutdown 1])))))"

definition s_mode_handle :: "unit kc" where
  "s_mode_handle =
     kbind (READ_CSR Scause) (\<lambda>cause. kbind (READ_CSR Sepc) (\<lambda>epc.
     kbind (READ_CSR Stval) (\<lambda>tval. kbind (READ_CSR Sstatus) (\<lambda>status.
     kbind (READ_CSR Satp) (\<lambda>satp. kthen
       [k_printf (nl @ ''========== SUPERVISOR MODE TRAP =========='' @ nl) [],
        print_reg ''scause '' cause, print_reg ''sepc   '' epc, print_reg ''stval  '' tval,
        print_reg ''sstatus'' status, print_reg ''satp   '' satp,
        kbind (READ_CSR Stvec) (print_reg ''stvec  ''),
        k_printf (''============================================'' @ nl) [],
        shutdown 1]
       (kstop Unreachable))))))"

definition setup_interrupt_handler :: "image \<Rightarrow> unit kc" where
  "setup_interrupt_handler img = kdo
     [WRITE_CSR img Mideleg 0, WRITE_CSR img Medeleg 0,
      DEBUG_ASSERT img (m_mode_handle_addr img mod 4 = 0) ''(uintptr_t)&m_mode_handle % 4 == 0''
        ''riscv/interrupts/interrupts.c'' ''setup_interrupt_handler'' 82,
      WRITE_CSR img Mie 0, WRITE_CSR img Mip 0,
      k_printf (''[OK] Enabled all interrupts'' @ nl) []]"

section \<open>Entering S-mode\<close>

text \<open>\<open>mret\<close> ends the computation; where it goes is in \<open>mepc\<close> and \<open>mstatus\<close>.\<close>

definition supervisor_mstatus :: "u32 \<Rightarrow> u32" where
  "supervisor_mstatus x =
     set_field 3 1 0 (set_field 7 1 0 (set_field 11 2 RISCV_PRIV_LVL_SUPERVISOR x))"

definition riscv_switch_to_supervisor :: "image \<Rightarrow> int \<Rightarrow> unit kc" where
  "riscv_switch_to_supervisor img jump_addr = kbind (READ_CSR Mstatus) (\<lambda>mstatus. kthen
     [WRITE_CSR img Pmpaddr0 WORD_MAX, WRITE_CSR img Pmpaddr1 WORD_MAX,
      WRITE_CSR img Pmpcfg0 0x0f, WRITE_CSR img Satp 0,
      WRITE_CSR img Stvec (word_of_int (s_mode_handle_addr img)),
      WRITE_CSR img Mstatus (supervisor_mstatus mstatus),
      WRITE_CSR img Mepc (word_of_int jump_addr),
      WRITE_CSR img Medeleg RISCV_ALL_INTR_SOURCES_ON,
      WRITE_CSR img Mideleg RISCV_ALL_INTR_SOURCES_ON]
     (kstop Left_M_Mode))"

section \<open>Extension check\<close>

datatype riscv_extension = RISCV_EXT_ATOMIC | RISCV_EXT_BIT_MANIPULATION | RISCV_EXT_COMPRESSED
  | RISCV_EXT_DOUBLE | RISCV_EXT_LESS_REGS | RISCV_EXT_FLOAT | RISCV_EXT_MUL_DIV | RISCV_EXT_QUAD
  | RISCV_EXT_SUPERVISOR_MODE | RISCV_EXT_USER_MODE | RISCV_EXT_VECTOR | RISCV_EXT_NON_STANDARD

primrec ext_bit :: "riscv_extension \<Rightarrow> nat" where
  "ext_bit RISCV_EXT_ATOMIC = 0" | "ext_bit RISCV_EXT_BIT_MANIPULATION = 1"
| "ext_bit RISCV_EXT_COMPRESSED = 2" | "ext_bit RISCV_EXT_DOUBLE = 3"
| "ext_bit RISCV_EXT_LESS_REGS = 4" | "ext_bit RISCV_EXT_FLOAT = 5"
| "ext_bit RISCV_EXT_MUL_DIV = 12" | "ext_bit RISCV_EXT_QUAD = 16"
| "ext_bit RISCV_EXT_SUPERVISOR_MODE = 18" | "ext_bit RISCV_EXT_USER_MODE = 20"
| "ext_bit RISCV_EXT_VECTOR = 21" | "ext_bit RISCV_EXT_NON_STANDARD = 23"

definition ext_mask :: "riscv_extension \<Rightarrow> u32" where
  "ext_mask e = push_bit (ext_bit e) 1"

definition is_extension_implemented :: "riscv_extension \<Rightarrow> bool kc" where
  "is_extension_implemented ext =
     kbind (READ_CSR Misa) (\<lambda>misa. kret (misa AND ext_mask ext \<noteq> 0))"

definition ensure_extensions_present :: "image \<Rightarrow> u32 \<Rightarrow> unit kc" where
  "ensure_extensions_present img requested_extensions = kbind (READ_CSR Misa) (\<lambda>misa. kthen
     [kwhen (misa AND requested_extensions \<noteq> requested_extensions)
        (KERNEL_PANIC img ''a required extension is not implemented'' [])]
     (k_printf (''[OK] All needed extensions present'' @ nl) []))"

section \<open>Page table entries\<close>

text \<open>The fields of \<open>union rv32_page_table_entry\<close>, in order, as (first bit, width).\<close>

record rv32_page_table_entry =
  present :: bool
  readable :: bool
  writable :: bool
  executable :: bool
  user_accessible :: bool
  global :: bool
  accessed :: bool
  dirty :: bool
  reserved_for_kernel :: u32
  physical_page_number_1 :: u32
  physical_page_number_2 :: u32

definition flag_word :: "nat \<Rightarrow> bool \<Rightarrow> u32" where
  "flag_word n b = (if b then push_bit n 1 else 0)"

definition pte_raw :: "rv32_page_table_entry \<Rightarrow> u32" where
  "pte_raw e = set_field 20 12 (physical_page_number_2 e) (set_field 10 10 (physical_page_number_1 e)
     (set_field 8 2 (reserved_for_kernel e)
       (flag_word 0 (present e) OR flag_word 1 (readable e) OR flag_word 2 (writable e) OR
        flag_word 3 (executable e) OR flag_word 4 (user_accessible e) OR flag_word 5 (global e) OR
        flag_word 6 (accessed e) OR flag_word 7 (dirty e))))"

definition get_field :: "nat \<Rightarrow> nat \<Rightarrow> u32 \<Rightarrow> u32" where
  "get_field p w x = drop_bit p x AND mask w"

definition pte_of_raw :: "u32 \<Rightarrow> rv32_page_table_entry" where
  "pte_of_raw x = \<lparr>present = bit x 0, readable = bit x 1, writable = bit x 2, executable = bit x 3,
     user_accessible = bit x 4, global = bit x 5, accessed = bit x 6, dirty = bit x 7,
     reserved_for_kernel = get_field 8 2 x, physical_page_number_1 = get_field 10 10 x,
     physical_page_number_2 = get_field 20 12 x\<rparr>"

section \<open>Properties\<close>

lemma enable_interrupts_run:
  "enable_interrupts img k = (Inr (), k\<lparr>
     k_csr := (k_csr k)(Mip := csr_warl img Mip (k_csr k Mip) 0,
       Mstatus := csr_warl img Mstatus (k_csr k Mstatus) (set_field 3 1 1 (k_csr k Mstatus))),
     k_csr_log := k_csr_log k @ [(Mip, 0), (Mstatus, set_field 3 1 1 (k_csr k Mstatus))]\<rparr>)"
  by (simp add: enable_interrupts_def)

text \<open>\<open>disable_interrupts\<close> writes \<open>mstatus\<close> once, with the MIE bit clear, and \<open>enable_interrupts\<close>
  acknowledges \<open>mip\<close> and then writes \<open>mstatus\<close> with the MIE bit set; every other bit is written back
  as it was read.\<close>

theorem interrupt_enable_bit:
  "\<exists>off on. k_csr_log (snd (disable_interrupts img k)) = k_csr_log k @ [(Mstatus, off)] \<and>
     k_csr_log (snd (enable_interrupts img k)) = k_csr_log k @ [(Mip, 0), (Mstatus, on)] \<and>
     (\<forall>n. bit off n = (n \<noteq> 3 \<and> bit (k_csr k Mstatus) n)) \<and>
     (\<forall>n. bit on n = (n = 3 \<or> bit (k_csr k Mstatus) n))"
proof (intro exI conjI allI)
  show "k_csr_log (snd (disable_interrupts img k)) =
      k_csr_log k @ [(Mstatus, set_field 3 1 0 (k_csr k Mstatus))]"
    by (simp add: halted_def Let_def)
  show "k_csr_log (snd (enable_interrupts img k)) =
      k_csr_log k @ [(Mip, 0), (Mstatus, set_field 3 1 1 (k_csr k Mstatus))]"
    by (simp add: enable_interrupts_run)
qed (auto simp: bit_set_field le_less_Suc_eq numeral_3_eq_3 less_Suc_eq)

text \<open>\<open>setup_interrupt_handler\<close> clears both delegation registers and then \<open>mie\<close> and \<open>mip\<close>, and
  nothing else: \<open>mtvec\<close> is never written and no interrupt source is switched on, although it prints
  that all interrupts are enabled.\<close>

theorem setup_interrupt_handler_effect:
  assumes "m_mode_handle_addr img mod 4 = 0"
  shows "\<exists>k'. setup_interrupt_handler img k = (Inr (), k') \<and>
    k_csr_log k' = k_csr_log k @ [(Mideleg, 0), (Medeleg, 0), (Mie, 0), (Mip, 0)] \<and>
    k_csr k' Mtvec = k_csr k Mtvec \<and>
    k_console k' = k_console k @ ''[OK] Enabled all interrupts'' @ nl"
  using assms by (simp add: setup_interrupt_handler_def)

theorem setup_interrupt_handler_witness:
  "\<exists>k'. setup_interrupt_handler demo_image demo_kernel = (Inr (), k') \<and>
    k_csr_log k' = k_csr_log demo_kernel @ [(Mideleg, 0), (Medeleg, 0), (Mie, 0), (Mip, 0)] \<and>
    k_csr k' Mtvec = k_csr demo_kernel Mtvec \<and>
    k_console k' = k_console demo_kernel @ ''[OK] Enabled all interrupts'' @ nl"
  by (rule setup_interrupt_handler_effect) (simp add: demo_image_def)

lemma bit_supervisor_mstatus:
  "bit (supervisor_mstatus x) n =
     (if n = 11 then True else if n \<in> {3, 7, 12} then False else bit x n)"
proof -
  have "n = 11 \<or> n = 12 \<longleftrightarrow> 11 \<le> n \<and> n < 13" by auto
  moreover have "n = 3 \<longleftrightarrow> 3 \<le> n \<and> n < 4" "n = 7 \<longleftrightarrow> 7 \<le> n \<and> n < 8" by auto
  ultimately show ?thesis
    by (auto simp: supervisor_mstatus_def bit_set_field)
qed

lemma bit_push_1: "bit (push_bit n 1 :: u32) b \<longleftrightarrow> b = n \<and> n < 32"
  by (auto simp: bit_simps)

lemma bit_all_sources: "bit RISCV_ALL_INTR_SOURCES_ON n \<longleftrightarrow> n \<in> {1, 3, 5, 7, 9, 11}"
  unfolding RISCV_ALL_INTR_SOURCES_ON_def intsrc_def intsrc_bit.simps bit_or_iff bit_push_1
  by auto

text \<open>C22: \<open>riscv_switch_to_supervisor\<close> always leaves M-mode, after exactly nine CSR writes in this
  order; the \<open>mstatus\<close> it writes has MPP = S, MPIE and MIE clear and all other bits as before; the
  mask it writes to both delegation registers is the one of the interrupt sources, so that of the
  exceptions only codes 1, 3, 5, 7, 9 and 11 are delegated and an illegal instruction is not.\<close>

theorem switch_to_supervisor_effect:
  "\<exists>k' ms. riscv_switch_to_supervisor img jump k = (Inl Left_M_Mode, k') \<and>
     k_csr_log k' = k_csr_log k @
       [(Pmpaddr0, - 1), (Pmpaddr1, - 1), (Pmpcfg0, 15), (Satp, 0),
        (Stvec, word_of_int (s_mode_handle_addr img)), (Mstatus, ms), (Mepc, word_of_int jump),
        (Medeleg, RISCV_ALL_INTR_SOURCES_ON), (Mideleg, RISCV_ALL_INTR_SOURCES_ON)] \<and>
     (\<forall>n. bit ms n = (if n = 11 then True else if n \<in> {3, 7, 12} then False
                      else bit (k_csr k Mstatus) n)) \<and>
     (\<forall>n. bit RISCV_ALL_INTR_SOURCES_ON n = (n \<in> {1, 3, 5, 7, 9, 11})) \<and>
     \<not> bit RISCV_ALL_INTR_SOURCES_ON (exception_no MCAUSE_ILLEGAL_INSTRUCTION)"
proof -
  let ?ms = "supervisor_mstatus (k_csr k Mstatus)"
  have "\<exists>k'. riscv_switch_to_supervisor img jump k = (Inl Left_M_Mode, k') \<and>
     k_csr_log k' = k_csr_log k @
       [(Pmpaddr0, - 1), (Pmpaddr1, - 1), (Pmpcfg0, 15), (Satp, 0),
        (Stvec, word_of_int (s_mode_handle_addr img)), (Mstatus, ?ms), (Mepc, word_of_int jump),
        (Medeleg, RISCV_ALL_INTR_SOURCES_ON), (Mideleg, RISCV_ALL_INTR_SOURCES_ON)]"
    by (simp add: riscv_switch_to_supervisor_def)
  then obtain k' where "riscv_switch_to_supervisor img jump k = (Inl Left_M_Mode, k')"
    "k_csr_log k' = k_csr_log k @
       [(Pmpaddr0, - 1), (Pmpaddr1, - 1), (Pmpcfg0, 15), (Satp, 0),
        (Stvec, word_of_int (s_mode_handle_addr img)), (Mstatus, ?ms), (Mepc, word_of_int jump),
        (Medeleg, RISCV_ALL_INTR_SOURCES_ON), (Mideleg, RISCV_ALL_INTR_SOURCES_ON)]" by blast
  then show ?thesis
    by (intro exI [of _ k'] exI [of _ ?ms] conjI allI)
       (simp_all add: bit_supervisor_mstatus bit_all_sources)
qed

text \<open>\<open>ensure_extensions_present\<close> returns exactly when \<open>misa\<close> has every requested bit, and
  otherwise halts with interrupts off.\<close>

theorem ensure_extensions_iff:
  "\<exists>c d. ensure_extensions_present img req k =
     (if \<forall>n < 32. bit req n \<longrightarrow> bit (k_csr k Misa) n
      then (Inr (), k\<lparr>k_console := c\<rparr>) else (Inl Halted, (halted img k)\<lparr>k_console := d\<rparr>))"
proof -
  have iff: "k_csr k Misa AND req = req \<longleftrightarrow> (\<forall>n < 32. bit req n \<longrightarrow> bit (k_csr k Misa) n)"
    by (auto simp: bit_eq_iff bit_simps)
  have panic: "KERNEL_PANIC img ''a required extension is not implemented'' [] k =
      (Inl Halted, (halted img k)\<lparr>k_console := k_console k @ ''[PANIC] halting: '' @
        ''a required extension is not implemented'' @ [CHR 0x0A]\<rparr>)"
    by (subst KERNEL_PANIC_halts [OF render_plain]) simp_all
  show ?thesis
    unfolding iff [symmetric]
    by (cases "k_csr k Misa AND req = req") (auto simp: ensure_extensions_present_def panic)
qed

theorem ensure_extensions_witness:
  "\<exists>c d. ensure_extensions_present demo_image 0x141000 demo_kernel =
     (if \<forall>n < 32. bit (0x141000 :: u32) n \<longrightarrow> bit (k_csr demo_kernel Misa) n
      then (Inr (), demo_kernel\<lparr>k_console := c\<rparr>)
      else (Inl Halted, (halted demo_image demo_kernel)\<lparr>k_console := d\<rparr>))"
  by (rule ensure_extensions_iff)

text \<open>Page table entries: the layout is a bijection between entries with fields in range and words.\<close>

definition pte_fields_ok :: "rv32_page_table_entry \<Rightarrow> bool" where
  "pte_fields_ok e \<longleftrightarrow> reserved_for_kernel e AND mask 2 = reserved_for_kernel e \<and>
     physical_page_number_1 e AND mask 10 = physical_page_number_1 e \<and>
     physical_page_number_2 e AND mask 12 = physical_page_number_2 e"

lemma bit_flag_word: "bit (flag_word n b) m \<longleftrightarrow> b \<and> m = n \<and> n < 32"
  by (auto simp: flag_word_def bit_push_1 bit_simps)

lemma bit_pte_raw:
  "bit (pte_raw e) n \<longleftrightarrow> n < 32 \<and>
     (if n < 8 then [present e, readable e, writable e, executable e, user_accessible e, global e,
        accessed e, dirty e] ! n
      else if n < 10 then bit (reserved_for_kernel e) (n - 8)
      else if n < 20 then bit (physical_page_number_1 e) (n - 10)
      else bit (physical_page_number_2 e) (n - 20))"
proof -
  consider "n = 0" | "n = 1" | "n = 2" | "n = 3" | "n = 4" | "n = 5" | "n = 6" | "n = 7" | "8 \<le> n"
    by linarith
  then show ?thesis
    by cases (auto simp: pte_raw_def bit_set_field bit_or_iff bit_flag_word)
qed

lemma bit_get_field: "bit (get_field p w x) n \<longleftrightarrow> n < w \<and> bit x (p + n)"
  using bit_imp_le_length [of x "p + n"] by (auto simp: get_field_def bit_simps)

lemma pte_of_raw_pte_raw:
  assumes "pte_fields_ok e"
  shows "pte_of_raw (pte_raw e) = e"
proof -
  have low: "get_field 8 2 (pte_raw e) = reserved_for_kernel e AND mask 2"
    "get_field 10 10 (pte_raw e) = physical_page_number_1 e AND mask 10"
    "get_field 20 12 (pte_raw e) = physical_page_number_2 e AND mask 12"
    by (rule bit_word_eqI; auto simp: bit_get_field bit_pte_raw bit_simps)+
  show ?thesis
    using assms by (intro rv32_page_table_entry.equality)
      (simp_all add: pte_of_raw_def low pte_fields_ok_def bit_pte_raw)
qed

lemma pte_raw_pte_of_raw: "pte_raw (pte_of_raw x) = x"
proof (rule bit_word_eqI)
  fix n assume "n < LENGTH(32)"
  then have "n < 32" by simp
  consider "n = 0" | "n = 1" | "n = 2" | "n = 3" | "n = 4" | "n = 5" | "n = 6" | "n = 7" | "8 \<le> n"
    by linarith
  then show "bit (pte_raw (pte_of_raw x)) n = bit x n"
    using \<open>n < 32\<close> by cases (auto simp: bit_pte_raw pte_of_raw_def bit_get_field)
qed

text \<open>the page-table entry layout loses nothing: entries whose multi-bit fields are in range and
  32-bit words are in bijection.\<close>

theorem pte_round_trip:
  assumes "pte_fields_ok e"
  shows "pte_of_raw (pte_raw e) = e \<and> pte_raw (pte_of_raw x) = x"
  using pte_of_raw_pte_raw [OF assms] pte_raw_pte_of_raw [of x] by simp

definition demo_pte :: rv32_page_table_entry where
  "demo_pte = \<lparr>present = True, readable = True, writable = False, executable = True,
     user_accessible = False, global = False, accessed = True, dirty = False,
     reserved_for_kernel = 2, physical_page_number_1 = 513, physical_page_number_2 = 2048\<rparr>"

theorem pte_round_trip_witness: "pte_of_raw (pte_raw demo_pte) = demo_pte \<and> pte_raw (pte_of_raw 0x8068084B) = 0x8068084B"
  by (rule pte_round_trip) code_simp

end
