(* ===== verification/Devices.thy ===== *)
theory Devices
  imports Interrupts
begin

text \<open>
  What the kernel reads from the device tree: \<^verbatim>\<open>src/init_devices.c\<close> (checking the tree, \<open>reg\<close>
  properties), \<^verbatim>\<open>mem/memory.c\<close> (RAM regions), \<^verbatim>\<open>riscv/clint/clint.c\<close> and the timer of
  \<^verbatim>\<open>riscv/timer.c\<close>, with \<open>init_interrupt_controller\<close> of \<^verbatim>\<open>riscv/interrupts/interrupts.c\<close>.
\<close>

abbreviation u32_arg :: "int \<Rightarrow> arg" where "u32_arg x \<equiv> AInt (word_of_int x)"

section \<open>Checking the tree\<close>

definition check_device_tree :: "image \<Rightarrow> int \<Rightarrow> unit kc" where
  "check_device_tree img devtree = kthen
     [kwhen (devtree = 0) (KERNEL_PANIC img ''Device tree was not passed.'' [])]
     (kbind (kread (\<lambda>m. fdt_check_header m devtree)) (\<lambda>devicetree_passed. kthen
       [kwhen (devicetree_passed \<noteq> 0)
          (KERNEL_PANIC img (''[FATAL] No device tree was passed: %s '' @ nl)
             [AStr (fdt_strerror devicetree_passed)])]
       (kbind (kread (\<lambda>m. do { n \<leftarrow> fdt_totalsize m devtree; fdt_check_full m devtree n }))
          (\<lambda>invalid_fdt. kdo
            [kwhen (invalid_fdt \<noteq> 0)
               (KERNEL_PANIC img (''[FATAL] Device tree turned out to be invalid: %s'' @ nl)
                  [AStr (fdt_strerror invalid_fdt)]),
             k_printf (''[OK] Device tree verified'' @ nl) []]))))"

section \<open>The reg property\<close>

abbreviation SUCCESS :: int where "SUCCESS \<equiv> 0"
abbreviation CALL_AGAIN :: int where "CALL_AGAIN \<equiv> 4"

text \<open>Cells above the lowest must be zero; then the lowest cell is byte-swapped.\<close>

fun fetch_lowest_loop :: "mem \<Rightarrow> int \<Rightarrow> nat \<Rightarrow> int option" where
  "fetch_lowest_loop m cell_ptr cells_count =
     (if cells_count > 1 then do {
        c \<leftarrow> load32 m cell_ptr;
        if c \<noteq> 0 then Some UINT32_MAX else fetch_lowest_loop m (cell_ptr + 4) (cells_count - 1) }
      else do { c \<leftarrow> load32 m cell_ptr; Some (uint (fdt32_to_cpu c)) })"

declare fetch_lowest_loop.simps [simp del]

definition fetch_lowest :: "mem \<Rightarrow> int \<Rightarrow> int \<Rightarrow> int option" where
  "fetch_lowest m cell_ptr cells_count =
     (if 4 \<ge> to_u32 (cells_count * 4) then do { c \<leftarrow> load32 m cell_ptr; Some (uint c) }
      else fetch_lowest_loop m cell_ptr (nat cells_count))"

text \<open>
  The result code, \<open>*begin_addr_buf\<close> and \<open>*size_buf\<close>; \<open>None\<close> is a buffer that was not written.
\<close>

definition parse_reg :: "mem \<Rightarrow> image \<Rightarrow> int \<Rightarrow> int \<Rightarrow> (int \<times> int option \<times> int option) option" where
  "parse_reg m img tree node = do {
     (reg, len) \<leftarrow> fdt_getprop m tree node (lit img ''reg'');
     if len < 0 then Some (len, None, None) else do {
     parent \<leftarrow> fdt_parent_offset m tree node;
     if parent < 0 then Some (parent, None, None) else do {
     address_cells \<leftarrow> fdt_address_cells m (lit img) tree parent;
     if address_cells < 0 then Some (address_cells, None, None) else do {
     begin_addr \<leftarrow> fetch_lowest m reg address_cells;
     let reg = reg + 4 * address_cells in do {
     size_cells \<leftarrow> fdt_size_cells m (lit img) tree parent;
     if size_cells < 0 then Some (size_cells, Some begin_addr, None) else do {
     sz \<leftarrow> fetch_lowest m reg size_cells;
     Some (if to_u32 len > to_u32 (4 * (address_cells + size_cells)) then CALL_AGAIN else SUCCESS,
           Some begin_addr, Some sz) } } } } } }"

section \<open>RAM regions\<close>

abbreviation MAX_MEM_REGIONS :: nat where "MAX_MEM_REGIONS \<equiv> 16"

definition put_region :: "nat \<Rightarrow> int option \<Rightarrow> int option \<Rightarrow> kernel \<Rightarrow> kernel" where
  "put_region i a s k = (let r = ram_regions k ! i;
       r = (case a of Some a \<Rightarrow> r\<lparr>physicaddr := a\<rparr> | None \<Rightarrow> r);
       r = (case s of Some s \<Rightarrow> r\<lparr>space_size := s\<rparr> | None \<Rightarrow> r)
     in k\<lparr>ram_regions := (ram_regions k)[i := r]\<rparr>)"

definition extract_ram_region_info :: "image \<Rightarrow> int \<Rightarrow> int \<Rightarrow> int kc" where
  "extract_ram_region_info img device_tree node_offset = kbind (kget ram_regions_index) (\<lambda>i.
     if i \<ge> MAX_MEM_REGIONS then kret (-1)
     else kbind (kmod (\<lambda>k. k\<lparr>ram_regions_index := Suc i\<rparr>)) (\<lambda>_.
       kbind (kread (\<lambda>m. parse_reg m img device_tree node_offset)) (\<lambda>(res, a, s).
       kbind (kmod (put_region i a s)) (\<lambda>_.
       kbind (kget (\<lambda>k. space_size (ram_regions k ! i))) (\<lambda>sz.
       kthen [DEBUG_ASSERT img (sz \<noteq> 0) ''buf->space_size != 0'' ''mem/memory.c''
                ''extract_ram_region_info'' 41]
         (kret res))))))"

definition total_memory_regions :: "nat kc" where
  "total_memory_regions = kget ram_regions_index"

definition pmm_get_region :: "image \<Rightarrow> nat \<Rightarrow> ram_descriptor kc" where
  "pmm_get_region img index = kbind (kget ram_regions_index) (\<lambda>n. kthen
     [DEBUG_ASSERT img (index < n) ''index < ram_regions_index'' ''mem/memory.c'' ''pmm_get_region'' 72]
     (kget (\<lambda>k. ram_regions k ! index)))"

definition region_line :: "nat \<Rightarrow> ram_descriptor \<Rightarrow> unit kc" where
  "region_line i r = k_printf
     (''RAM region %i: address range [0x%x, 0x%x], size = %i B'' @ nl)
     [u32_arg (int i), u32_arg (physicaddr r), u32_arg (physicaddr r + space_size r),
      u32_arg (space_size r)]"

definition log_detected_memory :: "unit kc" where
  "log_detected_memory = (let breaker = ''==========================='' @ nl in
     kbind (kget (\<lambda>k. take (ram_regions_index k) (ram_regions k))) (\<lambda>rs. kdo
       ([k_printf breaker [], k_printf (''detected RAM:'' @ nl) []] @
        map (\<lambda>i. region_line i (rs ! i)) [0 ..< length rs] @ [k_printf breaker []])))"

definition get_total_mem :: "int kc" where
  "get_total_mem = kget (\<lambda>k.
     foldl (\<lambda>counter r. to_u32 (counter + space_size r)) 0 (take (ram_regions_index k) (ram_regions k)))"

text \<open>Every round of the loop uses up one region descriptor.\<close>

definition next_memory_node :: "image \<Rightarrow> int \<Rightarrow> int \<Rightarrow> int kc" where
  "next_memory_node img tree offset = kread (\<lambda>m.
     fdt_node_offset_by_prop_value m tree offset (lit img ''device_type'') (lit img ''memory'') 7)"

lemma DEBUG_ASSERT_run:
  "DEBUG_ASSERT img b t f g l k = (r, k') \<Longrightarrow> (b \<and> r = Inr () \<and> k' = k) \<or> (\<not> b \<and> (\<exists>e. r = Inl e))"
  by (cases b) (auto simp: DEBUG_ASSERT_def kthen_def halt_def kbind_def split: prod.splits sum.splits)

lemma extract_spec:
  assumes "extract_ram_region_info img t n k = (Inr r, k')"
  shows "(MAX_MEM_REGIONS \<le> ram_regions_index k \<and> r = -1 \<and> k' = k) \<or>
    (ram_regions_index k < MAX_MEM_REGIONS \<and>
      (\<exists>a s. parse_reg (k_mem k) img t n = Some (r, a, s) \<and>
         k' = put_region (ram_regions_index k) a s (k\<lparr>ram_regions_index := Suc (ram_regions_index k)\<rparr>) \<and>
         space_size (ram_regions k' ! ram_regions_index k) \<noteq> 0))"
  using assms
  by (auto simp: extract_ram_region_info_def kthen_def kdo.simps kbind_def kread_def lift_mem_def
      split: if_splits prod.splits sum.splits option.splits dest!: DEBUG_ASSERT_run)

lemma put_region_simps [simp]:
  "ram_regions_index (put_region i a s k) = ram_regions_index k"
  "k_mem (put_region i a s k) = k_mem k"
  "k_csr (put_region i a s k) = k_csr k"
  "k_csr_log (put_region i a s k) = k_csr_log k"
  "length (ram_regions (put_region i a s k)) = length (ram_regions k)"
  "j \<noteq> i \<Longrightarrow> ram_regions (put_region i a s k) ! j = ram_regions k ! j"
  by (simp_all add: put_region_def Let_def)

lemma extract_index:
  assumes "extract_ram_region_info img t n k = (Inr r, k')" "r \<noteq> -1"
  shows "ram_regions_index k' = Suc (ram_regions_index k) \<and> ram_regions_index k < MAX_MEM_REGIONS"
  using extract_spec [OF assms(1)] assms(2) by auto

lemma next_memory_node_state: "next_memory_node img t o' k = (r, k') \<Longrightarrow> k' = k"
  by (auto simp: next_memory_node_def kread_def)

function detect_memory_loop :: "image \<Rightarrow> int \<Rightarrow> int \<Rightarrow> int kc" where
  "detect_memory_loop img tree mem_node_offset k =
     (if mem_node_offset \<ge> 0 then
        (case extract_ram_region_info img tree mem_node_offset k of
           (Inl e, k) \<Rightarrow> (Inl e, k)
         | (Inr r, k) \<Rightarrow>
             if r = -1 then (Inr (-1), k)
             else (case next_memory_node img tree mem_node_offset k of
                     (Inl e, k) \<Rightarrow> (Inl e, k)
                   | (Inr node, k) \<Rightarrow> detect_memory_loop img tree node k))
      else kbind log_detected_memory (\<lambda>_. kret 0) k)"
  by pat_completeness auto
termination
proof (relation "measure (\<lambda>(img, tree, n, k). MAX_MEM_REGIONS - ram_regions_index k)", goal_cases)
  case 1
  then show ?case by simp
next
  case 2
  then show ?case
    by (auto dest!: extract_index [OF sym] next_memory_node_state [OF sym])
qed

declare detect_memory_loop.simps [simp del]

definition detect_memory :: "image \<Rightarrow> int \<Rightarrow> int kc" where
  "detect_memory img tree = kbind (next_memory_node img tree (-1)) (detect_memory_loop img tree)"

section \<open>The CLINT and the timer\<close>

abbreviation CLINT_MTIMECMP_OFFSET :: int where "CLINT_MTIMECMP_OFFSET \<equiv> 0x4000"
abbreviation CLINT_MTIME_OFFSET :: int where "CLINT_MTIME_OFFSET \<equiv> 0xBFF8"

definition discover_clint :: "image \<Rightarrow> int \<Rightarrow> int kc" where
  "discover_clint img tree =
     kbind (kread (\<lambda>m. fdt_node_offset_by_compatible m (lit img) tree (-1) (lit img ''riscv,clint0'')))
       (\<lambda>clint_node. if clint_node > 0 then
          kbind (kread (\<lambda>m. parse_reg m img tree clint_node)) (\<lambda>(r, a, s).
          kbind (kmod (\<lambda>k. case a of Some a \<Rightarrow> k\<lparr>clint_addr := a\<rparr> | None \<Rightarrow> k)) (\<lambda>_.
          if r \<noteq> 0 then kret (-2)
          else kbind (kget clint_addr) (\<lambda>a. kthen
            [k_printf (''[OK] CLINT base address = %p'' @ nl) [u32_arg a]] (kret 0))))
        else kret (-1))"

definition clint_get_time :: "int kc" where
  "clint_get_time = kget (\<lambda>k. to_u32 (clint_addr k + CLINT_MTIME_OFFSET))"

definition clint_get_mtimecmp :: "int kc" where
  "clint_get_mtimecmp = kbind (READ_CSR Mhartid) (\<lambda>hart.
     kget (\<lambda>k. to_u32 (to_u32 (clint_addr k + CLINT_MTIMECMP_OFFSET) + 8 * uint hart)))"

definition clint_init_timer :: "riscv_timer kc" where
  "clint_init_timer = kbind clint_get_time (\<lambda>t. kbind clint_get_mtimecmp (\<lambda>c.
     kret \<lparr>mtime = t, mtimecmp = c\<rparr>))"

definition init_interrupt_controller :: "image \<Rightarrow> int \<Rightarrow> unit kc" where
  "init_interrupt_controller img device_tree = kbind (discover_clint img device_tree) (\<lambda>r.
     if r = 0 then
       kbind clint_init_timer (\<lambda>t. kdo
         [kmod (\<lambda>k. k\<lparr>present_timer := t\<rparr>),
          k_printf (''[OK] Discovered CLINT'' @ nl) [],
          k_printf (''[INFO] mtimecmp at %p, mtime at %p'' @ nl)
            [u32_arg (mtimecmp t), u32_arg (mtime t)]])
     else if r = -2 then KERNEL_PANIC img ''CLINT node is present but not valid'' []
     else if r = -1 then KERNEL_PANIC img ''No CLINT node in Device Tree found'' []
     else kret ())"

text \<open>The two halves of \<open>mtime\<close> are read one after the other, low word first.\<close>

definition timer_sleep :: "image \<Rightarrow> u32 \<Rightarrow> unit kc" where
  "timer_sleep img cycles = kbind (kget present_timer) (\<lambda>t.
     kbind (mmio_read img (mtime t)) (\<lambda>lower_mtime.
     kbind (mmio_read img (mtime t + 4)) (\<lambda>higher_mtime.
     let new_mtimecmp_lo = lower_mtime + cycles;
         higher_mtime = (if new_mtimecmp_lo < lower_mtime then higher_mtime + 1 else higher_mtime)
     in kdo [mmio_write (mtimecmp t) new_mtimecmp_lo, mmio_write (mtimecmp t + 4) higher_mtime])))"

section \<open>Properties\<close>

lemma carry_word:
  fixes a b :: u32
  shows "uint (a + b) + 4294967296 * (if a + b < a then 1 else 0) = uint a + uint b"
proof -
  have r: "0 \<le> uint a" "uint a < 4294967296" "0 \<le> uint b" "uint b < 4294967296"
    by (simp_all add: uint_u32_bound)
  have s: "uint (a + b) = (uint a + uint b) mod 4294967296" by (simp add: uint_word_ariths)
  have lt: "a + b < a \<longleftrightarrow> uint (a + b) < uint a" by (simp add: word_less_def)
  show ?thesis
  proof (cases "uint a + uint b < 4294967296")
    case True
    with r s lt show ?thesis by simp
  next
    case False
    with r have "to_u32 (uint a + uint b) = uint a + uint b - 4294967296"
      by (intro to_u32_wrap) auto
    with s have e: "uint (a + b) = uint a + uint b - 4294967296" by (simp add: to_u32_def)
    with r have "a + b < a" by (simp add: lt)
    with e show ?thesis by simp
  qed
qed

text \<open>\<open>timer_sleep\<close> reads \<open>mtime\<close> twice, low word first, and writes the comparator low word
  first; the two words it writes are the 64-bit sum of the two words it read and the cycles, with
  the carry of the low word and wrap-around at 2^64.\<close>

theorem timer_sleep_sum:
  "let t = present_timer k;
       lo = device_read img (k_clock k) (mtime t);
       hi = device_read img (Suc (k_clock k)) (mtime t + 4)
   in \<exists>lo' hi'. timer_sleep img cycles k = (Inr (), k\<lparr>k_clock := k_clock k + 2,
        k_mmio := k_mmio k @ [(mtimecmp t, lo'), (mtimecmp t + 4, hi')]\<rparr>) \<and>
      uint lo' + 2 ^ 32 * uint hi' = (uint lo + 2 ^ 32 * uint hi + uint cycles) mod 2 ^ 64"
proof -
  define t where "t = present_timer k"
  define lo where "lo = device_read img (k_clock k) (mtime t)"
  define hi where "hi = device_read img (Suc (k_clock k)) (mtime t + 4)"
  define lo' where "lo' = lo + cycles"
  define hi' where "hi' = (if lo' < lo then hi + 1 else hi)"
  have run: "timer_sleep img cycles k = (Inr (), k\<lparr>k_clock := k_clock k + 2,
        k_mmio := k_mmio k @ [(mtimecmp t, lo'), (mtimecmp t + 4, hi')]\<rparr>)"
    by (simp add: timer_sleep_def Let_def t_def lo_def hi_def lo'_def hi'_def)
  have r: "0 \<le> uint lo'" "uint lo' < 4294967296" "0 \<le> uint hi" "uint hi < 4294967296"
    by (simp_all add: uint_u32_bound)
  have c: "uint lo' + 4294967296 * (if lo' < lo then 1 else 0) = uint lo + uint cycles"
    using carry_word [of lo cycles] by (simp add: lo'_def)
  have h: "uint hi' = (uint hi + (if lo' < lo then 1 else 0)) mod 4294967296"
    using r by (simp add: hi'_def uint_word_ariths)
  have "uint lo + 2 ^ 32 * uint hi + uint cycles =
      uint lo' + 4294967296 * (uint hi + (if lo' < lo then 1 else 0))"
    using c by simp
  also have "\<dots> mod 2 ^ 64 = uint lo' + 4294967296 * uint hi'"
  proof (cases "uint hi + (if lo' < lo then 1 else 0) < 4294967296")
    case True
    with r h show ?thesis by simp
  next
    case False
    with r have e: "uint hi + (if lo' < lo then 1 else 0) = 4294967296" by (simp split: if_splits)
    with h have "uint hi' = 0" by simp
    with e r show ?thesis by simp
  qed
  finally show ?thesis using run unfolding Let_def t_def [symmetric] lo_def [symmetric] hi_def [symmetric]
    by auto
qed

text \<open>The big-endian cells of a property at an address.\<close>

definition cells_at :: "mem \<Rightarrow> int \<Rightarrow> u32 list \<Rightarrow> bool" where
  "cells_at m p cs \<longleftrightarrow> (\<forall>i < length cs. fdt32_ld m (p + 4 * int i) = Some (uint (cs ! i)))"

lemma cells_at_Cons:
  "cells_at m p (c # cs) \<longleftrightarrow> fdt32_ld m p = Some (uint c) \<and> cells_at m (p + 4) cs"
  by (auto simp: cells_at_def All_less_Suc2 algebra_simps)

lemma load32_cell:
  assumes "fdt32_ld m p = Some (uint c)"
  shows "load32 m p = Some (byte_swap_32 c)" "fdt32_to_cpu (byte_swap_32 c) = c"
proof -
  obtain w where w: "load32 m p = Some w" "uint (fdt32_to_cpu w) = uint c"
    using assms by (auto simp: fdt32_ld_native_eq [symmetric] fdt32_ld_native_def bind_eq_Some_conv)
  then have c: "c = fdt32_to_cpu w" by simp
  have sw: "byte_swap_32 (fdt32_to_cpu w) = w" for w
    by (simp add: byte_swap_32_bytes fdt32_to_cpu_def)
  have ws: "fdt32_to_cpu (byte_swap_32 c) = c" for c
  proof -
    have "fdt32_to_cpu (byte_swap_32 (word_of_bytes b0 b1 b2 b3)) = word_of_bytes b0 b1 b2 b3" for b0 b1 b2 b3
      by (simp add: byte_swap_32_bytes fdt32_to_cpu_def)
    from this [of "byte_of 0 c" "byte_of 1 c" "byte_of 2 c" "byte_of 3 c"] show ?thesis by simp
  qed
  from sw w(1) c show "load32 m p = Some (byte_swap_32 c)" by simp
  from ws show "fdt32_to_cpu (byte_swap_32 c) = c" .
qed

lemma byte_swap_32_zero [simp]: "byte_swap_32 c = 0 \<longleftrightarrow> c = 0"
proof
  assume "byte_swap_32 c = 0"
  then have "byte_swap_32 (byte_swap_32 c) = byte_swap_32 0" by simp
  then show "c = 0" by (simp add: byte_swap_32_involutive) (simp add: byte_swap_32_def)
qed (simp add: byte_swap_32_def)

lemma fetch_lowest_loop_cells:
  "cells_at m p cs \<Longrightarrow> cs \<noteq> [] \<Longrightarrow> fetch_lowest_loop m p (length cs) =
     Some (if \<forall>c \<in> set (butlast cs). c = 0 then uint (last cs) else UINT32_MAX)"
proof (induction cs arbitrary: p)
  case (Cons c cs)
  then have c: "fdt32_ld m p = Some (uint c)" "cells_at m (p + 4) cs" by (simp_all add: cells_at_Cons)
  note ld = load32_cell [OF c(1)]
  show ?case
  proof (cases "cs = []")
    case True
    with ld show ?thesis by (subst fetch_lowest_loop.simps) simp
  next
    case False
    with Cons.IH [OF c(2)] ld show ?thesis
      by (subst fetch_lowest_loop.simps) simp
  qed
qed simp

text \<open>\<open>fetch_lowest_\<close> on two or more cells gives the value of the number they encode when it
  fits 32 bits and all ones otherwise; on a single cell it gives the cell with its bytes in the wrong
  order.\<close>

theorem fetch_lowest_cells:
  assumes "cells_at m p cs" "cs \<noteq> []" "length cs \<le> 4"
  shows "fetch_lowest m p (int (length cs)) =
    Some (if length cs = 1 then uint (byte_swap_32 (hd cs))
          else if foldl (\<lambda>v c. v * 4294967296 + uint c) 0 cs \<le> UINT32_MAX
          then foldl (\<lambda>v c. v * 4294967296 + uint c) 0 cs else UINT32_MAX)"
proof -
  obtain c cs' where cs: "cs = c # cs'" using assms(2) by (cases cs) auto
  have u: "to_u32 (int (length cs) * 4) = int (length cs) * 4"
    using assms(3) by (simp add: to_u32_id)
  have val: "(if foldl (\<lambda>v c. v * 4294967296 + uint c) 0 cs \<le> UINT32_MAX
          then foldl (\<lambda>v c. v * 4294967296 + uint c) 0 cs else UINT32_MAX) =
      (if \<forall>c \<in> set (butlast cs). c = 0 then uint (last cs) else UINT32_MAX)"
  proof -
    define f where "f = (\<lambda>v (c :: u32). v * 4294967296 + uint c)"
    have pos: "0 \<le> v \<Longrightarrow> 0 \<le> foldl f v ds" for v ds
      by (induction ds arbitrary: v) (simp_all add: f_def)
    have zero: "foldl f 0 ds = 0 \<longleftrightarrow> (\<forall>c \<in> set ds. c = 0)" for ds
    proof (induction ds rule: rev_induct)
      case (snoc d ds)
      have "foldl f 0 (ds @ [d]) = foldl f 0 ds * 4294967296 + uint d" by (simp add: f_def)
      with snoc pos [of 0 ds] show ?case
        by (auto simp: add_nonneg_eq_0_iff uint_0_iff)
    qed simp
    have "foldl f 0 (butlast cs @ [last cs]) = foldl f 0 (butlast cs) * 4294967296 + uint (last cs)"
      by (simp add: f_def)
    then have "foldl f 0 cs = foldl f 0 (butlast cs) * 4294967296 + uint (last cs)"
      using append_butlast_last_id [OF assms(2)] by simp
    moreover have "foldl f 0 (butlast cs) = 0 \<or> 1 \<le> foldl f 0 (butlast cs)"
      using pos [of 0 "butlast cs"] by linarith
    moreover have "\<not> foldl f 0 cs \<le> UINT32_MAX" if "1 \<le> foldl f 0 (butlast cs)"
      using that calculation(1) uint_ge_0 [of "last cs"] by linarith
    ultimately show ?thesis
      using zero [of "butlast cs"] uint_u32_bound [of "last cs"] unfolding f_def [symmetric] by auto
  qed
  show ?thesis
  proof (cases "length cs = 1")
    case True
    with assms(1) cs have "fdt32_ld m p = Some (uint c)" by (simp add: cells_at_Cons)
    from load32_cell(1) [OF this] True u cs show ?thesis by (simp add: fetch_lowest_def)
  next
    case False
    then have "\<not> 4 \<ge> to_u32 (int (length cs) * 4)" using u cs by (cases cs') auto
    with False fetch_lowest_loop_cells [OF assms(1,2)] show ?thesis
      by (simp add: fetch_lowest_def val)
  qed
qed

text \<open>Two cells, the number 0x80000000.\<close>

definition cells_mem :: mem where
  "cells_mem = mem_rows [[0, 0, 0, 0, 128, 0, 0, 0, 0, 0, 0, 0, 0, 0, 0, 0]] 4096"

theorem fetch_lowest_cells_witness: "fetch_lowest cells_mem 4096 2 = Some 0x80000000"
proof -
  have "fdt32_ld cells_mem 4096 = Some 0" "fdt32_ld cells_mem 4100 = Some 0x80000000" by code_simp+
  then have "cells_at cells_mem 4096 [0, 0x80000000]" by (simp add: cells_at_def All_less_Suc2)
  from fetch_lowest_cells [OF this] show ?thesis by simp
qed

section \<open>The region table\<close>

definition regions_ok :: "kernel \<Rightarrow> bool" where
  "regions_ok k \<longleftrightarrow> length (ram_regions k) = MAX_MEM_REGIONS \<and> ram_regions_index k \<le> MAX_MEM_REGIONS \<and>
     (\<forall>i < ram_regions_index k. space_size (ram_regions k ! i) \<noteq> 0)"

lemma extract_regions_ok:
  assumes "extract_ram_region_info img t n k = (Inr r, k')" "regions_ok k"
  shows "regions_ok k'"
proof -
  from extract_spec [OF assms(1)] show ?thesis
  proof (elim disjE conjE exE)
    fix a s
    assume i: "ram_regions_index k < MAX_MEM_REGIONS" and k': "k' = put_region (ram_regions_index k) a s
        (k\<lparr>ram_regions_index := Suc (ram_regions_index k)\<rparr>)"
      and nz: "space_size (ram_regions k' ! ram_regions_index k) \<noteq> 0"
    have "space_size (ram_regions k' ! j) \<noteq> 0" if "j < Suc (ram_regions_index k)" for j
    proof (cases "j = ram_regions_index k")
      case True
      with nz show ?thesis by simp
    next
      case False
      with that have "j < ram_regions_index k" by simp
      with assms(2) False k' show ?thesis by (simp add: regions_ok_def)
    qed
    with assms(2) i k' show ?thesis by (simp add: regions_ok_def)
  qed (use assms(2) in simp)
qed

lemma log_detected_memory_keeps:
  "keeps (\<lambda>k. (ram_regions k, ram_regions_index k)) log_detected_memory"
  "keeps (\<lambda>k. (k_csr k, k_csr_log k)) log_detected_memory"
  "keeps k_mem log_detected_memory"
  unfolding log_detected_memory_def Let_def
  by (intro keep_intros keeps_kdo_all; auto simp: region_line_def intro: keep_intros)+

lemma regions_ok_cong:
  "ram_regions k' = ram_regions k \<Longrightarrow> ram_regions_index k' = ram_regions_index k \<Longrightarrow>
   regions_ok k' = regions_ok k"
  by (simp add: regions_ok_def)

lemma detect_memory_loop_regions:
  "regions_ok k \<Longrightarrow> detect_memory_loop img t n k = (Inr r, k') \<Longrightarrow>
   regions_ok k' \<and> (r = 0 \<or> r = -1) \<and> ram_regions_index k \<le> ram_regions_index k'"
proof (induction img t n k rule: detect_memory_loop.induct)
  case (1 img t n k)
  show ?case
  proof (cases "n \<ge> 0")
    case False
    then have "detect_memory_loop img t n k = kbind log_detected_memory (\<lambda>_. kret 0) k"
      by (subst detect_memory_loop.simps) simp
    with "1.prems"(2) have "kbind log_detected_memory (\<lambda>_. kret 0) k = (Inr r, k')" by simp
    then obtain k1 where k1: "log_detected_memory k = (Inr (), k1)" "r = 0" "k' = k1"
      by (rule kbind_cases) auto
    from keepsD [OF log_detected_memory_keeps(1) k1(1)]
    have same: "ram_regions k1 = ram_regions k" "ram_regions_index k1 = ram_regions_index k" by auto
    with "1.prems"(1) k1 regions_ok_cong [OF same] show ?thesis by simp
  next
    case True
    show ?thesis
    proof (cases "extract_ram_region_info img t n k")
      case (Pair e k1)
      show ?thesis
      proof (cases e)
        case (Inl x)
        with Pair True "1.prems"(2) show ?thesis by (subst (asm) detect_memory_loop.simps) simp
      next
        case (Inr q)
        note ok1 = extract_regions_ok [OF Pair [unfolded Inr] "1.prems"(1)]
        show ?thesis
        proof (cases "q = -1")
          case True
          have "ram_regions_index k \<le> ram_regions_index k1"
            using extract_spec [OF Pair [unfolded Inr]] by auto
          with True Pair Inr \<open>n \<ge> 0\<close> "1.prems"(2) ok1 show ?thesis
            by (subst (asm) detect_memory_loop.simps) auto
        next
          case False
          note idx = extract_index [OF Pair [unfolded Inr] False]
          show ?thesis
          proof (cases "next_memory_node img t n k1")
            case nxt: (Pair e2 k2)
            then have k2: "k2 = k1" by (rule next_memory_node_state)
            show ?thesis
            proof (cases e2)
              case (Inl x)
              with nxt False Pair Inr \<open>n \<ge> 0\<close> "1.prems"(2) show ?thesis
                by (subst (asm) detect_memory_loop.simps) simp
            next
              case node: (Inr node)
              have "detect_memory_loop img t node k1 = (Inr r, k')"
                using "1.prems"(2) node nxt k2 False Pair Inr \<open>n \<ge> 0\<close>
                by (subst (asm) detect_memory_loop.simps) simp
              from "1.IH" [OF True Pair [symmetric] Inr False nxt [symmetric] node]
                this k2 ok1 idx show ?thesis by auto
            qed
          qed
        qed
      qed
    qed
  qed
qed

section \<open>Frames of the device code\<close>

lemma check_device_tree_keeps:
  "keeps (\<lambda>k. (k_csr k, k_csr_log k)) (check_device_tree img t)"
  unfolding check_device_tree_def by (intro keep_intros)

lemma keeps_split [keep_intros]:
  "(\<And>a b c. keeps f (g a b c)) \<Longrightarrow> keeps f (case x of (a, b, c) \<Rightarrow> g a b c)"
  by (cases x) simp

lemma csr_kmod [keep_intros]:
  "keeps (\<lambda>k. (k_csr k, k_csr_log k)) (kmod (\<lambda>k. k\<lparr>present_timer := t\<rparr>))"
  "keeps (\<lambda>k. (k_csr k, k_csr_log k)) (kmod (\<lambda>k. k\<lparr>ram_regions_index := i\<rparr>))"
  "keeps (\<lambda>k. (k_csr k, k_csr_log k)) (kmod (put_region i a s))"
  "keeps (\<lambda>k. (k_csr k, k_csr_log k))
     (kmod (\<lambda>k. case a of Some a \<Rightarrow> k\<lparr>clint_addr := a\<rparr> | None \<Rightarrow> k))"
  by (rule keeps_kmod; simp split: option.splits)+

lemma init_interrupt_controller_keeps:
  "keeps (\<lambda>k. (k_csr k, k_csr_log k)) (init_interrupt_controller img t)"
  unfolding init_interrupt_controller_def discover_clint_def clint_init_timer_def
    clint_get_time_def clint_get_mtimecmp_def
  by (intro keep_intros)

lemma extract_keeps: "keeps (\<lambda>k. (k_csr k, k_csr_log k)) (extract_ram_region_info img t n)"
  unfolding extract_ram_region_info_def by (intro keep_intros)

lemma detect_memory_loop_keeps:
  "detect_memory_loop img t n k = (Inr r, k') \<Longrightarrow> csrs k' = csrs k"
proof (induction img t n k rule: detect_memory_loop.induct)
  case (1 img t n k)
  show ?case
  proof (cases "n \<ge> 0")
    case False
    then have "detect_memory_loop img t n k = kbind log_detected_memory (\<lambda>_. kret 0) k"
      by (subst detect_memory_loop.simps) simp
    with "1.prems" have "kbind log_detected_memory (\<lambda>_. kret 0) k = (Inr r, k')" by simp
    then show ?thesis
      by (rule kbind_cases) (use keepsD [OF log_detected_memory_keeps(2)] in auto)
  next
    case True
    obtain e k1 where ex: "extract_ram_region_info img t n k = (e, k1)" by force
    show ?thesis
    proof (cases e)
      case (Inl x)
      with ex True "1.prems" show ?thesis by (subst (asm) detect_memory_loop.simps) simp
    next
      case (Inr q)
      note k1 = keepsD [OF extract_keeps ex [unfolded Inr]]
      obtain e2 k2 where nxt: "next_memory_node img t n k1 = (e2, k2)" by force
      then have k2: "k2 = k1" by (rule next_memory_node_state)
      show ?thesis
      proof (cases "q = -1")
        case True
        with ex Inr \<open>n \<ge> 0\<close> "1.prems" k1 show ?thesis
          by (subst (asm) detect_memory_loop.simps) auto
      next
        case False
        show ?thesis
        proof (cases e2)
          case (Inl x)
          with nxt False ex Inr \<open>n \<ge> 0\<close> "1.prems" show ?thesis
            by (subst (asm) detect_memory_loop.simps) simp
        next
          case node: (Inr node)
          have "detect_memory_loop img t node k1 = (Inr r, k')"
            using "1.prems" node nxt k2 False ex Inr \<open>n \<ge> 0\<close>
            by (subst (asm) detect_memory_loop.simps) simp
          from "1.IH" [OF True ex [symmetric] Inr False nxt [symmetric] node] this k2 k1
          show ?thesis by auto
        qed
      qed
    qed
  qed
qed

lemma detect_memory_keeps: "keeps (\<lambda>k. (k_csr k, k_csr_log k)) (detect_memory img t)"
  unfolding detect_memory_def
proof (rule keeps_kbind)
  show "keeps csrs (next_memory_node img t (- 1))" unfolding next_memory_node_def by (intro keep_intros)
  show "keeps csrs (detect_memory_loop img t x)" for x
    unfolding keeps_def using detect_memory_loop_keeps by blast
qed

section \<open>Runs on a well-formed tree\<close>

lemma k_printf_prints:
  "render fmt va = Some cs \<Longrightarrow> \<exists>con. k_printf fmt va k = (Inr (), k\<lparr>k_console := con\<rparr>)"
  using k_printf_render by blast

lemma address_line:
  "\<exists>cs. render (''[OK] CLINT base address = %p'' @ nl) [AInt a] = Some cs"
  "\<exists>cs. render (''[INFO] mtimecmp at %p, mtime at %p'' @ nl) [AInt a, AInt b] = Some cs"
  "\<exists>cs. render (''RAM region %i: address range [0x%x, 0x%x], size = %i B'' @ nl)
     [AInt a, AInt b, AInt c, AInt d] = Some cs"
  by (simp_all add: render_cons signed_chars unsigned_chars pointer_chars del: render_simps(2))

lemma region_line_prints: "\<exists>con. region_line i r k = (Inr (), k\<lparr>k_console := con\<rparr>)"
proof -
  obtain cs where "render (''RAM region %i: address range [0x%x, 0x%x], size = %i B'' @ nl)
      [u32_arg (int i), u32_arg (physicaddr r), u32_arg (physicaddr r + space_size r),
       u32_arg (space_size r)] = Some cs"
    using address_line(3) by blast
  from k_printf_prints [OF this] show ?thesis by (simp only: region_line_def)
qed

text \<open>
  What the kernel needs of a device tree: it passes the checks, has a CLINT at \<open>a\<close>, and one memory node,
  with \<open>s\<close> bytes from \<open>b\<close> on.
\<close>

definition tree_describes :: "image \<Rightarrow> mem \<Rightarrow> int \<Rightarrow> int \<Rightarrow> int \<Rightarrow> int \<Rightarrow> bool" where
  "tree_describes img m t a b s \<longleftrightarrow> t \<noteq> 0 \<and> fdt_check_header m t = Some 0 \<and>
     (\<exists>n. fdt_totalsize m t = Some n \<and> fdt_check_full m t n = Some 0) \<and>
     (\<exists>n l. fdt_node_offset_by_compatible m (lit img) t (- 1) (lit img ''riscv,clint0'') = Some n \<and> 0 < n \<and>
        parse_reg m img t n = Some (0, Some a, l)) \<and>
     (\<exists>n n'. fdt_node_offset_by_prop_value m t (- 1) (lit img ''device_type'') (lit img ''memory'') 7 = Some n \<and>
        0 \<le> n \<and> parse_reg m img t n = Some (0, Some b, Some s) \<and> s \<noteq> 0 \<and>
        fdt_node_offset_by_prop_value m t n (lit img ''device_type'') (lit img ''memory'') 7 = Some n' \<and> n' < 0)"

lemma check_device_tree_run:
  assumes "tree_describes img (k_mem k) t a b s"
  shows "check_device_tree img t k =
    (Inr (), k\<lparr>k_console := k_console k @ ''[OK] Device tree verified'' @ nl\<rparr>)"
  using assms by (auto simp: tree_describes_def check_device_tree_def)

lemma init_interrupt_controller_run:
  assumes "tree_describes img (k_mem k) t a b s"
  shows "\<exists>con. init_interrupt_controller img t k = (Inr (), k\<lparr>clint_addr := a,
    present_timer := \<lparr>mtime = to_u32 (a + 0xBFF8),
      mtimecmp = to_u32 (to_u32 (a + 0x4000) + 8 * uint (k_csr k Mhartid))\<rparr>,
    k_console := con\<rparr>)"
proof -
  define k1 where "k1 = k\<lparr>clint_addr := a\<rparr>"
  obtain c1 where c1: "k_printf (''[OK] CLINT base address = %p'' @ nl) [u32_arg a] k1 =
      (Inr (), k1\<lparr>k_console := c1\<rparr>)"
    using address_line(1) k_printf_prints by blast
  obtain n l where n: "fdt_node_offset_by_compatible (k_mem k) (lit img) t (- 1) (lit img ''riscv,clint0'') = Some n"
    "0 < n" "parse_reg (k_mem k) img t n = Some (0, Some a, l)"
    using assms by (auto simp: tree_describes_def)
  have d: "discover_clint img t k = (Inr 0, k1\<lparr>k_console := c1\<rparr>)"
    using n c1 by (simp add: discover_clint_def k1_def del: append.simps)
  define t1 where "t1 = \<lparr>mtime = to_u32 (a + 0xBFF8),
    mtimecmp = to_u32 (to_u32 (a + 0x4000) + 8 * uint (k_csr k Mhartid))\<rparr>"
  have i: "clint_init_timer (k1\<lparr>k_console := c1\<rparr>) = (Inr t1, k1\<lparr>k_console := c1\<rparr>)"
    by (simp add: clint_init_timer_def clint_get_time_def clint_get_mtimecmp_def k1_def t1_def)
  define k2 where "k2 = k1\<lparr>present_timer := t1, k_console := c1 @ ''[OK] Discovered CLINT'' @ nl\<rparr>"
  obtain c2 where c2: "k_printf (''[INFO] mtimecmp at %p, mtime at %p'' @ nl)
      [u32_arg (mtimecmp t1), u32_arg (mtime t1)] k2 = (Inr (), k2\<lparr>k_console := c2\<rparr>)"
    using address_line(2) k_printf_prints by blast
  have "init_interrupt_controller img t k = (Inr (), k2\<lparr>k_console := c2\<rparr>)"
    using c2 unfolding init_interrupt_controller_def
    by (simp add: d i k2_def del: append.simps)
  then show ?thesis by (auto simp: k2_def k1_def t1_def)
qed

lemma detect_memory_run:
  assumes "tree_describes img (k_mem k) t a b s" "length (ram_regions k) = MAX_MEM_REGIONS"
    "ram_regions_index k = 0"
  shows "\<exists>con. detect_memory img t k = (Inr 0, k\<lparr>ram_regions :=
    (ram_regions k)[0 := \<lparr>physicaddr = b, space_size = s\<rparr>], ram_regions_index := 1, k_console := con\<rparr>)"
proof -
  define r :: ram_descriptor where "r = \<lparr>physicaddr = b, space_size = s\<rparr>"
  define k1 where "k1 = k\<lparr>ram_regions := (ram_regions k)[0 := r], ram_regions_index := 1\<rparr>"
  obtain n n' where n: "next_memory_node img t (- 1) k = (Inr n, k)" "next_memory_node img t n k1 = (Inr n', k1)"
    "0 \<le> n" "n' < 0" "parse_reg (k_mem k) img t n = Some (0, Some b, Some s)" "s \<noteq> 0"
    using assms(1) by (auto simp: tree_describes_def next_memory_node_def k1_def)
  have r0: "(ram_regions k ! 0)\<lparr>physicaddr := b, space_size := s\<rparr> = r" by (simp add: r_def)
  have e: "extract_ram_region_info img t n k = (Inr 0, k1)"
    using assms(2,3) n(5,6)
    by (simp add: extract_ram_region_info_def put_region_def Let_def k1_def r0) (simp add: r_def)
  have hd: "take (Suc 0) ((ram_regions k)[0 := r]) = [r]"
    using assms(2) by (cases "ram_regions k") simp_all
  define c where "c = k_console k @ (''==========================='' @ nl) @ ''detected RAM:'' @ nl"
  obtain c1 where c1: "region_line 0 r (k1\<lparr>k_console := c\<rparr>) = (Inr (), k1\<lparr>k_console := c1\<rparr>)"
    using region_line_prints [of 0 r "k1\<lparr>k_console := c\<rparr>"] by auto
  have "log_detected_memory k1 = (Inr (), k1\<lparr>k_console := c1 @ ''==========================='' @ nl\<rparr>)"
    using c1 by (simp add: log_detected_memory_def Let_def k1_def c_def hd)
  then have "detect_memory img t k = (Inr 0, k1\<lparr>k_console := c1 @ ''==========================='' @ nl\<rparr>)"
    using n(3,4)
    by (simp add: detect_memory_def n(1,2) e detect_memory_loop.simps [of _ _ n] detect_memory_loop.simps [of _ _ n'])
  then show ?thesis unfolding k1_def r_def by auto
qed

end
