(* ===== verification/Phys_Alloc.thy ===== *)
theory Phys_Alloc
  imports Devices
begin

text \<open>
  The physical page allocator of \<^verbatim>\<open>mem/phys_alloc.c\<close>: pages of all RAM regions are numbered through,
  and a bitmap placed in RAM says which are in use.
\<close>

abbreviation PAGE_OFFSET_BITS :: nat where "PAGE_OFFSET_BITS \<equiv> 12"
abbreviation PAGE_SIZE :: int where "PAGE_SIZE \<equiv> 4096"

definition page_align :: "int \<Rightarrow> int" where
  "page_align p = PAGE_SIZE * (p div PAGE_SIZE)"

definition get_kernel_size :: "image \<Rightarrow> int" where
  "get_kernel_size img = to_u32 (kernel_end img - kernel_start img)"

text \<open>The loops over all regions; \<open>n\<close> counts what is left.\<close>

fun physic_addr_to_ppn_loop :: "image \<Rightarrow> int \<Rightarrow> nat \<Rightarrow> nat \<Rightarrow> int \<Rightarrow> int kc" where
  "physic_addr_to_ppn_loop img page_ptr 0 i counter = kret (-1)"
| "physic_addr_to_ppn_loop img page_ptr (Suc n) i counter = kbind (pmm_get_region img i) (\<lambda>region.
     if page_ptr \<ge> physicaddr region \<and> page_ptr \<le> to_u32 (physicaddr region + space_size region)
     then kret (to_s32 (counter + (page_ptr - physicaddr region) div PAGE_SIZE))
     else physic_addr_to_ppn_loop img page_ptr n (Suc i)
            (to_u32 (counter + space_size region div PAGE_SIZE)))"

definition physic_addr_to_ppn :: "image \<Rightarrow> int \<Rightarrow> int kc" where
  "physic_addr_to_ppn img page = kbind total_memory_regions (\<lambda>n.
     physic_addr_to_ppn_loop img (page_align page) n 0 0)"

fun find_physical_addr_loop :: "image \<Rightarrow> int \<Rightarrow> nat \<Rightarrow> nat \<Rightarrow> int kc" where
  "find_physical_addr_loop img ppn 0 i = kret 0"
| "find_physical_addr_loop img ppn (Suc n) i = kbind (pmm_get_region img i) (\<lambda>this.
     if ppn < space_size this div PAGE_SIZE
     then kret (to_u32 (physicaddr this + to_u32 (ppn * PAGE_SIZE)))
     else find_physical_addr_loop img ppn n (Suc i))"

definition find_physical_addr_of_page :: "image \<Rightarrow> int \<Rightarrow> int kc" where
  "find_physical_addr_of_page img ppn = kbind total_memory_regions (\<lambda>n.
     find_physical_addr_loop img ppn n 0)"

text \<open>Calls of the bitmap library on the kernel's bitmap.\<close>

definition kbitmap_init :: "int \<Rightarrow> nat \<Rightarrow> unit kc" where
  "kbitmap_init slots n k = (case bitmap_init (k_mem k) (physical_bitmap k) slots n of
     Inl e \<Rightarrow> (Inl e, k) | Inr (bm, m) \<Rightarrow> (Inr (), k\<lparr>k_mem := m, physical_bitmap := bm\<rparr>))"

definition kbitmap_mark_as_used :: "nat \<Rightarrow> nat \<Rightarrow> unit kc" where
  "kbitmap_mark_as_used first n k =
     (case bitmap_mark_as_used (k_mem k) (physical_bitmap k) first n of
        None \<Rightarrow> (Inl Fault, k) | Some m \<Rightarrow> (Inr (), k\<lparr>k_mem := m\<rparr>))"

definition kbitmap_allocate_slot :: "int kc" where
  "kbitmap_allocate_slot k =
     (case bitmap_allocate_slot (k_mem k) (Some (physical_bitmap k)) of
        None \<Rightarrow> (Inl Fault, k)
      | Some (slot, bm, m) \<Rightarrow>
          (Inr slot, k\<lparr>k_mem := m, physical_bitmap := (case bm of Some b \<Rightarrow> b | None \<Rightarrow> physical_bitmap k)\<rparr>))"

definition pages_for :: "int \<Rightarrow> int" where
  "pages_for total_bytes = total_bytes div PAGE_SIZE + (if total_bytes mod PAGE_SIZE \<noteq> 0 then 1 else 0)"

definition pmm_borrow_pages :: "image \<Rightarrow> int \<Rightarrow> int \<Rightarrow> unit kc" where
  "pmm_borrow_pages img page_phys_addr total_bytes =
     kbind (physic_addr_to_ppn img page_phys_addr) (\<lambda>ppn. kdo
       [DEBUG_ASSERT img (ppn \<noteq> -1) ''ppn != -1'' ''mem/phys_alloc.c'' ''pmm_borrow_pages'' 68,
        k_printf (''[pmm_borrow_pages] Marking %i pages as used, starting at page no. 0x%x'' @ nl)
          [u32_arg (pages_for total_bytes), u32_arg ppn],
        kbitmap_mark_as_used (nat (to_u32 ppn)) (nat (pages_for total_bytes))])"

text \<open>The search for a place for the bitmap; 0 when there is none.\<close>

fun place_bitmap :: "image \<Rightarrow> int \<Rightarrow> nat \<Rightarrow> nat \<Rightarrow> int kc" where
  "place_bitmap img bytes 0 i = kret 0"
| "place_bitmap img bytes (Suc n) i = kbind (pmm_get_region img i) (\<lambda>region.
     let region_end = to_u32 (physicaddr region + space_size region);
         next_boundary = (if kernel_start img \<ge> physicaddr region \<and> kernel_start img < region_end
                          then kernel_start img else region_end)
     in if to_u32 (next_boundary - physicaddr region) \<ge> bytes then kret (physicaddr region)
        else if kernel_end img < region_end \<and> to_u32 (region_end - kernel_end img) \<ge> bytes
        then kret (kernel_end img)
        else place_bitmap img bytes n (Suc i))"

definition init_phys_allocator :: "image \<Rightarrow> unit kc" where
  "init_phys_allocator img = kbind total_memory_regions (\<lambda>n. kthen
     [DEBUG_ASSERT img (n > 0) ''total_memory_regions() > 0'' ''mem/phys_alloc.c'' ''init_phys_allocator'' 80,
      DEBUG_ASSERT img (kernel_start img < kernel_end img)
        ''_kernel_physical_start < _kernel_physical_end'' ''mem/phys_alloc.c'' ''init_phys_allocator'' 97,
      DEBUG_ASSERT img (get_kernel_size img mod PAGE_SIZE = 0) ''get_kernel_size() % PAGE_SIZE == 0''
        ''mem/phys_alloc.c'' ''init_phys_allocator'' 98]
     (kbind get_total_mem (\<lambda>total.
      let unborrowed = to_s32 (total - get_kernel_size img) in kthen
     [kwhen (unborrowed < PAGE_SIZE)
        (KERNEL_PANIC img ''not enough RAM available (%u bytes only)'' [u32_arg unborrowed])]
     (let total_pages_available = total div PAGE_SIZE;
          bitmap_size = uint (udiv_and_ceil (word_of_int total_pages_available) (of_nat WORD_SIZE));
          bitmap_size_in_bytes = to_u32 (bitmap_size * 4)
      in kbind (place_bitmap img bitmap_size_in_bytes n 0) (\<lambda>slots_for_bitmap. kdo
        [kwhen (slots_for_bitmap = 0) (KERNEL_PANIC img
           (''can'' @ [CHR 0x27] @ ''t find continuous space for bitmap; non-continuous page '' @
            ''bitmaps not supported yet'') []),
         kbitmap_init slots_for_bitmap (nat bitmap_size),
         pmm_borrow_pages img (kernel_start img) (get_kernel_size img),
         pmm_borrow_pages img slots_for_bitmap bitmap_size,
         k_printf (''[OK] Initialized bitmap'' @ nl) []])))))"

definition pmm_allocate_page :: "image \<Rightarrow> int kc" where
  "pmm_allocate_page img = kbind kbitmap_allocate_slot (\<lambda>slot.
     if slot = -1 then kret 0 else find_physical_addr_of_page img (to_u32 slot))"


section \<open>Region lists\<close>

fun ppn_of :: "ram_descriptor list \<Rightarrow> int \<Rightarrow> int \<Rightarrow> int" where
  "ppn_of [] p counter = -1"
| "ppn_of (r # rs) p counter =
     (if p \<ge> physicaddr r \<and> p \<le> to_u32 (physicaddr r + space_size r)
      then to_s32 (counter + (p - physicaddr r) div PAGE_SIZE)
      else ppn_of rs p (to_u32 (counter + space_size r div PAGE_SIZE)))"

fun addr_of :: "ram_descriptor list \<Rightarrow> int \<Rightarrow> int" where
  "addr_of [] ppn = 0"
| "addr_of (r # rs) ppn =
     (if ppn < space_size r div PAGE_SIZE then to_u32 (physicaddr r + to_u32 (ppn * PAGE_SIZE))
      else addr_of rs ppn)"

abbreviation regions :: "kernel \<Rightarrow> ram_descriptor list" where
  "regions k \<equiv> take (ram_regions_index k) (ram_regions k)"

lemma pmm_get_region_run [simp]:
  "i < ram_regions_index k \<Longrightarrow> pmm_get_region img i k = (Inr (ram_regions k ! i), k)"
  by (simp add: pmm_get_region_def)

lemma drop_regions:
  "ram_regions_index k = n + i \<Longrightarrow> ram_regions_index k \<le> length (ram_regions k) \<Longrightarrow> 0 < n \<Longrightarrow>
   drop i (regions k) = ram_regions k ! i # drop (Suc i) (regions k)"
  by (subst Cons_nth_drop_Suc [symmetric]) simp_all

lemma physic_addr_to_ppn_loop_list:
  "ram_regions_index k = n + i \<Longrightarrow> ram_regions_index k \<le> length (ram_regions k) \<Longrightarrow>
   physic_addr_to_ppn_loop img p n i c k = (Inr (ppn_of (drop i (regions k)) p c), k)"
proof (induction n arbitrary: i c)
  case (Suc n)
  then have "ram_regions_index k = n + Suc i" by simp
  with Suc drop_regions [of k "Suc n" i] show ?case by simp
qed simp

lemma find_physical_addr_loop_list:
  "ram_regions_index k = n + i \<Longrightarrow> ram_regions_index k \<le> length (ram_regions k) \<Longrightarrow>
   find_physical_addr_loop img ppn n i k = (Inr (addr_of (drop i (regions k)) ppn), k)"
proof (induction n arbitrary: i)
  case (Suc n)
  then have "ram_regions_index k = n + Suc i" by simp
  with Suc drop_regions [of k "Suc n" i] show ?case by simp
qed simp

lemma physic_addr_to_ppn_list:
  "ram_regions_index k \<le> length (ram_regions k) \<Longrightarrow>
   physic_addr_to_ppn img page k = (Inr (ppn_of (regions k) (page_align page) 0), k)"
  using physic_addr_to_ppn_loop_list [of k "ram_regions_index k" 0]
  by (simp add: physic_addr_to_ppn_def total_memory_regions_def)

lemma find_physical_addr_of_page_list:
  "ram_regions_index k \<le> length (ram_regions k) \<Longrightarrow>
   find_physical_addr_of_page img ppn k = (Inr (addr_of (regions k) ppn), k)"
  using find_physical_addr_loop_list [of k "ram_regions_index k" 0]
  by (simp add: find_physical_addr_of_page_def total_memory_regions_def)

text \<open>A region whose pages can be numbered: page-aligned and below the top of memory.\<close>

definition region_ok :: "ram_descriptor \<Rightarrow> bool" where
  "region_ok r \<longleftrightarrow> 0 \<le> physicaddr r \<and> physicaddr r mod PAGE_SIZE = 0 \<and> 0 \<le> space_size r \<and>
     space_size r mod PAGE_SIZE = 0 \<and> physicaddr r + space_size r \<le> UINT32_MAX"

abbreviation pages_of :: "ram_descriptor \<Rightarrow> int" where
  "pages_of r \<equiv> space_size r div PAGE_SIZE"

lemma page_align_page:
  "a mod PAGE_SIZE = 0 \<Longrightarrow> 0 \<le> d \<Longrightarrow> d < PAGE_SIZE \<Longrightarrow> page_align (a + p * PAGE_SIZE + d) = a + p * PAGE_SIZE"
proof -
  assume a: "a mod PAGE_SIZE = 0" "0 \<le> d" "d < PAGE_SIZE"
  then obtain q where q: "a = PAGE_SIZE * q" by (metis mod_0_imp_dvd dvd_def)
  have e: "a + p * PAGE_SIZE + d = d + (q + p) * PAGE_SIZE" using q by simp
  have "(d + (q + p) * PAGE_SIZE) div PAGE_SIZE = q + p" using a(2,3) by simp
  then show "page_align (a + p * PAGE_SIZE + d) = a + p * PAGE_SIZE"
    unfolding page_align_def e using q by simp
qed

lemma region_pages:
  assumes "region_ok r" "0 \<le> p" "p < pages_of r"
  shows "0 \<le> p * PAGE_SIZE" "p * PAGE_SIZE + PAGE_SIZE \<le> space_size r" "p \<le> 1048576"
    "physicaddr r + p * PAGE_SIZE \<le> UINT32_MAX"
proof -
  have s: "space_size r = pages_of r * PAGE_SIZE" using assms(1) div_mult_mod_eq [of "space_size r" PAGE_SIZE]
    by (simp add: region_ok_def)
  have b: "physicaddr r + space_size r \<le> UINT32_MAX" "0 \<le> physicaddr r"
    using assms(1) by (simp_all add: region_ok_def)
  define n where "n = pages_of r"
  have "p < n" "space_size r = n * PAGE_SIZE" using assms(3) s by (simp_all add: n_def)
  with b assms(2) show "0 \<le> p * PAGE_SIZE" "p * PAGE_SIZE + PAGE_SIZE \<le> space_size r" "p \<le> 1048576"
    "physicaddr r + p * PAGE_SIZE \<le> UINT32_MAX"
    by simp_all
qed

lemma single_region_addr:
  assumes "region_ok r" "0 \<le> p" "p < pages_of r"
  shows "addr_of [r] p = physicaddr r + p * PAGE_SIZE"
  using region_pages [OF assms] assms by (simp add: to_u32_id region_ok_def)

lemma single_region_ppn:
  assumes "region_ok r" "0 \<le> p" "p < pages_of r"
  shows "ppn_of [r] (physicaddr r + p * PAGE_SIZE) 0 = p"
  using region_pages [OF assms] assms by (simp add: to_u32_id to_s32_id region_ok_def)

text \<open>C27: with one RAM region the two translations of the allocator are inverse to each other: the
  address of page \<open>p\<close> is the region's start plus \<open>4096 * p\<close>, and every address inside that page has
  page number \<open>p\<close>.\<close>

theorem page_number_roundtrip:
  assumes "ram_regions_index k = 1" "ram_regions k \<noteq> []" "region_ok (ram_regions k ! 0)"
    and "0 \<le> p" "p < pages_of (ram_regions k ! 0)" "0 \<le> d" "d < PAGE_SIZE"
  shows "\<exists>a. find_physical_addr_of_page img p k = (Inr a, k) \<and>
     a = physicaddr (ram_regions k ! 0) + p * PAGE_SIZE \<and>
     physic_addr_to_ppn img (a + d) k = (Inr p, k)"
proof -
  have rs: "regions k = [ram_regions k ! 0]" "ram_regions_index k \<le> length (ram_regions k)"
    using assms(1,2) by (cases "ram_regions k"; simp)+
  have al: "page_align (physicaddr (ram_regions k ! 0) + p * PAGE_SIZE + d) =
      physicaddr (ram_regions k ! 0) + p * PAGE_SIZE"
    using assms(3,6,7) by (intro page_align_page) (simp_all add: region_ok_def)
  show ?thesis
    using single_region_addr [OF assms(3-5)] single_region_ppn [OF assms(3-5)] al
    by (simp add: find_physical_addr_of_page_list [OF rs(2)] physic_addr_to_ppn_list [OF rs(2)] rs(1)
        del: ppn_of.simps addr_of.simps)
qed

definition one_region_kernel :: kernel where
  "one_region_kernel = demo_kernel\<lparr>ram_regions := [\<lparr>physicaddr = 0x80000000, space_size = 0x100000\<rparr>],
     ram_regions_index := 1\<rparr>"

theorem page_number_roundtrip_witness:
  "\<exists>a. find_physical_addr_of_page demo_image 17 one_region_kernel = (Inr a, one_region_kernel) \<and>
     a = physicaddr (ram_regions one_region_kernel ! 0) + 17 * PAGE_SIZE \<and>
     physic_addr_to_ppn demo_image (a + 12) one_region_kernel = (Inr 17, one_region_kernel)"
  by (rule page_number_roundtrip) (simp_all add: one_region_kernel_def region_ok_def)

text \<open>C37: with two RAM regions the translations disagree: page \<open>j\<close> of the second region has the number
  \<open>n + j\<close>, where \<open>n\<close> is the number of pages of the first, but the address found for that number is page
  \<open>n + j\<close> of the second region, or none.\<close>

theorem second_region_mismatch:
  assumes "ram_regions_index k = 2" "ram_regions k = r # s # rest" "region_ok r" "region_ok s"
    and "physicaddr r + space_size r < physicaddr s" "0 \<le> j" "j < pages_of s"
  shows "physic_addr_to_ppn img (physicaddr s + j * PAGE_SIZE) k = (Inr (pages_of r + j), k) \<and>
    find_physical_addr_of_page img (pages_of r + j) k =
      (Inr (if pages_of r + j < pages_of s then physicaddr s + (pages_of r + j) * PAGE_SIZE else 0), k)"
proof -
  have rs: "regions k = [r, s]" "ram_regions_index k \<le> length (ram_regions k)"
    using assms(1,2) by (simp_all add: numeral_2_eq_2)
  note sp = region_pages [OF assms(4,6,7)]
  have pr: "0 \<le> pages_of r" "pages_of r \<le> 1048576" using assms(3) by (auto simp: region_ok_def)
  have al: "page_align (physicaddr s + j * PAGE_SIZE) = physicaddr s + j * PAGE_SIZE"
    using page_align_page [of "physicaddr s" 0 j] assms(4) by (simp add: region_ok_def)
  have "ppn_of [r, s] (physicaddr s + j * PAGE_SIZE) 0 = pages_of r + j"
    using sp pr assms(3-6) by (simp add: to_u32_id to_s32_id region_ok_def)
  moreover have "addr_of [r, s] (pages_of r + j) =
      (if pages_of r + j < pages_of s then physicaddr s + (pages_of r + j) * PAGE_SIZE else 0)"
  proof (cases "pages_of r + j < pages_of s")
    case True
    have "addr_of [r, s] (pages_of r + j) = addr_of [s] (pages_of r + j)" using assms(6) by simp
    with single_region_addr [OF assms(4) _ True] pr assms(6) True show ?thesis by simp
  qed (use assms(6) in simp)
  ultimately show ?thesis
    using al by (simp add: find_physical_addr_of_page_list [OF rs(2)] physic_addr_to_ppn_list [OF rs(2)] rs(1)
        del: ppn_of.simps addr_of.simps)
qed

definition two_region_kernel :: kernel where
  "two_region_kernel = demo_kernel\<lparr>ram_regions := [\<lparr>physicaddr = 0x10000, space_size = 0x10000\<rparr>,
     \<lparr>physicaddr = 0x35000, space_size = 0x10000\<rparr>], ram_regions_index := 2\<rparr>"

theorem second_region_mismatch_witness:
  "physic_addr_to_ppn demo_image (0x35000 + 0 * PAGE_SIZE) two_region_kernel = (Inr 16, two_region_kernel) \<and>
   find_physical_addr_of_page demo_image 16 two_region_kernel = (Inr 0, two_region_kernel)"
  using second_region_mismatch [of two_region_kernel "\<lparr>physicaddr = 0x10000, space_size = 0x10000\<rparr>"
      "\<lparr>physicaddr = 0x35000, space_size = 0x10000\<rparr>" "[]" 0 demo_image]
  by (simp add: two_region_kernel_def region_ok_def)

section \<open>Initialisation\<close>

lemma borrow_message:
  "\<exists>cs. render (''[pmm_borrow_pages] Marking %i pages as used, starting at page no. 0x%x'' @ nl)
     [AInt a, AInt b] = Some cs"
  by (simp add: render_cons signed_chars unsigned_chars del: render_simps(2))

lemma pmm_borrow_pages_run:
  assumes ppn: "physic_addr_to_ppn img a k = (Inr (int p), k)"
    and bm: "bm_ok (k_mem k) (physical_bitmap k)"
    and n: "n = nat (pages_for total_bytes)" "p + n < 4294967296"
  shows "\<exists>m' con. pmm_borrow_pages img a total_bytes k = (Inr (), k\<lparr>k_console := con, k_mem := m'\<rparr>) \<and>
    bm_ok m' (physical_bitmap k) \<and>
    used_slots m' (physical_bitmap k) = used_slots (k_mem k) (physical_bitmap k) \<union>
      ({p ..< p + n} \<inter> {..< bm_capacity (physical_bitmap k)}) \<and>
    bm_writes (physical_bitmap k) (k_mem k) m'"
proof -
  obtain m' where m': "bitmap_mark_as_used (k_mem k) (physical_bitmap k) p n = Some m'"
    "bm_ok m' (physical_bitmap k)"
    "used_slots m' (physical_bitmap k) = used_slots (k_mem k) (physical_bitmap k) \<union>
      ({p ..< p + n} \<inter> {..< bm_capacity (physical_bitmap k)})"
    "bm_writes (physical_bitmap k) (k_mem k) m'"
    using bitmap_mark_as_used_spec [OF bm n(2)] by blast
  obtain cs where cs: "render (''[pmm_borrow_pages] Marking %i pages as used, starting at page no. 0x%x'' @ nl)
     [u32_arg (pages_for total_bytes), AInt (word_of_nat p)] = Some cs" using borrow_message by blast
  have "nat (to_u32 (int p)) = p" using n(2) by (simp add: to_u32_id)
  then have "pmm_borrow_pages img a total_bytes k =
      (Inr (), k\<lparr>k_console := k_console k @ non_nul cs, k_mem := m'\<rparr>)"
    using m'(1) n(1)
    by (simp add: pmm_borrow_pages_def ppn k_printf_render [OF cs] kbitmap_mark_as_used_def del: append.simps)
  with m'(2-4) show ?thesis by blast
qed

text \<open>
  One RAM region that starts with the kernel image: \<open>kp\<close> pages of kernel, then room for the \<open>w\<close>
  words of the bitmap of all pages of the region.
\<close>

definition kernel_first :: "image \<Rightarrow> kernel \<Rightarrow> ram_descriptor \<Rightarrow> nat \<Rightarrow> nat \<Rightarrow> bool" where
  "kernel_first img k r kp w \<longleftrightarrow>
     ram_regions_index k = 1 \<and> ram_regions k \<noteq> [] \<and> ram_regions k ! 0 = r \<and> region_ok r \<and>
     kernel_start img = physicaddr r \<and> kernel_end img = physicaddr r + int kp * PAGE_SIZE \<and>
     0 < kp \<and> int kp < pages_of r \<and> int w = (pages_of r + 31) div 32 \<and>
     int kp * PAGE_SIZE + 4 * int w \<le> space_size r \<and>
     space_size r - int kp * PAGE_SIZE \<le> INT32_MAX \<and>
     mapped (k_mem k) (kernel_end img) (4 * int w)"

lemma kernel_first_bounds:
  assumes "kernel_first img k r kp w"
  shows "regions k = [r]" "ram_regions_index k \<le> length (ram_regions k)" "region_ok r"
    "space_size r = pages_of r * PAGE_SIZE" "pages_of r \<le> 1048576" "int kp < pages_of r" "0 < kp"
    "0 < w" "w \<le> 32768" "0 \<le> physicaddr r" "physicaddr r + space_size r \<le> UINT32_MAX"
    "int w = (pages_of r + 31) div 32"
proof -
  have d: "region_ok r" "int kp < pages_of r" "0 < kp" "int w = (pages_of r + 31) div 32"
    using assms by (simp_all add: kernel_first_def)
  show s: "space_size r = pages_of r * PAGE_SIZE"
    using d(1) div_mult_mod_eq [of "space_size r" PAGE_SIZE] by (simp add: region_ok_def)
  show b: "0 \<le> physicaddr r" "physicaddr r + space_size r \<le> UINT32_MAX" using d(1) by (simp_all add: region_ok_def)
  define n where "n = pages_of r"
  have "n * PAGE_SIZE \<le> UINT32_MAX" using b s by (simp add: n_def)
  then have n: "n \<le> 1048576" by simp
  then show "pages_of r \<le> 1048576" by (simp add: n_def)
  have w: "int w = (n + 31) div 32" using d(4) by (simp add: n_def)
  have "1 \<le> n" using d(2,3) by (simp add: n_def)
  with n have "1 \<le> (n + 31) div 32" "(n + 31) div 32 \<le> 32768"
    using zdiv_mono1 [of 32 "n + 31" 32] zdiv_mono1 [of "n + 31" 1048607 32] by simp_all
  with w show "0 < w" "w \<le> 32768" by simp_all
  show "regions k = [r]" "ram_regions_index k \<le> length (ram_regions k)"
    using assms by (cases "ram_regions k"; simp add: kernel_first_def)+
qed (use assms in \<open>simp_all add: kernel_first_def\<close>)

lemma get_total_mem_single: "regions k = [r] \<Longrightarrow> get_total_mem k = (Inr (to_u32 (space_size r)), k)"
  by (simp add: get_total_mem_def)

lemma uint_ceil32:
  assumes "0 \<le> n" "n \<le> 1048576"
  shows "uint (udiv_and_ceil (word_of_int n) 32) = (n + 31) div 32"
proof -
  let ?x = "word_of_int n :: u32"
  have "uint ?x = n" using assms by (simp add: uint_word_of_int)
  then have x: "int (unat ?x) = n" by simp
  have "unat (udiv_and_ceil ?x 32) = (unat ?x + 32 - 1) div 32"
    using unat_udiv_and_ceil [of 32 ?x] by simp
  then have "int (unat (udiv_and_ceil ?x 32)) = int ((unat ?x + 31) div 32)" by simp
  also have "\<dots> = (n + 31) div 32" unfolding zdiv_int of_nat_add x by simp
  finally show ?thesis by simp
qed

lemma place_bitmap_run:
  assumes "kernel_first img k r kp w"
  shows "place_bitmap img (4 * int w) 1 0 k = (Inr (kernel_end img), k)"
proof -
  note kb = kernel_first_bounds [OF assms]
  have i: "ram_regions_index k = 1" "ram_regions k ! 0 = r" "kernel_start img = physicaddr r"
    "kernel_end img = physicaddr r + int kp * PAGE_SIZE" "int kp * PAGE_SIZE + 4 * int w \<le> space_size r"
    using assms by (simp_all add: kernel_first_def)
  have e: "to_u32 (physicaddr r + space_size r) = physicaddr r + space_size r"
    using kb(6,10,11) kb(4) by (intro to_u32_id) auto
  have lt: "physicaddr r < physicaddr r + space_size r" using i(5) kb(8) by simp
  have d: "to_u32 (physicaddr r + space_size r - kernel_end img) = space_size r - int kp * PAGE_SIZE"
    using i(4,5) kb(10,11) by (subst to_u32_id) auto
  have z: "to_u32 0 = 0" by (simp add: to_u32_id)
  show ?thesis
    using i kb(8) lt d e z by (simp add: Let_def)
qed

lemma pages_for_bounds:
  assumes "0 < n"
  shows "1 \<le> pages_for n" "(pages_for n - 1) * PAGE_SIZE < n" "n \<le> pages_for n * PAGE_SIZE"
proof -
  define q r where "q = n div PAGE_SIZE" and "r = n mod PAGE_SIZE"
  have "n = q * PAGE_SIZE + r" "0 \<le> r" "r < PAGE_SIZE" by (simp_all add: q_def r_def)
  moreover have "pages_for n = q + (if r \<noteq> 0 then 1 else 0)" by (simp add: pages_for_def q_def r_def)
  ultimately show "1 \<le> pages_for n" "(pages_for n - 1) * PAGE_SIZE < n" "n \<le> pages_for n * PAGE_SIZE"
    using assms by (auto split: if_splits)
qed

lemma pages_for_pages: "pages_for (int p * PAGE_SIZE) = int p"
  by (simp add: pages_for_def)

lemma region_cong:
  "regions k' = regions k \<Longrightarrow> ram_regions_index k' = ram_regions_index k \<Longrightarrow>
   ram_regions_index k' \<le> length (ram_regions k') \<Longrightarrow>
   physic_addr_to_ppn img a k' = (Inr (ppn_of (regions k) (page_align a) 0), k')"
  by (simp add: physic_addr_to_ppn_list)

lemma kernel_first_ppn:
  assumes kf: "kernel_first img k r kp w" and p: "p = 0 \<or> p = kp"
    and k': "ram_regions k' = ram_regions k" "ram_regions_index k' = ram_regions_index k"
  shows "physic_addr_to_ppn img (physicaddr r + int p * PAGE_SIZE) k' = (Inr (int p), k')"
proof -
  note kb = kernel_first_bounds [OF kf]
  have p': "0 \<le> int p" "int p < pages_of r" using p kb(6,7) by auto
  have "page_align (physicaddr r + int p * PAGE_SIZE + 0) = physicaddr r + int p * PAGE_SIZE"
    using kb(3) by (intro page_align_page) (simp_all add: region_ok_def)
  then show ?thesis
    using single_region_ppn [OF kb(3) p'] kb(1,2) k'
    by (subst region_cong [where k = k]) (simp_all del: ppn_of.simps)
qed

lemma init_phys_allocator_run:
  assumes kf: "kernel_first img k r kp w"
  shows "\<exists>m' bm con. init_phys_allocator img k =
      (Inr (), k\<lparr>k_mem := m', k_console := con, physical_bitmap := bm\<rparr>) \<and>
    slots_ptr bm = kernel_end img \<and> slots_size bm = w \<and> bm_ok m' bm \<and>
    used_slots m' bm = {..< kp + nat (pages_for (int w))} \<and> kp + nat (pages_for (int w)) \<le> nat (pages_of r) \<and>
    writes_only (k_mem k) m' (kernel_end img) (4 * int w)"
proof -
  note kb = kernel_first_bounds [OF kf]
  have h: "ram_regions_index k = 1" "kernel_start img = physicaddr r"
    "kernel_end img = physicaddr r + int kp * PAGE_SIZE" "int kp * PAGE_SIZE + 4 * int w \<le> space_size r"
    "space_size r - int kp * PAGE_SIZE \<le> INT32_MAX" "mapped (k_mem k) (kernel_end img) (4 * int w)"
    using kf unfolding kernel_first_def by blast+
  define n where "n = pages_of r"
  have n: "space_size r = n * PAGE_SIZE" "n \<le> 1048576" "int kp < n" "int w = (n + 31) div 32"
    using kb(4,5,6,12) by (simp_all add: n_def)
  note pw = pages_for_bounds [of "int w"]
  have fit: "int kp + pages_for (int w) \<le> n" using h(4) n(1) kb(8) pw by simp
  have cap: "n \<le> 32 * int w" using n(4) by presburger
  have ks: "get_kernel_size img = int kp * PAGE_SIZE"
    using h(2-4) kb(8,10,11) by (simp add: get_kernel_size_def to_u32_id)
  have tot: "get_total_mem k = (Inr (space_size r), k)"
    using get_total_mem_single [OF kb(1)] kb(10,11) n(1,3) by (simp add: to_u32_id)
  have un: "to_s32 (space_size r - get_kernel_size img) = space_size r - int kp * PAGE_SIZE"
    using ks h(4,5) kb(8) by (intro trans [OF to_s32_id]) auto
  have un4: "\<not> space_size r - int kp * PAGE_SIZE < PAGE_SIZE" using n(1,3) by simp
  have bs: "uint (udiv_and_ceil (word_of_int (pages_of r)) 32) = int w"
    unfolding n_def [symmetric] using uint_ceil32 [of n] n(2-4) by simp
  define X where "X = udiv_and_ceil (word_of_int (pages_of r)) 32"
  have bX: "uint X = int w" using bs unfolding X_def .
  have bs': "unat X = w" using arg_cong [OF bX, of nat] by (simp only: nat_int nat_uint_eq)
  have by4: "to_u32 (int w * 4) = 4 * int w" using kb(9) by (simp add: to_u32_id)
  have ke0: "kernel_end img \<noteq> 0" "\<not> kernel_end img = 0" "kernel_start img < kernel_end img"
    using h(2,3) kb(7,10) by auto
  obtain bm m1 where b1: "bitmap_init (k_mem k) (physical_bitmap k) (kernel_end img) w = Inr (bm, m1)"
    "bm_ok m1 bm" "slots_ptr bm = kernel_end img" "slots_size bm = w" "used_slots m1 bm = {}"
    "writes_only (k_mem k) m1 (kernel_end img) (4 * int w)"
    using bitmap_init_spec [OF h(6) ke0(1) kb(8), of "physical_bitmap k"] kb(9) by auto
  define k1 where "k1 = k\<lparr>k_mem := m1, physical_bitmap := bm\<rparr>"
  have cb: "bm_capacity bm = 32 * w" using b1(4) by (simp add: bm_capacity_def)
  have kpc: "kp \<le> 32 * w" using cap n(3) by simp
  have p1: "physic_addr_to_ppn img (kernel_start img) k1 = (Inr (int 0), k1)"
    using kernel_first_ppn [OF kf, of 0 k1] h(2) by (simp add: k1_def)
  from pmm_borrow_pages_run [OF p1 _ refl, of "get_kernel_size img"] b1(2) kb(9) kpc
  obtain m2 c2 where b2: "pmm_borrow_pages img (kernel_start img) (get_kernel_size img) k1 =
      (Inr (), k1\<lparr>k_console := c2, k_mem := m2\<rparr>)" "bm_ok m2 bm"
    "used_slots m2 bm = {0 ..< kp} \<inter> {..< 32 * w}" "bm_writes bm m1 m2"
    by (auto simp: k1_def ks pages_for_pages b1(5) cb)
  define k2 where "k2 = k1\<lparr>k_console := c2, k_mem := m2\<rparr>"
  have p2: "physic_addr_to_ppn img (kernel_end img) k2 = (Inr (int kp), k2)"
    using kernel_first_ppn [OF kf, of kp k2] h(3) by (simp add: k2_def k1_def)
  have lim: "kp + nat (pages_for (int w)) < 4294967296" "kp + nat (pages_for (int w)) \<le> 32 * w"
    using fit n(2) cap pw(1) kb(8) by auto
  from pmm_borrow_pages_run [OF p2 _ refl lim(1)] b2(2)
  obtain m3 c3 where b3: "pmm_borrow_pages img (kernel_end img) (int w) k2 =
      (Inr (), k2\<lparr>k_console := c3, k_mem := m3\<rparr>)" "bm_ok m3 bm"
    "used_slots m3 bm = used_slots m2 bm \<union> ({kp ..< kp + nat (pages_for (int w))} \<inter> {..< 32 * w})"
    "bm_writes bm m2 m3"
    by (auto simp: k2_def k1_def cb)
  have u: "used_slots m3 bm = {..< kp + nat (pages_for (int w))}"
  proof -
    define c where "c = 32 * w"
    have "{0 ..< kp} \<inter> {..< c} = {0 ..< kp}"
      "{kp ..< kp + nat (pages_for (int w))} \<inter> {..< c} = {kp ..< kp + nat (pages_for (int w))}"
      using kpc lim(2) unfolding c_def [symmetric] by (simp_all add: Int_absorb2 subset_iff)
    then show ?thesis
      using b2(3) b3(3) unfolding c_def [symmetric]
      by (simp add: ivl_disj_un_two(3) lessThan_atLeast0)
  qed
  have wr: "writes_only (k_mem k) m3 (kernel_end img) (4 * int w)"
    using writes_only_trans [OF b1(6)] writes_only_trans [OF b2(4) b3(4)] unfolding b1(3,4) by blast
  have ki: "kbitmap_init (kernel_end img) w k = (Inr (), k1)"
    by (simp add: kbitmap_init_def b1(1) k1_def)
  note pl = place_bitmap_run [OF kf]
  have "init_phys_allocator img k =
      (Inr (), k\<lparr>k_mem := m3, k_console := c3 @ ''[OK] Initialized bitmap'' @ nl, physical_bitmap := bm\<rparr>)"
    unfolding init_phys_allocator_def Let_def
    using h(1) ke0 ks un un4 by4 pl ki b2(1) b3(1)
    by (simp add: total_memory_regions_def tot k2_def k1_def X_def [symmetric] bX bs' del: place_bitmap.simps)
  moreover have "kp + nat (pages_for (int w)) \<le> nat (pages_of r)" using fit pw(1) kb(8) n_def by simp
  ultimately show ?thesis using b1(3,4) b3(2) u wr by blast
qed


text \<open>C11: on a machine with one RAM region that starts with the kernel image, initialisation returns; the
  bitmap is placed right behind the image with one bit per page of the region, rounded up to words; the
  pages marked as used are exactly those of the image and the next \<open>pages_for w\<close>, where \<open>w\<close> is the
  number of words of the bitmap; memory is written only inside the bitmap, and nothing but memory, the
  console and the bitmap's descriptor changes.\<close>

theorem init_phys_allocator_layout:
  assumes "kernel_first img k r kp w"
  shows "\<exists>m' bm con. init_phys_allocator img k =
      (Inr (), k\<lparr>k_mem := m', k_console := con, physical_bitmap := bm\<rparr>) \<and>
    slots_ptr bm = kernel_end img \<and> slots_size bm = w \<and>
    used_slots m' bm = {..< kp + nat (pages_for (int w))} \<and>
    writes_only (k_mem k) m' (kernel_end img) (4 * int w)"
  using init_phys_allocator_run [OF assms] by blast

text \<open>256 MiB of RAM, with a kernel of 16 pages.\<close>

definition big_kernel :: kernel where
  "big_kernel = demo_kernel\<lparr>k_mem := (\<lambda>_. Some 0),
     ram_regions := [\<lparr>physicaddr = 0x80000000, space_size = 0x10000000\<rparr>], ram_regions_index := 1\<rparr>"

definition big_image :: image where
  "big_image = demo_image\<lparr>kernel_start := 0x80000000, kernel_end := 0x80010000\<rparr>"

lemma big_kernel_first:
  "kernel_first big_image big_kernel \<lparr>physicaddr = 0x80000000, space_size = 0x10000000\<rparr> 16 2048"
  by (simp add: kernel_first_def big_image_def big_kernel_def region_ok_def mapped_def)

theorem init_phys_allocator_layout_witness:
  "\<exists>m' bm con. init_phys_allocator big_image big_kernel =
      (Inr (), big_kernel\<lparr>k_mem := m', k_console := con, physical_bitmap := bm\<rparr>) \<and>
    slots_ptr bm = 0x80010000 \<and> slots_size bm = 2048 \<and> used_slots m' bm = {..< 17}"
  using init_phys_allocator_layout [OF big_kernel_first] by (auto simp: big_image_def pages_for_def)

lemma allocate_after_prefix:
  assumes ok: "bm_ok m bm" and used: "used_slots m bm = {..< n}" and cap: "n < bm_capacity bm"
  shows "\<exists>bm' m'. bitmap_allocate_slot m (Some bm) = Some (int n, Some bm', m')"
  using bitmap_allocate_slot_spec [OF ok] unfolding used
proof (elim disjE exE conjE)
  assume "{..< bm_capacity bm} \<subseteq> {..< n}"
  with cap have False by (simp add: lessThan_subset_iff)
  then show ?thesis ..
next
  fix s m'
  assume s: "least_free {..< n} 0 (bm_capacity bm) s"
    and e: "bitmap_allocate_slot m (Some bm) =
      Some (int s, Some (bm\<lparr>free_slots_count := free_slots_count bm - 1\<rparr>), m')"
  have "s = n" using s by (auto simp: least_free_def not_less) (metis le_neq_implies_less less_irrefl)
  with e show ?thesis by blast
qed

lemma borrowed_too_few:
  assumes q: "1 \<le> q" "(int q - 1) * PAGE_SIZE < int w" and big: "1024 < w"
  shows "int q * PAGE_SIZE < 4 * int w"
proof (cases "q = 1")
  case False
  then have "2 \<le> int q" using q(1) by simp
  then have "1 * PAGE_SIZE \<le> (int q - 1) * PAGE_SIZE" by (intro mult_right_mono) simp_all
  then show ?thesis using q(2) by (simp add: left_diff_distrib)
qed (use big in simp)

text \<open>C24: initialisation borrows as many pages for the bitmap as its number of words, not its number of
  bytes, would need. The first page handed out afterwards is the page behind those; when the bitmap has more
  than 1024 words (more than 128 MiB of RAM) that page lies inside the bitmap itself.\<close>

theorem first_page_overlaps_bitmap:
  assumes kf: "kernel_first img k r kp w" and big: "1024 < w"
    and room: "int kp + pages_for (int w) < pages_of r"
  shows "\<exists>k' k'' a. init_phys_allocator img k = (Inr (), k') \<and> pmm_allocate_page img k' = (Inr a, k'') \<and>
    a = kernel_end img + pages_for (int w) * PAGE_SIZE \<and>
    slots_ptr (physical_bitmap k') \<le> a \<and>
    a < slots_ptr (physical_bitmap k') + 4 * int (slots_size (physical_bitmap k'))"
proof -
  note kb = kernel_first_bounds [OF kf]
  have h: "ram_regions_index k = 1" "kernel_end img = physicaddr r + int kp * PAGE_SIZE"
    using kf unfolding kernel_first_def by blast+
  define q where "q = nat (pages_for (int w))"
  have q: "pages_for (int w) = int q" "1 \<le> q" "(int q - 1) * PAGE_SIZE < int w"
    using pages_for_bounds [of "int w"] kb(8) by (simp_all add: q_def)
  define n where "n = pages_of r"
  have n: "int kp + int q < n" "n \<le> 1048576" "int w = (n + 31) div 32"
    using room q kb(5,12) by (simp_all add: n_def)
  obtain m' bm con where i: "init_phys_allocator img k =
      (Inr (), k\<lparr>k_mem := m', k_console := con, physical_bitmap := bm\<rparr>)"
    "slots_ptr bm = kernel_end img" "slots_size bm = w" "bm_ok m' bm" "used_slots m' bm = {..< kp + q}"
    using init_phys_allocator_run [OF kf] by (auto simp: q_def)
  define k' where "k' = k\<lparr>k_mem := m', k_console := con, physical_bitmap := bm\<rparr>"
  have cap: "kp + q < bm_capacity bm" using i(3) n by (simp add: bm_capacity_def)
  obtain bm' m'' where a: "bitmap_allocate_slot m' (Some bm) = Some (int (kp + q), Some bm', m'')"
    using allocate_after_prefix [OF i(4,5) cap] by blast
  have p: "find_physical_addr_of_page img (int (kp + q)) k2 = (Inr (physicaddr r + int (kp + q) * PAGE_SIZE), k2)"
    if "ram_regions k2 = ram_regions k" "ram_regions_index k2 = ram_regions_index k" for k2
    using single_region_addr [OF kb(3), of "int (kp + q)"] n(1) kb(1,2) that
    by (subst find_physical_addr_of_page_list) (simp_all add: n_def del: addr_of.simps)
  have "pmm_allocate_page img k' =
      (Inr (physicaddr r + int (kp + q) * PAGE_SIZE), k'\<lparr>k_mem := m'', physical_bitmap := bm'\<rparr>)"
    using a n(1,2) by (simp add: pmm_allocate_page_def kbitmap_allocate_slot_def k'_def p to_u32_id del: of_nat_add)
  moreover have "physicaddr r + int (kp + q) * PAGE_SIZE = kernel_end img + int q * PAGE_SIZE"
    using h(2) by (simp add: algebra_simps)
  moreover have "int q * PAGE_SIZE < 4 * int w" by (rule borrowed_too_few [OF q(2,3) big])
  ultimately show ?thesis using i(1-3) q(1) by (auto simp: k'_def)
qed

theorem first_page_overlaps_bitmap_witness:
  "\<exists>k' k'' a. init_phys_allocator big_image big_kernel = (Inr (), k') \<and>
    pmm_allocate_page big_image k' = (Inr a, k'') \<and> a = 0x80011000 \<and>
    a < slots_ptr (physical_bitmap k') + 4 * int (slots_size (physical_bitmap k'))"
  using first_page_overlaps_bitmap [OF big_kernel_first]
  by (auto simp: big_image_def pages_for_def)

end
