(* ===== verification/Machine.thy ===== *)
theory Machine
  imports Phys_Alloc
begin

text \<open>
  A small machine, with the properties of the device code that are shown to apply on it: a device tree
  with a CLINT and a memory node, the string literals of the image in memory, and 1 MiB of RAM.  Each
  walk through the tree is a lemma of its own, decided by evaluation.
\<close>

section \<open>The machine\<close>

definition machine_tree :: "u8 list list" where
  "machine_tree =
    [[208, 13, 254, 237, 0, 0, 0, 228, 0, 0, 0, 56, 0, 0, 0, 200],
     [0, 0, 0, 40, 0, 0, 0, 17, 0, 0, 0, 16, 0, 0, 0, 0],
     [0, 0, 0, 28, 0, 0, 0, 144, 0, 0, 0, 0, 0, 0, 0, 0],
     [0, 0, 0, 0, 0, 0, 0, 0, 0, 0, 0, 1, 0, 0, 0, 0],
     [0, 0, 0, 1, 99, 108, 105, 110, 116, 0, 0, 0, 0, 0, 0, 3],
     [0, 0, 0, 13, 0, 0, 0, 0, 114, 105, 115, 99, 118, 44, 99, 108],
     [105, 110, 116, 48, 0, 0, 0, 0, 0, 0, 0, 3, 0, 0, 0, 12],
     [0, 0, 0, 11, 0, 0, 0, 0, 2, 0, 0, 0, 0, 1, 0, 0],
     [0, 0, 0, 2, 0, 0, 0, 1, 109, 101, 109, 111, 114, 121, 0, 0],
     [0, 0, 0, 3, 0, 0, 0, 7, 0, 0, 0, 15, 109, 101, 109, 111],
     [114, 121, 0, 0, 0, 0, 0, 3, 0, 0, 0, 12, 0, 0, 0, 11],
     [0, 0, 0, 0, 128, 0, 0, 0, 0, 0, 16, 0, 0, 0, 0, 2],
     [0, 0, 0, 2, 0, 0, 0, 9, 99, 111, 109, 112, 97, 116, 105, 98],
     [108, 101, 0, 114, 101, 103, 0, 100, 101, 118, 105, 99, 101, 95, 116, 121],
     [112, 101, 0, 0, 0, 0, 0, 0, 0, 0, 0, 0, 0, 0, 0, 0],
     [0, 0, 0, 0, 0, 0, 0, 0, 0, 0, 0, 0, 0, 0, 0, 0]]"

definition machine_literals :: "u8 list list" where
  "machine_literals =
    [[99, 111, 109, 112, 97, 116, 105, 98, 108, 101, 0, 35, 97, 100, 100, 114],
     [101, 115, 115, 45, 99, 101, 108, 108, 115, 0, 35, 115, 105, 122, 101, 45],
     [99, 101, 108, 108, 115, 0, 100, 101, 118, 105, 99, 101, 95, 116, 121, 112],
     [101, 0, 109, 101, 109, 111, 114, 121, 0, 114, 101, 103, 0, 114, 105, 115],
     [99, 118, 44, 99, 108, 105, 110, 116, 48, 0, 0, 0, 0, 0, 0, 0]]"

definition machine_mem :: mem where
  "machine_mem a =
     (if 0x80000000 \<le> a \<and> a < 0x80100000 then Some 170
      else if 4096 \<le> a then mem_rows machine_tree 4096 a
      else mem_rows machine_literals 256 a)"

definition machine_lit :: literals where
  "machine_lit s = (case map_of [(''compatible'', 256),
       (''#address-cells'', 267),
       (''#size-cells'', 282),
       (''device_type'', 294),
       (''memory'', 306),
       (''reg'', 313),
       (''riscv,clint0'', 317)] s of Some a \<Rightarrow> a | None \<Rightarrow> 0)"

definition machine_image :: image where
  "machine_image = demo_image\<lparr>lit := machine_lit\<rparr>"

definition machine :: kernel where
  "machine = demo_kernel\<lparr>k_mem := machine_mem\<rparr>"


section \<open>Walks through its tree\<close>

lemma machine_header:
  "fdt_check_header machine_mem 4096 = Some 0" "fdt_totalsize machine_mem 4096 = Some 228"
  by code_simp+

lemma machine_check_full: "fdt_check_full machine_mem 4096 228 = Some 0"
  by code_simp

lemma machine_clint_node:
  "fdt_node_offset_by_compatible machine_mem machine_lit 4096 (- 1) 317 = Some 8"
  by code_simp

lemma machine_clint_reg: "parse_reg machine_mem machine_image 4096 8 = Some (0, Some 0x2000000, Some 0x100)"
  by code_simp

lemma machine_memory_node:
  "fdt_node_offset_by_prop_value machine_mem 4096 (- 1) 294 306 7 = Some 76"
  "fdt_node_offset_by_prop_value machine_mem 4096 76 294 306 7 = Some (- 1)"
  by code_simp+

lemma machine_memory_reg: "parse_reg machine_mem machine_image 4096 76 = Some (0, Some 0x80000000, Some 0x100000)"
  by code_simp

lemma machine_literals_at [simp]:
  "lit machine_image = machine_lit" "machine_lit ''compatible'' = 256" "machine_lit ''device_type'' = 294"
  "machine_lit ''memory'' = 306" "machine_lit ''reg'' = 313" "machine_lit ''riscv,clint0'' = 317"
  by (simp_all add: machine_image_def machine_lit_def)

lemma machine_tree_describes:
  "tree_describes machine_image machine_mem 4096 0x2000000 0x80000000 0x100000"
  by (simp add: tree_describes_def machine_header machine_check_full machine_clint_node machine_clint_reg
      machine_memory_node machine_memory_reg)

section \<open>Properties of the device code\<close>

text \<open>When \<open>init_interrupt_controller\<close> returns, \<open>mtime\<close> is at offset 0xBFF8 of the CLINT and
  \<open>mtimecmp\<close> is the doubleword of this hart in the array at offset 0x4000; the registers and the
  delegation set up before are as they were.  In every other case it does not return.\<close>

theorem init_interrupt_controller_timer:
  assumes "init_interrupt_controller img t k = (Inr (), k')"
  shows "present_timer k' = \<lparr>mtime = to_u32 (clint_addr k' + 0xBFF8),
      mtimecmp = to_u32 (to_u32 (clint_addr k' + 0x4000) + 8 * uint (k_csr k Mhartid))\<rparr> \<and>
    csrs k' = csrs k"
proof -
  obtain e k1 where e: "discover_clint img t k = (e, k1)" by force
  with assms obtain r where r: "discover_clint img t k = (Inr r, k1)"
    by (cases e) (simp_all add: init_interrupt_controller_def)
  have kp: "keeps csrs (discover_clint img t)"
    unfolding discover_clint_def by (intro keep_intros)
  have c1: "csrs k1 = csrs k" using keepsD [OF kp r] .
  have "r = 0 \<or> r = -1 \<or> r = -2"
    using r unfolding discover_clint_def
    by (auto elim!: kbind_cases split: if_splits simp: kthen_def kdo.simps)
  then show ?thesis
  proof (elim disjE)
    assume "r = 0"
    have hart: "k_csr k1 Mhartid = k_csr k Mhartid" using c1 by simp
    from assms r \<open>r = 0\<close> have "kdo [kmod (\<lambda>k. k\<lparr>present_timer := \<lparr>mtime = to_u32 (clint_addr k1 + CLINT_MTIME_OFFSET),
        mtimecmp = to_u32 (to_u32 (clint_addr k1 + CLINT_MTIMECMP_OFFSET) + 8 * uint (k_csr k1 Mhartid))\<rparr>\<rparr>),
          k_printf (''[OK] Discovered CLINT'' @ nl) [],
          k_printf (''[INFO] mtimecmp at %p, mtime at %p'' @ nl)
            [u32_arg (to_u32 (to_u32 (clint_addr k1 + CLINT_MTIMECMP_OFFSET) + 8 * uint (k_csr k1 Mhartid))),
             u32_arg (to_u32 (clint_addr k1 + CLINT_MTIME_OFFSET))]] k1 = (Inr (), k')"
      by (simp add: init_interrupt_controller_def clint_init_timer_def clint_get_time_def
          clint_get_mtimecmp_def del: k_printf_plain)
    then show ?thesis
      using c1 hart
      by (auto simp: kdo.simps k_printf_def split: option.splits elim!: kbind_cases)
  next
    assume "r = -1"
    with assms r show ?thesis
      by (simp add: init_interrupt_controller_def KERNEL_PANIC_stops)
  next
    assume "r = -2"
    with assms r show ?thesis
      by (simp add: init_interrupt_controller_def KERNEL_PANIC_stops)
  qed
qed

theorem init_interrupt_controller_timer_witness:
  "\<exists>k'. init_interrupt_controller machine_image 4096 machine = (Inr (), k') \<and>
    present_timer k' = \<lparr>mtime = 0x200BFF8, mtimecmp = 0x2004000\<rparr> \<and> csrs k' = csrs machine"
proof -
  have m: "k_mem machine = machine_mem" "k_csr machine Mhartid = 0"
    by (simp_all add: machine_def demo_kernel_def)
  from init_interrupt_controller_run [OF machine_tree_describes [folded m(1)]]
  obtain k' where k': "init_interrupt_controller machine_image 4096 machine = (Inr (), k')"
    "clint_addr k' = 0x2000000" by auto
  from init_interrupt_controller_timer [OF k'(1)] k' m(2) show ?thesis
    by (auto simp: to_u32_id)
qed

end
