(* ===== verification/Boot.thy ===== *)
theory Boot
  imports Machine
begin

text \<open>
  The boot path: \<^verbatim>\<open>src/boot/kmain.c\<close>, called from \<^verbatim>\<open>entry.S\<close> on every hart, and what a
  whole boot does.
\<close>

text \<open>\<open>__riscv__zbb\<close> is never defined, so the Zbb bit is not asked for.\<close>

definition RISCV_OPTIONAL_ZBB :: u32 where "RISCV_OPTIONAL_ZBB = 0"

definition NECESSARY_RISCV_EXTENSIONS :: u32 where
  "NECESSARY_RISCV_EXTENSIONS = RISCV_OPTIONAL_ZBB OR
     ext_mask RISCV_EXT_USER_MODE OR ext_mask RISCV_EXT_MUL_DIV OR ext_mask RISCV_EXT_SUPERVISOR_MODE"

definition kmain :: "image \<Rightarrow> u32 \<Rightarrow> int \<Rightarrow> unit kc" where
  "kmain img hart_id device_tree =
     (if hart_id = 0 then kdo
        [disable_interrupts img,
         k_printf (''++++++++++++++++++++++++++++'' @ nl) [],
         ensure_extensions_present img NECESSARY_RISCV_EXTENSIONS,
         setup_interrupt_handler img,
         k_printf (''[OK] Booting on on hardware thread %i'' @ nl) [AInt hart_id],
         check_device_tree img device_tree,
         init_interrupt_controller img device_tree,
         kbind (detect_memory img device_tree) (\<lambda>_. kret ()),
         init_phys_allocator img,
         init_power_controller,
         riscv_switch_to_supervisor img (test_addr img),
         k_printf (''[FINISHED] Nothing to do left: shutting down now'' @ nl) [],
         shutdown 0]
      else halt img)"

section \<open>Who leaves M-mode\<close>

text \<open>
  \<open>no_mret c\<close>: when \<open>c\<close> does not return, it has halted or faulted; only \<open>riscv_switch_to_supervisor\<close> ends in
  \<open>Left_M_Mode\<close>.
\<close>

definition no_mret :: "'a kc \<Rightarrow> bool" where
  "no_mret c \<longleftrightarrow> (\<forall>k e k'. c k = (Inl e, k') \<longrightarrow> e = Halted \<or> e = Fault)"

named_theorems no_mret_intros

lemma no_mret_basic [no_mret_intros]:
  "no_mret (kret x)" "no_mret (kget g)" "no_mret (kmod f)" "no_mret (READ_CSR c)" "no_mret (halt img)"
  "no_mret (WRITE_CSR img c v)" "no_mret (mmio_write a v)" "no_mret (k_putchar ch)"
  "no_mret (disable_interrupts img)" "no_mret (kdo [])" "no_mret (kread h)" "no_mret init_power_controller"
  by (auto simp: no_mret_def kread_def lift_mem_def init_power_controller_def split: option.splits)

lemma no_mret_kbind [no_mret_intros]:
  assumes "no_mret c" "\<And>x. no_mret (g x)"
  shows "no_mret (kbind c g)"
  unfolding no_mret_def
proof (intro allI impI)
  fix k e k' assume "kbind c g k = (Inl e, k')"
  then show "e = Halted \<or> e = Fault"
  proof (cases rule: kbind_cases)
    case (stop e1)
    with assms(1) show ?thesis unfolding no_mret_def by blast
  next
    case (step x k1)
    with assms(2) [of x] show ?thesis unfolding no_mret_def by blast
  qed
qed

lemma no_mret_kdo_Cons [no_mret_intros]: "no_mret c \<Longrightarrow> no_mret (kdo cs) \<Longrightarrow> no_mret (kdo (c # cs))"
  by (simp add: kdo.simps(2) no_mret_kbind)

lemma no_mret_kthen [no_mret_intros]: "no_mret (kdo cs) \<Longrightarrow> no_mret c \<Longrightarrow> no_mret (kthen cs c)"
  by (simp add: kthen_def no_mret_kbind)

lemma no_mret_kwhen [no_mret_intros]: "no_mret c \<Longrightarrow> no_mret (kwhen b c)"
  by (auto simp: no_mret_def)

lemma no_mret_if [no_mret_intros]: "no_mret c \<Longrightarrow> no_mret d \<Longrightarrow> no_mret (if b then c else d)"
  by simp

lemma no_mret_split [no_mret_intros]:
  "(\<And>a b c. no_mret (g a b c)) \<Longrightarrow> no_mret (case x of (a, b, c) \<Rightarrow> g a b c)"
  by (cases x) simp

lemma no_mret_printf [no_mret_intros]: "no_mret (k_printf fmt va)"
  unfolding no_mret_def
proof (intro allI)
  show "k_printf fmt va k = (Inl e, k') \<longrightarrow> e = Halted \<or> e = Fault" for k e k'
    by (rule k_printf_cases [of fmt va k]) auto
qed

lemma no_mret_panic [no_mret_intros]: "no_mret (KERNEL_PANIC img fmt va)"
  unfolding KERNEL_PANIC_def by (intro no_mret_intros)

lemma no_mret_assert [no_mret_intros]: "no_mret (DEBUG_ASSERT img b t f g l)"
  unfolding DEBUG_ASSERT_def by (intro no_mret_intros)

lemma no_mret_kdo_all: "(\<And>c. c \<in> set cs \<Longrightarrow> no_mret c) \<Longrightarrow> no_mret (kdo cs)"
  by (induction cs) (simp_all add: no_mret_intros)

lemma no_mret_checks [no_mret_intros]:
  "no_mret (ensure_extensions_present img req)" "no_mret (setup_interrupt_handler img)"
  "no_mret (check_device_tree img t)" "no_mret (init_interrupt_controller img t)"
  unfolding ensure_extensions_present_def setup_interrupt_handler_def check_device_tree_def
    init_interrupt_controller_def discover_clint_def clint_init_timer_def clint_get_time_def
    clint_get_mtimecmp_def
  by (intro no_mret_intros)+

lemma no_mret_detect_loop: "detect_memory_loop img t n k = (Inl e, k') \<Longrightarrow> e = Halted \<or> e = Fault"
proof (induction img t n k rule: detect_memory_loop.induct)
  case (1 img t n k)
  have ex: "no_mret (extract_ram_region_info img t n)"
    unfolding extract_ram_region_info_def by (intro no_mret_intros)
  have nx: "no_mret (next_memory_node img t n)"
    unfolding next_memory_node_def by (intro no_mret_intros)
  have lg: "no_mret (kbind log_detected_memory (\<lambda>_. kret (0 :: int)))"
    unfolding log_detected_memory_def Let_def
    by (intro no_mret_intros no_mret_kdo_all) (auto simp: region_line_def intro: no_mret_intros)
  from 1(2) show ?case
    using 1(1) ex nx lg unfolding no_mret_def
    by (subst (asm) detect_memory_loop.simps) (fastforce split: prod.splits sum.splits if_splits)
qed

lemma no_mret_detect [no_mret_intros]: "no_mret (detect_memory img t)"
  unfolding detect_memory_def
proof (rule no_mret_kbind)
  show "no_mret (next_memory_node img t (- 1))" unfolding next_memory_node_def by (intro no_mret_intros)
  show "no_mret (detect_memory_loop img t x)" for x
    using no_mret_detect_loop by (auto simp: no_mret_def)
qed

lemma no_mret_bitmap [no_mret_intros]:
  "no_mret (kbitmap_init a n)" "no_mret (kbitmap_mark_as_used i n)" "no_mret kbitmap_allocate_slot"
proof -
  show "no_mret (kbitmap_init a n)"
    unfolding no_mret_def kbitmap_init_def bitmap_init_def
    by (auto simp: lift_mem_def split: sum.splits option.splits if_splits)
qed (auto simp: no_mret_def kbitmap_mark_as_used_def kbitmap_allocate_slot_def split: option.splits prod.splits)

lemma no_mret_region [no_mret_intros]: "no_mret (pmm_get_region img i)"
  unfolding pmm_get_region_def by (intro no_mret_intros)

lemma no_mret_ppn_loop [no_mret_intros]: "no_mret (physic_addr_to_ppn_loop img p n i c)"
  by (induction n arbitrary: i c) (auto intro!: no_mret_intros)

lemma no_mret_place [no_mret_intros]: "no_mret (place_bitmap img b n i)"
  by (induction n arbitrary: i) (auto simp: Let_def intro!: no_mret_intros)

lemma no_mret_borrow [no_mret_intros]: "no_mret (pmm_borrow_pages img a n)"
  unfolding pmm_borrow_pages_def physic_addr_to_ppn_def total_memory_regions_def by (intro no_mret_intros)

lemma no_mret_init_phys [no_mret_intros]: "no_mret (init_phys_allocator img)"
  unfolding init_phys_allocator_def Let_def total_memory_regions_def get_total_mem_def
  by (intro no_mret_intros)

section \<open>The CSRs during the page allocator's initialisation\<close>

lemma bitmap_keeps [keep_intros]:
  "keeps (\<lambda>k. (k_csr k, k_csr_log k)) (kbitmap_init a n)"
  "keeps (\<lambda>k. (k_csr k, k_csr_log k)) (kbitmap_mark_as_used i n)"
  by (auto simp: keeps_def kbitmap_init_def kbitmap_mark_as_used_def split: sum.splits option.splits)

lemma region_keeps [keep_intros]: "keeps f (pmm_get_region img i)"
  unfolding pmm_get_region_def by (intro keep_intros)

lemma ppn_loop_keeps [keep_intros]: "keeps f (physic_addr_to_ppn_loop img p n i c)"
  by (induction n arbitrary: i c) (auto intro!: keep_intros)

lemma place_keeps [keep_intros]: "keeps f (place_bitmap img b n i)"
  by (induction n arbitrary: i) (auto simp: Let_def intro!: keep_intros)

lemma borrow_keeps [keep_intros]: "keeps (\<lambda>k. (k_csr k, k_csr_log k)) (pmm_borrow_pages img a n)"
  unfolding pmm_borrow_pages_def physic_addr_to_ppn_def total_memory_regions_def by (intro keep_intros)

lemma init_phys_keeps: "keeps (\<lambda>k. (k_csr k, k_csr_log k)) (init_phys_allocator img)"
  unfolding init_phys_allocator_def Let_def total_memory_regions_def get_total_mem_def
  by (intro keep_intros)

section \<open>Properties of the boot path\<close>

text \<open>The CSR writes of a boot, given \<open>mstatus\<close> as read first and as read before the switch.\<close>

definition boot_log :: "image \<Rightarrow> u32 \<Rightarrow> u32 \<Rightarrow> (csr \<times> u32) list" where
  "boot_log img ms0 ms1 =
     [(Mstatus, set_field 3 1 0 ms0), (Mideleg, 0), (Medeleg, 0), (Mie, 0), (Mip, 0),
      (Pmpaddr0, - 1), (Pmpaddr1, - 1), (Pmpcfg0, 15), (Satp, 0),
      (Stvec, word_of_int (s_mode_handle_addr img)), (Mstatus, supervisor_mstatus ms1),
      (Mepc, word_of_int (test_addr img)),
      (Medeleg, RISCV_ALL_INTR_SOURCES_ON), (Mideleg, RISCV_ALL_INTR_SOURCES_ON)]"

lemma no_mretD: "no_mret c \<Longrightarrow> c k = (Inl Left_M_Mode, k') \<Longrightarrow> False"
  by (auto simp: no_mret_def)

lemma kdo_run:
  assumes "kdo (c # cs) k = (r, k')"
  obtains (stop) e where "c k = (Inl e, k')" "r = Inl e"
    | (step) k1 where "c k = (Inr (), k1)" "kdo cs k1 = (r, k')"
  using assms unfolding kdo.simps(2) by (auto elim: kbind_cases)

lemma kdo_returns: "kdo (cs @ ds) k = (Inr (), k') \<Longrightarrow> \<exists>k1. kdo ds k1 = (Inr (), k')"
  by (induction cs arbitrary: k) (auto elim!: kdo_run)

lemma kdo_leaves:
  "kdo (cs @ ds) k = (Inl Left_M_Mode, k') \<Longrightarrow>
   \<forall>c \<in> set cs. no_mret c \<and> keeps (\<lambda>k. (k_csr k, k_csr_log k)) c \<Longrightarrow>
   \<exists>k1. csrs k1 = csrs k \<and> kdo ds k1 = (Inl Left_M_Mode, k')"
proof (induction cs arbitrary: k)
  case (Cons c cs)
  from Cons.prems(1) have "kdo (c # (cs @ ds)) k = (Inl Left_M_Mode, k')" by simp
  then show ?case
  proof (cases rule: kdo_run)
    case (step k1)
    with Cons.prems(2) have "csrs k1 = csrs k" by (auto dest: keepsD)
    with Cons.IH [OF step(2)] Cons.prems(2) show ?thesis by auto
  qed (use Cons.prems(2) in \<open>auto dest: no_mretD\<close>)
qed auto

lemma switch_run:
  "riscv_switch_to_supervisor img jump k = (Inl Left_M_Mode, snd (riscv_switch_to_supervisor img jump k)) \<and>
   k_csr_log (snd (riscv_switch_to_supervisor img jump k)) = k_csr_log k @
       [(Pmpaddr0, - 1), (Pmpaddr1, - 1), (Pmpcfg0, 15), (Satp, 0),
        (Stvec, word_of_int (s_mode_handle_addr img)), (Mstatus, supervisor_mstatus (k_csr k Mstatus)),
        (Mepc, word_of_int jump),
        (Medeleg, RISCV_ALL_INTR_SOURCES_ON), (Mideleg, RISCV_ALL_INTR_SOURCES_ON)]"
  by (simp add: riscv_switch_to_supervisor_def)

lemma ensure_keeps: "keeps (\<lambda>k. (k_csr k, k_csr_log k)) (ensure_extensions_present img req)"
  unfolding ensure_extensions_present_def by (intro keep_intros)

lemma setup_log:
  assumes "setup_interrupt_handler img k = (Inr (), k1)"
  shows "k_csr_log k1 = k_csr_log k @ [(Mideleg, 0), (Medeleg, 0), (Mie, 0), (Mip, 0)] \<and>
    k_csr k1 Mstatus = k_csr k Mstatus"
  using assms unfolding setup_interrupt_handler_def
  by (cases "m_mode_handle_addr img mod 4 = 0")
     (auto simp: DEBUG_ASSERT_def kthen_def elim!: kbind_cases kdo_run)

text \<open>The two stretches of \<open>kmain\<close> that leave the CSRs alone, and what follows the switch.\<close>

definition boot_devices :: "image \<Rightarrow> int \<Rightarrow> unit kc list" where
  "boot_devices img t =
     [k_printf (''[OK] Booting on on hardware thread %i'' @ nl) [AInt 0], check_device_tree img t,
      init_interrupt_controller img t, kbind (detect_memory img t) (\<lambda>_. kret ()), init_phys_allocator img,
      init_power_controller]"

definition boot_end :: "unit kc list" where
  "boot_end = [k_printf (''[FINISHED] Nothing to do left: shutting down now'' @ nl) [], shutdown 0]"

definition boot_start :: "image \<Rightarrow> kernel \<Rightarrow> kernel" where
  "boot_start img k = (halted img k)\<lparr>k_console := k_console k @ ''++++++++++++++++++++++++++++'' @ nl\<rparr>"

lemma kmain_steps:
  "kmain img 0 t k = kdo ([ensure_extensions_present img NECESSARY_RISCV_EXTENSIONS] @
     setup_interrupt_handler img # boot_devices img t @
     riscv_switch_to_supervisor img (test_addr img) # boot_end) (boot_start img k)"
  by (simp add: kmain_def boot_devices_def boot_end_def boot_start_def del: append.simps(2))
     (simp only: append_Cons append_Nil)

lemma power_keeps: "keeps (\<lambda>k. (k_csr k, k_csr_log k)) init_power_controller"
  unfolding init_power_controller_def by (rule keeps_kmod) simp

lemma boot_devices_ok: "\<forall>c \<in> set (boot_devices img t). no_mret c \<and> keeps (\<lambda>k. (k_csr k, k_csr_log k)) c"
  unfolding boot_devices_def
  by (simp add: no_mret_intros keep_intros check_device_tree_keeps init_interrupt_controller_keeps
      detect_memory_keeps init_phys_keeps power_keeps del: append.simps)

lemma kmain_leaves:
  assumes "kmain img 0 t k = (Inl Left_M_Mode, k')"
  shows "k_csr_log k' = k_csr_log k @ boot_log img (k_csr k Mstatus) (k_csr (halted img k) Mstatus)"
proof -
  define k1 where "k1 = boot_start img k"
  have l1: "k_csr_log k1 = k_csr_log k @ [(Mstatus, set_field 3 1 0 (k_csr k Mstatus))]"
    "k_csr k1 = k_csr (halted img k)"
    by (simp_all add: k1_def boot_start_def halted_def Let_def)
  from kdo_leaves [OF assms [unfolded kmain_steps]]
  obtain k2 where l2: "csrs k2 = csrs k1" and "kdo (setup_interrupt_handler img # boot_devices img t @
     riscv_switch_to_supervisor img (test_addr img) # boot_end) k2 = (Inl Left_M_Mode, k')"
    by (auto simp: k1_def no_mret_intros ensure_keeps)
  from this(2) obtain k3 where k3: "setup_interrupt_handler img k2 = (Inr (), k3)"
    and "kdo (boot_devices img t @ riscv_switch_to_supervisor img (test_addr img) # boot_end) k3 =
      (Inl Left_M_Mode, k')"
    by (rule kdo_run) (auto dest: no_mretD [OF no_mret_checks(2)])
  from kdo_leaves [OF this(2) boot_devices_ok] obtain k4 where l4: "csrs k4 = csrs k3"
    and k': "kdo (riscv_switch_to_supervisor img (test_addr img) # boot_end) k4 = (Inl Left_M_Mode, k')"
    by blast
  define k5 where "k5 = snd (riscv_switch_to_supervisor img (test_addr img) k4)"
  have sw: "riscv_switch_to_supervisor img (test_addr img) k4 = (Inl Left_M_Mode, k5)"
    using switch_run unfolding k5_def by blast
  have "k' = k5" using k' kdo_Inl [of "riscv_switch_to_supervisor img (test_addr img)" k4, OF sw] by simp
  then show ?thesis
    unfolding boot_log_def k5_def using switch_run [of img "test_addr img" k4] l1 l2 l4 setup_log [OF k3] by simp
qed

lemma kmain_never_returns: "kmain img hart t k \<noteq> (Inr (), k')"
proof
  assume a: "kmain img hart t k = (Inr (), k')"
  then have "hart = 0" by (cases "hart = 0") (simp_all add: kmain_def)
  with a have "kmain img 0 t k = (Inr (), k')" by simp
  then have "kdo (([ensure_extensions_present img NECESSARY_RISCV_EXTENSIONS] @
     setup_interrupt_handler img # boot_devices img t) @
     riscv_switch_to_supervisor img (test_addr img) # boot_end) (boot_start img k) = (Inr (), k')"
    unfolding kmain_steps by (simp only: append_assoc append_Cons)
  from kdo_returns [OF this] obtain k1 where
    "kdo (riscv_switch_to_supervisor img (test_addr img) # boot_end) k1 = (Inr (), k')" by blast
  moreover have "riscv_switch_to_supervisor img (test_addr img) k1 =
      (Inl Left_M_Mode, snd (riscv_switch_to_supervisor img (test_addr img) k1))"
    using switch_run by blast
  ultimately show False by simp
qed

lemma kdo_stops:
  "kdo (cs @ ds) k = (Inl e, k') \<Longrightarrow> \<forall>c \<in> set cs. no_mret c \<Longrightarrow>
   e = Halted \<or> e = Fault \<or> (\<exists>k1. kdo ds k1 = (Inl e, k'))"
proof (induction cs arbitrary: k)
  case (Cons c cs)
  from Cons.prems(1) have "kdo (c # (cs @ ds)) k = (Inl e, k')" by simp
  then show ?case
  proof (cases rule: kdo_run)
    case (stop x)
    with Cons.prems(2) show ?thesis by (auto simp: no_mret_def)
  next
    case (step k1)
    with Cons.IH [OF step(2)] Cons.prems(2) show ?thesis by simp
  qed
qed auto

text \<open>C23: whatever the hart, the tree and the state, \<open>kmain\<close> never returns to \<^verbatim>\<open>entry.S\<close>.  A hart other
  than 0 halts: it switches interrupts off with one write to \<open>mstatus\<close> and changes nothing else.  Hart 0
  leaves M-mode in \<open>mret\<close>, halts after a failed check, or is stopped by a fault of the library code it calls
  (an access outside the mapped memory, or a loop that does not end); it never runs into
  \<open>__builtin_unreachable\<close>, and the shutdown behind the switch is never reached.\<close>

theorem kmain_outcome:
  "(\<forall>k'. kmain img hart t k \<noteq> (Inr (), k')) \<and>
   (if hart = 0 then \<exists>e k'. kmain img hart t k = (Inl e, k') \<and> (e = Left_M_Mode \<or> e = Halted \<or> e = Fault)
    else kmain img hart t k = (Inl Halted,
      k\<lparr>k_csr := (k_csr k)(Mstatus := csr_warl img Mstatus (k_csr k Mstatus) (set_field 3 1 0 (k_csr k Mstatus))),
        k_csr_log := k_csr_log k @ [(Mstatus, set_field 3 1 0 (k_csr k Mstatus))]\<rparr>))"
proof (cases "hart = 0")
  case True
  obtain e k' where r: "kmain img 0 t k = (Inl e, k')"
    using kmain_never_returns [of img 0 t k] by (metis old.sum.exhaust old.unit.exhaust surj_pair)
  let ?sw = "riscv_switch_to_supervisor img (test_addr img)"
  have all: "\<forall>c \<in> set ([ensure_extensions_present img NECESSARY_RISCV_EXTENSIONS] @
      setup_interrupt_handler img # boot_devices img t). no_mret c"
    using boot_devices_ok [of img t] no_mret_checks(1,2) by auto
  have sw: "?sw k1 = (Inl Left_M_Mode, snd (?sw k1))" for k1 using switch_run by blast
  have "kdo (([ensure_extensions_present img NECESSARY_RISCV_EXTENSIONS] @
     setup_interrupt_handler img # boot_devices img t) @ ?sw # boot_end) (boot_start img k) = (Inl e, k')"
    using r unfolding kmain_steps by (simp only: append_assoc append_Cons)
  from kdo_stops [OF this all] have "e = Halted \<or> e = Fault \<or> e = Left_M_Mode"
    using kdo_Inl [OF sw] by auto
  with True r kmain_never_returns show ?thesis by auto
next
  case False
  then have "kmain img hart t k = (Inl Halted, halted img k)" by (simp add: kmain_def)
  with False show ?thesis by (simp add: halted_def Let_def)
qed

text \<open>C14: the machine mode code writes the CSRs the same way on every boot that reaches supervisor mode,
  whatever the device tree: interrupts off, the four trap registers cleared, then the nine writes of the
  switch, and no other. Only hart 0 gets there.\<close>

theorem kmain_csr_order:
  assumes "kmain img hart t k = (Inl Left_M_Mode, k')"
  shows "hart = 0 \<and> k_csr_log k' = k_csr_log k @ boot_log img (k_csr k Mstatus)
    (csr_warl img Mstatus (k_csr k Mstatus) (set_field 3 1 0 (k_csr k Mstatus)))"
proof -
  have "hart = 0" using assms by (cases "hart = 0") (simp_all add: kmain_def)
  with kmain_leaves assms show ?thesis by (fastforce simp: halted_def Let_def)
qed

lemma kernel_first_cong:
  assumes "kernel_first img k r kp w" "k_mem k' = k_mem k" "ram_regions k' = ram_regions k"
    "ram_regions_index k' = ram_regions_index k"
  shows "kernel_first img k' r kp w"
  using assms(1) unfolding kernel_first_def assms(2-4) .

lemma switch_frame:
  fixes k :: kernel and img jump
  defines "k' \<equiv> snd (riscv_switch_to_supervisor img jump k)"
  shows "k_mem k' = k_mem k" "present_timer k' = present_timer k" "ram_regions k' = ram_regions k"
    "ram_regions_index k' = ram_regions_index k" "physical_bitmap k' = physical_bitmap k"
    "shutdown_fn k' = shutdown_fn k" "reboot_fn k' = reboot_fn k" "k_mmio k' = k_mmio k"
    "k_csr k' Mepc = csr_warl img Mepc (k_csr k Mepc) (word_of_int jump)"
    "k_csr k' Mstatus = csr_warl img Mstatus (k_csr k Mstatus) (supervisor_mstatus (k_csr k Mstatus))"
  unfolding k'_def by (simp_all add: riscv_switch_to_supervisor_def)

lemma kmain_boots_run:
  assumes tree: "tree_describes img (k_mem k) t a b s"
    and none: "length (ram_regions k) = MAX_MEM_REGIONS" "ram_regions_index k = 0"
    and ext: "k_csr k Misa AND NECESSARY_RISCV_EXTENSIONS = NECESSARY_RISCV_EXTENSIONS"
    and al: "m_mode_handle_addr img mod 4 = 0"
    and kf: "kernel_first img (k\<lparr>ram_regions := (ram_regions k)[0 := \<lparr>physicaddr = b, space_size = s\<rparr>],
      ram_regions_index := 1\<rparr>) \<lparr>physicaddr = b, space_size = s\<rparr> kp w"
  shows "\<exists>k'. kmain img 0 t k = (Inl Left_M_Mode, k') \<and>
    present_timer k' = \<lparr>mtime = to_u32 (a + 0xBFF8),
      mtimecmp = to_u32 (to_u32 (a + 0x4000) + 8 * uint (k_csr k Mhartid))\<rparr> \<and>
    ram_regions_index k' = 1 \<and> ram_regions k' ! 0 = \<lparr>physicaddr = b, space_size = s\<rparr> \<and>
    slots_ptr (physical_bitmap k') = kernel_end img \<and>
    used_slots (k_mem k') (physical_bitmap k') = {..< kp + nat (pages_for (int w))} \<and>
    shutdown_fn k' = Some Syscon_shutdown \<and> reboot_fn k' = Some Syscon_reboot \<and>
    k_mmio k' = k_mmio k \<and>
    k_csr k' Mepc = csr_warl img Mepc (k_csr k Mepc) (word_of_int (test_addr img)) \<and>
    (\<exists>old ms. k_csr k' Mstatus = csr_warl img Mstatus old ms \<and> bit ms 11 \<and> \<not> bit ms 12)"
proof -
  define r :: ram_descriptor where "r = \<lparr>physicaddr = b, space_size = s\<rparr>"
  obtain c1 where c1: "ensure_extensions_present img NECESSARY_RISCV_EXTENSIONS (boot_start img k) =
      (Inr (), (boot_start img k)\<lparr>k_console := c1\<rparr>)"
    using ext by (simp add: ensure_extensions_present_def boot_start_def halted_def Let_def)
  obtain k1 where k1: "setup_interrupt_handler img ((boot_start img k)\<lparr>k_console := c1\<rparr>) = (Inr (), k1)"
    "k_mem k1 = k_mem k" "ram_regions k1 = ram_regions k" "ram_regions_index k1 = ram_regions_index k"
    "k_csr k1 Mhartid = k_csr k Mhartid" "k_mmio k1 = k_mmio k" "k_csr k1 Mepc = k_csr k Mepc"
    using al by (simp add: setup_interrupt_handler_def boot_start_def halted_def Let_def)
  obtain cs where "render (''[OK] Booting on on hardware thread %i'' @ nl) [AInt 0] = Some cs"
    by (simp add: render_cons signed_chars del: render_simps(2))
  then obtain c2 where c2: "k_printf (''[OK] Booting on on hardware thread %i'' @ nl) [AInt 0] k1 =
      (Inr (), k1\<lparr>k_console := c2\<rparr>)" using k_printf_prints by blast
  define k2 where "k2 = k1\<lparr>k_console := c2\<rparr>"
  have t2: "tree_describes img (k_mem k2) t a b s" using tree k1(2) by (simp add: k2_def)
  define k3 where "k3 = k2\<lparr>k_console := k_console k2 @ ''[OK] Device tree verified'' @ nl\<rparr>"
  have c3: "check_device_tree img t k2 = (Inr (), k3)"
    using check_device_tree_run [OF t2] by (simp add: k3_def)
  obtain c4 where c4: "init_interrupt_controller img t k3 = (Inr (), k3\<lparr>clint_addr := a,
      present_timer := \<lparr>mtime = to_u32 (a + 0xBFF8),
        mtimecmp = to_u32 (to_u32 (a + 0x4000) + 8 * uint (k_csr k3 Mhartid))\<rparr>, k_console := c4\<rparr>)"
    using init_interrupt_controller_run [of img k3 t a b s] t2 by (auto simp: k3_def)
  define k4 where "k4 = k3\<lparr>clint_addr := a,
      present_timer := \<lparr>mtime = to_u32 (a + 0xBFF8),
        mtimecmp = to_u32 (to_u32 (a + 0x4000) + 8 * uint (k_csr k3 Mhartid))\<rparr>, k_console := c4\<rparr>"
  have s4: "k_mem k4 = k_mem k" "ram_regions k4 = ram_regions k" "ram_regions_index k4 = 0"
    "k_mmio k4 = k_mmio k" "k_csr k3 Mhartid = k_csr k Mhartid" "k_csr k4 Mepc = k_csr k Mepc"
    using k1 none by (simp_all add: k4_def k3_def k2_def)
  obtain c5 where c5: "detect_memory img t k4 = (Inr 0, k4\<lparr>ram_regions := (ram_regions k)[0 := r],
      ram_regions_index := 1, k_console := c5\<rparr>)"
    using detect_memory_run [of img k4 t a b s] tree none s4 by (auto simp: r_def)
  define k5 where "k5 = k4\<lparr>ram_regions := (ram_regions k)[0 := r], ram_regions_index := 1, k_console := c5\<rparr>"
  have kf5: "kernel_first img k5 r kp w"
    using kf unfolding r_def [symmetric] by (rule kernel_first_cong) (simp_all add: k5_def s4)
  obtain m6 bm con where c6: "init_phys_allocator img k5 =
      (Inr (), k5\<lparr>k_mem := m6, k_console := con, physical_bitmap := bm\<rparr>)"
    "slots_ptr bm = kernel_end img" "used_slots m6 bm = {..< kp + nat (pages_for (int w))}"
    using init_phys_allocator_run [OF kf5] by blast
  define k6 where "k6 = k5\<lparr>k_mem := m6, k_console := con, physical_bitmap := bm\<rparr>"
  define k7 where "k7 = k6\<lparr>shutdown_fn := Some Syscon_shutdown, reboot_fn := Some Syscon_reboot\<rparr>"
  define k8 where "k8 = snd (riscv_switch_to_supervisor img (test_addr img) k7)"
  have sw: "riscv_switch_to_supervisor img (test_addr img) k7 = (Inl Left_M_Mode, k8)"
    using switch_run unfolding k8_def by blast
  have pw: "init_power_controller k6 = (Inr (), k7)" by (simp add: init_power_controller_def k7_def)
  have d: "kbind (detect_memory img t) (\<lambda>_. kret ()) k4 = (Inr (), k5)"
    using c5 by (simp add: k5_def)
  have "kdo (boot_devices img t @ riscv_switch_to_supervisor img (test_addr img) # boot_end) k1 =
      (Inl Left_M_Mode, k8)"
    using c2 [folded k2_def] unfolding boot_devices_def
    by (simp add: c3 c4 [folded k4_def] d c6(1) [folded k6_def] pw sw)
  then have "kmain img 0 t k = (Inl Left_M_Mode, k8)"
    unfolding kmain_steps using c1 k1(1) by simp
  moreover have "0 < length (ram_regions k)" using none(1) by simp
  moreover have "bit (supervisor_mstatus (k_csr k7 Mstatus)) 11" "\<not> bit (supervisor_mstatus (k_csr k7 Mstatus)) 12"
    by (simp_all add: bit_supervisor_mstatus)
  moreover have "k_csr k7 Mepc = k_csr k Mepc" using s4(6) by (simp add: k7_def k6_def k5_def)
  moreover have "\<exists>old ms. k_csr k8 Mstatus = csr_warl img Mstatus old ms \<and> bit ms 11 \<and> \<not> bit ms 12"
    unfolding k8_def switch_frame(10) using calculation by blast
  ultimately show ?thesis
    using c6(2,3) s4 by (intro exI [of _ k8])
      (simp add: k8_def switch_frame k7_def k6_def k5_def k4_def r_def)
qed

text \<open>C1: on a machine whose device tree passes the checks and describes a CLINT at \<open>a\<close> and one memory
  region, and whose kernel image starts that region, hart 0 boots: it executes \<open>mret\<close> with the address of
  \<open>test\<close> written to \<open>mepc\<close> and supervisor mode (01) to MPP, as the legalisation of CSR writes takes them, with
  the timer registers of this hart found, the region recorded, the pages of the image and those borrowed for
  the bitmap marked as used, and both power functions set.  Apart from the bytes printed through the UART no
  device register is written.\<close>

theorem kmain_boots:
  assumes tree: "tree_describes img (k_mem k) t a b s"
    and none: "length (ram_regions k) = MAX_MEM_REGIONS" "ram_regions_index k = 0"
    and ext: "k_csr k Misa AND NECESSARY_RISCV_EXTENSIONS = NECESSARY_RISCV_EXTENSIONS"
    and al: "m_mode_handle_addr img mod 4 = 0"
    and kf: "kernel_first img (k\<lparr>ram_regions := (ram_regions k)[0 := \<lparr>physicaddr = b, space_size = s\<rparr>],
      ram_regions_index := 1\<rparr>) \<lparr>physicaddr = b, space_size = s\<rparr> kp w"
  shows "\<exists>k'. kmain img 0 t k = (Inl Left_M_Mode, k') \<and>
    present_timer k' = \<lparr>mtime = to_u32 (a + 0xBFF8),
      mtimecmp = to_u32 (to_u32 (a + 0x4000) + 8 * uint (k_csr k Mhartid))\<rparr> \<and>
    ram_regions_index k' = 1 \<and> ram_regions k' ! 0 = \<lparr>physicaddr = b, space_size = s\<rparr> \<and>
    slots_ptr (physical_bitmap k') = kernel_end img \<and>
    used_slots (k_mem k') (physical_bitmap k') = {..< kp + nat (pages_for (int w))} \<and>
    shutdown_fn k' = Some Syscon_shutdown \<and> reboot_fn k' = Some Syscon_reboot \<and>
    k_mmio k' = k_mmio k \<and>
    k_csr k' Mepc = csr_warl img Mepc (k_csr k Mepc) (word_of_int (test_addr img)) \<and>
    (\<exists>old ms. k_csr k' Mstatus = csr_warl img Mstatus old ms \<and> bit ms 11 \<and> \<not> bit ms 12)"
  using kmain_boots_run [OF assms] .

lemma machine_kernel_first:
  "kernel_first machine_image (machine\<lparr>ram_regions :=
      (ram_regions machine)[0 := \<lparr>physicaddr = 0x80000000, space_size = 0x100000\<rparr>], ram_regions_index := 1\<rparr>)
     \<lparr>physicaddr = 0x80000000, space_size = 0x100000\<rparr> 16 8"
  by (simp add: kernel_first_def machine_def demo_kernel_def machine_image_def demo_image_def region_ok_def
      mapped_def machine_mem_def)

lemma machine_boot_facts:
  "k_mem machine = machine_mem" "length (ram_regions machine) = MAX_MEM_REGIONS" "ram_regions_index machine = 0"
  "k_csr machine Misa AND NECESSARY_RISCV_EXTENSIONS = NECESSARY_RISCV_EXTENSIONS"
  "m_mode_handle_addr machine_image mod 4 = 0" "k_csr machine Mhartid = 0" "k_csr machine Mstatus = 0x1888"
  "k_csr_log machine = []" "csr_warl machine_image c v w = w"
  by (simp_all add: machine_def demo_kernel_def machine_image_def demo_image_def
      NECESSARY_RISCV_EXTENSIONS_def RISCV_OPTIONAL_ZBB_def ext_mask_def)

lemma machine_test_addr: "test_addr machine_image = 0x80000300"
  by (simp add: machine_image_def demo_image_def)

theorem kmain_boots_witness:
  "\<exists>k'. kmain machine_image 0 4096 machine = (Inl Left_M_Mode, k') \<and>
    present_timer k' = \<lparr>mtime = 0x200BFF8, mtimecmp = 0x2004000\<rparr> \<and>
    used_slots (k_mem k') (physical_bitmap k') = {..< 17} \<and> k_csr k' Mepc = 0x80000300 \<and> bit (k_csr k' Mstatus) 11 \<and>
    \<not> bit (k_csr k' Mstatus) 12"
  using kmain_boots [OF machine_tree_describes [folded machine_boot_facts(1)] machine_boot_facts(2-5)
      machine_kernel_first] machine_boot_facts(6)
  by (auto simp: to_u32_id pages_for_def machine_boot_facts(9) machine_test_addr)

theorem kmain_csr_order_witness:
  "\<exists>k'. kmain machine_image 0 4096 machine = (Inl Left_M_Mode, k') \<and>
    k_csr_log k' = boot_log machine_image 0x1888 0x1880"
proof -
  obtain k' where k': "kmain machine_image 0 4096 machine = (Inl Left_M_Mode, k')"
    using kmain_boots_run [OF machine_tree_describes [folded machine_boot_facts(1)] machine_boot_facts(2-5)
      machine_kernel_first] by blast
  have "set_field 3 1 0 (0x1888 :: u32) = 0x1880" by code_simp
  with kmain_csr_order [OF k'] k' show ?thesis by (auto simp: machine_boot_facts)
qed

end
