(* ===== verification/Fdt_Write.thy ===== *)
theory Fdt_Write
  imports Fdt_Ro
begin

text \<open>
  libfdt writing into a blob: the big-endian stores of \<^verbatim>\<open>libfdt/libfdt.h\<close> and
  \<^verbatim>\<open>libfdt/libfdt_env.h\<close>, the header setters, and the writes in place of \<^verbatim>\<open>libfdt/fdt_wip.c\<close>.
  A writing function gives its result with the memory after it, also when the result is an error.
\<close>

section \<open>Big-endian stores\<close>

definition cpu_to_fdt32 :: "u32 \<Rightarrow> u32" where
  "cpu_to_fdt32 x = word_of_bytes (byte_of 3 x) (byte_of 2 x) (byte_of 1 x) (byte_of 0 x)"

text \<open>The assignment \<open>*p = cpu_to_fdt32(v)\<close>, and \<open>*p = cpu_to_fdt64(v)\<close>, a store of two words.\<close>

definition fdt32_set :: "mem \<Rightarrow> int \<Rightarrow> int \<Rightarrow> mem option" where
  "fdt32_set m p v = store32 m p (cpu_to_fdt32 (word_of_int v))"

definition fdt64_set :: "mem \<Rightarrow> int \<Rightarrow> int \<Rightarrow> mem option" where
  "fdt64_set m p v = do { m \<leftarrow> fdt32_set m p (v div 4294967296); fdt32_set m (p + 4) v }"

definition fdt32_st :: "mem \<Rightarrow> int \<Rightarrow> u32 \<Rightarrow> mem option" where
  "fdt32_st m p value = do {
     m \<leftarrow> store8 m p (ucast (drop_bit 24 value));
     m \<leftarrow> store8 m (p + 1) (ucast (drop_bit 16 value AND 0xff));
     m \<leftarrow> store8 m (p + 2) (ucast (drop_bit 8 value AND 0xff));
     store8 m (p + 3) (ucast (value AND 0xff)) }"

definition fdt64_st :: "mem \<Rightarrow> int \<Rightarrow> u64 \<Rightarrow> mem option" where
  "fdt64_st m p value = do {
     m \<leftarrow> store8 m p (ucast (drop_bit 56 value));
     m \<leftarrow> store8 m (p + 1) (ucast (drop_bit 48 value AND 0xff));
     m \<leftarrow> store8 m (p + 2) (ucast (drop_bit 40 value AND 0xff));
     m \<leftarrow> store8 m (p + 3) (ucast (drop_bit 32 value AND 0xff));
     m \<leftarrow> store8 m (p + 4) (ucast (drop_bit 24 value AND 0xff));
     m \<leftarrow> store8 m (p + 5) (ucast (drop_bit 16 value AND 0xff));
     m \<leftarrow> store8 m (p + 6) (ucast (drop_bit 8 value AND 0xff));
     store8 m (p + 7) (ucast (value AND 0xff)) }"

text \<open>The header setters that \<open>fdt_set_hdr_\<close> declares.\<close>

definition fdt_set_magic :: "mem \<Rightarrow> int \<Rightarrow> int \<Rightarrow> mem option" where
  "fdt_set_magic m fdt v = fdt32_set m fdt v"

definition fdt_set_totalsize :: "mem \<Rightarrow> int \<Rightarrow> int \<Rightarrow> mem option" where
  "fdt_set_totalsize m fdt v = fdt32_set m (fdt + 4) v"

definition fdt_set_off_dt_struct :: "mem \<Rightarrow> int \<Rightarrow> int \<Rightarrow> mem option" where
  "fdt_set_off_dt_struct m fdt v = fdt32_set m (fdt + 8) v"

definition fdt_set_off_dt_strings :: "mem \<Rightarrow> int \<Rightarrow> int \<Rightarrow> mem option" where
  "fdt_set_off_dt_strings m fdt v = fdt32_set m (fdt + 12) v"

definition fdt_set_off_mem_rsvmap :: "mem \<Rightarrow> int \<Rightarrow> int \<Rightarrow> mem option" where
  "fdt_set_off_mem_rsvmap m fdt v = fdt32_set m (fdt + 16) v"

definition fdt_set_version :: "mem \<Rightarrow> int \<Rightarrow> int \<Rightarrow> mem option" where
  "fdt_set_version m fdt v = fdt32_set m (fdt + 20) v"

definition fdt_set_last_comp_version :: "mem \<Rightarrow> int \<Rightarrow> int \<Rightarrow> mem option" where
  "fdt_set_last_comp_version m fdt v = fdt32_set m (fdt + 24) v"

definition fdt_set_boot_cpuid_phys :: "mem \<Rightarrow> int \<Rightarrow> int \<Rightarrow> mem option" where
  "fdt_set_boot_cpuid_phys m fdt v = fdt32_set m (fdt + 28) v"

definition fdt_set_size_dt_strings :: "mem \<Rightarrow> int \<Rightarrow> int \<Rightarrow> mem option" where
  "fdt_set_size_dt_strings m fdt v = fdt32_set m (fdt + 32) v"

definition fdt_set_size_dt_struct :: "mem \<Rightarrow> int \<Rightarrow> int \<Rightarrow> mem option" where
  "fdt_set_size_dt_struct m fdt v = fdt32_set m (fdt + 36) v"

definition fdt_boot_cpuid_phys :: "mem \<Rightarrow> int \<Rightarrow> int option" where
  "fdt_boot_cpuid_phys m fdt = fdt32_ld m (fdt + 28)"

lemmas fdt_set_defs = fdt_set_magic_def fdt_set_totalsize_def fdt_set_off_dt_struct_def
  fdt_set_off_dt_strings_def fdt_set_off_mem_rsvmap_def fdt_set_version_def
  fdt_set_last_comp_version_def fdt_set_boot_cpuid_phys_def fdt_set_size_dt_strings_def
  fdt_set_size_dt_struct_def

section \<open>Writes in place\<close>

definition fdt_setprop_inplace_namelen_partial ::
  "mem \<Rightarrow> int \<Rightarrow> int \<Rightarrow> int \<Rightarrow> int \<Rightarrow> int \<Rightarrow> int \<Rightarrow> int \<Rightarrow> (int \<times> mem) option" where
  "fdt_setprop_inplace_namelen_partial m fdt nodeoffset name namelen idx val len = do {
     (propval, proplen) \<leftarrow> fdt_getprop_namelen m fdt nodeoffset name namelen;
     if propval = 0 then Some (proplen, m)
     else if to_u32 proplen < to_u32 (len + idx) then Some (- FDT_ERR_NOSPACE, m)
     else do { (_, m) \<leftarrow> memcpy m (to_u32 (propval + idx)) val (nat (to_u32 len)); Some (0, m) } }"

definition fdt_setprop_inplace :: "mem \<Rightarrow> int \<Rightarrow> int \<Rightarrow> int \<Rightarrow> int \<Rightarrow> int \<Rightarrow> (int \<times> mem) option" where
  "fdt_setprop_inplace m fdt nodeoffset name val len = do {
     (propval, proplen) \<leftarrow> fdt_getprop m fdt nodeoffset name;
     if propval = 0 then Some (proplen, m)
     else if proplen \<noteq> len then Some (- FDT_ERR_NOSPACE, m)
     else do {
       n \<leftarrow> strlen m name;
       fdt_setprop_inplace_namelen_partial m fdt nodeoffset name (to_s32 n) 0 val len } }"

function fdt_nop_region_from :: "mem \<Rightarrow> int \<Rightarrow> int \<Rightarrow> mem option" where
  "fdt_nop_region_from m p end_ptr =
     (if p < end_ptr then do { m \<leftarrow> fdt32_set m p FDT_NOP; fdt_nop_region_from m (p + 4) end_ptr }
      else Some m)"
  by pat_completeness auto
termination by (relation "measure (\<lambda>(m, p, e). nat (e - p))") auto

declare fdt_nop_region_from.simps [simp del]

definition fdt_nop_region :: "mem \<Rightarrow> int \<Rightarrow> int \<Rightarrow> mem option" where
  "fdt_nop_region m start len = fdt_nop_region_from m start (start + len)"

definition fdt_nop_property :: "mem \<Rightarrow> int \<Rightarrow> int \<Rightarrow> int \<Rightarrow> (int \<times> mem) option" where
  "fdt_nop_property m fdt nodeoffset name = do {
     (prop, len) \<leftarrow> fdt_get_property m fdt nodeoffset name;
     if prop = 0 then Some (len, m)
     else do { m \<leftarrow> fdt_nop_region m prop (to_s32 (len + 12)); Some (0, m) } }"

partial_function (option) fdt_node_end_loop :: "mem \<Rightarrow> int \<Rightarrow> int \<Rightarrow> int \<Rightarrow> int option" where [code]:
  "fdt_node_end_loop m fdt offset depth =
     (if offset \<ge> 0 \<and> depth \<ge> 0 then do {
        (offset, d) \<leftarrow> fdt_next_node m fdt offset (Some depth);
        fdt_node_end_loop m fdt offset (the d) }
      else Some offset)"

definition fdt_node_end_offset :: "mem \<Rightarrow> int \<Rightarrow> int \<Rightarrow> int option" where
  "fdt_node_end_offset m fdt offset = fdt_node_end_loop m fdt offset 0"

definition fdt_nop_node :: "mem \<Rightarrow> int \<Rightarrow> int \<Rightarrow> (int \<times> mem) option" where
  "fdt_nop_node m fdt nodeoffset = do {
     endoffset \<leftarrow> fdt_node_end_offset m fdt nodeoffset;
     if endoffset < 0 then Some (endoffset, m)
     else do {
       p \<leftarrow> fdt_offset_ptr m fdt nodeoffset 0;
       m \<leftarrow> fdt_nop_region m p (endoffset - nodeoffset);
       Some (0, m) } }"

section \<open>Stores and loads\<close>

lemma fdt32_to_cpu_to_fdt32 [simp]: "fdt32_to_cpu (cpu_to_fdt32 x) = x"
  by (simp add: fdt32_to_cpu_def cpu_to_fdt32_def)

lemma uint_word_of_int_u32: "uint (word_of_int v :: u32) = to_u32 v"
  by (simp add: uint_word_of_int to_u32_def)

lemma fdt32_set_ok:
  assumes "mapped m p 4"
  obtains m' where "fdt32_set m p v = Some m'" "writes_only m m' p 4" "fdt32_ld m' p = Some (to_u32 v)"
proof -
  obtain m' where m': "store32 m p (cpu_to_fdt32 (word_of_int v)) = Some m'"
    using store32_mapped [OF assms] by blast
  have "fdt32_ld m' p = Some (to_u32 v)"
    using load32_store32 [OF m']
    by (simp add: fdt32_ld_native_eq [symmetric] fdt32_ld_native_def uint_word_of_int_u32)
  with m' that store32_writes_only [OF m'] show ?thesis by (simp add: fdt32_set_def)
qed

lemma fdt32_ld_bytes:
  "m' p = m p \<Longrightarrow> m' (p + 1) = m (p + 1) \<Longrightarrow> m' (p + 2) = m (p + 2) \<Longrightarrow> m' (p + 3) = m (p + 3) \<Longrightarrow>
   fdt32_ld m' p = fdt32_ld m p"
  by (simp add: fdt32_ld_def load8_def)

lemma fdt32_ld_frame:
  "writes_only m m' a n \<Longrightarrow> p + 4 \<le> a \<or> a + n \<le> p \<Longrightarrow> fdt32_ld m' p = fdt32_ld m p"
  by (rule fdt32_ld_bytes) (auto elim!: writes_only_same)

lemma bytes_at_frame:
  "writes_only m m' a n \<Longrightarrow> p + int (length bs) \<le> a \<or> a + n \<le> p \<Longrightarrow> bytes_at m' p bs = bytes_at m p bs"
  by (auto simp: bytes_at_iff writes_only_def)

lemma fdt32_set_frame:
  "fdt32_set m p v = Some m' \<Longrightarrow> p + 4 \<le> q \<or> q + 4 \<le> p \<Longrightarrow> fdt32_ld m' q = fdt32_ld m q"
  unfolding fdt32_set_def by (drule store32_writes_only, erule fdt32_ld_frame) auto

text \<open>One setter changes one field of the header.\<close>

lemma hdr_set:
  assumes h: "mapped m fdt 40" and k: "0 \<le> k" "k \<le> 36"
  obtains m' where "fdt32_set m (fdt + k) v = Some m'" "writes_only m m' (fdt + k) 4" "mapped m' fdt 40"
    "hdr m' fdt k = to_u32 v" "\<And>j. j + 4 \<le> k \<or> k + 4 \<le> j \<Longrightarrow> hdr m' fdt j = hdr m fdt j"
proof -
  have "mapped m (fdt + k) 4" using k by (intro mapped_sub [OF h]) auto
  then obtain m' where m': "fdt32_set m (fdt + k) v = Some m'" "writes_only m m' (fdt + k) 4"
    "fdt32_ld m' (fdt + k) = Some (to_u32 v)" by (rule fdt32_set_ok)
  moreover have "hdr m' fdt j = hdr m fdt j" if "j + 4 \<le> k \<or> k + 4 \<le> j" for j
    using fdt32_ld_frame [OF m'(2), of "fdt + j"] that by (auto simp: hdr_def)
  ultimately show ?thesis using that writes_only_mapped [OF m'(2) h] by (simp add: hdr_def)
qed

lemma fdt32_st_eq: "fdt32_st m p v = fdt32_set m p (uint v)"
proof -
  have b: "(ucast (drop_bit 24 v) :: u8) = byte_of 3 v" "(ucast (drop_bit 16 v AND 0xff) :: u8) = byte_of 2 v"
    "(ucast (drop_bit 8 v AND 0xff) :: u8) = byte_of 1 v" "(ucast (v AND 0xff) :: u8) = byte_of 0 v"
    by (rule bit_word_eqI; auto simp: bit_byte_of bit_simps mask8_u32)+
  show ?thesis
    by (simp add: fdt32_st_def fdt32_set_def store32_def cpu_to_fdt32_def b)
qed

lemma mask8_u64: "(255 :: u64) = mask 8"
  by (simp add: mask_eq_exp_minus_1)

lemma fdt64_st_eq: "fdt64_st m p v = do { m \<leftarrow> fdt32_st m p (ucast (drop_bit 32 v)); fdt32_st m (p + 4) (ucast v) }"
proof -
  have b: "(ucast (drop_bit 24 (ucast (drop_bit 32 v) :: u32)) :: u8) = ucast (drop_bit 56 v)"
    "(ucast (drop_bit 16 (ucast (drop_bit 32 v) :: u32) AND 0xff) :: u8) = ucast (drop_bit 48 v AND 0xff)"
    "(ucast (drop_bit 8 (ucast (drop_bit 32 v) :: u32) AND 0xff) :: u8) = ucast (drop_bit 40 v AND 0xff)"
    "(ucast ((ucast (drop_bit 32 v) :: u32) AND 0xff) :: u8) = ucast (drop_bit 32 v AND 0xff)"
    "(ucast (drop_bit 24 (ucast v :: u32)) :: u8) = ucast (drop_bit 24 v AND 0xff)"
    "(ucast (drop_bit 16 (ucast v :: u32) AND 0xff) :: u8) = ucast (drop_bit 16 v AND 0xff)"
    "(ucast (drop_bit 8 (ucast v :: u32) AND 0xff) :: u8) = ucast (drop_bit 8 v AND 0xff)"
    "(ucast ((ucast v :: u32) AND 0xff) :: u8) = ucast (v AND 0xff)"
    by (rule bit_word_eqI; auto simp: bit_simps mask8_u32 mask8_u64)+
  show ?thesis
    by (simp add: fdt64_st_def fdt32_st_def b add.assoc)
qed


section \<open>Writes behind the header\<close>

lemma hdr_frame:
  "writes_only m m' a n \<Longrightarrow> fdt + k + 4 \<le> a \<Longrightarrow> hdr m' fdt k = hdr m fdt k"
  by (simp add: hdr_def fdt32_ld_frame)

lemma blob_frame:
  assumes "blob m fdt" "writes_only m m' a n" "fdt + 40 \<le> a"
  shows "blob m' fdt" "struct_fits m' fdt off k = struct_fits m fdt off k"
    "h_off_struct m' fdt = h_off_struct m fdt" "h_totalsize m' fdt = h_totalsize m fdt"
proof -
  have "hdr m' fdt k = hdr m fdt k" if "k \<le> 36" for k
    using hdr_frame [OF assms(2)] that assms(3) by simp
  then show "h_off_struct m' fdt = h_off_struct m fdt" "h_totalsize m' fdt = h_totalsize m fdt"
    "struct_fits m' fdt off k = struct_fits m fdt off k"
    by (simp_all add: struct_fits_def)
  with assms(1) show "blob m' fdt" by (auto simp: blob_def writes_only_mapped [OF assms(2)])
qed

section \<open>NOP regions\<close>

lemma fdt_nop_region_from_spec:
  "mapped m p (4 * int k) \<Longrightarrow>
   \<exists>m'. fdt_nop_region_from m p (p + 4 * int k) = Some m' \<and> writes_only m m' p (4 * int k) \<and>
     (\<forall>i < k. fdt32_ld m' (p + 4 * int i) = Some FDT_NOP)"
proof (induction k arbitrary: m p)
  case 0
  then show ?case by (auto simp: fdt_nop_region_from.simps [of m p])
next
  case (Suc k)
  have "mapped m p 4" using Suc.prems by (rule mapped_sub) auto
  then obtain m1 where m1: "fdt32_set m p FDT_NOP = Some m1" "writes_only m m1 p 4"
    "fdt32_ld m1 p = Some (to_u32 FDT_NOP)" by (rule fdt32_set_ok)
  have "mapped m1 (p + 4) (4 * int k)"
    using Suc.prems by (intro writes_only_mapped [OF m1(2)]) (auto intro: mapped_sub)
  from Suc.IH [OF this] obtain m2 where m2: "fdt_nop_region_from m1 (p + 4) (p + 4 + 4 * int k) = Some m2"
    "writes_only m1 m2 (p + 4) (4 * int k)" "\<forall>i < k. fdt32_ld m2 (p + 4 + 4 * int i) = Some FDT_NOP" by blast
  have "fdt32_ld m2 p = Some FDT_NOP"
    using fdt32_ld_frame [OF m2(2), of p] m1(3) by (simp add: to_u32_id)
  then have "\<forall>i < Suc k. fdt32_ld m2 (p + 4 * int i) = Some FDT_NOP"
    using m2(3) by (simp add: All_less_Suc2 algebra_simps)
  moreover have "writes_only m m2 p (4 * int (Suc k))"
    using writes_only_mono [OF m1(2), of p "4 * int (Suc k)"] writes_only_mono [OF m2(2), of p "4 * int (Suc k)"]
    by (auto intro: writes_only_trans)
  moreover have "fdt_nop_region_from m p (p + 4 * int (Suc k)) = Some m2"
    using m1(1) m2(1) by (subst fdt_nop_region_from.simps) (simp add: algebra_simps)
  ultimately show ?case by blast
qed

lemma nop_tag:
  assumes b: "blob m fdt" and f: "struct_fits m fdt off 4" and al: "off mod 4 = 0"
    and ld: "fdt32_ld m (fdt + h_off_struct m fdt + off) = Some FDT_NOP"
  shows "fdt_next_tag m fdt off = Some (FDT_NOP, off + 4)"
proof -
  note bb = blob_bounds [OF b]
  have off: "0 \<le> off" "off \<le> INT32_MAX" "off + 4 \<le> INT32_MAX" using f bb by (auto simp: struct_fits_def)
  have p: "fdt_offset_ptr m fdt off 4 = Some (fdt + h_off_struct m fdt + off)" "fdt + h_off_struct m fdt + off \<noteq> 0"
    using off f bb by (simp_all add: fdt_offset_ptr_eq [OF b])
  have a: "fdt_tagalign (off + 4) = off + 4"
  proof -
    obtain q where q: "off = 4 * q" using al by (metis mod_0_imp_dvd dvd_def)
    have "(4 * q + 7) div 4 = q + 1" by simp
    then show ?thesis using off unfolding q by (simp add: fdt_tagalign_def wrap_simps)
  qed
  show ?thesis
    using p off ld a by (simp add: fdt_next_tag_def fdt32_ld_native_eq Let_def wrap_simps)
qed

section \<open>The end of a node\<close>

lemma fdt_next_node_loop_fits:
  assumes b: "blob m fdt"
  shows "0 \<le> off \<Longrightarrow> off mod 4 = 0 \<Longrightarrow> off \<le> INT32_MAX \<Longrightarrow>
    fdt_next_node_loop m fdt off depth = Some (r, d) \<Longrightarrow> 0 \<le> r \<Longrightarrow> struct_fits m fdt r 0"
proof (induction "nat (INT32_MAX - off)" arbitrary: off depth rule: less_induct)
  case less
  show ?case
  proof (rule fdt_next_tag_cases [OF b less.prems(3)])
    fix nx assume "fdt_next_tag m fdt off = Some (FDT_END, nx)"
      "nx = - FDT_ERR_TRUNCATED \<or> nx = - FDT_ERR_BADSTRUCTURE"
    with less.prems(4,5) show ?thesis
      by (subst (asm) fdt_next_node_loop.simps) (auto split: if_splits)
  next
    fix tag nx
    assume good: "fdt_next_tag m fdt off = Some (tag, nx)" "tag_at m fdt off tag nx"
    note tb = tag_at_bounds [OF b good(2)]
    have IH: "fdt_next_node_loop m fdt nx depth' = Some (r, d) \<Longrightarrow> struct_fits m fdt r 0" for depth'
      using tb less.prems(1,5) by (intro less.hyps [of nx]) auto
    from tag_at_tags [OF good(2)] show ?thesis
    proof (elim disjE)
      assume "tag = 1"
      with good less.prems(4) have "r = off" by (subst (asm) fdt_next_node_loop.simps) auto
      with tb(5) show ?thesis by (auto intro: struct_fits_le)
    next
      assume t: "tag = 2"
      have "nx = off + 4 \<and> struct_fits m fdt off 4"
        using good(2) t tb(5) less.prems(2) by (auto simp: tag_at_def tag_end_def)
      then have "struct_fits m fdt nx 0" by (auto intro: struct_fits_le)
      with good t less.prems(4) IH show ?thesis
        by (subst (asm) fdt_next_node_loop.simps) (auto simp: Let_def split: if_splits)
    qed (use good less.prems(4,5) IH in \<open>subst (asm) fdt_next_node_loop.simps; auto split: if_splits\<close>)+
  qed
qed

lemma fdt_next_node_fits:
  assumes b: "blob m fdt" and off: "off \<le> INT32_MAX"
    and r: "fdt_next_node m fdt off depth = Some (r, d)" "0 \<le> r"
  shows "struct_fits m fdt r 0"
proof (cases "0 \<le> off")
  case False
  with r fdt_next_node_loop_fits [OF b, of 0] show ?thesis by (simp add: fdt_next_node_def)
next
  case True
  from fdt_check_node_offset_spec [OF b off]
  obtain n where n: "fdt_check_node_offset m fdt off = Some n"
    "n = - FDT_ERR_BADOFFSET \<or> tag_at m fdt off FDT_BEGIN_NODE n" by blast
  show ?thesis
  proof (cases "n < 0")
    case True
    with n r \<open>0 \<le> off\<close> show ?thesis by (simp add: fdt_next_node_def)
  next
    case False
    with n(2) have "tag_at m fdt off FDT_BEGIN_NODE n" by auto
    note nb = tag_at_bounds [OF b this]
    from False n(1) r \<open>0 \<le> off\<close> fdt_next_node_loop_fits [OF b, of n] nb show ?thesis
      by (simp add: fdt_next_node_def)
  qed
qed

lemma fdt_node_end_loop_spec:
  assumes b: "blob m fdt"
  shows "off \<le> INT32_MAX \<Longrightarrow> 0 \<le> off \<Longrightarrow> 0 \<le> depth \<Longrightarrow>
    \<exists>r. fdt_node_end_loop m fdt off depth = Some r \<and>
      (r < 0 \<or> off < r \<and> r mod 4 = 0 \<and> struct_fits m fdt r 0)"
proof (induction "nat (INT32_MAX - off)" arbitrary: off depth rule: less_induct)
  case less
  from fdt_next_node_spec [OF b less.prems(1), of "Some depth"]
  obtain r d' where r: "fdt_next_node m fdt off (Some depth) = Some (r, Some d')"
    "node_result m fdt (max 0 (off + 1)) r (Some d')" by auto
  have eq: "fdt_node_end_loop m fdt off depth = fdt_node_end_loop m fdt r d'"
    using less.prems r(1) by (subst (1) fdt_node_end_loop.simps) simp
  show ?case
  proof (cases "r < 0 \<or> d' < 0")
    case True
    then have e: "fdt_node_end_loop m fdt r d' = Some r"
      by (subst fdt_node_end_loop.simps) auto
    show ?thesis
    proof (cases "r < 0")
      case False
      with r(2) have "off + 1 \<le> r" "r mod 4 = 0" by (auto simp: node_result_def)
      with False e eq fdt_next_node_fits [OF b less.prems(1) r(1)] show ?thesis by auto
    qed (use e eq in auto)
  next
    case False
    with r(2) have "off < r" "r \<le> 2147483644" by (auto simp: node_result_def)
    moreover from this less.hyps [of r d'] False less.prems obtain r' where
      "fdt_node_end_loop m fdt r d' = Some r'" "r' < 0 \<or> r < r' \<and> r' mod 4 = 0 \<and> struct_fits m fdt r' 0"
      by auto
    ultimately show ?thesis using eq by auto
  qed
qed

section \<open>Properties\<close>

lemma memcpy_bytes:
  assumes "bytes_at m src bs" "mapped m dst (int (length bs))" "dst \<le> src \<or> src + int (length bs) \<le> dst"
  obtains m' where "memcpy m dst src (length bs) = Some (dst, m')" "bytes_at m' dst bs"
    "writes_only m m' dst (int (length bs))"
proof -
  have "mapped m (src + int 0) (int (length bs))" "mapped m (dst + int 0) (int (length bs))"
    "dst \<le> src \<or> src + int (0 + length bs) \<le> dst + int 0"
    using bytes_at_mapped [OF assms(1)] assms(2,3) by simp_all
  from memcpy_loop_spec [OF this] obtain m' where m': "memcpy_loop m dst src 0 (length bs) = Some m'"
    "dom m' = dom m" "\<forall>j. 0 \<le> j \<and> j < 0 + length bs \<longrightarrow> m' (dst + int j) = m (src + int j)"
    "\<forall>a. a < dst + int 0 \<or> dst + int (0 + length bs) \<le> a \<longrightarrow> m' a = m a"
    by blast
  show ?thesis
  proof (rule that)
    show "memcpy m dst src (length bs) = Some (dst, m')" using m'(1) by (simp add: memcpy_def)
    show "bytes_at m' dst bs" using m'(3) assms(1) by (simp add: bytes_at_iff)
    show "writes_only m m' dst (int (length bs))" using m'(2,4) by (simp add: writes_only_def)
  qed
qed

text \<open>C25: on any mapped blob of version 16 or later, \<open>fdt_setprop_inplace\<close> finds the first property of the node
  with the name, as \<open>fdt_getprop\<close> does: when there is none it returns the error of the walk, when
  the length differs it returns \<open>-FDT_ERR_NOSPACE\<close>, both without a write, and otherwise it
  overwrites exactly the bytes of the value.\<close>

theorem setprop_inplace_exact:
  assumes b: "blob m fdt" and v: "16 \<le> h_version m fdt" and off: "node \<le> INT32_MAX" and n: "c_string m name s"
    and bs: "bytes_at m val bs" "int (length bs) \<le> INT32_MAX"
    and apart: "val + int (length bs) \<le> fdt \<or> fdt + h_totalsize m fdt \<le> val"
  shows "\<exists>a l r m'. fdt_getprop m fdt node name = Some (a, l) \<and>
    fdt_setprop_inplace m fdt node name val (int (length bs)) = Some (r, m') \<and>
    (if a = 0 then r = l \<and> r < 0 \<and> m' = m
     else if l \<noteq> int (length bs) then r = - FDT_ERR_NOSPACE \<and> m' = m
     else r = 0 \<and> bytes_at m' a bs \<and> writes_only m m' a l)"
proof -
  obtain ps e where ps: "props_of m fdt node ps e" using props_of_exists [OF b off] by blast
  obtain a l where l: "lookup m fdt s ps e = (a, l)" by force
  have g: "fdt_getprop m fdt node name = Some (a, l)" using fdt_getprop_lookup [OF b ps n] l by simp
  note rg = lookup_range [OF b ps v l]
  show ?thesis
  proof (cases "a = 0 \<or> l \<noteq> int (length bs)")
    case True
    with g rg blob_bounds(11) [OF b] show ?thesis by (auto simp: fdt_setprop_inplace_def)
  next
    case False
    with rg have al: "fdt < a" "a + l \<le> fdt + h_totalsize m fdt" "a \<noteq> 0" "l = int (length bs)" by auto
    have "mapped m a (int (length bs))" using blob_mapped_tail [OF b, of a l] al by simp
    moreover have "a \<le> val \<or> val + int (length bs) \<le> a" using apart al by auto
    ultimately obtain m' where m': "memcpy m a val (length bs) = Some (a, m')" "bytes_at m' a bs"
      "writes_only m m' a (int (length bs))" using memcpy_bytes [OF bs(1)] by blast
    have g': "fdt_getprop_namelen m fdt node name (to_s32 (int (length s))) = Some (a, l)"
      using g by (simp add: fdt_getprop_def c_string_strlen [OF n])
    have "fdt_setprop_inplace_namelen_partial m fdt node name (to_s32 (int (length s))) 0 val l = Some (0, m')"
    proof (cases "bs = []")
      case True
      with m'(1,3) have "m' = m" by (auto simp: writes_only_def fun_eq_iff not_le)
      with True g' al show ?thesis by (simp add: fdt_setprop_inplace_namelen_partial_def memcpy_def to_u32_id)
    next
      case ne: False
      then have "to_u32 a = a" using al b by (intro to_u32_id) (auto simp: blob_def neq_Nil_conv)
      with g' al m'(1) bs(2) show ?thesis by (simp add: fdt_setprop_inplace_namelen_partial_def to_u32_id)
    qed
    with g al m' show ?thesis by (auto simp: fdt_setprop_inplace_def c_string_strlen [OF n])
  qed
qed

theorem setprop_inplace_exact_witness:
  "\<exists>m'. fdt_setprop_inplace demo_fdt_mem 4096 24 (demo_lit ''compatible'') 256 7 = Some (0, m') \<and>
     bytes_at m' 4196 [99, 111, 109, 112, 97, 116, 105]"
proof -
  have bs: "bytes_at demo_fdt_mem 256 [99, 111, 109, 112, 97, 116, 105]" by code_simp
  have g: "fdt_getprop demo_fdt_mem 4096 24 (demo_lit ''compatible'') = Some (4196, 7)" by code_simp
  show ?thesis
    using setprop_inplace_exact [OF demo_fdt_blob _ _ demo_strings(1) bs, of 24] g
    by (auto simp: demo_fdt_fields)
qed

text \<open>The bound check of a partial write in place adds the index and the length in 32 bits: an index
  just below \<open>2 ^ 32\<close> passes it, and the bytes in front of the value, the words of the property's own
  cell, are overwritten.\<close>

theorem inplace_partial_wraps:
  assumes b: "blob m fdt" and g: "fdt_getprop_namelen m fdt node name namelen = Some (a, l)" "fdt + 12 \<le> a"
      "a \<le> fdt + h_totalsize m fdt"
    and bs: "bytes_at m val bs" "bs \<noteq> []" "int (length bs) \<le> 12"
    and apart: "val + int (length bs) \<le> fdt \<or> fdt + h_totalsize m fdt \<le> val"
  shows "\<exists>m'. fdt_setprop_inplace_namelen_partial m fdt node name namelen (4294967296 - int (length bs)) val
      (int (length bs)) = Some (0, m') \<and>
    bytes_at m' (a - int (length bs)) bs \<and> writes_only m m' (a - int (length bs)) (int (length bs))"
proof -
  define k where "k = int (length bs)"
  have k: "0 < k" "k \<le> 12" using bs by (simp_all add: k_def)
  have a: "0 < fdt" "fdt + h_totalsize m fdt \<le> 4294967296" using b by (simp_all add: blob_def)
  have u: "to_u32 (a + (4294967296 - k)) = a - k"
  proof -
    have "to_u32 (a - k + 4294967296) = a - k" using a g k by (simp add: to_u32_def)
    then show ?thesis by (simp add: algebra_simps)
  qed
  have "mapped m (a - k) (int (length bs))" using blob_mapped_tail [OF b, of "a - k" k] g k by (simp add: k_def)
  moreover have "a - k \<le> val \<or> val + int (length bs) \<le> a - k" using apart g k by auto
  ultimately obtain m' where m': "memcpy m (a - k) val (length bs) = Some (a - k, m')" "bytes_at m' (a - k) bs"
    "writes_only m m' (a - k) (int (length bs))" using memcpy_bytes [OF bs(1)] by blast
  moreover have "a \<noteq> 0" "\<not> to_u32 l < to_u32 4294967296" "nat (to_u32 k) = length bs"
    using a g k by (simp_all add: to_u32_def k_def)
  ultimately show ?thesis
    using g(1) u by (auto simp: fdt_setprop_inplace_namelen_partial_def k_def [symmetric])
qed

theorem inplace_partial_wraps_witness:
  "\<exists>m'. fdt_setprop_inplace_namelen_partial demo_fdt_mem 4096 24 (demo_lit ''compatible'') 10 4294967292 256 4 =
      Some (0, m') \<and> bytes_at m' 4192 [99, 111, 109, 112]"
proof -
  have g: "fdt_getprop_namelen demo_fdt_mem 4096 24 (demo_lit ''compatible'') 10 = Some (4196, 7)"
    "bytes_at demo_fdt_mem 256 [99, 111, 109, 112]" by code_simp+
  from inplace_partial_wraps [OF demo_fdt_blob g(1) _ _ g(2)] show ?thesis by (auto simp: demo_fdt_fields)
qed

lemma nop_region_tags:
  assumes b: "blob m fdt" and o: "40 \<le> h_off_struct m fdt"
    and node: "0 \<le> node" "node \<le> e" "node mod 4 = 0" "e mod 4 = 0" and f: "struct_fits m fdt node (e - node)"
  shows "\<exists>m'. fdt_nop_region_from m (fdt + h_off_struct m fdt + node) (fdt + h_off_struct m fdt + e) = Some m' \<and>
    blob m' fdt \<and> writes_only m m' (fdt + h_off_struct m fdt + node) (e - node) \<and>
    (\<forall>x. node \<le> x \<and> x < e \<and> x mod 4 = 0 \<longrightarrow> fdt_next_tag m' fdt x = Some (FDT_NOP, x + 4))"
proof -
  define base where "base = fdt + h_off_struct m fdt"
  define k where "k = nat ((e - node) div 4)"
  have "(e - node) mod 4 = 0" using node by presburger
  then have k: "4 * int k = e - node" using node(2) by (simp add: k_def) presburger
  have "mapped m (base + node) (4 * int k)" using struct_fits_mapped [OF b f] k by (simp add: base_def)
  from fdt_nop_region_from_spec [OF this] obtain m' where
    m': "fdt_nop_region_from m (base + node) (base + node + 4 * int k) = Some m'"
    "writes_only m m' (base + node) (4 * int k)"
    "\<forall>i < k. fdt32_ld m' (base + node + 4 * int i) = Some FDT_NOP" by blast
  have low: "fdt + 40 \<le> base + node" using o node(1) by (simp add: base_def)
  note fr = blob_frame [OF b m'(2) low]
  have "fdt_next_tag m' fdt x = Some (FDT_NOP, x + 4)" if x: "node \<le> x" "x < e" "x mod 4 = 0" for x
  proof (rule nop_tag [OF fr(1) _ x(3)])
    have "(x - node) mod 4 = 0" using x(3) node(3) by presburger
    then obtain i where i: "x - node = 4 * i" by (metis mod_0_imp_dvd dvd_def)
    define j where "j = nat i"
    have i': "x = node + 4 * int j" "j < k" using i x k by (auto simp: j_def)
    have "base + node + 4 * int j = base + x" using i'(1) by simp
    then have "fdt32_ld m' (base + x) = Some FDT_NOP" using m'(3) i'(2) by metis
    then show "fdt32_ld m' (fdt + h_off_struct m' fdt + x) = Some FDT_NOP" by (simp add: fr(3) base_def)
    have "x + 4 \<le> e" using i k by (simp add: i'(1)) (use i'(2) k in linarith)
    then show "struct_fits m' fdt x 4"
      unfolding fr(2) using x node(1) f by (auto simp: struct_fits_def)
  qed
  moreover have "base + node + (e - node) = base + e" by simp
  ultimately show ?thesis using fr(1) m'(1,2) unfolding k base_def [symmetric] by auto
qed

text \<open>On any mapped blob whose structure block lies behind the header, \<open>fdt_nop_node\<close> at an aligned offset
  returns: an error, and nothing is written, or 0, and the words from the node's tag to the offset that
  \<open>fdt_node_end_offset\<close> gives are NOP tags.\<close>

lemma nop_node_region:
  assumes b: "blob m fdt" and o: "40 \<le> h_off_struct m fdt" and off: "node \<le> INT32_MAX" "node mod 4 = 0"
  shows "\<exists>r m'. fdt_nop_node m fdt node = Some (r, m') \<and>
    (r < 0 \<and> m' = m \<or>
     r = 0 \<and> (\<exists>e. fdt_node_end_offset m fdt node = Some e \<and> node < e \<and> e mod 4 = 0 \<and>
       blob m' fdt \<and> writes_only m m' (fdt + h_off_struct m fdt + node) (e - node) \<and>
       (\<forall>x. node \<le> x \<and> x < e \<and> x mod 4 = 0 \<longrightarrow> fdt_next_tag m' fdt x = Some (FDT_NOP, x + 4))))"
proof (cases "0 \<le> node")
  case False
  then show ?thesis
    by (auto simp: fdt_nop_node_def fdt_node_end_offset_def fdt_node_end_loop.simps [of m fdt node 0])
next
  case True
  from fdt_node_end_loop_spec [OF b off(1) True, of 0] obtain e where
    e: "fdt_node_end_offset m fdt node = Some e" "e < 0 \<or> node < e \<and> e mod 4 = 0 \<and> struct_fits m fdt e 0"
    by (auto simp: fdt_node_end_offset_def)
  show ?thesis
  proof (cases "e < 0")
    case True
    with e(1) show ?thesis by (simp add: fdt_nop_node_def)
  next
    case False
    with e(2) have e': "node < e" "e mod 4 = 0" "struct_fits m fdt e 0" by auto
    have f: "struct_fits m fdt node 0" "struct_fits m fdt node (e - node)"
      using e' True by (auto simp: struct_fits_def)
    define base where "base = fdt + h_off_struct m fdt"
    obtain m' where m': "fdt_nop_region_from m (base + node) (base + e) = Some m'" "blob m' fdt"
      "writes_only m m' (base + node) (e - node)"
      "\<forall>x. node \<le> x \<and> x < e \<and> x mod 4 = 0 \<longrightarrow> fdt_next_tag m' fdt x = Some (FDT_NOP, x + 4)"
      using nop_region_tags [OF b o True _ off(2) e'(2) f(2)] e'(1) unfolding base_def by auto
    have p: "fdt_offset_ptr m fdt node 0 = Some (base + node)"
      using f(1) off by (simp add: fdt_offset_ptr_eq [OF b] base_def)
    have "base + node + (e - node) = base + e" by simp
    then have run: "fdt_nop_node m fdt node = Some (0, m')"
      using e(1) False p m'(1) by (simp add: fdt_nop_node_def fdt_nop_region_def del: diff_add_cancel)
    with e(1) e' m'(2-4) show ?thesis by (auto simp: base_def)
  qed
qed

end
