(* ===== verification/Fdt_Sw.thy ===== *)
theory Fdt_Sw
  imports Fdt_Write
begin

text \<open>
  libfdt's sequential write interface, \<^verbatim>\<open>libfdt/fdt_sw.c\<close>: a tree is built front to back in a
  buffer, with the strings growing down from the end; \<open>magic\<close>, \<open>off_dt_strings\<close> and
  \<open>last_comp_version\<close> of the header hold the state of the construction.
\<close>

abbreviation FDT_CREATE_FLAG_NO_NAME_DEDUP :: int where "FDT_CREATE_FLAG_NO_NAME_DEDUP \<equiv> 1"
abbreviation FDT_CREATE_FLAGS_ALL :: int where "FDT_CREATE_FLAGS_ALL \<equiv> FDT_CREATE_FLAG_NO_NAME_DEDUP"

section \<open>States\<close>

definition fdt_sw_probe :: "mem \<Rightarrow> int \<Rightarrow> int option" where
  "fdt_sw_probe m fdt =
     (if \<not> can_assume VALID_INPUT then do {
        magic \<leftarrow> fdt_magic m fdt;
        Some (if magic = FDT_MAGIC then - FDT_ERR_BADSTATE
              else if magic \<noteq> FDT_SW_MAGIC then - FDT_ERR_BADMAGIC else 0) }
      else Some 0)"

definition fdt_sw_probe_memrsv :: "mem \<Rightarrow> int \<Rightarrow> int option" where
  "fdt_sw_probe_memrsv m fdt = do {
     err \<leftarrow> fdt_sw_probe m fdt;
     if err \<noteq> 0 then Some err
     else do {
       off_strings \<leftarrow> fdt_off_dt_strings m fdt;
       Some (if \<not> can_assume VALID_INPUT \<and> off_strings \<noteq> 0 then - FDT_ERR_BADSTATE else 0) } }"

definition fdt_sw_probe_struct :: "mem \<Rightarrow> int \<Rightarrow> int option" where
  "fdt_sw_probe_struct m fdt = do {
     err \<leftarrow> fdt_sw_probe m fdt;
     if err \<noteq> 0 then Some err
     else do {
       off_strings \<leftarrow> fdt_off_dt_strings m fdt;
       totalsize \<leftarrow> fdt_totalsize m fdt;
       Some (if \<not> can_assume VALID_INPUT \<and> off_strings \<noteq> totalsize then - FDT_ERR_BADSTATE else 0) } }"

definition sw_flags :: "mem \<Rightarrow> int \<Rightarrow> int option" where
  "sw_flags m fdt = fdt_last_comp_version m fdt"

text \<open>The address of the space, 0 when there is none.\<close>

definition fdt_grab_space :: "mem \<Rightarrow> int \<Rightarrow> int \<Rightarrow> (int \<times> mem) option" where
  "fdt_grab_space m fdt len = do {
     offset \<leftarrow> fdt_size_dt_struct m fdt;
     totalsize \<leftarrow> fdt_totalsize m fdt;
     off_struct \<leftarrow> fdt_off_dt_struct m fdt;
     size_strings \<leftarrow> fdt_size_dt_strings m fdt;
     let spaceleft = to_u32 (totalsize - off_struct - size_strings) in
     if to_u32 (offset + len) < offset \<or> to_u32 (offset + len) > spaceleft then Some (0, m)
     else do {
       m \<leftarrow> fdt_set_size_dt_struct m fdt (to_u32 (offset + len));
       p \<leftarrow> fdt_offset_ptr_raw m fdt (to_s32 offset);
       Some (p, m) } }"

section \<open>Creating and resizing\<close>

definition fdt_create_with_flags :: "mem \<Rightarrow> int \<Rightarrow> int \<Rightarrow> int \<Rightarrow> (int \<times> mem) option" where
  "fdt_create_with_flags m buf bufsize flags = (let hdrsize = 40; fdt = buf in
     if bufsize < hdrsize then Some (- FDT_ERR_NOSPACE, m)
     else if flags AND NOT FDT_CREATE_FLAGS_ALL \<noteq> 0 then Some (- FDT_ERR_BADFLAGS, m)
     else do {
       (_, m) \<leftarrow> memset m buf 0 (nat bufsize);
       m \<leftarrow> fdt_set_magic m fdt FDT_SW_MAGIC;
       m \<leftarrow> fdt_set_version m fdt FDT_LAST_SUPPORTED_VERSION;
       m \<leftarrow> fdt_set_last_comp_version m fdt flags;
       m \<leftarrow> fdt_set_totalsize m fdt bufsize;
       m \<leftarrow> fdt_set_off_mem_rsvmap m fdt hdrsize;
       off_rsv \<leftarrow> fdt_off_mem_rsvmap m fdt;
       m \<leftarrow> fdt_set_off_dt_struct m fdt off_rsv;
       m \<leftarrow> fdt_set_off_dt_strings m fdt 0;
       Some (0, m) })"

definition fdt_create :: "mem \<Rightarrow> int \<Rightarrow> int \<Rightarrow> (int \<times> mem) option" where
  "fdt_create m buf bufsize = fdt_create_with_flags m buf bufsize 0"

definition fdt_resize :: "mem \<Rightarrow> int \<Rightarrow> int \<Rightarrow> int \<Rightarrow> (int \<times> mem) option" where
  "fdt_resize m fdt buf bufsize = do {
     err \<leftarrow> fdt_sw_probe m fdt;
     if err \<noteq> 0 then Some (err, m)
     else if bufsize < 0 then Some (- FDT_ERR_NOSPACE, m)
     else do {
       off_struct \<leftarrow> fdt_off_dt_struct m fdt;
       size_struct \<leftarrow> fdt_size_dt_struct m fdt;
       tailsize \<leftarrow> fdt_size_dt_strings m fdt;
       totalsize \<leftarrow> fdt_totalsize m fdt;
       let headsize = to_u32 (off_struct + size_struct) in
       if \<not> can_assume VALID_DTB \<and> to_u32 (headsize + tailsize) > totalsize
       then Some (- FDT_ERR_INTERNAL, m)
       else if to_u32 (headsize + tailsize) > to_u32 bufsize then Some (- FDT_ERR_NOSPACE, m)
       else let oldtail = fdt + totalsize - tailsize; newtail = buf + bufsize - tailsize in do {
         m \<leftarrow> (if buf \<le> fdt then do {
                 (_, m) \<leftarrow> memmove m buf fdt (nat headsize);
                 (_, m) \<leftarrow> memmove m newtail oldtail (nat tailsize); Some m }
               else do {
                 (_, m) \<leftarrow> memmove m newtail oldtail (nat tailsize);
                 (_, m) \<leftarrow> memmove m buf fdt (nat headsize); Some m });
         m \<leftarrow> fdt_set_totalsize m buf bufsize;
         off_strings \<leftarrow> fdt_off_dt_strings m buf;
         m \<leftarrow> (if off_strings \<noteq> 0 then fdt_set_off_dt_strings m buf bufsize else Some m);
         Some (0, m) } } }"

section \<open>The reserve map\<close>

definition fdt_add_reservemap_entry :: "mem \<Rightarrow> int \<Rightarrow> int \<Rightarrow> int \<Rightarrow> (int \<times> mem) option" where
  "fdt_add_reservemap_entry m fdt addr sz = do {
     err \<leftarrow> fdt_sw_probe_memrsv m fdt;
     if err \<noteq> 0 then Some (err, m)
     else do {
       offset \<leftarrow> fdt_off_dt_struct m fdt;
       totalsize \<leftarrow> fdt_totalsize m fdt;
       let offset = to_s32 offset in
       if to_u32 (offset + 16) > totalsize then Some (- FDT_ERR_NOSPACE, m)
       else let re = fdt + offset in do {
         m \<leftarrow> fdt64_set m re addr;
         m \<leftarrow> fdt64_set m (re + 8) sz;
         m \<leftarrow> fdt_set_off_dt_struct m fdt (to_u32 (offset + 16));
         Some (0, m) } } }"

definition fdt_finish_reservemap :: "mem \<Rightarrow> int \<Rightarrow> (int \<times> mem) option" where
  "fdt_finish_reservemap m fdt = do {
     (err, m) \<leftarrow> fdt_add_reservemap_entry m fdt 0 0;
     if err \<noteq> 0 then Some (err, m)
     else do {
       totalsize \<leftarrow> fdt_totalsize m fdt;
       m \<leftarrow> fdt_set_off_dt_strings m fdt totalsize;
       Some (0, m) } }"

section \<open>Nodes and properties\<close>

definition fdt_begin_node :: "mem \<Rightarrow> int \<Rightarrow> int \<Rightarrow> (int \<times> mem) option" where
  "fdt_begin_node m fdt name = do {
     err \<leftarrow> fdt_sw_probe_struct m fdt;
     if err \<noteq> 0 then Some (err, m)
     else do {
       n \<leftarrow> strlen m name;
       let namelen = to_s32 (n + 1) in do {
       (nh, m) \<leftarrow> fdt_grab_space m fdt (to_u32 (4 + fdt_tagalign namelen));
       if nh = 0 then Some (- FDT_ERR_NOSPACE, m)
       else do {
         m \<leftarrow> fdt32_set m nh FDT_BEGIN_NODE;
         (_, m) \<leftarrow> memcpy m (nh + 4) name (nat (to_u32 namelen));
         Some (0, m) } } } }"

definition fdt_end_node :: "mem \<Rightarrow> int \<Rightarrow> (int \<times> mem) option" where
  "fdt_end_node m fdt = do {
     err \<leftarrow> fdt_sw_probe_struct m fdt;
     if err \<noteq> 0 then Some (err, m)
     else do {
       (en, m) \<leftarrow> fdt_grab_space m fdt FDT_TAGSIZE;
       if en = 0 then Some (- FDT_ERR_NOSPACE, m)
       else do { m \<leftarrow> fdt32_set m en FDT_END_NODE; Some (0, m) } } }"

definition sw_add_string :: "mem \<Rightarrow> int \<Rightarrow> int \<Rightarrow> (int \<times> mem) option" where
  "sw_add_string m fdt s = do {
     totalsize \<leftarrow> fdt_totalsize m fdt;
     strtabsize \<leftarrow> fdt_size_dt_strings m fdt;
     n \<leftarrow> strlen m s;
     off_struct \<leftarrow> fdt_off_dt_struct m fdt;
     size_struct \<leftarrow> fdt_size_dt_struct m fdt;
     let strtab = fdt + totalsize; len = to_u32 (n + 1); offset = to_u32 (strtabsize + len);
         struct_top = to_u32 (off_struct + size_struct) in
     if to_u32 (totalsize - offset) < struct_top then Some (0, m)
     else do {
       (_, m) \<leftarrow> memcpy m (strtab - offset) s (nat len);
       m \<leftarrow> fdt_set_size_dt_strings m fdt (to_u32 (strtabsize + len));
       Some (to_s32 (- offset), m) } }"

definition sw_del_last_string :: "mem \<Rightarrow> int \<Rightarrow> int \<Rightarrow> mem option" where
  "sw_del_last_string m fdt s = do {
     strtabsize \<leftarrow> fdt_size_dt_strings m fdt;
     n \<leftarrow> strlen m s;
     fdt_set_size_dt_strings m fdt (strtabsize - (n + 1)) }"

text \<open>The offset, whether the string was added, and the memory.\<close>

definition sw_find_add_string :: "mem \<Rightarrow> int \<Rightarrow> int \<Rightarrow> (int \<times> bool \<times> mem) option" where
  "sw_find_add_string m fdt s = do {
     totalsize \<leftarrow> fdt_totalsize m fdt;
     strtabsize \<leftarrow> fdt_size_dt_strings m fdt;
     n \<leftarrow> strlen m s;
     let strtab = fdt + totalsize; strtabsize = to_s32 strtabsize in do {
     p \<leftarrow> fdt_find_string_len m (strtab - strtabsize) strtabsize s (nat n);
     if p \<noteq> 0 then Some (p - strtab, False, m)
     else do { (offset, m) \<leftarrow> sw_add_string m fdt s; Some (offset, True, m) } } }"

text \<open>The offset of the name of a property.\<close>

definition property_name_offset :: "mem \<Rightarrow> int \<Rightarrow> int \<Rightarrow> (int \<times> bool \<times> mem) option" where
  "property_name_offset m fdt name = do {
     flags \<leftarrow> sw_flags m fdt;
     if flags AND FDT_CREATE_FLAG_NO_NAME_DEDUP \<noteq> 0 then do {
       (nameoff, m) \<leftarrow> sw_add_string m fdt name; Some (nameoff, True, m) }
     else sw_find_add_string m fdt name }"

text \<open>The result, \<open>*valp\<close> (0 when it is not written) and the memory.\<close>

definition fdt_property_placeholder :: "mem \<Rightarrow> int \<Rightarrow> int \<Rightarrow> int \<Rightarrow> (int \<times> int \<times> mem) option" where
  "fdt_property_placeholder m fdt name len = do {
     err \<leftarrow> fdt_sw_probe_struct m fdt;
     if err \<noteq> 0 then Some (err, 0, m)
     else do {
       (nameoff, allocated, m) \<leftarrow> property_name_offset m fdt name;
       if nameoff = 0 then Some (- FDT_ERR_NOSPACE, 0, m)
       else do {
         (prop, m) \<leftarrow> fdt_grab_space m fdt (to_u32 (12 + fdt_tagalign len));
         if prop = 0 then do {
           m \<leftarrow> (if allocated then sw_del_last_string m fdt name else Some m);
           Some (- FDT_ERR_NOSPACE, 0, m) }
         else do {
           m \<leftarrow> fdt32_set m prop FDT_PROP;
           m \<leftarrow> fdt32_set m (prop + 8) nameoff;
           m \<leftarrow> fdt32_set m (prop + 4) len;
           Some (0, prop + 12, m) } } } }"

definition fdt_property :: "mem \<Rightarrow> int \<Rightarrow> int \<Rightarrow> int \<Rightarrow> int \<Rightarrow> (int \<times> mem) option" where
  "fdt_property m fdt name val len = do {
     (ret, ptr, m) \<leftarrow> fdt_property_placeholder m fdt name len;
     if ret \<noteq> 0 then Some (ret, m)
     else if len \<noteq> 0 then do { (_, m) \<leftarrow> memcpy m ptr val (nat (to_u32 len)); Some (0, m) }
     else Some (0, m) }"

section \<open>Finishing\<close>

text \<open>The walk that turns the string offsets; the result is \<open>nextoffset\<close> at the end tag.\<close>

partial_function (option) fdt_finish_loop :: "mem \<Rightarrow> int \<Rightarrow> int \<Rightarrow> (int \<times> mem) option" where [code]:
  "fdt_finish_loop m fdt offset = do {
     (tag, nextoffset) \<leftarrow> fdt_next_tag m fdt offset;
     if tag \<noteq> FDT_END then do {
       m \<leftarrow> (if tag = FDT_PROP then do {
               prop \<leftarrow> fdt_offset_ptr_raw m fdt offset;
               nameoff \<leftarrow> fdt32_ld_native m (prop + 8);
               size_strings \<leftarrow> fdt_size_dt_strings m fdt;
               fdt32_set m (prop + 8) (to_s32 (to_s32 nameoff + size_strings)) }
             else Some m);
       fdt_finish_loop m fdt nextoffset }
     else Some (nextoffset, m) }"

definition fdt_finish :: "mem \<Rightarrow> int \<Rightarrow> (int \<times> mem) option" where
  "fdt_finish m fdt = do {
     err \<leftarrow> fdt_sw_probe_struct m fdt;
     if err \<noteq> 0 then Some (err, m)
     else do {
       (endp, m) \<leftarrow> fdt_grab_space m fdt 4;
       if endp = 0 then Some (- FDT_ERR_NOSPACE, m)
       else do {
         m \<leftarrow> fdt32_set m endp FDT_END;
         totalsize \<leftarrow> fdt_totalsize m fdt;
         size_strings \<leftarrow> fdt_size_dt_strings m fdt;
         off_struct \<leftarrow> fdt_off_dt_struct m fdt;
         size_struct \<leftarrow> fdt_size_dt_struct m fdt;
         let oldstroffset = to_s32 (totalsize - size_strings);
             newstroffset = to_s32 (off_struct + size_struct) in do {
         (_, m) \<leftarrow> memmove m (fdt + newstroffset) (fdt + oldstroffset) (nat size_strings);
         m \<leftarrow> fdt_set_off_dt_strings m fdt newstroffset;
         (nextoffset, m) \<leftarrow> fdt_finish_loop m fdt 0;
         if nextoffset < 0 then Some (nextoffset, m)
         else do {
           size_strings \<leftarrow> fdt_size_dt_strings m fdt;
           m \<leftarrow> fdt_set_totalsize m fdt (to_u32 (newstroffset + size_strings));
           m \<leftarrow> fdt_set_last_comp_version m fdt FDT_LAST_COMPATIBLE_VERSION;
           m \<leftarrow> fdt_set_magic m fdt FDT_MAGIC;
           Some (0, m) } } } } }"


section \<open>The layout invariant\<close>

text \<open>
  A tree under construction: the structure block grows up behind the reserve map, the strings grow
  down from the end, and they do not meet.
\<close>

definition sw_ok :: "mem \<Rightarrow> int \<Rightarrow> bool" where
  "sw_ok m fdt \<longleftrightarrow> 0 < fdt \<and> mapped m fdt 40 \<and> mapped m fdt (h_totalsize m fdt) \<and>
     h_totalsize m fdt \<le> INT32_MAX \<and> hdr m fdt 0 = FDT_SW_MAGIC \<and> h_version m fdt = 17 \<and>
     40 \<le> h_off_struct m fdt \<and>
     h_off_struct m fdt + h_size_struct m fdt + h_size_strings m fdt \<le> h_totalsize m fdt"

definition sw_open :: "mem \<Rightarrow> int \<Rightarrow> bool" where
  "sw_open m fdt \<longleftrightarrow> h_off_strings m fdt = h_totalsize m fdt"

lemma sw_ok_header: "sw_ok m fdt \<Longrightarrow> mapped m fdt 40"
  by (simp add: sw_ok_def)

lemmas sw_simps = header_fields [OF sw_ok_header]

lemma sw_bounds:
  assumes "sw_ok m fdt"
  shows "0 \<le> h_size_struct m fdt" "0 \<le> h_size_strings m fdt" "0 < fdt" "40 \<le> h_off_struct m fdt"
    "h_off_struct m fdt + h_size_struct m fdt + h_size_strings m fdt \<le> h_totalsize m fdt"
    "h_totalsize m fdt \<le> INT32_MAX"
  using assms blob_field(2) [OF sw_ok_header [OF assms]] by (simp_all add: sw_ok_def)

lemma sw_probe_ok: "sw_ok m fdt \<Longrightarrow> fdt_sw_probe m fdt = Some 0"
  by (simp add: fdt_sw_probe_def sw_simps) (simp add: sw_ok_def)

lemma sw_probe_struct_ok:
  "sw_ok m fdt \<Longrightarrow> fdt_sw_probe_struct m fdt = Some (if sw_open m fdt then 0 else - FDT_ERR_BADSTATE)"
  by (simp add: fdt_sw_probe_struct_def sw_probe_ok sw_simps sw_open_def)

lemma sw_probe_memrsv_ok:
  "sw_ok m fdt \<Longrightarrow>
   fdt_sw_probe_memrsv m fdt = Some (if h_off_strings m fdt = 0 then 0 else - FDT_ERR_BADSTATE)"
  by (simp add: fdt_sw_probe_memrsv_def sw_probe_ok sw_simps)

text \<open>
  \<open>same_but ks m m' fdt\<close>: the header fields outside \<open>ks\<close> are the same, and only the blob was written.
\<close>

definition hdr_fields :: "int set" where
  "hdr_fields = {0, 4, 8, 12, 16, 20, 24, 28, 32, 36}"

definition same_but :: "int set \<Rightarrow> mem \<Rightarrow> mem \<Rightarrow> int \<Rightarrow> bool" where
  "same_but ks m m' fdt \<longleftrightarrow>
     (\<forall>k. k \<in> hdr_fields \<longrightarrow> k \<notin> ks \<longrightarrow> hdr m' fdt k = hdr m fdt k) \<and>
     writes_only m m' fdt (h_totalsize m fdt)"

lemma hdr_field [simp]: "0 \<in> hdr_fields" "4 \<in> hdr_fields" "8 \<in> hdr_fields" "12 \<in> hdr_fields"
  "16 \<in> hdr_fields" "20 \<in> hdr_fields" "24 \<in> hdr_fields" "28 \<in> hdr_fields" "32 \<in> hdr_fields"
  "36 \<in> hdr_fields"
  by (simp_all add: hdr_fields_def)

lemma hdr_fields_apart:
  assumes "k \<in> hdr_fields"
  shows "0 \<le> k" "k \<le> 36" "j \<in> hdr_fields \<Longrightarrow> j \<noteq> k \<Longrightarrow> j + 4 \<le> k \<or> k + 4 \<le> j"
  using assms unfolding hdr_fields_def by (elim insertE; simp)+

lemma same_butD:
  "same_but ks m m' fdt \<Longrightarrow> k \<in> hdr_fields \<Longrightarrow> k \<notin> ks \<Longrightarrow> hdr m' fdt k = hdr m fdt k"
  unfolding same_but_def by blast

lemma same_but_writes: "same_but ks m m' fdt \<Longrightarrow> writes_only m m' fdt (h_totalsize m fdt)"
  by (simp add: same_but_def)

lemma sw_ok_upd:
  assumes "sw_ok m fdt" "same_but ks m m' fdt" "0 \<notin> ks" "4 \<notin> ks" "20 \<notin> ks"
    "40 \<le> h_off_struct m' fdt"
    "h_off_struct m' fdt + h_size_struct m' fdt + h_size_strings m' fdt \<le> h_totalsize m fdt"
  shows "sw_ok m' fdt" "h_totalsize m' fdt = h_totalsize m fdt"
proof -
  note w = same_but_writes [OF assms(2)]
  have h: "hdr m' fdt 0 = hdr m fdt 0" "hdr m' fdt 4 = hdr m fdt 4" "hdr m' fdt 20 = hdr m fdt 20"
    using same_butD [OF assms(2)] assms(3-5) by simp_all
  then show "sw_ok m' fdt" "h_totalsize m' fdt = h_totalsize m fdt"
    using assms(1,6,7) writes_only_mapped [OF w] by (simp_all add: sw_ok_def)
qed

lemma same_but_refl [simp]: "same_but ks m m fdt"
  by (simp add: same_but_def)

lemma same_but_trans:
  "same_but ks m m1 fdt \<Longrightarrow> same_but ks' m1 m2 fdt \<Longrightarrow> 4 \<notin> ks \<Longrightarrow> same_but (ks \<union> ks') m m2 fdt"
  unfolding same_but_def using hdr_field(2) writes_only_trans by (metis UnI1 UnI2)

lemma same_but_mono: "same_but ks m m' fdt \<Longrightarrow> ks \<subseteq> ks' \<Longrightarrow> same_but ks' m m' fdt"
  unfolding same_but_def by blast

lemma same_but_fields:
  assumes "same_but ks m m' fdt"
  shows "4 \<notin> ks \<Longrightarrow> h_totalsize m' fdt = h_totalsize m fdt"
    "8 \<notin> ks \<Longrightarrow> h_off_struct m' fdt = h_off_struct m fdt"
    "12 \<notin> ks \<Longrightarrow> h_off_strings m' fdt = h_off_strings m fdt"
    "16 \<notin> ks \<Longrightarrow> h_off_rsvmap m' fdt = h_off_rsvmap m fdt"
    "24 \<notin> ks \<Longrightarrow> h_last_comp m' fdt = h_last_comp m fdt"
    "32 \<notin> ks \<Longrightarrow> h_size_strings m' fdt = h_size_strings m fdt"
    "36 \<notin> ks \<Longrightarrow> h_size_struct m' fdt = h_size_struct m fdt"
  using same_butD [OF assms] by simp_all

text \<open>A header field, and a write behind the header.\<close>

lemma sw_set_field:
  assumes s: "sw_ok m fdt" and k: "k \<in> hdr_fields" and v: "0 \<le> v" "v \<le> UINT32_MAX"
  obtains m' where "fdt32_set m (fdt + k) v = Some m'" "hdr m' fdt k = v" "same_but {k} m m' fdt"
    "writes_only m m' (fdt + k) 4"
proof (rule hdr_set [OF sw_ok_header [OF s] hdr_fields_apart(1,2) [OF k], of v])
  fix m' assume m': "fdt32_set m (fdt + k) v = Some m'" "writes_only m m' (fdt + k) 4" "mapped m' fdt 40"
    "hdr m' fdt k = to_u32 v" and other: "\<And>j. j + 4 \<le> k \<or> k + 4 \<le> j \<Longrightarrow> hdr m' fdt j = hdr m fdt j"
  have "writes_only m m' fdt (h_totalsize m fdt)"
    using sw_bounds [OF s] hdr_fields_apart(1,2) [OF k] by (intro writes_only_mono [OF m'(2)]) auto
  then have "same_but {k} m m' fdt"
    using other hdr_fields_apart(3) [OF k] by (simp add: same_but_def)
  with m' that v show thesis by (simp add: to_u32_id)
qed

lemma same_but_body:
  assumes "sw_ok m fdt" "writes_only m m' a n" "fdt + 40 \<le> a" "a + n \<le> fdt + h_totalsize m fdt"
  shows "same_but {} m m' fdt"
  unfolding same_but_def
proof (intro conjI allI impI)
  fix k :: int assume "k \<in> hdr_fields"
  then have "fdt + k + 4 \<le> a" using assms(3) hdr_fields_apart(2) [of k] by simp
  then show "hdr m' fdt k = hdr m fdt k" by (rule hdr_frame [OF assms(2)])
qed (rule writes_only_mono [OF assms(2)], use assms(3,4) in auto)

lemma sw_set_body:
  assumes "sw_ok m fdt" "40 \<le> o'" "o' + 4 \<le> h_totalsize m fdt"
  obtains m' where "fdt32_set m (fdt + o') v = Some m'" "fdt32_ld m' (fdt + o') = Some (to_u32 v)"
    "same_but {} m m' fdt" "writes_only m m' (fdt + o') 4"
proof -
  have t: "mapped m fdt (h_totalsize m fdt)" using assms(1) by (simp add: sw_ok_def)
  have "mapped m (fdt + o') 4" by (rule mapped_sub [OF t]) (use assms(2,3) in simp_all)
  then obtain m' where m': "fdt32_set m (fdt + o') v = Some m'" "writes_only m m' (fdt + o') 4"
    "fdt32_ld m' (fdt + o') = Some (to_u32 v)" by (rule fdt32_set_ok)
  have "same_but {} m m' fdt" by (rule same_but_body [OF assms(1) m'(2)]) (use assms(2,3) in simp_all)
  with m' show ?thesis by (intro that)
qed

lemma grab_spec:
  assumes s: "sw_ok m fdt" and len: "0 \<le> len" "len \<le> UINT32_MAX"
  shows "(h_off_struct m fdt + h_size_struct m fdt + len + h_size_strings m fdt > h_totalsize m fdt \<and>
      fdt_grab_space m fdt len = Some (0, m)) \<or>
    (h_off_struct m fdt + h_size_struct m fdt + len + h_size_strings m fdt \<le> h_totalsize m fdt \<and>
      (\<exists>m'. fdt_grab_space m fdt len = Some (fdt + (h_off_struct m fdt + h_size_struct m fdt), m') \<and>
         h_size_struct m' fdt = h_size_struct m fdt + len \<and> same_but {36} m m' fdt \<and>
         writes_only m m' (fdt + 36) 4))"
proof -
  note b = sw_bounds [OF s]
  have left: "to_u32 (h_totalsize m fdt - h_off_struct m fdt - h_size_strings m fdt) =
      h_totalsize m fdt - h_off_struct m fdt - h_size_strings m fdt"
    using b by (intro to_u32_id) auto
  define o' where "o' = h_size_struct m fdt"
  show ?thesis
  proof (cases "h_off_struct m fdt + o' + len + h_size_strings m fdt \<le> h_totalsize m fdt")
    case True
    then have ol: "to_u32 (o' + len) = o' + len" "to_s32 o' = o'"
      using b len by (auto simp: o'_def intro!: to_u32_id to_s32_id)
    obtain m' where m': "fdt32_set m (fdt + 36) (o' + len) = Some m'" "h_size_struct m' fdt = o' + len"
      "same_but {36} m m' fdt" "writes_only m m' (fdt + 36) 4"
    proof (rule sw_set_field [OF s, of 36 "o' + len"])
      show "0 \<le> o' + len" "o' + len \<le> UINT32_MAX" using True b len by (simp_all add: o'_def)
    qed simp_all
    have hm': "mapped m' fdt 40" using writes_only_mapped [OF m'(4) sw_ok_header [OF s]] .
    have "fdt_offset_ptr_raw m' fdt o' = Some (fdt + (h_off_struct m fdt + o'))"
      using same_but_fields(2) [OF m'(3)] by (simp add: fdt_offset_ptr_raw_def header_fields [OF hm'])
    then have "fdt_grab_space m fdt len = Some (fdt + (h_off_struct m fdt + o'), m')"
      using True b len m'(1) ol
      by (simp add: fdt_grab_space_def sw_simps [OF s] Let_def left o'_def [symmetric] fdt_set_defs)
    with m' True show ?thesis by (auto simp: o'_def)
  next
    case False
    have "to_u32 (o' + len) < o' \<or> to_u32 (o' + len) > h_totalsize m fdt - h_off_struct m fdt - h_size_strings m fdt"
    proof (cases "o' + len \<le> UINT32_MAX")
      case True
      then have "to_u32 (o' + len) = o' + len" using b len by (auto simp: o'_def intro!: to_u32_id)
      with False show ?thesis by simp
    next
      case wrap: False
      then have "to_u32 (o' + len) = o' + len - 4294967296"
        using b len by (intro to_u32_wrap) (auto simp: o'_def)
      with len show ?thesis by simp
    qed
    then have "fdt_grab_space m fdt len = Some (0, m)"
      by (simp add: fdt_grab_space_def sw_simps [OF s] Let_def left o'_def [symmetric])
    with False show ?thesis by (simp add: o'_def)
  qed
qed

section \<open>What each call does\<close>

text \<open>Where the structure block ends, and the space left to the strings.\<close>

definition sw_top :: "mem \<Rightarrow> int \<Rightarrow> int" where
  "sw_top m fdt = h_off_struct m fdt + h_size_struct m fdt"

definition sw_room :: "mem \<Rightarrow> int \<Rightarrow> int" where
  "sw_room m fdt = h_totalsize m fdt - h_size_strings m fdt - sw_top m fdt"

text \<open>
  \<open>grown m m' fdt n\<close>: the structure block has \<open>n\<close> bytes more, and apart from the header and those bytes
  nothing was written.
\<close>

definition grown :: "mem \<Rightarrow> mem \<Rightarrow> int \<Rightarrow> int \<Rightarrow> bool" where
  "grown m m' fdt n \<longleftrightarrow> same_but {36} m m' fdt \<and> h_size_struct m' fdt = h_size_struct m fdt + n \<and>
     (\<forall>a. fdt + 40 \<le> a \<and> (a < fdt + sw_top m fdt \<or> fdt + sw_top m fdt + n \<le> a) \<longrightarrow> m' a = m a)"

lemma grown_ok:
  assumes "sw_ok m fdt" "grown m m' fdt n" "0 \<le> n" "n \<le> sw_room m fdt"
  shows "sw_ok m' fdt" "sw_open m' fdt = sw_open m fdt" "h_totalsize m' fdt = h_totalsize m fdt"
    "h_size_strings m' fdt = h_size_strings m fdt" "h_off_struct m' fdt = h_off_struct m fdt"
    "sw_top m' fdt = sw_top m fdt + n" "sw_room m' fdt = sw_room m fdt - n"
proof -
  from assms(2) have g: "same_but {36} m m' fdt" "h_size_struct m' fdt = h_size_struct m fdt + n"
    by (simp_all add: grown_def)
  note f = same_but_fields [OF g(1)]
  from f show fs: "h_totalsize m' fdt = h_totalsize m fdt" "h_size_strings m' fdt = h_size_strings m fdt"
    "h_off_struct m' fdt = h_off_struct m fdt" by simp_all
  from f show "sw_open m' fdt = sw_open m fdt" by (simp add: sw_open_def)
  show "sw_top m' fdt = sw_top m fdt + n" "sw_room m' fdt = sw_room m fdt - n"
    by (simp_all add: sw_top_def sw_room_def fs g(2))
  show "sw_ok m' fdt"
    using sw_bounds [OF assms(1)] assms(3,4) fs g(2)
    by (intro sw_ok_upd(1) [OF assms(1) g(1)]) (simp_all add: sw_room_def sw_top_def)
qed

lemma grab_run:
  assumes s: "sw_ok m fdt" and len: "0 \<le> len" "len \<le> UINT32_MAX"
  obtains (full) "sw_room m fdt < len" "fdt_grab_space m fdt len = Some (0, m)"
    | (got) m' where "len \<le> sw_room m fdt" "fdt_grab_space m fdt len = Some (fdt + sw_top m fdt, m')"
        "fdt + sw_top m fdt \<noteq> 0" "grown m m' fdt len" "writes_only m m' (fdt + 36) 4"
proof -
  have nz: "fdt + sw_top m fdt \<noteq> 0" using sw_bounds [OF s] by (simp add: sw_top_def)
  have g: "grown m m' fdt len"
    if "h_size_struct m' fdt = h_size_struct m fdt + len" "same_but {36} m m' fdt" "writes_only m m' (fdt + 36) 4" for m'
    using that by (simp add: grown_def writes_only_def)
  have e: "sw_top m fdt + len + h_size_strings m fdt > h_totalsize m fdt \<longleftrightarrow> sw_room m fdt < len"
    by (auto simp: sw_room_def)
  have e': "sw_top m fdt + len + h_size_strings m fdt \<le> h_totalsize m fdt \<longleftrightarrow> len \<le> sw_room m fdt"
    by (auto simp: sw_room_def)
  from grab_spec [OF s len] show thesis
    unfolding sw_top_def [symmetric] e e'
  proof (elim disjE conjE exE)
    assume "sw_room m fdt < len" "fdt_grab_space m fdt len = Some (0, m)"
    then show thesis by (rule full)
  next
    fix m' assume "len \<le> sw_room m fdt" "fdt_grab_space m fdt len = Some (fdt + sw_top m fdt, m')"
      "h_size_struct m' fdt = h_size_struct m fdt + len" "same_but {36} m m' fdt" "writes_only m m' (fdt + 36) 4"
    with nz g show thesis by (intro got)
  qed
qed

text \<open>A write inside the space just taken.\<close>

lemma grown_write:
  assumes s: "sw_ok m fdt" and g: "grown m m1 fdt n" "0 \<le> n" "n \<le> sw_room m fdt"
    and w: "writes_only m1 m2 (fdt + sw_top m fdt + o') k" "0 \<le> o'" "0 \<le> k" "o' + k \<le> n"
  shows "grown m m2 fdt n"
proof -
  note gk = grown_ok [OF s g]
  note b = sw_bounds [OF s]
  have t: "sw_top m fdt + n \<le> h_totalsize m fdt" "40 \<le> sw_top m fdt"
    using b g(3) by (simp_all add: sw_top_def sw_room_def)
  have "same_but {} m1 m2 fdt"
    by (rule same_but_body [OF gk(1) w(1)]) (use t gk(3) w in simp_all)
  then have "same_but ({36} \<union> {}) m m2 fdt" "h_size_struct m2 fdt = h_size_struct m1 fdt"
    using g(1) same_but_fields(7) [of "{}" m1 m2 fdt] same_but_trans [of "{36}" m m1 fdt "{}" m2]
    by (simp_all add: grown_def)
  moreover have "m2 a = m a" if a: "fdt + 40 \<le> a" "a < fdt + sw_top m fdt \<or> fdt + sw_top m fdt + n \<le> a" for a
  proof -
    have "m2 a = m1 a" by (rule writes_only_same [OF w(1)]) (use a w(2-4) in auto)
    then show ?thesis using g(1) a by (simp add: grown_def)
  qed
  ultimately show ?thesis using g(1) by (simp add: grown_def)
qed

text \<open>A tag at the end of the structure block.\<close>

lemma grab_tag:
  assumes s: "sw_ok m fdt" and r: "4 \<le> sw_room m fdt"
  obtains m1 m2 where "fdt_grab_space m fdt 4 = Some (fdt + sw_top m fdt, m1)" "fdt + sw_top m fdt \<noteq> 0"
    "fdt32_set m1 (fdt + sw_top m fdt) tag = Some m2" "grown m m2 fdt 4"
    "fdt32_ld m2 (fdt + sw_top m fdt) = Some (to_u32 tag)"
proof (rule grab_run [OF s, of 4])
  note b = sw_bounds [OF s]
  fix m1 assume m1: "4 \<le> sw_room m fdt" "fdt_grab_space m fdt 4 = Some (fdt + sw_top m fdt, m1)"
    "fdt + sw_top m fdt \<noteq> 0" "grown m m1 fdt 4" "writes_only m m1 (fdt + 36) 4"
  note g = grown_ok [OF s m1(4) _ m1(1)]
  have "40 \<le> sw_top m fdt" "sw_top m fdt + 4 \<le> h_totalsize m1 fdt"
    using b m1(1) g(3) by (simp_all add: sw_top_def sw_room_def)
  then obtain m2 where m2: "fdt32_set m1 (fdt + sw_top m fdt) tag = Some m2"
    "fdt32_ld m2 (fdt + sw_top m fdt) = Some (to_u32 tag)" "writes_only m1 m2 (fdt + sw_top m fdt) 4"
    using sw_set_body [of m1 fdt "sw_top m fdt"] g(1) by auto
  have "grown m m2 fdt 4"
    by (rule grown_write [where o' = 0 and k = 4, OF s m1(4) _ m1(1)]) (use m2(3) in simp_all)
  with that m1(2,3) m2(1,2) show thesis by blast
qed (use r in simp_all)

lemma fdt_end_node_spec:
  assumes s: "sw_ok m fdt"
  obtains (badstate) "\<not> sw_open m fdt" "fdt_end_node m fdt = Some (- FDT_ERR_BADSTATE, m)"
    | (nospace) "sw_open m fdt" "sw_room m fdt < 4" "fdt_end_node m fdt = Some (- FDT_ERR_NOSPACE, m)"
    | (ok) m' where "sw_open m fdt" "4 \<le> sw_room m fdt" "fdt_end_node m fdt = Some (0, m')" "grown m m' fdt 4"
        "fdt32_ld m' (fdt + sw_top m fdt) = Some FDT_END_NODE"
proof (cases "sw_open m fdt")
  case False
  with badstate show thesis by (simp add: fdt_end_node_def sw_probe_struct_ok [OF s])
next
  case True
  then have p: "fdt_sw_probe_struct m fdt = Some 0" by (simp add: sw_probe_struct_ok [OF s])
  show thesis
  proof (cases "4 \<le> sw_room m fdt")
    case room: True
    from grab_tag [OF s room, of FDT_END_NODE] obtain m1 m2 where
      m2: "fdt_grab_space m fdt 4 = Some (fdt + sw_top m fdt, m1)" "fdt + sw_top m fdt \<noteq> 0"
        "fdt32_set m1 (fdt + sw_top m fdt) FDT_END_NODE = Some m2" "grown m m2 fdt 4"
        "fdt32_ld m2 (fdt + sw_top m fdt) = Some (to_u32 FDT_END_NODE)" by blast
    then have "fdt_end_node m fdt = Some (0, m2)" using p by (simp add: fdt_end_node_def)
    with ok True room m2(4,5) show thesis by (simp add: to_u32_id)
  next
    case False
    then have "fdt_grab_space m fdt 4 = Some (0, m)" by (rule_tac grab_run [OF s, of 4]) auto
    with nospace True False p show thesis by (simp add: fdt_end_node_def)
  qed
qed

text \<open>Data behind the header that a growing structure block does not reach.\<close>

lemma grown_bytes:
  assumes "grown m m' fdt n" "fdt + 40 \<le> p" "p + int (length bs) \<le> fdt + sw_top m fdt \<or> fdt + sw_top m fdt + n \<le> p"
  shows "bytes_at m' p bs = bytes_at m p bs"
  using assms unfolding grown_def bytes_at_iff by (intro all_cong) auto

lemma grown_outside:
  assumes "grown m m' fdt n" "p + int (length bs) \<le> fdt \<or> fdt + h_totalsize m fdt \<le> p"
  shows "bytes_at m' p bs = bytes_at m p bs"
  using assms(2) bytes_at_frame [OF same_but_writes] assms(1) unfolding grown_def by blast

abbreviation apart :: "mem \<Rightarrow> int \<Rightarrow> int \<Rightarrow> int \<Rightarrow> bool" where
  "apart m fdt p n \<equiv> p + n \<le> fdt \<or> fdt + h_totalsize m fdt \<le> p"

definition tag_size :: "int \<Rightarrow> int" where
  "tag_size n = 4 * ((n + 3) div 4)"

lemma tag_size_bounds: "n \<le> tag_size n" "tag_size n \<le> n + 3" "tag_size n mod 4 = 0"
  by (simp_all add: tag_size_def)

lemma fdt_begin_node_spec:
  assumes s: "sw_ok m fdt" and n: "c_string m name nm" and ap: "apart m fdt name (int (length nm) + 1)"
  obtains (badstate) "\<not> sw_open m fdt" "fdt_begin_node m fdt name = Some (- FDT_ERR_BADSTATE, m)"
    | (nospace) "sw_open m fdt" "sw_room m fdt < 4 + tag_size (int (length nm) + 1)"
        "fdt_begin_node m fdt name = Some (- FDT_ERR_NOSPACE, m)"
    | (ok) m' where "sw_open m fdt" "4 + tag_size (int (length nm) + 1) \<le> sw_room m fdt"
        "fdt_begin_node m fdt name = Some (0, m')" "grown m m' fdt (4 + tag_size (int (length nm) + 1))"
        "fdt32_ld m' (fdt + sw_top m fdt) = Some FDT_BEGIN_NODE"
        "bytes_at m' (fdt + sw_top m fdt + 4) (nm @ [0])"
proof (cases "sw_open m fdt")
  case False
  with badstate show thesis by (simp add: fdt_begin_node_def sw_probe_struct_ok [OF s])
next
  case True
  then have p: "fdt_sw_probe_struct m fdt = Some 0" by (simp add: sw_probe_struct_ok [OF s])
  note b = sw_bounds [OF s]
  define L where "L = int (length nm) + 1"
  have L: "1 \<le> L" "L \<le> 2147483641" using n by (simp_all add: L_def c_string_def)
  note tb = tag_size_bounds [of L]
  have al: "to_s32 L = L" "fdt_tagalign L = tag_size L" "to_u32 (4 + tag_size L) = 4 + tag_size L" "to_u32 L = L"
    using L tb by (simp_all add: to_s32_id to_u32_id fdt_tagalign_def tag_size_def)
  have sl: "strlen m name = Some (int (length nm))" by (rule c_string_strlen [OF n])
  have len: "0 \<le> 4 + tag_size L" "4 + tag_size L \<le> UINT32_MAX" using tb L by simp_all
  note eq = fdt_begin_node_def p sl L_def [symmetric] al
  show thesis
  proof (rule grab_run [OF s len])
    assume "sw_room m fdt < 4 + tag_size L" "fdt_grab_space m fdt (4 + tag_size L) = Some (0, m)"
    with nospace True show thesis by (simp add: eq)
  next
    fix m1 assume m1: "4 + tag_size L \<le> sw_room m fdt"
      "fdt_grab_space m fdt (4 + tag_size L) = Some (fdt + sw_top m fdt, m1)"
      "fdt + sw_top m fdt \<noteq> 0" "grown m m1 fdt (4 + tag_size L)" "writes_only m m1 (fdt + 36) 4"
    note g = grown_ok [OF s m1(4) len(1) m1(1)]
    have t: "40 \<le> sw_top m fdt" "sw_top m fdt + (4 + tag_size L) \<le> h_totalsize m1 fdt"
      using b m1(1) g(3) by (simp_all add: sw_top_def sw_room_def)
    then obtain m2 where m2: "fdt32_set m1 (fdt + sw_top m fdt) FDT_BEGIN_NODE = Some m2"
      "fdt32_ld m2 (fdt + sw_top m fdt) = Some (to_u32 FDT_BEGIN_NODE)" "same_but {} m1 m2 fdt"
      "writes_only m1 m2 (fdt + sw_top m fdt) 4"
      using sw_set_body [of m1 fdt "sw_top m fdt"] g(1) tb L by auto
    have g2: "grown m m2 fdt (4 + tag_size L)"
      by (rule grown_write [where o' = 0 and k = 4, OF s m1(4) len(1) m1(1)]) (use m2(4) tb L in simp_all)
    have nb: "bytes_at m2 name (nm @ [0])"
      using grown_outside [OF g2, of name "nm @ [0]"] ap c_string_bytes(7) [OF n] by (simp add: add.commute)
    have t2: "mapped m2 fdt (h_totalsize m fdt)"
      using grown_ok(1,3) [OF s g2 len(1) m1(1)] by (simp add: sw_ok_def)
    have "mapped m2 (fdt + sw_top m fdt + 4) (int (length (nm @ [0])))"
      by (rule mapped_sub [OF t2]) (use t tb g(3) in \<open>simp_all add: L_def\<close>)
    moreover have "fdt + sw_top m fdt + 4 \<le> name \<or> name + int (length (nm @ [0])) \<le> fdt + sw_top m fdt + 4"
      using ap t g(3) tb by (auto simp: L_def)
    ultimately obtain m3 where m3: "memcpy m2 (fdt + sw_top m fdt + 4) name (length (nm @ [0])) =
        Some (fdt + sw_top m fdt + 4, m3)" "bytes_at m3 (fdt + sw_top m fdt + 4) (nm @ [0])"
      "writes_only m2 m3 (fdt + sw_top m fdt + 4) (int (length (nm @ [0])))"
      using memcpy_bytes [OF nb] by blast
    have lw: "int (length (nm @ [0])) = L" "nat L = length (nm @ [0])" by (simp_all add: L_def)
    have "grown m m3 fdt (4 + tag_size L)"
      by (rule grown_write [where o' = 4 and k = L, OF s g2 len(1) m1(1)]) (use m3(3) lw tb L in simp_all)
    moreover have "fdt32_ld m3 (fdt + sw_top m fdt) = Some FDT_BEGIN_NODE"
      using m2(2) fdt32_ld_frame [OF m3(3), of "fdt + sw_top m fdt"] by (simp add: to_u32_id)
    moreover have "fdt_begin_node m fdt name = Some (0, m3)"
      using m1(2,3) m2(1) m3(1) by (simp add: eq lw(2))
    ultimately show thesis using ok True m1(1) m3(2) by (simp add: L_def)
  qed
qed

section \<open>Strings\<close>

lemma find_string_from_spec:
  assumes b: "bytes_at m s bs" "0 \<le> s" "s < 4294967296"
  shows "0 < p \<Longrightarrow> final < 4294967296 \<Longrightarrow> mapped m p (final - p + int (length bs) + 1) \<Longrightarrow>
    \<exists>q. fdt_find_string_from m p final s (length bs) = Some q \<and>
      (q = 0 \<or> p \<le> q \<and> q \<le> final \<and> bytes_at m q bs \<and> m (q + int (length bs)) = Some 0)"
proof (induction "nat (final + 1 - p)" arbitrary: p rule: less_induct)
  case less
  show ?case
  proof (cases "p \<le> final")
    case False
    then show ?thesis by (simp add: fdt_find_string_from.simps [of m p])
  next
    case True
    have "mapped m p (int (length bs))" using less.prems(3) by (rule mapped_sub) (use True in auto)
    from load_bytes_mapped [OF this] obtain cs where cs: "bytes_at m p cs" "length cs = length bs"
      by (auto simp: load_bytes_Some)
    have c: "memcmp m p s (length bs) = Some (if cs = bs then 0 else to_s32 (p - s))"
      using memcmp_spec [OF cs(1) b(1)] cs(2) by simp
    have z: "to_s32 (p - s) \<noteq> 0" if "cs \<noteq> bs"
    proof
      assume "to_s32 (p - s) = 0"
      then have "p = s" using to_s32_eq_0 [of "p - s"] b less.prems True by simp
      with cs b(1) that show False by (auto simp: bytes_at_iff nth_equalityI)
    qed
    obtain y where y: "m (p + int (length bs)) = Some y"
      using mappedD [OF less.prems(3), of "p + int (length bs)"] True by auto
    show ?thesis
    proof (cases "cs = bs \<and> y = 0")
      case hit: True
      with c y cs True show ?thesis by (simp add: fdt_find_string_from.simps [of m p] load8_def)
    next
      case False
      then have "fdt_find_string_from m p final s (length bs) = fdt_find_string_from m (p + 1) final s (length bs)"
        using c y z True by (subst fdt_find_string_from.simps) (auto simp: load8_def)
      moreover have "mapped m (p + 1) (final - (p + 1) + int (length bs) + 1)"
        using less.prems(3) by (rule mapped_sub) auto
      then have "\<exists>q. fdt_find_string_from m (p + 1) final s (length bs) = Some q \<and>
        (q = 0 \<or> p + 1 \<le> q \<and> q \<le> final \<and> bytes_at m q bs \<and> m (q + int (length bs)) = Some 0)"
        using less.prems True by (intro less.hyps) auto
      ultimately show ?thesis by auto
    qed
  qed
qed

text \<open>
  \<open>extends m m' fdt\<close>: the tree under construction may have grown, nothing that was in it has changed.
\<close>

definition extends :: "mem \<Rightarrow> mem \<Rightarrow> int \<Rightarrow> bool" where
  "extends m m' fdt \<longleftrightarrow> sw_ok m' fdt \<and> h_totalsize m' fdt = h_totalsize m fdt \<and>
     h_off_struct m' fdt = h_off_struct m fdt \<and> h_off_strings m' fdt = h_off_strings m fdt \<and>
     h_off_rsvmap m' fdt = h_off_rsvmap m fdt \<and> h_size_struct m fdt \<le> h_size_struct m' fdt \<and> h_size_strings m fdt \<le> h_size_strings m' fdt \<and>
     writes_only m m' fdt (h_totalsize m fdt) \<and>
     (\<forall>a. fdt + 40 \<le> a \<and> a < fdt + sw_top m fdt \<or>
          fdt + h_totalsize m fdt - h_size_strings m fdt \<le> a \<longrightarrow> m' a = m a)"

lemma extends_refl: "sw_ok m fdt \<Longrightarrow> extends m m fdt"
  by (simp add: extends_def)

lemma extends_trans:
  assumes "extends m m1 fdt" "extends m1 m2 fdt"
  shows "extends m m2 fdt"
proof -
  have w: "writes_only m m2 fdt (h_totalsize m fdt)"
    using assms unfolding extends_def by (metis writes_only_trans)
  have "m2 a = m a" if "fdt + 40 \<le> a \<and> a < fdt + sw_top m fdt \<or>
      fdt + h_totalsize m fdt - h_size_strings m fdt \<le> a" for a
  proof -
    have "m1 a = m a" using assms(1) that unfolding extends_def by blast
    moreover have "m2 a = m1 a"
      using assms that unfolding extends_def sw_top_def by (elim conjE) auto
    ultimately show ?thesis by simp
  qed
  with assms w show ?thesis by (simp add: extends_def)
qed

lemma grown_extends:
  assumes s: "sw_ok m fdt" and g: "grown m m' fdt n" "0 \<le> n" "n \<le> sw_room m fdt"
  shows "extends m m' fdt"
proof -
  note gk = grown_ok [OF s g]
  from g(1) have f: "same_but {36} m m' fdt" "h_size_struct m' fdt = h_size_struct m fdt + n"
    by (simp_all add: grown_def)
  have "m' a = m a" if a: "fdt + 40 \<le> a \<and> a < fdt + sw_top m fdt \<or>
      fdt + h_totalsize m fdt - h_size_strings m fdt \<le> a" for a
  proof -
    have "fdt + 40 \<le> a \<and> (a < fdt + sw_top m fdt \<or> fdt + sw_top m fdt + n \<le> a)"
      using a g(2,3) sw_bounds [OF s] by (auto simp: sw_room_def sw_top_def)
    then show ?thesis using g(1) by (simp add: grown_def)
  qed
  then show ?thesis
    using gk same_but_fields(3,4) [OF f(1)] same_but_writes [OF f(1)] f(2) g(2) by (simp add: extends_def)
qed

lemma sw_add_string_spec:
  assumes s: "sw_ok m fdt" and n: "c_string m name nm" and ap: "apart m fdt name (int (length nm) + 1)"
    and fit: "h_size_strings m fdt + int (length nm) + 1 \<le> h_totalsize m fdt"
  obtains (full) "sw_room m fdt < int (length nm) + 1" "sw_add_string m fdt name = Some (0, m)"
    | (added) m' off where "int (length nm) + 1 \<le> sw_room m fdt" "sw_add_string m fdt name = Some (off, m')"
        "off + int (length nm) + 1 \<le> 0" "off = - h_size_strings m' fdt" "same_but {32} m m' fdt"
        "h_size_strings m' fdt = h_size_strings m fdt + int (length nm) + 1"
        "bytes_at m' (fdt + h_totalsize m fdt + off) (nm @ [0])" "extends m m' fdt"
proof -
  note b = sw_bounds [OF s]
  define L where "L = int (length nm) + 1"
  define z where "z = h_size_strings m fdt"
  have L: "1 \<le> L" "L \<le> INT32_MAX" using n by (simp_all add: L_def c_string_def)
  have z: "0 \<le> z" "z + L \<le> h_totalsize m fdt" using b fit by (simp_all add: z_def L_def)
  have u: "to_u32 L = L" "to_u32 (z + L) = z + L" "to_u32 (sw_top m fdt) = sw_top m fdt"
    "to_u32 (h_totalsize m fdt - (z + L)) = h_totalsize m fdt - (z + L)" "to_s32 (- z - L) = - z - L"
    using L z b by (simp_all add: to_u32_id to_s32_id sw_top_def)
  have sl: "strlen m name = Some (int (length nm))" by (rule c_string_strlen [OF n])
  have room: "h_totalsize m fdt - (z + L) < sw_top m fdt \<longleftrightarrow> sw_room m fdt < L"
    by (auto simp: sw_room_def z_def)
  have eq: "sw_add_string m fdt name = (if sw_room m fdt < L then Some (0, m) else do {
       (_, m) \<leftarrow> memcpy m (fdt + h_totalsize m fdt - (z + L)) name (nat L);
       m \<leftarrow> fdt_set_size_dt_strings m fdt (z + L);
       Some (- (z + L), m) })"
    unfolding room [symmetric]
    by (simp add: sw_add_string_def sw_simps [OF s] sl Let_def L_def [symmetric] z_def [symmetric] u
        sw_top_def [symmetric])
  show thesis
  proof (cases "sw_room m fdt < L")
    case True
    with full eq show thesis by (simp add: L_def)
  next
    case False
    define a where "a = fdt + h_totalsize m fdt - (z + L)"
    have nb: "bytes_at m name (nm @ [0])" "int (length (nm @ [0])) = L" "nat L = length (nm @ [0])"
      using c_string_bytes(7) [OF n] by (simp_all add: L_def)
    have "mapped m fdt (h_totalsize m fdt)" using s by (simp add: sw_ok_def)
    then have "mapped m a (int (length (nm @ [0])))"
      unfolding nb(2) by (rule mapped_sub) (use z L in \<open>simp_all add: a_def\<close>)
    moreover have "a \<le> name \<or> name + int (length (nm @ [0])) \<le> a"
      using ap z nb(2) by (auto simp: a_def L_def)
    ultimately obtain m1 where m1: "memcpy m a name (length (nm @ [0])) = Some (a, m1)" "bytes_at m1 a (nm @ [0])"
      "writes_only m m1 a L" using memcpy_bytes [OF nb(1)] nb(2) by metis
    have low: "fdt + 40 \<le> a" using False b by (simp add: a_def sw_room_def sw_top_def z_def)
    have sb: "same_but {} m m1 fdt"
      by (rule same_but_body [OF s m1(3) low]) (use z in \<open>simp add: a_def\<close>)
    note f1 = same_but_fields [OF sb]
    have s1: "sw_ok m1 fdt" using b f1 by (intro sw_ok_upd(1) [OF s sb]) simp_all
    have zl: "0 \<le> z + L" "z + L \<le> UINT32_MAX" using z L b by simp_all
    obtain m2 where m2: "fdt32_set m1 (fdt + 32) (z + L) = Some m2" "h_size_strings m2 fdt = z + L"
      "same_but {32} m1 m2 fdt" "writes_only m1 m2 (fdt + 32) 4"
      by (rule sw_set_field [OF s1 hdr_field(9) zl])
    have sb2: "same_but {32} m m2 fdt" using same_but_trans [OF sb m2(3)] by simp
    note f2 = same_but_fields [OF sb2]
    have same: "m2 x = m1 x" if "fdt + 36 \<le> x" for x by (rule writes_only_same [OF m2(4)]) (use that in simp)
    have s2: "sw_ok m2 fdt"
      using b f2 False m2(2) by (intro sw_ok_upd(1) [OF s sb2]) (simp_all add: sw_room_def sw_top_def z_def)
    have "m2 x = m x" if "fdt + 40 \<le> x \<and> x < fdt + sw_top m fdt \<or> fdt + h_totalsize m fdt - z \<le> x" for x
    proof -
      have "fdt + 36 \<le> x" using that b z by (auto simp: z_def)
      moreover have "m1 x = m x"
        by (rule writes_only_same [OF m1(3)]) (use that False L in \<open>auto simp: a_def sw_room_def z_def\<close>)
      ultimately show ?thesis using same by simp
    qed
    then have ext: "extends m m2 fdt"
      using s2 f2 m2(2) L same_but_writes [OF sb2] by (simp add: extends_def z_def)
    have "bytes_at m2 a (nm @ [0])"
      using m1(2) bytes_at_frame [OF m2(4), of a "nm @ [0]"] low by simp
    moreover have "fdt + h_totalsize m fdt + - (z + L) = a" by (simp add: a_def)
    moreover have "sw_add_string m fdt name = Some (- (z + L), m2)"
      using False eq m1(1) m2(1) nb(3) by (simp add: a_def fdt_set_defs)
    ultimately show thesis
      using added [of "- (z + L)" m2] False L z m2(2) sb2 ext by (simp add: L_def z_def)
  qed
qed

lemma sw_find_add_string_spec:
  assumes s: "sw_ok m fdt" and n: "c_string m name nm" and ap: "apart m fdt name (int (length nm) + 1)"
    and fit: "h_size_strings m fdt + int (length nm) + 1 \<le> h_totalsize m fdt"
    and top: "fdt + h_totalsize m fdt \<le> 4294967296"
  obtains (full) "sw_room m fdt < int (length nm) + 1" "sw_find_add_string m fdt name = Some (0, True, m)"
    | (found) off where "sw_find_add_string m fdt name = Some (off, False, m)" "off + int (length nm) + 1 \<le> 0"
        "- h_size_strings m fdt \<le> off" "bytes_at m (fdt + h_totalsize m fdt + off) (nm @ [0])"
    | (added) m' off where "int (length nm) + 1 \<le> sw_room m fdt" "sw_find_add_string m fdt name = Some (off, True, m')"
        "off + int (length nm) + 1 \<le> 0" "off = - h_size_strings m' fdt" "same_but {32} m m' fdt"
        "h_size_strings m' fdt = h_size_strings m fdt + int (length nm) + 1"
        "bytes_at m' (fdt + h_totalsize m fdt + off) (nm @ [0])" "extends m m' fdt"
proof -
  note b = sw_bounds [OF s]
  note nb = c_string_bytes [OF n]
  define z where "z = h_size_strings m fdt"
  define tab where "tab = fdt + h_totalsize m fdt"
  have z: "to_s32 z = z" "0 \<le> z" using b by (simp_all add: z_def to_s32_id)
  have low: "0 < tab - z" using b by (simp add: tab_def z_def)
  define final where "final = tab - (int (length nm) + 1)"
  have "mapped m fdt (h_totalsize m fdt)" using s by (simp add: sw_ok_def)
  then have "mapped m (tab - z) (final - (tab - z) + int (length nm) + 1)"
    by (rule mapped_sub) (use b in \<open>simp_all add: tab_def z_def final_def\<close>)
  moreover have "final < 4294967296" using top by (simp add: final_def tab_def)
  ultimately obtain q where q: "fdt_find_string_from m (tab - z) final name (length nm) = Some q"
    "q = 0 \<or> tab - z \<le> q \<and> q \<le> final \<and> bytes_at m q nm \<and> m (q + int (length nm)) = Some 0"
    using find_string_from_spec [OF nb(1-3) low] by blast
  have fin: "tab - z + z - (int (length nm) + 1) = final" by (simp add: final_def)
  have sl: "strlen m name = Some (int (length nm))" by (rule c_string_strlen [OF n])
  have find: "fdt_find_string_len m (tab - z) z name (length nm) = Some q"
    unfolding fdt_find_string_len_def fin by (rule q(1))
  have eq: "sw_find_add_string m fdt name = (if q \<noteq> 0 then Some (q - tab, False, m)
      else do { (offset, m) \<leftarrow> sw_add_string m fdt name; Some (offset, True, m) })"
    using find
    by (simp add: sw_find_add_string_def sw_simps [OF s] sl Let_def tab_def [symmetric] z_def [symmetric] z(1))
  show thesis
  proof (cases "q = 0")
    case True
    show thesis
    proof (rule sw_add_string_spec [OF s n ap fit])
      assume "sw_room m fdt < int (length nm) + 1" "sw_add_string m fdt name = Some (0, m)"
      with full True eq show thesis by simp
    next
      fix m' off
      assume a: "int (length nm) + 1 \<le> sw_room m fdt" "sw_add_string m fdt name = Some (off, m')"
        "off + int (length nm) + 1 \<le> 0" "off = - h_size_strings m' fdt" "same_but {32} m m' fdt"
        "h_size_strings m' fdt = h_size_strings m fdt + int (length nm) + 1"
        "bytes_at m' (fdt + h_totalsize m fdt + off) (nm @ [0])" "extends m m' fdt"
      have "sw_find_add_string m fdt name = Some (off, True, m')" using True eq a(2) by simp
      then show thesis using added a by blast
    qed
  next
    case False
    with q(2) have "tab - z \<le> q" "q \<le> final" "bytes_at m q (nm @ [0])"
      by (auto simp: bytes_at_iff nth_append less_Suc_eq)
    with found [of "q - tab"] False eq show thesis by (simp add: z_def tab_def final_def)
  qed
qed

text \<open>The property cell at an offset: tag, length and name.\<close>

definition prop_cell :: "mem \<Rightarrow> int \<Rightarrow> int \<Rightarrow> int \<Rightarrow> u8 list \<Rightarrow> bool" where
  "prop_cell m fdt p len nm \<longleftrightarrow> fdt32_ld m p = Some FDT_PROP \<and> fdt32_ld m (p + 4) = Some len \<and>
     (\<exists>off. off + int (length nm) + 1 \<le> 0 \<and> fdt32_ld m (p + 8) = Some (to_u32 off) \<and>
        - h_size_strings m fdt \<le> off \<and> bytes_at m (fdt + h_totalsize m fdt + off) (nm @ [0]))"

lemma extends_bytes:
  assumes "extends m m' fdt" "fdt + h_totalsize m fdt - h_size_strings m fdt \<le> p"
  shows "bytes_at m' p bs = bytes_at m p bs"
  using assms unfolding extends_def bytes_at_iff by (intro all_cong) auto

text \<open>What follows once the name has its offset.\<close>

lemma placeholder_space:
  assumes s: "sw_ok m fdt" and len: "0 \<le> len" "len \<le> INT32_MAX"
    and off: "off + int (length nm) + 1 \<le> 0" "- h_size_strings m fdt \<le> off" "bytes_at m (fdt + h_totalsize m fdt + off) (nm @ [0])"
  obtains (full) "sw_room m fdt < 12 + tag_size len"
      "fdt_grab_space m fdt (to_u32 (12 + fdt_tagalign len)) = Some (0, m)"
    | (got) m1 ma mb m' where "12 + tag_size len \<le> sw_room m fdt" "len \<le> 2147483640"
      "fdt_grab_space m fdt (to_u32 (12 + fdt_tagalign len)) = Some (fdt + sw_top m fdt, m1)"
      "fdt + sw_top m fdt \<noteq> 0"
      "fdt32_set m1 (fdt + sw_top m fdt) FDT_PROP = Some ma"
      "fdt32_set ma (fdt + sw_top m fdt + 8) off = Some mb"
      "fdt32_set mb (fdt + sw_top m fdt + 4) len = Some m'"
      "grown m m' fdt (12 + tag_size len)" "prop_cell m' fdt (fdt + sw_top m fdt) len nm"
proof -
  note b = sw_bounds [OF s]
  note tb = tag_size_bounds [of len]
  define n where "n = to_u32 (12 + fdt_tagalign len)"
  have n: "0 \<le> n" "n \<le> UINT32_MAX" by (simp_all add: n_def)
  have small: "n = 12 + tag_size len" if "len \<le> 2147483640"
    using that tb len by (simp add: n_def fdt_tagalign_eq tag_size_def to_u32_id)
  have big: "sw_room m fdt < n \<and> sw_room m fdt < 12 + tag_size len" if "\<not> len \<le> 2147483640"
  proof -
    have r: "sw_room m fdt \<le> INT32_MAX - 40" using b by (simp add: sw_room_def sw_top_def)
    have "len \<in> {2147483641..2147483647}" using that len by simp
    then have "(len + 3) div 4 = 536870911 \<or> (len + 3) div 4 = 536870912" by auto
    then have "n = 2147483656 \<or> n = 2147483660"
      using len by (auto simp: n_def fdt_tagalign_def to_u32_id to_s32_def to_u32_def)
    with r that tb show ?thesis by auto
  qed
  show thesis
  proof (rule grab_run [OF s n])
    assume "sw_room m fdt < n" "fdt_grab_space m fdt n = Some (0, m)"
    with full small big show thesis by (cases "len \<le> 2147483640") (auto simp: n_def)
  next
    fix m1 assume m1: "n \<le> sw_room m fdt" "fdt_grab_space m fdt n = Some (fdt + sw_top m fdt, m1)"
      "fdt + sw_top m fdt \<noteq> 0" "grown m m1 fdt n" "writes_only m m1 (fdt + 36) 4"
    have sm: "len \<le> 2147483640" using big m1(1) by force
    define p where "p = fdt + sw_top m fdt"
    have nn: "n = 12 + tag_size len" using small sm by simp
    have n12: "12 \<le> n" using nn tb len by simp
    have t: "40 \<le> sw_top m fdt" "sw_top m fdt + n \<le> h_totalsize m fdt - h_size_strings m fdt"
      using b m1(1) by (simp_all add: sw_top_def sw_room_def)
    have mp: "mapped m fdt (h_totalsize m fdt)" using s by (simp add: sw_ok_def)
    have mp1: "mapped m1 fdt (h_totalsize m fdt)" by (rule writes_only_mapped [OF m1(5) mp])
    have "mapped m1 p 4" by (rule mapped_sub [OF mp1]) (use t n12 b in \<open>simp_all add: p_def\<close>)
    then obtain ma where ma: "fdt32_set m1 p FDT_PROP = Some ma" "writes_only m1 ma p 4"
      "fdt32_ld ma p = Some (to_u32 FDT_PROP)" by (rule fdt32_set_ok)
    have "mapped ma (p + 8) 4" 
      by (rule writes_only_mapped [OF ma(2)], rule mapped_sub [OF mp1]) (use t n12 b in \<open>simp_all add: p_def\<close>)
    then obtain mb where mb: "fdt32_set ma (p + 8) off = Some mb" "writes_only ma mb (p + 8) 4"
      "fdt32_ld mb (p + 8) = Some (to_u32 off)" by (rule fdt32_set_ok)
    have "mapped mb (p + 4) 4"
      by (rule writes_only_mapped [OF mb(2)], rule writes_only_mapped [OF ma(2)], rule mapped_sub [OF mp1])
        (use t n12 b in \<open>simp_all add: p_def\<close>)
    then obtain mc where mc: "fdt32_set mb (p + 4) len = Some mc" "writes_only mb mc (p + 4) 4"
      "fdt32_ld mc (p + 4) = Some (to_u32 len)" by (rule fdt32_set_ok)
    have w: "writes_only m1 mc p 12"
      by (rule writes_only_trans [of _ mb], rule writes_only_trans [of _ ma])
        (rule writes_only_mono [OF ma(2)] writes_only_mono [OF mb(2)] writes_only_mono [OF mc(2)]; simp)+
    have g: "grown m mc fdt n"
      by (rule grown_write [where o' = 0 and k = 12, OF s m1(4) n(1) m1(1)]) (use w n12 in \<open>simp_all add: p_def\<close>)
    have "fdt32_ld mc p = Some FDT_PROP" "fdt32_ld mc (p + 8) = Some (to_u32 off)"
      using ma(3) mb(3) fdt32_ld_frame [OF mb(2), of p] fdt32_ld_frame [OF mc(2), of p]
        fdt32_ld_frame [OF mc(2), of "p + 8"] by (simp_all add: to_u32_id)
    moreover note gk = grown_ok [OF s g n(1) m1(1)]
    have "bytes_at mc (fdt + h_totalsize m fdt + off) (nm @ [0])"
      using grown_bytes [OF g, of "fdt + h_totalsize m fdt + off" "nm @ [0]"] off t b
      by (simp add: p_def)
    ultimately have pc: "prop_cell mc fdt p len nm"
      using mc(3) off gk len by (auto simp: prop_cell_def to_u32_id)
    show thesis
      using got [of m1 ma mb mc] sm m1(1-3) ma(1) mb(1) mc(1) g pc nn by (simp add: n_def p_def)
  qed
qed

lemma c_string_frame:
  assumes "c_string m name nm" "writes_only m m' a k" "name + (int (length nm) + 1) \<le> a \<or> a + k \<le> name"
  shows "c_string m' name nm"
proof -
  have "bytes_at m' name (nm @ [0])"
    using bytes_at_frame [OF assms(2), of name "nm @ [0]"] c_string_bytes(7) [OF assms(1)] assms(3)
    by (simp add: add.commute)
  then have b: "bytes_at m' name nm" "m' (name + int (length nm)) = Some 0"
    by (auto simp: bytes_at_iff nth_append less_Suc_eq)
  have w: "last_word_mapped m' x \<longleftrightarrow> last_word_mapped m x" for x
    using assms(2) by (simp add: last_word_mapped_def mapped_def writes_only_def dom_def set_eq_iff)
  show ?thesis using assms(1) b by (simp add: c_string_def cstr_at_iff w)
qed

text \<open>Taking back the string added last.\<close>

lemma sw_rollback:
  assumes s: "sw_ok m fdt" and n: "c_string m name nm" and ap: "apart m fdt name (int (length nm) + 1)"
    and a: "same_but {32} m m1 fdt" "h_size_strings m1 fdt = h_size_strings m fdt + int (length nm) + 1"
      "extends m m1 fdt"
  obtains m' where "sw_del_last_string m1 fdt name = Some m'" "extends m m' fdt"
    "sw_top m' fdt = sw_top m fdt" "h_size_strings m' fdt = h_size_strings m fdt"
proof -
  note b = sw_bounds [OF s]
  have s1: "sw_ok m1 fdt" using a(3) by (simp add: extends_def)
  have w: "writes_only m m1 fdt (h_totalsize m fdt)" using a(1) by (rule same_but_writes)
  have n1: "strlen m1 name = Some (int (length nm))"
    by (rule c_string_strlen, rule c_string_frame [OF n w ap])
  have v: "0 \<le> h_size_strings m fdt" "h_size_strings m fdt \<le> UINT32_MAX" using b by simp_all
  obtain m2 where m2: "fdt32_set m1 (fdt + 32) (h_size_strings m fdt) = Some m2"
    "h_size_strings m2 fdt = h_size_strings m fdt" "same_but {32} m1 m2 fdt" "writes_only m1 m2 (fdt + 32) 4"
    by (rule sw_set_field [OF s1 hdr_field(9) v])
  have sb: "same_but {32} m m2 fdt" using same_but_trans [OF a(1) m2(3)] by simp
  note f = same_but_fields [OF sb]
  have s2: "sw_ok m2 fdt" using b f m2(2) by (intro sw_ok_upd(1) [OF s sb]) simp_all
  have "m2 x = m x" if "fdt + 40 \<le> x \<and> x < fdt + sw_top m fdt \<or>
      fdt + h_totalsize m fdt - h_size_strings m fdt \<le> x" for x
  proof -
    have "m1 x = m x" using a(3) that unfolding extends_def by blast
    moreover have "m2 x = m1 x"
      by (rule writes_only_same [OF m2(4)]) (use that b in \<open>auto simp: sw_top_def\<close>)
    ultimately show ?thesis by simp
  qed
  then have "extends m m2 fdt" using s2 f m2(2) same_but_writes [OF sb] by (simp add: extends_def)
  moreover have "sw_del_last_string m1 fdt name = Some m2"
    using n1 m2(1) a(2) by (simp add: sw_del_last_string_def sw_simps [OF s1] fdt_set_defs)
  moreover have "sw_top m2 fdt = sw_top m fdt" using f by (simp add: sw_top_def)
  ultimately show thesis using that m2(2) by blast
qed

lemma property_name_offset_spec:
  assumes s: "sw_ok m fdt" and n: "c_string m name nm" and ap: "apart m fdt name (int (length nm) + 1)"
    and fit: "h_size_strings m fdt + int (length nm) + 1 \<le> h_totalsize m fdt"
    and top: "fdt + h_totalsize m fdt \<le> 4294967296"
  obtains (full) "sw_room m fdt < int (length nm) + 1" "property_name_offset m fdt name = Some (0, True, m)"
    | (found) off where "property_name_offset m fdt name = Some (off, False, m)" "off + int (length nm) + 1 \<le> 0"
        "- h_size_strings m fdt \<le> off" "bytes_at m (fdt + h_totalsize m fdt + off) (nm @ [0])"
    | (added) m' off where "int (length nm) + 1 \<le> sw_room m fdt" "property_name_offset m fdt name = Some (off, True, m')"
        "off + int (length nm) + 1 \<le> 0" "off = - h_size_strings m' fdt" "same_but {32} m m' fdt"
        "h_size_strings m' fdt = h_size_strings m fdt + int (length nm) + 1"
        "bytes_at m' (fdt + h_totalsize m fdt + off) (nm @ [0])" "extends m m' fdt"
proof -
  define c where "c \<longleftrightarrow> h_last_comp m fdt AND FDT_CREATE_FLAG_NO_NAME_DEDUP = 0"
  have fl: "property_name_offset m fdt name = (if c then sw_find_add_string m fdt name else do {
       (nameoff, m) \<leftarrow> sw_add_string m fdt name; Some (nameoff, True, m) })"
    unfolding property_name_offset_def sw_flags_def sw_simps [OF s] c_def by simp
  show thesis
  proof (cases c)
    case True
    then have e: "property_name_offset m fdt name = sw_find_add_string m fdt name" by (simp add: fl)
    show thesis
      by (rule sw_find_add_string_spec [OF s n ap fit top, folded e]) (use full found added in blast)+
  next
    case False
    show thesis
    proof (rule sw_add_string_spec [OF s n ap fit])
      assume "sw_room m fdt < int (length nm) + 1" "sw_add_string m fdt name = Some (0, m)"
      with full False show thesis by (simp add: fl)
    next
      fix m' off
      assume a: "int (length nm) + 1 \<le> sw_room m fdt" "sw_add_string m fdt name = Some (off, m')"
        "off + int (length nm) + 1 \<le> 0" "off = - h_size_strings m' fdt" "same_but {32} m m' fdt"
        "h_size_strings m' fdt = h_size_strings m fdt + int (length nm) + 1"
        "bytes_at m' (fdt + h_totalsize m fdt + off) (nm @ [0])" "extends m m' fdt"
      have "property_name_offset m fdt name = Some (off, True, m')" using False a(2) by (simp add: fl)
      then show thesis using added a by blast
    qed
  qed
qed

text \<open>The call as a whole; \<open>n\<close> bytes of structure and possibly a string.\<close>

lemma fdt_property_placeholder_spec:
  assumes s: "sw_ok m fdt" and n: "c_string m name nm" and ap: "apart m fdt name (int (length nm) + 1)"
    and fit: "h_size_strings m fdt + int (length nm) + 1 \<le> h_totalsize m fdt"
    and top: "fdt + h_totalsize m fdt \<le> 4294967296" and len: "0 \<le> len" "len \<le> INT32_MAX"
  obtains (badstate) "\<not> sw_open m fdt" "fdt_property_placeholder m fdt name len = Some (- FDT_ERR_BADSTATE, 0, m)"
    | (nospace) m' where "sw_open m fdt" "fdt_property_placeholder m fdt name len = Some (- FDT_ERR_NOSPACE, 0, m')"
        "sw_room m fdt < 12 + tag_size len + int (length nm) + 1"
        "extends m m' fdt" "sw_top m' fdt = sw_top m fdt" "h_size_strings m' fdt = h_size_strings m fdt"
    | (ok) m' where "sw_open m fdt" "fdt_property_placeholder m fdt name len = Some (0, fdt + sw_top m fdt + 12, m')"
        "12 + tag_size len \<le> sw_room m fdt" "len \<le> 2147483640"
        "extends m m' fdt" "sw_top m' fdt = sw_top m fdt + (12 + tag_size len)"
        "h_size_strings m' fdt \<le> h_size_strings m fdt + int (length nm) + 1"
        "prop_cell m' fdt (fdt + sw_top m fdt) len nm"
proof (cases "sw_open m fdt")
  case False
  with badstate show thesis by (simp add: fdt_property_placeholder_def sw_probe_struct_ok [OF s])
next
  case True
  then have p: "fdt_sw_probe_struct m fdt = Some 0" by (simp add: sw_probe_struct_ok [OF s])
  note eq = fdt_property_placeholder_def p
  define L where "L = int (length nm) + 1"
  have L: "0 < L" by (simp add: L_def)
  note tb = tag_size_bounds [of len]
  show thesis
  proof (rule property_name_offset_spec [OF s n ap fit top])
    assume none: "sw_room m fdt < int (length nm) + 1" "property_name_offset m fdt name = Some (0, True, m)"
    have "sw_room m fdt < 12 + tag_size len + int (length nm) + 1" using none(1) tb len by linarith
    moreover have "fdt_property_placeholder m fdt name len = Some (- FDT_ERR_NOSPACE, 0, m)"
      using none(2) by (simp add: eq)
    ultimately show thesis using nospace [OF True, of m] extends_refl [OF s] by blast
  next
    fix off
    assume old: "property_name_offset m fdt name = Some (off, False, m)" "off + int (length nm) + 1 \<le> 0"
        "- h_size_strings m fdt \<le> off" "bytes_at m (fdt + h_totalsize m fdt + off) (nm @ [0])"
    show thesis
    proof (rule placeholder_space [OF s len old(2-4)])
      assume r: "sw_room m fdt < 12 + tag_size len"
        "fdt_grab_space m fdt (to_u32 (12 + fdt_tagalign len)) = Some (0, m)"
      have "fdt_property_placeholder m fdt name len = Some (- FDT_ERR_NOSPACE, 0, m)"
        using old(1,2) r(2) by (simp add: eq)
      moreover have "sw_room m fdt < 12 + tag_size len + int (length nm) + 1" using r(1) by simp
      ultimately show thesis using nospace [OF True, of m] extends_refl [OF s] by blast
    next
      fix m1 ma mb m'
      assume g: "12 + tag_size len \<le> sw_room m fdt" "len \<le> 2147483640"
        "fdt_grab_space m fdt (to_u32 (12 + fdt_tagalign len)) = Some (fdt + sw_top m fdt, m1)"
        "fdt + sw_top m fdt \<noteq> 0" "fdt32_set m1 (fdt + sw_top m fdt) FDT_PROP = Some ma"
        "fdt32_set ma (fdt + sw_top m fdt + 8) off = Some mb"
        "fdt32_set mb (fdt + sw_top m fdt + 4) len = Some m'"
        "grown m m' fdt (12 + tag_size len)" "prop_cell m' fdt (fdt + sw_top m fdt) len nm"
      have n0: "0 \<le> 12 + tag_size len" using tb len by simp
      note gk = grown_ok [OF s g(8) n0 g(1)]
      have "fdt_property_placeholder m fdt name len = Some (0, fdt + sw_top m fdt + 12, m')"
        using old(1,2) g(3-7) by (simp add: eq)
      moreover have "h_size_strings m' fdt \<le> h_size_strings m fdt + int (length nm) + 1" using gk(4) by simp
      ultimately show thesis
        using ok [OF True, of m'] g(1,2,9) grown_extends [OF s g(8) n0 g(1)] gk(6) by blast
    qed
  next
    fix m1 off
    assume fresh: "int (length nm) + 1 \<le> sw_room m fdt" "property_name_offset m fdt name = Some (off, True, m1)"
        "off + int (length nm) + 1 \<le> 0" "off = - h_size_strings m1 fdt" "same_but {32} m m1 fdt"
        "h_size_strings m1 fdt = h_size_strings m fdt + int (length nm) + 1"
        "bytes_at m1 (fdt + h_totalsize m fdt + off) (nm @ [0])" "extends m m1 fdt"
    have s1: "sw_ok m1 fdt" using fresh(8) by (simp add: extends_def)
    note f = same_but_fields [OF fresh(5)]
    have f1: "h_totalsize m1 fdt = h_totalsize m fdt" "sw_top m1 fdt = sw_top m fdt"
      "sw_room m1 fdt = sw_room m fdt - L"
      using f fresh(6) by (simp_all add: sw_top_def sw_room_def L_def)
    have b1: "bytes_at m1 (fdt + h_totalsize m1 fdt + off) (nm @ [0])" using fresh(7) f1(1) by simp
    have o1: "- h_size_strings m1 fdt \<le> off" using fresh(4) by simp
    show thesis
    proof (rule placeholder_space [OF s1 len fresh(3) o1 b1])
      assume r: "sw_room m1 fdt < 12 + tag_size len"
        "fdt_grab_space m1 fdt (to_u32 (12 + fdt_tagalign len)) = Some (0, m1)"
      have z1: "h_size_strings m1 fdt = h_size_strings m fdt + int (length nm) + 1"
        by (rule fresh(6))
      obtain m' where m': "sw_del_last_string m1 fdt name = Some m'" "extends m m' fdt"
        "sw_top m' fdt = sw_top m fdt" "h_size_strings m' fdt = h_size_strings m fdt"
        by (rule sw_rollback [OF s n ap fresh(5) z1 fresh(8)])
      have "fdt_property_placeholder m fdt name len = Some (- FDT_ERR_NOSPACE, 0, m')"
        using fresh(2,3) r(2) m'(1) by (simp add: eq)
      moreover have "sw_room m fdt < 12 + tag_size len + int (length nm) + 1"
        using r(1) f1(3) by (simp add: L_def)
      ultimately show thesis using nospace [OF True] m'(2-4) by blast
    next
      fix m2 ma mb m'
      assume g: "12 + tag_size len \<le> sw_room m1 fdt" "len \<le> 2147483640"
        "fdt_grab_space m1 fdt (to_u32 (12 + fdt_tagalign len)) = Some (fdt + sw_top m1 fdt, m2)"
        "fdt + sw_top m1 fdt \<noteq> 0" "fdt32_set m2 (fdt + sw_top m1 fdt) FDT_PROP = Some ma"
        "fdt32_set ma (fdt + sw_top m1 fdt + 8) off = Some mb"
        "fdt32_set mb (fdt + sw_top m1 fdt + 4) len = Some m'"
        "grown m1 m' fdt (12 + tag_size len)" "prop_cell m' fdt (fdt + sw_top m1 fdt) len nm"
      have n0: "0 \<le> 12 + tag_size len" using tb len by simp
      note gk = grown_ok [OF s1 g(8) n0 g(1)]
      have "fdt_property_placeholder m fdt name len = Some (0, fdt + sw_top m fdt + 12, m')"
        using fresh(2,3) g(3-7) f1(2) by (simp add: eq)
      moreover have "12 + tag_size len \<le> sw_room m fdt" using g(1) f1(3) L by simp
      moreover have "h_size_strings m' fdt \<le> h_size_strings m fdt + int (length nm) + 1"
        using gk(4) fresh(6) by simp
      moreover have "sw_top m' fdt = sw_top m fdt + (12 + tag_size len)" using gk(6) f1(2) by simp
      ultimately show thesis
        using ok [OF True, of m'] g(2,9) extends_trans [OF fresh(8) grown_extends [OF s1 g(8) n0 g(1)]]
        unfolding f1(2) by blast
    qed
  qed
qed

lemma create_spec:
  assumes mp: "mapped m buf bufsize" and n: "40 \<le> bufsize" "bufsize \<le> INT32_MAX" "0 < buf"
    and fl: "flags = 0 \<or> flags = 1"
  obtains m' where "fdt_create_with_flags m buf bufsize flags = Some (0, m')" "sw_ok m' buf"
    "h_totalsize m' buf = bufsize" "h_off_struct m' buf = 40" "h_off_rsvmap m' buf = 40"
    "h_off_strings m' buf = 0" "h_size_struct m' buf = 0" "h_size_strings m' buf = 0"
    "h_last_comp m' buf = flags" "writes_only m m' buf bufsize"
proof -
  have f0: "flags AND NOT 1 = 0" "0 \<le> flags" "flags \<le> UINT32_MAX" using fl by auto
  obtain m0 where m0: "memset m buf 0 (nat bufsize) = Some (buf, m0)" "writes_only m m0 buf bufsize"
    "bytes_at m0 buf (replicate (nat bufsize) 0)"
    using memset_spec [of m buf "nat bufsize" 0] mp n by auto
  have h0: "mapped m0 buf 40"
    by (rule mapped_sub [OF writes_only_mapped [OF m0(2) mp]]) (use n in simp_all)
  have z0: "hdr m0 buf k = 0" if k: "0 \<le> k" "k \<le> 36" for k
  proof -
    have "m0 (buf + int i) = Some 0" if "i < 40" for i
      using m0(3) that n unfolding bytes_at_iff by auto
    from this [of "nat k"] this [of "nat k + 1"] this [of "nat k + 2"] this [of "nat k + 3"] k
    have "m0 (buf + k) = Some 0" "m0 (buf + k + 1) = Some 0" "m0 (buf + k + 2) = Some 0" "m0 (buf + k + 3) = Some 0"
      by (simp_all add: algebra_simps)
    then show ?thesis by (simp add: hdr_def fdt32_ld_def load8_def word_of_bytes_def)
  qed
  obtain m1 where m1: "fdt32_set m0 (buf + 0) FDT_SW_MAGIC = Some m1" "writes_only m0 m1 (buf + 0) 4" "mapped m1 buf 40"
    "hdr m1 buf 0 = to_u32 FDT_SW_MAGIC" "\<And>j. j + 4 \<le> 0 \<or> 0 + 4 \<le> j \<Longrightarrow> hdr m1 buf j = hdr m0 buf j"
    by (rule hdr_set [OF h0, of 0 FDT_SW_MAGIC]) auto
  obtain m2 where m2: "fdt32_set m1 (buf + 20) 17 = Some m2" "writes_only m1 m2 (buf + 20) 4" "mapped m2 buf 40"
    "hdr m2 buf 20 = to_u32 17" "\<And>j. j + 4 \<le> 20 \<or> 20 + 4 \<le> j \<Longrightarrow> hdr m2 buf j = hdr m1 buf j"
    by (rule hdr_set [OF m1(3), of 20 17]) auto
  obtain m3 where m3: "fdt32_set m2 (buf + 24) flags = Some m3" "writes_only m2 m3 (buf + 24) 4" "mapped m3 buf 40"
    "hdr m3 buf 24 = to_u32 flags" "\<And>j. j + 4 \<le> 24 \<or> 24 + 4 \<le> j \<Longrightarrow> hdr m3 buf j = hdr m2 buf j"
    by (rule hdr_set [OF m2(3), of 24 flags]) auto
  obtain m4 where m4: "fdt32_set m3 (buf + 4) bufsize = Some m4" "writes_only m3 m4 (buf + 4) 4" "mapped m4 buf 40"
    "hdr m4 buf 4 = to_u32 bufsize" "\<And>j. j + 4 \<le> 4 \<or> 4 + 4 \<le> j \<Longrightarrow> hdr m4 buf j = hdr m3 buf j"
    by (rule hdr_set [OF m3(3), of 4 bufsize]) auto
  obtain m5 where m5: "fdt32_set m4 (buf + 16) 40 = Some m5" "writes_only m4 m5 (buf + 16) 4" "mapped m5 buf 40"
    "hdr m5 buf 16 = to_u32 40" "\<And>j. j + 4 \<le> 16 \<or> 16 + 4 \<le> j \<Longrightarrow> hdr m5 buf j = hdr m4 buf j"
    by (rule hdr_set [OF m4(3), of 16 40]) auto
  have r5: "fdt_off_mem_rsvmap m5 buf = Some 40"
    using header_fields(5) [OF m5(3)] m5(4) by (simp add: to_u32_id)
  obtain m6 where m6: "fdt32_set m5 (buf + 8) 40 = Some m6" "writes_only m5 m6 (buf + 8) 4" "mapped m6 buf 40"
    "hdr m6 buf 8 = to_u32 40" "\<And>j. j + 4 \<le> 8 \<or> 8 + 4 \<le> j \<Longrightarrow> hdr m6 buf j = hdr m5 buf j"
    by (rule hdr_set [OF m5(3), of 8 40]) auto
  obtain m7 where m7: "fdt32_set m6 (buf + 12) 0 = Some m7" "writes_only m6 m7 (buf + 12) 4" "mapped m7 buf 40"
    "hdr m7 buf 12 = to_u32 0" "\<And>j. j + 4 \<le> 12 \<or> 12 + 4 \<le> j \<Longrightarrow> hdr m7 buf j = hdr m6 buf j"
    by (rule hdr_set [OF m6(3), of 12 0]) auto
  note st = m1(5) m2(5) m3(5) m4(5) m5(5) m6(5) m7(5) z0
  have fields: "hdr m7 buf 0 = FDT_SW_MAGIC" "hdr m7 buf 4 = bufsize" "hdr m7 buf 8 = 40" "hdr m7 buf 12 = 0"
    "hdr m7 buf 16 = 40" "hdr m7 buf 20 = 17" "hdr m7 buf 24 = flags" "hdr m7 buf 32 = 0" "hdr m7 buf 36 = 0"
    using m1(4) m2(4) m3(4) m4(4) m5(4) m6(4) m7(4) f0 n by (simp_all add: st to_u32_id)
  have "writes_only m m7 buf bufsize"
    by (rule writes_only_trans [OF m0(2)], rule writes_only_trans [of _ m1], rule_tac [2] writes_only_trans [of _ m2],
        rule_tac [3] writes_only_trans [of _ m3], rule_tac [4] writes_only_trans [of _ m4],
        rule_tac [5] writes_only_trans [of _ m5], rule_tac [6] writes_only_trans [of _ m6])
      (rule writes_only_mono [OF m1(2)] writes_only_mono [OF m2(2)] writes_only_mono [OF m3(2)]
        writes_only_mono [OF m4(2)] writes_only_mono [OF m5(2)] writes_only_mono [OF m6(2)]
        writes_only_mono [OF m7(2)]; use n in simp)+
  moreover from this have "mapped m7 buf bufsize" using mp by (rule writes_only_mapped)
  then have "sw_ok m7 buf" using m7(3) fields n by (simp add: sw_ok_def)
  moreover have "fdt_create_with_flags m buf bufsize flags = Some (0, m7)"
    using n f0 m0(1) m1(1) m2(1) m3(1) m4(1) m5(1) r5 m6(1) m7(1)
    by (simp add: fdt_create_with_flags_def Let_def fdt_set_defs)
  ultimately show thesis using that fields by blast
qed

text \<open>The reserve map, in a tree whose structure block is still empty.\<close>

definition sw_empty :: "mem \<Rightarrow> int \<Rightarrow> bool" where
  "sw_empty m fdt \<longleftrightarrow> h_off_strings m fdt = 0 \<and> h_size_struct m fdt = 0 \<and> h_size_strings m fdt = 0"

lemma fdt64_set_ok:
  assumes "mapped m p 8" "0 \<le> v" "v < 18446744073709551616"
  obtains m' where "fdt64_set m p v = Some m'" "writes_only m m' p 8" "fdt64_ld m' p = Some v"
proof -
  have "mapped m p 4" by (rule mapped_sub [OF assms(1)]) simp_all
  then obtain m1 where m1: "fdt32_set m p (v div 4294967296) = Some m1" "writes_only m m1 p 4"
    "fdt32_ld m1 p = Some (to_u32 (v div 4294967296))" by (rule fdt32_set_ok)
  have "mapped m1 (p + 4) 4" by (rule writes_only_mapped [OF m1(2)], rule mapped_sub [OF assms(1)]) simp_all
  then obtain m2 where m2: "fdt32_set m1 (p + 4) v = Some m2" "writes_only m1 m2 (p + 4) 4"
    "fdt32_ld m2 (p + 4) = Some (to_u32 v)" by (rule fdt32_set_ok)
  have w: "writes_only m m2 p 8"
    by (rule writes_only_trans [of _ m1]) (rule writes_only_mono [OF m1(2)] writes_only_mono [OF m2(2)]; simp)+
  have "v div 4294967296 \<le> 18446744073709551615 div 4294967296" using assms(3) by (intro zdiv_mono1) simp_all
  then have "to_u32 (v div 4294967296) = v div 4294967296" using assms(2) by (simp add: to_u32_id pos_imp_zdiv_nonneg_iff)
  then have "fdt64_ld m2 p = Some v"
    using m1(3) m2(3) fdt32_ld_frame [OF m2(2), of p] by (simp add: fdt64_ld_def to_u32_def)
  with that m1(1) m2(1) w show thesis by (simp add: fdt64_set_def)
qed

lemma fdt_add_reservemap_entry_spec:
  assumes s: "sw_ok m fdt" and e: "sw_empty m fdt"
    and v: "0 \<le> a" "a < 18446744073709551616" "0 \<le> sz" "sz < 18446744073709551616"
  obtains (nospace) "h_totalsize m fdt < h_off_struct m fdt + 16"
      "fdt_add_reservemap_entry m fdt a sz = Some (- FDT_ERR_NOSPACE, m)"
    | (ok) m' where "h_off_struct m fdt + 16 \<le> h_totalsize m fdt" "fdt_add_reservemap_entry m fdt a sz = Some (0, m')"
      "sw_ok m' fdt" "sw_empty m' fdt" "same_but {8} m m' fdt" "h_off_struct m' fdt = h_off_struct m fdt + 16"
      "fdt64_ld m' (fdt + h_off_struct m fdt) = Some a" "fdt64_ld m' (fdt + h_off_struct m fdt + 8) = Some sz"
      "\<And>x. fdt + 40 \<le> x \<Longrightarrow> x < fdt + h_off_struct m fdt \<or> fdt + h_off_struct m fdt + 16 \<le> x \<Longrightarrow> m' x = m x"
proof -
  note b = sw_bounds [OF s]
  define o' where "o' = h_off_struct m fdt"
  have o': "40 \<le> o'" "o' \<le> h_totalsize m fdt" using b by (simp_all add: o'_def)
  have u: "to_s32 o' = o'" "to_u32 (o' + 16) = o' + 16" using o' b by (simp_all add: to_s32_id to_u32_id)
  have p: "fdt_sw_probe_memrsv m fdt = Some 0" using e by (simp add: sw_probe_memrsv_ok [OF s] sw_empty_def)
  note eq = fdt_add_reservemap_entry_def p sw_simps [OF s] o'_def [symmetric] Let_def u
  show thesis
  proof (cases "o' + 16 \<le> h_totalsize m fdt")
    case False
    then have "fdt_add_reservemap_entry m fdt a sz = Some (- FDT_ERR_NOSPACE, m)" by (simp add: eq)
    with nospace False show thesis by (simp add: o'_def)
  next
    case True
    have t: "mapped m fdt (h_totalsize m fdt)" using s by (simp add: sw_ok_def)
    have "mapped m (fdt + o') 8" by (rule mapped_sub [OF t]) (use o' True in simp_all)
    then obtain m1 where m1: "fdt64_set m (fdt + o') a = Some m1" "writes_only m m1 (fdt + o') 8"
      "fdt64_ld m1 (fdt + o') = Some a" using v(1,2) by (rule fdt64_set_ok)
    have "mapped m1 (fdt + o' + 8) 8"
      by (rule writes_only_mapped [OF m1(2)], rule mapped_sub [OF t]) (use o' True in simp_all)
    then obtain m2 where m2: "fdt64_set m1 (fdt + o' + 8) sz = Some m2" "writes_only m1 m2 (fdt + o' + 8) 8"
      "fdt64_ld m2 (fdt + o' + 8) = Some sz" using v(3,4) by (rule fdt64_set_ok)
    have w: "writes_only m m2 (fdt + o') 16"
      by (rule writes_only_trans [of _ m1]) (rule writes_only_mono [OF m1(2)] writes_only_mono [OF m2(2)]; simp)+
    have sb: "same_but {} m m2 fdt" by (rule same_but_body [OF s w]) (use o' True in simp_all)
    note f = same_but_fields [OF sb]
    have s2: "sw_ok m2 fdt" using b f by (intro sw_ok_upd(1) [OF s sb]) simp_all
    have o16: "0 \<le> o' + 16" "o' + 16 \<le> UINT32_MAX" using o' True b by simp_all
    obtain m3 where m3: "fdt32_set m2 (fdt + 8) (o' + 16) = Some m3" "h_off_struct m3 fdt = o' + 16"
      "same_but {8} m2 m3 fdt" "writes_only m2 m3 (fdt + 8) 4"
      by (rule sw_set_field [OF s2 hdr_field(3) o16])
    have sb3: "same_but {8} m m3 fdt" using same_but_trans [OF sb m3(3)] by simp
    note f3 = same_but_fields [OF sb3]
    have e3: "sw_empty m3 fdt" using e f3 by (simp add: sw_empty_def)
    have s3: "sw_ok m3 fdt" using o' True e3 f3 m3(2)
      by (intro sw_ok_upd(1) [OF s sb3]) (simp_all add: sw_empty_def)
    have ld: "fdt64_ld m3 q = fdt64_ld m2 q" if "fdt + 12 \<le> q" for q
      using that fdt32_ld_frame [OF m3(4), of q] fdt32_ld_frame [OF m3(4), of "q + 4"] by (simp add: fdt64_ld_def)
    have "fdt64_ld m2 (fdt + o') = Some a"
      using m1(3) fdt32_ld_frame [OF m2(2), of "fdt + o'"] fdt32_ld_frame [OF m2(2), of "fdt + o' + 4"]
      by (simp add: fdt64_ld_def)
    then have l: "fdt64_ld m3 (fdt + o') = Some a" "fdt64_ld m3 (fdt + o' + 8) = Some sz"
      using m2(3) ld o' by simp_all
    have x: "m3 x = m x" if "fdt + 40 \<le> x" "x < fdt + o' \<or> fdt + o' + 16 \<le> x" for x
      using writes_only_same [OF m3(4), of x] writes_only_same [OF w, of x] that by auto
    have "fdt_add_reservemap_entry m fdt a sz = Some (0, m3)"
      using True m1(1) m2(1) m3(1) by (simp add: eq fdt_set_defs)
    with ok [of m3] True s3 e3 sb3 m3(2) l x show thesis by (simp add: o'_def)
  qed
qed

lemma fdt_finish_reservemap_spec:
  assumes s: "sw_ok m fdt" and e: "sw_empty m fdt"
  obtains (nospace) "h_totalsize m fdt < h_off_struct m fdt + 16"
      "fdt_finish_reservemap m fdt = Some (- FDT_ERR_NOSPACE, m)"
    | (ok) m' where "h_off_struct m fdt + 16 \<le> h_totalsize m fdt" "fdt_finish_reservemap m fdt = Some (0, m')"
      "sw_ok m' fdt" "sw_open m' fdt" "same_but {8, 12} m m' fdt" "h_off_struct m' fdt = h_off_struct m fdt + 16"
      "h_size_struct m' fdt = 0" "h_size_strings m' fdt = 0"
      "fdt64_ld m' (fdt + h_off_struct m fdt) = Some 0" "fdt64_ld m' (fdt + h_off_struct m fdt + 8) = Some 0"
      "\<And>x. fdt + 40 \<le> x \<Longrightarrow> x < fdt + h_off_struct m fdt \<or> fdt + h_off_struct m fdt + 16 \<le> x \<Longrightarrow> m' x = m x"
proof -
  have z: "0 \<le> (0 :: int)" "(0 :: int) < 18446744073709551616" by simp_all
  show thesis
  proof (rule fdt_add_reservemap_entry_spec [OF s e z z])
    assume "h_totalsize m fdt < h_off_struct m fdt + 16"
      "fdt_add_reservemap_entry m fdt 0 0 = Some (- FDT_ERR_NOSPACE, m)"
    with nospace show thesis by (simp add: fdt_finish_reservemap_def)
  next
    fix m1
    assume r: "h_off_struct m fdt + 16 \<le> h_totalsize m fdt" "fdt_add_reservemap_entry m fdt 0 0 = Some (0, m1)"
      "sw_ok m1 fdt" "sw_empty m1 fdt" "same_but {8} m m1 fdt" "h_off_struct m1 fdt = h_off_struct m fdt + 16"
      "fdt64_ld m1 (fdt + h_off_struct m fdt) = Some 0" "fdt64_ld m1 (fdt + h_off_struct m fdt + 8) = Some 0"
      and x: "\<And>x. fdt + 40 \<le> x \<Longrightarrow> x < fdt + h_off_struct m fdt \<or> fdt + h_off_struct m fdt + 16 \<le> x \<Longrightarrow> m1 x = m x"
    note b = sw_bounds [OF r(3)]
    have t: "0 \<le> h_totalsize m1 fdt" "h_totalsize m1 fdt \<le> UINT32_MAX" using b by simp_all
    obtain m2 where m2: "fdt32_set m1 (fdt + 12) (h_totalsize m1 fdt) = Some m2"
      "h_off_strings m2 fdt = h_totalsize m1 fdt" "same_but {12} m1 m2 fdt" "writes_only m1 m2 (fdt + 12) 4"
      by (rule sw_set_field [OF r(3) hdr_field(4) t])
    note f = same_but_fields [OF m2(3)]
    have s2: "sw_ok m2 fdt" using b f by (intro sw_ok_upd(1) [OF r(3) m2(3)]) simp_all
    have o2: "sw_open m2 fdt" using m2(2) f by (simp add: sw_open_def)
    have sb: "same_but {8, 12} m m2 fdt" using same_but_trans [OF r(5) m2(3)] by (simp add: insert_commute)
    have e2: "h_size_struct m2 fdt = 0" "h_size_strings m2 fdt = 0" using r(4) f by (simp_all add: sw_empty_def)
    have o': "40 \<le> h_off_struct m fdt" using sw_bounds [OF s] by simp
    have ld: "fdt64_ld m2 q = fdt64_ld m1 q" if "fdt + 16 \<le> q" for q
      using that fdt32_ld_frame [OF m2(4), of q] fdt32_ld_frame [OF m2(4), of "q + 4"] by (simp add: fdt64_ld_def)
    have l: "fdt64_ld m2 (fdt + h_off_struct m fdt) = Some 0" "fdt64_ld m2 (fdt + h_off_struct m fdt + 8) = Some 0"
      using r(7,8) ld o' by simp_all
    have y: "m2 x = m x" if "fdt + 40 \<le> x" "x < fdt + h_off_struct m fdt \<or> fdt + h_off_struct m fdt + 16 \<le> x" for x
      using writes_only_same [OF m2(4), of x] x [OF that] that(1) by simp
    have "fdt_finish_reservemap m fdt = Some (0, m2)"
      using r(2) m2(1) by (simp add: fdt_finish_reservemap_def sw_simps [OF r(3)] fdt_set_defs)
    with ok [of m2] r(1,6) s2 o2 sb f e2 l y show thesis by simp
  qed
qed

lemma fdt_property_spec:
  assumes s: "sw_ok m fdt" and n: "c_string m name nm" and ap: "apart m fdt name (int (length nm) + 1)"
    and fit: "h_size_strings m fdt + int (length nm) + 1 \<le> h_totalsize m fdt"
    and top: "fdt + h_totalsize m fdt \<le> 4294967296"
    and bs: "bytes_at m val bs" "int (length bs) \<le> INT32_MAX" and av: "apart m fdt val (int (length bs))"
  obtains (badstate) "\<not> sw_open m fdt" "fdt_property m fdt name val (int (length bs)) = Some (- FDT_ERR_BADSTATE, m)"
    | (nospace) m' where "sw_open m fdt" "fdt_property m fdt name val (int (length bs)) = Some (- FDT_ERR_NOSPACE, m')"
        "sw_room m fdt < 12 + tag_size (int (length bs)) + int (length nm) + 1"
        "extends m m' fdt" "sw_top m' fdt = sw_top m fdt" "h_size_strings m' fdt = h_size_strings m fdt"
    | (ok) m' where "sw_open m fdt" "fdt_property m fdt name val (int (length bs)) = Some (0, m')"
        "12 + tag_size (int (length bs)) \<le> sw_room m fdt"
        "extends m m' fdt" "sw_top m' fdt = sw_top m fdt + (12 + tag_size (int (length bs)))"
        "h_size_strings m' fdt \<le> h_size_strings m fdt + int (length nm) + 1"
        "prop_cell m' fdt (fdt + sw_top m fdt) (int (length bs)) nm" "bytes_at m' (fdt + sw_top m fdt + 12) bs"
proof -
  have len: "0 \<le> int (length bs)" by simp
  note tb = tag_size_bounds [of "int (length bs)"]
  show thesis
  proof (rule fdt_property_placeholder_spec [OF s n ap fit top len bs(2)])
    assume "\<not> sw_open m fdt" "fdt_property_placeholder m fdt name (int (length bs)) = Some (- FDT_ERR_BADSTATE, 0, m)"
    with badstate show thesis by (simp add: fdt_property_def)
  next
    fix m'
    assume r: "sw_open m fdt" "fdt_property_placeholder m fdt name (int (length bs)) = Some (- FDT_ERR_NOSPACE, 0, m')"
      "sw_room m fdt < 12 + tag_size (int (length bs)) + int (length nm) + 1"
      "extends m m' fdt" "sw_top m' fdt = sw_top m fdt" "h_size_strings m' fdt = h_size_strings m fdt"
    have "fdt_property m fdt name val (int (length bs)) = Some (- FDT_ERR_NOSPACE, m')"
      using r(2) by (simp add: fdt_property_def)
    with nospace r show thesis by blast
  next
    fix m1
    assume r: "sw_open m fdt"
      "fdt_property_placeholder m fdt name (int (length bs)) = Some (0, fdt + sw_top m fdt + 12, m1)"
      "12 + tag_size (int (length bs)) \<le> sw_room m fdt" "int (length bs) \<le> 2147483640"
      "extends m m1 fdt" "sw_top m1 fdt = sw_top m fdt + (12 + tag_size (int (length bs)))"
      "h_size_strings m1 fdt \<le> h_size_strings m fdt + int (length nm) + 1"
      "prop_cell m1 fdt (fdt + sw_top m fdt) (int (length bs)) nm"
    note b = sw_bounds [OF s]
    have s1: "sw_ok m1 fdt" and f1: "h_totalsize m1 fdt = h_totalsize m fdt" "h_off_struct m1 fdt = h_off_struct m fdt"
      and w1: "writes_only m m1 fdt (h_totalsize m fdt)"
      using r(5) by (simp_all add: extends_def)
    note b1 = sw_bounds [OF s1]
    have t: "40 \<le> sw_top m fdt" "sw_top m1 fdt + h_size_strings m1 fdt \<le> h_totalsize m fdt"
      "h_size_strings m fdt \<le> h_size_strings m1 fdt"
      using b b1 f1 r(5) by (simp_all add: sw_top_def extends_def)
    have vb: "bytes_at m1 val bs" using bytes_at_frame [OF w1] av bs(1) by simp
    have mp: "mapped m1 fdt (h_totalsize m fdt)" using s1 f1 by (simp add: sw_ok_def)
    have "mapped m1 (fdt + sw_top m fdt + 12) (int (length bs))"
      by (rule mapped_sub [OF mp]) (use t r(6) tb b1 in simp_all)
    moreover have "fdt + sw_top m fdt + 12 \<le> val \<or> val + int (length bs) \<le> fdt + sw_top m fdt + 12"
      using av t r(6) tb b1 by auto
    ultimately obtain m2 where m2: "memcpy m1 (fdt + sw_top m fdt + 12) val (length bs) =
        Some (fdt + sw_top m fdt + 12, m2)" "bytes_at m2 (fdt + sw_top m fdt + 12) bs"
      "writes_only m1 m2 (fdt + sw_top m fdt + 12) (int (length bs))"
      using memcpy_bytes [OF vb] by blast
    have sb: "same_but {} m1 m2 fdt"
      by (rule same_but_body [OF s1 m2(3)]) (use t r(6) tb f1 b1 in simp_all)
    note f2 = same_but_fields [OF sb]
    have s2: "sw_ok m2 fdt" using b1 f2 by (intro sw_ok_upd(1) [OF s1 sb]) simp_all
    have tops: "sw_top m2 fdt = sw_top m1 fdt" using f2 by (simp add: sw_top_def)
    have same: "m2 x = m1 x" if "x < fdt + sw_top m fdt + 12 \<or> fdt + sw_top m1 fdt \<le> x" for x
      by (rule writes_only_same [OF m2(3)]) (use that r(6) tb in auto)
    have ext: "extends m m2 fdt"
      unfolding extends_def
    proof (intro conjI allI impI)
      show "writes_only m m2 fdt (h_totalsize m fdt)"
        using writes_only_trans [OF w1 same_but_writes [OF sb, unfolded f1(1)]] .
      fix x assume x: "fdt + 40 \<le> x \<and> x < fdt + sw_top m fdt \<or> fdt + h_totalsize m fdt - h_size_strings m fdt \<le> x"
      then have "m1 x = m x" using r(5) unfolding extends_def by blast
      moreover have "m2 x = m1 x" using x t by (intro same) auto
      ultimately show "m2 x = m x" by simp
    qed (use s2 f2 r(5) in \<open>simp_all add: extends_def\<close>)
    have "prop_cell m2 fdt (fdt + sw_top m fdt) (int (length bs)) nm"
    proof -
      obtain off where off: "off + int (length nm) + 1 \<le> 0" "fdt32_ld m1 (fdt + sw_top m fdt + 8) = Some (to_u32 off)"
        "- h_size_strings m1 fdt \<le> off" "bytes_at m1 (fdt + h_totalsize m1 fdt + off) (nm @ [0])"
        "fdt32_ld m1 (fdt + sw_top m fdt) = Some FDT_PROP" "fdt32_ld m1 (fdt + sw_top m fdt + 4) = Some (int (length bs))"
        using r(8) by (auto simp: prop_cell_def)
      have "bytes_at m2 (fdt + h_totalsize m1 fdt + off) (nm @ [0])"
        using bytes_at_frame [OF m2(3), of "fdt + h_totalsize m1 fdt + off" "nm @ [0]"] off t r(6) tb f1 by simp
      with off show ?thesis
        using f2 fdt32_ld_frame [OF m2(3), of "fdt + sw_top m fdt"]
          fdt32_ld_frame [OF m2(3), of "fdt + sw_top m fdt + 4"] fdt32_ld_frame [OF m2(3), of "fdt + sw_top m fdt + 8"]
        by (auto simp: prop_cell_def)
    qed
    moreover have "fdt_property m fdt name val (int (length bs)) = Some (0, m2)" if "bs \<noteq> []"
      using r(2,4) m2(1) that by (simp add: fdt_property_def to_u32_id)
    moreover have "m2 = m1" "fdt_property m fdt name val (int (length bs)) = Some (0, m1)" if "bs = []"
      using r(2) m2(1) that by (simp_all add: fdt_property_def memcpy_def)
    ultimately have "fdt_property m fdt name val (int (length bs)) = Some (0, m2)" by (cases "bs = []") auto
    then show thesis
      using ok [OF r(1)] r(3,6,7) ext m2(2) tops f2(6)
        \<open>prop_cell m2 fdt (fdt + sw_top m fdt) (int (length bs)) nm\<close> by simp
  qed
qed

section \<open>Every sequence of calls\<close>

text \<open>
  One call on a tree under construction, whatever it returns. The names and values are outside the
  buffer; a property name fits the buffer next to the strings already there.
\<close>

inductive sw_step :: "int \<Rightarrow> mem \<Rightarrow> mem \<Rightarrow> bool" for fdt :: int where
  reserve: "0 \<le> a \<Longrightarrow> a < 18446744073709551616 \<Longrightarrow> 0 \<le> sz \<Longrightarrow> sz < 18446744073709551616 \<Longrightarrow>
    fdt_add_reservemap_entry m fdt a sz = Some (r, m') \<Longrightarrow> sw_step fdt m m'"
| finish_reservemap: "fdt_finish_reservemap m fdt = Some (r, m') \<Longrightarrow> sw_step fdt m m'"
| begin_node: "c_string m name nm \<Longrightarrow> apart m fdt name (int (length nm) + 1) \<Longrightarrow>
    fdt_begin_node m fdt name = Some (r, m') \<Longrightarrow> sw_step fdt m m'"
| add_property: "c_string m name nm \<Longrightarrow> apart m fdt name (int (length nm) + 1) \<Longrightarrow>
    h_size_strings m fdt + int (length nm) + 1 \<le> h_totalsize m fdt \<Longrightarrow>
    bytes_at m val bs \<Longrightarrow> int (length bs) \<le> INT32_MAX \<Longrightarrow> apart m fdt val (int (length bs)) \<Longrightarrow>
    fdt_property m fdt name val (int (length bs)) = Some (r, m') \<Longrightarrow> sw_step fdt m m'"
| placeholder: "c_string m name nm \<Longrightarrow> apart m fdt name (int (length nm) + 1) \<Longrightarrow>
    h_size_strings m fdt + int (length nm) + 1 \<le> h_totalsize m fdt \<Longrightarrow>
    0 \<le> len \<Longrightarrow> len \<le> INT32_MAX \<Longrightarrow>
    fdt_property_placeholder m fdt name len = Some (r, q, m') \<Longrightarrow> sw_step fdt m m'"
| end_node: "fdt_end_node m fdt = Some (r, m') \<Longrightarrow> sw_step fdt m m'"

definition sw_inv :: "mem \<Rightarrow> int \<Rightarrow> bool" where
  "sw_inv m fdt \<longleftrightarrow> sw_ok m fdt \<and> fdt + h_totalsize m fdt \<le> 4294967296 \<and> (sw_empty m fdt \<or> sw_open m fdt)"

lemma sw_closed: "sw_ok m fdt \<Longrightarrow> sw_empty m fdt \<Longrightarrow> \<not> sw_open m fdt"
  using sw_bounds [of m fdt] by (auto simp: sw_empty_def sw_open_def)

lemma sw_open_reserve:
  assumes "sw_ok m fdt" "sw_open m fdt"
  shows "fdt_add_reservemap_entry m fdt a sz = Some (- FDT_ERR_BADSTATE, m)"
    "fdt_finish_reservemap m fdt = Some (- FDT_ERR_BADSTATE, m)"
proof -
  have "h_off_strings m fdt \<noteq> 0" using assms sw_bounds [OF assms(1)] by (simp add: sw_open_def)
  then show "fdt_add_reservemap_entry m fdt a sz = Some (- FDT_ERR_BADSTATE, m)" for a sz
    by (simp add: fdt_add_reservemap_entry_def sw_probe_memrsv_ok [OF assms(1)])
  then show "fdt_finish_reservemap m fdt = Some (- FDT_ERR_BADSTATE, m)"
    by (simp add: fdt_finish_reservemap_def)
qed

lemma extends_open: "extends m m' fdt \<Longrightarrow> sw_open m fdt \<Longrightarrow> sw_open m' fdt"
  by (simp add: extends_def sw_open_def)

lemma sw_step_open:
  assumes "sw_step fdt m m'" "sw_ok m fdt" "sw_open m fdt" "fdt + h_totalsize m fdt \<le> 4294967296"
  shows "extends m m' fdt"
  using assms(1)
proof cases
  case (begin_node name nm r)
  show ?thesis
  proof (rule fdt_begin_node_spec [OF assms(2) begin_node(1,2)])
    fix m1 assume g: "4 + tag_size (int (length nm) + 1) \<le> sw_room m fdt"
      "fdt_begin_node m fdt name = Some (0, m1)" "grown m m1 fdt (4 + tag_size (int (length nm) + 1))"
    have "0 \<le> 4 + tag_size (int (length nm) + 1)" using tag_size_bounds(1) [of "int (length nm) + 1"] by simp
    with grown_extends [OF assms(2) g(3) _ g(1)] g(2) begin_node(3) show ?thesis by simp
  qed (use begin_node(3) extends_refl [OF assms(2)] in simp_all)
next
  case (add_property name nm val bs r)
  show ?thesis
    by (rule fdt_property_spec [OF assms(2) add_property(1-3) assms(4) add_property(4-6)])
      (use add_property(7) extends_refl [OF assms(2)] in simp_all)
next
  case (placeholder name nm len r q)
  show ?thesis
    by (rule fdt_property_placeholder_spec [OF assms(2) placeholder(1-3) assms(4) placeholder(4,5)])
      (use placeholder(6) extends_refl [OF assms(2)] in simp_all)
next
  case (end_node r)
  show ?thesis
  proof (rule fdt_end_node_spec [OF assms(2)])
    fix m1 assume g: "4 \<le> sw_room m fdt" "fdt_end_node m fdt = Some (0, m1)" "grown m m1 fdt 4"
    from grown_extends [OF assms(2) g(3) _ g(1)] g(2) end_node show ?thesis by simp
  qed (use end_node extends_refl [OF assms(2)] in simp_all)
qed (use sw_open_reserve [OF assms(2,3)] extends_refl [OF assms(2)] in simp_all)

lemma extends_inv: "extends m m' fdt \<Longrightarrow> sw_inv m fdt \<Longrightarrow> sw_open m fdt \<Longrightarrow> sw_inv m' fdt"
  using extends_open by (auto simp: sw_inv_def extends_def)

lemma sw_step_empty:
  assumes st: "sw_step fdt m m'" and s: "sw_ok m fdt" and e: "sw_empty m fdt"
  shows "m' = m \<or> (sw_ok m' fdt \<and> h_totalsize m' fdt = h_totalsize m fdt \<and> (sw_empty m' fdt \<or> sw_open m' fdt) \<and>
    writes_only m m' fdt (h_totalsize m fdt))"
proof -
  have p: "fdt_sw_probe_struct m fdt = Some (- FDT_ERR_BADSTATE)"
    using sw_closed [OF s e] by (simp add: sw_probe_struct_ok [OF s])
  from st show ?thesis
  proof cases
    case (reserve a sz r)
    show ?thesis
    proof (rule fdt_add_reservemap_entry_spec [OF s e reserve(1-4)])
      fix m1 assume "fdt_add_reservemap_entry m fdt a sz = Some (0, m1)" "sw_ok m1 fdt" "sw_empty m1 fdt"
        "same_but {8} m m1 fdt"
      with reserve(5) same_but_fields(1) [of "{8}" m m1 fdt] same_but_writes [of "{8}" m m1 fdt] show ?thesis by simp
    qed (use reserve(5) in simp)
  next
    case (finish_reservemap r)
    show ?thesis
    proof (rule fdt_finish_reservemap_spec [OF s e])
      fix m1 assume "fdt_finish_reservemap m fdt = Some (0, m1)" "sw_ok m1 fdt" "sw_open m1 fdt"
        "same_but {8, 12} m m1 fdt"
      with finish_reservemap same_but_fields(1) [of "{8, 12}" m m1 fdt] same_but_writes [of "{8, 12}" m m1 fdt]
      show ?thesis by simp
    qed (use finish_reservemap in simp)
  qed (use p in \<open>simp_all add: fdt_begin_node_def fdt_end_node_def fdt_property_def fdt_property_placeholder_def\<close>)
qed

lemma sw_step_inv:
  assumes "sw_step fdt m m'" "sw_inv m fdt"
  shows "sw_inv m' fdt \<and> h_totalsize m' fdt = h_totalsize m fdt \<and> writes_only m m' fdt (h_totalsize m fdt) \<and>
    (sw_open m fdt \<longrightarrow> extends m m' fdt)"
proof (cases "sw_open m fdt")
  case True
  then have "extends m m' fdt" using sw_step_open [OF assms(1)] assms(2) by (simp add: sw_inv_def)
  with extends_inv [OF this assms(2) True] show ?thesis by (simp add: extends_def)
next
  case False
  then have "sw_ok m fdt" "sw_empty m fdt" "fdt + h_totalsize m fdt \<le> 4294967296"
    using assms(2) by (auto simp: sw_inv_def)
  with sw_step_empty [OF assms(1)] False assms(2) show ?thesis by (auto simp: sw_inv_def)
qed

lemma sw_steps_inv:
  assumes "(sw_step fdt)\<^sup>*\<^sup>* m m'" "sw_inv m fdt"
  shows "sw_inv m' fdt \<and> h_totalsize m' fdt = h_totalsize m fdt \<and> writes_only m m' fdt (h_totalsize m fdt) \<and>
    (sw_open m fdt \<longrightarrow> extends m m' fdt)"
  using assms
proof (induction rule: rtranclp_induct)
  case base
  then show ?case by (auto simp: sw_inv_def intro: extends_refl)
next
  case (step y z)
  from step.IH step.prems have y: "sw_inv y fdt" "h_totalsize y fdt = h_totalsize m fdt"
    "writes_only m y fdt (h_totalsize m fdt)" "sw_open m fdt \<longrightarrow> extends m y fdt" by simp_all
  note z = sw_step_inv [OF step.hyps(2) y(1)]
  have "sw_open m fdt \<longrightarrow> extends m z fdt"
    using y(4) z extends_open extends_trans by blast
  with y z show ?case by (auto intro: writes_only_trans)
qed

section \<open>Properties\<close>

text \<open>C17: after a successful \<open>fdt_create\<close>, let any calls of \<open>fdt_add_reservemap_entry\<close>,
  \<open>fdt_finish_reservemap\<close>, \<open>fdt_begin_node\<close>, \<open>fdt_property\<close>, \<open>fdt_property_placeholder\<close> and
  \<open>fdt_end_node\<close> follow, in any order and whether they succeed or not, with names and values
  outside the buffer and every property name short enough to fit into the buffer beside the strings
  already there (which \<open>fdt_add_string_\<close> does not check, see \<open>add_string_underflow\<close>).  Then nothing outside the buffer
  is written, the blocks do not meet, and once the reserve map is finished no call changes a byte of the
  structure block or of the strings that is already there.\<close>

theorem sw_calls_safe:
  assumes "mapped m buf bufsize" "bufsize \<le> INT32_MAX" "0 < buf" "buf + bufsize \<le> 4294967296"
    and "fdt_create m buf bufsize = Some (0, m0)" "(sw_step buf)\<^sup>*\<^sup>* m0 m1" "(sw_step buf)\<^sup>*\<^sup>* m1 m2"
  shows "sw_inv m1 buf \<and> h_totalsize m1 buf = bufsize \<and> writes_only m m1 buf bufsize \<and>
    (sw_open m1 buf \<longrightarrow> extends m1 m2 buf)"
proof -
  have n: "40 \<le> bufsize"
    using assms(5) by (auto simp: fdt_create_def fdt_create_with_flags_def Let_def split: if_splits)
  obtain m0' where c: "fdt_create_with_flags m buf bufsize 0 = Some (0, m0')" "sw_ok m0' buf"
    "h_totalsize m0' buf = bufsize" "h_off_struct m0' buf = 40" "h_off_rsvmap m0' buf = 40"
    "h_off_strings m0' buf = 0" "h_size_struct m0' buf = 0" "h_size_strings m0' buf = 0"
    "h_last_comp m0' buf = 0" "writes_only m m0' buf bufsize"
    using assms(1-3) n by (rule_tac create_spec [of m buf bufsize 0]) auto
  with assms(5) have m0: "m0' = m0" by (simp add: fdt_create_def)
  have i0: "sw_inv m0 buf" using c assms(4) unfolding m0 by (simp add: sw_inv_def sw_empty_def)
  from sw_steps_inv [OF assms(6) i0] c(3,10) have
    "sw_inv m1 buf \<and> h_totalsize m1 buf = bufsize \<and> writes_only m m1 buf bufsize"
    unfolding m0 by (auto intro: writes_only_trans)
  with sw_steps_inv [OF assms(7)] show ?thesis by blast
qed

definition sw_buffer :: mem where
  "sw_buffer a = (if 4096 \<le> a \<and> a < 8192 then Some 170 else if 256 \<le> a \<and> a < 260 then Some 65
     else if 260 \<le> a \<and> a < 264 then Some 0 else None)"

lemma sw_buffer_mapped: "n \<le> 4096 \<Longrightarrow> mapped sw_buffer 4096 n"
  by (auto simp: mapped_def sw_buffer_def)

lemma sw_buffer_name: "c_string sw_buffer 256 [65, 65, 65, 65]"
proof -
  have "cstr_at sw_buffer 256 [65, 65, 65, 65]" by code_simp
  then show ?thesis by (auto simp: c_string_def last_word_mapped_def mapped_def sw_buffer_def)
qed

text \<open>A node with a property, its value and name read from the same place.\<close>

theorem sw_calls_safe_witness:
  "\<exists>m0 m1 m2. fdt_create sw_buffer 4096 256 = Some (0, m0) \<and> (sw_step 4096)\<^sup>*\<^sup>* m0 m1 \<and> (sw_step 4096)\<^sup>*\<^sup>* m1 m2 \<and>
     h_size_struct m1 4096 = 0 \<and> h_size_struct m2 4096 = 32 \<and> writes_only sw_buffer m2 4096 256 \<and> extends m1 m2 4096"
proof -
  have "do { (a, m0) \<leftarrow> fdt_create sw_buffer 4096 256; (b, m1) \<leftarrow> fdt_finish_reservemap m0 4096;
      (c, m2) \<leftarrow> fdt_begin_node m1 4096 256; (d, m3) \<leftarrow> fdt_property m2 4096 256 256 4; (e, m4) \<leftarrow> fdt_end_node m3 4096;
      Some ([a, b, c, d, e], [h_size_struct m1 4096, h_off_strings m1 4096, h_size_strings m2 4096, h_size_struct m4 4096]) } =
    Some ([0, 0, 0, 0, 0], [0, 256, 0, 32])" by code_simp
  then obtain m0 m1 m2 m3 m4 where r: "fdt_create sw_buffer 4096 256 = Some (0, m0)"
      "fdt_finish_reservemap m0 4096 = Some (0, m1)" "fdt_begin_node m1 4096 256 = Some (0, m2)"
      "fdt_property m2 4096 256 256 4 = Some (0, m3)" "fdt_end_node m3 4096 = Some (0, m4)"
    and h: "h_size_struct m1 4096 = 0" "h_off_strings m1 4096 = 256" "h_size_strings m2 4096 = 0" "h_size_struct m4 4096 = 32"
    by (auto simp: bind_eq_Some_conv)
  have safe: "sw_inv x 4096 \<and> h_totalsize x 4096 = 256 \<and> writes_only sw_buffer x 4096 256 \<and> (sw_open x 4096 \<longrightarrow> extends x y 4096)"
    if "(sw_step 4096)\<^sup>*\<^sup>* m0 x" "(sw_step 4096)\<^sup>*\<^sup>* x y" for x y
    using sw_calls_safe [of sw_buffer 4096 256 m0 x y] r(1) that sw_buffer_mapped by simp
  have name: "c_string x 256 [65, 65, 65, 65]" "apart x 4096 256 5" "bytes_at x 256 [65, 65, 65, 65]"
    if "(sw_step 4096)\<^sup>*\<^sup>* m0 x" for x
  proof -
    show "c_string x 256 [65, 65, 65, 65]"
      by (rule c_string_frame [OF sw_buffer_name]) (use safe [OF that rtranclp.rtrancl_refl] in auto)
    then show "bytes_at x 256 [65, 65, 65, 65]" by (rule c_string_bytes)
  qed simp
  have s1: "(sw_step 4096)\<^sup>*\<^sup>* m0 m1" using r(2) by (blast intro: sw_step.intros)
  have t2: "sw_step 4096 m1 m2" by (rule sw_step.begin_node [OF name(1) [OF s1] _ r(3)]) simp
  have s2: "(sw_step 4096)\<^sup>*\<^sup>* m0 m2" using rtranclp.rtrancl_into_rtrancl [of "sw_step 4096"] s1 t2 by blast
  have t3: "sw_step 4096 m2 m3"
    by (rule sw_step.add_property [OF name(1) [OF s2] _ _ name(3) [OF s2]]) (use r(4) h(3) safe [OF s2 rtranclp.rtrancl_refl] in simp_all)
  have "(sw_step 4096)\<^sup>*\<^sup>* m1 m4" using t2 t3 sw_step.end_node [OF r(5)] by (meson converse_rtranclp_into_rtranclp rtranclp.rtrancl_refl)
  moreover have "sw_open m1 4096" using h(2) safe [OF s1 rtranclp.rtrancl_refl] by (simp add: sw_open_def)
  ultimately show ?thesis
    using r(1) s1 h(1,4) safe [OF s1, of m4] safe [OF rtranclp_trans [OF s1, of m4] rtranclp.rtrancl_refl] by blast
qed

lemma wrapped_space:
  assumes "T < e" "0 \<le> T" "e < 4294967296"
  shows "to_u32 (T - e) = T - e + 4294967296"
proof -
  have "(T - e + 4294967296) mod 4294967296 = T - e + 4294967296"
    using assms by (intro mod_pos_pos_trivial) simp_all
  then show ?thesis by (simp add: to_u32_def)
qed

text \<open>A name longer than the space from the start of the buffer to the strings makes \<open>fdt_add_string_\<close>
  write in front of the buffer: \<open>totalsize - offset\<close> wraps around, the check for room passes, and the
  first bytes of the name land below the tree.\<close>

theorem add_string_underflow:
  assumes s: "sw_ok m fdt" and n: "c_string m name nm"
    and long: "h_totalsize m fdt < h_size_strings m fdt + int (length nm) + 1"
    and below: "mapped m (fdt + h_totalsize m fdt - h_size_strings m fdt - (int (length nm) + 1)) (int (length nm) + 1)"
    and ap: "name + int (length nm) + 1 \<le> fdt + h_totalsize m fdt - h_size_strings m fdt - (int (length nm) + 1) \<or>
      fdt + h_totalsize m fdt \<le> name"
  shows "\<exists>r m'. sw_add_string m fdt name = Some (r, m') \<and> r \<noteq> 0 \<and>
    (\<forall>i. int i < h_size_strings m fdt + int (length nm) + 1 - h_totalsize m fdt \<longrightarrow>
       m' (fdt - (h_size_strings m fdt + int (length nm) + 1 - h_totalsize m fdt) + int i) = Some ((nm @ [0]) ! i))"
proof -
  note b = sw_bounds [OF s]
  define L where "L = int (length nm) + 1"
  define z where "z = h_size_strings m fdt"
  define T where "T = h_totalsize m fdt"
  have L: "1 \<le> L" "L \<le> 2147483641" using n by (simp_all add: L_def c_string_def)
  have z: "0 \<le> z" "z + 40 \<le> T" "T \<le> INT32_MAX" "T < z + L" using b long by (simp_all add: z_def T_def L_def)
  have u: "to_u32 L = L" "to_u32 (z + L) = z + L" "to_u32 (sw_top m fdt) = sw_top m fdt"
    using L z b by (simp_all add: to_u32_id sw_top_def T_def [symmetric])
  have pass: "\<not> to_u32 (T - (z + L)) < sw_top m fdt"
    using wrapped_space [of T "z + L"] b z L by (simp add: sw_top_def T_def [symmetric])
  have sl: "strlen m name = Some (int (length nm))" by (rule c_string_strlen [OF n])
  define a where "a = fdt + T - (z + L)"
  have nb: "bytes_at m name (nm @ [0])" "int (length (nm @ [0])) = L" "nat L = length (nm @ [0])"
    using c_string_bytes(7) [OF n] by (simp_all add: L_def)
  have "mapped m a (int (length (nm @ [0])))"
    using below unfolding nb(2) by (simp add: a_def T_def z_def L_def algebra_simps)
  moreover have "a \<le> name \<or> name + int (length (nm @ [0])) \<le> a"
    using ap z L unfolding nb(2) by (auto simp: a_def T_def z_def L_def)
  ultimately obtain m1 where m1: "memcpy m a name (length (nm @ [0])) = Some (a, m1)" "bytes_at m1 a (nm @ [0])"
    "writes_only m m1 a L" using memcpy_bytes [OF nb(1)] nb(2) by metis
  have h1: "mapped m1 fdt 40" by (rule writes_only_mapped [OF m1(3) sw_ok_header [OF s]])
  obtain m2 where m2: "fdt32_set m1 (fdt + 32) (z + L) = Some m2" "writes_only m1 m2 (fdt + 32) 4"
    by (rule hdr_set [OF h1, of 32 "z + L"]) auto
  have nz: "to_s32 (- z - L) \<noteq> 0" using to_s32_eq_0 [of "- z - L"] z L by auto
  have run: "sw_add_string m fdt name = Some (to_s32 (- z - L), m2)"
    using pass m1(1) m2(1) nb(3)
    by (simp add: sw_add_string_def sw_simps [OF s] sl Let_def L_def [symmetric] z_def [symmetric] u
        sw_top_def [symmetric] T_def [symmetric] a_def fdt_set_defs)
  have "m2 (fdt - (z + L - T) + int i) = Some ((nm @ [0]) ! i)" if "int i < z + L - T" for i
  proof -
    have "m2 (fdt - (z + L - T) + int i) = m1 (fdt - (z + L - T) + int i)"
      by (rule writes_only_same [OF m2(2)]) (use that in simp)
    moreover have "i < length (nm @ [0])" using that z nb(2) by linarith
    then have "m1 (a + int i) = Some ((nm @ [0]) ! i)" using m1(2) by (simp only: bytes_at_iff)
    moreover have "a + int i = fdt - (z + L - T) + int i" by (simp add: a_def)
    ultimately show ?thesis by simp
  qed
  with run nz show ?thesis
    unfolding z_def [symmetric] T_def [symmetric] add.assoc L_def [symmetric]
    by (intro exI [of _ "to_s32 (- z - L)"] exI [of _ m2]) simp
qed

text \<open>A buffer of 72 bytes and a name of 100.\<close>

definition long_name_mem :: mem where
  "long_name_mem a = (if 4000 \<le> a \<and> a < 4200 then Some 170 else if 8192 \<le> a \<and> a < 8292 then Some 65
     else if 8292 \<le> a \<and> a < 8296 then Some 0 else None)"

theorem add_string_underflow_witness:
  "\<exists>m0 r m'. fdt_create long_name_mem 4096 72 = Some (0, m0) \<and> sw_add_string m0 4096 8192 = Some (r, m') \<and>
     r \<noteq> 0 \<and> m' 4067 = Some 65"
proof -
  let ?nm = "replicate 100 (65 :: u8)"
  have mp: "mapped long_name_mem 4096 72" by (auto simp: mapped_def long_name_mem_def)
  obtain m0 where c: "fdt_create_with_flags long_name_mem 4096 72 0 = Some (0, m0)" "sw_ok m0 4096"
    "h_totalsize m0 4096 = 72" "h_off_struct m0 4096 = 40" "h_off_rsvmap m0 4096 = 40"
    "h_off_strings m0 4096 = 0" "h_size_struct m0 4096 = 0" "h_size_strings m0 4096 = 0"
    "h_last_comp m0 4096 = 0" "writes_only long_name_mem m0 4096 72"
    using mp by (rule_tac create_spec [of long_name_mem 4096 72 0]) auto
  have "c_string long_name_mem 8192 ?nm"
    by (auto simp: c_string_def cstr_at_iff bytes_at_iff last_word_mapped_def mapped_def long_name_mem_def)
  from c_string_frame [OF this c(10)] have n: "c_string m0 8192 ?nm" by simp
  have below: "mapped m0 4067 101"
    by (rule writes_only_mapped [OF c(10)]) (auto simp: mapped_def long_name_mem_def)
  from add_string_underflow [OF c(2) n] below obtain r m' where
    r: "sw_add_string m0 4096 8192 = Some (r, m')" "r \<noteq> 0"
    "\<And>i. int i < 29 \<Longrightarrow> m' (4067 + int i) = Some ((?nm @ [0]) ! i)"
    by (auto simp: c(3,8))
  have "m' 4067 = Some 65" using r(3) [of 0] by (simp add: nth_append)
  with c(1) r show ?thesis by (auto simp: fdt_create_def)
qed

end
