(* ===== verification/Fdt_Rw.thy ===== *)
theory Fdt_Rw
  imports Fdt_Check Fdt_Sw
begin

text \<open>
  libfdt's read-write interface, \<^verbatim>\<open>libfdt/fdt_rw.c\<close>, with \<^verbatim>\<open>libfdt/fdt_empty_tree.c\<close> and
  \<open>fdt_appendprop_addrrange\<close> of \<^verbatim>\<open>libfdt/fdt_addresses.c\<close>: a finished tree is changed by opening or
  closing gaps in its three blocks.
\<close>

section \<open>Layout\<close>

definition fdt_blocks_misordered :: "mem \<Rightarrow> int \<Rightarrow> int \<Rightarrow> int \<Rightarrow> bool option" where
  "fdt_blocks_misordered m fdt mem_rsv_size struct_size = do {
     off_rsv \<leftarrow> fdt_off_mem_rsvmap m fdt;
     off_struct \<leftarrow> fdt_off_dt_struct m fdt;
     off_strings \<leftarrow> fdt_off_dt_strings m fdt;
     size_strings \<leftarrow> fdt_size_dt_strings m fdt;
     totalsize \<leftarrow> fdt_totalsize m fdt;
     Some (off_rsv < 40 \<or> off_struct < to_u32 (off_rsv + mem_rsv_size) \<or>
           off_strings < to_u32 (off_struct + struct_size) \<or>
           totalsize < to_u32 (off_strings + size_strings)) }"

definition fdt_downgrade_version :: "mem \<Rightarrow> int \<Rightarrow> mem option" where
  "fdt_downgrade_version m fdt = do {
     version \<leftarrow> fdt_version m fdt;
     if \<not> can_assume LATEST \<and> version > FDT_LAST_SUPPORTED_VERSION
     then fdt_set_version m fdt FDT_LAST_SUPPORTED_VERSION else Some m }"

definition fdt_rw_probe :: "mem \<Rightarrow> int \<Rightarrow> (int \<times> mem) option" where
  "fdt_rw_probe m fdt =
     (if can_assume VALID_DTB then Some (0, m) else do {
      err \<leftarrow> fdt_ro_probe m fdt;
      if err < 0 then Some (err, m) else do {
      version \<leftarrow> fdt_version m fdt;
      if \<not> can_assume LATEST \<and> version < 17 then Some (- FDT_ERR_BADVERSION, m) else do {
      size_struct \<leftarrow> fdt_size_dt_struct m fdt;
      bad \<leftarrow> fdt_blocks_misordered m fdt 16 size_struct;
      if bad then Some (- FDT_ERR_BADLAYOUT, m)
      else do { m \<leftarrow> fdt_downgrade_version m fdt; Some (0, m) } } } })"

definition fdt_data_size :: "mem \<Rightarrow> int \<Rightarrow> int option" where
  "fdt_data_size m fdt = do {
     off_strings \<leftarrow> fdt_off_dt_strings m fdt; size_strings \<leftarrow> fdt_size_dt_strings m fdt;
     Some (to_u32 (off_strings + size_strings)) }"

section \<open>Splicing\<close>

text \<open>\<open>oldlen\<close> bytes at \<open>p\<close> become \<open>newlen\<close>; what follows up to the end of the strings moves.\<close>

definition fdt_splice :: "mem \<Rightarrow> int \<Rightarrow> int \<Rightarrow> int \<Rightarrow> int \<Rightarrow> (int \<times> mem) option" where
  "fdt_splice m fdt p oldlen newlen = do {
     dsize \<leftarrow> fdt_data_size m fdt;
     totalsize \<leftarrow> fdt_totalsize m fdt;
     let soff = to_u32 (p - fdt) in
     if oldlen < 0 \<or> to_u32 (soff + oldlen) < soff \<or> to_u32 (soff + oldlen) > dsize
     then Some (- FDT_ERR_BADOFFSET, m)
     else if p < fdt \<or> to_u32 (dsize + newlen) < to_u32 oldlen then Some (- FDT_ERR_BADOFFSET, m)
     else if to_u32 (dsize - oldlen + newlen) > totalsize then Some (- FDT_ERR_NOSPACE, m)
     else do {
       (_, m) \<leftarrow> memmove m (p + newlen) (p + oldlen) (nat (to_u32 ((fdt + dsize) - (p + oldlen))));
       Some (0, m) } }"

definition fdt_splice_mem_rsv :: "mem \<Rightarrow> int \<Rightarrow> int \<Rightarrow> int \<Rightarrow> int \<Rightarrow> (int \<times> mem) option" where
  "fdt_splice_mem_rsv m fdt p oldn newn = (let delta = (newn - oldn) * 16 in do {
     (err, m) \<leftarrow> fdt_splice m fdt p (oldn * 16) (newn * 16);
     if err \<noteq> 0 then Some (err, m) else do {
     off_struct \<leftarrow> fdt_off_dt_struct m fdt;
     m \<leftarrow> fdt_set_off_dt_struct m fdt (to_u32 (off_struct + delta));
     off_strings \<leftarrow> fdt_off_dt_strings m fdt;
     m \<leftarrow> fdt_set_off_dt_strings m fdt (to_u32 (off_strings + delta));
     Some (0, m) } })"

definition fdt_splice_struct :: "mem \<Rightarrow> int \<Rightarrow> int \<Rightarrow> int \<Rightarrow> int \<Rightarrow> (int \<times> mem) option" where
  "fdt_splice_struct m fdt p oldlen newlen = (let delta = to_s32 (newlen - oldlen) in do {
     (err, m) \<leftarrow> fdt_splice m fdt p oldlen newlen;
     if err \<noteq> 0 then Some (err, m) else do {
     size_struct \<leftarrow> fdt_size_dt_struct m fdt;
     m \<leftarrow> fdt_set_size_dt_struct m fdt (to_u32 (size_struct + delta));
     off_strings \<leftarrow> fdt_off_dt_strings m fdt;
     m \<leftarrow> fdt_set_off_dt_strings m fdt (to_u32 (off_strings + delta));
     Some (0, m) } })"

definition rw_del_last_string :: "mem \<Rightarrow> int \<Rightarrow> int \<Rightarrow> mem option" where
  "rw_del_last_string m fdt s = do {
     n \<leftarrow> strlen m s;
     size_strings \<leftarrow> fdt_size_dt_strings m fdt;
     fdt_set_size_dt_strings m fdt (to_u32 (size_strings - (n + 1))) }"

definition fdt_splice_string :: "mem \<Rightarrow> int \<Rightarrow> int \<Rightarrow> (int \<times> mem) option" where
  "fdt_splice_string m fdt newlen = do {
     off_strings \<leftarrow> fdt_off_dt_strings m fdt;
     size_strings \<leftarrow> fdt_size_dt_strings m fdt;
     (err, m) \<leftarrow> fdt_splice m fdt (fdt + off_strings + size_strings) 0 newlen;
     if err \<noteq> 0 then Some (err, m) else do {
     size_strings \<leftarrow> fdt_size_dt_strings m fdt;
     m \<leftarrow> fdt_set_size_dt_strings m fdt (to_u32 (size_strings + newlen));
     Some (0, m) } }"

text \<open>The offset, whether the string was added, and the memory.\<close>

definition rw_find_add_string :: "mem \<Rightarrow> int \<Rightarrow> int \<Rightarrow> int \<Rightarrow> (int \<times> bool \<times> mem) option" where
  "rw_find_add_string m fdt s slen = do {
     off_strings \<leftarrow> fdt_off_dt_strings m fdt;
     size_strings \<leftarrow> fdt_size_dt_strings m fdt;
     let strtab = fdt + off_strings in do {
     p \<leftarrow> fdt_find_string_len m strtab (to_s32 size_strings) s (nat slen);
     if p \<noteq> 0 then Some (p - strtab, False, m)
     else let new = strtab + size_strings in do {
       (err, m) \<leftarrow> fdt_splice_string m fdt (slen + 1);
       if err \<noteq> 0 then Some (err, False, m)
       else do {
         (_, m) \<leftarrow> memcpy m new s (nat (to_u32 slen));
         m \<leftarrow> store8 m (new + slen) 0;
         Some (new - strtab, True, m) } } } }"

section \<open>The reserve map\<close>

definition fdt_add_mem_rsv :: "mem \<Rightarrow> int \<Rightarrow> int \<Rightarrow> int \<Rightarrow> (int \<times> mem) option" where
  "fdt_add_mem_rsv m fdt addr sz = do {
     (err, m) \<leftarrow> fdt_rw_probe m fdt;
     if err \<noteq> 0 then Some (err, m) else do {
     err \<leftarrow> fdt_num_mem_rsv m fdt;
     if err < 0 then Some (err, m) else do {
     re \<leftarrow> fdt_mem_rsv_raw m fdt err;
     (err, m) \<leftarrow> fdt_splice_mem_rsv m fdt re 0 1;
     if err \<noteq> 0 then Some (err, m) else do {
     m \<leftarrow> fdt64_set m re addr;
     m \<leftarrow> fdt64_set m (re + 8) sz;
     Some (0, m) } } } }"

definition fdt_del_mem_rsv :: "mem \<Rightarrow> int \<Rightarrow> int \<Rightarrow> (int \<times> mem) option" where
  "fdt_del_mem_rsv m fdt n = do {
     re \<leftarrow> fdt_mem_rsv_raw m fdt n;
     (err, m) \<leftarrow> fdt_rw_probe m fdt;
     if err \<noteq> 0 then Some (err, m) else do {
     num \<leftarrow> fdt_num_mem_rsv m fdt;
     if num < 0 then Some (num, m)
     else if n \<ge> num then Some (- FDT_ERR_NOTFOUND, m)
     else fdt_splice_mem_rsv m fdt re 1 0 } }"

section \<open>Properties\<close>

text \<open>The result, \<open>*prop\<close> and the memory.\<close>

definition fdt_resize_property :: "mem \<Rightarrow> int \<Rightarrow> int \<Rightarrow> int \<Rightarrow> int \<Rightarrow> int \<Rightarrow> (int \<times> int \<times> mem) option" where
  "fdt_resize_property m fdt nodeoffset name namelen len = do {
     (prop, oldlen) \<leftarrow> fdt_get_property_namelen m fdt nodeoffset name namelen;
     if prop = 0 then Some (oldlen, prop, m) else do {
     (err, m) \<leftarrow> fdt_splice_struct m fdt (prop + 12) (fdt_tagalign oldlen) (fdt_tagalign len);
     if err \<noteq> 0 then Some (err, prop, m) else do {
     m \<leftarrow> fdt32_set m (prop + 4) len;
     Some (0, prop, m) } } }"

definition fdt_add_property :: "mem \<Rightarrow> int \<Rightarrow> int \<Rightarrow> int \<Rightarrow> int \<Rightarrow> int \<Rightarrow> (int \<times> int \<times> mem) option" where
  "fdt_add_property m fdt nodeoffset name namelen len = do {
     nextoffset \<leftarrow> fdt_check_node_offset m fdt nodeoffset;
     if nextoffset < 0 then Some (nextoffset, 0, m) else do {
     (namestroff, allocated, m) \<leftarrow> rw_find_add_string m fdt name namelen;
     if namestroff < 0 then Some (namestroff, 0, m) else do {
     prop \<leftarrow> fdt_offset_ptr_raw m fdt nextoffset;
     let proplen = to_s32 (12 + fdt_tagalign len) in do {
     (err, m) \<leftarrow> fdt_splice_struct m fdt prop 0 proplen;
     if err \<noteq> 0 then do {
       m \<leftarrow> (if \<not> can_assume NO_ROLLBACK \<and> allocated then rw_del_last_string m fdt name else Some m);
       Some (err, prop, m) }
     else do {
       m \<leftarrow> fdt32_set m prop FDT_PROP;
       m \<leftarrow> fdt32_set m (prop + 8) namestroff;
       m \<leftarrow> fdt32_set m (prop + 4) len;
       Some (0, prop, m) } } } } }"

definition fdt_set_name :: "mem \<Rightarrow> int \<Rightarrow> int \<Rightarrow> int \<Rightarrow> (int \<times> mem) option" where
  "fdt_set_name m fdt nodeoffset name = do {
     (err, m) \<leftarrow> fdt_rw_probe m fdt;
     if err \<noteq> 0 then Some (err, m) else do {
     (namep, oldlen) \<leftarrow> fdt_get_name m fdt nodeoffset;
     if namep = 0 then Some (oldlen, m) else do {
     newlen \<leftarrow> strlen m name;
     let newlen = to_s32 newlen in do {
     (err, m) \<leftarrow> fdt_splice_struct m fdt namep (fdt_tagalign (oldlen + 1)) (fdt_tagalign (newlen + 1));
     if err \<noteq> 0 then Some (err, m) else do {
     (_, m) \<leftarrow> memcpy m namep name (nat (to_u32 (newlen + 1)));
     Some (0, m) } } } } }"

text \<open>The result, \<open>*prop_data\<close> (0 when it is not written) and the memory.\<close>

definition fdt_setprop_placeholder_namelen ::
  "mem \<Rightarrow> int \<Rightarrow> int \<Rightarrow> int \<Rightarrow> int \<Rightarrow> int \<Rightarrow> (int \<times> int \<times> mem) option" where
  "fdt_setprop_placeholder_namelen m fdt nodeoffset name namelen len = do {
     (err, m) \<leftarrow> fdt_rw_probe m fdt;
     if err \<noteq> 0 then Some (err, 0, m) else do {
     (err, prop, m) \<leftarrow> fdt_resize_property m fdt nodeoffset name namelen len;
     (err, prop, m) \<leftarrow> (if err = - FDT_ERR_NOTFOUND
        then fdt_add_property m fdt nodeoffset name namelen len else Some (err, prop, m));
     if err \<noteq> 0 then Some (err, 0, m) else Some (0, prop + 12, m) } }"

definition fdt_setprop_placeholder :: "mem \<Rightarrow> int \<Rightarrow> int \<Rightarrow> int \<Rightarrow> int \<Rightarrow> (int \<times> int \<times> mem) option" where
  "fdt_setprop_placeholder m fdt nodeoffset name len = do {
     n \<leftarrow> strlen m name; fdt_setprop_placeholder_namelen m fdt nodeoffset name (to_s32 n) len }"

definition fdt_setprop_namelen ::
  "mem \<Rightarrow> int \<Rightarrow> int \<Rightarrow> int \<Rightarrow> int \<Rightarrow> int \<Rightarrow> int \<Rightarrow> (int \<times> mem) option" where
  "fdt_setprop_namelen m fdt nodeoffset name namelen val len = do {
     (err, prop_data, m) \<leftarrow> fdt_setprop_placeholder_namelen m fdt nodeoffset name namelen len;
     if err \<noteq> 0 then Some (err, m)
     else if len \<noteq> 0 then do { (_, m) \<leftarrow> memcpy m prop_data val (nat (to_u32 len)); Some (0, m) }
     else Some (0, m) }"

definition fdt_setprop :: "mem \<Rightarrow> int \<Rightarrow> int \<Rightarrow> int \<Rightarrow> int \<Rightarrow> int \<Rightarrow> (int \<times> mem) option" where
  "fdt_setprop m fdt nodeoffset name val len = do {
     n \<leftarrow> strlen m name; fdt_setprop_namelen m fdt nodeoffset name (to_s32 n) val len }"

definition fdt_appendprop :: "mem \<Rightarrow> int \<Rightarrow> int \<Rightarrow> int \<Rightarrow> int \<Rightarrow> int \<Rightarrow> (int \<times> mem) option" where
  "fdt_appendprop m fdt nodeoffset name val len = do {
     (err, m) \<leftarrow> fdt_rw_probe m fdt;
     if err \<noteq> 0 then Some (err, m) else do {
     (prop, oldlen) \<leftarrow> fdt_get_property m fdt nodeoffset name;
     if prop \<noteq> 0 then let newlen = to_s32 (len + oldlen) in do {
       (err, m) \<leftarrow> fdt_splice_struct m fdt (prop + 12) (fdt_tagalign oldlen) (fdt_tagalign newlen);
       if err \<noteq> 0 then Some (err, m) else do {
       m \<leftarrow> fdt32_set m (prop + 4) newlen;
       (_, m) \<leftarrow> memcpy m (prop + 12 + oldlen) val (nat (to_u32 len));
       Some (0, m) } }
     else do {
       n \<leftarrow> strlen m name;
       (err, prop, m) \<leftarrow> fdt_add_property m fdt nodeoffset name (to_s32 n) len;
       if err \<noteq> 0 then Some (err, m) else do {
       (_, m) \<leftarrow> memcpy m (prop + 12) val (nat (to_u32 len));
       Some (0, m) } } } }"

definition fdt_delprop :: "mem \<Rightarrow> int \<Rightarrow> int \<Rightarrow> int \<Rightarrow> (int \<times> mem) option" where
  "fdt_delprop m fdt nodeoffset name = do {
     (err, m) \<leftarrow> fdt_rw_probe m fdt;
     if err \<noteq> 0 then Some (err, m) else do {
     (prop, len) \<leftarrow> fdt_get_property m fdt nodeoffset name;
     if prop = 0 then Some (len, m)
     else fdt_splice_struct m fdt prop (to_s32 (12 + fdt_tagalign len)) 0 } }"

section \<open>Nodes\<close>

text \<open>The offset behind the properties of a node: that of the first other tag.\<close>

partial_function (option) skip_properties :: "mem \<Rightarrow> int \<Rightarrow> int \<Rightarrow> int option" where [code]:
  "skip_properties m fdt nextoffset = (let offset = nextoffset in do {
     (tag, nextoffset) \<leftarrow> fdt_next_tag m fdt offset;
     if tag = FDT_PROP \<or> tag = FDT_NOP then skip_properties m fdt nextoffset else Some offset })"

definition fdt_add_subnode_namelen :: "mem \<Rightarrow> int \<Rightarrow> int \<Rightarrow> int \<Rightarrow> int \<Rightarrow> (int \<times> mem) option" where
  "fdt_add_subnode_namelen m fdt parentoffset name namelen = do {
     (err, m) \<leftarrow> fdt_rw_probe m fdt;
     if err \<noteq> 0 then Some (err, m) else do {
     offset \<leftarrow> fdt_subnode_offset_namelen m fdt parentoffset name namelen;
     if offset \<ge> 0 then Some (- FDT_ERR_EXISTS, m)
     else if offset \<noteq> - FDT_ERR_NOTFOUND then Some (offset, m) else do {
     (tag, nextoffset) \<leftarrow> fdt_next_tag m fdt parentoffset;
     if \<not> can_assume LIBFDT_FLAWLESS \<and> tag \<noteq> FDT_BEGIN_NODE then Some (- FDT_ERR_INTERNAL, m) else do {
     offset \<leftarrow> skip_properties m fdt nextoffset;
     nh \<leftarrow> fdt_offset_ptr_raw m fdt offset;
     let nodelen = to_s32 (4 + fdt_tagalign (namelen + 1) + FDT_TAGSIZE) in do {
     (err, m) \<leftarrow> fdt_splice_struct m fdt nh 0 nodelen;
     if err \<noteq> 0 then Some (err, m) else do {
     m \<leftarrow> fdt32_set m nh FDT_BEGIN_NODE;
     (_, m) \<leftarrow> memset m (nh + 4) 0 (nat (to_u32 (fdt_tagalign (namelen + 1))));
     (_, m) \<leftarrow> memcpy m (nh + 4) name (nat (to_u32 namelen));
     m \<leftarrow> fdt32_set m (nh + nodelen - FDT_TAGSIZE) FDT_END_NODE;
     Some (offset, m) } } } } } }"

definition fdt_add_subnode :: "mem \<Rightarrow> int \<Rightarrow> int \<Rightarrow> int \<Rightarrow> (int \<times> mem) option" where
  "fdt_add_subnode m fdt parentoffset name = do {
     n \<leftarrow> strlen m name; fdt_add_subnode_namelen m fdt parentoffset name (to_s32 n) }"

definition fdt_del_node :: "mem \<Rightarrow> int \<Rightarrow> int \<Rightarrow> (int \<times> mem) option" where
  "fdt_del_node m fdt nodeoffset = do {
     (err, m) \<leftarrow> fdt_rw_probe m fdt;
     if err \<noteq> 0 then Some (err, m) else do {
     endoffset \<leftarrow> fdt_node_end_offset m fdt nodeoffset;
     if endoffset < 0 then Some (endoffset, m) else do {
     p \<leftarrow> fdt_offset_ptr_raw m fdt nodeoffset;
     fdt_splice_struct m fdt p (endoffset - nodeoffset) 0 } } }"

section \<open>Moving and packing\<close>

definition fdt_packblocks :: "mem \<Rightarrow> int \<Rightarrow> int \<Rightarrow> int \<Rightarrow> int \<Rightarrow> int \<Rightarrow> mem option" where
  "fdt_packblocks m old new mem_rsv_size struct_size strings_size =
     (let mem_rsv_off = 40; struct_off = to_s32 (mem_rsv_off + mem_rsv_size);
          strings_off = to_s32 (struct_off + struct_size) in do {
      off_rsv \<leftarrow> fdt_off_mem_rsvmap m old;
      (_, m) \<leftarrow> memmove m (new + mem_rsv_off) (old + off_rsv) (nat (to_u32 mem_rsv_size));
      m \<leftarrow> fdt_set_off_mem_rsvmap m new mem_rsv_off;
      off_struct \<leftarrow> fdt_off_dt_struct m old;
      (_, m) \<leftarrow> memmove m (new + struct_off) (old + off_struct) (nat (to_u32 struct_size));
      m \<leftarrow> fdt_set_off_dt_struct m new struct_off;
      m \<leftarrow> fdt_set_size_dt_struct m new struct_size;
      off_strings \<leftarrow> fdt_off_dt_strings m old;
      (_, m) \<leftarrow> memmove m (new + strings_off) (old + off_strings) (nat (to_u32 strings_size));
      m \<leftarrow> fdt_set_off_dt_strings m new strings_off;
      size_strings \<leftarrow> fdt_size_dt_strings m old;
      fdt_set_size_dt_strings m new size_strings })"

text \<open>The end of the structure block of a version 16 tree, or the error behind its last tag.\<close>

partial_function (option) struct_end_from :: "mem \<Rightarrow> int \<Rightarrow> int \<Rightarrow> int option" where [code]:
  "struct_end_from m fdt struct_size = do {
     (tag, struct_size) \<leftarrow> fdt_next_tag m fdt struct_size;
     if tag \<noteq> FDT_END then struct_end_from m fdt struct_size else Some struct_size }"

definition open_struct_size :: "mem \<Rightarrow> int \<Rightarrow> int option" where
  "open_struct_size m fdt = do {
     version \<leftarrow> fdt_version m fdt;
     if can_assume LATEST \<or> version \<ge> 17 then do { s \<leftarrow> fdt_size_dt_struct m fdt; Some (to_s32 s) }
     else if version = 16 then struct_end_from m fdt 0
     else Some (- FDT_ERR_BADVERSION) }"

definition fdt_open_into :: "mem \<Rightarrow> int \<Rightarrow> int \<Rightarrow> int \<Rightarrow> (int \<times> mem) option" where
  "fdt_open_into m fdt buf bufsize = do {
     totalsize \<leftarrow> fdt_totalsize m fdt;
     err \<leftarrow> fdt_ro_probe m fdt;
     if err < 0 then Some (err, m) else do {
     err \<leftarrow> fdt_num_mem_rsv m fdt;
     if err < 0 then Some (err, m) else
     let mem_rsv_size = to_s32 ((err + 1) * 16) in do {
     version \<leftarrow> fdt_version m fdt;
     struct_size \<leftarrow> open_struct_size m fdt;
     if \<not> (can_assume LATEST \<or> version \<ge> 17) \<and> struct_size < 0 then Some (struct_size, m) else do {
     bad \<leftarrow> fdt_blocks_misordered m fdt mem_rsv_size struct_size;
     if can_assume LIBFDT_ORDER \<or> \<not> bad then do {
       (err, m) \<leftarrow> fdt_move m fdt buf bufsize;
       if err \<noteq> 0 then Some (err, m) else do {
       m \<leftarrow> fdt_set_version m buf 17;
       m \<leftarrow> fdt_set_size_dt_struct m buf struct_size;
       m \<leftarrow> fdt_set_totalsize m buf bufsize;
       Some (0, m) } }
     else do {
       size_strings \<leftarrow> fdt_size_dt_strings m fdt;
       let fdtend = fdt + totalsize;
           newsize = to_s32 (40 + mem_rsv_size + struct_size + size_strings);
           overlap = (buf + newsize > fdt \<and> buf < fdtend);
           tmp = (if overlap then fdtend else buf) in
       if bufsize < newsize then Some (- FDT_ERR_NOSPACE, m)
       else if overlap \<and> tmp + newsize > buf + bufsize then Some (- FDT_ERR_NOSPACE, m)
       else do {
         m \<leftarrow> fdt_packblocks m fdt tmp mem_rsv_size struct_size (to_s32 size_strings);
         (_, m) \<leftarrow> memmove m buf tmp (nat (to_u32 newsize));
         m \<leftarrow> fdt_set_magic m buf FDT_MAGIC;
         m \<leftarrow> fdt_set_totalsize m buf bufsize;
         m \<leftarrow> fdt_set_version m buf 17;
         m \<leftarrow> fdt_set_last_comp_version m buf 16;
         cpu \<leftarrow> fdt_boot_cpuid_phys m fdt;
         m \<leftarrow> fdt_set_boot_cpuid_phys m buf cpu;
         Some (0, m) } } } } } }"

definition fdt_pack :: "mem \<Rightarrow> int \<Rightarrow> (int \<times> mem) option" where
  "fdt_pack m fdt = do {
     (err, m) \<leftarrow> fdt_rw_probe m fdt;
     if err \<noteq> 0 then Some (err, m) else do {
     err \<leftarrow> fdt_num_mem_rsv m fdt;
     if err < 0 then Some (err, m) else
     let mem_rsv_size = to_s32 ((err + 1) * 16) in do {
     size_struct \<leftarrow> fdt_size_dt_struct m fdt;
     size_strings \<leftarrow> fdt_size_dt_strings m fdt;
     m \<leftarrow> fdt_packblocks m fdt fdt mem_rsv_size (to_s32 size_struct) (to_s32 size_strings);
     n \<leftarrow> fdt_data_size m fdt;
     m \<leftarrow> fdt_set_totalsize m fdt n;
     Some (0, m) } } }"

section \<open>The empty tree\<close>

definition fdt_create_empty_tree :: "mem \<Rightarrow> literals \<Rightarrow> int \<Rightarrow> int \<Rightarrow> (int \<times> mem) option" where
  "fdt_create_empty_tree m lit buf bufsize = do {
     (err, m) \<leftarrow> fdt_create m buf bufsize;
     if err \<noteq> 0 then Some (err, m) else do {
     (err, m) \<leftarrow> fdt_finish_reservemap m buf;
     if err \<noteq> 0 then Some (err, m) else do {
     (err, m) \<leftarrow> fdt_begin_node m buf (lit '''');
     if err \<noteq> 0 then Some (err, m) else do {
     (err, m) \<leftarrow> fdt_end_node m buf;
     if err \<noteq> 0 then Some (err, m) else do {
     (err, m) \<leftarrow> fdt_finish m buf;
     if err \<noteq> 0 then Some (err, m) else fdt_open_into m buf buf bufsize } } } } }"

section \<open>Address ranges\<close>

text \<open>
  \<open>data\<close> is the address of the local array of 16 bytes that takes the cells.
\<close>

definition fdt_appendprop_addrrange ::
  "mem \<Rightarrow> literals \<Rightarrow> int \<Rightarrow> int \<Rightarrow> int \<Rightarrow> int \<Rightarrow> u64 \<Rightarrow> u64 \<Rightarrow> int \<Rightarrow> (int \<times> mem) option" where
  "fdt_appendprop_addrrange m lit fdt parent nodeoffset name addr sz data = do {
     ret \<leftarrow> fdt_address_cells m lit fdt parent;
     if ret < 0 then Some (ret, m) else
     let addr_cells = ret in do {
     ret \<leftarrow> fdt_size_cells m lit fdt parent;
     if ret < 0 then Some (ret, m) else
     let size_cells = ret; cells = data + addr_cells * 4 in
     if addr_cells = 1 \<and> (addr > 0xffffffff \<or> 0x100000000 - addr < sz) then Some (- FDT_ERR_BADVALUE, m)
     else if addr_cells \<noteq> 1 \<and> addr_cells \<noteq> 2 then Some (- FDT_ERR_BADNCELLS, m)
     else do {
       m \<leftarrow> (if addr_cells = 1 then fdt32_st m data (ucast addr) else fdt64_st m data addr);
       if size_cells = 1 \<and> sz > 0xffffffff then Some (- FDT_ERR_BADVALUE, m)
       else if size_cells \<noteq> 1 \<and> size_cells \<noteq> 2 then Some (- FDT_ERR_BADNCELLS, m)
       else do {
         m \<leftarrow> (if size_cells = 1 then fdt32_st m cells (ucast sz) else fdt64_st m cells sz);
         fdt_appendprop m fdt nodeoffset name data ((addr_cells + size_cells) * 4) } } } }"

end
