(* ===== verification/Fdt_Edit.thy ===== *)
theory Fdt_Edit
  imports Fdt_Rw
begin

text \<open>
  What the read-write interface of \<^verbatim>\<open>libfdt/fdt_rw.c\<close> keeps: the layout of the tree and everything
  outside the tree's buffer, for arbitrary contents of the blocks.
\<close>

section \<open>The layout invariant\<close>

text \<open>
  A finished tree of version 17 with the blocks in order: reserve map, structure, strings, all inside
  \<open>totalsize\<close>.
\<close>

definition rw_ok :: "mem \<Rightarrow> int \<Rightarrow> bool" where
  "rw_ok m fdt \<longleftrightarrow> 0 < fdt \<and> fdt mod 8 = 0 \<and> mapped m fdt 40 \<and>
     mapped m fdt (4 * ((h_totalsize m fdt + 3) div 4)) \<and>
     h_totalsize m fdt < INT32_MAX \<and> fdt + h_totalsize m fdt \<le> 4294967296 \<and>
     hdr m fdt 0 = FDT_MAGIC \<and> h_version m fdt = 17 \<and> h_last_comp m fdt \<le> 17 \<and>
     40 \<le> h_off_rsvmap m fdt \<and> h_off_rsvmap m fdt \<le> h_off_struct m fdt \<and>
     h_off_struct m fdt + h_size_struct m fdt \<le> h_off_strings m fdt \<and>
     h_off_strings m fdt + h_size_strings m fdt \<le> h_totalsize m fdt"

lemma rw_ok_header: "rw_ok m fdt \<Longrightarrow> mapped m fdt 40"
  by (simp add: rw_ok_def)

lemmas rw_simps = header_fields [OF rw_ok_header]

lemma rw_bounds:
  assumes "rw_ok m fdt"
  shows "0 < fdt" "40 \<le> h_off_rsvmap m fdt" "h_off_rsvmap m fdt \<le> h_off_struct m fdt"
    "0 \<le> h_size_struct m fdt" "h_off_struct m fdt + h_size_struct m fdt \<le> h_off_strings m fdt"
    "0 \<le> h_size_strings m fdt" "h_off_strings m fdt + h_size_strings m fdt \<le> h_totalsize m fdt"
    "h_totalsize m fdt < INT32_MAX" "fdt + h_totalsize m fdt \<le> 4294967296" "h_version m fdt = 17"
  using assms blob_field(2) [OF rw_ok_header [OF assms], of 36]
    blob_field(2) [OF rw_ok_header [OF assms], of 32]
  unfolding rw_ok_def by (elim conjE; simp)+

lemma rw_blob: "rw_ok m fdt \<Longrightarrow> blob m fdt"
  using rw_bounds [of m fdt] unfolding rw_ok_def blob_def by (elim conjE, intro conjI) simp_all

lemma rw_mapped: "rw_ok m fdt \<Longrightarrow> mapped m fdt (h_totalsize m fdt)"
  using blob_mapped_tail [OF rw_blob, of m fdt fdt "h_totalsize m fdt"] by simp

text \<open>The end of the strings, where the data of the tree ends.\<close>

definition rw_end :: "mem \<Rightarrow> int \<Rightarrow> int" where
  "rw_end m fdt = h_off_strings m fdt + h_size_strings m fdt"

lemma rw_end_bounds:
  assumes "rw_ok m fdt"
  shows "h_off_struct m fdt + h_size_struct m fdt \<le> rw_end m fdt" "rw_end m fdt \<le> h_totalsize m fdt"
    "40 \<le> rw_end m fdt"
  using rw_bounds [OF assms] by (simp_all add: rw_end_def)

lemma fdt_data_size_ok: "rw_ok m fdt \<Longrightarrow> fdt_data_size m fdt = Some (rw_end m fdt)"
  using rw_bounds [of m fdt] by (simp add: fdt_data_size_def rw_simps rw_end_def to_u32_id)

lemma rw_ro_probe: "rw_ok m fdt \<Longrightarrow> fdt_ro_probe m fdt = Some (h_totalsize m fdt)"
  using rw_bounds [of m fdt]
  by (simp add: fdt_ro_probe_def rw_simps Let_def) (simp add: rw_ok_def to_s32_id)

lemma rw_misordered:
  assumes r: "rw_ok m fdt" and n: "0 \<le> n" "n \<le> INT32_MAX"
  shows "fdt_blocks_misordered m fdt n (h_size_struct m fdt) =
    Some (h_off_struct m fdt < h_off_rsvmap m fdt + n)"
proof -
  note b = rw_bounds [OF r]
  have "to_u32 (h_off_rsvmap m fdt + n) = h_off_rsvmap m fdt + n"
    "to_u32 (h_off_struct m fdt + h_size_struct m fdt) = h_off_struct m fdt + h_size_struct m fdt"
    "to_u32 (h_off_strings m fdt + h_size_strings m fdt) = h_off_strings m fdt + h_size_strings m fdt"
    by (rule to_u32_id; use b n in linarith)+
  moreover have "\<not> h_off_rsvmap m fdt < 40" "\<not> h_off_strings m fdt < h_off_struct m fdt + h_size_struct m fdt"
    "\<not> h_totalsize m fdt < h_off_strings m fdt + h_size_strings m fdt"
    using b by linarith+
  ultimately show ?thesis by (simp only: fdt_blocks_misordered_def rw_simps [OF r] Option.bind.bind_lunit simp_thms)
qed

lemma rw_probe_ok:
  assumes r: "rw_ok m fdt"
  shows "fdt_rw_probe m fdt =
    Some (if h_off_struct m fdt < h_off_rsvmap m fdt + 16 then - FDT_ERR_BADLAYOUT else 0, m)"
  using rw_bounds [OF r]
  by (simp add: fdt_rw_probe_def rw_ro_probe [OF r] rw_simps [OF r] rw_misordered [OF r]
      fdt_downgrade_version_def)

section \<open>Splicing\<close>

lemma memmove_spec:
  assumes "mapped m src (int n)" "mapped m dst (int n)"
  obtains m' where "memmove m dst src n = Some (dst, m')" "writes_only m m' dst (int n)"
    "\<And>i. 0 \<le> i \<Longrightarrow> i < int n \<Longrightarrow> m' (dst + i) = m (src + i)"
proof -
  from load_bytes_mapped [OF assms(1)] obtain bs where
    bs: "load_bytes m src n = Some bs" "length bs = n" "bytes_at m src bs"
    by (auto simp: load_bytes_Some)
  from store_bytes_Some [of m dst bs] assms(2) bs(2) obtain m' where
    m': "store_bytes m dst bs = Some m'" "writes_only m m' dst (int n)" "bytes_at m' dst bs" by auto
  show ?thesis
  proof (rule that)
    show "memmove m dst src n = Some (dst, m')" using bs(1) m'(1) by (simp add: memmove_def)
    show "m' (dst + i) = m (src + i)" if "0 \<le> i" "i < int n" for i
    proof -
      define k where "k = nat i"
      have k: "i = int k" "k < length bs" using that bs(2) by (simp_all add: k_def)
      have "m' (dst + int k) = Some (bs ! k)" "m (src + int k) = Some (bs ! k)"
        using m'(3) bs(3) k(2) unfolding bytes_at_iff by blast+
      then show ?thesis by (simp add: k(1))
    qed
  qed (rule m'(2))
qed

text \<open>
  \<open>shifted m m' p old new e\<close>: the bytes from \<open>p + old\<close> up to \<open>e\<close> have moved to \<open>p + new\<close>, and nothing
  else was written.
\<close>

definition shifted :: "mem \<Rightarrow> mem \<Rightarrow> int \<Rightarrow> int \<Rightarrow> int \<Rightarrow> int \<Rightarrow> bool" where
  "shifted m m' p old new e \<longleftrightarrow> writes_only m m' (p + new) (e - (p + old)) \<and>
     (\<forall>a. p + old \<le> a \<and> a < e \<longrightarrow> m' (a - old + new) = m a)"

lemma splice_spec:
  assumes r: "rw_ok m fdt" and p: "fdt \<le> p" "p - fdt \<le> UINT32_MAX"
    and old: "0 \<le> old" "old \<le> INT32_MAX" and new: "0 \<le> new" "new \<le> INT32_MAX"
  shows "(fdt + rw_end m fdt < p + old \<and> fdt_splice m fdt p old new = Some (- FDT_ERR_BADOFFSET, m)) \<or>
    (p + old \<le> fdt + rw_end m fdt \<and> h_totalsize m fdt < rw_end m fdt - old + new \<and>
       fdt_splice m fdt p old new = Some (- FDT_ERR_NOSPACE, m)) \<or>
    (p + old \<le> fdt + rw_end m fdt \<and> rw_end m fdt - old + new \<le> h_totalsize m fdt \<and>
       (\<exists>m'. fdt_splice m fdt p old new = Some (0, m') \<and> shifted m m' p old new (fdt + rw_end m fdt)))"
proof -
  note e = rw_end_bounds [OF r] and b = rw_bounds [OF r]
  define s where "s = p - fdt"
  have s: "0 \<le> s" "s \<le> UINT32_MAX" "to_u32 s = s" using p by (simp_all add: s_def to_u32_id)
  define d where "d = rw_end m fdt"
  define t where "t = h_totalsize m fdt"
  have d: "40 \<le> d" "d \<le> t" "t < INT32_MAX" using e b by (simp_all add: d_def t_def)
  have bad: "to_u32 (s + old) < s \<or> to_u32 (s + old) > d \<longleftrightarrow> d < s + old"
  proof (cases "s + old \<le> UINT32_MAX")
    case True
    with s old have "to_u32 (s + old) = s + old" by (intro to_u32_id) auto
    with old show ?thesis by simp
  next
    case False
    with s old have "to_u32 (s + old) = s + old - 4294967296" by (intro to_u32_wrap) auto
    with False s old d show ?thesis by auto
  qed
  have eq: "fdt_splice m fdt p old new =
    (if d < s + old then Some (- FDT_ERR_BADOFFSET, m)
     else if to_u32 (d + new) < to_u32 old then Some (- FDT_ERR_BADOFFSET, m)
     else if to_u32 (d - old + new) > t then Some (- FDT_ERR_NOSPACE, m)
     else do {
       (_, m) \<leftarrow> memmove m (p + new) (p + old) (nat (to_u32 ((fdt + d) - (p + old))));
       Some (0, m) })"
    using bad old p s
    by (simp add: fdt_splice_def fdt_data_size_ok [OF r] rw_simps [OF r] s_def [symmetric] d_def [symmetric]
        t_def [symmetric])
  show ?thesis
  proof (cases "d < s + old")
    case True
    then show ?thesis by (simp add: eq) (simp add: d_def s_def)
  next
    case False
    have u: "to_u32 (d + new) = d + new" "to_u32 old = old" "to_u32 (d - old + new) = d - old + new"
      by (rule to_u32_id; use d new old s False in linarith)+
    have n1: "\<not> d + new < old" using False s new by simp
    show ?thesis
    proof (cases "t < d - old + new")
      case True
      with False n1 show ?thesis by (simp add: eq u) (simp add: d_def s_def t_def)
    next
      case fits: False
      define n where "n = nat (d - s - old)"
      have n: "int n = d - s - old" using False by (simp add: n_def)
      have un: "to_u32 ((fdt + d) - (p + old)) = d - s - old"
        using n s old d by (simp add: s_def to_u32_id)
      have "mapped m (p + old) (int n)" "mapped m (p + new) (int n)"
        using n s old new fits d p by (intro mapped_sub [OF rw_mapped [OF r]]; simp add: s_def t_def)+
      then obtain m' where m': "memmove m (p + new) (p + old) n = Some (p + new, m')"
        "writes_only m m' (p + new) (int n)"
        "\<And>i. 0 \<le> i \<Longrightarrow> i < int n \<Longrightarrow> m' (p + new + i) = m (p + old + i)" using memmove_spec by metis
      have "fdt_splice m fdt p old new = Some (0, m')"
        using False n1 fits m'(1) by (simp add: eq u un n_def)
      moreover have "shifted m m' p old new (fdt + d)"
        unfolding shifted_def
      proof (intro conjI allI impI)
        show "writes_only m m' (p + new) (fdt + d - (p + old))"
          using m'(2) n by (simp add: s_def algebra_simps)
        show "m' (a - old + new) = m a" if "p + old \<le> a \<and> a < fdt + d" for a
          using m'(3) [of "a - (p + old)"] that n by (simp add: s_def algebra_simps)
      qed
      ultimately show ?thesis using False fits by (auto simp: d_def s_def t_def)
    qed
  qed
qed

lemma rw_set_field:
  assumes h: "mapped m fdt 40" and t: "40 \<le> h_totalsize m fdt"
    and k: "k \<in> hdr_fields" and v: "0 \<le> v" "v \<le> UINT32_MAX"
  obtains m' where "fdt32_set m (fdt + k) v = Some m'" "hdr m' fdt k = v" "same_but {k} m m' fdt"
    "writes_only m m' (fdt + k) 4"
proof (rule hdr_set [OF h hdr_fields_apart(1,2) [OF k], of v])
  fix m' assume m': "fdt32_set m (fdt + k) v = Some m'" "writes_only m m' (fdt + k) 4" "mapped m' fdt 40"
    "hdr m' fdt k = to_u32 v" and other: "\<And>j. j + 4 \<le> k \<or> k + 4 \<le> j \<Longrightarrow> hdr m' fdt j = hdr m fdt j"
  have "writes_only m m' fdt (h_totalsize m fdt)"
    using t hdr_fields_apart(1,2) [OF k] by (intro writes_only_mono [OF m'(2)]) auto
  then have "same_but {k} m m' fdt"
    using other hdr_fields_apart(3) [OF k] by (simp add: same_but_def)
  with m' that v show thesis by (simp add: to_u32_id)
qed

lemma rw_same_body:
  assumes "writes_only m m' a n" "fdt + 40 \<le> a" "a + n \<le> fdt + h_totalsize m fdt"
  shows "same_but {} m m' fdt"
  unfolding same_but_def
proof (intro conjI allI impI)
  fix k :: int assume "k \<in> hdr_fields"
  then have "fdt + k + 4 \<le> a" using assms(2) hdr_fields_apart(2) [of k] by simp
  then show "hdr m' fdt k = hdr m fdt k" by (rule hdr_frame [OF assms(1)])
qed (rule writes_only_mono [OF assms(1)], use assms(2,3) in auto)

text \<open>Two header fields set one after the other.\<close>

lemma rw_set_two:
  assumes h: "mapped m fdt 40" and t: "40 \<le> h_totalsize m fdt"
    and k: "k \<in> hdr_fields" "j \<in> hdr_fields" "k \<noteq> j" "k \<noteq> 4"
    and v: "0 \<le> v" "v \<le> UINT32_MAX" "0 \<le> w" "w \<le> UINT32_MAX"
  obtains m1 m' where "fdt32_set m (fdt + k) v = Some m1" "hdr m1 fdt j = hdr m fdt j" "mapped m1 fdt 40"
    "fdt32_set m1 (fdt + j) w = Some m'" "hdr m' fdt k = v" "hdr m' fdt j = w" "same_but {k, j} m m' fdt"
    "\<forall>a. fdt + 40 \<le> a \<longrightarrow> m' a = m a"
proof -
  obtain m1 where m1: "fdt32_set m (fdt + k) v = Some m1" "hdr m1 fdt k = v" "same_but {k} m m1 fdt"
    "writes_only m m1 (fdt + k) 4" by (rule rw_set_field [OF h t k(1) v(1,2)])
  have h1: "mapped m1 fdt 40" by (rule writes_only_mapped [OF m1(4) h])
  have t1: "40 \<le> h_totalsize m1 fdt" using same_butD [OF m1(3), of 4] k(4) t by simp
  obtain m' where m': "fdt32_set m1 (fdt + j) w = Some m'" "hdr m' fdt j = w" "same_but {j} m1 m' fdt"
    "writes_only m1 m' (fdt + j) 4" by (rule rw_set_field [OF h1 t1 k(2) v(3,4)])
  have s: "same_but {k, j} m m' fdt" using same_but_trans [OF m1(3) m'(3)] k(4) by (simp add: insert_commute)
  have "hdr m1 fdt j = hdr m fdt j" using same_butD [OF m1(3) k(2)] k(3) by simp
  moreover have "hdr m' fdt k = v" using same_butD [OF m'(3) k(1)] k(3) m1(2) by simp
  moreover have "m' a = m a" if "fdt + 40 \<le> a" for a
  proof -
    have "fdt + k + 4 \<le> a" "fdt + j + 4 \<le> a" using that hdr_fields_apart(2) k(1,2) by fastforce+
    then show ?thesis using writes_only_same [OF m1(4), of a] writes_only_same [OF m'(4), of a] by simp
  qed
  ultimately show thesis using that m1(1) h1 m'(1,2) s by blast
qed

text \<open>
  \<open>edits m m' fdt\<close>: the tree is still well laid out, its buffer has not grown, and only the buffer was
  written.
\<close>

definition edits :: "mem \<Rightarrow> mem \<Rightarrow> int \<Rightarrow> bool" where
  "edits m m' fdt \<longleftrightarrow> rw_ok m' fdt \<and> h_totalsize m' fdt \<le> h_totalsize m fdt \<and>
     writes_only m m' fdt (h_totalsize m fdt)"

lemma edits_refl: "rw_ok m fdt \<Longrightarrow> edits m m fdt"
  by (simp add: edits_def)

lemma edits_trans: "edits m m1 fdt \<Longrightarrow> edits m1 m2 fdt \<Longrightarrow> edits m m2 fdt"
  unfolding edits_def by (meson add_left_mono order_refl order_trans writes_only_mono writes_only_trans)

lemma rw_ok_upd:
  assumes r: "rw_ok m fdt" and s: "same_but ks m m' fdt" and ks: "{0, 4, 16, 20, 24} \<inter> ks = {}"
    and lay: "h_off_rsvmap m fdt \<le> h_off_struct m' fdt"
      "h_off_struct m' fdt + h_size_struct m' fdt \<le> h_off_strings m' fdt"
      "h_off_strings m' fdt + h_size_strings m' fdt \<le> h_totalsize m fdt"
  shows "rw_ok m' fdt" "edits m m' fdt" "h_totalsize m' fdt = h_totalsize m fdt"
    "h_off_rsvmap m' fdt = h_off_rsvmap m fdt"
proof -
  note w = same_but_writes [OF s]
  have h: "hdr m' fdt 0 = hdr m fdt 0" "hdr m' fdt 4 = hdr m fdt 4" "hdr m' fdt 16 = hdr m fdt 16"
    "hdr m' fdt 20 = hdr m fdt 20" "hdr m' fdt 24 = hdr m fdt 24"
    using ks by (auto intro!: same_butD [OF s])
  show ok: "rw_ok m' fdt"
    using r lay unfolding rw_ok_def h by (elim conjE, intro conjI) (assumption | rule writes_only_mapped [OF w])+
  show "edits m m' fdt" using ok w h(2) by (simp add: edits_def)
  show "h_totalsize m' fdt = h_totalsize m fdt" "h_off_rsvmap m' fdt = h_off_rsvmap m fdt" by (rule h)+
qed

text \<open>
  \<open>struct_spliced m m' fdt p old new\<close>: the structure block and what follows were opened or closed at \<open>p\<close>;
  the gap has the bytes that were there before.
\<close>

definition struct_spliced :: "mem \<Rightarrow> mem \<Rightarrow> int \<Rightarrow> int \<Rightarrow> int \<Rightarrow> int \<Rightarrow> bool" where
  "struct_spliced m m' fdt p old new \<longleftrightarrow> edits m m' fdt \<and> same_but {12, 36} m m' fdt \<and>
     h_size_struct m' fdt = h_size_struct m fdt + new - old \<and>
     h_off_strings m' fdt = h_off_strings m fdt + new - old \<and>
     (\<forall>a. fdt + 40 \<le> a \<and> a < p \<longrightarrow> m' a = m a) \<and> (\<forall>a. p \<le> a \<and> a < p + new \<longrightarrow> m' a = m a) \<and>
     (\<forall>a. p + old \<le> a \<and> a < fdt + rw_end m fdt \<longrightarrow> m' (a - old + new) = m a)"

lemma splice_struct_spec:
  assumes r: "rw_ok m fdt" and p: "fdt + 40 \<le> p" "p - fdt \<le> UINT32_MAX"
    and old: "0 \<le> old" "old \<le> h_size_struct m fdt" and new: "0 \<le> new" "new \<le> INT32_MAX"
  shows "(fdt + rw_end m fdt < p + old \<and> fdt_splice_struct m fdt p old new = Some (- FDT_ERR_BADOFFSET, m)) \<or>
    (p + old \<le> fdt + rw_end m fdt \<and> h_totalsize m fdt < rw_end m fdt - old + new \<and>
       fdt_splice_struct m fdt p old new = Some (- FDT_ERR_NOSPACE, m)) \<or>
    (p + old \<le> fdt + rw_end m fdt \<and> rw_end m fdt - old + new \<le> h_totalsize m fdt \<and>
       (\<exists>m'. fdt_splice_struct m fdt p old new = Some (0, m') \<and> struct_spliced m m' fdt p old new))"
proof -
  note b = rw_bounds [OF r] and e = rw_end_bounds [OF r]
  define d where "d = new - old"
  have o: "old \<le> INT32_MAX" using old b by simp
  have dd: "to_s32 (new - old) = d" using new old o by (simp add: d_def to_s32_id)
  have fp: "fdt \<le> p" using p by simp
  from splice_spec [OF r fp p(2) old(1) o new] consider
    "fdt + rw_end m fdt < p + old" "fdt_splice m fdt p old new = Some (- FDT_ERR_BADOFFSET, m)" |
    "p + old \<le> fdt + rw_end m fdt" "h_totalsize m fdt < rw_end m fdt - old + new"
      "fdt_splice m fdt p old new = Some (- FDT_ERR_NOSPACE, m)" |
    m1 where "p + old \<le> fdt + rw_end m fdt" "rw_end m fdt - old + new \<le> h_totalsize m fdt"
      "fdt_splice m fdt p old new = Some (0, m1)" "shifted m m1 p old new (fdt + rw_end m fdt)" by blast
  then show ?thesis
  proof cases
    case (3 m1)
    from 3(4) have w: "writes_only m m1 (p + new) (fdt + rw_end m fdt - (p + old))"
      and mv: "\<And>a. p + old \<le> a \<Longrightarrow> a < fdt + rw_end m fdt \<Longrightarrow> m1 (a - old + new) = m a"
      by (simp_all add: shifted_def)
    have s1: "same_but {} m m1 fdt" by (rule rw_same_body [OF w]) (use p new 3(2) in simp_all)
    have hd: "hdr m1 fdt k = hdr m fdt k" if "k \<in> hdr_fields" for k using same_butD [OF s1 that] by simp
    have h1: "mapped m1 fdt 40" by (rule writes_only_mapped [OF w rw_ok_header [OF r]])
    define ss os where "ss = h_size_struct m fdt + d" and "os = h_off_strings m fdt + d"
    have so: "0 \<le> ss" "ss \<le> UINT32_MAX" "0 \<le> os" "os \<le> UINT32_MAX"
      "h_off_struct m fdt + ss \<le> os" "os + h_size_strings m fdt \<le> h_totalsize m fdt"
      using b old new 3(2) unfolding ss_def os_def d_def rw_end_def by linarith+
    have t1: "40 \<le> h_totalsize m1 fdt" using e by (simp add: hd)
    have ne: "(36::int) \<noteq> 12" "(36::int) \<noteq> 4" by simp_all
    obtain m2 m' where m2: "fdt32_set m1 (fdt + 36) ss = Some m2" "hdr m2 fdt 12 = hdr m1 fdt 12"
      "mapped m2 fdt 40" "fdt32_set m2 (fdt + 12) os = Some m'" "hdr m' fdt 36 = ss" "hdr m' fdt 12 = os"
      "same_but {36, 12} m1 m' fdt" "\<forall>a. fdt + 40 \<le> a \<longrightarrow> m' a = m1 a"
      by (rule rw_set_two [OF h1 t1 hdr_field(10) hdr_field(4) ne so(1-4)])
    have s: "same_but {12, 36} m m' fdt"
      using same_but_trans [OF s1 m2(7)] by (simp add: insert_commute)
    have run: "fdt_splice_struct m fdt p old new = Some (0, m')"
      using 3(3) m2(1,2,4) so
      by (simp add: fdt_splice_struct_def dd header_fields [OF h1] header_fields [OF m2(3)] hd fdt_set_defs
          Let_def ss_def [symmetric] os_def [symmetric] to_u32_id)
    have off: "h_off_struct m' fdt = h_off_struct m fdt" "h_size_strings m' fdt = h_size_strings m fdt"
      using same_butD [OF s] by simp_all
    have "edits m m' fdt"
      by (rule rw_ok_upd(2) [OF r s]) (use off m2(5,6) so b in simp_all)
    moreover have "m' a = m a" if "fdt + 40 \<le> a" "a < p" for a
      using writes_only_same [OF w, of a] m2(8) [rule_format, OF that(1)] that new by simp
    moreover have "m' a = m a" if "p \<le> a" "a < p + new" for a
      using writes_only_same [OF w, of a] m2(8) that p by simp
    moreover have "m' (a - old + new) = m a" if "p + old \<le> a" "a < fdt + rw_end m fdt" for a
      using mv [OF that] m2(8) [rule_format, of "a - old + new"] that p new by simp
    ultimately have "struct_spliced m m' fdt p old new"
      using s m2(5,6) by (simp add: struct_spliced_def ss_def os_def d_def)
    with run 3(1,2) show ?thesis by blast
  qed (simp_all add: fdt_splice_struct_def)
qed

section \<open>Writes behind the header\<close>

lemma rw_body:
  assumes r: "rw_ok m fdt" and w: "writes_only m m' a n" "fdt + 40 \<le> a" "a + n \<le> fdt + h_totalsize m fdt"
  shows "edits m m' fdt" "same_but {} m m' fdt" "rw_ok m' fdt" "k \<in> hdr_fields \<Longrightarrow> hdr m' fdt k = hdr m fdt k"
    "rw_end m' fdt = rw_end m fdt"
proof -
  show s: "same_but {} m m' fdt" by (rule rw_same_body [OF w])
  show f: "k \<in> hdr_fields \<Longrightarrow> hdr m' fdt k = hdr m fdt k" for k using same_butD [OF s] by simp
  show "edits m m' fdt" "rw_ok m' fdt"
    by (rule rw_ok_upd [OF r s]; use rw_bounds [OF r] in \<open>simp add: f\<close>)+
  show "rw_end m' fdt = rw_end m fdt" by (simp add: rw_end_def f)
qed

lemma rw_store:
  assumes r: "rw_ok m fdt" and a: "fdt + 40 \<le> a" "a + 4 \<le> fdt + h_totalsize m fdt"
  obtains m' where "fdt32_set m a v = Some m'" "writes_only m m' a 4" "fdt32_ld m' a = Some (to_u32 v)"
proof -
  have "mapped m a 4" by (rule mapped_sub [OF rw_mapped [OF r]]) (use a in simp_all)
  then show thesis using that fdt32_set_ok by metis
qed

lemma rw_copy:
  assumes r: "rw_ok m fdt" and bs: "bytes_at m src bs" "apart m fdt src (int (length bs))"
    and a: "fdt \<le> a" "a + int (length bs) \<le> fdt + h_totalsize m fdt"
  obtains m' where "memcpy m a src (length bs) = Some (a, m')" "bytes_at m' a bs"
    "writes_only m m' a (int (length bs))"
proof -
  have "mapped m a (int (length bs))" by (rule mapped_sub [OF rw_mapped [OF r]]) (use a in simp_all)
  moreover have "a \<le> src \<or> src + int (length bs) \<le> a" using bs(2) a by auto
  ultimately show thesis using that memcpy_bytes [OF bs(1)] by metis
qed

section \<open>The strings\<close>

lemma splice_string_spec:
  assumes r: "rw_ok m fdt" and n: "0 \<le> n" "n \<le> INT32_MAX"
  shows "(h_totalsize m fdt < rw_end m fdt + n \<and> fdt_splice_string m fdt n = Some (- FDT_ERR_NOSPACE, m)) \<or>
    (rw_end m fdt + n \<le> h_totalsize m fdt \<and> (\<exists>m'. fdt_splice_string m fdt n = Some (0, m') \<and>
       same_but {32} m m' fdt \<and> edits m m' fdt \<and> h_size_strings m' fdt = h_size_strings m fdt + n \<and>
       (\<forall>a. fdt + 40 \<le> a \<longrightarrow> m' a = m a)))"
proof -
  note b = rw_bounds [OF r] and e = rw_end_bounds [OF r]
  define p where "p = fdt + rw_end m fdt"
  have p: "fdt \<le> p" "p - fdt \<le> UINT32_MAX" using e b by (simp_all add: p_def)
  have pe: "fdt + h_off_strings m fdt + h_size_strings m fdt = p" by (simp add: p_def rw_end_def)
  have z: "(0::int) \<le> 0" "(0::int) \<le> INT32_MAX" by simp_all
  from splice_spec [OF r p z n] consider
    "h_totalsize m fdt < rw_end m fdt + n" "fdt_splice m fdt p 0 n = Some (- FDT_ERR_NOSPACE, m)" |
    m1 where "rw_end m fdt + n \<le> h_totalsize m fdt" "fdt_splice m fdt p 0 n = Some (0, m1)"
      "shifted m m1 p 0 n p" by (auto simp: p_def)
  then show ?thesis
  proof cases
    case 1
    then show ?thesis by (simp add: fdt_splice_string_def rw_simps [OF r] pe)
  next
    case (2 m1)
    from 2(3) have "\<forall>a. m1 a = m a" by (simp add: shifted_def writes_only_def) (metis not_le)
    then have m1: "m1 = m" by auto
    have v: "0 \<le> h_size_strings m fdt + n" "h_size_strings m fdt + n \<le> UINT32_MAX" using b n by simp_all
    have t: "40 \<le> h_totalsize m fdt" using e by simp
    obtain m' where m': "fdt32_set m (fdt + 32) (h_size_strings m fdt + n) = Some m'"
      "h_size_strings m' fdt = h_size_strings m fdt + n" "same_but {32} m m' fdt" "writes_only m m' (fdt + 32) 4"
      by (rule rw_set_field [OF rw_ok_header [OF r] t hdr_field(9) v])
    have "edits m m' fdt"
      by (rule rw_ok_upd(2) [OF r m'(3)])
         (use b m'(2) 2(1) same_butD [OF m'(3)] in \<open>simp_all add: rw_end_def\<close>)
    moreover have "fdt_splice_string m fdt n = Some (0, m')"
      using 2(2) m'(1) v by (simp add: fdt_splice_string_def rw_simps [OF r] pe m1 fdt_set_defs to_u32_id)
    moreover have "m' a = m a" if "fdt + 40 \<le> a" for a
      by (rule writes_only_same [OF m'(4)]) (use that in simp)
    ultimately show ?thesis using 2(1) m'(2,3) by blast
  qed
qed

lemma bytes_at_snoc: "bytes_at m p (bs @ [b]) \<longleftrightarrow> bytes_at m p bs \<and> m (p + int (length bs)) = Some b"
  by (auto simp: bytes_at_iff nth_append less_Suc_eq)

lemma rw_find_add_string_spec:
  assumes r: "rw_ok m fdt" and n: "bytes_at m s nm" "0 \<le> s" "s < 4294967296" "int (length nm) \<le> 2147483640"
    and ap: "apart m fdt s (int (length nm))"
  obtains (full) "rw_find_add_string m fdt s (int (length nm)) = Some (- FDT_ERR_NOSPACE, False, m)"
      "h_totalsize m fdt < rw_end m fdt + int (length nm) + 1"
    | (found) off where "rw_find_add_string m fdt s (int (length nm)) = Some (off, False, m)" "0 \<le> off"
        "off + int (length nm) + 1 \<le> h_size_strings m fdt"
        "bytes_at m (fdt + h_off_strings m fdt + off) (nm @ [0])"
    | (added) m' where "rw_find_add_string m fdt s (int (length nm)) = Some (h_size_strings m fdt, True, m')"
        "same_but {32} m m' fdt" "edits m m' fdt"
        "h_size_strings m' fdt = h_size_strings m fdt + int (length nm) + 1"
        "\<forall>a. fdt + 40 \<le> a \<and> a < fdt + rw_end m fdt \<longrightarrow> m' a = m a"
        "bytes_at m' (fdt + rw_end m fdt) (nm @ [0])"
proof -
  note b = rw_bounds [OF r] and e = rw_end_bounds [OF r]
  define z where "z = h_size_strings m fdt"
  define tab where "tab = fdt + h_off_strings m fdt"
  define L where "L = int (length nm)"
  have L: "0 \<le> L" "L + 1 \<le> INT32_MAX" using n(4) by (simp_all add: L_def)
  have z: "to_s32 z = z" "0 \<le> z" using b by (simp_all add: z_def to_s32_id)
  have low: "0 < tab" using b by (simp add: tab_def)
  define final where "final = tab + z - (L + 1)"
  have "mapped m tab (final - tab + L + 1)"
    by (rule mapped_sub [OF rw_mapped [OF r]]) (use b in \<open>simp_all add: tab_def z_def final_def L_def\<close>)
  moreover have "final < 4294967296" using b L by (simp add: final_def tab_def z_def)
  ultimately obtain q where q: "fdt_find_string_from m tab final s (length nm) = Some q"
    "q = 0 \<or> tab \<le> q \<and> q \<le> final \<and> bytes_at m q nm \<and> m (q + L) = Some 0"
    using find_string_from_spec [OF n(1-3) low] unfolding L_def by blast
  have find: "fdt_find_string_len m tab z s (length nm) = Some q"
    using q(1) by (simp add: fdt_find_string_len_def final_def L_def)
  have tz: "tab + z = fdt + rw_end m fdt" by (simp add: tab_def z_def rw_end_def)
  have eq: "rw_find_add_string m fdt s L = (if q \<noteq> 0 then Some (q - tab, False, m)
      else do { (err, m) \<leftarrow> fdt_splice_string m fdt (L + 1);
        if err \<noteq> 0 then Some (err, False, m)
        else do { (_, m) \<leftarrow> memcpy m (tab + z) s (length nm);
                  m \<leftarrow> store8 m (tab + z + L) 0; Some (z, True, m) } })"
  proof -
    have u: "to_u32 L = L" "nat L = length nm" using L by (simp_all add: to_u32_id L_def)
    show ?thesis
      using find
      by (simp add: rw_find_add_string_def rw_simps [OF r] tab_def [symmetric] z_def [symmetric] z(1) u Let_def cong: if_cong)
  qed
  show thesis
  proof (cases "q = 0")
    case False
    with q(2) have "tab \<le> q" "q \<le> final" "bytes_at m q (nm @ [0])"
      by (auto simp: bytes_at_snoc L_def)
    with found [of "q - tab"] False eq show thesis by (simp add: z_def tab_def final_def L_def)
  next
    case q0: True
    have L1: "0 \<le> L + 1" using L by simp
    from splice_string_spec [OF r L1 L(2)] show thesis
    proof (elim disjE conjE exE)
      assume "fdt_splice_string m fdt (L + 1) = Some (- FDT_ERR_NOSPACE, m)"
        "h_totalsize m fdt < rw_end m fdt + (L + 1)"
      with full q0 eq show thesis by (simp add: L_def)
    next
      fix m1 assume fit: "rw_end m fdt + (L + 1) \<le> h_totalsize m fdt"
        and m1: "fdt_splice_string m fdt (L + 1) = Some (0, m1)" "same_but {32} m m1 fdt" "edits m m1 fdt"
        "h_size_strings m1 fdt = h_size_strings m fdt + (L + 1)" "\<forall>a. fdt + 40 \<le> a \<longrightarrow> m1 a = m a"
      have r1: "rw_ok m1 fdt" and t1: "h_totalsize m1 fdt = h_totalsize m fdt"
        using m1(3) same_butD [OF m1(2), of 4] by (simp_all add: edits_def)
      have w1: "writes_only m m1 fdt (h_totalsize m fdt)" using m1(3) by (simp add: edits_def)
      have n1: "bytes_at m1 s nm"
        using bytes_at_frame [OF w1, of s nm] n(1) ap by (simp add: add.commute)
      define d where "d = fdt + rw_end m fdt"
      have d: "fdt + 40 \<le> d" "d + L + 1 \<le> fdt + h_totalsize m1 fdt" using e fit t1 by (simp_all add: d_def)
      obtain m2 where m2: "memcpy m1 d s (length nm) = Some (d, m2)" "bytes_at m2 d nm"
        "writes_only m1 m2 d L"
        by (rule rw_copy [OF r1 n1, of d]) (use ap t1 d in \<open>simp_all add: L_def\<close>)
      have "mapped m1 (d + L) 1" by (rule mapped_sub [OF rw_mapped [OF r1]]) (use d L in simp_all)
      then have md: "m2 (d + L) \<noteq> None"
        using writes_only_mapped [OF m2(3)] mappedD [of m2 "d + L" 1] by auto
      define m3 where "m3 = m2(d + L \<mapsto> 0)"
      have m3: "store8 m2 (d + L) 0 = Some m3" using md by (simp add: store8_def m3_def)
      have "dom m3 = dom m2" using md by (auto simp: m3_def)
      then have w3: "writes_only m1 m3 d (L + 1)"
        using m2(3) L by (auto simp: writes_only_def m3_def)
      have sb: "same_but {} m1 m3 fdt" "edits m1 m3 fdt"
        by (rule rw_body [OF r1 w3]; use d in simp)+
      have b3: "bytes_at m3 d (nm @ [0])"
        using m2(2) by (auto simp: bytes_at_iff nth_append m3_def L_def less_Suc_eq)
      have "same_but {32} m m3 fdt" using same_but_trans [OF m1(2) sb(1)] by simp
      moreover have "h_size_strings m3 fdt = z + L + 1" using same_butD [OF sb(1), of 32] m1(4) by (simp add: z_def)
      moreover have "\<forall>a. fdt + 40 \<le> a \<and> a < d \<longrightarrow> m3 a = m a"
        using m1(5) writes_only_same [OF w3] by auto
      moreover have "rw_find_add_string m fdt s L = Some (z, True, m3)"
        using q0 eq m1(1) m2(1) m3 by (simp add: tz d_def)
      ultimately show thesis
        using added [of m3] edits_trans [OF m1(3) sb(2)] b3 by (simp add: z_def d_def L_def)
    qed
  qed
qed

section \<open>Properties\<close>

lemma tagalign_size: "0 \<le> n \<Longrightarrow> n \<le> 2147483640 \<Longrightarrow> fdt_tagalign n = tag_size n"
  by (simp add: fdt_tagalign_eq tag_size_def)

lemma tag_size_nonneg: "0 \<le> n \<Longrightarrow> 0 \<le> tag_size n"
  using tag_size_bounds(1) [of n] by simp

lemma first_property_pos:
  assumes b: "blob m fdt" and off: "node \<le> INT32_MAX"
    and f: "fdt_first_property_offset m fdt node = Some f" "0 \<le> f"
  shows "4 \<le> f"
proof -
  from fdt_check_node_offset_spec [OF b off]
  obtain n where n: "fdt_check_node_offset m fdt node = Some n"
    "n = - FDT_ERR_BADOFFSET \<or> tag_at m fdt node FDT_BEGIN_NODE n" by blast
  show ?thesis
  proof (cases "n < 0")
    case True
    with n f show ?thesis by (simp add: fdt_first_property_offset_def)
  next
    case False
    with n(2) have t: "tag_at m fdt node FDT_BEGIN_NODE n" by auto
    note tb = tag_at_bounds [OF b t]
    have "0 \<le> n" "n \<le> INT32_MAX" using tb by simp_all
    from nextprop_spec [OF b this tb(4)] False n(1) f tb show ?thesis
      by (auto simp: fdt_first_property_offset_def)
  qed
qed

lemma props_from_above:
  assumes b: "blob m fdt"
  shows "props_from m fdt off ps r \<Longrightarrow> \<forall>p \<in> set ps. prop_at m fdt p \<Longrightarrow> r < 0 \<Longrightarrow> \<forall>p \<in> set ps. off \<le> p"
proof (induction rule: props_from.induct)
  case (step off off' ps r)
  then have p: "prop_at m fdt off" by simp
  have o: "off \<le> INT32_MAX" using prop_at_bounds(2) [OF b p] by simp
  from fdt_next_property_offset_spec [OF b o] step(2) have o': "off' < 0 \<or> off < off'" by auto
  have "\<forall>q \<in> set ps. off' \<le> q" using step by simp
  moreover have "ps = []" if "off' < 0" using step(3) that by (auto elim: props_from.cases)
  ultimately show ?case using o' by fastforce
qed simp

lemma get_property_spec:
  assumes r: "rw_ok m fdt" and off: "node \<le> INT32_MAX" and n: "c_string m name nm"
  obtains (none) err where "fdt_get_property_namelen m fdt node name (int (length nm)) = Some (0, err)" "err < 0"
      "\<And>ps e. props_of m fdt node ps e \<Longrightarrow> find (named m fdt nm) ps = None"
    | (found) p ps e where "fdt_get_property_namelen m fdt node name (int (length nm)) =
          Some (prop_addr m fdt p, sfield m fdt (p + 4))"
        "prop_at m fdt p" "4 \<le> p" "props_of m fdt node ps e" "find (named m fdt nm) ps = Some p"
        "prop_addr m fdt p \<noteq> 0"
proof -
  note b = rw_blob [OF r] and nb = c_string_bytes [OF n]
  have v: "h_version m fdt = 17" by (rule rw_bounds [OF r])
  obtain ps e where ps: "props_of m fdt node ps e" using props_of_exists [OF b off] by blast
  then obtain f where f: "fdt_first_property_offset m fdt node = Some f" "props_from m fdt f ps e"
    "\<forall>p \<in> set ps. prop_at m fdt p" "e < 0" by (auto simp: props_of_def)
  have loop: "fdt_get_property_loop m fdt f' name (int (length nm)) =
      Some (case find (named m fdt nm) ps' of
              Some p \<Rightarrow> (prop_addr m fdt p, sfield m fdt (p + 4), p) | None \<Rightarrow> (0, e', 0))"
    if "props_from m fdt f' ps' e'" "\<forall>p \<in> set ps'. prop_at m fdt p" for f' ps' e'
    by (rule fdt_get_property_loop_find [OF b nb(1-4) that])
  show thesis
  proof (cases "find (named m fdt nm) ps")
    case None
    show thesis
    proof (rule none)
      show "fdt_get_property_namelen m fdt node name (int (length nm)) = Some (0, e)"
        using None f(1) loop [OF f(2,3)] v
        by (simp add: fdt_get_property_namelen_def rw_simps [OF r] fdt_get_property_namelen_any_def)
      show "find (named m fdt nm) ps' = None" if p': "props_of m fdt node ps' e'" for ps' e'
      proof (rule ccontr)
        assume "find (named m fdt nm) ps' \<noteq> None"
        then obtain q where q: "find (named m fdt nm) ps' = Some q" by blast
        then have "prop_at m fdt q" using p' by (auto simp: find_Some_iff props_of_def)
        then have "prop_addr m fdt q \<noteq> 0" by (rule prop_at_reads(4) [OF b])
        moreover from p' f(1) have "props_from m fdt f ps' e'" "\<forall>p \<in> set ps'. prop_at m fdt p"
          by (auto simp: props_of_def)
        from loop [OF this] loop [OF f(2,3)] None q have "prop_addr m fdt q = 0" by simp
        ultimately show False by blast
      qed
    qed (rule f(4))
  next
    case (Some p)
    then have pm: "p \<in> set ps" by (auto simp: find_Some_iff)
    with f(3) have p: "prop_at m fdt p" by simp
    have fp: "f \<le> p" using props_from_above [OF b f(2-4)] pm by simp
    have "0 \<le> f"
    proof (rule ccontr)
      assume "\<not> 0 \<le> f"
      with f(2) have "ps = []" by (auto elim: props_from.cases)
      with pm show False by simp
    qed
    from first_property_pos [OF b off f(1) this] fp have "4 \<le> p" by simp
    moreover have "fdt_get_property_namelen m fdt node name (int (length nm)) =
        Some (prop_addr m fdt p, sfield m fdt (p + 4))"
      using Some f(1) loop [OF f(2,3)] v
      by (simp add: fdt_get_property_namelen_def rw_simps [OF r] fdt_get_property_namelen_any_def)
    ultimately show thesis using found p ps Some prop_at_reads(4) [OF b p] by blast
  qed
qed

text \<open>Where a property lies: its cell and value are inside the structure block.\<close>

lemma rw_prop_range:
  assumes r: "rw_ok m fdt" and p: "prop_at m fdt p" "4 \<le> p"
  defines "l \<equiv> sfield m fdt (p + 4)"
  shows "0 \<le> l" "l \<le> 2147483640" "p + 12 + l \<le> h_size_struct m fdt" "tag_size l \<le> h_size_struct m fdt"
    "12 + tag_size l \<le> h_size_struct m fdt" "fdt + 40 \<le> prop_addr m fdt p"
    "prop_addr m fdt p + 12 + l \<le> fdt + h_off_strings m fdt" "prop_addr m fdt p + 12 - fdt \<le> UINT32_MAX"
proof -
  note b = rw_bounds [OF r] and pb = prop_at_bounds [OF rw_blob [OF r] p(1)]
  show l: "0 \<le> l" "p + 12 + l \<le> h_size_struct m fdt"
    using pb b by (simp_all add: l_def struct_fits_def)
  then show "l \<le> 2147483640" "tag_size l \<le> h_size_struct m fdt" "12 + tag_size l \<le> h_size_struct m fdt"
    "fdt + 40 \<le> prop_addr m fdt p"
    "prop_addr m fdt p + 12 + l \<le> fdt + h_off_strings m fdt" "prop_addr m fdt p + 12 - fdt \<le> UINT32_MAX"
    using b p tag_size_bounds(2) [of l] by linarith+
qed

text \<open>The value of a property given a new length: its gap and the length word.\<close>

lemma resize_at:
  assumes r: "rw_ok m fdt" and p: "prop_at m fdt p" "4 \<le> p" and len: "0 \<le> len" "len \<le> 2147483640"
  defines "a \<equiv> prop_addr m fdt p" and "l \<equiv> sfield m fdt (p + 4)"
  obtains (refused) e where "fdt_splice_struct m fdt (a + 12) (tag_size l) (tag_size len) = Some (e, m)" "e < 0"
        "e \<noteq> - FDT_ERR_NOTFOUND"
    | (resized) m1 m' where "fdt_splice_struct m fdt (a + 12) (tag_size l) (tag_size len) = Some (0, m1)"
        "struct_spliced m m1 fdt (a + 12) (tag_size l) (tag_size len)" "fdt32_set m1 (a + 4) len = Some m'"
        "writes_only m1 m' (a + 4) 4" "fdt32_ld m' (a + 4) = Some len" "edits m m' fdt"
        "a + 12 + tag_size len \<le> fdt + rw_end m' fdt" "same_but {} m1 m' fdt"
proof -
  note b = rw_bounds [OF r]
  have tl: "0 \<le> tag_size len" "tag_size len \<le> INT32_MAX"
    using len tag_size_bounds(2) [of len] by (simp_all add: tag_size_nonneg)
  note rg = rw_prop_range [OF r p, folded l_def a_def]
  have low: "fdt + 40 \<le> a + 12" using rg(6) by simp
  from splice_struct_spec [OF r low rg(8) tag_size_nonneg [OF rg(1)] rg(4) tl] consider
    e' where "fdt_splice_struct m fdt (a + 12) (tag_size l) (tag_size len) = Some (e', m)" "e' < 0"
      "e' \<noteq> - FDT_ERR_NOTFOUND" |
    m1 where "fdt_splice_struct m fdt (a + 12) (tag_size l) (tag_size len) = Some (0, m1)"
      "struct_spliced m m1 fdt (a + 12) (tag_size l) (tag_size len)"
      "a + 12 + tag_size l \<le> fdt + rw_end m fdt" "rw_end m fdt - tag_size l + tag_size len \<le> h_totalsize m fdt"
    by force
  then show thesis
  proof cases
    case (1 e')
    then show thesis by (rule refused)
  next
    case (2 m1)
    from 2(2) have s: "edits m m1 fdt" "same_but {12, 36} m m1 fdt"
      "h_off_strings m1 fdt = h_off_strings m fdt + tag_size len - tag_size l"
      by (simp_all add: struct_spliced_def)
    then have r1: "rw_ok m1 fdt" by (simp add: edits_def)
    have t1: "h_totalsize m1 fdt = h_totalsize m fdt" "h_size_strings m1 fdt = h_size_strings m fdt"
      using same_butD [OF s(2)] by simp_all
    have e1: "rw_end m1 fdt = rw_end m fdt + tag_size len - tag_size l" by (simp add: rw_end_def s(3) t1)
    have ab: "fdt + 40 \<le> a + 4" "a + 4 + 4 \<le> fdt + h_totalsize m1 fdt"
      using rg b 2(3,4) tl(1) unfolding t1 rw_end_def by linarith+
    obtain m' where m': "fdt32_set m1 (a + 4) len = Some m'" "writes_only m1 m' (a + 4) 4"
      "fdt32_ld m' (a + 4) = Some (to_u32 len)" by (rule rw_store [OF r1 ab])
    note bd = rw_body [OF r1 m'(2) ab]
    have "edits m m' fdt" by (rule edits_trans [OF s(1) bd(1)])
    moreover have "a + 12 + tag_size len \<le> fdt + rw_end m' fdt" using 2(3) by (simp add: bd(5) e1)
    moreover have "fdt32_ld m' (a + 4) = Some len" using m'(3) len by (simp add: to_u32_id)
    ultimately show thesis using resized 2(1,2) m'(1,2) bd(2) by blast
  qed
qed

lemma resize_property_spec:
  assumes r: "rw_ok m fdt" and off: "node \<le> INT32_MAX" and n: "c_string m name nm"
    and len: "0 \<le> len" "len \<le> 2147483640"
  obtains (none) err q where "fdt_resize_property m fdt node name (int (length nm)) len = Some (err, q, m)" "err < 0"
        "\<And>ps e. err = - FDT_ERR_NOTFOUND \<Longrightarrow> props_of m fdt node ps e \<Longrightarrow> find (named m fdt nm) ps = None"
    | (resized) p ps e m1 m' where
        "fdt_resize_property m fdt node name (int (length nm)) len = Some (0, prop_addr m fdt p, m')"
        "prop_at m fdt p" "4 \<le> p" "props_of m fdt node ps e" "find (named m fdt nm) ps = Some p"
        "struct_spliced m m1 fdt (prop_addr m fdt p + 12) (tag_size (sfield m fdt (p + 4))) (tag_size len)"
        "writes_only m1 m' (prop_addr m fdt p + 4) 4" "fdt32_ld m' (prop_addr m fdt p + 4) = Some len"
        "edits m m' fdt" "prop_addr m fdt p + 12 + tag_size len \<le> fdt + rw_end m' fdt"
proof (rule get_property_spec [OF r off n])
  fix err
  assume "fdt_get_property_namelen m fdt node name (int (length nm)) = Some (0, err)" "err < 0"
    "\<And>ps e. props_of m fdt node ps e \<Longrightarrow> find (named m fdt nm) ps = None"
  then show thesis using none by (simp add: fdt_resize_property_def)
next
  fix p ps e
  assume g: "fdt_get_property_namelen m fdt node name (int (length nm)) =
        Some (prop_addr m fdt p, sfield m fdt (p + 4))"
      "prop_at m fdt p" "4 \<le> p" "props_of m fdt node ps e" "find (named m fdt nm) ps = Some p"
      "prop_addr m fdt p \<noteq> 0"
  note rg = rw_prop_range [OF r g(2,3)]
  have eq: "fdt_resize_property m fdt node name (int (length nm)) len = do {
      (err, m1) \<leftarrow> fdt_splice_struct m fdt (prop_addr m fdt p + 12) (tag_size (sfield m fdt (p + 4))) (tag_size len);
      if err \<noteq> 0 then Some (err, prop_addr m fdt p, m1)
      else do { m' \<leftarrow> fdt32_set m1 (prop_addr m fdt p + 4) len; Some (0, prop_addr m fdt p, m') } }"
    using g(1,6) rg(1,2) len by (simp add: fdt_resize_property_def tagalign_size cong: if_cong)
  show thesis
    by (rule resize_at [OF r g(2,3) len]) (use none resized g(2-5) in \<open>simp_all add: eq\<close>)
qed

text \<open>Opening a gap for a property cell at \<open>next\<close>, and filling in its three words.\<close>

lemma place_property:
  assumes r: "rw_ok m fdt" and nx: "0 \<le> nx" "nx \<le> 2147483644" and len: "0 \<le> len" "len \<le> 2147483600"
  defines "a \<equiv> prop_addr m fdt nx"
  obtains (refused) e where "fdt_splice_struct m fdt a 0 (12 + tag_size len) = Some (e, m)" "e < 0"
    | (placed) m1 m2 m3 m' where "fdt_splice_struct m fdt a 0 (12 + tag_size len) = Some (0, m1)"
        "struct_spliced m m1 fdt a 0 (12 + tag_size len)"
        "fdt32_set m1 a FDT_PROP = Some m2" "fdt32_set m2 (a + 8) off = Some m3" "fdt32_set m3 (a + 4) len = Some m'"
        "writes_only m1 m' a 12" "fdt32_ld m' a = Some FDT_PROP" "fdt32_ld m' (a + 4) = Some len"
        "fdt32_ld m' (a + 8) = Some (to_u32 off)" "edits m m' fdt" "fdt + 40 \<le> a"
        "a + 12 + tag_size len \<le> fdt + rw_end m' fdt" "same_but {} m1 m' fdt"
proof -
  note b = rw_bounds [OF r] and e = rw_end_bounds [OF r]
  have tb: "0 \<le> tag_size len" "tag_size len \<le> 2147483603"
    using tag_size_bounds(2) [of len] len by (simp_all add: tag_size_nonneg)
  have low: "fdt + 40 \<le> a" using b nx by (simp add: a_def)
  have u: "a - fdt \<le> UINT32_MAX" using b nx by (simp add: a_def)
  have ts: "0 \<le> 12 + tag_size len" "12 + tag_size len \<le> INT32_MAX" using tb by simp_all
  have z: "0 \<le> (0::int)" by simp
  from splice_struct_spec [OF r low u z b(4) ts] consider
    e where "fdt_splice_struct m fdt a 0 (12 + tag_size len) = Some (e, m)" "e < 0" |
    m1 where "fdt_splice_struct m fdt a 0 (12 + tag_size len) = Some (0, m1)"
      "struct_spliced m m1 fdt a 0 (12 + tag_size len)" "a \<le> fdt + rw_end m fdt"
      "rw_end m fdt + 12 + tag_size len \<le> h_totalsize m fdt" by force
  then show thesis
  proof cases
    case 1
    then show thesis by (rule refused)
  next
    case (2 m1)
    from 2(2) have s: "edits m m1 fdt" "same_but {12, 36} m m1 fdt"
      "h_off_strings m1 fdt = h_off_strings m fdt + 12 + tag_size len"
      by (simp_all add: struct_spliced_def)
    then have r1: "rw_ok m1 fdt" by (simp add: edits_def)
    have t1: "h_totalsize m1 fdt = h_totalsize m fdt" "h_size_strings m1 fdt = h_size_strings m fdt"
      using same_butD [OF s(2)] by simp_all
    have e1: "rw_end m1 fdt = rw_end m fdt + 12 + tag_size len" by (simp add: rw_end_def s(3) t1)
    have top: "a + 12 \<le> fdt + h_totalsize m1 fdt" using 2(3,4) tb(1) t1 by simp
    have x: "fdt + 40 \<le> a + 8" "a + 8 + 4 \<le> fdt + h_totalsize m1 fdt" "a + 4 \<le> fdt + h_totalsize m1 fdt"
      "fdt + 40 \<le> a + 4" "a + 4 + 4 \<le> fdt + h_totalsize m1 fdt"
      using low top by simp_all
    obtain m2 where m2: "fdt32_set m1 a FDT_PROP = Some m2" "writes_only m1 m2 a 4"
      "fdt32_ld m2 a = Some (to_u32 FDT_PROP)" by (rule rw_store [OF r1 low x(3)])
    note bd2 = rw_body [OF r1 m2(2) low x(3)]
    have h2: "h_totalsize m2 fdt = h_totalsize m1 fdt" by (simp add: bd2)
    obtain m3 where m3: "fdt32_set m2 (a + 8) off = Some m3" "writes_only m2 m3 (a + 8) 4"
      "fdt32_ld m3 (a + 8) = Some (to_u32 off)" by (rule rw_store [OF bd2(3) x(1)]) (use x(2) h2 in simp_all)
    have "a + 8 + 4 \<le> fdt + h_totalsize m2 fdt" using x(2) h2 by simp
    note bd3 = rw_body [OF bd2(3) m3(2) x(1) this]
    have h3: "h_totalsize m3 fdt = h_totalsize m1 fdt" by (simp add: bd3 h2)
    obtain m' where m': "fdt32_set m3 (a + 4) len = Some m'" "writes_only m3 m' (a + 4) 4"
      "fdt32_ld m' (a + 4) = Some (to_u32 len)" by (rule rw_store [OF bd3(3) x(4)]) (use x(5) h3 in simp_all)
    have w: "writes_only m1 m' a 12"
      using writes_only_mono [OF m2(2), of a 12] writes_only_mono [OF m3(2), of a 12]
        writes_only_mono [OF m'(2), of a 12] by (auto intro: writes_only_trans)
    note bd = rw_body [OF r1 w low top]
    have "fdt32_ld m' a = Some FDT_PROP"
      using m2(3) fdt32_ld_frame [OF m3(2), of a] fdt32_ld_frame [OF m'(2), of a] by (simp add: to_u32_id)
    moreover have "fdt32_ld m' (a + 8) = Some (to_u32 off)"
      using m3(3) fdt32_ld_frame [OF m'(2), of "a + 8"] by simp
    moreover have "fdt32_ld m' (a + 4) = Some len" using m'(3) len by (simp add: to_u32_id)
    moreover have "a + 12 + tag_size len \<le> fdt + rw_end m' fdt" using 2(3) by (simp add: bd(5) e1)
    ultimately show thesis
      using placed 2(1,2) m2(1) m3(1) m'(1) w edits_trans [OF s(1) bd(1)] low bd(2) by blast
  qed
qed

lemma edits_frame:
  assumes "edits m m' fdt"
  shows "bytes_at m p bs \<Longrightarrow> apart m fdt p (int (length bs)) \<Longrightarrow> bytes_at m' p bs"
    "c_string m q nm \<Longrightarrow> apart m fdt q (int (length nm) + 1) \<Longrightarrow> c_string m' q nm"
    "apart m fdt p n \<Longrightarrow> apart m' fdt p n"
proof -
  have w: "writes_only m m' fdt (h_totalsize m fdt)" "h_totalsize m' fdt \<le> h_totalsize m fdt"
    using assms by (simp_all add: edits_def)
  show "bytes_at m p bs \<Longrightarrow> apart m fdt p (int (length bs)) \<Longrightarrow> bytes_at m' p bs"
    using bytes_at_frame [OF w(1), of p bs] by auto
  show "c_string m q nm \<Longrightarrow> apart m fdt q (int (length nm) + 1) \<Longrightarrow> c_string m' q nm"
    by (rule c_string_frame [OF _ w(1)]) auto
  show "apart m fdt p n \<Longrightarrow> apart m' fdt p n" using w(2) by auto
qed

lemma rw_rollback:
  assumes r: "rw_ok m fdt" and n: "c_string m name nm" and ap: "apart m fdt name (int (length nm) + 1)"
    and a: "same_but {32} m m1 fdt" "h_size_strings m1 fdt = h_size_strings m fdt + int (length nm) + 1"
      "edits m m1 fdt"
  obtains m' where "rw_del_last_string m1 fdt name = Some m'" "edits m m' fdt"
    "writes_only m1 m' (fdt + 32) 4" "same_but {} m m' fdt"
proof -
  note b = rw_bounds [OF r] and e = rw_end_bounds [OF r]
  have r1: "rw_ok m1 fdt" using a(3) by (simp add: edits_def)
  have n1: "strlen m1 name = Some (int (length nm))"
    by (rule c_string_strlen, rule edits_frame(2) [OF a(3) n ap])
  have v: "0 \<le> h_size_strings m fdt" "h_size_strings m fdt \<le> UINT32_MAX" using b by simp_all
  have t: "40 \<le> h_totalsize m1 fdt" using e same_butD [OF a(1), of 4] by simp
  obtain m2 where m2: "fdt32_set m1 (fdt + 32) (h_size_strings m fdt) = Some m2"
    "h_size_strings m2 fdt = h_size_strings m fdt" "same_but {32} m1 m2 fdt" "writes_only m1 m2 (fdt + 32) 4"
    by (rule rw_set_field [OF rw_ok_header [OF r1] t hdr_field(9) v])
  have sb: "same_but {32} m m2 fdt" using same_but_trans [OF a(1) m2(3)] by simp
  then have sb0: "same_but {} m m2 fdt" using m2(2) unfolding same_but_def by blast
  have "edits m m2 fdt"
    by (rule rw_ok_upd(2) [OF r sb0]) (use b same_butD [OF sb0] in simp_all)
  moreover have "rw_del_last_string m1 fdt name = Some m2"
    using n1 m2(1) a(2) v by (simp add: rw_del_last_string_def rw_simps [OF r1] fdt_set_defs to_u32_id)
  ultimately show thesis using that m2(4) sb0 by blast
qed

text \<open>
  \<open>same_tree m m' fdt\<close>: header and blocks are as they were (bytes behind the strings may differ).
\<close>

definition same_tree :: "mem \<Rightarrow> mem \<Rightarrow> int \<Rightarrow> bool" where
  "same_tree m m' fdt \<longleftrightarrow> same_but {} m m' fdt \<and>
     (\<forall>a. fdt + 40 \<le> a \<and> a < fdt + rw_end m fdt \<longrightarrow> m' a = m a)"

lemma same_tree_refl [simp]: "same_tree m m fdt"
  by (simp add: same_tree_def)

text \<open>What every operation promises: an error leaves the tree alone.\<close>

definition rw_result :: "mem \<Rightarrow> mem \<Rightarrow> int \<Rightarrow> int \<Rightarrow> bool" where
  "rw_result m m' fdt r \<longleftrightarrow> edits m m' fdt \<and> (r < 0 \<longrightarrow> same_tree m m' fdt)"

lemma rw_result_refl: "rw_ok m fdt \<Longrightarrow> rw_result m m fdt r"
  by (simp add: rw_result_def edits_refl)

text \<open>The rest of \<open>fdt_add_property_\<close> once the name is in the strings block.\<close>

lemma add_property_tail:
  assumes len: "0 \<le> len" "len \<le> 2147483600" and nx: "fdt_check_node_offset m fdt node = Some nx" "0 \<le> nx"
    and f: "rw_find_add_string m fdt name nl = Some (so, allocated, m1)" "0 \<le> so" "rw_ok m1 fdt"
  shows "fdt_add_property m fdt node name nl len =
    (let prop = prop_addr m1 fdt nx in do {
       (err, m) \<leftarrow> fdt_splice_struct m1 fdt prop 0 (12 + tag_size len);
       if err \<noteq> 0 then do {
         m \<leftarrow> (if allocated then rw_del_last_string m fdt name else Some m); Some (err, prop, m) }
       else do {
         m \<leftarrow> fdt32_set m prop FDT_PROP; m \<leftarrow> fdt32_set m (prop + 8) so; m \<leftarrow> fdt32_set m (prop + 4) len;
         Some (0, prop, m) } })"
proof -
  have pl: "to_s32 (12 + fdt_tagalign len) = 12 + tag_size len"
    using len tag_size_bounds(2) [of len] tag_size_nonneg [of len] by (simp add: tagalign_size to_s32_id)
  show ?thesis
    using f nx(2)
    by (simp add: fdt_add_property_def nx(1) fdt_offset_ptr_raw_def rw_simps [OF f(3)] pl Let_def cong: if_cong)
qed

lemma add_property_spec:
  assumes r: "rw_ok m fdt" and off: "node \<le> INT32_MAX" and n: "c_string m name nm"
    and ap: "apart m fdt name (int (length nm) + 1)" and len: "0 \<le> len" "len \<le> 2147483600"
  shows "\<exists>r q m'. fdt_add_property m fdt node name (int (length nm)) len = Some (r, q, m') \<and> r \<le> 0 \<and>
     rw_result m m' fdt r \<and>
     (r = 0 \<longrightarrow> fdt + 40 \<le> q \<and> q + 12 + tag_size len \<le> fdt + rw_end m' fdt)"
proof -
  note bl = rw_blob [OF r] and nb = c_string_bytes [OF n]
  have l: "int (length nm) \<le> 2147483640" using n by (simp add: c_string_def)
  from fdt_check_node_offset_spec [OF bl off] obtain nx where
    nx: "fdt_check_node_offset m fdt node = Some nx" "nx = - FDT_ERR_BADOFFSET \<or> tag_at m fdt node FDT_BEGIN_NODE nx"
    by blast
  show ?thesis
  proof (cases "nx < 0")
    case True
    then show ?thesis by (simp add: fdt_add_property_def nx(1) rw_result_refl [OF r])
  next
    case False
    with nx(2) have "tag_at m fdt node FDT_BEGIN_NODE nx" by auto
    then have nb': "0 \<le> nx" "nx \<le> 2147483644" using tag_at_bounds [OF bl] False by auto
    then have nn: "0 \<le> nx" by simp
    note tail = add_property_tail [OF len nx(1) nn]
    have ap': "apart m fdt name (int (length nm))" using ap by auto
    show ?thesis
    proof (rule rw_find_add_string_spec [OF r nb(1-3) l ap'])
      assume "rw_find_add_string m fdt name (int (length nm)) = Some (- FDT_ERR_NOSPACE, False, m)"
      then show ?thesis using False by (simp add: fdt_add_property_def nx(1) rw_result_refl [OF r])
    next
      fix so assume f: "rw_find_add_string m fdt name (int (length nm)) = Some (so, False, m)" "0 \<le> so"
      note t = tail [OF f r]
      show ?thesis
      proof (rule place_property [OF r nb' len])
        fix e assume "fdt_splice_struct m fdt (prop_addr m fdt nx) 0 (12 + tag_size len) = Some (e, m)" "e < 0"
        then show ?thesis using t by (simp add: rw_result_refl [OF r])
      next
        fix m1 m2 m3 m'
        assume "fdt_splice_struct m fdt (prop_addr m fdt nx) 0 (12 + tag_size len) = Some (0, m1)"
          "fdt32_set m1 (prop_addr m fdt nx) FDT_PROP = Some m2"
          "fdt32_set m2 (prop_addr m fdt nx + 8) so = Some m3"
          "fdt32_set m3 (prop_addr m fdt nx + 4) len = Some m'" "edits m m' fdt"
          "fdt + 40 \<le> prop_addr m fdt nx" "prop_addr m fdt nx + 12 + tag_size len \<le> fdt + rw_end m' fdt"
        then show ?thesis using t by (simp add: rw_result_def)
      qed
    next
      fix ma assume f: "rw_find_add_string m fdt name (int (length nm)) = Some (h_size_strings m fdt, True, ma)"
        "same_but {32} m ma fdt" "edits m ma fdt" "h_size_strings ma fdt = h_size_strings m fdt + int (length nm) + 1"
        "\<forall>a. fdt + 40 \<le> a \<and> a < fdt + rw_end m fdt \<longrightarrow> ma a = m a"
      have ra: "rw_ok ma fdt" using f(3) by (simp add: edits_def)
      note t = tail [OF f(1) rw_bounds(6) [OF r] ra]
      show ?thesis
      proof (rule place_property [OF ra nb' len])
        fix e assume e: "fdt_splice_struct ma fdt (prop_addr ma fdt nx) 0 (12 + tag_size len) = Some (e, ma)" "e < 0"
        obtain m' where m': "rw_del_last_string ma fdt name = Some m'" "edits m m' fdt"
          "writes_only ma m' (fdt + 32) 4" "same_but {} m m' fdt"
          by (rule rw_rollback [OF r n ap f(2,4,3)])
        have "same_tree m m' fdt"
          using m'(4) f(5) writes_only_same [OF m'(3)] by (simp add: same_tree_def)
        with m'(1,2) e t show ?thesis by (simp add: rw_result_def)
      next
        fix m1 m2 m3 m'
        assume "fdt_splice_struct ma fdt (prop_addr ma fdt nx) 0 (12 + tag_size len) = Some (0, m1)"
          "fdt32_set m1 (prop_addr ma fdt nx) FDT_PROP = Some m2"
          "fdt32_set m2 (prop_addr ma fdt nx + 8) (h_size_strings m fdt) = Some m3"
          "fdt32_set m3 (prop_addr ma fdt nx + 4) len = Some m'" "edits ma m' fdt"
          "fdt + 40 \<le> prop_addr ma fdt nx" "prop_addr ma fdt nx + 12 + tag_size len \<le> fdt + rw_end m' fdt"
        then show ?thesis using t edits_trans [OF f(3)] by (simp add: rw_result_def)
      qed
    qed
  qed
qed

text \<open>\<open>fdt_setprop\<close>, \<open>fdt_appendprop\<close> and \<open>fdt_delprop\<close>.\<close>

lemma rw_probe_cases:
  assumes "rw_ok m fdt"
  obtains "fdt_rw_probe m fdt = Some (- FDT_ERR_BADLAYOUT, m)" | "fdt_rw_probe m fdt = Some (0, m)"
  using rw_probe_ok [OF assms] by (auto split: if_splits)

lemma setprop_placeholder_spec:
  assumes r: "rw_ok m fdt" and off: "node \<le> INT32_MAX" and n: "c_string m name nm"
    and ap: "apart m fdt name (int (length nm) + 1)" and len: "0 \<le> len" "len \<le> 2147483600"
  shows "\<exists>r q m'. fdt_setprop_placeholder_namelen m fdt node name (int (length nm)) len = Some (r, q, m') \<and>
     r \<le> 0 \<and> rw_result m m' fdt r \<and>
     (r = 0 \<longrightarrow> fdt + 52 \<le> q \<and> q + tag_size len \<le> fdt + rw_end m' fdt)"
proof (rule rw_probe_cases [OF r])
  assume "fdt_rw_probe m fdt = Some (- FDT_ERR_BADLAYOUT, m)"
  then show ?thesis by (simp add: fdt_setprop_placeholder_namelen_def rw_result_refl [OF r])
next
  assume p: "fdt_rw_probe m fdt = Some (0, m)"
  have l2: "len \<le> 2147483640" using len by simp
  show ?thesis
  proof (rule resize_property_spec [OF r off n len(1) l2])
    fix err q assume q: "fdt_resize_property m fdt node name (int (length nm)) len = Some (err, q, m)" "err < 0"
    show ?thesis
    proof (cases "err = - FDT_ERR_NOTFOUND")
      case True
      from add_property_spec [OF r off n ap len] obtain r' q' m' where
        a: "fdt_add_property m fdt node name (int (length nm)) len = Some (r', q', m')" "r' \<le> 0"
          "rw_result m m' fdt r'"
          "r' = 0 \<longrightarrow> fdt + 40 \<le> q' \<and> q' + 12 + tag_size len \<le> fdt + rw_end m' fdt" by blast
      show ?thesis
        using a q True p by (cases "r' = 0") (simp_all add: fdt_setprop_placeholder_namelen_def)
    next
      case False
      with q p show ?thesis by (simp add: fdt_setprop_placeholder_namelen_def rw_result_refl [OF r])
    qed
  next
    fix pr m'
    assume d: "fdt_resize_property m fdt node name (int (length nm)) len = Some (0, prop_addr m fdt pr, m')"
      "prop_at m fdt pr" "4 \<le> pr" "edits m m' fdt" "prop_addr m fdt pr + 12 + tag_size len \<le> fdt + rw_end m' fdt"
    have "fdt + 40 \<le> prop_addr m fdt pr" by (rule rw_prop_range(6) [OF r d(2,3)])
    with d p show ?thesis by (simp add: fdt_setprop_placeholder_namelen_def rw_result_def)
  qed
qed

text \<open>Copying a value into a gap of the tree.\<close>

lemma rw_fill:
  assumes e: "edits m m1 fdt" and bs: "bytes_at m val bs" "apart m fdt val (int (length bs))"
    and a: "fdt + 40 \<le> a" "a + tag_size (int (length bs)) \<le> fdt + rw_end m1 fdt"
  obtains m' where "memcpy m1 a val (length bs) = Some (a, m')" "bytes_at m' a bs"
    "writes_only m1 m' a (int (length bs))" "edits m m' fdt"
proof -
  have r1: "rw_ok m1 fdt" using e by (simp add: edits_def)
  have top: "a + int (length bs) \<le> fdt + h_totalsize m1 fdt"
    using a(2) tag_size_bounds(1) [of "int (length bs)"] rw_end_bounds(2) [OF r1] by simp
  have low: "fdt \<le> a" using a(1) by simp
  obtain m' where m': "memcpy m1 a val (length bs) = Some (a, m')" "bytes_at m' a bs"
    "writes_only m1 m' a (int (length bs))"
    by (rule rw_copy [OF r1 edits_frame(1) [OF e bs] edits_frame(3) [OF e bs(2)] low top])
  with that edits_trans [OF e rw_body(1) [OF r1 m'(3) a(1) top]] show thesis by blast
qed

lemma setprop_spec:
  assumes r: "rw_ok m fdt" and off: "node \<le> INT32_MAX" and n: "c_string m name nm"
    and ap: "apart m fdt name (int (length nm) + 1)" and len: "int (length bs) \<le> 2147483600"
    and bs: "bytes_at m val bs" "apart m fdt val (int (length bs))"
  shows "\<exists>r m'. fdt_setprop m fdt node name val (int (length bs)) = Some (r, m') \<and> r \<le> 0 \<and> rw_result m m' fdt r"
proof -
  have l0: "0 \<le> int (length bs)" by simp
  from setprop_placeholder_spec [OF r off n ap l0 len] obtain e q m1 where
    p: "fdt_setprop_placeholder_namelen m fdt node name (int (length nm)) (int (length bs)) = Some (e, q, m1)"
      "e \<le> 0" "rw_result m m1 fdt e"
      "e = 0 \<longrightarrow> fdt + 52 \<le> q \<and> q + tag_size (int (length bs)) \<le> fdt + rw_end m1 fdt" by blast
  have eq: "fdt_setprop m fdt node name val (int (length bs)) =
      fdt_setprop_namelen m fdt node name (int (length nm)) val (int (length bs))"
    using c_string_strlen [OF n] c_string_bytes(5) [OF n] by (simp add: fdt_setprop_def)
  show ?thesis
  proof (cases "e = 0")
    case False
    with p show ?thesis by (simp add: eq fdt_setprop_namelen_def)
  next
    case True
    then have e1: "edits m m1 fdt" using p(3) by (simp add: rw_result_def)
    have q: "fdt + 40 \<le> q" "q + tag_size (int (length bs)) \<le> fdt + rw_end m1 fdt" using p(4) True by simp_all
    obtain m' where m': "memcpy m1 q val (length bs) = Some (q, m')" "edits m m' fdt"
      by (rule rw_fill [OF e1 bs q])
    have "nat (to_u32 (int (length bs))) = length bs" using len by (simp add: to_u32_id)
    then show ?thesis
      unfolding eq fdt_setprop_namelen_def p(1)
      using True m' e1 by (cases "bs = []") (simp_all add: rw_result_def)
  qed
qed

lemma appendprop_spec:
  assumes r: "rw_ok m fdt" and off: "node \<le> INT32_MAX" and n: "c_string m name nm"
    and ap: "apart m fdt name (int (length nm) + 1)"
    and len: "int (length bs) + h_totalsize m fdt \<le> 2147483600"
    and bs: "bytes_at m val bs" "apart m fdt val (int (length bs))"
  shows "\<exists>r m'. fdt_appendprop m fdt node name val (int (length bs)) = Some (r, m') \<and> r \<le> 0 \<and> rw_result m m' fdt r"
proof (rule rw_probe_cases [OF r])
  assume "fdt_rw_probe m fdt = Some (- FDT_ERR_BADLAYOUT, m)"
  then show ?thesis by (simp add: fdt_appendprop_def rw_result_refl [OF r])
next
  assume p: "fdt_rw_probe m fdt = Some (0, m)"
  define k where "k = int (length bs)"
  have k: "0 \<le> k" "k \<le> 2147483600" "nat (to_u32 k) = length bs"
    using len rw_end_bounds [OF r] by (simp_all add: k_def to_u32_id)
  have nl: "strlen m name = Some (int (length nm))" "to_s32 (int (length nm)) = int (length nm)"
    using c_string_strlen [OF n] c_string_bytes(5) [OF n] by simp_all
  show ?thesis
  proof (rule get_property_spec [OF r off n])
    fix err assume g: "fdt_get_property_namelen m fdt node name (int (length nm)) = Some (0, err)"
    from add_property_spec [OF r off n ap k(1,2)] obtain e q m1 where
      a: "fdt_add_property m fdt node name (int (length nm)) k = Some (e, q, m1)" "e \<le> 0"
        "rw_result m m1 fdt e" "e = 0 \<longrightarrow> fdt + 40 \<le> q \<and> q + 12 + tag_size k \<le> fdt + rw_end m1 fdt" by blast
    show ?thesis
    proof (cases "e = 0")
      case False
      with a g p show ?thesis by (simp add: fdt_appendprop_def fdt_get_property_def nl k_def)
    next
      case True
      then have e1: "edits m m1 fdt" using a(3) by (simp add: rw_result_def)
      have q: "fdt + 40 \<le> q + 12" "q + 12 + tag_size (int (length bs)) \<le> fdt + rw_end m1 fdt"
        using a(4) True by (simp_all add: k_def)
      obtain m' where m': "memcpy m1 (q + 12) val (length bs) = Some (q + 12, m')" "edits m m' fdt"
        by (rule rw_fill [OF e1 bs q])
      show ?thesis
        using a(1) True m' g p k(3)
        by (simp add: fdt_appendprop_def fdt_get_property_def nl rw_result_def k_def)
    qed
  next
    fix pr ps e
    assume g: "fdt_get_property_namelen m fdt node name (int (length nm)) =
        Some (prop_addr m fdt pr, sfield m fdt (pr + 4))"
      "prop_at m fdt pr" "4 \<le> pr" "prop_addr m fdt pr \<noteq> 0"
    note rg = rw_prop_range [OF r g(2,3)]
    define a l where "a = prop_addr m fdt pr" and "l = sfield m fdt (pr + 4)"
    have l: "0 \<le> k + l" "k + l \<le> 2147483640" "to_s32 (k + l) = k + l" "0 \<le> l"
      using rg(1,3) g(3) len k rw_bounds [OF r] by (simp_all add: a_def l_def k_def to_s32_id)
    have eq: "fdt_appendprop m fdt node name val k = do {
        (err, m1) \<leftarrow> fdt_splice_struct m fdt (a + 12) (tag_size l) (tag_size (k + l));
        if err \<noteq> 0 then Some (err, m1) else do {
          m2 \<leftarrow> fdt32_set m1 (a + 4) (k + l);
          (_, m3) \<leftarrow> memcpy m2 (a + 12 + l) val (length bs); Some (0, m3) } }"
      using p g(1,4) rg(1,2) l k(3)
      by (simp add: fdt_appendprop_def fdt_get_property_def nl tagalign_size Let_def a_def l_def cong: if_cong)
    show ?thesis
    proof (rule resize_at [OF r g(2,3) l(1,2), folded a_def l_def])
      fix e' assume "fdt_splice_struct m fdt (a + 12) (tag_size l) (tag_size (k + l)) = Some (e', m)" "e' < 0"
      then show ?thesis using eq by (simp add: rw_result_refl [OF r] k_def)
    next
      fix m1 m2
      assume m2: "fdt_splice_struct m fdt (a + 12) (tag_size l) (tag_size (k + l)) = Some (0, m1)"
        "fdt32_set m1 (a + 4) (k + l) = Some m2" "edits m m2 fdt" "a + 12 + tag_size (k + l) \<le> fdt + rw_end m2 fdt"
      have r2: "rw_ok m2 fdt" using m2(3) by (simp add: edits_def)
      have top: "a + 12 + l + int (length bs) \<le> fdt + h_totalsize m2 fdt"
        using m2(4) tag_size_bounds(1) [of "k + l"] rw_end_bounds(2) [OF r2] by (simp add: k_def)
      have low: "fdt + 40 \<le> a + 12 + l" using rg(6) l(4) by (simp add: a_def)
      then have low': "fdt \<le> a + 12 + l" by simp
      obtain m' where m': "memcpy m2 (a + 12 + l) val (length bs) = Some (a + 12 + l, m')"
        "writes_only m2 m' (a + 12 + l) (int (length bs))"
        by (rule rw_copy [OF r2 edits_frame(1) [OF m2(3) bs] edits_frame(3) [OF m2(3) bs(2)] low' top])
      have "edits m m' fdt" by (rule edits_trans [OF m2(3) rw_body(1) [OF r2 m'(2) low top]])
      then show ?thesis using eq m2(1,2) m'(1) by (simp add: rw_result_def k_def)
    qed
  qed
qed

lemma delprop_spec:
  assumes r: "rw_ok m fdt" and off: "node \<le> INT32_MAX" and n: "c_string m name nm"
  shows "\<exists>r m'. fdt_delprop m fdt node name = Some (r, m') \<and> r \<le> 0 \<and> rw_result m m' fdt r"
proof (rule rw_probe_cases [OF r])
  assume "fdt_rw_probe m fdt = Some (- FDT_ERR_BADLAYOUT, m)"
  then show ?thesis by (simp add: fdt_delprop_def rw_result_refl [OF r])
next
  assume p: "fdt_rw_probe m fdt = Some (0, m)"
  have nl: "strlen m name = Some (int (length nm))" "to_s32 (int (length nm)) = int (length nm)"
    using c_string_strlen [OF n] c_string_bytes(5) [OF n] by simp_all
  show ?thesis
  proof (rule get_property_spec [OF r off n])
    fix err assume "fdt_get_property_namelen m fdt node name (int (length nm)) = Some (0, err)" "err < 0"
    then show ?thesis using p by (simp add: fdt_delprop_def fdt_get_property_def nl rw_result_refl [OF r])
  next
    fix pr ps e
    assume g: "fdt_get_property_namelen m fdt node name (int (length nm)) =
        Some (prop_addr m fdt pr, sfield m fdt (pr + 4))"
      "prop_at m fdt pr" "4 \<le> pr" "prop_addr m fdt pr \<noteq> 0"
    note rg = rw_prop_range [OF r g(2,3)] and b = rw_bounds [OF r]
    define l where "l = sfield m fdt (pr + 4)"
    have t: "0 \<le> 12 + tag_size l" "to_s32 (12 + tag_size l) = 12 + tag_size l"
      using rg(1,5) b tag_size_nonneg [OF rg(1)] by (simp_all add: l_def to_s32_id)
    have eq: "fdt_delprop m fdt node name = fdt_splice_struct m fdt (prop_addr m fdt pr) (12 + tag_size l) 0"
      using p g(1,4) rg(1,2) t(2) by (simp add: fdt_delprop_def fdt_get_property_def nl tagalign_size l_def)
    have u: "prop_addr m fdt pr - fdt \<le> UINT32_MAX" using rg(8) by simp
    have z: "0 \<le> (0::int)" "0 \<le> INT32_MAX" by simp_all
    from splice_struct_spec [OF r rg(6) u t(1) rg(5) [folded l_def] z] show ?thesis
      by (auto simp: eq edits_refl [OF r] rw_result_def struct_spliced_def)
  qed
qed

section \<open>Nodes\<close>

lemma set_name_spec:
  assumes r: "rw_ok m fdt" and off: "node \<le> INT32_MAX" and n: "c_string m name nm"
    and ap: "apart m fdt name (int (length nm) + 1)" and len: "int (length nm) \<le> 2147483600"
  shows "\<exists>r m'. fdt_set_name m fdt node name = Some (r, m') \<and> r \<le> 0 \<and> rw_result m m' fdt r"
proof (rule rw_probe_cases [OF r])
  assume "fdt_rw_probe m fdt = Some (- FDT_ERR_BADLAYOUT, m)"
  then show ?thesis by (simp add: fdt_set_name_def rw_result_refl [OF r])
next
  assume p: "fdt_rw_probe m fdt = Some (0, m)"
  note b = rw_bounds [OF r] and bl = rw_blob [OF r]
  have nl: "strlen m name = Some (int (length nm))" "to_s32 (int (length nm)) = int (length nm)"
    using c_string_strlen [OF n] c_string_bytes(5) [OF n] by simp_all
  have v: "16 \<le> h_version m fdt" using b by simp
  from fdt_get_name_spec [OF bl off v] obtain q k where
    q: "fdt_get_name m fdt node = Some (q, k)"
    "q = 0 \<and> k < 0 \<or> (\<exists>s. q \<noteq> 0 \<and> string_in m fdt q s \<and> k = int (length s) \<and>
       q = fdt + h_off_struct m fdt + node + 4 \<and> node_at m fdt node)" by blast
  from q(2) show ?thesis
  proof (elim disjE exE conjE)
    assume "q = 0" "k < 0"
    then show ?thesis using p q(1) by (simp add: fdt_set_name_def rw_result_refl [OF r])
  next
    fix s assume s: "q \<noteq> 0" "string_in m fdt q s" "k = int (length s)"
       "q = fdt + h_off_struct m fdt + node + 4" "node_at m fdt node"
    from s(5) obtain nx where t: "tag_at m fdt node FDT_BEGIN_NODE nx" by (auto simp: node_at_def)
    then obtain e where e: "tag_end m fdt node FDT_BEGIN_NODE e" "struct_fits m fdt node (e - node)"
      by (auto simp: tag_at_def)
    then obtain s' where s': "cstr_at m q s'" "e = node + 5 + int (length s')"
      by (auto simp: tag_end_def s(4))
    have "s' = s" using s(2) s'(1) cstr_at_unique by (auto simp: string_in_def)
    then have fit: "node + 5 + k \<le> h_size_struct m fdt" "0 \<le> node" "0 \<le> k"
      using e(2) s'(2) b tag_at_bounds(1) [OF bl t] by (simp_all add: struct_fits_def s(3))
    define L where "L = int (length nm) + 1"
    have L: "0 \<le> L" "L \<le> 2147483601" "nat (to_u32 L) = length (nm @ [0])" "int (length (nm @ [0])) = L"
      using len by (simp_all add: L_def to_u32_id)
    have ta: "fdt_tagalign (k + 1) = tag_size (k + 1)" "fdt_tagalign L = tag_size L"
      using fit L b by (simp_all add: tagalign_size)
    have pos: "0 \<le> k + 1" using fit by simp
    have old: "tag_size (k + 1) \<le> h_size_struct m fdt" "0 \<le> tag_size (k + 1)"
      using fit tag_size_bounds(2) [of "k + 1"] tag_size_nonneg [OF pos] by linarith+
    have new: "0 \<le> tag_size L" "tag_size L \<le> INT32_MAX"
      using L tag_size_bounds(2) [of L] tag_size_nonneg [OF L(1)] by linarith+
    have low: "fdt + 40 \<le> q" "q - fdt \<le> UINT32_MAX" using b fit by (simp_all add: s(4))
    have eq: "fdt_set_name m fdt node name = do {
        (err, m1) \<leftarrow> fdt_splice_struct m fdt q (tag_size (k + 1)) (tag_size L);
        if err \<noteq> 0 then Some (err, m1) else do { (_, m2) \<leftarrow> memcpy m1 q name (length (nm @ [0])); Some (0, m2) } }"
      using p q(1) s(1) nl L(3) by (simp add: fdt_set_name_def ta Let_def L_def [symmetric] cong: if_cong)
    from splice_struct_spec [OF r low old(2,1) new] consider
      e' where "fdt_splice_struct m fdt q (tag_size (k + 1)) (tag_size L) = Some (e', m)" "e' < 0" |
      m1 where "fdt_splice_struct m fdt q (tag_size (k + 1)) (tag_size L) = Some (0, m1)"
        "struct_spliced m m1 fdt q (tag_size (k + 1)) (tag_size L)" "q + tag_size (k + 1) \<le> fdt + rw_end m fdt"
      by force
    then show ?thesis
    proof cases
      case (1 e')
      then show ?thesis by (simp add: eq rw_result_refl [OF r])
    next
      case (2 m1)
      from 2(2) have sp: "edits m m1 fdt" "same_but {12, 36} m m1 fdt"
        "h_off_strings m1 fdt = h_off_strings m fdt + tag_size L - tag_size (k + 1)"
        by (simp_all add: struct_spliced_def)
      have "h_size_strings m1 fdt = h_size_strings m fdt" using same_butD [OF sp(2)] by simp
      then have top: "q + tag_size (int (length (nm @ [0]))) \<le> fdt + rw_end m1 fdt"
        using 2(3) unfolding L(4) by (simp add: rw_end_def sp(3))
      have ap': "apart m fdt name (int (length (nm @ [0])))" using ap by (simp add: add.commute)
      obtain m' where "memcpy m1 q name (length (nm @ [0])) = Some (q, m')" "edits m m' fdt"
        by (rule rw_fill [OF sp(1) c_string_bytes(7) [OF n] ap' low(1) top])
      then show ?thesis using 2(1) by (simp add: eq rw_result_def)
    qed
  qed
qed

text \<open>The search for a subnode, on arbitrary contents.\<close>

lemma memchr_total: "mapped m s (int n) \<Longrightarrow> \<exists>r. memchr m s c n = Some r"
proof (induction n arbitrary: s)
  case (Suc n)
  have "mapped m (s + 1) (int n)" using Suc.prems by (rule mapped_sub) auto
  with Suc.IH [OF this] mappedD [OF Suc.prems, of s] show ?case by (auto simp: load8_def)
qed simp

lemma nodename_eq_total:
  assumes b: "blob m fdt" and off: "off \<le> INT32_MAX" and v: "16 \<le> h_version m fdt"
    and n: "mapped m s len" "0 \<le> len" "len \<le> INT32_MAX"
  shows "\<exists>x. fdt_nodename_eq m fdt off s len = Some x"
proof -
  from fdt_get_name_spec [OF b off v] obtain p k where
    p: "fdt_get_name m fdt off = Some (p, k)"
    "p = 0 \<and> k < 0 \<or> (\<exists>t. p \<noteq> 0 \<and> string_in m fdt p t \<and> k = int (length t))" by blast
  show ?thesis
  proof (cases "p = 0 \<or> k < len")
    case True
    then show ?thesis by (intro exI [of _ False]) (simp add: fdt_nodename_eq_def p(1))
  next
    case False
    with p(2) obtain t where t: "string_in m fdt p t" "k = int (length t)" by auto
    have mp: "mapped m p (len + 1)"
      using t False by (intro blob_mapped_tail [OF b]) (auto simp: string_in_def)
    then have "mapped m p (int (nat len))" "mapped m s (int (nat len))"
      using n by (auto intro: mapped_sub)
    then obtain c where c: "memcmp m p s (nat len) = Some c" using memcmp_total by blast
    obtain y where y: "m (p + len) = Some y" using mappedD [OF mp, of "p + len"] n by auto
    obtain w where w: "memchr m s 64 (nat len) = Some w"
      using memchr_total [of m s "nat len"] n by auto
    have u: "to_u32 len = len" using n by (simp add: to_u32_id)
    show ?thesis using False p(1) c y w
      by (cases "c = 0"; cases "y = 0") (auto simp: fdt_nodename_eq_def u load8_def)
  qed
qed

lemma subnode_loop_total:
  assumes b: "blob m fdt" and v: "16 \<le> h_version m fdt"
    and n: "mapped m s len" "0 \<le> len" "len \<le> INT32_MAX"
  shows "off \<le> INT32_MAX \<Longrightarrow> \<exists>r. fdt_subnode_offset_loop m fdt off depth s len = Some r \<and> r \<le> INT32_MAX"
proof (induction "nat (INT32_MAX - off)" arbitrary: off depth rule: less_induct)
  case less
  show ?case
  proof (cases "off \<ge> 0 \<and> depth \<ge> 0")
    case False
    then show ?thesis using less.prems by (subst fdt_subnode_offset_loop.simps) auto
  next
    case True
    obtain hit where hit: "(if depth = 1 then fdt_nodename_eq m fdt off s len else Some False) = Some hit"
      using nodename_eq_total [OF b less.prems v n] by (cases "depth = 1") auto
    from fdt_next_node_spec [OF b less.prems, of "Some depth"] obtain r d where
      r: "fdt_next_node m fdt off (Some depth) = Some (r, Some d)"
        "node_result m fdt (max 0 (off + 1)) r (Some d)" by auto
    have "\<exists>x. fdt_subnode_offset_loop m fdt r d s len = Some x \<and> x \<le> INT32_MAX"
    proof (cases "r < 0")
      case True
      then show ?thesis by (subst fdt_subnode_offset_loop.simps) auto
    next
      case False
      with r(2) have "off < r" "r \<le> INT32_MAX" by (auto simp: node_result_def)
      then show ?thesis using True by (intro less.hyps) auto
    qed
    then show ?thesis using True hit r(1) less.prems
      by (subst fdt_subnode_offset_loop.simps) auto
  qed
qed

lemma skip_properties_spec:
  assumes b: "blob m fdt"
  shows "0 \<le> off \<Longrightarrow> off \<le> INT32_MAX \<Longrightarrow>
    \<exists>r. skip_properties m fdt off = Some r \<and> off \<le> r \<and> r \<le> INT32_MAX"
proof (induction "nat (INT32_MAX - off)" arbitrary: off rule: less_induct)
  case less
  show ?case
  proof (rule fdt_next_tag_cases [OF b less.prems(2)])
    fix nx assume "fdt_next_tag m fdt off = Some (FDT_END, nx)"
    then show ?thesis using less.prems by (subst skip_properties.simps) (auto simp: Let_def)
  next
    fix tag nx assume good: "fdt_next_tag m fdt off = Some (tag, nx)" "tag_at m fdt off tag nx"
    note tb = tag_at_bounds [OF b good(2)]
    show ?thesis
    proof (cases "tag = FDT_PROP \<or> tag = FDT_NOP")
      case False
      with good(1) less.prems show ?thesis by (subst skip_properties.simps) (auto simp: Let_def)
    next
      case True
      with good(1) have eq: "skip_properties m fdt off = skip_properties m fdt nx"
        by (subst skip_properties.simps) (auto simp: Let_def)
      have "\<exists>r. skip_properties m fdt nx = Some r \<and> nx \<le> r \<and> r \<le> INT32_MAX"
        using tb less.prems by (intro less.hyps) auto
      with eq tb(2) show ?thesis by auto
    qed
  qed
qed

lemma subnode_offset_total:
  assumes r: "rw_ok m fdt" and n: "bytes_at m name nm" "int (length nm) \<le> INT32_MAX" and off: "off \<le> INT32_MAX"
  shows "\<exists>x. fdt_subnode_offset_namelen m fdt off name (int (length nm)) = Some x \<and> x \<le> INT32_MAX"
proof -
  have "16 \<le> h_version m fdt" using rw_bounds(10) [OF r] by simp
  from subnode_loop_total [OF rw_blob [OF r] this bytes_at_mapped [OF n(1)] _ n(2) off, of 0]
  show ?thesis using rw_bounds [OF r] rw_end_bounds [OF r]
    by (simp add: fdt_subnode_offset_namelen_def rw_ro_probe [OF r])
qed

text \<open>The cells of a new, empty node: its tag, its padded name and its end tag.\<close>

lemma place_node:
  assumes r: "rw_ok m fdt" and nx: "0 \<le> nx" "nx \<le> INT32_MAX"
    and n: "bytes_at m name nm" "apart m fdt name (int (length nm))" "int (length nm) \<le> 2147483600"
  defines "a \<equiv> prop_addr m fdt nx" and "g \<equiv> tag_size (int (length nm) + 1)"
  obtains (refused) e where "fdt_splice_struct m fdt a 0 (8 + g) = Some (e, m)" "e < 0"
    | (placed) m1 m2 m3 m4 m' where "fdt_splice_struct m fdt a 0 (8 + g) = Some (0, m1)"
        "struct_spliced m m1 fdt a 0 (8 + g)" "fdt32_set m1 a FDT_BEGIN_NODE = Some m2"
        "memset m2 (a + 4) 0 (nat g) = Some (a + 4, m3)" "memcpy m3 (a + 4) name (length nm) = Some (a + 4, m4)"
        "fdt32_set m4 (a + 4 + g) FDT_END_NODE = Some m'" "edits m m' fdt" "writes_only m1 m' a (8 + g)"
        "fdt32_ld m' a = Some FDT_BEGIN_NODE" "bytes_at m' (a + 4) nm" "m' (a + 4 + int (length nm)) = Some 0"
        "fdt32_ld m' (a + 4 + g) = Some FDT_END_NODE"
proof -
  note b = rw_bounds [OF r] and e = rw_end_bounds [OF r]
  define k where "k = int (length nm)"
  have gb: "k + 1 \<le> g" "g \<le> 2147483604" using tag_size_bounds(1,2) [of "k + 1"] n(3) by (simp_all add: g_def k_def)
  have k: "0 \<le> k" by (simp add: k_def)
  have low: "fdt + 40 \<le> a" using b nx by (simp add: a_def)
  have u: "a - fdt \<le> UINT32_MAX" using b nx by (simp add: a_def)
  have ts: "0 \<le> 8 + g" "8 + g \<le> INT32_MAX" using gb k by simp_all
  have z: "0 \<le> (0::int)" by simp
  from splice_struct_spec [OF r low u z b(4) ts] consider
    e where "fdt_splice_struct m fdt a 0 (8 + g) = Some (e, m)" "e < 0" |
    m1 where "fdt_splice_struct m fdt a 0 (8 + g) = Some (0, m1)" "struct_spliced m m1 fdt a 0 (8 + g)"
      "a \<le> fdt + rw_end m fdt" "rw_end m fdt + 8 + g \<le> h_totalsize m fdt" by force
  then show thesis
  proof cases
    case 1
    then show thesis by (rule refused)
  next
    case (2 m1)
    from 2(2) have s: "edits m m1 fdt" "same_but {12, 36} m m1 fdt" by (simp_all add: struct_spliced_def)
    then have r1: "rw_ok m1 fdt" and t1: "h_totalsize m1 fdt = h_totalsize m fdt"
      using same_butD [OF s(2), of 4] by (simp_all add: edits_def)
    have top: "a + 8 + g \<le> fdt + h_totalsize m1 fdt" using 2(3,4) t1 by simp
    have mp: "mapped m1 a (8 + g)" by (rule mapped_sub [OF rw_mapped [OF r1]]) (use low top in simp_all)
    have "mapped m1 a 4" by (rule mapped_sub [OF mp]) (use gb k in simp_all)
    then obtain m2 where m2: "fdt32_set m1 a FDT_BEGIN_NODE = Some m2" "writes_only m1 m2 a 4"
      "fdt32_ld m2 a = Some (to_u32 FDT_BEGIN_NODE)" by (rule fdt32_set_ok)
    have "mapped m2 (a + 4) (int (nat g))"
      by (rule mapped_sub [OF writes_only_mapped [OF m2(2) mp]]) (use gb k in simp_all)
    from memset_spec [OF this, of 0] obtain m3 where
      m3: "memset m2 (a + 4) 0 (nat g) = Some (a + 4, m3)" "writes_only m2 m3 (a + 4) g"
        "bytes_at m3 (a + 4) (replicate (nat g) 0)" using gb k by auto
    have w3: "writes_only m1 m3 a (8 + g)"
      using writes_only_mono [OF m2(2), of a "8 + g"] writes_only_mono [OF m3(2), of a "8 + g"] gb k
      by (auto intro: writes_only_trans)
    note bd3 = rw_body [OF r1 w3 low] and top' = top [unfolded add.assoc]
    have e3: "edits m m3 fdt" by (rule edits_trans [OF s(1) bd3(1)]) (use top in simp)
    have r3: "rw_ok m3 fdt" using e3 by (simp add: edits_def)
    have t3: "h_totalsize m3 fdt = h_totalsize m1 fdt" using bd3(4) [of 4] top by simp
    have lo4: "fdt \<le> a + 4" "a + 4 + int (length nm) \<le> fdt + h_totalsize m3 fdt"
      using low top gb t3 by (simp_all add: k_def)
    obtain m4 where m4: "memcpy m3 (a + 4) name (length nm) = Some (a + 4, m4)" "bytes_at m4 (a + 4) nm"
      "writes_only m3 m4 (a + 4) k"
      using rw_copy [OF r3 edits_frame(1) [OF e3 n(1,2)] edits_frame(3) [OF e3 n(2)] lo4] unfolding k_def by metis
    have w4: "writes_only m1 m4 a (8 + g)"
      using writes_only_mono [OF m4(3), of a "8 + g"] w3 gb k by (auto intro: writes_only_trans)
    have "mapped m4 (a + 4 + g) 4"
      by (rule mapped_sub [OF writes_only_mapped [OF w4 mp]]) (use gb k in simp_all)
    then obtain m' where m': "fdt32_set m4 (a + 4 + g) FDT_END_NODE = Some m'" "writes_only m4 m' (a + 4 + g) 4"
      "fdt32_ld m' (a + 4 + g) = Some (to_u32 FDT_END_NODE)" by (rule fdt32_set_ok)
    have w: "writes_only m1 m' a (8 + g)"
      using writes_only_mono [OF m'(2), of a "8 + g"] w4 gb k by (auto intro: writes_only_trans)
    have "edits m m' fdt" by (rule edits_trans [OF s(1) rw_body(1) [OF r1 w low]]) (use top in simp)
    moreover have "fdt32_ld m' a = Some FDT_BEGIN_NODE"
      using m2(3) fdt32_ld_frame [OF m3(2), of a] fdt32_ld_frame [OF m4(3), of a] fdt32_ld_frame [OF m'(2), of a] gb k
      by (simp add: to_u32_id)
    moreover have "bytes_at m' (a + 4) nm" using bytes_at_frame [OF m'(2), of "a + 4" nm] m4(2) gb by (simp add: k_def)
    moreover have "m' (a + 4 + k) = Some 0"
    proof -
      have "m3 (a + 4 + k) = Some 0"
        using m3(3) [unfolded bytes_at_iff, rule_format, of "length nm"] gb by (simp add: k_def)
      then show ?thesis
        using writes_only_same [OF m4(3), of "a + 4 + k"] writes_only_same [OF m'(2), of "a + 4 + k"] gb by simp
    qed
    moreover have "fdt32_ld m' (a + 4 + g) = Some FDT_END_NODE" using m'(3) by (simp add: to_u32_id)
    ultimately show thesis
      using placed 2(1,2) m2(1) m3(1) m4(1) m'(1) w by (simp add: k_def)
  qed
qed

text \<open>An attempt to add a subnode is refused, or goes on behind the properties of the parent.\<close>

lemma add_subnode_cases:
  assumes r: "rw_ok m fdt" and off: "node \<le> INT32_MAX" and n: "c_string m name nm" and len: "int (length nm) \<le> 2147483600"
  defines "g \<equiv> tag_size (int (length nm) + 1)"
  obtains (refused) e where "fdt_add_subnode m fdt node name = Some (e, m)" "e < 0"
    | (go) nx p where "fdt_next_tag m fdt node = Some (FDT_BEGIN_NODE, nx)" "tag_at m fdt node FDT_BEGIN_NODE nx"
        "skip_properties m fdt nx = Some p" "nx \<le> p" "p \<le> INT32_MAX"
        "fdt_add_subnode m fdt node name = (let nh = prop_addr m fdt p in do {
            (err, m1) \<leftarrow> fdt_splice_struct m fdt nh 0 (8 + g);
            if err \<noteq> 0 then Some (err, m1) else do {
            m2 \<leftarrow> fdt32_set m1 nh FDT_BEGIN_NODE;
            (_, m3) \<leftarrow> memset m2 (nh + 4) 0 (nat g);
            (_, m4) \<leftarrow> memcpy m3 (nh + 4) name (length nm);
            m5 \<leftarrow> fdt32_set m4 (nh + 4 + g) FDT_END_NODE;
            Some (p, m5) } })"
proof (rule rw_probe_cases [OF r])
  define k where "k = int (length nm)"
  have k: "0 \<le> k" "k \<le> 2147483600" using len by (simp_all add: k_def)
  have nl: "strlen m name = Some k" "to_s32 k = k"
    using c_string_strlen [OF n] c_string_bytes(5) [OF n] by (simp_all add: k_def)
  note nb = c_string_bytes [OF n] and bl = rw_blob [OF r]
  note eq = fdt_add_subnode_def fdt_add_subnode_namelen_def nl
  {
    assume "fdt_rw_probe m fdt = Some (- FDT_ERR_BADLAYOUT, m)"
    then show thesis using refused by (simp add: eq)
  }
  assume p: "fdt_rw_probe m fdt = Some (0, m)"
  have g: "fdt_tagalign (k + 1) = g" "k + 1 \<le> g" "g \<le> k + 4"
    using k tag_size_bounds(1,2) [of "k + 1"] by (simp_all add: g_def k_def tagalign_size)
  have u: "nat (to_u32 g) = nat g" "nat (to_u32 k) = length nm" "to_s32 (8 + g) = 8 + g"
    using g k by (simp_all add: to_u32_id to_s32_id k_def)
  have l: "int (length nm) \<le> INT32_MAX" using len by simp
  from subnode_offset_total [OF r nb(1) l off] obtain x where
    x: "fdt_subnode_offset_namelen m fdt node name k = Some x" by (auto simp: k_def)
  show thesis
  proof (cases "x = - FDT_ERR_NOTFOUND")
    case False
    with x p refused show thesis by (cases "x \<ge> 0") (simp_all add: eq)
  next
    case True
    show thesis
    proof (rule fdt_next_tag_cases [OF bl off])
      fix nx assume "fdt_next_tag m fdt node = Some (FDT_END, nx)"
      with True x p refused show thesis by (simp add: eq)
    next
      fix tag nx assume t: "fdt_next_tag m fdt node = Some (tag, nx)" "tag_at m fdt node tag nx"
      have nx: "0 \<le> nx" "nx \<le> INT32_MAX" using tag_at_bounds [OF bl t(2)] by simp_all
      from skip_properties_spec [OF bl nx] obtain q where
        q: "skip_properties m fdt nx = Some q" "nx \<le> q" "q \<le> INT32_MAX" by blast
      have last: "fdt + (h_off_struct m fdt + (q + (8 + g))) - 4 = fdt + (h_off_struct m fdt + (q + (4 + g)))" by simp
      show thesis
      proof (cases "tag = FDT_BEGIN_NODE")
        case False
        with True x p t(1) refused show thesis by (simp add: eq)
      next
        case bn: True
        show thesis
          by (rule go [OF t [unfolded bn] q])
            (use True x p t(1) bn q(1) in \<open>simp add: eq g(1) u fdt_offset_ptr_raw_def rw_simps [OF r] Let_def
               add.assoc last cong: if_cong\<close>)
      qed
    qed
  qed
qed

lemma add_subnode_spec:
  assumes r: "rw_ok m fdt" and off: "node \<le> INT32_MAX" and n: "c_string m name nm"
    and ap: "apart m fdt name (int (length nm) + 1)" and len: "int (length nm) \<le> 2147483600"
  shows "\<exists>r m'. fdt_add_subnode m fdt node name = Some (r, m') \<and> rw_result m m' fdt r \<and> r \<le> INT32_MAX"
proof (rule add_subnode_cases [OF r off n len])
  fix e assume "fdt_add_subnode m fdt node name = Some (e, m)" "e < 0"
  then show ?thesis by (simp add: rw_result_refl [OF r])
next
  define g where "g = tag_size (int (length nm) + 1)"
  fix nx p
  assume t: "tag_at m fdt node FDT_BEGIN_NODE nx" "nx \<le> p" "p \<le> INT32_MAX"
    and eq: "fdt_add_subnode m fdt node name = (let nh = prop_addr m fdt p in do {
            (err, m1) \<leftarrow> fdt_splice_struct m fdt nh 0 (8 + tag_size (int (length nm) + 1));
            if err \<noteq> 0 then Some (err, m1) else do {
            m2 \<leftarrow> fdt32_set m1 nh FDT_BEGIN_NODE;
            (_, m3) \<leftarrow> memset m2 (nh + 4) 0 (nat (tag_size (int (length nm) + 1)));
            (_, m4) \<leftarrow> memcpy m3 (nh + 4) name (length nm);
            m5 \<leftarrow> fdt32_set m4 (nh + 4 + tag_size (int (length nm) + 1)) FDT_END_NODE;
            Some (p, m5) } })"
  have p0: "0 \<le> p" using tag_at_bounds [OF rw_blob [OF r] t(1)] t(2) by simp
  have ap': "apart m fdt name (int (length nm))" using ap by auto
  show ?thesis
    by (rule place_node [OF r p0 t(3) c_string_bytes(1) [OF n] ap' len])
      (use p0 t(3) in \<open>simp_all add: eq Let_def edits_refl [OF r] rw_result_def same_tree_refl\<close>)
qed

lemma del_node_spec:
  assumes r: "rw_ok m fdt" and off: "node \<le> INT32_MAX"
  shows "\<exists>r m'. fdt_del_node m fdt node = Some (r, m') \<and> rw_result m m' fdt r"
proof (rule rw_probe_cases [OF r])
  assume "fdt_rw_probe m fdt = Some (- FDT_ERR_BADLAYOUT, m)"
  then show ?thesis by (simp add: fdt_del_node_def rw_result_refl [OF r])
next
  assume p: "fdt_rw_probe m fdt = Some (0, m)"
  note b = rw_bounds [OF r]
  obtain e where e: "fdt_node_end_offset m fdt node = Some e"
    "e < 0 \<or> 0 \<le> node \<and> node < e \<and> struct_fits m fdt e 0"
  proof (cases "0 \<le> node")
    case True
    with fdt_node_end_loop_spec [OF rw_blob [OF r] off True, of 0] that show thesis
      by (auto simp: fdt_node_end_offset_def)
  next
    case False
    with that [of node] show thesis
      by (simp add: fdt_node_end_offset_def fdt_node_end_loop.simps [of m fdt node 0])
  qed
  show ?thesis
  proof (cases "e < 0")
    case True
    with p e(1) show ?thesis by (simp add: fdt_del_node_def rw_result_refl [OF r])
  next
    case False
    with e(2) have f: "0 \<le> node" "node < e" "e \<le> h_size_struct m fdt" using b by (auto simp: struct_fits_def)
    have q: "fdt + 40 \<le> prop_addr m fdt node" "prop_addr m fdt node - fdt \<le> UINT32_MAX" "0 \<le> e - node"
      "e - node \<le> h_size_struct m fdt" "0 \<le> (0::int)" "0 \<le> INT32_MAX" using f b by simp_all
    have eq: "fdt_del_node m fdt node = fdt_splice_struct m fdt (prop_addr m fdt node) (e - node) 0"
      using p e(1) False by (simp add: fdt_del_node_def fdt_offset_ptr_raw_def rw_simps [OF r])
    from splice_struct_spec [OF r q] show ?thesis
      by (auto simp: eq edits_refl [OF r] rw_result_def struct_spliced_def)
  qed
qed

section \<open>The reserve map\<close>

lemma fdt_mem_rsv_ok:
  assumes r: "rw_ok m fdt" and i: "0 \<le> i" "h_off_rsvmap m fdt + 16 * i \<le> h_totalsize m fdt"
  shows "fdt_mem_rsv m fdt i = Some (if h_off_rsvmap m fdt + 16 * i + 16 \<le> h_totalsize m fdt
     then fdt + h_off_rsvmap m fdt + 16 * i else 0)"
proof -
  note b = rw_bounds [OF r] and e = rw_end_bounds [OF r]
  have u: "to_u32 (i * 16) = 16 * i" "to_u32 (h_off_rsvmap m fdt + 16 * i) = h_off_rsvmap m fdt + 16 * i"
    "to_u32 (h_totalsize m fdt - 16) = h_totalsize m fdt - 16"
    by (subst to_u32_id; use b e i in simp)+
  show ?thesis using i
    by (simp add: fdt_mem_rsv_def fdt_mem_rsv_raw_def rw_simps [OF r] u Let_def)
qed

text \<open>The map has \<open>n\<close> entries: the first one of size 0 is the one with index \<open>n\<close>.\<close>

definition rsv_size :: "mem \<Rightarrow> int \<Rightarrow> int \<Rightarrow> int" where
  "rsv_size m fdt i = the (fdt64_ld m (fdt + h_off_rsvmap m fdt + 16 * i + 8))"

definition rsv_entries :: "mem \<Rightarrow> int \<Rightarrow> int \<Rightarrow> bool" where
  "rsv_entries m fdt n \<longleftrightarrow> 0 \<le> n \<and> h_off_rsvmap m fdt + 16 * n + 16 \<le> h_totalsize m fdt \<and>
     rsv_size m fdt n = 0 \<and> (\<forall>i. 0 \<le> i \<and> i < n \<longrightarrow> rsv_size m fdt i \<noteq> 0)"

lemma num_mem_rsv_from_spec:
  assumes r: "rw_ok m fdt"
  shows "0 \<le> i \<Longrightarrow> h_off_rsvmap m fdt + 16 * i \<le> h_totalsize m fdt \<Longrightarrow> \<forall>j. 0 \<le> j \<and> j < i \<longrightarrow> rsv_size m fdt j \<noteq> 0 \<Longrightarrow>
    \<exists>n. fdt_num_mem_rsv_from m fdt i = Some n \<and> (n = - FDT_ERR_TRUNCATED \<or> rsv_entries m fdt n)"
proof (induction "nat (h_totalsize m fdt - 16 * i)" arbitrary: i rule: less_induct)
  case less
  note b = rw_bounds [OF r]
  define p where "p = fdt + h_off_rsvmap m fdt + 16 * i"
  show ?case
  proof (cases "h_off_rsvmap m fdt + 16 * i + 16 \<le> h_totalsize m fdt")
    case False
    then have "fdt_mem_rsv m fdt i = Some 0" using fdt_mem_rsv_ok [OF r less.prems(1,2)] by simp
    then show ?thesis by (subst fdt_num_mem_rsv_from.simps) simp
  next
    case True
    then have g: "fdt_mem_rsv m fdt i = Some p" using fdt_mem_rsv_ok [OF r less.prems(1,2)] by (simp add: p_def)
    have "mapped m (p + 8) 8"
      by (rule mapped_sub [OF rw_mapped [OF r]]) (use True less.prems(1) b in \<open>simp_all add: p_def\<close>)
    then obtain v where v: "fdt64_ld m (p + 8) = Some v" using fdt64_ld_mapped by blast
    then have sv: "rsv_size m fdt i = v" by (simp add: rsv_size_def p_def)
    have p0: "p \<noteq> 0" using b less.prems(1) by (simp add: p_def)
    show ?thesis
    proof (cases "v = 0")
      case True
      with g v p0 sv less.prems \<open>h_off_rsvmap m fdt + 16 * i + 16 \<le> h_totalsize m fdt\<close> show ?thesis
        by (subst fdt_num_mem_rsv_from.simps) (simp add: rsv_entries_def)
    next
      case False
      have s: "to_s32 (i + 1) = i + 1" using True less.prems(1) b by (simp add: to_s32_id)
      have eq: "fdt_num_mem_rsv_from m fdt i = fdt_num_mem_rsv_from m fdt (i + 1)"
        using g v p0 False by (subst fdt_num_mem_rsv_from.simps) (simp add: s)
      have "j < i \<or> j = i" if "j < i + 1" for j :: int using that by linarith
      then have all: "\<forall>j. 0 \<le> j \<and> j < i + 1 \<longrightarrow> rsv_size m fdt j \<noteq> 0"
        using less.prems(3) sv False by blast
      show ?thesis unfolding eq
        by (rule less.hyps) (use True less.prems(1) all b in \<open>simp_all add: algebra_simps\<close>)
    qed
  qed
qed

lemma num_mem_rsv_spec:
  assumes r: "rw_ok m fdt"
  obtains "fdt_num_mem_rsv m fdt = Some (- FDT_ERR_TRUNCATED)"
    | n where "fdt_num_mem_rsv m fdt = Some n" "rsv_entries m fdt n"
proof -
  note b = rw_bounds [OF r] and e = rw_end_bounds [OF r]
  have "h_off_rsvmap m fdt + 16 * 0 \<le> h_totalsize m fdt" using b by simp
  then obtain n where "fdt_num_mem_rsv_from m fdt 0 = Some n" "n = - FDT_ERR_TRUNCATED \<or> rsv_entries m fdt n"
    using num_mem_rsv_from_spec [OF r, of 0] by auto
  then show thesis using that e by (auto simp: fdt_num_mem_rsv_def rw_ro_probe [OF r])
qed

text \<open>
  \<open>rsv_spliced m m' fdt p old new\<close>: the reserve map and what follows were opened or closed at \<open>p\<close>.
\<close>

definition rsv_spliced :: "mem \<Rightarrow> mem \<Rightarrow> int \<Rightarrow> int \<Rightarrow> int \<Rightarrow> int \<Rightarrow> bool" where
  "rsv_spliced m m' fdt p old new \<longleftrightarrow> edits m m' fdt \<and> same_but {8, 12} m m' fdt \<and>
     h_off_struct m' fdt = h_off_struct m fdt + new - old \<and>
     h_off_strings m' fdt = h_off_strings m fdt + new - old \<and>
     (\<forall>a. fdt + 40 \<le> a \<and> a < p \<longrightarrow> m' a = m a) \<and>
     (\<forall>a. p + old \<le> a \<and> a < fdt + rw_end m fdt \<longrightarrow> m' (a - old + new) = m a)"

lemma splice_mem_rsv_spec:
  assumes r: "rw_ok m fdt" and p: "fdt + 40 \<le> p" "p - fdt \<le> UINT32_MAX"
    and k: "0 \<le> oldn" "oldn \<le> 1" "0 \<le> newn" "newn \<le> 1"
    and room: "h_off_rsvmap m fdt \<le> h_off_struct m fdt + 16 * newn - 16 * oldn"
  obtains (refused) e where "fdt_splice_mem_rsv m fdt p oldn newn = Some (e, m)" "e < 0"
    | (spliced) m' where "fdt_splice_mem_rsv m fdt p oldn newn = Some (0, m')"
        "rsv_spliced m m' fdt p (16 * oldn) (16 * newn)" "p + 16 * oldn \<le> fdt + rw_end m fdt"
        "rw_end m fdt + 16 * newn - 16 * oldn \<le> h_totalsize m fdt"
proof -
  note b = rw_bounds [OF r] and e = rw_end_bounds [OF r]
  define old new where "old = 16 * oldn" and "new = 16 * newn"
  define d where "d = new - old"
  have on: "0 \<le> old" "old \<le> INT32_MAX" "0 \<le> new" "new \<le> INT32_MAX" using k by (simp_all add: old_def new_def)
  have on': "oldn * 16 = old" "newn * 16 = new" "(newn - oldn) * 16 = d" by (simp_all add: old_def new_def d_def)
  have fp: "fdt \<le> p" using p by simp
  from splice_spec [OF r fp p(2) on] consider
    e where "fdt_splice m fdt p old new = Some (e, m)" "e < 0" |
    m1 where "p + old \<le> fdt + rw_end m fdt" "rw_end m fdt - old + new \<le> h_totalsize m fdt"
      "fdt_splice m fdt p old new = Some (0, m1)" "shifted m m1 p old new (fdt + rw_end m fdt)" by force
  then show thesis
  proof cases
    case (1 e)
    then show thesis using refused by (simp add: fdt_splice_mem_rsv_def on')
  next
    case (2 m1)
    from 2(4) have w: "writes_only m m1 (p + new) (fdt + rw_end m fdt - (p + old))"
      and mv: "\<And>a. p + old \<le> a \<Longrightarrow> a < fdt + rw_end m fdt \<Longrightarrow> m1 (a - old + new) = m a"
      by (simp_all add: shifted_def)
    have s1: "same_but {} m m1 fdt" by (rule rw_same_body [OF w]) (use p on 2(2) in simp_all)
    have hd: "hdr m1 fdt k = hdr m fdt k" if "k \<in> hdr_fields" for k using same_butD [OF s1 that] by simp
    have h1: "mapped m1 fdt 40" by (rule writes_only_mapped [OF w rw_ok_header [OF r]])
    define st os where "st = h_off_struct m fdt + d" and "os = h_off_strings m fdt + d"
    have so: "0 \<le> st" "st \<le> UINT32_MAX" "0 \<le> os" "os \<le> UINT32_MAX"
      "h_off_rsvmap m fdt \<le> st" "st + h_size_struct m fdt \<le> os" "os + h_size_strings m fdt \<le> h_totalsize m fdt"
      using b on 2(2) room unfolding st_def os_def d_def rw_end_def old_def new_def by linarith+
    have sd: "h_off_struct m fdt + (new - old) = st" "h_off_strings m fdt + (new - old) = os"
      by (simp_all add: st_def os_def d_def)
    have t1: "40 \<le> h_totalsize m1 fdt" using e by (simp add: hd)
    have ne: "(8::int) \<noteq> 12" "(8::int) \<noteq> 4" by simp_all
    obtain m2 m' where m2: "fdt32_set m1 (fdt + 8) st = Some m2" "hdr m2 fdt 12 = hdr m1 fdt 12"
      "mapped m2 fdt 40" "fdt32_set m2 (fdt + 12) os = Some m'" "hdr m' fdt 8 = st" "hdr m' fdt 12 = os"
      "same_but {8, 12} m1 m' fdt" "\<forall>a. fdt + 40 \<le> a \<longrightarrow> m' a = m1 a"
      by (rule rw_set_two [OF h1 t1 hdr_field(3) hdr_field(4) ne so(1-4)])
    have s: "same_but {8, 12} m m' fdt" using same_but_trans [OF s1 m2(7)] by simp
    have run: "fdt_splice_mem_rsv m fdt p oldn newn = Some (0, m')"
      using 2(3) m2(1,2,4) so
      by (simp add: fdt_splice_mem_rsv_def on' d_def header_fields [OF h1] header_fields [OF m2(3)] hd fdt_set_defs
          Let_def sd to_u32_id)
    have off: "h_size_struct m' fdt = h_size_struct m fdt" "h_size_strings m' fdt = h_size_strings m fdt"
      using same_butD [OF s] by simp_all
    have "edits m m' fdt"
      by (rule rw_ok_upd(2) [OF r s]) (use off m2(5,6) so b in simp_all)
    moreover have "m' a = m a" if "fdt + 40 \<le> a" "a < p" for a
      using writes_only_same [OF w, of a] m2(8) [rule_format, OF that(1)] that on by simp
    moreover have "m' (a - old + new) = m a" if "p + old \<le> a" "a < fdt + rw_end m fdt" for a
      using mv [OF that] m2(8) [rule_format, of "a - old + new"] that p on by simp
    ultimately have "rsv_spliced m m' fdt p old new"
      using s m2(5,6) by (simp add: rsv_spliced_def st_def os_def d_def)
    with run 2(1,2) show thesis using spliced by (simp add: old_def new_def)
  qed
qed

lemma add_mem_rsv_run:
  assumes r: "rw_ok m fdt" and en: "rsv_entries m fdt n"
    and v: "0 \<le> addr" "addr < 18446744073709551616" "0 \<le> sz" "sz < 18446744073709551616"
  defines "p \<equiv> fdt + h_off_rsvmap m fdt + 16 * n"
  obtains (refused) e where "do { (err, m) \<leftarrow> fdt_splice_mem_rsv m fdt p 0 1;
          if err \<noteq> 0 then Some (err, m) else do { m \<leftarrow> fdt64_set m p addr; m \<leftarrow> fdt64_set m (p + 8) sz; Some (0, m) } } =
        Some (e, m)" "e < 0"
    | (added) m1 m' where "do { (err, m) \<leftarrow> fdt_splice_mem_rsv m fdt p 0 1;
          if err \<noteq> 0 then Some (err, m) else do { m \<leftarrow> fdt64_set m p addr; m \<leftarrow> fdt64_set m (p + 8) sz; Some (0, m) } } =
        Some (0, m')" "rsv_spliced m m1 fdt p 0 16" "writes_only m1 m' p 16" "fdt64_ld m' p = Some addr"
        "fdt64_ld m' (p + 8) = Some sz" "edits m m' fdt" "same_but {8, 12} m m' fdt"
        "h_off_struct m' fdt = h_off_struct m fdt + 16" "h_off_strings m' fdt = h_off_strings m fdt + 16"
proof -
  note b = rw_bounds [OF r]
  have n: "0 \<le> n" "h_off_rsvmap m fdt + 16 * n + 16 \<le> h_totalsize m fdt" using en by (simp_all add: rsv_entries_def)
  have low: "fdt + 40 \<le> p" "p - fdt \<le> UINT32_MAX" using b n by (simp_all add: p_def)
  have k: "0 \<le> (0::int)" "0 \<le> (1::int)" "(0::int) \<le> 1" "(1::int) \<le> 1"
    "h_off_rsvmap m fdt \<le> h_off_struct m fdt + 16 * 1 - 16 * 0" using b by simp_all
  show thesis
  proof (rule splice_mem_rsv_spec [OF r low k(1,3,2,4,5)])
    fix e assume "fdt_splice_mem_rsv m fdt p 0 1 = Some (e, m)" "e < 0"
    then show thesis using refused by simp
  next
    fix m1
    assume m1: "fdt_splice_mem_rsv m fdt p 0 1 = Some (0, m1)" "rsv_spliced m m1 fdt p (16 * 0) (16 * 1)"
      "p + 16 * 0 \<le> fdt + rw_end m fdt" "rw_end m fdt + 16 * 1 - 16 * 0 \<le> h_totalsize m fdt"
    from m1(2) have s: "edits m m1 fdt" "same_but {8, 12} m m1 fdt"
      "h_off_struct m1 fdt = h_off_struct m fdt + 16" "h_off_strings m1 fdt = h_off_strings m fdt + 16"
      by (simp_all add: rsv_spliced_def)
    have r1: "rw_ok m1 fdt" using s(1) by (simp add: edits_def)
    have t1: "h_totalsize m1 fdt = h_totalsize m fdt" using same_butD [OF s(2)] by simp
    have top: "p + 16 \<le> fdt + h_totalsize m1 fdt" using m1(3,4) t1 by simp
    have mp: "mapped m1 p 16" by (rule mapped_sub [OF rw_mapped [OF r1]]) (use low top in simp_all)
    have "mapped m1 p 8" by (rule mapped_sub [OF mp]) simp_all
    then obtain m2 where m2: "fdt64_set m1 p addr = Some m2" "writes_only m1 m2 p 8" "fdt64_ld m2 p = Some addr"
      using v(1,2) by (rule fdt64_set_ok)
    have "mapped m2 (p + 8) 8" by (rule writes_only_mapped [OF m2(2)], rule mapped_sub [OF mp]) simp_all
    then obtain m' where m': "fdt64_set m2 (p + 8) sz = Some m'" "writes_only m2 m' (p + 8) 8"
      "fdt64_ld m' (p + 8) = Some sz" using v(3,4) by (rule fdt64_set_ok)
    have w: "writes_only m1 m' p 16"
      using writes_only_mono [OF m2(2), of p 16] writes_only_mono [OF m'(2), of p 16] by (auto intro: writes_only_trans)
    have "fdt64_ld m' p = Some addr"
      using m2(3) fdt32_ld_frame [OF m'(2), of p] fdt32_ld_frame [OF m'(2), of "p + 4"] by (simp add: fdt64_ld_def)
    moreover note bd = rw_body [OF r1 w low(1) top]
    moreover have "edits m m' fdt" by (rule edits_trans [OF s(1) bd(1)])
    moreover have "same_but {8, 12} m m' fdt" using same_but_trans [OF s(2) bd(2)] by simp
    ultimately show thesis
      using added [of m' m1] m1(1,2) m2(1) m'(1,3) w s(3,4) by simp
  qed
qed

lemma add_mem_rsv_spec:
  assumes r: "rw_ok m fdt"
    and v: "0 \<le> addr" "addr < 18446744073709551616" "0 \<le> sz" "sz < 18446744073709551616"
  shows "\<exists>r m'. fdt_add_mem_rsv m fdt addr sz = Some (r, m') \<and> r \<le> 0 \<and> rw_result m m' fdt r"
proof (rule rw_probe_cases [OF r])
  assume "fdt_rw_probe m fdt = Some (- FDT_ERR_BADLAYOUT, m)"
  then show ?thesis by (simp add: fdt_add_mem_rsv_def rw_result_refl [OF r])
next
  assume p: "fdt_rw_probe m fdt = Some (0, m)"
  show ?thesis
  proof (rule num_mem_rsv_spec [OF r])
    assume "fdt_num_mem_rsv m fdt = Some (- FDT_ERR_TRUNCATED)"
    with p show ?thesis by (simp add: fdt_add_mem_rsv_def rw_result_refl [OF r])
  next
    fix n assume n: "fdt_num_mem_rsv m fdt = Some n" "rsv_entries m fdt n"
    have "0 \<le> n" using n(2) by (simp add: rsv_entries_def)
    then have eq: "fdt_add_mem_rsv m fdt addr sz = (let p = fdt + h_off_rsvmap m fdt + 16 * n in
        do { (err, m) \<leftarrow> fdt_splice_mem_rsv m fdt p 0 1;
          if err \<noteq> 0 then Some (err, m) else do { m \<leftarrow> fdt64_set m p addr; m \<leftarrow> fdt64_set m (p + 8) sz; Some (0, m) } })"
      using p n(1) by (simp add: fdt_add_mem_rsv_def fdt_mem_rsv_raw_def rw_simps [OF r] Let_def)
    show ?thesis
      by (rule add_mem_rsv_run [OF r n(2) v]; unfold eq Let_def)
         (auto simp: rw_result_def edits_refl [OF r])
  qed
qed

lemma del_mem_rsv_spec:
  assumes r: "rw_ok m fdt" and i: "0 \<le> i"
  shows "\<exists>r m'. fdt_del_mem_rsv m fdt i = Some (r, m') \<and> r \<le> 0 \<and> rw_result m m' fdt r"
proof -
  note b = rw_bounds [OF r]
  note eq = fdt_del_mem_rsv_def fdt_mem_rsv_raw_def rw_simps [OF r]
  show ?thesis
  proof (cases "h_off_struct m fdt < h_off_rsvmap m fdt + 16")
    case True
    then show ?thesis by (simp add: eq rw_probe_ok [OF r] rw_result_refl [OF r])
  next
    case False
    then have p: "fdt_rw_probe m fdt = Some (0, m)" by (simp add: rw_probe_ok [OF r])
    show ?thesis
    proof (rule num_mem_rsv_spec [OF r])
      assume "fdt_num_mem_rsv m fdt = Some (- FDT_ERR_TRUNCATED)"
      with p show ?thesis by (simp add: eq rw_result_refl [OF r])
    next
      fix n assume n: "fdt_num_mem_rsv m fdt = Some n" "rsv_entries m fdt n"
      show ?thesis
      proof (cases "i \<ge> n")
        case True
        with p n i show ?thesis by (simp add: eq rw_result_refl [OF r] rsv_entries_def)
      next
        case lt: False
        have "h_off_rsvmap m fdt + 16 * n + 16 \<le> h_totalsize m fdt" "0 \<le> n" using n(2) by (simp_all add: rsv_entries_def)
        then have low: "fdt + 40 \<le> fdt + h_off_rsvmap m fdt + 16 * i" "fdt + h_off_rsvmap m fdt + 16 * i - fdt \<le> UINT32_MAX"
          using b i lt by simp_all
        have k: "0 \<le> (1::int)" "(1::int) \<le> 1" "0 \<le> (0::int)" "(0::int) \<le> 1"
          "h_off_rsvmap m fdt \<le> h_off_struct m fdt + 16 * 0 - 16 * 1" using False by simp_all
        have run: "fdt_del_mem_rsv m fdt i = fdt_splice_mem_rsv m fdt (fdt + h_off_rsvmap m fdt + 16 * i) 1 0"
          using p n(1) lt \<open>0 \<le> n\<close> by (simp add: eq)
        show ?thesis
          by (rule splice_mem_rsv_spec [OF r low k]; unfold run)
             (auto simp: rw_result_def rsv_spliced_def edits_refl [OF r])
      qed
    qed
  qed
qed

section \<open>Packing\<close>

text \<open>
  \<open>packed m m' fdt k\<close>: header, reserve map of \<open>k\<close> bytes, structure and strings without gaps between
  them, each with its contents.
\<close>

definition packed :: "mem \<Rightarrow> mem \<Rightarrow> int \<Rightarrow> int \<Rightarrow> bool" where
  "packed m m' fdt k \<longleftrightarrow> h_off_rsvmap m' fdt = 40 \<and> h_off_struct m' fdt = 40 + k \<and>
     h_off_strings m' fdt = 40 + k + h_size_struct m fdt \<and>
     h_size_struct m' fdt = h_size_struct m fdt \<and> h_size_strings m' fdt = h_size_strings m fdt \<and>
     h_totalsize m' fdt = 40 + k + h_size_struct m fdt + h_size_strings m fdt \<and>
     (\<forall>i. 0 \<le> i \<and> i < k \<longrightarrow> m' (fdt + 40 + i) = m (fdt + h_off_rsvmap m fdt + i)) \<and>
     (\<forall>i. 0 \<le> i \<and> i < h_size_struct m fdt \<longrightarrow> m' (fdt + 40 + k + i) = m (fdt + h_off_struct m fdt + i)) \<and>
     (\<forall>i. 0 \<le> i \<and> i < h_size_strings m fdt \<longrightarrow>
        m' (fdt + 40 + k + h_size_struct m fdt + i) = m (fdt + h_off_strings m fdt + i))"

text \<open>A block moved down inside the buffer, and the header field set for it.\<close>

lemma move_down:
  assumes h: "mapped m fdt 40" and t: "mapped m fdt t" "h_totalsize m fdt = t" "40 \<le> t"
    and d: "40 \<le> dst" "dst + n \<le> t" "40 \<le> src" "src + n \<le> t" "0 \<le> n"
    and k: "k \<in> hdr_fields" "k \<noteq> 4" and v: "0 \<le> v" "v \<le> UINT32_MAX"
  obtains m1 m' where "memmove m (fdt + dst) (fdt + src) (nat n) = Some (fdt + dst, m1)"
    "fdt32_set m1 (fdt + k) v = Some m'" "same_but {k} m m' fdt" "hdr m' fdt k = v"
    "same_but {} m m1 fdt" "mapped m1 fdt 40"
    "\<forall>i. 0 \<le> i \<and> i < n \<longrightarrow> m' (fdt + dst + i) = m (fdt + src + i)"
    "\<forall>a. fdt + 40 \<le> a \<and> (a < fdt + dst \<or> fdt + dst + n \<le> a) \<longrightarrow> m' a = m a"
proof -
  have "mapped m (fdt + src) (int (nat n))" "mapped m (fdt + dst) (int (nat n))"
    by (rule mapped_sub [OF t(1)]; use d in simp)+
  then obtain m1 where m1: "memmove m (fdt + dst) (fdt + src) (nat n) = Some (fdt + dst, m1)"
    "writes_only m m1 (fdt + dst) (int (nat n))"
    "\<And>i. 0 \<le> i \<Longrightarrow> i < int (nat n) \<Longrightarrow> m1 (fdt + dst + i) = m (fdt + src + i)" using memmove_spec by metis
  have s1: "same_but {} m m1 fdt" by (rule rw_same_body [OF m1(2)]) (use d t(2) in simp_all)
  have h1: "mapped m1 fdt 40" by (rule writes_only_mapped [OF m1(2) h])
  have t1: "40 \<le> h_totalsize m1 fdt" using same_butD [OF s1] t by simp
  obtain m' where m': "fdt32_set m1 (fdt + k) v = Some m'" "hdr m' fdt k = v" "same_but {k} m1 m' fdt"
    "writes_only m1 m' (fdt + k) 4" by (rule rw_set_field [OF h1 t1 k(1) v])
  have low: "m' a = m1 a" if "fdt + 40 \<le> a" for a
    by (rule writes_only_same [OF m'(4)]) (use that hdr_fields_apart(2) [OF k(1)] in simp)
  have "\<forall>i. 0 \<le> i \<and> i < n \<longrightarrow> m' (fdt + dst + i) = m (fdt + src + i)"
    using m1(3) low d by simp
  moreover have "\<forall>a. fdt + 40 \<le> a \<and> (a < fdt + dst \<or> fdt + dst + n \<le> a) \<longrightarrow> m' a = m a"
    using low writes_only_same [OF m1(2)] d by simp
  ultimately show thesis using that m1(1) m'(1,2) same_but_trans [OF s1 m'(3)] s1 h1 by simp
qed

lemma set_above:
  assumes "writes_only m m' (fdt + k) 4" "k \<in> hdr_fields"
  shows "\<forall>a. fdt + 40 \<le> a \<longrightarrow> m' a = m a"
  using writes_only_same [OF assms(1)] hdr_fields_apart(2) [OF assms(2)] by simp

lemma pack_run:
  assumes r: "rw_ok m fdt" and k: "0 \<le> k" "h_off_rsvmap m fdt + k \<le> h_off_struct m fdt"
  obtains m' where "do {
      m \<leftarrow> fdt_packblocks m fdt fdt k (h_size_struct m fdt) (h_size_strings m fdt);
      n \<leftarrow> fdt_data_size m fdt; m \<leftarrow> fdt_set_totalsize m fdt n; Some (0 :: int, m) } = Some (0, m')"
    "packed m m' fdt k" "edits m m' fdt"
proof -
  note b = rw_bounds [OF r] and e = rw_end_bounds [OF r]
  define t ss zs where "t = h_totalsize m fdt" and "ss = h_size_struct m fdt" and "zs = h_size_strings m fdt"
  define o1 o2 o3 where "o1 = h_off_rsvmap m fdt" and "o2 = h_off_struct m fdt" and "o3 = h_off_strings m fdt"
  have q: "40 \<le> o1" "o1 + k \<le> o2" "0 \<le> ss" "o2 + ss \<le> o3" "0 \<le> zs" "o3 + zs \<le> t" "t < INT32_MAX" "0 \<le> k"
    using b k by (simp_all add: t_def ss_def zs_def o1_def o2_def o3_def)
  have v1: "0 \<le> (40::int)" "40 \<le> UINT32_MAX" by simp_all
  have mt: "mapped m fdt t" using rw_mapped [OF r] by (simp add: t_def)
  have t40: "40 \<le> t" using q by simp
  have d1: "40 \<le> (40::int)" "40 + k \<le> t" "40 \<le> o1" "o1 + k \<le> t" "0 \<le> k" using q by simp_all
  have ne4: "(16::int) \<noteq> 4" "(8::int) \<noteq> 4" "(12::int) \<noteq> 4" by simp_all
  obtain a1 a where a: "memmove m (fdt + 40) (fdt + o1) (nat k) = Some (fdt + 40, a1)"
    "fdt32_set a1 (fdt + 16) 40 = Some a" "same_but {16} m a fdt" "hdr a fdt 16 = 40"
    "same_but {} m a1 fdt" "mapped a1 fdt 40"
    "\<forall>i. 0 \<le> i \<and> i < k \<longrightarrow> a (fdt + 40 + i) = m (fdt + o1 + i)"
    "\<forall>x. fdt + 40 \<le> x \<and> (x < fdt + 40 \<or> fdt + 40 + k \<le> x) \<longrightarrow> a x = m x"
    by (rule move_down [OF rw_ok_header [OF r] mt t_def [symmetric] t40 d1 hdr_field(5) ne4(1) v1])
  note wa = same_but_writes [OF a(3)]
  have ha: "mapped a fdt 40" "mapped a fdt t" "h_totalsize a fdt = t" "h_off_struct a fdt = o2"
    "h_off_strings a fdt = o3" "h_size_struct a fdt = ss" "h_size_strings a fdt = zs"
    using writes_only_mapped [OF wa rw_ok_header [OF r]] writes_only_mapped [OF wa mt] same_butD [OF a(3)]
    by (simp_all add: t_def o2_def o3_def ss_def zs_def)
  have d2: "40 \<le> 40 + k" "40 + k + ss \<le> t" "40 \<le> o2" "o2 + ss \<le> t" "0 \<le> ss" using q by simp_all
  have v2: "0 \<le> 40 + k" "40 + k \<le> UINT32_MAX" using q by simp_all
  obtain b1 b2 where b2: "memmove a (fdt + (40 + k)) (fdt + o2) (nat ss) = Some (fdt + (40 + k), b1)"
    "fdt32_set b1 (fdt + 8) (40 + k) = Some b2" "same_but {8} a b2 fdt" "hdr b2 fdt 8 = 40 + k"
    "same_but {} a b1 fdt" "mapped b1 fdt 40"
    "\<forall>i. 0 \<le> i \<and> i < ss \<longrightarrow> b2 (fdt + (40 + k) + i) = a (fdt + o2 + i)"
    "\<forall>x. fdt + 40 \<le> x \<and> (x < fdt + (40 + k) \<or> fdt + (40 + k) + ss \<le> x) \<longrightarrow> b2 x = a x"
    by (rule move_down [OF ha(1-3) t40 d2 hdr_field(3) ne4(2) v2])
  note wb = same_but_writes [OF b2(3)]
  have hb: "mapped b2 fdt 40" "mapped b2 fdt t" "h_totalsize b2 fdt = t"
    using writes_only_mapped [OF wb ha(1)] writes_only_mapped [OF wb ha(2)] same_butD [OF b2(3)] ha(3) by simp_all
  have v3: "0 \<le> ss" "ss \<le> UINT32_MAX" "40 \<le> h_totalsize b2 fdt" using q hb(3) by simp_all
  obtain c where c: "fdt32_set b2 (fdt + 36) ss = Some c" "hdr c fdt 36 = ss" "same_but {36} b2 c fdt"
    "writes_only b2 c (fdt + 36) 4" by (rule rw_set_field [OF hb(1) v3(3) hdr_field(10) v3(1,2)])
  have hc: "mapped c fdt 40" "mapped c fdt t" "h_totalsize c fdt = t" "h_off_strings c fdt = o3"
    "h_size_strings c fdt = zs"
    using writes_only_mapped [OF c(4) hb(1)] writes_only_mapped [OF c(4) hb(2)] same_butD [OF c(3)]
      same_butD [OF b2(3)] ha by simp_all
  have d3: "40 \<le> 40 + k + ss" "40 + k + ss + zs \<le> t" "40 \<le> o3" "o3 + zs \<le> t" "0 \<le> zs" using q by simp_all
  have v4: "0 \<le> 40 + k + ss" "40 + k + ss \<le> UINT32_MAX" using q by simp_all
  obtain d0 d where d: "memmove c (fdt + (40 + k + ss)) (fdt + o3) (nat zs) = Some (fdt + (40 + k + ss), d0)"
    "fdt32_set d0 (fdt + 12) (40 + k + ss) = Some d" "same_but {12} c d fdt" "hdr d fdt 12 = 40 + k + ss"
    "same_but {} c d0 fdt" "mapped d0 fdt 40"
    "\<forall>i. 0 \<le> i \<and> i < zs \<longrightarrow> d (fdt + (40 + k + ss) + i) = c (fdt + o3 + i)"
    "\<forall>x. fdt + 40 \<le> x \<and> (x < fdt + (40 + k + ss) \<or> fdt + (40 + k + ss) + zs \<le> x) \<longrightarrow> d x = c x"
    by (rule move_down [OF hc(1-3) t40 d3 hdr_field(4) ne4(3) v4])
  note wd = same_but_writes [OF d(3)]
  have hd: "mapped d fdt 40" "h_totalsize d fdt = t" "h_size_strings d fdt = zs"
    using writes_only_mapped [OF wd hc(1)] same_butD [OF d(3)] hc by simp_all
  have v5: "0 \<le> zs" "zs \<le> UINT32_MAX" "40 \<le> h_totalsize d fdt" using q hd(2) by simp_all
  obtain f where f: "fdt32_set d (fdt + 32) zs = Some f" "hdr f fdt 32 = zs" "same_but {32} d f fdt"
    "writes_only d f (fdt + 32) 4" by (rule rw_set_field [OF hd(1) v5(3) hdr_field(9) v5(1,2)])
  define t' where "t' = 40 + k + ss + zs"
  have hf: "mapped f fdt 40" "h_totalsize f fdt = t" "h_off_strings f fdt = 40 + k + ss"
    using writes_only_mapped [OF f(4) hd(1)] same_butD [OF f(3)] hd d(4) by simp_all
  have v6: "0 \<le> t'" "t' \<le> UINT32_MAX" "40 \<le> h_totalsize f fdt" using q hf(2) by (simp_all add: t'_def)
  obtain m' where m': "fdt32_set f (fdt + 4) t' = Some m'" "hdr m' fdt 4 = t'" "same_but {4} f m' fdt"
    "writes_only f m' (fdt + 4) 4" by (rule rw_set_field [OF hf(1) v6(3) hdr_field(2) v6(1,2)])
  have fields: "hdr m' fdt 0 = hdr m fdt 0" "hdr m' fdt 20 = hdr m fdt 20" "hdr m' fdt 24 = hdr m fdt 24"
    "hdr m' fdt 16 = 40" "hdr m' fdt 8 = 40 + k" "hdr m' fdt 12 = 40 + k + ss" "hdr m' fdt 36 = ss"
    "hdr m' fdt 32 = zs"
    using same_butD [OF m'(3)] same_butD [OF f(3)] same_butD [OF d(3)] same_butD [OF c(3)] same_butD [OF b2(3)]
      same_butD [OF a(3)] a(4) b2(4) c(2) d(4) f(2) by simp_all
  have u: "to_s32 (40 + k) = 40 + k" "to_s32 (40 + k + ss) = 40 + k + ss" "nat (to_u32 k) = nat k"
    "nat (to_u32 ss) = nat ss" "nat (to_u32 zs) = nat zs" "to_u32 (40 + k + ss + zs) = t'"
    using q by (simp_all add: to_s32_id to_u32_id t'_def)
  have run: "do { m \<leftarrow> fdt_packblocks m fdt fdt k ss zs;
      n \<leftarrow> fdt_data_size m fdt; m \<leftarrow> fdt_set_totalsize m fdt n; Some (0 :: int, m) } = Some (0, m')"
    using a(1,2) b2(1,2) c(1) d(1,2) f(1) m'(1)
    by (simp add: fdt_packblocks_def fdt_data_size_def fdt_set_defs rw_simps [OF r] header_fields [OF ha(1)]
        header_fields [OF hc(1)] header_fields [OF hd(1)] header_fields [OF hf(1)] ha hc hd hf f(2) u
        o1_def [symmetric])
  have above: "m' x = f x" "f x = d x" "c x = b2 x" if "fdt + 40 \<le> x" for x
    using set_above [OF m'(4) hdr_field(2)] set_above [OF f(4) hdr_field(9)] set_above [OF c(4) hdr_field(10)] that
    by blast+
  have tail: "m' x = b2 x" if "fdt + 40 \<le> x" "x < fdt + (40 + k + ss) \<or> fdt + (40 + k + ss) + zs \<le> x" for x
    using above [OF that(1)] d(8) that by simp
  have p1: "m' (fdt + 40 + i) = m (fdt + o1 + i)" if "0 \<le> i" "i < k" for i
  proof -
    have "m' (fdt + 40 + i) = b2 (fdt + 40 + i)" by (rule tail) (use that q in simp_all)
    also have "\<dots> = a (fdt + 40 + i)" using b2(8) that by simp
    also have "\<dots> = m (fdt + o1 + i)" using a(7) that by simp
    finally show ?thesis .
  qed
  have p2: "m' (fdt + 40 + k + i) = m (fdt + o2 + i)" if "0 \<le> i" "i < ss" for i
  proof -
    have "m' (fdt + (40 + k) + i) = b2 (fdt + (40 + k) + i)" by (rule tail) (use that q in simp_all)
    also have "\<dots> = a (fdt + o2 + i)" using b2(7) that by blast
    also have "\<dots> = m (fdt + o2 + i)" by (rule a(8) [rule_format]) (use that q in simp)
    finally show ?thesis by (simp add: add.assoc)
  qed
  have p3: "m' (fdt + 40 + k + ss + i) = m (fdt + o3 + i)" if "0 \<le> i" "i < zs" for i
  proof -
    have "m' (fdt + (40 + k + ss) + i) = d (fdt + (40 + k + ss) + i)"
      using above(1,2) [of "fdt + (40 + k + ss) + i"] that q by simp
    also have "\<dots> = c (fdt + o3 + i)" using d(7) that by blast
    also have "\<dots> = b2 (fdt + o3 + i)" by (rule above(3)) (use that q in simp)
    also have "\<dots> = a (fdt + o3 + i)" by (rule b2(8) [rule_format]) (use that q in simp)
    also have "\<dots> = m (fdt + o3 + i)" by (rule a(8) [rule_format]) (use that q in simp)
    finally show ?thesis by (simp add: add.assoc)
  qed
  have pk: "packed m m' fdt k"
    unfolding packed_def o1_def [symmetric] o2_def [symmetric] o3_def [symmetric] ss_def [symmetric] zs_def [symmetric]
    using fields m'(2) p1 p2 p3 by (simp add: t'_def)
  have dm: "dom m' = dom m"
    using wa wb wd c(4) f(4) m'(4) by (simp add: writes_only_def)
  have out: "m' x = m x" if x: "x < fdt \<or> fdt + t \<le> x" for x
  proof -
    have x': "x < fdt \<or> fdt + 40 \<le> x" using x t40 by linarith
    have "m' x = f x" by (rule writes_only_same [OF m'(4)]) (use x' in auto)
    moreover have "f x = d x" by (rule writes_only_same [OF f(4)]) (use x' in auto)
    moreover have "c x = b2 x" by (rule writes_only_same [OF c(4)]) (use x' in auto)
    ultimately show ?thesis
      using writes_only_same [OF wa, of x] writes_only_same [OF wb, of x] writes_only_same [OF wd, of x] x
        ha(3) hc(3) by (simp add: t_def)
  qed
  have w: "writes_only m m' fdt t" using dm out by (simp add: writes_only_def)
  have tt: "t' \<le> t" "40 \<le> t'" using q by (simp_all add: t'_def)
  have r': "0 < fdt" "fdt mod 8 = 0" "mapped m fdt 40" "mapped m fdt (4 * ((t + 3) div 4))" "fdt + t \<le> 4294967296"
    "hdr m fdt 0 = FDT_MAGIC" "h_version m fdt = 17" "h_last_comp m fdt \<le> 17"
    using r unfolding rw_ok_def t_def by blast+
  have "(t' + 3) div 4 \<le> (t + 3) div 4" using tt by (intro zdiv_mono1) simp_all
  then have mm: "mapped m fdt (4 * ((t' + 3) div 4))" by (intro mapped_sub [OF r'(4)]) simp_all
  have lay: "t' < INT32_MAX" "fdt + t' \<le> 4294967296" "40 \<le> 40 + k" "40 + k + ss \<le> 40 + k + ss"
    "40 + k + ss + zs \<le> t'" "(40::int) \<le> 40"
    using tt q r'(5) unfolding t'_def by linarith+
  have "rw_ok m' fdt"
    unfolding rw_ok_def fields m'(2)
    by (intro conjI writes_only_mapped [OF w] mm lay r')
  then have "edits m m' fdt" using w tt m'(2) by (simp add: edits_def t_def)
  with that run pk show thesis by (simp add: ss_def zs_def)
qed

lemma num_mem_rsv_entries:
  assumes r: "rw_ok m fdt" and n: "rsv_entries m fdt n"
  shows "fdt_num_mem_rsv m fdt = Some n"
proof -
  note b = rw_bounds [OF r] and e = rw_end_bounds [OF r]
  have nn: "0 \<le> n" "h_off_rsvmap m fdt + 16 * n + 16 \<le> h_totalsize m fdt" "rsv_size m fdt n = 0"
    "\<And>i. 0 \<le> i \<Longrightarrow> i < n \<Longrightarrow> rsv_size m fdt i \<noteq> 0" using n by (auto simp: rsv_entries_def)
  have "fdt_num_mem_rsv_from m fdt i = Some n" if "0 \<le> i" "i \<le> n" for i
    using that
  proof (induction "nat (n - i)" arbitrary: i rule: less_induct)
    case less
    define p where "p = fdt + h_off_rsvmap m fdt + 16 * i"
    have g: "fdt_mem_rsv m fdt i = Some p" using fdt_mem_rsv_ok [OF r less.prems(1)] nn less.prems by (simp add: p_def)
    have "mapped m (p + 8) 8"
      by (rule mapped_sub [OF rw_mapped [OF r]]) (use nn less.prems b in \<open>simp_all add: p_def\<close>)
    then obtain v where v: "fdt64_ld m (p + 8) = Some v" using fdt64_ld_mapped by blast
    then have sv: "rsv_size m fdt i = v" by (simp add: rsv_size_def p_def)
    have p0: "p \<noteq> 0" using b less.prems by (simp add: p_def)
    show ?case
    proof (cases "i = n")
      case True
      with g v sv p0 nn(3) show ?thesis by (subst fdt_num_mem_rsv_from.simps) simp
    next
      case False
      with sv nn(4) [of i] less.prems have "v \<noteq> 0" by simp
      moreover have "to_s32 (i + 1) = i + 1" using nn less.prems b by (simp add: to_s32_id)
      moreover have "fdt_num_mem_rsv_from m fdt (i + 1) = Some n"
        by (rule less.hyps) (use False less.prems in simp_all)
      ultimately show ?thesis using g v p0 by (subst fdt_num_mem_rsv_from.simps) simp
    qed
  qed
  from this [of 0] nn(1) e show ?thesis by (simp add: fdt_num_mem_rsv_def rw_ro_probe [OF r])
qed

text \<open>Packing needs the reserve map to end before the structure block.\<close>

lemma pack_spec:
  assumes r: "rw_ok m fdt" and n: "rsv_entries m fdt n" "h_off_rsvmap m fdt + 16 * n + 16 \<le> h_off_struct m fdt"
  obtains m' where "fdt_pack m fdt = Some (0, m')" "packed m m' fdt (16 * n + 16)" "edits m m' fdt"
proof -
  note b = rw_bounds [OF r]
  have n0: "0 \<le> n" using n(1) by (simp add: rsv_entries_def)
  have p: "fdt_rw_probe m fdt = Some (0, m)" using n(2) n0 by (simp add: rw_probe_ok [OF r])
  have k: "0 \<le> 16 * n + 16" "h_off_rsvmap m fdt + (16 * n + 16) \<le> h_off_struct m fdt" using n(2) n0 by simp_all
  have u: "to_s32 (n * 16 + 16) = 16 * n + 16" "to_s32 (h_size_struct m fdt) = h_size_struct m fdt"
    "to_s32 (h_size_strings m fdt) = h_size_strings m fdt"
    using b n n0 by (simp_all add: to_s32_id)
  obtain m' where m': "do {
      m \<leftarrow> fdt_packblocks m fdt fdt (16 * n + 16) (h_size_struct m fdt) (h_size_strings m fdt);
      n \<leftarrow> fdt_data_size m fdt; m \<leftarrow> fdt_set_totalsize m fdt n; Some (0 :: int, m) } = Some (0, m')"
    "packed m m' fdt (16 * n + 16)" "edits m m' fdt" by (rule pack_run [OF r k])
  have "fdt_pack m fdt = Some (0, m')"
    using m'(1) p num_mem_rsv_entries [OF r n(1)] n0
    by (simp add: fdt_pack_def rw_simps [OF r] u Let_def)
  with that m'(2,3) show thesis by blast
qed

section \<open>Sequences of operations\<close>

text \<open>
  One call of the read-write interface, with its result: the strings given are outside the buffer, and
  names and values are less than 2 GiB.  Three uses are left out, where the code does break the tree:
  \<open>fdt_del_mem_rsv\<close> with a negative index, \<open>fdt_pack\<close> on a tree whose reserve map is not terminated in
  front of the structure block, and the \<open>_namelen\<close> variants, which roll back by \<open>strlen\<close> of the name.
\<close>

lemma placeholder_spec:
  assumes r: "rw_ok m fdt" and off: "node \<le> INT32_MAX" and n: "c_string m name nm"
    and ap: "apart m fdt name (int (length nm) + 1)" and len: "0 \<le> len" "len \<le> 2147483600"
  shows "\<exists>r q m'. fdt_setprop_placeholder m fdt node name len = Some (r, q, m') \<and> r \<le> 0 \<and> rw_result m m' fdt r"
  using setprop_placeholder_spec [OF r off n ap len] c_string_strlen [OF n] c_string_bytes(5) [OF n]
  by (auto simp: fdt_setprop_placeholder_def)

inductive rw_step :: "int \<Rightarrow> mem \<Rightarrow> int \<Rightarrow> mem \<Rightarrow> bool" for fdt :: int where
  add_rsv: "0 \<le> addr \<Longrightarrow> addr < 18446744073709551616 \<Longrightarrow> 0 \<le> sz \<Longrightarrow> sz < 18446744073709551616 \<Longrightarrow>
    fdt_add_mem_rsv m fdt addr sz = Some (r, m') \<Longrightarrow> rw_step fdt m r m'"
| del_rsv: "0 \<le> i \<Longrightarrow> fdt_del_mem_rsv m fdt i = Some (r, m') \<Longrightarrow> rw_step fdt m r m'"
| set_name: "node \<le> INT32_MAX \<Longrightarrow> c_string m name nm \<Longrightarrow> apart m fdt name (int (length nm) + 1) \<Longrightarrow>
    int (length nm) \<le> 2147483600 \<Longrightarrow> fdt_set_name m fdt node name = Some (r, m') \<Longrightarrow> rw_step fdt m r m'"
| set_prop: "node \<le> INT32_MAX \<Longrightarrow> c_string m name nm \<Longrightarrow> apart m fdt name (int (length nm) + 1) \<Longrightarrow>
    bytes_at m val bs \<Longrightarrow> apart m fdt val (int (length bs)) \<Longrightarrow> int (length bs) \<le> 2147483600 \<Longrightarrow>
    fdt_setprop m fdt node name val (int (length bs)) = Some (r, m') \<Longrightarrow> rw_step fdt m r m'"
| placeholder: "node \<le> INT32_MAX \<Longrightarrow> c_string m name nm \<Longrightarrow> apart m fdt name (int (length nm) + 1) \<Longrightarrow>
    0 \<le> len \<Longrightarrow> len \<le> 2147483600 \<Longrightarrow>
    fdt_setprop_placeholder m fdt node name len = Some (r, q, m') \<Longrightarrow> rw_step fdt m r m'"
| append_prop: "node \<le> INT32_MAX \<Longrightarrow> c_string m name nm \<Longrightarrow> apart m fdt name (int (length nm) + 1) \<Longrightarrow>
    bytes_at m val bs \<Longrightarrow> apart m fdt val (int (length bs)) \<Longrightarrow>
    int (length bs) + h_totalsize m fdt \<le> 2147483600 \<Longrightarrow>
    fdt_appendprop m fdt node name val (int (length bs)) = Some (r, m') \<Longrightarrow> rw_step fdt m r m'"
| del_prop: "node \<le> INT32_MAX \<Longrightarrow> c_string m name nm \<Longrightarrow>
    fdt_delprop m fdt node name = Some (r, m') \<Longrightarrow> rw_step fdt m r m'"
| add_node: "node \<le> INT32_MAX \<Longrightarrow> c_string m name nm \<Longrightarrow> apart m fdt name (int (length nm) + 1) \<Longrightarrow>
    int (length nm) \<le> 2147483600 \<Longrightarrow> fdt_add_subnode m fdt node name = Some (r, m') \<Longrightarrow> rw_step fdt m r m'"
| del_node: "node \<le> INT32_MAX \<Longrightarrow> fdt_del_node m fdt node = Some (r, m') \<Longrightarrow> rw_step fdt m r m'"
| pack: "rsv_entries m fdt n \<Longrightarrow> h_off_rsvmap m fdt + 16 * n + 16 \<le> h_off_struct m fdt \<Longrightarrow>
    fdt_pack m fdt = Some (r, m') \<Longrightarrow> rw_step fdt m r m'"

lemma rw_step_result:
  assumes "rw_step fdt m r m'" and ok: "rw_ok m fdt"
  shows "rw_result m m' fdt r"
  using assms(1)
proof cases
  case (add_rsv addr sz)
  with add_mem_rsv_spec [OF ok, of addr sz] show ?thesis by auto
next
  case (del_rsv i)
  with del_mem_rsv_spec [OF ok, of i] show ?thesis by auto
next
  case (set_name node name nm)
  with set_name_spec [OF ok, of node name nm] show ?thesis by auto
next
  case (set_prop node name nm val bs)
  with setprop_spec [OF ok set_prop(1,2,3,6,4,5)] show ?thesis by auto
next
  case (placeholder node name nm len q)
  with placeholder_spec [OF ok placeholder(1-5)] show ?thesis by auto
next
  case (append_prop node name nm val bs)
  with appendprop_spec [OF ok append_prop(1,2,3,6,4,5)] show ?thesis by auto
next
  case (del_prop node name nm)
  with delprop_spec [OF ok del_prop(1,2)] show ?thesis by auto
next
  case (add_node node name nm)
  with add_subnode_spec [OF ok add_node(1-4)] show ?thesis by auto
next
  case (del_node node)
  with del_node_spec [OF ok del_node(1)] show ?thesis by auto
next
  case (pack n)
  then have "fdt_pack m fdt = Some (r, m')" by blast
  with pack_spec [OF ok pack(1,2)] show ?thesis by (auto simp: rw_result_def)
qed

inductive rw_steps :: "int \<Rightarrow> mem \<Rightarrow> mem \<Rightarrow> bool" for fdt :: int where
  none: "rw_steps fdt m m"
| more: "rw_steps fdt m m1 \<Longrightarrow> rw_step fdt m1 r m' \<Longrightarrow> rw_steps fdt m m'"

lemma rw_steps_edits: "rw_steps fdt m m' \<Longrightarrow> rw_ok m fdt \<Longrightarrow> edits m m' fdt"
proof (induction rule: rw_steps.induct)
  case (more m m1 r m')
  then have e: "edits m m1 fdt" by blast
  then have "rw_ok m1 fdt" by (simp add: edits_def)
  from rw_step_result [OF more(2) this] e show ?case
    by (auto simp: rw_result_def intro: edits_trans)
qed (simp add: edits_refl)

text \<open>The header check and the layout check together establish the invariant.\<close>

lemma rw_ok_checked:
  assumes m: "0 < fdt" "mapped m fdt 40" "mapped m fdt (4 * ((h_totalsize m fdt + 3) div 4))"
      "fdt + h_totalsize m fdt \<le> 4294967296"
    and c: "fdt_check_header m fdt = Some 0" "fdt_rw_probe m fdt = Some (0, m')"
  shows "edits m m' fdt"
proof -
  have h: "header_ok m fdt" using c(1) fdt_check_header_iff [OF m(2)] by simp
  have b: "blob m fdt" by (rule header_ok_blob [OF m(2) h m(1,4,3)])
  note hf = header_fields [OF m(2)]
  from fdt_ro_probe_spec [OF b] obtain r where r: "fdt_ro_probe m fdt = Some r"
    "r < 0 \<or> r = h_totalsize m fdt \<and> r < INT32_MAX" by blast
  have r0: "0 \<le> r" using c(2) r(1) by (auto simp: fdt_rw_probe_def split: if_splits)
  with r have t: "h_totalsize m fdt < INT32_MAX" by simp
  from r0 r(1) c(2) obtain bad where bad: "\<not> h_version m fdt < 17"
    "fdt_blocks_misordered m fdt 16 (h_size_struct m fdt) = Some False"
    "fdt_downgrade_version m fdt = Some m'"
    by (auto simp: fdt_rw_probe_def hf bind_eq_Some_conv split: if_splits)
  define o1 o2 o3 ss zs where "o1 = h_off_rsvmap m fdt" and "o2 = h_off_struct m fdt"
    and "o3 = h_off_strings m fdt" and "ss = h_size_struct m fdt" and "zs = h_size_strings m fdt"
  have hd: "fdt mod 8 = 0" "hdr m fdt 0 = FDT_MAGIC" "h_last_comp m fdt \<le> 17" "o1 \<le> h_totalsize m fdt"
    "o2 + ss \<le> h_totalsize m fdt" "o3 + zs \<le> h_totalsize m fdt"
    using h bad(1) unfolding header_ok_def Let_def o1_def o2_def o3_def ss_def zs_def by (elim conjE; simp)+
  have pos: "0 \<le> o1" "0 \<le> o2" "0 \<le> o3" "0 \<le> ss" "0 \<le> zs"
    using blob_field(2) [OF m(2), of 16] blob_field(2) [OF m(2), of 8] blob_field(2) [OF m(2), of 12]
      blob_field(2) [OF m(2), of 36] blob_field(2) [OF m(2), of 32]
    by (simp_all add: o1_def o2_def o3_def ss_def zs_def)
  have u: "to_u32 (o1 + 16) = o1 + 16" "to_u32 (o2 + ss) = o2 + ss" "to_u32 (o3 + zs) = o3 + zs"
    by (rule to_u32_id; use hd pos t in linarith)+
  have lay: "40 \<le> o1" "o1 + 16 \<le> o2" "o2 + ss \<le> o3"
    using bad(2) u by (simp_all add: fdt_blocks_misordered_def hf o1_def o2_def o3_def ss_def zs_def)
  have tp: "40 \<le> h_totalsize m fdt" using lay hd pos by linarith
  have m': "h_version m' fdt = 17 \<and> same_but {20} m m' fdt"
  proof (cases "h_version m fdt > 17")
    case False
    with bad(1,3) show ?thesis by (simp add: fdt_downgrade_version_def hf)
  next
    case True
    have v: "0 \<le> (17::int)" "17 \<le> UINT32_MAX" by simp_all
    obtain m1 where "fdt32_set m (fdt + 20) 17 = Some m1" "hdr m1 fdt 20 = 17" "same_but {20} m m1 fdt"
      by (rule rw_set_field [OF m(2) tp hdr_field(6) v])
    with True bad(3) show ?thesis by (simp add: fdt_downgrade_version_def hf fdt_set_defs)
  qed
  note w = same_but_writes [OF conjunct2 [OF m']] and sb = same_butD [OF conjunct2 [OF m']]
  have f: "hdr m' fdt 0 = FDT_MAGIC" "h_totalsize m' fdt = h_totalsize m fdt" "h_off_struct m' fdt = o2"
    "h_off_strings m' fdt = o3" "h_off_rsvmap m' fdt = o1" "h_last_comp m' fdt = h_last_comp m fdt"
    "h_size_strings m' fdt = zs" "h_size_struct m' fdt = ss"
    using sb hd(2) by (simp_all add: o1_def o2_def o3_def ss_def zs_def)
  have lay': "o1 \<le> o2" using lay by simp
  have "rw_ok m' fdt"
    unfolding rw_ok_def f
    by (intro conjI writes_only_mapped [OF w] m t hd lay lay' conjunct1 [OF m'] refl)
  with w f(2) show ?thesis by (simp add: edits_def)
qed

section \<open>Properties\<close>

text \<open>C7: after a successful header and layout check, let any calls follow of \<open>fdt_add_mem_rsv\<close>,
  \<open>fdt_del_mem_rsv\<close> (index not negative), \<open>fdt_set_name\<close>, \<open>fdt_setprop\<close>, \<open>fdt_setprop_placeholder\<close>,
  \<open>fdt_appendprop\<close>, \<open>fdt_delprop\<close>, \<open>fdt_add_subnode\<close>, \<open>fdt_del_node\<close> and \<open>fdt_pack\<close> (when the reserve map
  is terminated in front of the structure block), in any order and whether they succeed or not, with names
  and values outside the tree and of less than 2 GiB.  Whatever the blocks of the tree contain, nothing
  outside \<open>totalsize\<close> is written, the three blocks stay in order inside it, and a call that reports an
  error leaves header and blocks as they were.\<close>

theorem rw_calls_safe:
  assumes m: "0 < fdt" "mapped m fdt 40" "mapped m fdt (4 * ((h_totalsize m fdt + 3) div 4))"
      "fdt + h_totalsize m fdt \<le> 4294967296"
    and c: "fdt_check_header m fdt = Some 0" "fdt_rw_probe m fdt = Some (0, m0)"
    and s: "rw_steps fdt m0 m'"
  shows "rw_ok m' fdt \<and> h_totalsize m' fdt \<le> h_totalsize m fdt \<and> writes_only m m' fdt (h_totalsize m fdt) \<and>
    (\<forall>r m''. rw_step fdt m' r m'' \<longrightarrow> r < 0 \<longrightarrow> same_tree m' m'' fdt)"
proof -
  have e0: "edits m m0 fdt" by (rule rw_ok_checked [OF m c])
  then have "rw_ok m0 fdt" by (simp add: edits_def)
  from edits_trans [OF e0 rw_steps_edits [OF s this]] have e: "edits m m' fdt" .
  then have "rw_ok m' fdt" by (simp add: edits_def)
  with e show ?thesis using rw_step_result by (auto simp: edits_def rw_result_def)
qed

lemma demo_rw_ok: "rw_ok demo_fdt_mem 4096"
proof -
  have "h_off_rsvmap demo_fdt_mem 4096 = 40" "h_size_struct demo_fdt_mem 4096 = 64" "h_size_strings demo_fdt_mem 4096 = 12"
    by code_simp+
  moreover have "mapped demo_fdt_mem 4096 40" "mapped demo_fdt_mem 4096 132"
    by (rule mapped_sub [OF demo_fdt_mapped]; simp)+
  ultimately show ?thesis by (simp add: rw_ok_def demo_fdt_fields)
qed

theorem rw_calls_safe_witness:
  "\<exists>m1 m2. fdt_del_node demo_fdt_mem 4096 24 = Some (0, m1) \<and> fdt_add_mem_rsv m1 4096 1 2 = Some (0, m2) \<and>
     rw_ok m2 4096 \<and> writes_only demo_fdt_mem m2 4096 132"
proof -
  define md where "md = demo_fdt_mem"
  have p: "fdt_check_header md 4096 = Some 0" "map_option fst (fdt_rw_probe md 4096) = Some 0" "h_totalsize md 4096 = 132"
    "map_option fst (fdt_del_node md 4096 24) = Some 0"
    "map_option fst (Option.bind (fdt_del_node md 4096 24) (\<lambda>(e, m). fdt_add_mem_rsv m 4096 1 2)) = Some 0"
    unfolding md_def by code_simp+
  have mp: "mapped md 4096 40" "mapped md 4096 (4 * ((h_totalsize md 4096 + 3) div 4))"
    unfolding p(3) unfolding md_def by (rule mapped_sub [OF demo_fdt_mapped]; simp)+
  from p(2) obtain m0 where m0: "fdt_rw_probe md 4096 = Some (0, m0)" by auto
  have v: "h_version md 4096 = 17" unfolding md_def by (rule demo_fdt_fields)
  have "m0 = md" using m0 v header_fields(6) [OF mp(1)]
    by (auto simp: fdt_rw_probe_def fdt_downgrade_version_def bind_eq_Some_conv split: if_splits)
  with m0 have m0: "fdt_rw_probe md 4096 = Some (0, md)" by simp
  from p(4,5) obtain m1 m2 where m1: "fdt_del_node md 4096 24 = Some (0, m1)" "fdt_add_mem_rsv m1 4096 1 2 = Some (0, m2)"
    by auto
  have "rw_step 4096 md 0 m1" by (rule rw_step.del_node [OF _ m1(1)]) simp
  moreover have "rw_step 4096 m1 0 m2" by (rule rw_step.add_rsv [OF _ _ _ _ m1(2)]) simp_all
  ultimately have "rw_steps 4096 md m2" by (meson rw_steps.intros)
  from rw_calls_safe [OF _ mp _ p(1) m0 this] m1 p(3) show ?thesis unfolding md_def by simp
qed

text \<open>C20: the read-write calls do not fault or hang: on a tree with its blocks in order, whatever they
  contain, \<open>fdt_setprop\<close>, \<open>fdt_setprop_placeholder\<close>, \<open>fdt_appendprop\<close>, \<open>fdt_delprop\<close>, \<open>fdt_set_name\<close>,
  \<open>fdt_add_subnode\<close>, \<open>fdt_del_node\<close>, \<open>fdt_add_mem_rsv\<close> and \<open>fdt_del_mem_rsv\<close> return, for names and values
  outside the tree that are less than 2 GiB with it and for reserve indices that are not negative, and so does
  \<open>fdt_pack\<close> when the reserve map is terminated in front of the structure block.\<close>

theorem rw_calls_return:
  assumes ok: "rw_ok m fdt" and node: "node \<le> INT32_MAX" and n: "c_string m name nm"
    "apart m fdt name (int (length nm) + 1)" "int (length nm) \<le> 2147483600"
    and bs: "bytes_at m val bs" "apart m fdt val (int (length bs))" "int (length bs) + h_totalsize m fdt \<le> 2147483600"
    and rsv: "0 \<le> addr" "addr < 18446744073709551616" "0 \<le> sz" "sz < 18446744073709551616" "0 \<le> i"
  shows "fdt_setprop m fdt node name val (int (length bs)) \<noteq> None \<and>
    fdt_setprop_placeholder m fdt node name (int (length bs)) \<noteq> None \<and>
    fdt_appendprop m fdt node name val (int (length bs)) \<noteq> None \<and> fdt_delprop m fdt node name \<noteq> None \<and>
    fdt_set_name m fdt node name \<noteq> None \<and> fdt_add_subnode m fdt node name \<noteq> None \<and>
    fdt_del_node m fdt node \<noteq> None \<and> fdt_add_mem_rsv m fdt addr sz \<noteq> None \<and> fdt_del_mem_rsv m fdt i \<noteq> None \<and>
    (\<forall>k. rsv_entries m fdt k \<and> h_off_rsvmap m fdt + 16 * k + 16 \<le> h_off_struct m fdt \<longrightarrow> fdt_pack m fdt \<noteq> None)"
proof -
  have l: "int (length bs) \<le> 2147483600" "0 \<le> int (length bs)" using bs(3) rw_end_bounds [OF ok] by simp_all
  have pack: "fdt_pack m fdt \<noteq> None"
    if k: "rsv_entries m fdt k" "h_off_rsvmap m fdt + 16 * k + 16 \<le> h_off_struct m fdt" for k
    by (rule pack_spec [OF ok k]) simp
  show ?thesis
    using setprop_spec [OF ok node n(1,2) l(1) bs(1,2)] appendprop_spec [OF ok node n(1,2) bs(3,1,2)]
      delprop_spec [OF ok node n(1)] set_name_spec [OF ok node n] add_subnode_spec [OF ok node n]
      del_node_spec [OF ok node] placeholder_spec [OF ok node n(1,2) l(2,1)] add_mem_rsv_spec [OF ok rsv(1-4)]
      del_mem_rsv_spec [OF ok rsv(5)] pack by auto
qed

theorem rw_calls_return_witness:
  "fdt_setprop demo_fdt_mem 4096 24 (demo_lit ''compatible'') 256 3 \<noteq> None \<and> fdt_del_node demo_fdt_mem 4096 24 \<noteq> None"
proof -
  have "bytes_at demo_fdt_mem 256 [99, 111, 109]" by code_simp
  from rw_calls_return [OF demo_rw_ok _ demo_strings(1) _ _ this, of 24 0 0 0]
  show ?thesis by (simp add: demo_fdt_fields demo_lit_def lit_bytes_def)
qed

end
