(* ===== verification/Fdt_Lookup.thy ===== *)
theory Fdt_Lookup
  imports Fdt_Edit
begin

text \<open>
  What a lookup finds after an edit: a tag is read the same way as long as its bytes are the same, so
  that a walk over the part of the structure block in front of an edit is not disturbed by it.
\<close>

section \<open>Well-formed tags are read\<close>

lemma fdt_skip_name_ok:
  assumes b: "blob m fdt"
  shows "cstr_at m (fdt + h_off_struct m fdt + off) s \<Longrightarrow> struct_fits m fdt off (int (length s) + 1) \<Longrightarrow>
    \<exists>p. fdt_skip_name m fdt off = Some (p, off + int (length s) + 1) \<and> p \<noteq> 0"
proof (induction s arbitrary: off)
  case Nil
  note bb = blob_bounds [OF b]
  have o: "0 \<le> off" "off \<le> INT32_MAX" using Nil(2) bb by (simp_all add: struct_fits_def)
  from Nil o bb show ?case
    by (subst fdt_skip_name.simps) (simp add: fdt_offset_ptr_eq [OF b] load8_def)
next
  case (Cons c s)
  note bb = blob_bounds [OF b]
  have o: "0 \<le> off" "off \<le> INT32_MAX" using Cons.prems(2) bb by (simp_all add: struct_fits_def)
  have f: "struct_fits m fdt off 1" "struct_fits m fdt (off + 1) (int (length s) + 1)"
    by (rule struct_fits_le [OF Cons.prems(2)]; simp)+
  have c: "m (fdt + h_off_struct m fdt + off) = Some c" "c \<noteq> 0" "cstr_at m (fdt + h_off_struct m fdt + (off + 1)) s"
    using Cons.prems(1) by (simp_all add: add.assoc)
  from Cons.IH [OF c(3) f(2)] c(1,2) f(1) o bb show ?case
    by (subst fdt_skip_name.simps) (simp add: fdt_offset_ptr_eq [OF b] load8_def add.assoc)
qed

lemma tag_at_next:
  assumes b: "blob m fdt" and v: "16 \<le> h_version m fdt" and t: "tag_at m fdt off tag nx"
  shows "fdt_next_tag m fdt off = Some (tag, nx)"
proof -
  note bb = blob_bounds [OF b] and tb = tag_at_bounds [OF b t]
  from t obtain e where e: "tag = sfield m fdt off" "tag_end m fdt off tag e" "off + 4 \<le> e"
    "struct_fits m fdt off (e - off)" "nx = 4 * ((e + 3) div 4)" by (auto simp: tag_at_def)
  have emax: "e \<le> 2147483643" using e(4) bb by (simp add: struct_fits_def)
  have off: "0 \<le> off" "off \<le> INT32_MAX" using tb by simp_all
  have ptr: "fdt_offset_ptr m fdt off 4 = Some (fdt + h_off_struct m fdt + off)"
    "fdt_offset_ptr m fdt off (e - off) = Some (fdt + h_off_struct m fdt + off)"
    "fdt + h_off_struct m fdt + off \<noteq> 0"
    using tb(5) e(3,4) off bb emax by (simp_all add: fdt_offset_ptr_eq [OF b])
  have ld: "fdt32_ld m (fdt + h_off_struct m fdt + off) = Some tag" using sfield_load(1) [OF b tb(5)] e(1) by simp
  have off4: "to_s32 (off + 4) = off + 4" "to_u32 (off + 4) = off + 4"
    using tb by (simp_all add: to_s32_id to_u32_id)
  have ue: "to_u32 (e - off) = e - off" using e(3) emax off by (simp add: to_u32_id)
  have al: "fdt_tagalign e = nx"
    using e(3,5) off emax by (simp add: fdt_tagalign_def to_u32_id to_s32_id)
  note eq = fdt_next_tag_def [of m fdt off] ptr fdt32_ld_native_eq ld off4 Let_def
  from tag_at_tags [OF t] consider (bnode) "tag = 1" | (isprop) "tag = 3" | (plain) "tag = 2 \<or> tag = 4 \<or> tag = 9"
    by blast
  then show ?thesis
  proof cases
    case plain
    then have "e = off + 4" using e(2) by (auto simp: tag_end_def)
    with plain ptr ue al show ?thesis by (auto simp: eq)
  next
    case bnode
    then obtain s where s: "cstr_at m (fdt + h_off_struct m fdt + off + 4) s" "e = off + 5 + int (length s)"
      using e(2) by (auto simp: tag_end_def)
    have "struct_fits m fdt (off + 4) (int (length s) + 1)"
      by (rule struct_fits_le [OF e(4)]) (simp_all add: s(2))
    with fdt_skip_name_ok [OF b, of "off + 4" s] s(1) obtain p where
      "fdt_skip_name m fdt (off + 4) = Some (p, e)" "p \<noteq> 0" by (auto simp: s(2) add.assoc)
    with bnode ptr ue al show ?thesis by (simp add: eq)
  next
    case isprop
    define len where "len = sfield m fdt (off + 4)"
    have l: "0 \<le> len" "e = off + 12 + len" using e(2) isprop v by (auto simp: tag_end_def Let_def len_def)
    have f: "struct_fits m fdt (off + 4) 4" by (rule struct_fits_le [OF e(4)]) (use l in simp_all)
    have p4: "fdt_offset_ptr m fdt (off + 4) 4 = Some (fdt + h_off_struct m fdt + (off + 4))"
      "fdt + h_off_struct m fdt + (off + 4) \<noteq> 0"
      using f tb bb by (simp_all add: fdt_offset_ptr_eq [OF b])
    have ld4: "fdt32_ld m (fdt + h_off_struct m fdt + (off + 4)) = Some len"
      using sfield_load(1) [OF b f] by (simp add: len_def)
    have s: "to_u32 (len + (off + 4)) = len + (off + 4)" "to_s32 (12 + off + len) = e"
      using l off emax by (simp_all add: to_u32_id to_s32_id algebra_simps)
    show ?thesis
      using isprop p4 ld4 s v l ptr ue al emax off blob_simps(6) [OF b]
      by (simp add: eq)
  qed
qed

section \<open>Walks over an unchanged front part\<close>

text \<open>
  \<open>front m m' fdt lim\<close>: two trees in order whose structure blocks start at the same place with the
  same \<open>lim\<close> bytes.
\<close>

definition front :: "mem \<Rightarrow> mem \<Rightarrow> int \<Rightarrow> int \<Rightarrow> bool" where
  "front m m' fdt lim \<longleftrightarrow> rw_ok m fdt \<and> rw_ok m' fdt \<and> h_off_struct m' fdt = h_off_struct m fdt \<and>
     lim \<le> h_size_struct m' fdt \<and>
     (\<forall>a. prop_addr m fdt 0 \<le> a \<and> a < prop_addr m fdt lim \<longrightarrow> m' a = m a)"

lemma front_sfield:
  "front m m' fdt lim \<Longrightarrow> 0 \<le> off \<Longrightarrow> off + 4 \<le> lim \<Longrightarrow> sfield m' fdt off = sfield m fdt off"
  unfolding sfield_def hdr_def front_def by (elim conjE, simp, subst fdt32_ld_bytes [of m' _ m]) simp_all

lemma cstr_at_cong:
  "cstr_at m p s \<Longrightarrow> (\<And>a. p \<le> a \<Longrightarrow> a \<le> p + int (length s) \<Longrightarrow> m' a = m a) \<Longrightarrow> cstr_at m' p s"
  by (auto simp: cstr_at_iff bytes_at_iff)

lemma front_fits:
  assumes f: "front m m' fdt lim" and n: "0 \<le> off" "off + n \<le> lim"
  shows "struct_fits m' fdt off n"
proof -
  have r: "rw_ok m' fdt" "lim \<le> h_size_struct m' fdt" using f by (simp_all add: front_def)
  show ?thesis using rw_bounds [OF r(1)] r(2) n by (simp add: struct_fits_def)
qed

lemma front_tag_at:
  assumes f: "front m m' fdt lim" and t: "tag_at m fdt off tag nx" "nx \<le> lim"
  shows "tag_at m' fdt off tag nx" "fdt_next_tag m' fdt off = Some (tag, nx)"
proof -
  have r: "rw_ok m fdt" "rw_ok m' fdt" "h_off_struct m' fdt = h_off_struct m fdt"
    "\<forall>a. prop_addr m fdt 0 \<le> a \<and> a < prop_addr m fdt lim \<longrightarrow> m' a = m a"
    using f by (simp_all add: front_def)
  note tb = tag_at_bounds [OF rw_blob [OF r(1)] t(1)]
  have v: "h_version m fdt = 17" "h_version m' fdt = 17"
    by (rule rw_bounds(10) [OF r(1)], rule rw_bounds(10) [OF r(2)])
  from t obtain e where e: "tag = sfield m fdt off" "tag_end m fdt off tag e" "off + 4 \<le> e"
    "tag \<in> {FDT_BEGIN_NODE, FDT_END_NODE, FDT_PROP, FDT_NOP, FDT_END}"
    "nx = 4 * ((e + 3) div 4)" by (auto simp: tag_at_def)
  have el: "e \<le> lim" using e(5) t(2) by simp
  have s: "sfield m' fdt off = tag" using front_sfield [OF f tb(1)] e(1,3) el by simp
  have "tag_end m' fdt off tag e"
  proof (cases "tag = FDT_BEGIN_NODE")
    case True
    with e(2) obtain s where c: "cstr_at m (fdt + h_off_struct m fdt + off + 4) s" "e = off + 5 + int (length s)"
      by (auto simp: tag_end_def)
    have "cstr_at m' (fdt + h_off_struct m fdt + off + 4) s"
      by (rule cstr_at_cong [OF c(1)]) (use r(4) c(2) el tb(1) in simp)
    with True c(2) r(3) show ?thesis by (auto simp: tag_end_def)
  next
    case False
    show ?thesis
    proof (cases "tag = FDT_PROP")
      case True
      have "off + 12 \<le> e" using e(2) True v by (auto simp: tag_end_def Let_def)
      then have "sfield m' fdt (off + 4) = sfield m fdt (off + 4)"
        using front_sfield [OF f, of "off + 4"] tb(1) el by simp
      with True e(2) v show ?thesis by (simp add: tag_end_def Let_def)
    qed (use False e(2) in \<open>simp add: tag_end_def\<close>)
  qed
  moreover have "struct_fits m' fdt off (e - off)" by (rule front_fits [OF f tb(1)]) (use el in simp)
  ultimately show t': "tag_at m' fdt off tag nx" using s e by (auto simp: tag_at_def)
  show "fdt_next_tag m' fdt off = Some (tag, nx)"
    by (rule tag_at_next [OF rw_blob [OF r(2)] _ t']) (simp add: v)
qed

lemma prop_atI:
  assumes "rw_ok m fdt" "tag_at m fdt off FDT_PROP nx" "off mod 4 = 0"
  shows "prop_at m fdt off"
  using tag_at_next [OF rw_blob [OF assms(1)] _ assms(2)] rw_bounds(10) [OF assms(1)] assms(2,3)
  by (auto simp: prop_at_def)

lemma front_nextprop:
  assumes f: "front m m' fdt lim"
  shows "0 \<le> off \<Longrightarrow> off \<le> INT32_MAX \<Longrightarrow> off mod 4 = 0 \<Longrightarrow> nextprop m fdt off = Some r \<Longrightarrow> 0 \<le> r \<Longrightarrow> r \<le> lim \<Longrightarrow>
    prop_at m' fdt r \<Longrightarrow> nextprop m' fdt off = Some r"
proof (induction "nat (INT32_MAX - off)" arbitrary: off rule: less_induct)
  case less
  have b: "blob m fdt" using f by (simp add: front_def rw_blob)
  show ?case
  proof (rule fdt_next_tag_cases [OF b less.prems(2)])
    fix nx assume "fdt_next_tag m fdt off = Some (FDT_END, nx)"
      "nx = - FDT_ERR_TRUNCATED \<or> nx = - FDT_ERR_BADSTRUCTURE"
    with less.prems(4,5) show ?thesis by (subst (asm) nextprop.simps) auto
  next
    fix tag nx
    assume good: "fdt_next_tag m fdt off = Some (tag, nx)" "tag_at m fdt off tag nx"
    note tb = tag_at_bounds [OF b good(2)]
    consider (nop) "tag = FDT_NOP" | (isprop) "tag = FDT_PROP" | (other) "tag \<noteq> FDT_NOP" "tag \<noteq> FDT_PROP" by blast
    then show ?thesis
    proof cases
      case nop
      then have n: "nextprop m fdt nx = Some r" using less.prems(4) good(1) by (subst (asm) nextprop.simps) simp
      have nb: "0 \<le> nx" "nx \<le> INT32_MAX" using tb by simp_all
      have "nx \<le> r" using nextprop_spec [OF b nb tb(4)] n less.prems(5) by auto
      with less.prems(6) have "fdt_next_tag m' fdt off = Some (FDT_NOP, nx)"
        using front_tag_at(2) [OF f good(2)] nop by simp
      moreover have "nextprop m' fdt nx = Some r"
        using less.prems(5-7) less.prems(1) tb n by (intro less.hyps) auto
      ultimately show ?thesis by (subst nextprop.simps) simp
    next
      case isprop
      then have "r = off" using less.prems(4) good(1) by (subst (asm) nextprop.simps) simp
      with less.prems(7) show ?thesis by (subst nextprop.simps) (auto simp: prop_at_def)
    next
      case other
      with less.prems(4,5) good(1) show ?thesis
        by (subst (asm) nextprop.simps) (auto split: if_splits)
    qed
  qed
qed

lemma front_check_node:
  assumes f: "front m m' fdt lim" and n: "fdt_check_node_offset m fdt node = Some nx" "0 \<le> nx" "nx \<le> lim"
    and off: "node \<le> INT32_MAX"
  shows "fdt_check_node_offset m' fdt node = Some nx"
proof -
  have b: "blob m fdt" using f by (simp add: front_def rw_blob)
  from fdt_check_node_offset_spec [OF b off] n(1,2) have t: "node_at m fdt node" "tag_at m fdt node FDT_BEGIN_NODE nx"
    by auto
  have "0 \<le> node" "node mod 4 = 0" using tag_at_bounds(1) [OF b t(2)] t(1) by (simp_all add: node_at_def)
  then show ?thesis using front_tag_at(2) [OF f t(2) n(3)] by (simp add: fdt_check_node_offset_def)
qed

lemma front_first_property:
  assumes f: "front m m' fdt lim" and p: "fdt_first_property_offset m fdt node = Some r" "0 \<le> r" "r \<le> lim"
    "prop_at m' fdt r" and off: "node \<le> INT32_MAX"
  shows "fdt_first_property_offset m' fdt node = Some r"
proof -
  have b: "blob m fdt" using f by (simp add: front_def rw_blob)
  from fdt_check_node_offset_spec [OF b off] obtain nx where nx: "fdt_check_node_offset m fdt node = Some nx"
    "nx = - FDT_ERR_BADOFFSET \<or> tag_at m fdt node FDT_BEGIN_NODE nx" by blast
  have nn: "0 \<le> nx" and np: "nextprop m fdt nx = Some r"
    using p(1,2) nx(1) by (auto simp: fdt_first_property_offset_def split: if_splits)
  with nx(2) have "tag_at m fdt node FDT_BEGIN_NODE nx" by auto
  note tb = tag_at_bounds [OF b this]
  have nb: "nx \<le> INT32_MAX" using tb by simp
  have "nx \<le> r" using nextprop_spec [OF b nn nb tb(4)] np p(2) by auto
  with p(3) front_check_node [OF f nx(1) nn _ off] front_nextprop [OF f nn nb tb(4) np p(2-4)] nn
  show ?thesis by (simp add: fdt_first_property_offset_def)
qed

lemma front_next_property:
  assumes f: "front m m' fdt lim" and q: "prop_at m fdt off"
    and p: "fdt_next_property_offset m fdt off = Some r" "0 \<le> r" "r \<le> lim" "prop_at m' fdt r"
  shows "fdt_next_property_offset m' fdt off = Some r" "prop_at m' fdt off" "off + 12 \<le> r"
proof -
  have r: "rw_ok m fdt" "rw_ok m' fdt" using f by (simp_all add: front_def)
  note b = rw_blob [OF r(1)] and pb = prop_at_bounds [OF rw_blob [OF r(1)] q]
  from q obtain nx where t: "fdt_next_tag m fdt off = Some (FDT_PROP, nx)" "tag_at m fdt off FDT_PROP nx"
    and o: "off mod 4 = 0" by (auto simp: prop_at_def)
  note tb = tag_at_bounds [OF b t(2)]
  have np: "nextprop m fdt nx = Some r" using p(1) t(1) o pb(1) tb(1,2)
    by (simp add: fdt_next_property_offset_def fdt_check_prop_offset_def)
  have nb: "0 \<le> nx" "nx \<le> INT32_MAX" using tb by simp_all
  have nr: "nx \<le> r" using nextprop_spec [OF b nb tb(4)] np p(2) by auto
  with p(3) have t': "tag_at m' fdt off FDT_PROP nx" "fdt_next_tag m' fdt off = Some (FDT_PROP, nx)"
    using front_tag_at [OF f t(2)] by simp_all
  show "prop_at m' fdt off" by (rule prop_atI [OF r(2) t'(1) o])
  show "fdt_next_property_offset m' fdt off = Some r"
    using t'(2) o pb(1) nb front_nextprop [OF f nb tb(4) np p(2-4)]
    by (simp add: fdt_next_property_offset_def fdt_check_prop_offset_def)
  from t(2) rw_bounds(10) [OF r(1)] pb(3) have "off + 12 \<le> nx"
    by (auto simp: tag_at_def tag_end_def Let_def)
  with nr show "off + 12 \<le> r" by simp
qed

text \<open>
  The chain of properties up to \<open>p\<close>, found again after an edit behind it that keeps the names found
  before it apart from the one looked for.
\<close>

lemma front_props_from:
  assumes f: "front m m' fdt p" and p: "prop_at m' fdt p" "P' p"
    and P: "\<And>q. prop_at m fdt q \<Longrightarrow> q + 12 \<le> p \<Longrightarrow> P' q \<Longrightarrow> P q"
  shows "props_from m fdt off ps r \<Longrightarrow> r < 0 \<Longrightarrow> \<forall>q \<in> set ps. prop_at m fdt q \<Longrightarrow> find P ps = Some p \<Longrightarrow>
    \<exists>ps' r'. props_from m' fdt off ps' r' \<and> r' < 0 \<and> (\<forall>q \<in> set ps'. prop_at m' fdt q) \<and>
      find P' ps' = Some p \<and> prop_at m' fdt off \<and> off \<le> p"
proof (induction rule: props_from.induct)
  case (step off off' ps r)
  have r: "rw_ok m fdt" "rw_ok m' fdt" using f by (simp_all add: front_def)
  have q: "prop_at m fdt off" using step.prems by simp
  show ?case
  proof (cases "off = p")
    case True
    from props_from_exists [OF rw_blob [OF r(2)], of off] p(1) True obtain ps' r' where
      ps': "props_from m' fdt off ps' r'" "r' < 0" "\<forall>q \<in> set ps'. prop_at m' fdt q" by blast
    from ps'(1) step.hyps(1) ps'(2) obtain qs where "ps' = off # qs" by (auto elim: props_from.cases)
    with ps' p True show ?thesis by (intro exI [of _ ps'] exI [of _ r']) simp
  next
    case False
    with step.prems have nP: "\<not> P off" and fd: "find P ps = Some p" by (auto split: if_splits)
    from step.IH [OF step.prems(1) _ fd] step.prems obtain ps' r' where
      ih: "props_from m' fdt off' ps' r'" "r' < 0" "\<forall>q \<in> set ps'. prop_at m' fdt q" "find P' ps' = Some p"
        "prop_at m' fdt off'" "off' \<le> p" by auto
    have "0 \<le> off'" by (rule prop_at_bounds(1) [OF rw_blob [OF r(2)] ih(5)])
    note nx = front_next_property [OF f q step.hyps(2) this ih(6,5)]
    have "\<not> P' off" using P [OF q] nP nx(3) ih(6) by auto
    moreover have "props_from m' fdt off (off # ps') r'" by (rule props_from.step [OF step.hyps(1) nx(1) ih(1)])
    ultimately show ?thesis using ih nx(2,3) by (intro exI [of _ "off # ps'"] exI [of _ r']) simp
  qed
qed simp

section \<open>Names in the strings block\<close>

lemma str_is_iff:
  assumes r: "rw_ok m fdt"
  shows "str_is m fdt off s \<longleftrightarrow> 0 \<le> off \<and> off + int (length s) < h_size_strings m fdt \<and>
    cstr_at m (fdt + h_off_strings m fdt + off) s"
proof -
  note b = rw_bounds [OF r] and bl = rw_blob [OF r]
  have mg: "hdr m fdt 0 = FDT_MAGIC" using r by (simp add: rw_ok_def)
  define a l where "a = fdt + (off + h_off_strings m fdt)" and "l = h_size_strings m fdt - off"
  show ?thesis
  proof (cases "0 \<le> off \<and> off < h_size_strings m fdt")
    case True
    have u: "to_u32 (off + h_off_strings m fdt) = off + h_off_strings m fdt" using True b by (simp add: to_u32_id)
    have rg: "fdt \<le> a" "0 \<le> l" "a + l \<le> fdt + h_totalsize m fdt" using True b by (simp_all add: a_def l_def)
    have g: "fdt_get_string m fdt off = do { n \<leftarrow> memchr m a 0 (nat l);
        Some (if n = 0 then (0, - FDT_ERR_TRUNCATED) else (a, to_s32 (n - a))) }"
    proof -
      have "nat (if l < h_totalsize m fdt - (off + h_off_strings m fdt) then l
          else h_totalsize m fdt - (off + h_off_strings m fdt)) = nat l" using b by (auto simp: l_def)
      then show ?thesis using True b mg u
        by (simp add: fdt_get_string_def rw_ro_probe [OF r] rw_simps [OF r] a_def [symmetric] l_def [symmetric] Let_def
            split: if_splits)
    qed
    have a0: "a \<noteq> 0" "0 < a" using b True by (simp_all add: a_def)
    have tr: "0 \<le> off \<and> off + int (length s) < h_size_strings m fdt \<and>
        cstr_at m (fdt + h_off_strings m fdt + off) s \<longleftrightarrow> int (length s) < l \<and> cstr_at m a s"
      using True by (simp add: a_def l_def less_diff_eq add.commute add.left_commute)
    from string_in_memchr [OF bl rg] show ?thesis
    proof (elim disjE exE conjE)
      assume z: "memchr m a 0 (nat l) = Some 0"
      then have "\<not> str_is m fdt off s" by (simp add: str_is_def g)
      moreover have "\<not> (int (length s) < l \<and> cstr_at m a s)"
      proof
        assume c: "int (length s) < l \<and> cstr_at m a s"
        then have "memchr m a 0 (nat l) = Some (a + int (length s))"
          using memchr_found [of m a s 0 "nat l"] by (auto simp: cstr_at_iff bytes_at_snoc)
        with z a0 show False by simp
      qed
      ultimately show ?thesis unfolding tr by blast
    next
      fix t assume t: "string_in m fdt a t" "int (length t) < l"
        "memchr m a 0 (nat l) = Some (a + int (length t))"
      have c: "cstr_at m a t" using t(1) by (simp add: string_in_def)
      have "int (length t) \<le> INT32_MAX" using t(2) b True by (simp add: l_def)
      then have "to_s32 (int (length t)) = int (length t)" by (simp add: wrap_simps)
      then have "fdt_get_string m fdt off = Some (a, int (length t))" using t(3) a0 by (simp add: g)
      then have "str_is m fdt off s \<longleftrightarrow> length t = length s \<and> cstr_at m a s" using a0(1) by (simp add: str_is_def)
      then have "str_is m fdt off s \<longleftrightarrow> s = t" using c cstr_at_unique [OF c, of s] by metis
      moreover have "int (length s) < l \<and> cstr_at m a s \<longleftrightarrow> s = t" using t(2) c cstr_at_unique [OF c, of s] by metis
      ultimately show ?thesis unfolding tr by blast
    qed
  next
    case False
    then have "\<not> str_is m fdt off s"
      using mg b
      by (auto simp: str_is_def fdt_get_string_def rw_ro_probe [OF r] rw_simps [OF r] Let_def split: if_splits)
    with False show ?thesis by auto
  qed
qed

section \<open>A property that was set is found\<close>

text \<open>
  \<open>cell_at m fdt p so len\<close>: a property cell at the aligned offset \<open>p\<close> with the given words, inside
  the structure block.
\<close>

definition cell_at :: "mem \<Rightarrow> int \<Rightarrow> int \<Rightarrow> int \<Rightarrow> int \<Rightarrow> bool" where
  "cell_at m fdt p so len \<longleftrightarrow> p mod 4 = 0 \<and> 0 \<le> p \<and> 0 \<le> len \<and> p + 12 + len \<le> h_size_struct m fdt \<and>
     sfield m fdt p = FDT_PROP \<and> sfield m fdt (p + 4) = len \<and> sfield m fdt (p + 8) = so"

lemma cell_prop_at:
  assumes r: "rw_ok m fdt" and c: "cell_at m fdt p so len"
  shows "prop_at m fdt p"
proof (rule prop_atI [OF r])
  have "tag_end m fdt p FDT_PROP (p + 12 + len)" using c by (simp add: cell_at_def tag_end_def)
  moreover have "struct_fits m fdt p (12 + len)"
    using c rw_bounds [OF r] by (simp add: cell_at_def struct_fits_def)
  ultimately show "tag_at m fdt p FDT_PROP (4 * ((p + 12 + len + 3) div 4))"
    using c unfolding tag_at_def cell_at_def
    by (intro conjI exI [of _ "p + 12 + len"]) (simp_all add: algebra_simps)
qed (use c in \<open>simp add: cell_at_def\<close>)

text \<open>The property of the given name is at \<open>p\<close>.\<close>

definition prop_found :: "mem \<Rightarrow> int \<Rightarrow> int \<Rightarrow> u8 list \<Rightarrow> int \<Rightarrow> bool" where
  "prop_found m fdt node nm p \<longleftrightarrow> (\<exists>ps r. props_of m fdt node ps r \<and> find (named m fdt nm) ps = Some p)"

lemma prop_found_getprop:
  assumes r: "rw_ok m fdt" and n: "c_string m name nm" and p: "prop_found m fdt node nm p"
  shows "fdt_getprop m fdt node name = Some (prop_addr m fdt p + 12, sfield m fdt (p + 4))"
proof -
  from p obtain ps e where ps: "props_of m fdt node ps e" "find (named m fdt nm) ps = Some p"
    by (auto simp: prop_found_def)
  then have "prop_at m fdt p" by (auto simp: props_of_def find_Some_iff)
  then have "data_addr m fdt p = prop_addr m fdt p + 12"
    using data_addr_spec(3) [OF rw_blob [OF r]] rw_bounds(10) [OF r] by simp
  with fdt_getprop_lookup [OF rw_blob [OF r] ps(1) n] ps(2) show ?thesis by (simp add: lookup_def)
qed

text \<open>A property resized in place: it is still the first one of its name.\<close>

lemma replaced_found:
  assumes f: "front m m' fdt p" and off: "node \<le> INT32_MAX" and ps: "prop_found m fdt node nm p"
    and c: "cell_at m' fdt p (sfield m fdt (p + 8)) len"
    and s: "\<And>so t. str_is m' fdt so t \<longleftrightarrow> str_is m fdt so t"
  shows "prop_found m' fdt node nm p"
proof -
  have r: "rw_ok m fdt" "rw_ok m' fdt" using f by (simp_all add: front_def)
  from ps obtain qs e g where g: "props_from m fdt g qs e" "e < 0" "\<forall>q \<in> set qs. prop_at m fdt q"
    "find (named m fdt nm) qs = Some p" "fdt_first_property_offset m fdt node = Some g"
    by (auto simp: prop_found_def props_of_def)
  have p: "prop_at m' fdt p" by (rule cell_prop_at [OF r(2) c])
  have "named m fdt nm p" using g(4) by (auto simp: find_Some_iff)
  then have np: "named m' fdt nm p" using c s by (simp add: named_def cell_at_def)
  have P: "named m fdt nm q" if "prop_at m fdt q" "q + 12 \<le> p" "named m' fdt nm q" for q
    using that front_sfield [OF f, of "q + 8"] prop_at_bounds(1) [OF rw_blob [OF r(1)] that(1)] s
    by (simp add: named_def)
  from front_props_from [where P = "named m fdt nm" and P' = "named m' fdt nm", OF f p np P g(1-4)] obtain ps' r' where
    w: "props_from m' fdt g ps' r'" "r' < 0" "\<forall>q \<in> set ps'. prop_at m' fdt q"
      "find (named m' fdt nm) ps' = Some p" "prop_at m' fdt g" "g \<le> p" by blast
  have "fdt_first_property_offset m' fdt node = Some g"
    by (rule front_first_property [OF f g(5) prop_at_bounds(1) [OF rw_blob [OF r(2)] w(5)] w(6,5) off])
  with w show ?thesis unfolding prop_found_def props_of_def by blast
qed

text \<open>A property placed right behind the name of the node: it is the first one of the node.\<close>

lemma added_found:
  assumes f: "front m m' fdt nx" and off: "node \<le> INT32_MAX"
    and nx: "fdt_check_node_offset m fdt node = Some nx" and c: "cell_at m' fdt nx so len"
    and s: "str_is m' fdt (to_s32 so) nm"
  shows "prop_found m' fdt node nm nx"
proof -
  have r: "rw_ok m' fdt" using f by (simp add: front_def)
  have p: "prop_at m' fdt nx" by (rule cell_prop_at [OF r c])
  have n0: "0 \<le> nx" using c by (simp add: cell_at_def)
  have "nextprop m' fdt nx = Some nx" using p by (subst nextprop.simps) (auto simp: prop_at_def)
  then have ff: "fdt_first_property_offset m' fdt node = Some nx"
    using front_check_node [OF f nx n0 _ off] n0 by (simp add: fdt_first_property_offset_def)
  from props_from_exists [OF rw_blob [OF r], of nx] p obtain ps e where
    ps: "props_from m' fdt nx ps e" "e < 0" "\<forall>q \<in> set ps. prop_at m' fdt q" by blast
  with n0 obtain qs where "ps = nx # qs" by (auto elim: props_from.cases)
  moreover have "named m' fdt nm nx" using c s by (simp add: named_def cell_at_def)
  ultimately have "find (named m' fdt nm) ps = Some nx" by simp
  with ps ff show ?thesis unfolding prop_found_def props_of_def by blast
qed

text \<open>Names keep their meaning when the strings block is moved as a whole.\<close>

lemma str_is_moved:
  assumes r: "rw_ok m fdt" "rw_ok m' fdt" and z: "h_size_strings m' fdt = h_size_strings m fdt"
    and s: "\<And>i. 0 \<le> i \<Longrightarrow> i < h_size_strings m fdt \<Longrightarrow>
      m' (fdt + h_off_strings m' fdt + i) = m (fdt + h_off_strings m fdt + i)"
  shows "str_is m' fdt so t \<longleftrightarrow> str_is m fdt so t"
proof -
  have "cstr_at m' (fdt + h_off_strings m' fdt + so) t \<longleftrightarrow> cstr_at m (fdt + h_off_strings m fdt + so) t"
    if "0 \<le> so" "so + int (length t) < h_size_strings m fdt"
    using s [of "so + int (length t)"] s [of "so + int k" for k] that
    by (auto simp: cstr_at_iff bytes_at_iff add.assoc)
  then show ?thesis by (auto simp: str_is_iff [OF r(1)] str_is_iff [OF r(2)] z)
qed

text \<open>What a gap opened or closed in the structure block keeps.\<close>

lemma struct_spliced_keeps:
  assumes r: "rw_ok m fdt" and s: "struct_spliced m m' fdt (prop_addr m fdt p) old new"
    and p: "0 \<le> p" "p + old \<le> h_size_struct m fdt" and z: "0 \<le> old" "0 \<le> new"
  shows "rw_ok m' fdt" "h_off_struct m' fdt = h_off_struct m fdt" "str_is m' fdt so t \<longleftrightarrow> str_is m fdt so t"
    "h_size_struct m' fdt = h_size_struct m fdt + new - old" "k \<le> p \<Longrightarrow> front m m' fdt k"
proof -
  note b = rw_bounds [OF r]
  show r': "rw_ok m' fdt" using s by (simp add: struct_spliced_def edits_def)
  show o: "h_off_struct m' fdt = h_off_struct m fdt" using s same_butD [of "{12, 36}" m m' fdt 8]
    by (simp add: struct_spliced_def)
  show zs: "h_size_struct m' fdt = h_size_struct m fdt + new - old" using s by (simp add: struct_spliced_def)
  have sz: "h_size_strings m' fdt = h_size_strings m fdt" using s same_butD [of "{12, 36}" m m' fdt 32]
    by (simp add: struct_spliced_def)
  have sh: "prop_addr m fdt p + old \<le> a \<Longrightarrow> a < fdt + rw_end m fdt \<Longrightarrow> m' (a - old + new) = m a" for a
    using s by (simp add: struct_spliced_def)
  have os: "h_off_strings m' fdt = h_off_strings m fdt + new - old" using s by (simp add: struct_spliced_def)
  show "str_is m' fdt so t \<longleftrightarrow> str_is m fdt so t"
  proof (rule str_is_moved [OF r r' sz])
    fix i assume "0 \<le> i" "i < h_size_strings m fdt"
    with sh [of "fdt + h_off_strings m fdt + i"] p b
    show "m' (fdt + h_off_strings m' fdt + i) = m (fdt + h_off_strings m fdt + i)"
      by (simp add: os rw_end_def algebra_simps)
  qed
  show "front m m' fdt k" if "k \<le> p"
    using that s r r' o zs p z b by (simp add: front_def struct_spliced_def)
qed

text \<open>A write inside the structure block behind \<open>k\<close>.\<close>

lemma write_keeps:
  assumes r: "rw_ok m fdt" and w: "writes_only m m' (prop_addr m fdt p) n"
    and p: "0 \<le> p" "0 \<le> n" "p + n \<le> h_size_struct m fdt"
  shows "rw_ok m' fdt" "h_off_struct m' fdt = h_off_struct m fdt" "str_is m' fdt so t \<longleftrightarrow> str_is m fdt so t"
    "h_size_struct m' fdt = h_size_struct m fdt" "k \<le> p \<Longrightarrow> front m m' fdt k"
proof -
  note b = rw_bounds [OF r]
  have lo: "fdt + 40 \<le> prop_addr m fdt p" "prop_addr m fdt p + n \<le> fdt + h_totalsize m fdt" using b p by simp_all
  note bd = rw_body [OF r w lo]
  show r': "rw_ok m' fdt" by (rule bd(3))
  show o: "h_off_struct m' fdt = h_off_struct m fdt" and zs: "h_size_struct m' fdt = h_size_struct m fdt"
    by (simp_all add: bd(4))
  have sz: "h_size_strings m' fdt = h_size_strings m fdt" "h_off_strings m' fdt = h_off_strings m fdt"
    by (simp_all add: bd(4))
  show "str_is m' fdt so t \<longleftrightarrow> str_is m fdt so t"
    by (rule str_is_moved [OF r r' sz(1)], unfold sz(2), rule writes_only_same [OF w]) (use b p in simp)
  show "front m m' fdt k" if "k \<le> p"
    using that r r' o zs p writes_only_same [OF w] by (simp add: front_def)
qed

lemma sfield_frame:
  assumes "writes_only m m' a n" "h_off_struct m' fdt = h_off_struct m fdt"
    "prop_addr m fdt off + 4 \<le> a \<or> a + n \<le> prop_addr m fdt off"
  shows "sfield m' fdt off = sfield m fdt off"
  using fdt32_ld_frame [OF assms(1,3)] assms(2) by (simp add: sfield_def hdr_def add.assoc)

lemma sfield_ld: "fdt32_ld m (prop_addr m fdt off) = Some v \<Longrightarrow> sfield m fdt off = v"
  by (simp add: sfield_def hdr_def add.assoc)

lemma tag_size_le: "n \<le> e \<Longrightarrow> e mod 4 = 0 \<Longrightarrow> tag_size n \<le> e"
  unfolding tag_size_def by presburger

lemma tag_next_le:
  assumes r: "rw_ok m fdt" "h_size_struct m fdt mod 4 = 0" and t: "tag_at m fdt off tag nx"
  shows "nx \<le> h_size_struct m fdt"
proof -
  from t rw_bounds(10) [OF r(1)] obtain e where "e \<le> h_size_struct m fdt" "nx = tag_size e"
    by (auto simp: tag_at_def struct_fits_def tag_size_def)
  with r(2) show ?thesis by (simp add: tag_size_le)
qed

lemma resized_found:
  assumes r: "rw_ok m fdt" "h_size_struct m fdt mod 4 = 0" and off: "node \<le> INT32_MAX"
    and p: "prop_at m fdt p" "4 \<le> p" "prop_found m fdt node nm p" and len: "0 \<le> len" "len \<le> 2147483640"
    and s: "struct_spliced m m1 fdt (prop_addr m fdt p + 12) (tag_size (sfield m fdt (p + 4))) (tag_size len)"
      "writes_only m1 m' (prop_addr m fdt p + 4) 4" "fdt32_ld m' (prop_addr m fdt p + 4) = Some len"
  shows "prop_found m' fdt node nm p" "cell_at m' fdt p (sfield m fdt (p + 8)) len"
    "p + 12 + tag_size len \<le> h_size_struct m' fdt" "rw_ok m' fdt" "h_off_struct m' fdt = h_off_struct m fdt"
proof -
  define l where "l = sfield m fdt (p + 4)"
  note rg = rw_prop_range [OF r(1) p(1,2), folded l_def]
  have p4: "p mod 4 = 0" using p(1) by (simp add: prop_at_def)
  have fits: "p + 12 + tag_size l \<le> h_size_struct m fdt"
    using tag_size_le [of l "h_size_struct m fdt - p - 12"] rg(3) p4 r(2) by (simp add: mod_diff_eq [symmetric])
  have s1: "struct_spliced m m1 fdt (prop_addr m fdt (p + 12)) (tag_size l) (tag_size len)"
    using s(1) by (simp add: l_def add.assoc)
  have z: "0 \<le> tag_size l" "0 \<le> tag_size len" "0 \<le> p + 12"
    using rg(1) len p(2) by (simp_all add: tag_size_nonneg)
  note k1 = struct_spliced_keeps [OF r(1) s1 z(3) fits z(1,2)]
  have s2: "writes_only m1 m' (prop_addr m1 fdt (p + 4)) 4" using s(2) k1(2) by (simp add: add.assoc)
  have b2: "0 \<le> p + 4" "(0::int) \<le> 4" "p + 4 + 4 \<le> h_size_struct m1 fdt" using p(2) k1(4) fits z by simp_all
  note k2 = write_keeps [OF k1(1) s2 b2]
  have f1: "front m m1 fdt (p + 12)" by (rule k1(5)) simp
  have f2: "front m1 m' fdt p" by (rule k2(5)) simp
  have f: "front m m' fdt p" using f1 f2 k1(2) k2(2) by (simp add: front_def)
  show r': "rw_ok m' fdt" and o': "h_off_struct m' fdt = h_off_struct m fdt" using k2(1,2) k1(2) by simp_all
  have "sfield m' fdt p = sfield m1 fdt p" "sfield m' fdt (p + 8) = sfield m1 fdt (p + 8)"
    by (rule sfield_frame [OF s2 k2(2)]; simp)+
  moreover have "sfield m1 fdt p = sfield m fdt p" "sfield m1 fdt (p + 8) = sfield m fdt (p + 8)"
    by (rule front_sfield [OF f1]; use p(2) in simp)+
  moreover have "sfield m' fdt (p + 4) = len" using s(3) o' by (intro sfield_ld) (simp add: add.assoc)
  moreover have "sfield m fdt p = FDT_PROP" using p(1) by (auto simp: prop_at_def tag_at_def)
  ultimately show c: "cell_at m' fdt p (sfield m fdt (p + 8)) len"
    using p4 p(2) len fits k1(4) k2(4) tag_size_bounds(1) [of len] by (simp add: cell_at_def)
  show "p + 12 + tag_size len \<le> h_size_struct m' fdt" using fits k1(4) k2(4) by simp
  show "prop_found m' fdt node nm p"
    by (rule replaced_found [OF f off p(3) c]) (simp add: k2(3) k1(3))
qed

lemma placed_found:
  assumes r: "rw_ok m fdt" "h_size_struct m fdt mod 4 = 0" and off: "node \<le> INT32_MAX"
    and nx: "fdt_check_node_offset m fdt node = Some nx" "tag_at m fdt node FDT_BEGIN_NODE nx"
    and len: "0 \<le> len" "len \<le> 2147483600" and so: "0 \<le> so" "so \<le> INT32_MAX" "str_is m fdt so nm"
    and s: "struct_spliced m m1 fdt (prop_addr m fdt nx) 0 (12 + tag_size len)"
      "writes_only m1 m' (prop_addr m fdt nx) 12" "fdt32_ld m' (prop_addr m fdt nx) = Some FDT_PROP"
      "fdt32_ld m' (prop_addr m fdt nx + 4) = Some len" "fdt32_ld m' (prop_addr m fdt nx + 8) = Some (to_u32 so)"
  shows "prop_found m' fdt node nm nx" "cell_at m' fdt nx so len"
    "nx + 12 + tag_size len \<le> h_size_struct m' fdt" "rw_ok m' fdt" "h_off_struct m' fdt = h_off_struct m fdt"
proof -
  note tb = tag_at_bounds [OF rw_blob [OF r(1)] nx(2)]
  have n: "0 \<le> nx" "nx + 0 \<le> h_size_struct m fdt" using tb tag_next_le [OF r nx(2)] by simp_all
  have z: "(0::int) \<le> 0" "0 \<le> 12 + tag_size len" using tag_size_nonneg [OF len(1)] by simp_all
  note k1 = struct_spliced_keeps [OF r(1) s(1) n z]
  have s2: "writes_only m1 m' (prop_addr m1 fdt nx) 12" using s(2) k1(2) by simp
  have b2: "(0::int) \<le> 12" "nx + 12 \<le> h_size_struct m1 fdt" using n k1(4) tag_size_nonneg [OF len(1)] by simp_all
  note k2 = write_keeps [OF k1(1) s2 n(1) b2]
  have f1: "front m m1 fdt nx" and f2: "front m1 m' fdt nx" by (rule k1(5), simp) (rule k2(5), simp)
  have f: "front m m' fdt nx" using f1 f2 k1(2) k2(2) by (simp add: front_def)
  show r': "rw_ok m' fdt" and o': "h_off_struct m' fdt = h_off_struct m fdt" using k2(1,2) k1(2) by simp_all
  have u: "to_u32 so = so" "to_s32 so = so" using so by (simp_all add: to_u32_id to_s32_id)
  have "sfield m' fdt nx = FDT_PROP" "sfield m' fdt (nx + 4) = len" "sfield m' fdt (nx + 8) = so"
    using s(3-5) o' u by (auto intro!: sfield_ld simp: add.assoc)
  then show c: "cell_at m' fdt nx so len"
    using tb(4) n len k1(4) k2(4) tag_size_bounds(1) [of len] by (simp add: cell_at_def)
  show "nx + 12 + tag_size len \<le> h_size_struct m' fdt" using n k1(4) k2(4) by simp
  show "prop_found m' fdt node nm nx"
    by (rule added_found [OF f off nx(1) c]) (simp add: u k2(3) k1(3) so(3))
qed

text \<open>
  \<open>has_string m ma fdt so nm\<close>: the tree with the string \<open>nm\<close> at \<open>so\<close>, which was there before or
  was put behind the other strings.
\<close>

definition has_string :: "mem \<Rightarrow> mem \<Rightarrow> int \<Rightarrow> int \<Rightarrow> u8 list \<Rightarrow> bool" where
  "has_string m ma fdt so nm \<longleftrightarrow> rw_ok ma fdt \<and> same_but {32} m ma fdt \<and> h_size_strings m fdt \<le> h_size_strings ma fdt \<and>
     (\<forall>a. fdt + 40 \<le> a \<and> a < fdt + rw_end m fdt \<longrightarrow> ma a = m a) \<and>
     0 \<le> so \<and> so + int (length nm) + 1 \<le> h_size_strings ma fdt \<and>
     bytes_at ma (fdt + h_off_strings ma fdt + so) (nm @ [0])"

lemma find_add_string_has:
  assumes r: "rw_ok m fdt" and n: "c_string m name nm" and ap: "apart m fdt name (int (length nm) + 1)"
  obtains (full) "rw_find_add_string m fdt name (int (length nm)) = Some (- FDT_ERR_NOSPACE, False, m)"
    | (has) so al ma where "rw_find_add_string m fdt name (int (length nm)) = Some (so, al, ma)"
        "has_string m ma fdt so nm"
proof -
  note nb = c_string_bytes [OF n]
  have ap': "apart m fdt name (int (length nm))" using ap by auto
  have l: "int (length nm) \<le> 2147483640" using n by (simp add: c_string_def)
  show thesis
  proof (rule rw_find_add_string_spec [OF r nb(1-3) l ap'])
    fix so assume "rw_find_add_string m fdt name (int (length nm)) = Some (so, False, m)" "0 \<le> so"
      "so + int (length nm) + 1 \<le> h_size_strings m fdt" "bytes_at m (fdt + h_off_strings m fdt + so) (nm @ [0])"
    with has [of so False m] r show thesis by (simp add: has_string_def same_but_def writes_only_def)
  next
    fix ma assume f: "rw_find_add_string m fdt name (int (length nm)) = Some (h_size_strings m fdt, True, ma)"
      "same_but {32} m ma fdt" "edits m ma fdt" "h_size_strings ma fdt = h_size_strings m fdt + int (length nm) + 1"
      "\<forall>a. fdt + 40 \<le> a \<and> a < fdt + rw_end m fdt \<longrightarrow> ma a = m a" "bytes_at ma (fdt + rw_end m fdt) (nm @ [0])"
    have "h_off_strings ma fdt = h_off_strings m fdt" using same_butD [OF f(2)] by simp
    with has [OF f(1)] f rw_bounds(6) [OF r] show thesis
      by (simp add: has_string_def edits_def rw_end_def add.assoc)
  qed (rule full)
qed

lemma has_string_keeps:
  assumes r: "rw_ok m fdt" "h_size_struct m fdt mod 4 = 0" and s: "has_string m ma fdt so nm" and z: "0 \<notin> set nm"
  shows "rw_ok ma fdt" "h_size_struct ma fdt = h_size_struct m fdt" "h_off_struct ma fdt = h_off_struct m fdt"
    "front m ma fdt (h_size_struct m fdt)" "str_is ma fdt so nm" "so \<le> INT32_MAX"
    "fdt_check_node_offset m fdt node = Some nx \<Longrightarrow> tag_at m fdt node FDT_BEGIN_NODE nx \<Longrightarrow> 0 \<le> nx \<Longrightarrow> node \<le> INT32_MAX \<Longrightarrow>
       fdt_check_node_offset ma fdt node = Some nx \<and> tag_at ma fdt node FDT_BEGIN_NODE nx"
proof -
  show ra: "rw_ok ma fdt" using s by (simp add: has_string_def)
  have sb: "same_but {32} m ma fdt" using s by (simp add: has_string_def)
  show h: "h_size_struct ma fdt = h_size_struct m fdt" "h_off_struct ma fdt = h_off_struct m fdt"
    using same_butD [OF sb] by simp_all
  show fr: "front m ma fdt (h_size_struct m fdt)"
    using r(1) ra h s rw_bounds [OF r(1)] by (simp add: front_def has_string_def rw_end_def)
  show "str_is ma fdt so nm" using s z by (simp add: has_string_def str_is_iff [OF ra] cstr_at_iff bytes_at_snoc)
  show "so \<le> INT32_MAX" using s rw_bounds [OF ra] by (simp add: has_string_def)
  assume nx: "fdt_check_node_offset m fdt node = Some nx" "tag_at m fdt node FDT_BEGIN_NODE nx" "0 \<le> nx" "node \<le> INT32_MAX"
  have "nx \<le> h_size_struct m fdt" by (rule tag_next_le [OF r nx(2)])
  with front_check_node [OF fr nx(1,3) _ nx(4)] front_tag_at(1) [OF fr nx(2)]
  show "fdt_check_node_offset ma fdt node = Some nx \<and> tag_at ma fdt node FDT_BEGIN_NODE nx" by simp
qed

text \<open>What a successful \<open>fdt_add_property_\<close> did.\<close>

lemma add_property_placed:
  assumes r: "rw_ok m fdt" and off: "node \<le> INT32_MAX" and n: "c_string m name nm"
    and ap: "apart m fdt name (int (length nm) + 1)" and len: "0 \<le> len" "len \<le> 2147483600"
    and run: "fdt_add_property m fdt node name (int (length nm)) len = Some (0, pa, m')"
  obtains nx so ma m1 where "fdt_check_node_offset m fdt node = Some nx" "tag_at m fdt node FDT_BEGIN_NODE nx"
      "has_string m ma fdt so nm" "pa = prop_addr ma fdt nx"
      "struct_spliced ma m1 fdt (prop_addr ma fdt nx) 0 (12 + tag_size len)"
      "writes_only m1 m' (prop_addr ma fdt nx) 12" "fdt32_ld m' (prop_addr ma fdt nx) = Some FDT_PROP"
      "fdt32_ld m' (prop_addr ma fdt nx + 4) = Some len" "fdt32_ld m' (prop_addr ma fdt nx + 8) = Some (to_u32 so)"
proof -
  from fdt_check_node_offset_spec [OF rw_blob [OF r] off] obtain nx where
    nx: "fdt_check_node_offset m fdt node = Some nx" "nx = - FDT_ERR_BADOFFSET \<or> tag_at m fdt node FDT_BEGIN_NODE nx"
    by blast
  have nn: "0 \<le> nx" using run nx(1) by (cases "nx < 0") (auto simp: fdt_add_property_def)
  with nx(2) have t: "tag_at m fdt node FDT_BEGIN_NODE nx" by auto
  have nb: "nx \<le> 2147483644" using tag_at_bounds [OF rw_blob [OF r] t] by simp
  show thesis
  proof (rule find_add_string_has [OF r n ap])
    assume "rw_find_add_string m fdt name (int (length nm)) = Some (- FDT_ERR_NOSPACE, False, m)"
    with run nn show thesis by (simp add: fdt_add_property_def nx(1))
  next
    fix so al ma
    assume f: "rw_find_add_string m fdt name (int (length nm)) = Some (so, al, ma)" "has_string m ma fdt so nm"
    have ra: "rw_ok ma fdt" "0 \<le> so" using f(2) by (simp_all add: has_string_def)
    note tail = add_property_tail [OF len nx(1) nn f(1) ra(2,1)]
    show thesis
    proof (rule place_property [OF ra(1) nn nb len])
      fix e assume "fdt_splice_struct ma fdt (prop_addr ma fdt nx) 0 (12 + tag_size len) = Some (e, ma)" "e < 0"
      then show thesis using run by (simp add: tail bind_eq_Some_conv)
    next
      fix m1 m2 m3 mm
      assume s: "fdt_splice_struct ma fdt (prop_addr ma fdt nx) 0 (12 + tag_size len) = Some (0, m1)"
        "struct_spliced ma m1 fdt (prop_addr ma fdt nx) 0 (12 + tag_size len)"
        "fdt32_set m1 (prop_addr ma fdt nx) FDT_PROP = Some m2"
        "fdt32_set m2 (prop_addr ma fdt nx + 8) so = Some m3"
        "fdt32_set m3 (prop_addr ma fdt nx + 4) len = Some mm"
        "writes_only m1 mm (prop_addr ma fdt nx) 12" "fdt32_ld mm (prop_addr ma fdt nx) = Some FDT_PROP"
        "fdt32_ld mm (prop_addr ma fdt nx + 4) = Some len"
        "fdt32_ld mm (prop_addr ma fdt nx + 8) = Some (to_u32 so)"
      have e': "mm = m'" "pa = prop_addr ma fdt nx" using run s(1,3-5) by (simp_all add: tail)
      show thesis by (rule that [OF nx(1) t f(2) _ s(2)]) (use s(6-9) e' in simp_all)
    qed
  qed
qed

text \<open>What a successful \<open>fdt_setprop_placeholder\<close> did: resized the property it found, or added one.\<close>

lemma placeholder_cases:
  assumes r: "rw_ok m fdt" "h_size_struct m fdt mod 4 = 0" and off: "node \<le> INT32_MAX" and n: "c_string m name nm"
    and ap: "apart m fdt name (int (length nm) + 1)" and len: "0 \<le> len" "len \<le> 2147483600"
    and run: "fdt_setprop_placeholder_namelen m fdt node name (int (length nm)) len = Some (0, q, m')"
  obtains (resized) p ps e m1 where "q = prop_addr m fdt p + 12" "prop_at m fdt p" "4 \<le> p"
      "props_of m fdt node ps e" "find (named m fdt nm) ps = Some p"
      "struct_spliced m m1 fdt (prop_addr m fdt p + 12) (tag_size (sfield m fdt (p + 4))) (tag_size len)"
      "writes_only m1 m' (prop_addr m fdt p + 4) 4" "fdt32_ld m' (prop_addr m fdt p + 4) = Some len"
    | (added) nx so ma m1 where "\<And>ps e. props_of m fdt node ps e \<Longrightarrow> find (named m fdt nm) ps = None"
      "fdt_check_node_offset m fdt node = Some nx" "tag_at m fdt node FDT_BEGIN_NODE nx"
      "has_string m ma fdt so nm" "q = prop_addr ma fdt nx + 12"
      "struct_spliced ma m1 fdt (prop_addr ma fdt nx) 0 (12 + tag_size len)"
      "writes_only m1 m' (prop_addr ma fdt nx) 12" "fdt32_ld m' (prop_addr ma fdt nx) = Some FDT_PROP"
      "fdt32_ld m' (prop_addr ma fdt nx + 4) = Some len" "fdt32_ld m' (prop_addr ma fdt nx + 8) = Some (to_u32 so)"
proof (rule rw_probe_cases [OF r(1)])
  assume "fdt_rw_probe m fdt = Some (- FDT_ERR_BADLAYOUT, m)"
  with run show thesis by (simp add: fdt_setprop_placeholder_namelen_def)
next
  assume pr: "fdt_rw_probe m fdt = Some (0, m)"
  have l2: "len \<le> 2147483640" using len by simp
  show thesis
  proof (rule resize_property_spec [OF r(1) off n len(1) l2])
    fix p ps e m1 m2
    assume d: "fdt_resize_property m fdt node name (int (length nm)) len = Some (0, prop_addr m fdt p, m2)"
      "prop_at m fdt p" "4 \<le> p" "props_of m fdt node ps e" "find (named m fdt nm) ps = Some p"
      "struct_spliced m m1 fdt (prop_addr m fdt p + 12) (tag_size (sfield m fdt (p + 4))) (tag_size len)"
      "writes_only m1 m2 (prop_addr m fdt p + 4) 4" "fdt32_ld m2 (prop_addr m fdt p + 4) = Some len"
    have q: "m' = m2" "q = prop_addr m fdt p + 12" using d(1) pr run
      by (simp_all add: fdt_setprop_placeholder_namelen_def)
    show thesis by (rule resized [OF q(2) d(2-6)]) (use d(7,8) q(1) in simp_all)
  next
    fix err q'
    assume e: "fdt_resize_property m fdt node name (int (length nm)) len = Some (err, q', m)" "err < 0"
      "\<And>ps e. err = - FDT_ERR_NOTFOUND \<Longrightarrow> props_of m fdt node ps e \<Longrightarrow> find (named m fdt nm) ps = None"
    have nf: "err = - FDT_ERR_NOTFOUND" using e(1,2) pr run
      by (cases "err = - FDT_ERR_NOTFOUND") (simp_all add: fdt_setprop_placeholder_namelen_def)
    with e(1) pr run obtain pa where
      a: "fdt_add_property m fdt node name (int (length nm)) len = Some (0, pa, m')" "q = pa + 12"
      by (auto simp: fdt_setprop_placeholder_namelen_def bind_eq_Some_conv split: if_splits)
    show thesis
    proof (rule add_property_placed [OF r(1) off n ap len a(1)])
      fix nx so ma m1
      assume p: "fdt_check_node_offset m fdt node = Some nx" "tag_at m fdt node FDT_BEGIN_NODE nx"
        "has_string m ma fdt so nm" "pa = prop_addr ma fdt nx"
        "struct_spliced ma m1 fdt (prop_addr ma fdt nx) 0 (12 + tag_size len)"
        "writes_only m1 m' (prop_addr ma fdt nx) 12" "fdt32_ld m' (prop_addr ma fdt nx) = Some FDT_PROP"
        "fdt32_ld m' (prop_addr ma fdt nx + 4) = Some len" "fdt32_ld m' (prop_addr ma fdt nx + 8) = Some (to_u32 so)"
      show thesis by (rule added [OF e(3) [OF nf] p(1-3) _ p(5-9)]) (use a(2) p(4) in simp_all)
    qed
  qed
qed

lemma placeholder_found:
  assumes r: "rw_ok m fdt" "h_size_struct m fdt mod 4 = 0" and off: "node \<le> INT32_MAX" and n: "c_string m name nm"
    and ap: "apart m fdt name (int (length nm) + 1)" and len: "0 \<le> len" "len \<le> 2147483600"
    and run: "fdt_setprop_placeholder_namelen m fdt node name (int (length nm)) len = Some (0, q, m')"
  obtains p so where "q = prop_addr m' fdt p + 12" "prop_found m' fdt node nm p" "cell_at m' fdt p so len"
    "p + 12 + tag_size len \<le> h_size_struct m' fdt" "rw_ok m' fdt"
  using r off n ap len run
proof (cases rule: placeholder_cases)
  case (resized p ps e m1)
  have pf: "prop_found m fdt node nm p" using resized(4,5) by (auto simp: prop_found_def)
  have l2: "len \<le> 2147483640" using len by simp
  note rf = resized_found [OF r off resized(2,3) pf len(1) l2 resized(6-8)]
  show thesis by (rule that [of p]) (use rf resized(1) in simp_all)
next
  case (added nx so ma m1)
  have nn: "0 \<le> nx" using tag_at_bounds [OF rw_blob [OF r(1)] added(3)] by simp
  note k = has_string_keeps [OF r added(4) c_string_bytes(6) [OF n]]
  have nx: "fdt_check_node_offset ma fdt node = Some nx" "tag_at ma fdt node FDT_BEGIN_NODE nx"
    using k(7) [OF added(2,3) nn off] by simp_all
  have so: "0 \<le> so" "h_size_struct ma fdt mod 4 = 0" using added(4) k(2) r(2) by (simp_all add: has_string_def)
  note pf = placed_found [OF k(1) so(2) off nx len so(1) k(6,5) added(6-10)]
  show thesis by (rule that [of nx so]) (use pf added(5) in simp_all)
qed

lemma filled_found:
  assumes r: "rw_ok m fdt" and off: "node \<le> INT32_MAX" and p: "prop_found m fdt node nm p" "cell_at m fdt p so len"
    and w: "writes_only m m' (prop_addr m fdt p + 12) len"
  shows "prop_found m' fdt node nm p" "cell_at m' fdt p so len" "h_off_struct m' fdt = h_off_struct m fdt" "rw_ok m' fdt"
proof -
  have w': "writes_only m m' (prop_addr m fdt (p + 12)) len" using w by (simp add: add.assoc)
  have b: "0 \<le> p + 12" "0 \<le> len" "p + 12 + len \<le> h_size_struct m fdt" using p(2) by (simp_all add: cell_at_def)
  note k = write_keeps [OF r w' b]
  have f: "front m m' fdt (p + 12)" by (rule k(5)) simp
  have "sfield m' fdt p = sfield m fdt p" "sfield m' fdt (p + 4) = sfield m fdt (p + 4)"
    "sfield m' fdt (p + 8) = sfield m fdt (p + 8)"
    by (rule front_sfield [OF f]; use p(2) in \<open>simp add: cell_at_def\<close>)+
  then show c: "cell_at m' fdt p so len" using p(2) k(4) by (simp add: cell_at_def)
  then have c': "cell_at m' fdt p (sfield m fdt (p + 8)) len" using p(2) by (simp add: cell_at_def)
  have "front m m' fdt p" by (rule k(5)) simp
  from replaced_found [OF this off p(1) c'] k(3) show "prop_found m' fdt node nm p" by blast
  show "h_off_struct m' fdt = h_off_struct m fdt" "rw_ok m' fdt" by (rule k)+
qed

text \<open>A successful \<open>fdt_setprop\<close> is the placeholder, filled with the value.\<close>

lemma setprop_filled:
  assumes r: "rw_ok m fdt" and off: "node \<le> INT32_MAX" and n: "c_string m name nm"
    and ap: "apart m fdt name (int (length nm) + 1)" and len: "int (length bs) \<le> 2147483600"
    and bs: "bytes_at m val bs" "apart m fdt val (int (length bs))"
    and run: "fdt_setprop m fdt node name val (int (length bs)) = Some (0, m')"
  obtains q m1 where
    "fdt_setprop_placeholder_namelen m fdt node name (int (length nm)) (int (length bs)) = Some (0, q, m1)"
    "edits m m1 fdt" "fdt + 52 \<le> q" "q + tag_size (int (length bs)) \<le> fdt + rw_end m1 fdt"
    "bytes_at m' q bs" "writes_only m1 m' q (int (length bs))" "edits m m' fdt"
proof -
  have l0: "0 \<le> int (length bs)" by simp
  define L where "L = int (length bs)"
  from setprop_placeholder_spec [OF r off n ap l0 len] obtain e q m1 where
    p: "fdt_setprop_placeholder_namelen m fdt node name (int (length nm)) L = Some (e, q, m1)"
      "rw_result m m1 fdt e" "e = 0 \<longrightarrow> fdt + 52 \<le> q \<and> q + tag_size L \<le> fdt + rw_end m1 fdt"
    unfolding L_def by blast
  have run': "fdt_setprop_namelen m fdt node name (int (length nm)) val L = Some (0, m')"
    using run c_string_strlen [OF n] c_string_bytes(5) [OF n] by (simp add: fdt_setprop_def L_def)
  have e0: "e = 0" using run' p(1) by (cases "e = 0") (simp_all add: fdt_setprop_namelen_def)
  have e1: "edits m m1 fdt" and q: "fdt + 52 \<le> q" "fdt + 40 \<le> q" "q + tag_size L \<le> fdt + rw_end m1 fdt"
    using p(2,3) e0 by (simp_all add: rw_result_def)
  obtain m2 where m2: "memcpy m1 q val (length bs) = Some (q, m2)" "bytes_at m2 q bs" "writes_only m1 m2 q L"
    "edits m m2 fdt" unfolding L_def by (rule rw_fill [OF e1 bs q(2,3) [unfolded L_def]])
  have nl: "nat (to_u32 L) = length bs" using len by (simp add: to_u32_id L_def)
  have "m' = m2"
  proof (cases "bs = []")
    case True
    with m2(3) have "m2 = m1" by (auto simp: writes_only_def L_def fun_eq_iff not_le)
    moreover have "m' = m1" using run' p(1) e0 True by (simp add: fdt_setprop_namelen_def L_def)
    ultimately show ?thesis by simp
  next
    case False
    then have "L \<noteq> 0" by (simp add: L_def)
    with run' p(1) e0 nl m2(1) show ?thesis by (simp add: fdt_setprop_namelen_def)
  qed
  with m2 p(1) e0 e1 q show thesis by (intro that [of q m1]) (simp_all add: L_def)
qed

section \<open>Properties\<close>

text \<open>C5: what \<open>fdt_setprop\<close> stored is what \<open>fdt_getprop\<close> reads: after a successful call, a lookup of the
  name in the node finds a value of the length given, with exactly the bytes given, whether the
  property was there before, with whatever length, or was added.\<close>

theorem setprop_getprop:
  assumes r: "rw_ok m fdt" "h_size_struct m fdt mod 4 = 0" and off: "node \<le> INT32_MAX" and n: "c_string m name nm"
    and ap: "apart m fdt name (int (length nm) + 1)" and len: "int (length bs) \<le> 2147483600"
    and bs: "bytes_at m val bs" "apart m fdt val (int (length bs))"
    and run: "fdt_setprop m fdt node name val (int (length bs)) = Some (0, m')"
  shows "\<exists>a. fdt_getprop m' fdt node name = Some (a, int (length bs)) \<and> bytes_at m' a bs \<and>
    fdt < a \<and> a + int (length bs) \<le> fdt + h_totalsize m fdt"
proof -
  define L where "L = int (length bs)"
  have l0: "0 \<le> L" "L \<le> 2147483600" using len by (simp_all add: L_def)
  obtain q m1 where s: "fdt_setprop_placeholder_namelen m fdt node name (int (length nm)) L = Some (0, q, m1)"
    "edits m m1 fdt" "fdt + 52 \<le> q" "q + tag_size L \<le> fdt + rw_end m1 fdt" "bytes_at m' q bs" "writes_only m1 m' q L"
    "edits m m' fdt" unfolding L_def by (rule setprop_filled [OF r(1) off n ap len bs run])
  obtain pp so where pf: "q = prop_addr m1 fdt pp + 12" "prop_found m1 fdt node nm pp" "cell_at m1 fdt pp so L" "rw_ok m1 fdt"
    by (rule placeholder_found [OF r off n ap l0 s(1)])
  note ff = filled_found [OF pf(4) off pf(2,3) s(6) [unfolded pf(1)]]
  have n': "c_string m' name nm" by (rule edits_frame(2) [OF s(7) n ap])
  have "fdt_getprop m' fdt node name = Some (q, L)"
    using prop_found_getprop [OF ff(4) n' ff(1)] ff(2,3) pf(1) by (simp add: cell_at_def)
  moreover have "fdt < q" "q + L \<le> fdt + h_totalsize m fdt"
    using s(2-4) tag_size_bounds(1) [of L] rw_end_bounds(2) [OF pf(4)] by (simp_all add: edits_def)
  ultimately show ?thesis using s(5) by (auto simp: L_def)
qed

theorem setprop_getprop_witness:
  "\<exists>m' a. fdt_setprop demo_fdt_mem 4096 24 (demo_lit ''compatible'') 256 3 = Some (0, m') \<and>
     fdt_getprop m' 4096 24 (demo_lit ''compatible'') = Some (a, 3) \<and> bytes_at m' a [99, 111, 109]"
proof -
  have e: "map_option fst (fdt_setprop demo_fdt_mem 4096 24 (demo_lit ''compatible'') 256 3) = Some 0"
    "h_size_struct demo_fdt_mem 4096 = 64" "bytes_at demo_fdt_mem 256 [99, 111, 109]"
    by code_simp+
  then obtain m' where m': "fdt_setprop demo_fdt_mem 4096 24 (demo_lit ''compatible'') 256 3 = Some (0, m')" by auto
  have sz: "h_size_struct demo_fdt_mem 4096 mod 4 = 0" by (simp add: e(2))
  from setprop_getprop [OF demo_rw_ok sz _ demo_strings(1) _ _ e(3), of 24] m'
  show ?thesis by (auto simp: demo_fdt_fields demo_lit_def lit_bytes_def)
qed

end
