(* ===== verification/Fdt_Build.thy ===== *)
theory Fdt_Build
  imports Fdt_Lookup
begin

text \<open>
  What the sequential writer of \<^verbatim>\<open>libfdt/fdt_sw.c\<close> builds, read back: the calls between
  \<open>fdt_finish_reservemap\<close> and \<open>fdt_finish\<close> append items (a node opens, a property, a node closes),
  \<open>fdt_finish\<close> moves the strings and turns the name offsets, and the readers of
  \<^verbatim>\<open>libfdt/fdt.c\<close> and \<^verbatim>\<open>libfdt/fdt_ro.c\<close> find the same items in the finished tree.
\<close>

section \<open>Items of a structure block\<close>

datatype sw_item = Open_item "u8 list" | Prop_item "u8 list" "u8 list" | Close_item

fun item_size :: "sw_item \<Rightarrow> int" where
  "item_size (Open_item nm) = 4 + tag_size (int (length nm) + 1)"
| "item_size (Prop_item nm bs) = 12 + tag_size (int (length bs))"
| "item_size Close_item = 4"

definition items_size :: "sw_item list \<Rightarrow> int" where
  "items_size is = sum_list (map item_size is)"

text \<open>An item at an address; \<open>ref v nm\<close> says that the name offset \<open>v\<close> leads to the name \<open>nm\<close>.\<close>

fun item_at :: "(int \<Rightarrow> u8 list \<Rightarrow> bool) \<Rightarrow> mem \<Rightarrow> int \<Rightarrow> sw_item \<Rightarrow> bool" where
  "item_at ref m p (Open_item nm) \<longleftrightarrow> fdt32_ld m p = Some FDT_BEGIN_NODE \<and> bytes_at m (p + 4) (nm @ [0]) \<and> 0 \<notin> set nm"
| "item_at ref m p (Prop_item nm bs) \<longleftrightarrow> fdt32_ld m p = Some FDT_PROP \<and> fdt32_ld m (p + 4) = Some (int (length bs)) \<and>
     (\<exists>v. fdt32_ld m (p + 8) = Some v \<and> ref v nm) \<and> bytes_at m (p + 12) bs \<and> 0 \<notin> set nm"
| "item_at ref m p Close_item \<longleftrightarrow> fdt32_ld m p = Some FDT_END_NODE"

fun items_at :: "(int \<Rightarrow> u8 list \<Rightarrow> bool) \<Rightarrow> mem \<Rightarrow> int \<Rightarrow> sw_item list \<Rightarrow> bool" where
  "items_at ref m p [] \<longleftrightarrow> True"
| "items_at ref m p (i # is) \<longleftrightarrow> item_at ref m p i \<and> items_at ref m (p + item_size i) is"

lemma items_size_simps [simp]:
  "items_size [] = 0" "items_size (i # is) = item_size i + items_size is"
  "items_size (is @ js) = items_size is + items_size js"
  by (simp_all add: items_size_def)

lemma item_size_pos: "4 \<le> item_size i" "item_size i mod 4 = 0"
proof -
  have "0 \<le> n \<Longrightarrow> 0 \<le> tag_size n" for n using tag_size_bounds(1) [of n] by simp
  then have "0 \<le> tag_size (int n)" "0 \<le> tag_size (int n + 1)" for n by simp_all
  then show "4 \<le> item_size i" by (cases i) (simp_all add: add_increasing)
  have "(4 + tag_size n) mod 4 = 0" "(12 + tag_size n) mod 4 = 0" for n
    using tag_size_bounds(3) [of n] by presburger+
  then show "item_size i mod 4 = 0" by (cases i) simp_all
qed

lemma items_size_nonneg: "0 \<le> items_size is" "items_size is mod 4 = 0"
proof -
  show "0 \<le> items_size is" 
  proof (induction "is")
    case (Cons i "is")
    with item_size_pos(1) [of i] show ?case by simp
  qed simp
  show "items_size is mod 4 = 0" by (induction "is") (simp_all add: item_size_pos(2) mod_add_eq [symmetric])
qed

lemma items_at_append:
  "items_at ref m p (is @ js) \<longleftrightarrow> items_at ref m p is \<and> items_at ref m (p + items_size is) js"
  by (induction "is" arbitrary: p) (simp_all add: add.assoc)

lemma item_at_frame:
  assumes i: "item_at ref m p i" and same: "\<And>a. p \<le> a \<Longrightarrow> a < p + item_size i \<Longrightarrow> m' a = m a"
    and ref: "\<And>v nm. ref v nm \<Longrightarrow> ref' v nm"
  shows "item_at ref' m' p i"
proof -
  have ld: "fdt32_ld m' q = fdt32_ld m q" if "p \<le> q" "q + 4 \<le> p + item_size i" for q
    by (rule fdt32_ld_bytes) (use same that in simp_all)
  have bs: "bytes_at m' q bs = bytes_at m q bs" if "p \<le> q" "q + int (length bs) \<le> p + item_size i" for q bs
    unfolding bytes_at_iff using same that by auto
  show ?thesis
  proof (cases i)
    case (Open_item nm)
    with i ld [of p] bs [of "p + 4" "nm @ [0]"] tag_size_bounds(1) [of "int (length nm) + 1"] show ?thesis
      by simp
  next
    case (Prop_item nm bs')
    with i ld [of p] ld [of "p + 4"] ld [of "p + 8"] bs [of "p + 12" bs'] tag_size_bounds(1) [of "int (length bs')"]
    show ?thesis by (auto intro: ref)
  next
    case Close_item
    with i ld [of p] show ?thesis by simp
  qed
qed

lemma items_at_frame:
  "items_at ref m p is \<Longrightarrow> (\<And>a. p \<le> a \<Longrightarrow> a < p + items_size is \<Longrightarrow> m' a = m a) \<Longrightarrow>
   (\<And>v nm. ref v nm \<Longrightarrow> ref' v nm) \<Longrightarrow> items_at ref' m' p is"
proof (induction "is" arbitrary: p)
  case (Cons i "is")
  have "item_at ref' m' p i"
    by (rule item_at_frame [of ref m]) (use Cons.prems items_size_nonneg(1) [of "is"] in auto)
  moreover have "items_at ref' m' (p + item_size i) is"
    by (rule Cons.IH) (use Cons.prems item_size_pos(1) [of i] in auto)
  ultimately show ?case by simp
qed simp

section \<open>Calls and the items they append\<close>

text \<open>
  While the tree is built a name offset is negative, counted from the end of the buffer, where the
  strings are.
\<close>

definition up_ref :: "mem \<Rightarrow> int \<Rightarrow> int \<Rightarrow> int \<Rightarrow> u8 list \<Rightarrow> bool" where
  "up_ref m lim n v nm \<longleftrightarrow> (\<exists>off. v = to_u32 off \<and> - n \<le> off \<and> off + int (length nm) + 1 \<le> 0 \<and>
     bytes_at m (lim + off) (nm @ [0]))"

abbreviation sw_ref :: "mem \<Rightarrow> int \<Rightarrow> int \<Rightarrow> u8 list \<Rightarrow> bool" where
  "sw_ref m fdt \<equiv> up_ref m (fdt + h_totalsize m fdt) (h_size_strings m fdt)"

definition built :: "mem \<Rightarrow> int \<Rightarrow> sw_item list \<Rightarrow> bool" where
  "built m fdt is \<longleftrightarrow> sw_ok m fdt \<and> sw_open m fdt \<and> h_size_struct m fdt = items_size is \<and>
     items_at (sw_ref m fdt) m (fdt + h_off_struct m fdt) is"

datatype sw_call = Begin_call int | Property_call int int int | End_call

fun sw_do :: "mem \<Rightarrow> int \<Rightarrow> sw_call \<Rightarrow> (int \<times> mem) option" where
  "sw_do m fdt (Begin_call name) = fdt_begin_node m fdt name"
| "sw_do m fdt (Property_call name val len) = fdt_property m fdt name val len"
| "sw_do m fdt End_call = fdt_end_node m fdt"

text \<open>Calls in a row, up to the first error.\<close>

fun sw_do_all :: "mem \<Rightarrow> int \<Rightarrow> sw_call list \<Rightarrow> (int \<times> mem) option" where
  "sw_do_all m fdt [] = Some (0, m)"
| "sw_do_all m fdt (c # cs) = do {
     (r, m) \<leftarrow> sw_do m fdt c;
     if r \<noteq> 0 then Some (r, m) else sw_do_all m fdt cs }"

text \<open>The item a call asks for; its names and values are outside the buffer.\<close>

definition outside :: "int \<Rightarrow> int \<Rightarrow> int \<Rightarrow> int \<Rightarrow> bool" where
  "outside buf n p k \<longleftrightarrow> p + k \<le> buf \<or> buf + n \<le> p"

fun call_says :: "mem \<Rightarrow> int \<Rightarrow> int \<Rightarrow> sw_call \<Rightarrow> sw_item \<Rightarrow> bool" where
  "call_says m buf n (Begin_call name) (Open_item nm) \<longleftrightarrow>
     c_string m name nm \<and> outside buf n name (int (length nm) + 1)"
| "call_says m buf n (Property_call name val len) (Prop_item nm bs) \<longleftrightarrow>
     c_string m name nm \<and> outside buf n name (int (length nm) + 1) \<and>
     len = int (length bs) \<and> len \<le> INT32_MAX \<and> bytes_at m val bs \<and> outside buf n val len"
| "call_says m buf n End_call Close_item \<longleftrightarrow> True"
| "call_says m buf n _ _ \<longleftrightarrow> False"

fun name_room :: "sw_item \<Rightarrow> int" where
  "name_room (Prop_item nm bs) = int (length nm) + 1"
| "name_room _ = 0"

definition names_room :: "sw_item list \<Rightarrow> int" where
  "names_room is = sum_list (map name_room is)"

lemma names_room_simps [simp]: "names_room [] = 0" "names_room (i # is) = name_room i + names_room is"
  by (simp_all add: names_room_def)

lemma names_room_nonneg: "0 \<le> name_room i" "0 \<le> names_room is"
proof -
  show p: "0 \<le> name_room i" for i by (cases i) simp_all
  show "0 \<le> names_room is" by (induction "is") (simp_all add: p)
qed

lemma sw_ref_extends:
  assumes e: "extends m m' fdt" and s: "sw_ok m fdt" and r: "sw_ref m fdt v nm"
  shows "sw_ref m' fdt v nm"
proof -
  from r obtain off where off: "v = to_u32 off" "- h_size_strings m fdt \<le> off" "off + int (length nm) + 1 \<le> 0"
    "bytes_at m (fdt + h_totalsize m fdt + off) (nm @ [0])" by (auto simp: up_ref_def)
  moreover have "bytes_at m' (fdt + h_totalsize m fdt + off) (nm @ [0])"
    using extends_bytes [OF e, of "fdt + h_totalsize m fdt + off" "nm @ [0]"] off(2,4) by simp
  moreover have "h_totalsize m' fdt = h_totalsize m fdt" "h_size_strings m fdt \<le> h_size_strings m' fdt"
    using e by (simp_all add: extends_def)
  ultimately show ?thesis by (auto simp: up_ref_def)
qed

lemma prop_cell_item:
  "prop_cell m fdt p (int (length bs)) nm \<Longrightarrow> bytes_at m (p + 12) bs \<Longrightarrow> 0 \<notin> set nm \<Longrightarrow>
   item_at (sw_ref m fdt) m p (Prop_item nm bs)"
  by (auto simp: prop_cell_def up_ref_def)

lemma sw_do_spec:
  assumes s: "sw_ok m fdt" and o: "sw_open m fdt" and top: "fdt + h_totalsize m fdt \<le> 4294967296"
    and c: "call_says m fdt (h_totalsize m fdt) c i" and fit: "h_size_strings m fdt + name_room i \<le> h_totalsize m fdt"
  shows "\<exists>r m'. sw_do m fdt c = Some (r, m') \<and> (r = 0 \<or> r = - FDT_ERR_NOSPACE) \<and> extends m m' fdt \<and>
    h_size_strings m' fdt \<le> h_size_strings m fdt + name_room i \<and>
    (item_size i + name_room i \<le> sw_room m fdt \<longrightarrow> r = 0) \<and>
    (r = 0 \<longrightarrow> sw_top m' fdt = sw_top m fdt + item_size i \<and> item_at (sw_ref m' fdt) m' (fdt + sw_top m fdt) i)"
proof (cases i)
  case (Open_item nm)
  with c obtain name where n: "c = Begin_call name" "c_string m name nm" "apart m fdt name (int (length nm) + 1)"
    by (cases c) (auto simp: outside_def)
  have z: "0 \<le> 4 + tag_size (int (length nm) + 1)" using tag_size_bounds(1) [of "int (length nm) + 1"] by simp
  show ?thesis
  proof (rule fdt_begin_node_spec [OF s n(2,3)])
    fix m' assume g: "4 + tag_size (int (length nm) + 1) \<le> sw_room m fdt" "fdt_begin_node m fdt name = Some (0, m')"
      "grown m m' fdt (4 + tag_size (int (length nm) + 1))" "fdt32_ld m' (fdt + sw_top m fdt) = Some FDT_BEGIN_NODE"
      "bytes_at m' (fdt + sw_top m fdt + 4) (nm @ [0])"
    have "0 \<notin> set nm" using c_string_bytes(6) [OF n(2)] .
    with grown_ok(4,6) [OF s g(3) z g(1)] grown_extends [OF s g(3) z g(1)] g n(1) Open_item
    show ?thesis by simp
  qed (use o n(1) Open_item extends_refl [OF s] in auto)
next
  case (Prop_item nm bs)
  with c obtain name val where n: "c = Property_call name val (int (length bs))" "c_string m name nm"
    "apart m fdt name (int (length nm) + 1)" "int (length bs) \<le> INT32_MAX" "bytes_at m val bs"
    "apart m fdt val (int (length bs))" by (cases c) (auto simp: outside_def)
  have f: "h_size_strings m fdt + int (length nm) + 1 \<le> h_totalsize m fdt" using fit Prop_item by simp
  show ?thesis
  proof (rule fdt_property_spec [OF s n(2,3) f top n(5,4,6)])
    fix m' assume g: "fdt_property m fdt name val (int (length bs)) = Some (0, m')" "extends m m' fdt"
      "sw_top m' fdt = sw_top m fdt + (12 + tag_size (int (length bs)))"
      "h_size_strings m' fdt \<le> h_size_strings m fdt + int (length nm) + 1"
      "prop_cell m' fdt (fdt + sw_top m fdt) (int (length bs)) nm" "bytes_at m' (fdt + sw_top m fdt + 12) bs"
    with prop_cell_item [OF g(5,6) c_string_bytes(6) [OF n(2)]] n(1) Prop_item show ?thesis by simp
  qed (use o n(1) Prop_item extends_refl [OF s] in auto)
next
  case Close_item
  with c have n: "c = End_call" by (cases c) auto
  show ?thesis
  proof (rule fdt_end_node_spec [OF s])
    fix m' assume g: "4 \<le> sw_room m fdt" "fdt_end_node m fdt = Some (0, m')" "grown m m' fdt 4"
      "fdt32_ld m' (fdt + sw_top m fdt) = Some FDT_END_NODE"
    with grown_ok(4,6) [OF s g(3) _ g(1)] grown_extends [OF s g(3) _ g(1)] n Close_item show ?thesis by simp
  qed (use o n Close_item extends_refl [OF s] in auto)
qed

lemma built_append:
  assumes b: "built m fdt is" and e: "extends m m' fdt"
    and t: "sw_top m' fdt = sw_top m fdt + item_size i" and i: "item_at (sw_ref m' fdt) m' (fdt + sw_top m fdt) i"
  shows "built m' fdt (is @ [i])"
proof -
  have s: "sw_ok m fdt" "sw_open m fdt" "h_size_struct m fdt = items_size is"
    "items_at (sw_ref m fdt) m (fdt + h_off_struct m fdt) is" using b by (simp_all add: built_def)
  have e': "sw_ok m' fdt" "h_off_struct m' fdt = h_off_struct m fdt"
    "\<And>a. fdt + 40 \<le> a \<Longrightarrow> a < fdt + sw_top m fdt \<Longrightarrow> m' a = m a" using e by (simp_all add: extends_def)
  have "items_at (sw_ref m' fdt) m' (fdt + h_off_struct m fdt) is"
  proof (rule items_at_frame [OF s(4)])
    show "m' a = m a" if "fdt + h_off_struct m fdt \<le> a" "a < fdt + h_off_struct m fdt + items_size is" for a
      by (rule e'(3)) (use that sw_bounds(4) [OF s(1)] s(3) in \<open>simp_all add: sw_top_def\<close>)
  qed (rule sw_ref_extends [OF e s(1)])
  then show ?thesis
    using e' t i s(3) extends_open [OF e s(2)] by (simp add: built_def items_at_append sw_top_def add.assoc)
qed

lemma call_says_frame:
  assumes w: "writes_only m m' buf n" and c: "call_says m buf n c i"
  shows "call_says m' buf n c i"
  using c
  by (cases "(m, buf, n, c, i)" rule: call_says.cases)
    (auto simp: outside_def bytes_at_frame [OF w] intro: c_string_frame [OF _ w])

lemma sw_do_all_spec:
  assumes k: "0 \<le> k"
  shows "built m fdt is \<Longrightarrow> fdt + h_totalsize m fdt \<le> 4294967296 \<Longrightarrow> list_all2 (call_says m fdt (h_totalsize m fdt)) cs js \<Longrightarrow>
   h_size_strings m fdt + names_room js \<le> h_totalsize m fdt \<Longrightarrow>
   \<exists>r m'. sw_do_all m fdt cs = Some (r, m') \<and> (r = 0 \<or> r = - FDT_ERR_NOSPACE) \<and> extends m m' fdt \<and>
     (r = 0 \<longrightarrow> built m' fdt (is @ js)) \<and>
     (items_size js + names_room js + k \<le> sw_room m fdt \<longrightarrow> r = 0 \<and> k \<le> sw_room m' fdt)"
proof (induction cs arbitrary: m "is" js)
  case Nil
  then show ?case by (simp add: extends_refl built_def)
next
  case (Cons c cs)
  from Cons.prems(3) obtain i ks where js: "js = i # ks" "call_says m fdt (h_totalsize m fdt) c i" "list_all2 (call_says m fdt (h_totalsize m fdt)) cs ks"
    by (auto simp: list_all2_Cons1)
  have s: "sw_ok m fdt" "sw_open m fdt" using Cons.prems(1) by (simp_all add: built_def)
  have fit: "h_size_strings m fdt + name_room i \<le> h_totalsize m fdt"
    using Cons.prems(4) names_room_nonneg(2) [of ks] js(1) by simp
  from sw_do_spec [OF s Cons.prems(2) js(2) fit] obtain r m1 where
    r: "sw_do m fdt c = Some (r, m1)" "r = 0 \<or> r = - FDT_ERR_NOSPACE" "extends m m1 fdt"
      "h_size_strings m1 fdt \<le> h_size_strings m fdt + name_room i"
      "item_size i + name_room i \<le> sw_room m fdt \<longrightarrow> r = 0"
      "r = 0 \<longrightarrow> sw_top m1 fdt = sw_top m fdt + item_size i \<and> item_at (sw_ref m1 fdt) m1 (fdt + sw_top m fdt) i"
    by (elim exE conjE)
  have f1: "h_totalsize m1 fdt = h_totalsize m fdt" using r(3) by (simp add: extends_def)
  show ?case
  proof (cases "r = 0")
    case False
    have "\<not> items_size js + names_room js + k \<le> sw_room m fdt"
      using k False r(5) items_size_nonneg(1) [of ks] names_room_nonneg(2) [of ks] js(1)
      by simp
    with False r(1-3) show ?thesis by simp
  next
    case True
    with r(6) have t: "sw_top m1 fdt = sw_top m fdt + item_size i" "item_at (sw_ref m1 fdt) m1 (fdt + sw_top m fdt) i"
      by simp_all
    have b1: "built m1 fdt (is @ [i])" by (rule built_append [OF Cons.prems(1) r(3) t])
    have "writes_only m m1 fdt (h_totalsize m fdt)" using r(3) by (simp add: extends_def)
    then have says: "list_all2 (call_says m1 fdt (h_totalsize m1 fdt)) cs ks"
      unfolding f1 using call_says_frame by (intro list_all2_mono [OF js(3)]) blast
    have "fdt + h_totalsize m1 fdt \<le> 4294967296" "h_size_strings m1 fdt + names_room ks \<le> h_totalsize m1 fdt"
      using Cons.prems(2,4) f1 r(4) js(1) by simp_all
    from Cons.IH [OF b1 this(1) says this(2)] obtain r2 m2 where
      r2: "sw_do_all m1 fdt cs = Some (r2, m2)" "r2 = 0 \<or> r2 = - FDT_ERR_NOSPACE" "extends m1 m2 fdt"
        "r2 = 0 \<longrightarrow> built m2 fdt ((is @ [i]) @ ks)"
        "items_size ks + names_room ks + k \<le> sw_room m1 fdt \<longrightarrow> r2 = 0 \<and> k \<le> sw_room m2 fdt" by (elim exE conjE)
    have "sw_room m fdt - (item_size i + name_room i) \<le> sw_room m1 fdt"
      using t(1) r(4) f1 by (simp add: sw_room_def)
    with r2 True r(1) extends_trans [OF r(3) r2(3)] js(1) show ?thesis by simp
  qed
qed

section \<open>Finishing\<close>

text \<open>In a finished tree a name offset counts from the start of the strings.\<close>

definition str_ref :: "mem \<Rightarrow> int \<Rightarrow> int \<Rightarrow> int \<Rightarrow> u8 list \<Rightarrow> bool" where
  "str_ref m strs n v nm \<longleftrightarrow> 0 \<le> v \<and> v + int (length nm) + 1 \<le> n \<and> bytes_at m (strs + v) (nm @ [0])"

lemma str_ref_frame:
  assumes r: "str_ref m strs n v nm" and w: "writes_only m m' a k" and a: "a + k \<le> strs"
  shows "str_ref m' strs n v nm"
  using r bytes_at_frame [OF w, of "strs + v" "nm @ [0]"] a by (auto simp: str_ref_def)

lemma up_ref_frame:
  assumes r: "up_ref m lim n v nm" and w: "writes_only m m' a k" and a: "a + k \<le> lim - n"
  shows "up_ref m' lim n v nm"
proof -
  from r obtain off where off: "v = to_u32 off" "- n \<le> off" "off + int (length nm) + 1 \<le> 0"
    "bytes_at m (lim + off) (nm @ [0])" by (auto simp: up_ref_def)
  moreover have "bytes_at m' (lim + off) (nm @ [0])"
    using bytes_at_frame [OF w, of "lim + off" "nm @ [0]"] off(2,4) a by simp
  ultimately show ?thesis by (auto simp: up_ref_def)
qed

text \<open>An item is read as its tag, and the next item follows.\<close>

fun item_tag :: "sw_item \<Rightarrow> int" where
  "item_tag (Open_item nm) = FDT_BEGIN_NODE"
| "item_tag (Prop_item nm bs) = FDT_PROP"
| "item_tag Close_item = FDT_END_NODE"

lemma sfield_at:
  "fdt32_ld m (fdt + h_off_struct m fdt + off) = Some v \<Longrightarrow> sfield m fdt off = v"
  by (simp add: sfield_def hdr_def add.assoc)

lemma plain_tag_at:
  assumes al: "off mod 4 = 0" and f: "struct_fits m fdt off 4"
    and t: "fdt32_ld m (fdt + h_off_struct m fdt + off) = Some tag" "tag = FDT_END_NODE \<or> tag = FDT_END"
  shows "tag_at m fdt off tag (off + 4)"
  unfolding tag_at_def
proof (intro conjI exI [of _ "off + 4"])
  show "off + 4 = 4 * ((off + 4 + 3) div 4)" using al by presburger
qed (use f t in \<open>auto simp: sfield_at tag_end_def\<close>)

lemma item_tag_at:
  assumes b: "blob m fdt" and v: "16 \<le> h_version m fdt" and al: "off mod 4 = 0"
    and f: "struct_fits m fdt off (item_size i)" and i: "item_at ref m (fdt + h_off_struct m fdt + off) i"
  shows "tag_at m fdt off (item_tag i) (off + item_size i)"
    "fdt_next_tag m fdt off = Some (item_tag i, off + item_size i)"
proof -
  show t: "tag_at m fdt off (item_tag i) (off + item_size i)"
  proof (cases i)
    case (Open_item nm)
    define e where "e = off + 5 + int (length nm)"
    have "cstr_at m (fdt + h_off_struct m fdt + off + 4) nm"
      using i Open_item by (auto simp: cstr_at_iff bytes_at_iff nth_append less_Suc_eq)
    then have "tag_end m fdt off FDT_BEGIN_NODE e" by (auto simp: tag_end_def e_def)
    moreover have "struct_fits m fdt off (e - off)"
      by (rule struct_fits_le [OF f]) (use Open_item tag_size_bounds(1) [of "int (length nm) + 1"] in \<open>simp_all add: e_def\<close>)
    moreover have "off + item_size i = 4 * ((e + 3) div 4)"
      using al unfolding e_def Open_item item_size.simps tag_size_def by presburger
    ultimately show ?thesis using i Open_item by (auto simp: tag_at_def sfield_at e_def)
  next
    case (Prop_item nm bs)
    define e where "e = off + 12 + int (length bs)"
    have len: "sfield m fdt (off + 4) = int (length bs)"
      by (rule sfield_at) (use i Prop_item in \<open>simp add: add.assoc\<close>)
    then have "tag_end m fdt off FDT_PROP e" by (simp add: tag_end_def e_def)
    moreover have "struct_fits m fdt off (e - off)"
      by (rule struct_fits_le [OF f]) (use Prop_item tag_size_bounds(1) [of "int (length bs)"] in \<open>simp_all add: e_def\<close>)
    moreover have "off + item_size i = 4 * ((e + 3) div 4)"
      using al unfolding e_def Prop_item item_size.simps tag_size_def by presburger
    ultimately show ?thesis using i Prop_item by (auto simp: tag_at_def sfield_at e_def)
  next
    case Close_item
    with plain_tag_at [OF al, of m fdt FDT_END_NODE] f i show ?thesis by simp
  qed
  show "fdt_next_tag m fdt off = Some (item_tag i, off + item_size i)" by (rule tag_at_next [OF b v t])
qed

lemma end_tag_at:
  assumes b: "blob m fdt" and v: "16 \<le> h_version m fdt" and al: "off mod 4 = 0"
    and f: "struct_fits m fdt off 4" and e: "fdt32_ld m (fdt + h_off_struct m fdt + off) = Some FDT_END"
  shows "fdt_next_tag m fdt off = Some (FDT_END, off + 4)"
  by (rule tag_at_next [OF b v plain_tag_at [OF al f e]]) simp

text \<open>One round of the walk that turns the name offsets.\<close>

lemma turned_offset:
  assumes r: "up_ref m lim n v nm" and n: "n \<le> INT32_MAX"
  shows "str_ref m (lim - n) n (to_u32 (to_s32 (to_s32 v + n))) nm"
proof -
  from r obtain off where off: "v = to_u32 off" "- n \<le> off" "off + int (length nm) + 1 \<le> 0"
    "bytes_at m (lim + off) (nm @ [0])" by (auto simp: up_ref_def)
  have "v = off + 4294967296" unfolding off(1) by (rule to_u32_neg) (use off n in simp_all)
  then have "to_s32 v = off" using to_s32_neg [of v] off n by simp
  then have "to_u32 (to_s32 (to_s32 v + n)) = off + n" using off n by (simp add: to_s32_id to_u32_id)
  with off show ?thesis by (simp add: str_ref_def)
qed

lemma finish_step:
  assumes b: "blob m fdt" and v: "16 \<le> h_version m fdt" and al: "off mod 4 = 0" and o: "40 \<le> h_off_struct m fdt"
    and f: "struct_fits m fdt off (item_size i)" and n: "h_size_strings m fdt = n" "n \<le> INT32_MAX"
    and lim: "fdt + h_off_struct m fdt + off + item_size i \<le> lim - n"
    and i: "item_at (up_ref m lim n) m (fdt + h_off_struct m fdt + off) i"
  obtains m1 where "fdt_finish_loop m fdt off = fdt_finish_loop m1 fdt (off + item_size i)"
    "writes_only m m1 (fdt + h_off_struct m fdt + off) (item_size i)"
    "item_at (str_ref m1 (lim - n) n) m1 (fdt + h_off_struct m fdt + off) i"
proof (cases "\<exists>nm bs. i = Prop_item nm bs")
  case False
  then have "item_tag i \<noteq> FDT_PROP" "item_tag i \<noteq> FDT_END"
    "item_at (str_ref m (lim - n) n) m (fdt + h_off_struct m fdt + off) i" using i by (cases i; simp)+
  then show thesis
    using that [of m] item_tag_at(2) [OF b v al f i] by (simp add: fdt_finish_loop.simps [of m fdt off])
next
  case True
  then obtain nm bs where p: "i = Prop_item nm bs" by blast
  define base where "base = fdt + h_off_struct m fdt + off"
  from i p obtain w where w: "fdt32_ld m (base + 8) = Some w" "up_ref m lim n w nm" "fdt32_ld m base = Some FDT_PROP"
    "fdt32_ld m (base + 4) = Some (int (length bs))" "bytes_at m (base + 12) bs" "0 \<notin> set nm"
    by (auto simp: base_def)
  have sz: "12 + int (length bs) \<le> item_size i" using p tag_size_bounds(1) [of "int (length bs)"] by simp
  have "mapped m (base + 8) 4"
    unfolding base_def by (rule mapped_sub [OF struct_fits_mapped [OF b f]]) (use sz in simp_all)
  then obtain m1 where m1: "fdt32_set m (base + 8) (to_s32 (to_s32 w + n)) = Some m1"
    "writes_only m m1 (base + 8) 4" "fdt32_ld m1 (base + 8) = Some (to_u32 (to_s32 (to_s32 w + n)))"
    by (rule fdt32_set_ok)
  have fr: "fdt32_ld m1 base = fdt32_ld m base" "fdt32_ld m1 (base + 4) = fdt32_ld m (base + 4)"
    "bytes_at m1 (base + 12) bs = bytes_at m (base + 12) bs"
    by (rule fdt32_ld_frame [OF m1(2)] bytes_at_frame [OF m1(2)]; simp)+
  show thesis
  proof (rule that)
    show "fdt_finish_loop m fdt off = fdt_finish_loop m1 fdt (off + item_size i)"
      using item_tag_at(2) [OF b v al f i] m1(1) w(1) n(1) p
      by (simp add: fdt_finish_loop.simps [of m fdt off] fdt_offset_ptr_raw_def blob_simps [OF b]
          fdt32_ld_native_eq base_def)
    show "writes_only m m1 (fdt + h_off_struct m fdt + off) (item_size i)"
      by (rule writes_only_mono [OF m1(2)]) (use sz in \<open>simp_all add: base_def\<close>)
    have "str_ref m1 (lim - n) n (to_u32 (to_s32 (to_s32 w + n))) nm"
      by (rule str_ref_frame [OF turned_offset [OF w(2) n(2)] m1(2)]) (use lim sz in \<open>simp add: base_def\<close>)
    then have "item_at (str_ref m1 (lim - n) n) m1 base i" using p w fr m1(3) by simp
    then show "item_at (str_ref m1 (lim - n) n) m1 (fdt + h_off_struct m fdt + off) i" by (simp add: base_def)
  qed
qed

lemma finish_loop_spec:
  "blob m fdt \<Longrightarrow> h_version m fdt = 17 \<Longrightarrow> off mod 4 = 0 \<Longrightarrow> 40 \<le> h_off_struct m fdt \<Longrightarrow>
   struct_fits m fdt off (items_size is + 4) \<Longrightarrow> h_size_strings m fdt = n \<Longrightarrow> n \<le> INT32_MAX \<Longrightarrow>
   fdt + h_off_struct m fdt + off + items_size is \<le> lim - n \<Longrightarrow>
   items_at (up_ref m lim n) m (fdt + h_off_struct m fdt + off) is \<Longrightarrow>
   fdt32_ld m (fdt + h_off_struct m fdt + off + items_size is) = Some FDT_END \<Longrightarrow>
   \<exists>m'. fdt_finish_loop m fdt off = Some (off + items_size is + 4, m') \<and>
     writes_only m m' (fdt + h_off_struct m fdt + off) (items_size is) \<and>
     items_at (str_ref m' (lim - n) n) m' (fdt + h_off_struct m fdt + off) is"
proof (induction "is" arbitrary: m off)
  case Nil
  have "fdt_next_tag m fdt off = Some (FDT_END, off + 4)"
    by (rule end_tag_at [OF Nil(1) _ Nil(3)]) (use Nil in simp_all)
  then show ?case by (simp add: fdt_finish_loop.simps [of m fdt off])
next
  case (Cons i "is")
  note z = items_size_nonneg(1) [of "is"] and zi = item_size_pos [of i]
  define base where "base = fdt + h_off_struct m fdt"
  have f: "struct_fits m fdt off (item_size i)" by (rule struct_fits_le [OF Cons.prems(5)]) (use z in simp_all)
  have v: "16 \<le> h_version m fdt" using Cons.prems(2) by simp
  have l: "fdt + h_off_struct m fdt + off + item_size i \<le> lim - n" using Cons.prems(8) z by simp
  have "item_at (up_ref m lim n) m (fdt + h_off_struct m fdt + off) i" using Cons.prems(9) by simp
  from finish_step [OF Cons.prems(1) v Cons.prems(3,4) f Cons.prems(6,7) l this] obtain m1 where
    m1: "fdt_finish_loop m fdt off = fdt_finish_loop m1 fdt (off + item_size i)"
      "writes_only m m1 (base + off) (item_size i)" "item_at (str_ref m1 (lim - n) n) m1 (base + off) i"
    unfolding base_def by blast
  have o: "0 \<le> off" using f by (simp add: struct_fits_def)
  have low: "fdt + 40 \<le> base + off" using Cons.prems(4) o by (simp add: base_def)
  note bf = blob_frame [OF Cons.prems(1) m1(2) low]
  have h1: "h_version m1 fdt = 17" "h_size_strings m1 fdt = n" "40 \<le> h_off_struct m1 fdt"
    "fdt + h_off_struct m1 fdt = base"
    using hdr_frame [OF m1(2)] low Cons.prems(2,4,6) bf(3) by (simp_all add: base_def)
  have al: "(off + item_size i) mod 4 = 0" using Cons.prems(3) zi(2) by presburger
  have f1: "struct_fits m1 fdt (off + item_size i) (items_size is + 4)"
    unfolding bf(2) by (rule struct_fits_le [OF Cons.prems(5)]) (use zi in simp_all)
  have i1: "items_at (up_ref m1 lim n) m1 (base + (off + item_size i)) is"
  proof (rule items_at_frame)
    show "items_at (up_ref m lim n) m (base + (off + item_size i)) is"
      using Cons.prems(9) by (simp add: base_def add.assoc)
    show "m1 a = m a" if "base + (off + item_size i) \<le> a" for a
      by (rule writes_only_same [OF m1(2)]) (use that in simp)
    show "up_ref m1 lim n w nm" if "up_ref m lim n w nm" for w nm
      by (rule up_ref_frame [OF that m1(2)]) (use l in \<open>simp add: base_def\<close>)
  qed
  have e1: "fdt32_ld m1 (base + (off + item_size i) + items_size is) = Some FDT_END"
    using fdt32_ld_frame [OF m1(2), of "base + (off + item_size i) + items_size is"] Cons.prems(10) z
    by (simp add: base_def add.assoc)
  have l1: "base + (off + item_size i) + items_size is \<le> lim - n" using Cons.prems(8) by (simp add: base_def)
  from Cons.IH [of m1 "off + item_size i", unfolded h1(4)] bf(1) h1 al f1 Cons.prems(7) l1 i1 e1 obtain m2 where
    m2: "fdt_finish_loop m1 fdt (off + item_size i) = Some (off + item_size i + items_size is + 4, m2)"
      "writes_only m1 m2 (base + (off + item_size i)) (items_size is)"
      "items_at (str_ref m2 (lim - n) n) m2 (base + (off + item_size i)) is" by blast
  have "item_at (str_ref m2 (lim - n) n) m2 (base + off) i"
  proof (rule item_at_frame [OF m1(3)])
    show "m2 a = m1 a" if "a < base + off + item_size i" for a
      by (rule writes_only_same [OF m2(2)]) (use that in simp)
    show "str_ref m2 (lim - n) n w nm" if "str_ref m1 (lim - n) n w nm" for w nm
      by (rule str_ref_frame [OF that m2(2)]) (use l1 in simp)
  qed
  moreover have "writes_only m m2 (base + off) (item_size i + items_size is)"
    by (rule writes_only_trans [of _ m1]) (rule writes_only_mono [OF m1(2)] writes_only_mono [OF m2(2)]; use z zi in simp)+
  ultimately show ?case using m1(1) m2(1,3) by (simp add: base_def add.assoc)
qed

text \<open>
  A finished tree: the blocks in order, the structure block holds the items and the end tag, and every
  name offset leads to the name in the strings block.
\<close>

definition finished :: "mem \<Rightarrow> int \<Rightarrow> sw_item list \<Rightarrow> bool" where
  "finished m fdt is \<longleftrightarrow> rw_ok m fdt \<and> header_ok m fdt \<and>
     h_size_struct m fdt = items_size is + 4 \<and>
     items_at (str_ref m (fdt + h_off_strings m fdt) (h_size_strings m fdt)) m (fdt + h_off_struct m fdt) is \<and>
     fdt32_ld m (fdt + h_off_struct m fdt + items_size is) = Some FDT_END"

text \<open>The room an open tree has, its place in memory, and its reserve map in front.\<close>

definition placed :: "mem \<Rightarrow> int \<Rightarrow> bool" where
  "placed m fdt \<longleftrightarrow> fdt mod 8 = 0 \<and> h_totalsize m fdt < INT32_MAX \<and> fdt + h_totalsize m fdt \<le> 4294967296 \<and>
     mapped m fdt (4 * ((h_totalsize m fdt + 3) div 4)) \<and> h_off_rsvmap m fdt mod 8 = 0 \<and>
     40 \<le> h_off_rsvmap m fdt \<and> h_off_rsvmap m fdt \<le> h_off_struct m fdt \<and> h_off_struct m fdt mod 4 = 0"

lemma placed_blob:
  assumes s: "sw_ok m fdt" and p: "placed m fdt"
  shows "blob m fdt"
  using assms sw_bounds [OF s] by (simp add: blob_def placed_def sw_ok_header)

text \<open>The last fields of the header.\<close>

lemma finish_header:
  assumes h: "mapped m fdt 40" and t: "0 \<le> ts" "ts \<le> UINT32_MAX"
  obtains m1 m2 m' where "fdt_set_totalsize m fdt ts = Some m1" "fdt_set_last_comp_version m1 fdt 16 = Some m2"
    "fdt_set_magic m2 fdt FDT_MAGIC = Some m'" "mapped m' fdt 40" "writes_only m m' fdt 40"
    "h_totalsize m' fdt = ts" "h_last_comp m' fdt = 16" "hdr m' fdt 0 = FDT_MAGIC"
    "\<forall>k \<in> {8, 12, 16, 20, 32, 36}. hdr m' fdt k = hdr m fdt k"
proof -
  obtain m1 where m1: "fdt32_set m (fdt + 4) ts = Some m1" "writes_only m m1 (fdt + 4) 4" "mapped m1 fdt 40"
    "hdr m1 fdt 4 = to_u32 ts" "\<And>j. j + 4 \<le> 4 \<or> 4 + 4 \<le> j \<Longrightarrow> hdr m1 fdt j = hdr m fdt j"
    by (rule hdr_set [OF h, of 4 ts]) auto
  obtain m2 where m2: "fdt32_set m1 (fdt + 24) 16 = Some m2" "writes_only m1 m2 (fdt + 24) 4" "mapped m2 fdt 40"
    "hdr m2 fdt 24 = to_u32 16" "\<And>j. j + 4 \<le> 24 \<or> 24 + 4 \<le> j \<Longrightarrow> hdr m2 fdt j = hdr m1 fdt j"
    by (rule hdr_set [OF m1(3), of 24 16]) auto
  obtain m3 where m3: "fdt32_set m2 (fdt + 0) FDT_MAGIC = Some m3" "writes_only m2 m3 (fdt + 0) 4" "mapped m3 fdt 40"
    "hdr m3 fdt 0 = to_u32 FDT_MAGIC" "\<And>j. j + 4 \<le> 0 \<or> 0 + 4 \<le> j \<Longrightarrow> hdr m3 fdt j = hdr m2 fdt j"
    by (rule hdr_set [OF m2(3), of 0 FDT_MAGIC]) auto
  show thesis
  proof (rule that [of m1 m2 m3])
    show "writes_only m m3 fdt 40"
      by (rule writes_only_trans [of _ m2], rule writes_only_trans [of _ m1])
        (rule writes_only_mono [OF m1(2)] writes_only_mono [OF m2(2)] writes_only_mono [OF m3(2)]; simp)+
    show "\<forall>k \<in> {8, 12, 16, 20, 32, 36}. hdr m3 fdt k = hdr m fdt k"
      using m1(5) m2(5) m3(5) by simp
  qed (use m1 m2 m3 t in \<open>simp_all add: fdt_set_defs to_u32_id\<close>)
qed

text \<open>The end tag is set and the strings are moved down to it.\<close>

lemma finish_strings:
  assumes b: "built m fdt is" and r: "4 \<le> sw_room m fdt"
  defines "new \<equiv> sw_top m fdt + 4" and "n \<equiv> h_size_strings m fdt"
  obtains m1 m2 m3 m4 where "fdt_grab_space m fdt 4 = Some (fdt + sw_top m fdt, m1)" "fdt + sw_top m fdt \<noteq> 0"
    "fdt32_set m1 (fdt + sw_top m fdt) FDT_END = Some m2" "sw_ok m2 fdt" "sw_top m2 fdt = new"
    "h_totalsize m2 fdt = h_totalsize m fdt" "h_size_strings m2 fdt = n"
    "memmove m2 (fdt + new) (fdt + (h_totalsize m fdt - n)) (nat n) = Some (fdt + new, m3)"
    "fdt_set_off_dt_strings m3 fdt new = Some m4"
    "sw_ok m4 fdt" "same_but {12, 36} m m4 fdt" "h_off_strings m4 fdt = new"
    "h_size_struct m4 fdt = items_size is + 4"
    "items_at (up_ref m4 (fdt + new + n) n) m4 (fdt + h_off_struct m fdt) is"
    "fdt32_ld m4 (fdt + h_off_struct m fdt + items_size is) = Some FDT_END"
    "\<And>a. fdt + 40 \<le> a \<Longrightarrow> a < fdt + sw_top m fdt \<Longrightarrow> m4 a = m a"
proof -
  have s: "sw_ok m fdt" "h_size_struct m fdt = items_size is" "items_at (sw_ref m fdt) m (fdt + h_off_struct m fdt) is"
    using b by (simp_all add: built_def)
  note bd = sw_bounds [OF s(1)]
  from grab_tag [OF s(1) r, of FDT_END] obtain m1 m2 where
    m2: "fdt_grab_space m fdt 4 = Some (fdt + sw_top m fdt, m1)" "fdt + sw_top m fdt \<noteq> 0"
      "fdt32_set m1 (fdt + sw_top m fdt) FDT_END = Some m2" "grown m m2 fdt 4"
      "fdt32_ld m2 (fdt + sw_top m fdt) = Some (to_u32 FDT_END)" by blast
  note g = grown_ok [OF s(1) m2(4) _ r, simplified]
  have sb: "same_but {36} m m2 fdt" "h_size_struct m2 fdt = items_size is + 4"
    using m2(4) s(2) by (simp_all add: grown_def)
  have N: "44 \<le> new" "new + n \<le> h_totalsize m fdt" "0 \<le> n" "h_totalsize m fdt \<le> INT32_MAX"
    using bd r by (simp_all add: new_def n_def sw_room_def sw_top_def)
  have mp: "mapped m2 fdt (h_totalsize m fdt)" using g(1,3) by (simp add: sw_ok_def)
  have "mapped m2 (fdt + (h_totalsize m fdt - n)) (int (nat n))" "mapped m2 (fdt + new) (int (nat n))"
    by (rule mapped_sub [OF mp]; use N in simp)+
  then obtain m3 where m3: "memmove m2 (fdt + new) (fdt + (h_totalsize m fdt - n)) (nat n) = Some (fdt + new, m3)"
    "writes_only m2 m3 (fdt + new) (int (nat n))"
    "\<And>i. 0 \<le> i \<Longrightarrow> i < int (nat n) \<Longrightarrow> m3 (fdt + new + i) = m2 (fdt + (h_totalsize m fdt - n) + i)"
    by (rule memmove_spec) blast
  have sb3: "same_but {} m2 m3 fdt" by (rule same_but_body [OF g(1) m3(2)]) (use N g(3) in simp_all)
  note f3 = same_but_fields [OF sb3]
  have s3: "sw_ok m3 fdt" using sw_bounds [OF g(1)] f3 by (intro sw_ok_upd(1) [OF g(1) sb3]) simp_all
  have nn: "0 \<le> new" "new \<le> UINT32_MAX" using N by simp_all
  obtain m4 where m4: "fdt32_set m3 (fdt + 12) new = Some m4" "h_off_strings m4 fdt = new" "same_but {12} m3 m4 fdt"
    "writes_only m3 m4 (fdt + 12) 4"
    by (rule sw_set_field [OF s3 hdr_field(4) nn])
  note f4 = same_but_fields [OF m4(3)]
  have s4: "sw_ok m4 fdt" using sw_bounds [OF s3] f4 by (intro sw_ok_upd(1) [OF s3 m4(3)]) simp_all
  have "same_but ({36} \<union> {}) m m3 fdt" by (rule same_but_trans [OF sb(1) sb3]) simp
  then have "same_but ({36} \<union> {12}) m m4 fdt" using same_but_trans [OF _ m4(3), of "{36}" m] by simp
  then have sb4: "same_but {12, 36} m m4 fdt" by (simp add: insert_commute)
  have low: "m4 a = m a" if "fdt + 40 \<le> a" "a < fdt + sw_top m fdt" for a
  proof -
    have "m4 a = m3 a" by (rule writes_only_same [OF m4(4)]) (use that in simp)
    also have "\<dots> = m2 a" by (rule writes_only_same [OF m3(2)]) (use that in \<open>simp add: new_def\<close>)
    finally show ?thesis using m2(4) that by (simp add: grown_def)
  qed
  have strs: "m4 (fdt + new + i) = m (fdt + (h_totalsize m fdt - n) + i)" if "0 \<le> i" "i < n" for i
  proof -
    have "m4 (fdt + new + i) = m3 (fdt + new + i)" by (rule writes_only_same [OF m4(4)]) (use that N in simp)
    also have "\<dots> = m2 (fdt + (h_totalsize m fdt - n) + i)" using m3(3) that by simp
    also have "\<dots> = m (fdt + (h_totalsize m fdt - n) + i)"
      using m2(4) that N unfolding grown_def by (simp add: new_def)
    finally show ?thesis .
  qed
  have ref: "up_ref m4 (fdt + new + n) n v nm" if u: "sw_ref m fdt v nm" for v nm
  proof -
    from u obtain off where off: "v = to_u32 off" "- n \<le> off" "off + int (length nm) + 1 \<le> 0"
      "bytes_at m (fdt + h_totalsize m fdt + off) (nm @ [0])" by (auto simp: up_ref_def n_def)
    have "m4 (fdt + new + n + off + int j) = m (fdt + h_totalsize m fdt + off + int j)" if "j < length (nm @ [0])" for j
      using strs [of "n + off + int j"] off(2,3) that by (simp add: add.assoc)
    then have "bytes_at m4 (fdt + new + n + off) (nm @ [0])" using off(4) unfolding bytes_at_iff by simp
    with off show ?thesis unfolding up_ref_def by blast
  qed
  have base: "fdt + 40 \<le> fdt + h_off_struct m fdt" "sw_top m fdt = h_off_struct m fdt + items_size is"
    using bd s(2) by (simp_all add: sw_top_def)
  have "items_at (up_ref m4 (fdt + new + n) n) m4 (fdt + h_off_struct m fdt) is"
    by (rule items_at_frame [OF s(3)]) (use low base ref in simp_all)
  moreover have "fdt32_ld m4 (fdt + sw_top m fdt) = Some FDT_END"
    using m2(5) fdt32_ld_frame [OF m3(2), of "fdt + sw_top m fdt"] fdt32_ld_frame [OF m4(4), of "fdt + sw_top m fdt"] N
    by (simp add: new_def to_u32_id)
  moreover have "h_size_struct m4 fdt = items_size is + 4" using f4 f3 sb(2) by simp
  moreover have "fdt_set_off_dt_strings m3 fdt new = Some m4" using m4(1) by (simp add: fdt_set_defs)
  ultimately show thesis
    using that [of m1 m2 m3 m4] m2(1-3) g(1,3,4,6) m3(1) m4(2) s4 sb4 base(2) low
    by (simp add: new_def n_def add.assoc)
qed

text \<open>The walk over the items and the last header fields finish the tree.\<close>

lemma finish_walk:
  assumes s: "sw_ok m fdt" and p: "placed m fdt" and h: "h_size_struct m fdt = items_size is + 4"
    and new: "h_off_strings m fdt = new" "new = h_off_struct m fdt + items_size is + 4"
    and n: "h_size_strings m fdt = n" "new + n \<le> h_totalsize m fdt"
    and i: "items_at (up_ref m (fdt + new + n) n) m (fdt + h_off_struct m fdt) is"
      "fdt32_ld m (fdt + h_off_struct m fdt + items_size is) = Some FDT_END"
  obtains m1 m2 m3 m' where "fdt_finish_loop m fdt 0 = Some (items_size is + 4, m1)"
    "fdt_size_dt_strings m1 fdt = Some n" "fdt_set_totalsize m1 fdt (new + n) = Some m2"
    "fdt_set_last_comp_version m2 fdt 16 = Some m3" "fdt_set_magic m3 fdt FDT_MAGIC = Some m'"
    "finished m' fdt is" "writes_only m m' fdt (h_totalsize m fdt)" "h_totalsize m' fdt = new + n"
    "h_off_struct m' fdt = h_off_struct m fdt" "h_off_rsvmap m' fdt = h_off_rsvmap m fdt"
    "\<And>a. fdt + 40 \<le> a \<Longrightarrow> a < fdt + h_off_struct m fdt \<Longrightarrow> m' a = m a"
proof -
  note bd = sw_bounds [OF s] and z = items_size_nonneg(1) [of "is"] and b = placed_blob [OF s p]
  have N: "0 \<le> n" "44 \<le> new" using bd n(1) new(2) z by simp_all
  have v: "h_version m fdt = 17" using s by (simp add: sw_ok_def)
  have fits: "struct_fits m fdt 0 (items_size is + 4)" using h new(2) n N by (simp add: struct_fits_def)
  from finish_loop_spec [OF b v _ _ fits, of n "fdt + new + n"] obtain m1 where
    m1: "fdt_finish_loop m fdt 0 = Some (items_size is + 4, m1)"
      "writes_only m m1 (fdt + h_off_struct m fdt) (items_size is)"
      "items_at (str_ref m1 (fdt + new) n) m1 (fdt + h_off_struct m fdt) is"
    using i bd N n new by auto
  have low: "fdt + 40 \<le> fdt + h_off_struct m fdt" using bd by simp
  have h1: "mapped m1 fdt 40" using writes_only_mapped [OF m1(2) sw_ok_header [OF s]] .
  have k1: "hdr m1 fdt k = hdr m fdt k" if "k \<le> 36" for k using hdr_frame [OF m1(2)] low that by simp
  have ts: "0 \<le> new + n" "new + n \<le> UINT32_MAX" using N n bd by simp_all
  obtain m2 m3 m4 where m4: "fdt_set_totalsize m1 fdt (new + n) = Some m2"
    "fdt_set_last_comp_version m2 fdt 16 = Some m3" "fdt_set_magic m3 fdt FDT_MAGIC = Some m4" "mapped m4 fdt 40"
    "writes_only m1 m4 fdt 40" "h_totalsize m4 fdt = new + n" "h_last_comp m4 fdt = 16" "hdr m4 fdt 0 = FDT_MAGIC"
    "\<forall>k \<in> {8, 12, 16, 20, 32, 36}. hdr m4 fdt k = hdr m1 fdt k"
    by (rule finish_header [OF h1 ts])
  have f: "h_off_struct m4 fdt = h_off_struct m fdt" "h_off_strings m4 fdt = new" "h_version m4 fdt = 17"
    "h_off_rsvmap m4 fdt = h_off_rsvmap m fdt" "h_size_strings m4 fdt = n" "h_size_struct m4 fdt = items_size is + 4"
    using m4(9) k1 h new(1) n(1) v by simp_all
  have w: "writes_only m m4 fdt (h_totalsize m fdt)"
    by (rule writes_only_trans [of _ m1]) (rule writes_only_mono [OF m1(2)] writes_only_mono [OF m4(5)]; use N n new(2) bd low in simp)+
  have same: "m4 a = m1 a" if "fdt + 40 \<le> a" for a by (rule writes_only_same [OF m4(5)]) (use that in simp)
  have "4 * ((new + n + 3) div 4) \<le> 4 * ((h_totalsize m fdt + 3) div 4)" using n(2) by (simp add: zdiv_mono1)
  then have "mapped m4 fdt (4 * ((new + n + 3) div 4))"
    using p by (rule_tac writes_only_mapped [OF w], rule_tac mapped_sub [of m fdt "4 * ((h_totalsize m fdt + 3) div 4)"])
      (simp_all add: placed_def)
  then have "rw_ok m4 fdt" using p f m4(4,6-8) N n new(2) bd z by (simp add: rw_ok_def placed_def)
  moreover have "header_ok m4 fdt"
    using p f m4(6-8) N n new(2) bd z by (simp add: header_ok_def Let_def fdt_header_size_of_def placed_def)
  moreover have "items_at (str_ref m4 (fdt + new) n) m4 (fdt + h_off_struct m fdt) is"
    by (rule items_at_frame [OF m1(3)]) (use same low N in \<open>auto intro: str_ref_frame [OF _ m4(5)]\<close>)
  moreover have "fdt32_ld m4 (fdt + h_off_struct m fdt + items_size is) = Some FDT_END"
    using i(2) fdt32_ld_frame [OF m1(2), of "fdt + h_off_struct m fdt + items_size is"]
      fdt32_ld_frame [OF m4(5), of "fdt + h_off_struct m fdt + items_size is"] low z by simp
  ultimately have "finished m4 fdt is" using f m4(6,7) new(2) by (simp add: finished_def)
  moreover have "m4 x = m x" if "fdt + 40 \<le> x" "x < fdt + h_off_struct m fdt" for x
    using same [OF that(1)] writes_only_same [OF m1(2), of x] that by simp
  moreover have "fdt_size_dt_strings m1 fdt = Some n" using header_fields [OF h1] k1 n(1) by simp
  ultimately show thesis using that m1(1) m4(1-3,6) w f by blast
qed

lemma finish_spec:
  assumes b: "built m fdt is" and p: "placed m fdt" and r: "4 \<le> sw_room m fdt"
  shows "\<exists>m'. fdt_finish m fdt = Some (0, m') \<and> writes_only m m' fdt (h_totalsize m fdt) \<and> finished m' fdt is \<and>
    h_totalsize m' fdt \<le> h_totalsize m fdt \<and>
    h_off_struct m' fdt = h_off_struct m fdt \<and> h_off_rsvmap m' fdt = h_off_rsvmap m fdt \<and>
    (\<forall>a. fdt + 40 \<le> a \<and> a < fdt + h_off_struct m fdt \<longrightarrow> m' a = m a)"
proof -
  have s: "sw_ok m fdt" "sw_open m fdt" "h_size_struct m fdt = items_size is" using b by (simp_all add: built_def)
  note bd = sw_bounds [OF s(1)] and z = items_size_nonneg(1) [of "is"]
  define new where "new = sw_top m fdt + 4"
  define n where "n = h_size_strings m fdt"
  have N: "new + n \<le> h_totalsize m fdt" "0 \<le> n" "40 \<le> new" "new = h_off_struct m fdt + items_size is + 4"
    using bd r s(3) by (simp_all add: new_def n_def sw_room_def sw_top_def)
  obtain m1 m2 m3 m4 where a: "fdt_grab_space m fdt 4 = Some (fdt + sw_top m fdt, m1)" "fdt + sw_top m fdt \<noteq> 0"
    "fdt32_set m1 (fdt + sw_top m fdt) FDT_END = Some m2" "sw_ok m2 fdt" "sw_top m2 fdt = new"
    "h_totalsize m2 fdt = h_totalsize m fdt" "h_size_strings m2 fdt = n"
    "memmove m2 (fdt + new) (fdt + (h_totalsize m fdt - n)) (nat n) = Some (fdt + new, m3)"
    "fdt_set_off_dt_strings m3 fdt new = Some m4" and s4: "sw_ok m4 fdt" and sb: "same_but {12, 36} m m4 fdt"
    and h4: "h_off_strings m4 fdt = new" "h_size_struct m4 fdt = items_size is + 4"
    and i4: "items_at (up_ref m4 (fdt + new + n) n) m4 (fdt + h_off_struct m fdt) is"
    "fdt32_ld m4 (fdt + h_off_struct m fdt + items_size is) = Some FDT_END"
    and low: "\<And>a. fdt + 40 \<le> a \<Longrightarrow> a < fdt + sw_top m fdt \<Longrightarrow> m4 a = m a"
    using finish_strings [OF b r, folded new_def n_def] by blast
  note f4 = same_but_fields [OF sb, simplified] and w4 = same_but_writes [OF sb]
  have p4: "placed m4 fdt" using p f4 writes_only_mapped [OF w4] by (simp add: placed_def)
  obtain m5 m6 m7 m8 where e: "fdt_finish_loop m4 fdt 0 = Some (items_size is + 4, m5)"
    "fdt_size_dt_strings m5 fdt = Some n" "fdt_set_totalsize m5 fdt (new + n) = Some m6"
    "fdt_set_last_comp_version m6 fdt 16 = Some m7" "fdt_set_magic m7 fdt FDT_MAGIC = Some m8"
    and m8: "finished m8 fdt is" "writes_only m4 m8 fdt (h_totalsize m fdt)" "h_totalsize m8 fdt = new + n"
      "h_off_struct m8 fdt = h_off_struct m fdt" "h_off_rsvmap m8 fdt = h_off_rsvmap m fdt"
      "\<And>a. fdt + 40 \<le> a \<Longrightarrow> a < fdt + h_off_struct m fdt \<Longrightarrow> m8 a = m4 a"
    using finish_walk [OF s4 p4 h4(2,1)] f4 N i4 unfolding n_def by metis
  have u: "to_s32 (h_totalsize m fdt - n) = h_totalsize m fdt - n" "to_s32 new = new" "to_u32 (new + n) = new + n"
    using N bd by (simp_all add: to_s32_id to_u32_id)
  have "h_off_struct m2 fdt + h_size_struct m2 fdt = new" using a(5) by (simp add: sw_top_def)
  then have "fdt_finish m fdt = Some (0, m8)"
    using a(1-3,8,9) e s(2) z
    by (simp add: fdt_finish_def sw_probe_struct_ok [OF s(1)] sw_simps [OF a(4)] Let_def a(6,7) u)
  moreover have "m8 x = m x" if "fdt + 40 \<le> x" "x < fdt + h_off_struct m fdt" for x
    using m8(6) [OF that] low [of x] that z s(3) by (simp add: sw_top_def)
  ultimately show ?thesis
    using m8(1-5) N(1) writes_only_trans [OF w4 m8(2)] by (intro exI [of _ m8]) simp
qed

lemma finish_full:
  assumes b: "built m fdt is" and r: "sw_room m fdt < 4"
  shows "fdt_finish m fdt = Some (- FDT_ERR_NOSPACE, m)"
proof -
  have s: "sw_ok m fdt" "sw_open m fdt" using b by (simp_all add: built_def)
  have "fdt_grab_space m fdt 4 = Some (0, m)" by (rule grab_run [OF s(1), of 4]) (use r in auto)
  then show ?thesis by (simp add: fdt_finish_def sw_probe_struct_ok [OF s(1)] s(2))
qed

end
