(* ===== verification/Fdt_Built.thy ===== *)
theory Fdt_Built
  imports Fdt_Build
begin

text \<open>
  The tree that \<open>fdt_finish\<close> leaves behind, seen by the readers of libfdt: tags, node names,
  properties with their names and values, the reserve map, the full check and a lookup by name.
\<close>

section \<open>Reading the finished tree\<close>

text \<open>The items, as the readers of libfdt see them from an offset of the structure block on.\<close>

fun reads_back :: "mem \<Rightarrow> int \<Rightarrow> int \<Rightarrow> sw_item list \<Rightarrow> bool" where
  "reads_back m fdt off [] \<longleftrightarrow> fdt_next_tag m fdt off = Some (FDT_END, off + 4)"
| "reads_back m fdt off (Open_item nm # is) \<longleftrightarrow>
     (\<exists>nx p. fdt_next_tag m fdt off = Some (FDT_BEGIN_NODE, nx) \<and> off < nx \<and>
        fdt_get_name m fdt off = Some (p, int (length nm)) \<and> p \<noteq> 0 \<and> cstr_at m p nm \<and> reads_back m fdt nx is)"
| "reads_back m fdt off (Prop_item nm bs # is) \<longleftrightarrow>
     (\<exists>nx p q. fdt_next_tag m fdt off = Some (FDT_PROP, nx) \<and> off < nx \<and>
        fdt_getprop_by_offset m fdt off True = Some (p, Some q, int (length bs)) \<and> p \<noteq> 0 \<and>
        bytes_at m p bs \<and> cstr_at m q nm \<and> reads_back m fdt nx is)"
| "reads_back m fdt off (Close_item # is) \<longleftrightarrow>
     (\<exists>nx. fdt_next_tag m fdt off = Some (FDT_END_NODE, nx) \<and> off < nx \<and> reads_back m fdt nx is)"

lemma bytes_cstr: "bytes_at m p (nm @ [0]) \<Longrightarrow> 0 \<notin> set nm \<Longrightarrow> cstr_at m p nm"
  by (auto simp: cstr_at_iff bytes_at_iff nth_append less_Suc_eq)

lemma finishedD:
  assumes "finished m fdt is"
  shows "rw_ok m fdt" "blob m fdt" "header_ok m fdt" "h_version m fdt = 17" "16 \<le> h_version m fdt"
    "hdr m fdt 0 = FDT_MAGIC" "h_size_struct m fdt = items_size is + 4"
    "h_off_struct m fdt + h_size_struct m fdt \<le> h_off_strings m fdt"
    "h_off_strings m fdt + h_size_strings m fdt \<le> h_totalsize m fdt"
    "items_at (str_ref m (fdt + h_off_strings m fdt) (h_size_strings m fdt)) m (fdt + h_off_struct m fdt) is"
    "fdt32_ld m (fdt + h_off_struct m fdt + items_size is) = Some FDT_END"
proof -
  show r: "rw_ok m fdt" using assms unfolding finished_def by (elim conjE)
  show "blob m fdt" "h_version m fdt = 17" "16 \<le> h_version m fdt" using rw_blob [OF r] rw_bounds(10) [OF r] by simp_all
  show "h_off_struct m fdt + h_size_struct m fdt \<le> h_off_strings m fdt"
    "h_off_strings m fdt + h_size_strings m fdt \<le> h_totalsize m fdt" by (rule rw_bounds [OF r])+
  show "hdr m fdt 0 = FDT_MAGIC" using r unfolding rw_ok_def by (elim conjE)
qed (insert assms, unfold finished_def, (elim conjE, assumption)+)

lemma finished_string:
  assumes f: "finished m fdt is"
    and r: "str_ref m (fdt + h_off_strings m fdt) (h_size_strings m fdt) v nm" and n: "0 \<notin> set nm"
  shows "fdt_get_string m fdt v = Some (fdt + h_off_strings m fdt + v, int (length nm))"
proof -
  note fd = finishedD [OF f]
  note b = fd(2) and h = fd(4,6,9) and bb = blob_bounds [OF fd(2)]
  have v: "0 \<le> v" "v + int (length nm) + 1 \<le> h_size_strings m fdt"
    "bytes_at m (fdt + h_off_strings m fdt + v) (nm @ [0])" using r by (simp_all add: str_ref_def)
  define a where "a = fdt + h_off_strings m fdt + v"
  have u: "to_u32 (v + h_off_strings m fdt) = v + h_off_strings m fdt"
    using v h(3) bb by (intro to_u32_id) simp_all
  have "memchr m a (uint (0 :: u8)) (nat (h_size_strings m fdt - v)) = Some (a + int (length nm))"
    by (rule memchr_found) (use v n in \<open>simp_all add: a_def\<close>)
  moreover have "a + int (length nm) \<noteq> 0" "to_s32 (int (length nm)) = int (length nm)"
    "fdt + (v + h_off_strings m fdt) = a" using v bb h(3) by (simp_all add: a_def to_s32_id)
  ultimately have r: "memchr m a 0 (nat (h_size_strings m fdt - v)) = Some (a + int (length nm))"
    "a + int (length nm) \<noteq> 0" "to_s32 (int (length nm)) = int (length nm)" "fdt + (v + h_off_strings m fdt) = a"
    by simp_all
  have "nat (if h_size_strings m fdt - v < h_totalsize m fdt - (v + h_off_strings m fdt) then h_size_strings m fdt - v
      else h_totalsize m fdt - (v + h_off_strings m fdt)) = nat (h_size_strings m fdt - v)" using h(3) by auto
  with r show ?thesis
    using v h bb u rw_ro_probe [OF fd(1)]
    by (simp add: fdt_get_string_def blob_simps [OF b] Let_def a_def [symmetric] split: if_splits)
qed

text \<open>The name of a node that was written as an item.\<close>

lemma open_item_name:
  assumes r: "rw_ok m fdt" and al: "off mod 4 = 0" and fits: "struct_fits m fdt off (item_size (Open_item nm))"
    and i: "item_at ref m (fdt + h_off_struct m fdt + off) (Open_item nm)"
  shows "fdt_get_name m fdt off = Some (fdt + h_off_struct m fdt + off + 4, int (length nm))"
    "string_in m fdt (fdt + h_off_struct m fdt + off + 4) nm" "fdt + h_off_struct m fdt + off + 4 \<noteq> 0"
proof -
  note b = rw_blob [OF r]
  note bb = blob_bounds [OF b] and tb = tag_size_bounds(1) [of "int (length nm) + 1"]
  define p where "p = fdt + h_off_struct m fdt + off + 4"
  have o: "0 \<le> off" "off + (4 + tag_size (int (length nm) + 1)) \<le> h_totalsize m fdt"
    using fits bb by (simp_all add: struct_fits_def)
  have v: "16 \<le> h_version m fdt" using rw_bounds(10) [OF r] by simp
  note tag = item_tag_at [OF b v al fits i]
  have c: "cstr_at m p nm" using i bytes_cstr by (simp add: p_def)
  show sin: "string_in m fdt (fdt + h_off_struct m fdt + off + 4) nm"
    unfolding p_def [symmetric] using c o fits tb bb by (simp add: string_in_def p_def struct_fits_def)
  have len: "int (length nm) \<le> INT32_MAX" using sin bb by (simp add: string_in_def)
  show "fdt + h_off_struct m fdt + off + 4 \<noteq> 0" using bb o(1) by simp
  have "\<not> off + item_size (Open_item nm) < 0" using o(1) item_size_pos(1) [of "Open_item nm"] by simp
  then show "fdt_get_name m fdt off = Some (fdt + h_off_struct m fdt + off + 4, int (length nm))"
    using rw_ro_probe [OF r] tag o bb v al strlen_string_in [OF b sin] len
    by (simp add: fdt_get_name_def fdt_offset_ptr_raw_def blob_simps [OF b] fdt_check_node_offset_def to_s32_id)
qed

lemma finished_item:
  assumes f: "finished m fdt is" and al: "off mod 4 = 0"
    and fits: "struct_fits m fdt off (item_size i)"
    and i: "item_at (str_ref m (fdt + h_off_strings m fdt) (h_size_strings m fdt)) m (fdt + h_off_struct m fdt + off) i"
    and rest: "reads_back m fdt (off + item_size i) is'"
  shows "reads_back m fdt off (i # is')"
proof -
  note fd = finishedD [OF f]
  note b = fd(2) and v = fd(5,4) and str = fd(9)
  note bb = blob_bounds [OF b] and tag = item_tag_at [OF b v(1) al fits i]
  have o: "0 \<le> off" "off + item_size i \<le> h_totalsize m fdt" using fits bb by (simp_all add: struct_fits_def)
  show ?thesis
  proof (cases i)
    case (Open_item nm)
    note nm = open_item_name [OF fd(1) al fits [unfolded Open_item] i [unfolded Open_item]]
    with tag(2) rest Open_item item_size_pos(1) [of i] show ?thesis by (auto simp: string_in_def)
  next
    case (Prop_item nm bs)
    with i obtain w where w: "fdt32_ld m (fdt + h_off_struct m fdt + off + 8) = Some w"
      "str_ref m (fdt + h_off_strings m fdt) (h_size_strings m fdt) w nm"
      "fdt32_ld m (fdt + h_off_struct m fdt + off + 4) = Some (int (length bs))"
      "bytes_at m (fdt + h_off_struct m fdt + off + 12) bs" "0 \<notin> set nm" by auto
    have pa: "prop_at m fdt off" using tag al Prop_item by (auto simp: prop_at_def)
    note pr = prop_at_reads [OF b pa]
    have len: "sfield m fdt (off + 4) = int (length bs)" using pr(3) w(3) by simp
    have cs: "cstr_at m (fdt + h_off_strings m fdt + w) nm" using w(2,5) bytes_cstr by (simp add: str_ref_def)
    have "to_s32 w = w" using w(2) str bb by (simp add: str_ref_def to_s32_id)
    then have "fdt_getprop_by_offset m fdt off True =
      Some (fdt + h_off_struct m fdt + off + 12, Some (fdt + h_off_strings m fdt + w), int (length bs))"
      using pr(1,4) w(1) finished_string [OF f w(2,5)] bb w(2) len prop_data_spec [OF b pa] v
      by (auto simp: fdt_getprop_by_offset_def str_ref_def)
    with tag(2) w(4) cs rest Prop_item bb o(1) item_size_pos(1) [of i] show ?thesis by auto
  next
    case Close_item
    with tag(2) rest show ?thesis by simp
  qed
qed

lemma finished_reads:
  assumes f: "finished m fdt is"
  shows "0 \<le> off \<Longrightarrow> off mod 4 = 0 \<Longrightarrow> off + items_size js = items_size is \<Longrightarrow>
    items_at (str_ref m (fdt + h_off_strings m fdt) (h_size_strings m fdt)) m (fdt + h_off_struct m fdt + off) js \<Longrightarrow>
    reads_back m fdt off js"
proof (induction js arbitrary: off)
  case Nil
  note fd = finishedD [OF f]
  have "struct_fits m fdt off 4" using fd Nil blob_bounds [OF fd(2)] by (simp add: struct_fits_def)
  with end_tag_at [OF fd(2,5) Nil(2)] fd(11) Nil show ?case by simp
next
  case (Cons i js)
  note fd = finishedD [OF f]
  note b = fd(2) and zi = item_size_pos [of i] and z = items_size_nonneg(1) [of js]
  have fits: "struct_fits m fdt off (item_size i)"
    using fd Cons.prems(1,3) z blob_bounds [OF b] by (simp add: struct_fits_def)
  have al: "(off + item_size i) mod 4 = 0" using Cons.prems(2) zi(2) by presburger
  have "reads_back m fdt (off + item_size i) js"
    by (rule Cons.IH) (use Cons.prems al zi in \<open>simp_all add: add.assoc\<close>)
  with finished_item [OF f Cons.prems(2) fits] Cons.prems(4) show ?case by simp
qed

text \<open>
  What the full check accepts: every node is closed, nothing follows the close of the root, and the
  root has the empty name.
\<close>

fun nested :: "int \<Rightarrow> bool \<Rightarrow> sw_item list \<Rightarrow> bool" where
  "nested d closed [] \<longleftrightarrow> d = 0"
| "nested d closed (Open_item nm # is) \<longleftrightarrow> \<not> closed \<and> (d = 0 \<longrightarrow> nm = []) \<and> nested (d + 1) closed is"
| "nested d closed (Prop_item nm bs # is) \<longleftrightarrow> \<not> closed \<and> nested d closed is"
| "nested d closed (Close_item # is) \<longleftrightarrow> \<not> closed \<and> d \<noteq> 0 \<and> nested (d - 1) (d = 1) is"

lemma check_loop_items:
  "reads_back m fdt off is \<Longrightarrow> 0 \<le> off \<Longrightarrow> 0 \<le> d \<Longrightarrow> d + int (length is) \<le> INT32_MAX \<Longrightarrow>
   fdt_check_full_loop m fdt off d closed = Some (if nested d closed is then 0 else - FDT_ERR_BADSTRUCTURE)"
proof (induction "is" arbitrary: off d closed)
  case Nil
  then show ?case by (simp add: fdt_check_full_loop.simps [of m fdt off])
next
  case (Cons i "is")
  note step = fdt_check_full_loop.simps [of m fdt off]
  show ?case
  proof (cases i)
    case (Open_item nm)
    with Cons.prems(1) obtain nx p where r: "fdt_next_tag m fdt off = Some (FDT_BEGIN_NODE, nx)" "off < nx"
      "fdt_get_name m fdt off = Some (p, int (length nm))" "p \<noteq> 0" "cstr_at m p nm" "reads_back m fdt nx is" by auto
    have ih: "fdt_check_full_loop m fdt nx (d + 1) closed =
        Some (if nested (d + 1) closed is then 0 else - FDT_ERR_BADSTRUCTURE)"
      by (rule Cons.IH) (use r Cons.prems in simp_all)
    have u: "to_u32 (d + 1) = d + 1" "d + 1 \<le> INT32_MAX" using Cons.prems by (simp_all add: to_u32_id)
    show ?thesis
    proof (cases nm)
      case Nil
      with r ih u Open_item Cons.prems(2) show ?thesis
        by (cases closed; cases "d = 0") (simp_all add: step load8_def)
    next
      case (Cons c cs)
      with r ih u Open_item Cons.prems(2) show ?thesis
        by (cases closed; cases "d = 0") (simp_all add: step load8_def)
    qed
  next
    case (Prop_item nm bs)
    with Cons.prems(1) obtain nx p q where r: "fdt_next_tag m fdt off = Some (FDT_PROP, nx)" "off < nx"
      "fdt_getprop_by_offset m fdt off True = Some (p, Some q, int (length bs))" "p \<noteq> 0" "reads_back m fdt nx is" by auto
    have "fdt_check_full_loop m fdt nx d closed = Some (if nested d closed is then 0 else - FDT_ERR_BADSTRUCTURE)"
      by (rule Cons.IH) (use r Cons.prems in simp_all)
    with r Prop_item Cons.prems(2) show ?thesis by (cases closed) (simp_all add: step)
  next
    case Close_item
    with Cons.prems(1) obtain nx where r: "fdt_next_tag m fdt off = Some (FDT_END_NODE, nx)" "off < nx"
      "reads_back m fdt nx is" by auto
    have "d \<noteq> 0 \<Longrightarrow> fdt_check_full_loop m fdt nx (d - 1) (d = 1) =
        Some (if nested (d - 1) (d = 1) is then 0 else - FDT_ERR_BADSTRUCTURE)"
      by (rule Cons.IH) (use r Cons.prems in simp_all)
    with r Close_item Cons.prems(2) show ?thesis
      by (cases closed; cases "d = 0"; cases "d = 1") (simp_all add: step)
  qed
qed

section \<open>The reserve map and the whole construction\<close>

fun reserve_all :: "mem \<Rightarrow> int \<Rightarrow> (int \<times> int) list \<Rightarrow> (int \<times> mem) option" where
  "reserve_all m fdt [] = Some (0, m)"
| "reserve_all m fdt ((a, sz) # es) = do {
     (r, m) \<leftarrow> fdt_add_reservemap_entry m fdt a sz;
     if r \<noteq> 0 then Some (r, m) else reserve_all m fdt es }"

fun rsv_at :: "mem \<Rightarrow> int \<Rightarrow> (int \<times> int) list \<Rightarrow> bool" where
  "rsv_at m p [] \<longleftrightarrow> True"
| "rsv_at m p ((a, sz) # es) \<longleftrightarrow> fdt64_ld m p = Some a \<and> fdt64_ld m (p + 8) = Some sz \<and> rsv_at m (p + 16) es"

lemma rsv_at_append: "rsv_at m p (es @ fs) \<longleftrightarrow> rsv_at m p es \<and> rsv_at m (p + 16 * int (length es)) fs"
  by (induction m p es rule: rsv_at.induct) (simp_all add: algebra_simps)

lemma rsv_at_nth:
  "rsv_at m p es \<Longrightarrow> i < length es \<Longrightarrow>
   fdt64_ld m (p + 16 * int i) = Some (fst (es ! i)) \<and> fdt64_ld m (p + 16 * int i + 8) = Some (snd (es ! i))"
proof (induction m p es arbitrary: i rule: rsv_at.induct)
  case (2 m p a sz es)
  then show ?case by (cases i) (auto simp: algebra_simps)
qed simp

lemma fdt64_ld_same:
  "(\<And>x. p \<le> x \<Longrightarrow> x < p + 8 \<Longrightarrow> m' x = m x) \<Longrightarrow> fdt64_ld m' p = fdt64_ld m p"
  unfolding fdt64_ld_def by (subst (1 2) fdt32_ld_bytes [of m' _ m]) simp_all

lemma rsv_at_frame:
  "rsv_at m p es \<Longrightarrow> (\<And>x. p \<le> x \<Longrightarrow> x < p + 16 * int (length es) \<Longrightarrow> m' x = m x) \<Longrightarrow> rsv_at m' p es"
proof (induction m p es rule: rsv_at.induct)
  case (2 m p a sz es)
  have "fdt64_ld m' p = fdt64_ld m p" "fdt64_ld m' (p + 8) = fdt64_ld m (p + 8)"
    by (rule fdt64_ld_same, rule 2(3); simp)+
  with 2 show ?case by simp
qed simp

abbreviation u64_pair :: "int \<times> int \<Rightarrow> bool" where
  "u64_pair e \<equiv> 0 \<le> fst e \<and> fst e < 18446744073709551616 \<and> 0 \<le> snd e \<and> snd e < 18446744073709551616"

definition reserved :: "mem \<Rightarrow> int \<Rightarrow> (int \<times> int) list \<Rightarrow> bool" where
  "reserved m fdt es \<longleftrightarrow> rsv_at m (fdt + 40) es \<and> h_off_rsvmap m fdt = 40 \<and>
     h_off_struct m fdt = 40 + 16 * int (length es)"

lemma reserve_entry:
  assumes s: "sw_ok m fdt" "sw_empty m fdt" and r: "reserved m fdt es" and e: "u64_pair (a, sz)"
  obtains (nospace) "h_totalsize m fdt < h_off_struct m fdt + 16"
      "fdt_add_reservemap_entry m fdt a sz = Some (- FDT_ERR_NOSPACE, m)"
    | (ok) m' where "fdt_add_reservemap_entry m fdt a sz = Some (0, m')" "sw_ok m' fdt" "sw_empty m' fdt"
      "same_but {8} m m' fdt" "reserved m' fdt (es @ [(a, sz)])"
proof -
  have u: "0 \<le> a" "a < 18446744073709551616" "0 \<le> sz" "sz < 18446744073709551616" using e by simp_all
  have rs: "rsv_at m (fdt + 40) es" "h_off_struct m fdt = 40 + 16 * int (length es)"
    using r by (simp_all add: reserved_def)
  show thesis
  proof (rule fdt_add_reservemap_entry_spec [OF s u])
    fix m1
    assume m1: "fdt_add_reservemap_entry m fdt a sz = Some (0, m1)" "sw_ok m1 fdt" "sw_empty m1 fdt"
      "same_but {8} m m1 fdt" "h_off_struct m1 fdt = h_off_struct m fdt + 16"
      "fdt64_ld m1 (fdt + h_off_struct m fdt) = Some a" "fdt64_ld m1 (fdt + h_off_struct m fdt + 8) = Some sz"
      and x: "\<And>x. fdt + 40 \<le> x \<Longrightarrow> x < fdt + h_off_struct m fdt \<or> fdt + h_off_struct m fdt + 16 \<le> x \<Longrightarrow> m1 x = m x"
    have "rsv_at m1 (fdt + 40) es" by (rule rsv_at_frame [OF rs(1)]) (rule x; use rs(2) in simp)
    with m1 r have "reserved m1 fdt (es @ [(a, sz)])"
      using same_but_fields(4) [OF m1(4)] by (simp add: reserved_def rsv_at_append add.assoc)
    with ok m1(1-4) show thesis by blast
  qed (rule nospace)
qed

lemma reserve_all_spec:
  "sw_ok m fdt \<Longrightarrow> sw_empty m fdt \<Longrightarrow> reserved m fdt es \<Longrightarrow> \<forall>e \<in> set fs. u64_pair e \<Longrightarrow>
   \<exists>r m'. reserve_all m fdt fs = Some (r, m') \<and> (r = 0 \<or> r = - FDT_ERR_NOSPACE) \<and> same_but {8} m m' fdt \<and>
     (40 + 16 * int (length (es @ fs)) \<le> h_totalsize m fdt \<longrightarrow> r = 0) \<and>
     (r = 0 \<longrightarrow> sw_ok m' fdt \<and> sw_empty m' fdt \<and> reserved m' fdt (es @ fs))"
proof (induction fs arbitrary: m es)
  case (Cons e fs)
  obtain a sz where e: "e = (a, sz)" by force
  have u: "u64_pair (a, sz)" using Cons.prems(4) e by simp
  show ?case
  proof (rule reserve_entry [OF Cons.prems(1-3) u])
    assume "h_totalsize m fdt < h_off_struct m fdt + 16"
      "fdt_add_reservemap_entry m fdt a sz = Some (- FDT_ERR_NOSPACE, m)"
    with Cons.prems(3) e show ?thesis by (simp add: reserved_def)
  next
    fix m1
    assume m1: "fdt_add_reservemap_entry m fdt a sz = Some (0, m1)" "sw_ok m1 fdt" "sw_empty m1 fdt"
      "same_but {8} m m1 fdt" "reserved m1 fdt (es @ [(a, sz)])"
    from Cons.IH [OF m1(2,3,5)] Cons.prems(4) obtain r m2 where
      r: "reserve_all m1 fdt fs = Some (r, m2)" "r = 0 \<or> r = - FDT_ERR_NOSPACE" "same_but {8} m1 m2 fdt"
        "40 + 16 * int (length ((es @ [(a, sz)]) @ fs)) \<le> h_totalsize m1 fdt \<longrightarrow> r = 0"
        "r = 0 \<longrightarrow> sw_ok m2 fdt \<and> sw_empty m2 fdt \<and> reserved m2 fdt ((es @ [(a, sz)]) @ fs)" by auto
    have "same_but {8} m m2 fdt" using same_but_trans [OF m1(4) r(3)] by simp
    with r m1(1) e same_but_fields(1) [OF m1(4)] show ?thesis by simp
  qed
qed simp

lemma reserve_end:
  assumes s: "sw_ok m fdt" "sw_empty m fdt" and r: "reserved m fdt es"
  obtains (nospace) "h_totalsize m fdt < 56 + 16 * int (length es)"
      "fdt_finish_reservemap m fdt = Some (- FDT_ERR_NOSPACE, m)"
    | (ok) m' where "fdt_finish_reservemap m fdt = Some (0, m')" "same_but {8, 12} m m' fdt" "built m' fdt []"
      "h_size_strings m' fdt = 0" "reserved m' fdt (es @ [(0, 0)])"
proof -
  have rs: "rsv_at m (fdt + 40) es" "h_off_struct m fdt = 40 + 16 * int (length es)"
    using r by (simp_all add: reserved_def)
  show thesis
  proof (rule fdt_finish_reservemap_spec [OF s])
    assume "h_totalsize m fdt < h_off_struct m fdt + 16" "fdt_finish_reservemap m fdt = Some (- FDT_ERR_NOSPACE, m)"
    with nospace rs(2) show thesis by simp
  next
    fix m1
    assume m1: "fdt_finish_reservemap m fdt = Some (0, m1)" "sw_ok m1 fdt" "sw_open m1 fdt" "same_but {8, 12} m m1 fdt"
      "h_off_struct m1 fdt = h_off_struct m fdt + 16" "h_size_struct m1 fdt = 0" "h_size_strings m1 fdt = 0"
      "fdt64_ld m1 (fdt + h_off_struct m fdt) = Some 0" "fdt64_ld m1 (fdt + h_off_struct m fdt + 8) = Some 0"
      and x: "\<And>x. fdt + 40 \<le> x \<Longrightarrow> x < fdt + h_off_struct m fdt \<or> fdt + h_off_struct m fdt + 16 \<le> x \<Longrightarrow> m1 x = m x"
    have "rsv_at m1 (fdt + 40) es" by (rule rsv_at_frame [OF rs(1)]) (rule x; use rs(2) in simp)
    with m1 r have "reserved m1 fdt (es @ [(0, 0)])"
      using same_but_fields(4) [OF m1(4)] by (simp add: reserved_def rsv_at_append add.assoc)
    with ok [of m1] m1 show thesis by (simp add: built_def)
  qed
qed

text \<open>All the calls, from \<open>fdt_create_with_flags\<close> to \<open>fdt_finish\<close>, up to the first error.\<close>

definition sw_build :: "mem \<Rightarrow> int \<Rightarrow> int \<Rightarrow> int \<Rightarrow> (int \<times> int) list \<Rightarrow> sw_call list \<Rightarrow> (int \<times> mem) option" where
  "sw_build m buf bufsize flags es cs = do {
     (r, m) \<leftarrow> fdt_create_with_flags m buf bufsize flags;
     if r \<noteq> 0 then Some (r, m) else do {
     (r, m) \<leftarrow> reserve_all m buf es;
     if r \<noteq> 0 then Some (r, m) else do {
     (r, m) \<leftarrow> fdt_finish_reservemap m buf;
     if r \<noteq> 0 then Some (r, m) else do {
     (r, m) \<leftarrow> sw_do_all m buf cs;
     if r \<noteq> 0 then Some (r, m) else fdt_finish m buf } } } }"

text \<open>A buffer in place, calls whose arguments lie outside of it, and names that fit it.\<close>

definition build_request ::
  "mem \<Rightarrow> int \<Rightarrow> int \<Rightarrow> int \<Rightarrow> (int \<times> int) list \<Rightarrow> sw_call list \<Rightarrow> sw_item list \<Rightarrow> bool" where
  "build_request m buf bufsize flags es cs is \<longleftrightarrow>
     0 < buf \<and> buf mod 8 = 0 \<and> bufsize < INT32_MAX \<and> buf + bufsize \<le> 4294967296 \<and>
     mapped m buf (4 * ((bufsize + 3) div 4)) \<and> (flags = 0 \<or> flags = FDT_CREATE_FLAG_NO_NAME_DEDUP) \<and>
     (\<forall>e \<in> set es. u64_pair e) \<and> list_all2 (call_says m buf bufsize) cs is \<and> names_room is \<le> bufsize"

lemma sw_build_open:
  assumes q: "build_request m buf bufsize flags es cs is" and n: "40 \<le> bufsize"
  obtains (nospace) m' where "sw_build m buf bufsize flags es cs = Some (- FDT_ERR_NOSPACE, m')"
      "writes_only m m' buf bufsize" "bufsize < 56 + 16 * int (length es)"
    | (opened) m' where "sw_build m buf bufsize flags es cs = do {
          (r, m) \<leftarrow> sw_do_all m' buf cs;
          if r \<noteq> 0 then Some (r, m) else fdt_finish m buf }"
        "writes_only m m' buf bufsize" "h_totalsize m' buf = bufsize" "built m' buf []" "h_size_strings m' buf = 0"
        "reserved m' buf (es @ [(0, 0)])"
proof -
  have b: "0 < buf" "bufsize \<le> INT32_MAX" "flags = 0 \<or> flags = 1" "\<forall>e \<in> set es. u64_pair e"
    using q by (simp_all add: build_request_def)
  have "bufsize \<le> 4 * ((bufsize + 3) div 4)" by presburger
  then have "mapped m buf bufsize" using q by (auto simp: build_request_def intro: mapped_sub)
  then obtain m0 where c: "fdt_create_with_flags m buf bufsize flags = Some (0, m0)" "sw_ok m0 buf"
    "h_totalsize m0 buf = bufsize" "h_off_struct m0 buf = 40" "h_off_rsvmap m0 buf = 40"
    "h_off_strings m0 buf = 0" "h_size_struct m0 buf = 0" "h_size_strings m0 buf = 0"
    "writes_only m m0 buf bufsize"
    using create_spec [OF _ n b(2,1,3)] by metis
  have e0: "sw_empty m0 buf" "reserved m0 buf []" using c by (simp_all add: sw_empty_def reserved_def)
  from reserve_all_spec [OF c(2) e0 b(4)] c(3) obtain r m1 where
    r: "reserve_all m0 buf es = Some (r, m1)" "r = 0 \<or> r = - FDT_ERR_NOSPACE" "same_but {8} m0 m1 buf"
      "40 + 16 * int (length es) \<le> bufsize \<longrightarrow> r = 0"
      "r = 0 \<longrightarrow> sw_ok m1 buf \<and> sw_empty m1 buf \<and> reserved m1 buf es" by auto
  have w1: "writes_only m m1 buf bufsize"
    using writes_only_trans [OF c(9)] same_but_writes [OF r(3)] c(3) by simp
  show thesis
  proof (cases "r = 0")
    case False
    with r nospace [of m1] c(1) w1 show thesis by (simp add: sw_build_def)
  next
    case True
    with r(5) have s1: "sw_ok m1 buf" "sw_empty m1 buf" "reserved m1 buf es" by simp_all
    have t1: "h_totalsize m1 buf = bufsize" using same_but_fields(1) [OF r(3)] c(3) by simp
    show thesis
    proof (rule reserve_end [OF s1])
      assume "h_totalsize m1 buf < 56 + 16 * int (length es)" "fdt_finish_reservemap m1 buf = Some (- FDT_ERR_NOSPACE, m1)"
      with nospace [of m1] c(1) r(1) True w1 t1 show thesis by (simp add: sw_build_def)
    next
      fix m2 assume m2: "fdt_finish_reservemap m1 buf = Some (0, m2)" "same_but {8, 12} m1 m2 buf" "built m2 buf []"
        "h_size_strings m2 buf = 0" "reserved m2 buf (es @ [(0, 0)])"
      have "writes_only m m2 buf bufsize"
        using writes_only_trans [OF w1] same_but_writes [OF m2(2)] t1 by simp
      with opened [of m2] c(1) r(1) True m2 same_but_fields(1) [OF m2(2)] t1 show thesis
        by (simp add: sw_build_def)
    qed
  qed
qed

lemma sw_build_spec:
  assumes q: "build_request m buf bufsize flags es cs is"
  shows "\<exists>r m'. sw_build m buf bufsize flags es cs = Some (r, m') \<and> (r = 0 \<or> r = - FDT_ERR_NOSPACE) \<and>
    writes_only m m' buf bufsize \<and>
    (60 + 16 * int (length es) + items_size is + names_room is \<le> bufsize \<longrightarrow> r = 0) \<and>
    (r = 0 \<longrightarrow> finished m' buf is \<and> reserved m' buf (es @ [(0, 0)]) \<and> h_totalsize m' buf \<le> bufsize)"
proof (cases "40 \<le> bufsize")
  case False
  have "0 \<le> items_size is" "0 \<le> names_room is" by (rule items_size_nonneg(1), rule names_room_nonneg(2))
  with False have "\<not> 60 + 16 * int (length es) + items_size is + names_room is \<le> bufsize" by linarith
  with False show ?thesis by (simp add: sw_build_def fdt_create_with_flags_def Let_def)
next
  case n: True
  have z: "0 \<le> items_size is" "0 \<le> names_room is" by (rule items_size_nonneg(1), rule names_room_nonneg(2))
  have b: "buf + bufsize \<le> 4294967296" "list_all2 (call_says m buf bufsize) cs is" "names_room is \<le> bufsize"
    using q by (simp_all add: build_request_def)
  show ?thesis
  proof (rule sw_build_open [OF q n])
    fix m' assume "sw_build m buf bufsize flags es cs = Some (- FDT_ERR_NOSPACE, m')"
      "writes_only m m' buf bufsize" "bufsize < 56 + 16 * int (length es)"
    with z show ?thesis by simp
  next
    fix m1
    assume e: "sw_build m buf bufsize flags es cs = do {
          (r, m) \<leftarrow> sw_do_all m1 buf cs;
          if r \<noteq> 0 then Some (r, m) else fdt_finish m buf }"
      and m1: "writes_only m m1 buf bufsize" "h_totalsize m1 buf = bufsize" "built m1 buf []" "h_size_strings m1 buf = 0"
        "reserved m1 buf (es @ [(0, 0)])"
    have says: "list_all2 (call_says m1 buf (h_totalsize m1 buf)) cs is"
      unfolding m1(2) by (rule list_all2_mono [OF b(2)]) (rule call_says_frame [OF m1(1)])
    have "buf + h_totalsize m1 buf \<le> 4294967296" "h_size_strings m1 buf + names_room is \<le> h_totalsize m1 buf"
      using m1(2,4) b by simp_all
    from sw_do_all_spec [of 4, OF _ m1(3) this(1) says this(2)] obtain r m2 where
      r: "sw_do_all m1 buf cs = Some (r, m2)" "r = 0 \<or> r = - FDT_ERR_NOSPACE" "extends m1 m2 buf"
        "r = 0 \<longrightarrow> built m2 buf is"
        "items_size is + names_room is + 4 \<le> sw_room m1 buf \<longrightarrow> r = 0 \<and> 4 \<le> sw_room m2 buf" by auto
    have rv: "h_off_rsvmap m1 buf = 40" "h_off_struct m1 buf = 56 + 16 * int (length es)"
      "rsv_at m1 (buf + 40) (es @ [(0, 0)])" using m1(5) by (simp_all add: reserved_def)
    have x: "h_totalsize m2 buf = bufsize" "h_off_struct m2 buf = h_off_struct m1 buf" "h_off_rsvmap m2 buf = 40"
      "writes_only m1 m2 buf bufsize" "\<And>a. buf + 40 \<le> a \<Longrightarrow> a < buf + h_off_struct m1 buf \<Longrightarrow> m2 a = m1 a"
      using r(3) m1(2,3) rv(1) by (simp_all add: extends_def sw_top_def built_def)
    have w2: "writes_only m m2 buf bufsize" by (rule writes_only_trans [OF m1(1) x(4)])
    have room: "sw_room m1 buf = bufsize - (56 + 16 * int (length es))"
      using m1(2-4) rv(2) by (simp add: sw_room_def sw_top_def built_def)
    show ?thesis
    proof (cases "r = 0 \<and> 4 \<le> sw_room m2 buf")
      case False
      have "sw_build m buf bufsize flags es cs = Some (- FDT_ERR_NOSPACE, m2)"
        using False e r(1,2,4) finish_full [of m2 buf "is"] by auto
      moreover have "\<not> 60 + 16 * int (length es) + items_size is + names_room is \<le> bufsize"
        using False r(5) room by auto
      ultimately show ?thesis using w2 by simp
    next
      case True
      have "placed m2 buf"
        using q x(1-3) rv(2) writes_only_mapped [OF w2] by (auto simp: placed_def build_request_def)
      from finish_spec [OF _ this, of "is"] True r(4) obtain m3 where
        m3: "fdt_finish m2 buf = Some (0, m3)" "writes_only m2 m3 buf bufsize" "finished m3 buf is"
          "h_totalsize m3 buf \<le> bufsize" "h_off_struct m3 buf = h_off_struct m2 buf" "h_off_rsvmap m3 buf = h_off_rsvmap m2 buf"
          "\<And>a. buf + 40 \<le> a \<Longrightarrow> a < buf + h_off_struct m2 buf \<Longrightarrow> m3 a = m2 a" using x(1) by auto
      have "rsv_at m3 (buf + 40) (es @ [(0, 0)])"
        by (rule rsv_at_frame [OF rv(3)]) (use m3(7) x(2,5) rv(2) in simp)
      then have "reserved m3 buf (es @ [(0, 0)])" using m3(5,6) x(2,3) rv(2) by (simp add: reserved_def)
      moreover have "writes_only m m3 buf bufsize" by (rule writes_only_trans [OF w2 m3(2)])
      ultimately show ?thesis using e r(1) True m3(1,3,4) by simp
    qed
  qed
qed

lemma built_reserved:
  assumes f: "finished m fdt is" and r: "reserved m fdt (es @ [(0, 0)])"
  shows "i < length es \<Longrightarrow> fdt_get_mem_rsv m fdt (int i) = Some (0, Some (es ! i))"
    "fdt_num_mem_rsv m fdt = Some (int (length (takeWhile (\<lambda>e. snd e \<noteq> 0) es)))"
proof -
  note fd = finishedD [OF f]
  note b = rw_bounds [OF fd(1)] and e = rw_end_bounds [OF fd(1)]
  have rs: "rsv_at m (fdt + 40) (es @ [(0, 0)])" "h_off_rsvmap m fdt = 40" "h_off_struct m fdt = 56 + 16 * int (length es)"
    using r by (simp_all add: reserved_def)
  have ld: "fdt64_ld m (fdt + 40 + 16 * int j) = Some (fst ((es @ [(0, 0)]) ! j))"
    "fdt64_ld m (fdt + 40 + 16 * int j + 8) = Some (snd ((es @ [(0, 0)]) ! j))" if "j \<le> length es" for j
    using rsv_at_nth [OF rs(1), of j] that by simp_all
  show "fdt_get_mem_rsv m fdt (int i) = Some (0, Some (es ! i))" if "i < length es"
  proof -
    have "fdt_mem_rsv m fdt (int i) = Some (fdt + 40 + 16 * int i)"
      using fdt_mem_rsv_ok [OF fd(1), of "int i"] rs(2,3) that b by simp
    with ld [of i] that b show ?thesis
      by (simp add: fdt_get_mem_rsv_def rw_ro_probe [OF fd(1)] nth_append)
  qed
  define k where "k = length (takeWhile (\<lambda>e. snd e \<noteq> 0) es)"
  have k: "k \<le> length es" by (simp add: k_def length_takeWhile_le)
  have sz: "rsv_size m fdt (int j) = snd ((es @ [(0, 0)]) ! j)" if "j \<le> length es" for j
    using ld(2) [OF that] rs(2) by (simp add: rsv_size_def)
  have "rsv_entries m fdt (int k)"
    unfolding rsv_entries_def
  proof (intro conjI allI impI)
    show "h_off_rsvmap m fdt + 16 * int k + 16 \<le> h_totalsize m fdt" using rs(2,3) k b by simp
    show "rsv_size m fdt (int k) = 0"
    proof (cases "k < length es")
      case True
      then show ?thesis using sz [OF k] nth_length_takeWhile [of "\<lambda>e. snd e \<noteq> 0" es] by (simp add: k_def nth_append)
    next
      case False
      with k have "k = length es" by simp
      then show ?thesis using sz [OF k] by simp
    qed
    fix i assume i: "0 \<le> i \<and> i < int k"
    then have ik: "nat i < k" by linarith
    then have "es ! nat i \<in> set (takeWhile (\<lambda>e. snd e \<noteq> 0) es)"
      unfolding k_def using nth_mem [of "nat i" "takeWhile (\<lambda>e. snd e \<noteq> 0) es"] by (simp add: takeWhile_nth)
    then have "snd (es ! nat i) \<noteq> 0" by (auto dest: set_takeWhileD)
    then show "rsv_size m fdt i \<noteq> 0" using sz [of "nat i"] i ik k by (simp add: nth_append)
  qed simp
  then show "fdt_num_mem_rsv m fdt = Some (int (length (takeWhile (\<lambda>e. snd e \<noteq> 0) es)))"
    unfolding k_def by (rule num_mem_rsv_entries [OF fd(1)])
qed

section \<open>Looking up a property\<close>

lemma built_named:
  assumes f: "finished m fdt is" and ld: "fdt32_ld m (fdt + h_off_struct m fdt + off + 8) = Some w"
    and r: "str_ref m (fdt + h_off_strings m fdt) (h_size_strings m fdt) w nm" "0 \<notin> set nm"
  shows "named m fdt s off \<longleftrightarrow> nm = s"
proof -
  note fd = finishedD [OF f]
  note bb = blob_bounds [OF fd(2)]
  have w: "sfield m fdt (off + 8) = w" by (rule sfield_at) (use ld in \<open>simp add: add.assoc\<close>)
  have "to_s32 w = w" using r(1) fd(9) bb by (simp add: str_ref_def to_s32_id)
  then have g: "fdt_get_string m fdt (to_s32 (sfield m fdt (off + 8))) =
      Some (fdt + h_off_strings m fdt + w, int (length nm))"
    using finished_string [OF f r] w by simp
  have c: "cstr_at m (fdt + h_off_strings m fdt + w) nm" using r bytes_cstr by (simp add: str_ref_def)
  have "fdt + h_off_strings m fdt + w \<noteq> 0" using r(1) bb by (simp add: str_ref_def)
  then show ?thesis using c cstr_at_unique [OF c, of s] by (auto simp: named_def str_is_def g)
qed

text \<open>The offsets of items in a row.\<close>

fun item_offsets :: "int \<Rightarrow> sw_item list \<Rightarrow> int list" where
  "item_offsets off [] = []"
| "item_offsets off (i # is) = off # item_offsets (off + item_size i) is"

abbreviation prop_items :: "(u8 list \<times> u8 list) list \<Rightarrow> sw_item list" where
  "prop_items ps \<equiv> map (\<lambda>(n, b). Prop_item n b) ps"

fun ends_props :: "sw_item list \<Rightarrow> bool" where
  "ends_props (Prop_item nm bs # is) \<longleftrightarrow> False"
| "ends_props [] \<longleftrightarrow> False"
| "ends_props _ \<longleftrightarrow> True"

lemma built_nextprop:
  assumes r: "reads_back m fdt off (prop_items ps @ rest)" and e: "ends_props rest" and n: "0 \<le> off"
  shows "nextprop m fdt off = Some (if ps = [] then - FDT_ERR_NOTFOUND else off)"
proof (cases ps)
  case Nil
  with r e show ?thesis by (cases rest rule: ends_props.cases) (auto simp: nextprop.simps [of m fdt off])
next
  case (Cons p ps')
  with r show ?thesis by (cases p) (auto simp: nextprop.simps [of m fdt off])
qed

text \<open>The walk over the properties of a node, at the offsets where they were written.\<close>

lemma finished_split:
  assumes f: "finished m fdt is" and i: "is = pre @ js"
  shows "reads_back m fdt (items_size pre) js"
    "items_at (str_ref m (fdt + h_off_strings m fdt) (h_size_strings m fdt)) m
       (fdt + h_off_struct m fdt + items_size pre) js"
proof -
  note fd = finishedD [OF f]
  show at: "items_at (str_ref m (fdt + h_off_strings m fdt) (h_size_strings m fdt)) m
       (fdt + h_off_struct m fdt + items_size pre) js"
    using fd(10) i by (simp add: items_at_append)
  show "reads_back m fdt (items_size pre) js"
    by (rule finished_reads [OF f items_size_nonneg [of pre] _ at]) (simp add: i)
qed

lemma finished_tag:
  assumes f: "finished m fdt is" and i: "is = pre @ i # js"
  shows "tag_at m fdt (items_size pre) (item_tag i) (items_size pre + item_size i)"
    "fdt_next_tag m fdt (items_size pre) = Some (item_tag i, items_size pre + item_size i)"
proof -
  note fd = finishedD [OF f] and z = items_size_nonneg [of pre]
  have at: "item_at (str_ref m (fdt + h_off_strings m fdt) (h_size_strings m fdt)) m
      (fdt + h_off_struct m fdt + items_size pre) i" using finished_split(2) [OF f i] by simp
  have fits: "struct_fits m fdt (items_size pre) (item_size i)"
    using fd(7,8,9) i z items_size_nonneg(1) [of js] blob_bounds [OF fd(2)] by (simp add: struct_fits_def)
  show "tag_at m fdt (items_size pre) (item_tag i) (items_size pre + item_size i)"
    "fdt_next_tag m fdt (items_size pre) = Some (item_tag i, items_size pre + item_size i)"
    by (rule item_tag_at [OF fd(2,5) z(2) fits at])+
qed

lemma finished_prop:
  assumes f: "finished m fdt is" and i: "is = pre @ Prop_item n b # js"
  defines "off \<equiv> items_size pre"
  shows "prop_at m fdt off" "named m fdt s off \<longleftrightarrow> n = s"
    "bytes_at m (prop_addr m fdt off + 12) b" "sfield m fdt (off + 4) = int (length b)"
proof -
  note tag = finished_tag [OF f i, folded off_def] and z = items_size_nonneg [of pre, folded off_def]
  show "prop_at m fdt off" using tag z by (auto simp: prop_at_def)
  have at: "item_at (str_ref m (fdt + h_off_strings m fdt) (h_size_strings m fdt)) m
      (fdt + h_off_struct m fdt + off) (Prop_item n b)"
    using finished_split(2) [OF f i, folded off_def] by simp
  then obtain w where w: "fdt32_ld m (fdt + h_off_struct m fdt + off + 8) = Some w"
    "str_ref m (fdt + h_off_strings m fdt) (h_size_strings m fdt) w n" "0 \<notin> set n"
    "fdt32_ld m (fdt + h_off_struct m fdt + off + 4) = Some (int (length b))" by auto
  show "named m fdt s off \<longleftrightarrow> n = s" by (rule built_named [OF f w(1-3)])
  show "sfield m fdt (off + 4) = int (length b)" by (rule sfield_at) (use w(4) in \<open>simp add: add.assoc\<close>)
  show "bytes_at m (prop_addr m fdt off + 12) b" using at by simp
qed

lemma finished_props_from:
  assumes f: "finished m fdt is" and e: "ends_props rest"
  shows "is = pre @ Prop_item n b # prop_items ps @ rest \<Longrightarrow>
    props_from m fdt (items_size pre) (item_offsets (items_size pre) (Prop_item n b # prop_items ps)) (- FDT_ERR_NOTFOUND)"
proof (induction ps arbitrary: pre n b)
  case Nil
  note tag = finished_tag [OF f Nil] and z = items_size_nonneg [of pre]
  have nx: "0 \<le> items_size pre + item_size (Prop_item n b)" using z item_size_pos(1) [of "Prop_item n b"] by simp
  have "is = (pre @ [Prop_item n b]) @ prop_items [] @ rest" using Nil by simp
  from finished_split(1) [OF f this] built_nextprop [OF _ e nx, of m fdt "[]"]
  have "nextprop m fdt (items_size pre + item_size (Prop_item n b)) = Some (- FDT_ERR_NOTFOUND)" by simp
  then have "fdt_next_property_offset m fdt (items_size pre) = Some (- FDT_ERR_NOTFOUND)"
    using tag(2) z nx by (simp add: fdt_next_property_offset_def fdt_check_prop_offset_def del: item_size.simps)
  with z show ?case by (simp add: props_from_Cons props_from_neg)
next
  case (Cons p ps)
  obtain n' b' where p: "p = (n', b')" by force
  have i: "is = (pre @ [Prop_item n b]) @ Prop_item n' b' # prop_items ps @ rest" using Cons.prems p by simp
  note tag = finished_tag [OF f Cons.prems] and z = items_size_nonneg [of pre]
  have nx: "0 \<le> items_size pre + item_size (Prop_item n b)" using z item_size_pos(1) [of "Prop_item n b"] by simp
  have "is = (pre @ [Prop_item n b]) @ prop_items (p # ps) @ rest" using i p by simp
  from finished_split(1) [OF f this] built_nextprop [OF _ e nx, of m fdt "p # ps"]
  have "nextprop m fdt (items_size pre + item_size (Prop_item n b)) = Some (items_size pre + item_size (Prop_item n b))"
    by simp
  then have "fdt_next_property_offset m fdt (items_size pre) = Some (items_size pre + item_size (Prop_item n b))"
    using tag(2) z nx by (simp add: fdt_next_property_offset_def fdt_check_prop_offset_def del: item_size.simps)
  with Cons.IH [OF i] z p show ?case by (simp add: props_from_Cons del: item_size.simps)
qed

lemma finished_find:
  assumes f: "finished m fdt is"
  shows "is = pre @ prop_items ps @ rest \<Longrightarrow>
    (\<forall>q \<in> set (item_offsets (items_size pre) (prop_items ps)). prop_at m fdt q) \<and>
    (case find (\<lambda>(n, b). n = nm) ps of
       None \<Rightarrow> find (named m fdt nm) (item_offsets (items_size pre) (prop_items ps)) = None
     | Some (n, b) \<Rightarrow> \<exists>q. find (named m fdt nm) (item_offsets (items_size pre) (prop_items ps)) = Some q \<and>
         bytes_at m (prop_addr m fdt q + 12) b \<and> sfield m fdt (q + 4) = int (length b))"
proof (induction ps arbitrary: pre)
  case (Cons p ps)
  obtain n b where p: "p = (n, b)" by force
  have i: "is = pre @ Prop_item n b # prop_items ps @ rest" using Cons.prems p by simp
  note fp = finished_prop [OF f i]
  have "is = (pre @ [Prop_item n b]) @ prop_items ps @ rest" using i by simp
  have sz: "items_size (pre @ [Prop_item n b]) = items_size pre + item_size (Prop_item n b)" by simp
  note ih = Cons.IH [OF \<open>is = (pre @ [Prop_item n b]) @ prop_items ps @ rest\<close>, unfolded sz]
  show ?case
    unfolding p using fp ih by (cases "n = nm") (auto simp del: item_size.simps split: option.splits)
qed simp

lemma finished_props_of:
  assumes f: "finished m fdt is" and i: "is = pre @ Open_item nd # prop_items ps @ rest" and e: "ends_props rest"
  defines "off \<equiv> items_size (pre @ [Open_item nd])"
  defines "qs \<equiv> item_offsets off (prop_items ps)"
  shows "props_of m fdt (items_size pre) qs (- FDT_ERR_NOTFOUND)"
    "case find (\<lambda>(n, b). n = nm) ps of None \<Rightarrow> find (named m fdt nm) qs = None
     | Some (n, b) \<Rightarrow> \<exists>q. find (named m fdt nm) qs = Some q \<and>
         bytes_at m (prop_addr m fdt q + 12) b \<and> sfield m fdt (q + 4) = int (length b)"
proof -
  note fd = finishedD [OF f] and tag = finished_tag [OF f i] and z = items_size_nonneg [of pre]
  have off: "off = items_size pre + item_size (Open_item nd)" "0 \<le> off"
    using items_size_nonneg(1) [of "pre @ [Open_item nd]"] by (simp_all add: off_def)
  have i': "is = (pre @ [Open_item nd]) @ prop_items ps @ rest" using i by simp
  have "nextprop m fdt off = Some (if ps = [] then - FDT_ERR_NOTFOUND else off)"
    using finished_split(1) [OF f i'] built_nextprop [OF _ e off(2)] by (simp add: off_def)
  then have "fdt_first_property_offset m fdt (items_size pre) = Some (if ps = [] then - FDT_ERR_NOTFOUND else off)"
    using tag(2) z off
    by (simp add: fdt_first_property_offset_def fdt_check_node_offset_def del: item_size.simps)
  moreover have "props_from m fdt (if ps = [] then - FDT_ERR_NOTFOUND else off) qs (- FDT_ERR_NOTFOUND)"
  proof (cases ps)
    case Nil
    then show ?thesis by (simp add: qs_def props_from_neg)
  next
    case (Cons p ps')
    then obtain n b where p: "ps = (n, b) # ps'" by (cases p) auto
    have "is = (pre @ [Open_item nd]) @ Prop_item n b # prop_items ps' @ rest" using i p by simp
    from finished_props_from [OF f e this] p show ?thesis
      by (simp add: qs_def off_def del: item_size.simps item_offsets.simps)
  qed
  moreover note fnd = finished_find [OF f i', folded off_def, folded qs_def]
  ultimately show "props_of m fdt (items_size pre) qs (- FDT_ERR_NOTFOUND)" by (simp add: props_of_def)
  show "case find (\<lambda>(n, b). n = nm) ps of None \<Rightarrow> find (named m fdt nm) qs = None
     | Some (n, b) \<Rightarrow> \<exists>q. find (named m fdt nm) qs = Some q \<and>
         bytes_at m (prop_addr m fdt q + 12) b \<and> sfield m fdt (q + 4) = int (length b)"
    using fnd [of nm] by blast
qed

lemma finished_getprop:
  assumes f: "finished m fdt is" and i: "is = pre @ Open_item nd # prop_items ps @ rest" and e: "ends_props rest"
    and n: "c_string m name nm"
  shows "case find (\<lambda>(n, b). n = nm) ps of
      None \<Rightarrow> fdt_getprop m fdt (items_size pre) name = Some (0, - FDT_ERR_NOTFOUND)
    | Some (n, b) \<Rightarrow> \<exists>a. fdt_getprop m fdt (items_size pre) name = Some (a, int (length b)) \<and> a \<noteq> 0 \<and> bytes_at m a b"
proof -
  note fd = finishedD [OF f] and po = finished_props_of(1) [OF f i e] and fnd = finished_props_of(2) [OF f i e, of nm]
  define qs where "qs = item_offsets (items_size (pre @ [Open_item nd])) (prop_items ps)"
  note g = fdt_getprop_lookup [OF fd(2) po n]
  show ?thesis
  proof (cases "find (\<lambda>(n, b). n = nm) ps")
    case None
    with fnd g show ?thesis by (simp add: lookup_def qs_def)
  next
    case (Some p)
    obtain n' b where p: "p = (n', b)" by force
    from fnd Some p obtain q where q: "find (named m fdt nm) qs = Some q"
      "bytes_at m (prop_addr m fdt q + 12) b" "sfield m fdt (q + 4) = int (length b)" by (auto simp: qs_def)
    then have "prop_at m fdt q" using po by (auto simp: find_Some_iff props_of_def qs_def)
    then have "data_addr m fdt q = prop_addr m fdt q + 12" "data_addr m fdt q \<noteq> 0"
      using data_addr_spec(2,3) [OF fd(2)] fd(5) by blast+
    with g q Some p show ?thesis by (simp add: lookup_def qs_def)
  qed
qed

section \<open>Trees\<close>

text \<open>A device tree as data, and the items its nodes are written as.\<close>

datatype dtree = DNode "u8 list" "(u8 list \<times> u8 list) list" "dtree list"

fun tree_items :: "dtree \<Rightarrow> sw_item list" where
  "tree_items (DNode nm ps ts) = Open_item nm # prop_items ps @ concat (map tree_items ts) @ [Close_item]"

lemma nested_props: "nested d False (prop_items ps @ is) = nested d False is"
  by (induction ps) auto

lemma nested_tree: "0 < d \<Longrightarrow> nested d False (tree_items t @ is) = nested d False is"
proof (induction t arbitrary: d "is" rule: tree_items.induct)
  case (1 nm ps ts)
  have "nested e False (concat (map tree_items us) @ js) = nested e False js" if "set us \<subseteq> set ts" "0 < e" for us e js
    using that by (induction us) (simp_all add: 1)
  from this [of ts "d + 1"] 1(2) show ?case by (simp add: nested_props)
qed

lemma nested_root: "nested 0 False (tree_items (DNode [] ps ts))"
proof -
  have "nested 1 False (concat (map tree_items us) @ js) = nested 1 False js" for us js
    by (induction us) (simp_all add: nested_tree)
  then show ?thesis by (simp add: nested_props)
qed

lemma items_length: "4 * int (length is) \<le> items_size is"
proof (induction "is")
  case (Cons i "is")
  with item_size_pos(1) [of i] show ?case by simp
qed simp

lemma finished_check_full:
  assumes f: "finished m fdt is" and r: "reserved m fdt (es @ [(0, 0)])" and n: "h_totalsize m fdt \<le> bufsize"
  shows "fdt_check_full m fdt bufsize = Some (if nested 0 False is then 0 else - FDT_ERR_BADSTRUCTURE)"
proof -
  note fd = finishedD [OF f]
  note b = rw_bounds [OF fd(1)]
  have h: "fdt_check_header m fdt = Some 0" using fdt_check_header_iff [OF rw_ok_header [OF fd(1)]] fd(3) by simp
  have "reads_back m fdt 0 is" using finished_split(1) [OF f, of "[]" "is"] by simp
  moreover have "int (length is) \<le> INT32_MAX" using items_length [of "is"] fd(7,8,9) b by simp
  ultimately have "fdt_check_full_loop m fdt 0 0 False = Some (if nested 0 False is then 0 else - FDT_ERR_BADSTRUCTURE)"
    by (intro check_loop_items) simp_all
  moreover have "40 \<le> bufsize" using n b by simp
  ultimately show ?thesis
    using h n built_reserved(2) [OF f r] b(10)
    by (simp add: fdt_check_full_def fdt_header_size_def rw_simps [OF fd(1)] fdt_header_size_of_def)
qed

lemma sw_build_room:
  assumes q: "build_request m buf bufsize flags es cs is"
    and n: "60 + 16 * int (length es) + items_size is + names_room is \<le> bufsize"
  obtains m' where "sw_build m buf bufsize flags es cs = Some (0, m')" "finished m' buf is"
    "reserved m' buf (es @ [(0, 0)])" "h_totalsize m' buf \<le> bufsize"
proof -
  from sw_build_spec [OF q] obtain r m' where r: "sw_build m buf bufsize flags es cs = Some (r, m')"
    "60 + 16 * int (length es) + items_size is + names_room is \<le> bufsize \<longrightarrow> r = 0"
    "r = 0 \<longrightarrow> finished m' buf is \<and> reserved m' buf (es @ [(0, 0)]) \<and> h_totalsize m' buf \<le> bufsize" by blast
  then show thesis using n that by simp
qed

section \<open>Properties\<close>

text \<open>C2: let the calls of the sequential writer be made up to the first error, from
  \<open>fdt_create_with_flags\<close> on an 8-aligned buffer of less than 2 GiB, over reserve entries, nodes and properties in
  any order, to \<open>fdt_finish\<close>, with names and values outside the buffer and with property names that together, each
  counted as often as it is used, are not longer than the buffer (\<open>build_request\<close>; the code does not check a
  longer name, see \<open>add_string_underflow\<close>).  Then they return 0 or \<open>-FDT_ERR_NOSPACE\<close>, write only to the buffer,
  and succeed when it has room for the blocks and the names.  After a success the header check accepts the tree, and
  walking it tag by tag gives exactly the items written: every node with its name, every property with its name and
  value, every end of a node, and every reserve entry.\<close>

theorem build_reads_back:
  assumes "build_request m buf bufsize flags es cs is"
  shows "\<exists>r m'. sw_build m buf bufsize flags es cs = Some (r, m') \<and> (r = 0 \<or> r = - FDT_ERR_NOSPACE) \<and>
    writes_only m m' buf bufsize \<and>
    (60 + 16 * int (length es) + items_size is + names_room is \<le> bufsize \<longrightarrow> r = 0) \<and>
    (r = 0 \<longrightarrow> fdt_check_header m' buf = Some 0 \<and> reads_back m' buf 0 is \<and>
       (\<forall>i < length es. fdt_get_mem_rsv m' buf (int i) = Some (0, Some (es ! i))))"
proof -
  from sw_build_spec [OF assms] obtain r m' where
    r: "sw_build m buf bufsize flags es cs = Some (r, m')" "r = 0 \<or> r = - FDT_ERR_NOSPACE"
      "writes_only m m' buf bufsize"
      "60 + 16 * int (length es) + items_size is + names_room is \<le> bufsize \<longrightarrow> r = 0"
      "r = 0 \<longrightarrow> finished m' buf is \<and> reserved m' buf (es @ [(0, 0)]) \<and> h_totalsize m' buf \<le> bufsize" by blast
  have "fdt_check_header m' buf = Some 0 \<and> reads_back m' buf 0 is \<and>
      (\<forall>i < length es. fdt_get_mem_rsv m' buf (int i) = Some (0, Some (es ! i)))" if "r = 0"
  proof -
    from r(5) that have f: "finished m' buf is" "reserved m' buf (es @ [(0, 0)])" by simp_all
    note fd = finishedD [OF f(1)]
    show ?thesis
      using fdt_check_header_iff [OF rw_ok_header [OF fd(1)]] fd(3) finished_split(1) [OF f(1), of "[]" "is"]
        built_reserved(1) [OF f] by simp
  qed
  with r show ?thesis by blast
qed

lemma demo_request:
  "build_request sw_buffer 4096 256 0 [(1, 2)] [Begin_call 260, Property_call 256 256 4, End_call]
     (tree_items (DNode [] [([65, 65, 65, 65], [65, 65, 65, 65])] []))"
proof -
  have "c_string sw_buffer 256 [65, 65, 65, 65]" "c_string sw_buffer 260 []"
    by (auto simp: c_string_def last_word_mapped_def mapped_def sw_buffer_def)
  moreover have "mapped sw_buffer 4096 (4 * ((256 + 3) div 4))" by (rule sw_buffer_mapped) simp
  ultimately show ?thesis by (simp add: build_request_def names_room_def outside_def sw_buffer_def)
qed

theorem build_reads_back_witness:
  "\<exists>m'. sw_build sw_buffer 4096 256 0 [(1, 2)] [Begin_call 260, Property_call 256 256 4, End_call] = Some (0, m') \<and>
     reads_back m' 4096 0 [Open_item [], Prop_item [65, 65, 65, 65] [65, 65, 65, 65], Close_item] \<and>
     fdt_get_mem_rsv m' 4096 0 = Some (0, Some (1, 2))"
  using build_reads_back [OF demo_request] by (auto simp: items_size_def names_room_def tag_size_def)

text \<open>C10: for every device tree with the empty root name, the calls that write its nodes and properties in
  order, in a buffer that has room for them, all succeed, and the full check accepts the result.\<close>

theorem built_tree_accepted:
  assumes "build_request m buf bufsize flags es cs (tree_items (DNode [] ps ts))"
    and "60 + 16 * int (length es) + items_size (tree_items (DNode [] ps ts)) +
      names_room (tree_items (DNode [] ps ts)) \<le> bufsize"
  shows "\<exists>m'. sw_build m buf bufsize flags es cs = Some (0, m') \<and> fdt_check_full m' buf bufsize = Some 0 \<and>
    fdt_num_mem_rsv m' buf = Some (int (length (takeWhile (\<lambda>e. snd e \<noteq> 0) es)))"
proof -
  obtain m' where m': "sw_build m buf bufsize flags es cs = Some (0, m')" "finished m' buf (tree_items (DNode [] ps ts))"
      "reserved m' buf (es @ [(0, 0)])" "h_totalsize m' buf \<le> bufsize"
    by (rule sw_build_room [OF assms])
  with finished_check_full [OF m'(2-4)] built_reserved(2) [OF m'(2,3)] nested_root show ?thesis by simp
qed

theorem built_tree_accepted_witness:
  "\<exists>m'. sw_build sw_buffer 4096 256 0 [(1, 2)] [Begin_call 260, Property_call 256 256 4, End_call] = Some (0, m') \<and>
     fdt_check_full m' 4096 256 = Some 0 \<and> fdt_num_mem_rsv m' 4096 = Some 1"
  using built_tree_accepted [OF demo_request] by (simp add: items_size_def names_room_def tag_size_def)

text \<open>In a tree that the sequential writer has built, \<open>fdt_getprop\<close> at the offset of a node returns the
  value of the first property of that name written to the node, byte for byte, and \<open>-FDT_ERR_NOTFOUND\<close> when the
  node was written without one, whatever the nodes before and behind it contain.\<close>

theorem built_getprop:
  assumes q: "build_request m buf bufsize flags es cs is" and b: "sw_build m buf bufsize flags es cs = Some (0, m')"
    and i: "is = pre @ Open_item nd # prop_items ps @ rest" "ends_props rest"
    and n: "c_string m name nm" "outside buf bufsize name (int (length nm) + 1)"
  shows "case find (\<lambda>(n, v). n = nm) ps of
      None \<Rightarrow> fdt_getprop m' buf (items_size pre) name = Some (0, - FDT_ERR_NOTFOUND)
    | Some (n, v) \<Rightarrow> \<exists>a. fdt_getprop m' buf (items_size pre) name = Some (a, int (length v)) \<and> a \<noteq> 0 \<and>
        bytes_at m' a v"
proof -
  from sw_build_spec [OF q] b have f: "finished m' buf is" and w: "writes_only m m' buf bufsize" by auto
  have "c_string m' name nm" by (rule c_string_frame [OF n(1) w]) (use n(2) in \<open>simp add: outside_def\<close>)
  then show ?thesis by (rule finished_getprop [OF f i])
qed

theorem built_getprop_witness:
  "\<exists>m' a. sw_build sw_buffer 4096 256 0 [(1, 2)] [Begin_call 260, Property_call 256 256 4, End_call] = Some (0, m') \<and>
     fdt_getprop m' 4096 0 256 = Some (a, 4) \<and> bytes_at m' a [65, 65, 65, 65]"
proof -
  have "60 + 16 * int (length [(1 :: int, 2 :: int)]) + items_size (tree_items (DNode [] [([65, 65, 65, 65], [65, 65, 65, 65])] [])) +
      names_room (tree_items (DNode [] [([65, 65, 65, 65], [65, 65, 65, 65])] [])) \<le> 256"
    by (simp add: items_size_def names_room_def tag_size_def)
  from sw_build_room [OF demo_request this] obtain m' where
    m': "sw_build sw_buffer 4096 256 0 [(1, 2)] [Begin_call 260, Property_call 256 256 4, End_call] = Some (0, m')" by blast
  have "c_string sw_buffer 256 [65, 65, 65, 65]"
    by (auto simp: c_string_def last_word_mapped_def mapped_def sw_buffer_def)
  with built_getprop [where pre = "[]" and nd = "[]" and ps = "[([65, 65, 65, 65], [65, 65, 65, 65])]"
      and rest = "[Close_item]" and name = 256 and nm = "[65, 65, 65, 65]", OF demo_request m'] m'
  show ?thesis by (auto simp: outside_def)
qed

end
