(* ===== verification/Fdt_Inline.thy ===== *)
theory Fdt_Inline
  imports Fdt_Lookup
begin

text \<open>
  The inline functions of \<^verbatim>\<open>libfdt/libfdt.h\<close> that pass a number by reference: \<open>tmp\<close> is the address of
  the local variable that holds it in the byte order of the tree.
\<close>

section \<open>Numbers as property values\<close>

definition fdt_get_max_phandle :: "mem \<Rightarrow> literals \<Rightarrow> int \<Rightarrow> int option" where
  "fdt_get_max_phandle m lit fdt = do {
     (err, phandle) \<leftarrow> fdt_find_max_phandle m lit fdt;
     Some (if err < 0 then UINT32_MAX else the phandle) }"

definition fdt_setprop_inplace_u32 :: "mem \<Rightarrow> int \<Rightarrow> int \<Rightarrow> int \<Rightarrow> int \<Rightarrow> int \<Rightarrow> (int \<times> mem) option" where
  "fdt_setprop_inplace_u32 m fdt nodeoffset name val tmp = do {
     m \<leftarrow> fdt32_set m tmp val; fdt_setprop_inplace m fdt nodeoffset name tmp 4 }"

definition fdt_setprop_inplace_u64 :: "mem \<Rightarrow> int \<Rightarrow> int \<Rightarrow> int \<Rightarrow> int \<Rightarrow> int \<Rightarrow> (int \<times> mem) option" where
  "fdt_setprop_inplace_u64 m fdt nodeoffset name val tmp = do {
     m \<leftarrow> fdt64_set m tmp val; fdt_setprop_inplace m fdt nodeoffset name tmp 8 }"

definition fdt_setprop_inplace_cell :: "mem \<Rightarrow> int \<Rightarrow> int \<Rightarrow> int \<Rightarrow> int \<Rightarrow> int \<Rightarrow> (int \<times> mem) option" where
  "fdt_setprop_inplace_cell m fdt nodeoffset name val tmp = fdt_setprop_inplace_u32 m fdt nodeoffset name val tmp"

definition fdt_property_u32 :: "mem \<Rightarrow> int \<Rightarrow> int \<Rightarrow> int \<Rightarrow> int \<Rightarrow> (int \<times> mem) option" where
  "fdt_property_u32 m fdt name val tmp = do {
     m \<leftarrow> fdt32_set m tmp val; fdt_property m fdt name tmp 4 }"

definition fdt_property_u64 :: "mem \<Rightarrow> int \<Rightarrow> int \<Rightarrow> int \<Rightarrow> int \<Rightarrow> (int \<times> mem) option" where
  "fdt_property_u64 m fdt name val tmp = do {
     m \<leftarrow> fdt64_set m tmp val; fdt_property m fdt name tmp 8 }"

definition fdt_property_cell :: "mem \<Rightarrow> int \<Rightarrow> int \<Rightarrow> int \<Rightarrow> int \<Rightarrow> (int \<times> mem) option" where
  "fdt_property_cell m fdt name val tmp = fdt_property_u32 m fdt name val tmp"

definition fdt_setprop_u32 :: "mem \<Rightarrow> int \<Rightarrow> int \<Rightarrow> int \<Rightarrow> int \<Rightarrow> int \<Rightarrow> (int \<times> mem) option" where
  "fdt_setprop_u32 m fdt nodeoffset name val tmp = do {
     m \<leftarrow> fdt32_set m tmp val; fdt_setprop m fdt nodeoffset name tmp 4 }"

definition fdt_setprop_u64 :: "mem \<Rightarrow> int \<Rightarrow> int \<Rightarrow> int \<Rightarrow> int \<Rightarrow> int \<Rightarrow> (int \<times> mem) option" where
  "fdt_setprop_u64 m fdt nodeoffset name val tmp = do {
     m \<leftarrow> fdt64_set m tmp val; fdt_setprop m fdt nodeoffset name tmp 8 }"

definition fdt_setprop_cell :: "mem \<Rightarrow> int \<Rightarrow> int \<Rightarrow> int \<Rightarrow> int \<Rightarrow> int \<Rightarrow> (int \<times> mem) option" where
  "fdt_setprop_cell m fdt nodeoffset name val tmp = fdt_setprop_u32 m fdt nodeoffset name val tmp"

definition fdt_appendprop_u32 :: "mem \<Rightarrow> int \<Rightarrow> int \<Rightarrow> int \<Rightarrow> int \<Rightarrow> int \<Rightarrow> (int \<times> mem) option" where
  "fdt_appendprop_u32 m fdt nodeoffset name val tmp = do {
     m \<leftarrow> fdt32_set m tmp val; fdt_appendprop m fdt nodeoffset name tmp 4 }"

definition fdt_appendprop_u64 :: "mem \<Rightarrow> int \<Rightarrow> int \<Rightarrow> int \<Rightarrow> int \<Rightarrow> int \<Rightarrow> (int \<times> mem) option" where
  "fdt_appendprop_u64 m fdt nodeoffset name val tmp = do {
     m \<leftarrow> fdt64_set m tmp val; fdt_appendprop m fdt nodeoffset name tmp 8 }"

definition fdt_appendprop_cell :: "mem \<Rightarrow> int \<Rightarrow> int \<Rightarrow> int \<Rightarrow> int \<Rightarrow> int \<Rightarrow> (int \<times> mem) option" where
  "fdt_appendprop_cell m fdt nodeoffset name val tmp = fdt_appendprop_u32 m fdt nodeoffset name val tmp"

end
