(* ===== verification/Fdt_Overlay.thy ===== *)
theory Fdt_Overlay
  imports Fdt_Inline
begin

text \<open>
  Device tree overlays, \<^verbatim>\<open>libfdt/fdt_overlay.c\<close>: the base tree \<open>fdt\<close> and the overlay \<open>fdto\<close> lie in one
  memory; \<open>tmp\<close> is the address of the word a C function keeps on its stack to pass a value by
  reference. Every function gives its result and the memory it leaves.
\<close>

section \<open>The target of a fragment\<close>

definition overlay_get_target_phandle :: "mem \<Rightarrow> literals \<Rightarrow> int \<Rightarrow> int \<Rightarrow> int option" where
  "overlay_get_target_phandle m lit fdto fragment = do {
     (val, len) \<leftarrow> fdt_getprop m fdto fragment (lit ''target'');
     if val = 0 then Some 0
     else if len \<noteq> 4 then Some UINT32_MAX
     else do { v \<leftarrow> fdt32_ld_native m val; if v = UINT32_MAX then Some UINT32_MAX else fdt32_ld_native m val } }"

text \<open>The result and \<open>*pathp\<close>, which is written only when the result is not an error.\<close>

definition fdt_overlay_target_offset ::
  "mem \<Rightarrow> literals \<Rightarrow> int \<Rightarrow> int \<Rightarrow> int \<Rightarrow> (int \<times> int) option" where
  "fdt_overlay_target_offset m lit fdt fdto fragment_offset = do {
     phandle \<leftarrow> overlay_get_target_phandle m lit fdto fragment_offset;
     if phandle = UINT32_MAX then Some (- FDT_ERR_BADPHANDLE, 0) else do {
     (ret, path, path_len) \<leftarrow>
       (if phandle = 0 then do {
          (path, path_len) \<leftarrow> fdt_getprop m fdto fragment_offset (lit ''target-path'');
          ret \<leftarrow> (if path \<noteq> 0 then fdt_path_offset m lit fdt path else Some path_len);
          Some (ret, path, path_len) }
        else do { ret \<leftarrow> fdt_node_offset_by_phandle m lit fdt phandle; Some (ret, 0, 0) });
     let ret = (if ret < 0 \<and> path_len = - FDT_ERR_NOTFOUND then - FDT_ERR_BADOVERLAY else ret) in
     Some (if ret < 0 then (ret, 0) else (ret, path)) } }"

section \<open>Raising the phandles of the overlay\<close>

definition overlay_phandle_add_offset :: "mem \<Rightarrow> int \<Rightarrow> int \<Rightarrow> int \<Rightarrow> int \<Rightarrow> (int \<times> mem) option" where
  "overlay_phandle_add_offset m fdt node name delta = do {
     (valp, len) \<leftarrow> fdt_getprop m fdt node name;
     if valp = 0 then Some (len, m)
     else if len \<noteq> 4 then Some (- FDT_ERR_BADPHANDLE, m)
     else do {
       val \<leftarrow> fdt32_ld m valp;
       if to_u32 (val + delta) < val \<or> to_u32 (val + delta) = UINT32_MAX then Some (- FDT_ERR_NOPHANDLES, m)
       else do { m \<leftarrow> fdt32_st m valp (word_of_int (val + delta)); Some (0, m) } } }"

text \<open>The two properties of one node: the part of \<open>overlay_adjust_node_phandles\<close> before its loop.\<close>

definition adjust_own_phandles :: "mem \<Rightarrow> literals \<Rightarrow> int \<Rightarrow> int \<Rightarrow> int \<Rightarrow> (int \<times> mem) option" where
  "adjust_own_phandles m lit fdto node delta = do {
     (ret, m) \<leftarrow> overlay_phandle_add_offset m fdto node (lit ''phandle'') delta;
     if ret \<noteq> 0 \<and> ret \<noteq> - FDT_ERR_NOTFOUND then Some (ret, m) else do {
     (ret, m) \<leftarrow> overlay_phandle_add_offset m fdto node (lit ''linux,phandle'') delta;
     if ret \<noteq> 0 \<and> ret \<noteq> - FDT_ERR_NOTFOUND then Some (ret, m) else Some (0, m) } }"

text \<open>Its loop over the subnodes, with the recursive call for \<open>child\<close> unfolded.\<close>

partial_function (option) adjust_subnodes ::
  "mem \<Rightarrow> literals \<Rightarrow> int \<Rightarrow> int \<Rightarrow> int \<Rightarrow> (int \<times> mem) option" where [code]:
  "adjust_subnodes m lit fdto child delta =
     (if child \<ge> 0 then do {
        (ret, m) \<leftarrow> adjust_own_phandles m lit fdto child delta;
        (ret, m) \<leftarrow> (if ret \<noteq> 0 then Some (ret, m)
           else do { c \<leftarrow> fdt_first_subnode m fdto child; adjust_subnodes m lit fdto c delta });
        if ret \<noteq> 0 then Some (ret, m)
        else do { child \<leftarrow> fdt_next_subnode m fdto child; adjust_subnodes m lit fdto child delta } }
      else Some (0, m))"

definition overlay_adjust_node_phandles :: "mem \<Rightarrow> literals \<Rightarrow> int \<Rightarrow> int \<Rightarrow> int \<Rightarrow> (int \<times> mem) option" where
  "overlay_adjust_node_phandles m lit fdto node delta = do {
     (ret, m) \<leftarrow> adjust_own_phandles m lit fdto node delta;
     if ret \<noteq> 0 then Some (ret, m)
     else do { c \<leftarrow> fdt_first_subnode m fdto node; adjust_subnodes m lit fdto c delta } }"

definition overlay_adjust_local_phandles :: "mem \<Rightarrow> literals \<Rightarrow> int \<Rightarrow> int \<Rightarrow> (int \<times> mem) option" where
  "overlay_adjust_local_phandles m lit fdto delta = overlay_adjust_node_phandles m lit fdto 0 delta"

section \<open>References to the overlay's own phandles\<close>

text \<open>
  The two walks over \<open>__local_fixups__\<close> differ only in what they do with a reference, the word at
  \<open>refp\<close>: one adds \<open>delta\<close>, the other replaces one phandle by another.
\<close>

definition add_delta :: "int \<Rightarrow> mem \<Rightarrow> int \<Rightarrow> mem option" where
  "add_delta delta m refp = do { v \<leftarrow> fdt32_ld m refp; fdt32_st m refp (word_of_int (v + delta)) }"

definition replace_phandle :: "int \<Rightarrow> int \<Rightarrow> mem \<Rightarrow> int \<Rightarrow> mem option" where
  "replace_phandle fdt_phandle fdto_phandle m refp = do {
     valp \<leftarrow> fdt32_ld m refp;
     if valp = fdto_phandle then fdt32_st m refp (word_of_int fdt_phandle) else Some m }"

text \<open>The loop over the offsets in one fixup property: \<open>refp = tree_val + fixup_val[i]\<close>, unchecked.\<close>

fun fixup_words :: "(mem \<Rightarrow> int \<Rightarrow> mem option) \<Rightarrow> mem \<Rightarrow> int \<Rightarrow> int \<Rightarrow> nat \<Rightarrow> mem option" where
  "fixup_words step m tree_val fixup_val 0 = Some m"
| "fixup_words step m tree_val fixup_val (Suc n) = do {
     off \<leftarrow> fdt32_ld_native m fixup_val;
     m \<leftarrow> step m (to_u32 (tree_val + off));
     fixup_words step m tree_val (fixup_val + 4) n }"

partial_function (option) fixup_properties ::
  "(mem \<Rightarrow> int \<Rightarrow> mem option) \<Rightarrow> mem \<Rightarrow> int \<Rightarrow> int \<Rightarrow> int \<Rightarrow> (int \<times> mem) option" where [code]:
  "fixup_properties step m fdto tree_node fixup_prop =
     (if fixup_prop \<ge> 0 then do {
        (fixup_val, name, fixup_len) \<leftarrow> fdt_getprop_by_offset m fdto fixup_prop True;
        if fixup_val = 0 then Some (fixup_len, m)
        else if to_u32 fixup_len mod 4 \<noteq> 0 then Some (- FDT_ERR_BADOVERLAY, m)
        else do {
          (tree_val, tree_len) \<leftarrow> fdt_getprop m fdto tree_node (the name);
          if tree_val = 0 then
            Some (if tree_len = - FDT_ERR_NOTFOUND then - FDT_ERR_BADOVERLAY else tree_len, m)
          else do {
            m \<leftarrow> fixup_words step m tree_val fixup_val (nat (to_u32 fixup_len div 4));
            fixup_prop \<leftarrow> fdt_next_property_offset m fdto fixup_prop;
            fixup_properties step m fdto tree_node fixup_prop } } }
      else Some (0, m))"

partial_function (option) fixup_subnodes ::
  "(mem \<Rightarrow> int \<Rightarrow> mem option) \<Rightarrow> mem \<Rightarrow> int \<Rightarrow> int \<Rightarrow> int \<Rightarrow> (int \<times> mem) option" where [code]:
  "fixup_subnodes step m fdto tree_node fixup_child =
     (if fixup_child \<ge> 0 then do {
        (fixup_child_name, _) \<leftarrow> fdt_get_name m fdto fixup_child;
        tree_child \<leftarrow> fdt_subnode_offset m fdto tree_node fixup_child_name;
        if tree_child = - FDT_ERR_NOTFOUND then Some (- FDT_ERR_BADOVERLAY, m)
        else if tree_child < 0 then Some (tree_child, m)
        else do {
          fixup_prop \<leftarrow> fdt_first_property_offset m fdto fixup_child;
          (ret, m) \<leftarrow> fixup_properties step m fdto tree_child fixup_prop;
          (ret, m) \<leftarrow> (if ret \<noteq> 0 then Some (ret, m)
             else do { c \<leftarrow> fdt_first_subnode m fdto fixup_child; fixup_subnodes step m fdto tree_child c });
          if ret \<noteq> 0 then Some (ret, m)
          else do {
            fixup_child \<leftarrow> fdt_next_subnode m fdto fixup_child;
            fixup_subnodes step m fdto tree_node fixup_child } } }
      else Some (0, m))"

definition fixup_references ::
  "(mem \<Rightarrow> int \<Rightarrow> mem option) \<Rightarrow> mem \<Rightarrow> int \<Rightarrow> int \<Rightarrow> int \<Rightarrow> (int \<times> mem) option" where
  "fixup_references step m fdto tree_node fixup_node = do {
     fixup_prop \<leftarrow> fdt_first_property_offset m fdto fixup_node;
     (ret, m) \<leftarrow> fixup_properties step m fdto tree_node fixup_prop;
     if ret \<noteq> 0 then Some (ret, m)
     else do { c \<leftarrow> fdt_first_subnode m fdto fixup_node; fixup_subnodes step m fdto tree_node c } }"

definition overlay_update_local_node_references ::
  "mem \<Rightarrow> int \<Rightarrow> int \<Rightarrow> int \<Rightarrow> int \<Rightarrow> (int \<times> mem) option" where
  "overlay_update_local_node_references m fdto tree_node fixup_node delta =
     fixup_references (add_delta delta) m fdto tree_node fixup_node"

definition overlay_update_local_references :: "mem \<Rightarrow> literals \<Rightarrow> int \<Rightarrow> int \<Rightarrow> (int \<times> mem) option" where
  "overlay_update_local_references m lit fdto delta = do {
     fixups \<leftarrow> fdt_path_offset m lit fdto (lit ''/__local_fixups__'');
     if fixups < 0 then Some (if fixups = - FDT_ERR_NOTFOUND then 0 else fixups, m)
     else overlay_update_local_node_references m fdto 0 fixups delta }"

section \<open>References to nodes of the base tree\<close>

text \<open>
  The standard library's \<open>strtoul\<close> in base 10, with a 32-bit \<open>unsigned long\<close>: the value and
  \<open>*endptr\<close>; white space, then a sign, then digits.
\<close>

partial_function (option) skip_space :: "mem \<Rightarrow> int \<Rightarrow> int option" where [code]:
  "skip_space m p = do {
     b \<leftarrow> load8 m p; if b = 32 \<or> 9 \<le> b \<and> b \<le> 13 then skip_space m (p + 1) else Some p }"

partial_function (option) scan_digits :: "mem \<Rightarrow> int \<Rightarrow> int \<Rightarrow> (int \<times> int) option" where [code]:
  "scan_digits m p v = do {
     b \<leftarrow> load8 m p;
     if 48 \<le> b \<and> b \<le> 57 then scan_digits m (p + 1) (v * 10 + (uint b - 48)) else Some (v, p) }"

definition strtoul10 :: "mem \<Rightarrow> int \<Rightarrow> (int \<times> int) option" where
  "strtoul10 m s = do {
     p \<leftarrow> skip_space m s;
     b \<leftarrow> load8 m p;
     let q = (if b = 43 \<or> b = 45 then p + 1 else p) in do {
     (v, e) \<leftarrow> scan_digits m q 0;
     Some (if e = q then (0, s)
           else (if v > UINT32_MAX then UINT32_MAX else if b = 45 then to_u32 (- v) else v, e)) } }"

definition overlay_fixup_one_phandle ::
  "mem \<Rightarrow> literals \<Rightarrow> int \<Rightarrow> int \<Rightarrow> int \<Rightarrow> int \<Rightarrow> int \<Rightarrow> int \<Rightarrow> int \<Rightarrow> int \<Rightarrow> int \<Rightarrow> (int \<times> mem) option" where
  "overlay_fixup_one_phandle m lit fdto symbols_off path path_len name name_len poffset phandle tmp =
     (if symbols_off < 0 then Some (symbols_off, m) else do {
      fixup_off \<leftarrow> fdt_path_offset_namelen m lit fdto path (to_s32 path_len);
      if fixup_off = - FDT_ERR_NOTFOUND then Some (- FDT_ERR_BADOVERLAY, m)
      else if fixup_off < 0 then Some (fixup_off, m)
      else do {
        m \<leftarrow> fdt32_set m tmp phandle;
        fdt_setprop_inplace_namelen_partial m fdto fixup_off name (to_s32 name_len) (to_u32 poffset) tmp 4 } })"

text \<open>One entry \<open>path:property:offset\<close> of a fixup property, \<open>fixup_len\<close> bytes at \<open>path\<close>.\<close>

definition separator_at :: "mem \<Rightarrow> int \<Rightarrow> int \<Rightarrow> int option" where
  "separator_at m p n = do {
     sep \<leftarrow> memchr m p 58 (nat n);
     if sep = 0 then Some 0 else do { b \<leftarrow> load8 m sep; Some (if b \<noteq> 58 then 0 else sep) } }"

definition fixup_entry ::
  "mem \<Rightarrow> literals \<Rightarrow> int \<Rightarrow> int \<Rightarrow> int \<Rightarrow> int \<Rightarrow> int \<Rightarrow> int \<Rightarrow> (int \<times> mem) option" where
  "fixup_entry m lit fdto symbols_off path fixup_len phandle tmp = do {
     sep \<leftarrow> separator_at m path fixup_len;
     if sep = 0 then Some (- FDT_ERR_BADOVERLAY, m) else
     let path_len = sep - path in
     if path_len = to_u32 (fixup_len - 1) then Some (- FDT_ERR_BADOVERLAY, m) else
     let fixup_len = to_u32 (fixup_len - (path_len + 1)); name = sep + 1 in do {
     sep \<leftarrow> separator_at m name fixup_len;
     if sep = 0 then Some (- FDT_ERR_BADOVERLAY, m) else
     let name_len = sep - name in
     if name_len = 0 then Some (- FDT_ERR_BADOVERLAY, m) else do {
     (poffset, endptr) \<leftarrow> strtoul10 m (sep + 1);
     z \<leftarrow> load8 m endptr;
     if z \<noteq> 0 \<or> endptr \<le> sep + 1 then Some (- FDT_ERR_BADOVERLAY, m)
     else overlay_fixup_one_phandle m lit fdto symbols_off path path_len name name_len
            (to_s32 poffset) phandle tmp } } }"

partial_function (option) fixup_entries ::
  "mem \<Rightarrow> literals \<Rightarrow> int \<Rightarrow> int \<Rightarrow> int \<Rightarrow> int \<Rightarrow> int \<Rightarrow> int \<Rightarrow> (int \<times> mem) option" where [code]:
  "fixup_entries m lit fdto symbols_off value len phandle tmp = do {
     fixup_end \<leftarrow> memchr m value 0 (nat (to_u32 len));
     if fixup_end = 0 then Some (- FDT_ERR_BADOVERLAY, m) else
     let fixup_len = fixup_end - value in do {
     (ret, m) \<leftarrow> fixup_entry m lit fdto symbols_off value fixup_len phandle tmp;
     if ret \<noteq> 0 then Some (ret, m)
     else if to_s32 (len - (fixup_len + 1)) > 0 then
       fixup_entries m lit fdto symbols_off (value + fixup_len + 1) (to_s32 (len - (fixup_len + 1))) phandle tmp
     else Some (0, m) } }"

definition overlay_fixup_phandle ::
  "mem \<Rightarrow> literals \<Rightarrow> int \<Rightarrow> int \<Rightarrow> int \<Rightarrow> int \<Rightarrow> int \<Rightarrow> (int \<times> mem) option" where
  "overlay_fixup_phandle m lit fdt fdto symbols_off property tmp = do {
     (value, label, len) \<leftarrow> fdt_getprop_by_offset m fdto property True;
     if value = 0 then Some (if len = - FDT_ERR_NOTFOUND then - FDT_ERR_INTERNAL else len, m) else do {
     (symbol_path, prop_len) \<leftarrow> fdt_getprop m fdt symbols_off (the label);
     if symbol_path = 0 then Some (prop_len, m) else do {
     symbol_off \<leftarrow> fdt_path_offset m lit fdt symbol_path;
     if symbol_off < 0 then Some (symbol_off, m) else do {
     phandle \<leftarrow> fdt_get_phandle m lit fdt symbol_off;
     if phandle = 0 then Some (- FDT_ERR_NOTFOUND, m)
     else fixup_entries m lit fdto symbols_off value len phandle tmp } } } }"

partial_function (option) fixup_each ::
  "mem \<Rightarrow> literals \<Rightarrow> int \<Rightarrow> int \<Rightarrow> int \<Rightarrow> int \<Rightarrow> int \<Rightarrow> (int \<times> mem) option" where [code]:
  "fixup_each m lit fdt fdto symbols_off property tmp =
     (if property \<ge> 0 then do {
        (ret, m) \<leftarrow> overlay_fixup_phandle m lit fdt fdto symbols_off property tmp;
        if ret \<noteq> 0 then Some (ret, m)
        else do {
          property \<leftarrow> fdt_next_property_offset m fdto property;
          fixup_each m lit fdt fdto symbols_off property tmp } }
      else Some (0, m))"

definition overlay_fixup_phandles :: "mem \<Rightarrow> literals \<Rightarrow> int \<Rightarrow> int \<Rightarrow> int \<Rightarrow> (int \<times> mem) option" where
  "overlay_fixup_phandles m lit fdt fdto tmp = do {
     fixups_off \<leftarrow> fdt_path_offset m lit fdto (lit ''/__fixups__'');
     if fixups_off = - FDT_ERR_NOTFOUND then Some (0, m)
     else if fixups_off < 0 then Some (fixups_off, m) else do {
     symbols_off \<leftarrow> fdt_path_offset m lit fdt (lit ''/__symbols__'');
     if symbols_off < 0 \<and> symbols_off \<noteq> - FDT_ERR_NOTFOUND then Some (symbols_off, m) else do {
     property \<leftarrow> fdt_first_property_offset m fdto fixups_off;
     fixup_each m lit fdt fdto symbols_off property tmp } } }"

section \<open>Phandles of nodes that are already in the base tree\<close>

definition set_phandle_if_there :: "mem \<Rightarrow> literals \<Rightarrow> int \<Rightarrow> int \<Rightarrow> string \<Rightarrow> int \<Rightarrow> int \<Rightarrow> (int \<times> mem) option" where
  "set_phandle_if_there m lit fdto node name fdt_phandle tmp = do {
     (php, len) \<leftarrow> fdt_getprop m fdto node (lit name);
     if php \<noteq> 0 \<and> len = 4 then fdt_setprop_inplace_u32 m fdto node (lit name) fdt_phandle tmp
     else Some (0, m) }"

definition overlay_adjust_local_conflicting_phandle ::
  "mem \<Rightarrow> literals \<Rightarrow> int \<Rightarrow> int \<Rightarrow> int \<Rightarrow> int \<Rightarrow> (int \<times> mem) option" where
  "overlay_adjust_local_conflicting_phandle m lit fdto node fdt_phandle tmp = do {
     (ret, m) \<leftarrow> set_phandle_if_there m lit fdto node ''phandle'' fdt_phandle tmp;
     if ret \<noteq> 0 then Some (ret, m) else do {
     (ret, m) \<leftarrow> set_phandle_if_there m lit fdto node ''linux,phandle'' fdt_phandle tmp;
     if ret \<noteq> 0 then Some (ret, m) else Some (0, m) } }"

definition overlay_update_node_conflicting_references ::
  "mem \<Rightarrow> int \<Rightarrow> int \<Rightarrow> int \<Rightarrow> int \<Rightarrow> int \<Rightarrow> (int \<times> mem) option" where
  "overlay_update_node_conflicting_references m fdto tree_node fixup_node fdt_phandle fdto_phandle =
     fixup_references (replace_phandle fdt_phandle fdto_phandle) m fdto tree_node fixup_node"

definition overlay_update_local_conflicting_references ::
  "mem \<Rightarrow> literals \<Rightarrow> int \<Rightarrow> int \<Rightarrow> int \<Rightarrow> (int \<times> mem) option" where
  "overlay_update_local_conflicting_references m lit fdto fdt_phandle fdto_phandle = do {
     fixups \<leftarrow> fdt_path_offset m lit fdto (lit ''/__local_fixups__'');
     if fixups = - FDT_ERR_NOTFOUND then Some (0, m)
     else if fixups < 0 then Some (fixups, m)
     else overlay_update_node_conflicting_references m fdto 0 fixups fdt_phandle fdto_phandle }"

text \<open>The part of \<open>overlay_prevent_phandle_overwrite_node\<close> before its loop.\<close>

definition prevent_own_overwrite ::
  "mem \<Rightarrow> literals \<Rightarrow> int \<Rightarrow> int \<Rightarrow> int \<Rightarrow> int \<Rightarrow> int \<Rightarrow> (int \<times> mem) option" where
  "prevent_own_overwrite m lit fdt fdtnode fdto fdtonode tmp = do {
     fdt_phandle \<leftarrow> fdt_get_phandle m lit fdt fdtnode;
     fdto_phandle \<leftarrow> fdt_get_phandle m lit fdto fdtonode;
     if fdt_phandle \<noteq> 0 \<and> fdto_phandle \<noteq> 0 then do {
       (ret, m) \<leftarrow> overlay_adjust_local_conflicting_phandle m lit fdto fdtonode fdt_phandle tmp;
       if ret \<noteq> 0 then Some (ret, m)
       else overlay_update_local_conflicting_references m lit fdto fdt_phandle fdto_phandle }
     else Some (0, m) }"

partial_function (option) prevent_subnodes ::
  "mem \<Rightarrow> literals \<Rightarrow> int \<Rightarrow> int \<Rightarrow> int \<Rightarrow> int \<Rightarrow> int \<Rightarrow> (int \<times> mem) option" where [code]:
  "prevent_subnodes m lit fdt fdtnode fdto fdtochild tmp =
     (if fdtochild \<ge> 0 then do {
        (name, _) \<leftarrow> fdt_get_name m fdto fdtochild;
        fdtchild \<leftarrow> fdt_subnode_offset m fdt fdtnode name;
        (ret, m) \<leftarrow> (if fdtchild = - FDT_ERR_NOTFOUND then Some (0, m) else do {
           (ret, m) \<leftarrow> prevent_own_overwrite m lit fdt fdtchild fdto fdtochild tmp;
           if ret \<noteq> 0 then Some (ret, m)
           else do { c \<leftarrow> fdt_first_subnode m fdto fdtochild; prevent_subnodes m lit fdt fdtchild fdto c tmp } });
        if ret \<noteq> 0 then Some (ret, m)
        else do {
          fdtochild \<leftarrow> fdt_next_subnode m fdto fdtochild;
          prevent_subnodes m lit fdt fdtnode fdto fdtochild tmp } }
      else Some (0, m))"

definition overlay_prevent_phandle_overwrite_node ::
  "mem \<Rightarrow> literals \<Rightarrow> int \<Rightarrow> int \<Rightarrow> int \<Rightarrow> int \<Rightarrow> int \<Rightarrow> (int \<times> mem) option" where
  "overlay_prevent_phandle_overwrite_node m lit fdt fdtnode fdto fdtonode tmp = do {
     (ret, m) \<leftarrow> prevent_own_overwrite m lit fdt fdtnode fdto fdtonode tmp;
     if ret \<noteq> 0 then Some (ret, m)
     else do { c \<leftarrow> fdt_first_subnode m fdto fdtonode; prevent_subnodes m lit fdt fdtnode fdto c tmp } }"

partial_function (option) prevent_fragments ::
  "mem \<Rightarrow> literals \<Rightarrow> int \<Rightarrow> int \<Rightarrow> int \<Rightarrow> int \<Rightarrow> (int \<times> mem) option" where [code]:
  "prevent_fragments m lit fdt fdto fragment tmp =
     (if fragment \<ge> 0 then do {
        overlay \<leftarrow> fdt_subnode_offset m fdto fragment (lit ''__overlay__'');
        (ret, m) \<leftarrow> (if overlay = - FDT_ERR_NOTFOUND then Some (0, m)
           else if overlay < 0 then Some (overlay, m) else do {
             (target, _) \<leftarrow> fdt_overlay_target_offset m lit fdt fdto fragment;
             if target = - FDT_ERR_NOTFOUND then Some (0, m)
             else if target < 0 then Some (target, m)
             else overlay_prevent_phandle_overwrite_node m lit fdt target fdto overlay tmp });
        if ret \<noteq> 0 then Some (ret, m)
        else do {
          fragment \<leftarrow> fdt_next_subnode m fdto fragment; prevent_fragments m lit fdt fdto fragment tmp } }
      else Some (0, m))"

definition overlay_prevent_phandle_overwrite ::
  "mem \<Rightarrow> literals \<Rightarrow> int \<Rightarrow> int \<Rightarrow> int \<Rightarrow> (int \<times> mem) option" where
  "overlay_prevent_phandle_overwrite m lit fdt fdto tmp = do {
     fragment \<leftarrow> fdt_first_subnode m fdto 0; prevent_fragments m lit fdt fdto fragment tmp }"

section \<open>Merging\<close>

partial_function (option) apply_properties ::
  "mem \<Rightarrow> int \<Rightarrow> int \<Rightarrow> int \<Rightarrow> int \<Rightarrow> (int \<times> mem) option" where [code]:
  "apply_properties m fdt target fdto property =
     (if property \<ge> 0 then do {
        (pv, name, prop_len) \<leftarrow> fdt_getprop_by_offset m fdto property True;
        if prop_len = - FDT_ERR_NOTFOUND then Some (- FDT_ERR_INTERNAL, m)
        else if prop_len < 0 then Some (prop_len, m)
        else do {
          (ret, m) \<leftarrow> fdt_setprop m fdt target (the name) pv prop_len;
          if ret \<noteq> 0 then Some (ret, m)
          else do {
            property \<leftarrow> fdt_next_property_offset m fdto property;
            apply_properties m fdt target fdto property } } }
      else Some (0, m))"

text \<open>The node of the base tree that takes the contents of a node of the overlay: a new one or the one there.\<close>

definition merge_node :: "mem \<Rightarrow> int \<Rightarrow> int \<Rightarrow> int \<Rightarrow> (int \<times> mem) option" where
  "merge_node m fdt target name = do {
     (nnode, m) \<leftarrow> fdt_add_subnode m fdt target name;
     if nnode = - FDT_ERR_EXISTS then do {
       nnode \<leftarrow> fdt_subnode_offset m fdt target name;
       Some (if nnode = - FDT_ERR_NOTFOUND then - FDT_ERR_INTERNAL else nnode, m) }
     else Some (nnode, m) }"

partial_function (option) apply_subnodes ::
  "mem \<Rightarrow> int \<Rightarrow> int \<Rightarrow> int \<Rightarrow> int \<Rightarrow> (int \<times> mem) option" where [code]:
  "apply_subnodes m fdt target fdto subnode =
     (if subnode \<ge> 0 then do {
        (name, _) \<leftarrow> fdt_get_name m fdto subnode;
        (nnode, m) \<leftarrow> merge_node m fdt target name;
        if nnode < 0 then Some (nnode, m)
        else do {
          property \<leftarrow> fdt_first_property_offset m fdto subnode;
          (ret, m) \<leftarrow> apply_properties m fdt nnode fdto property;
          (ret, m) \<leftarrow> (if ret \<noteq> 0 then Some (ret, m)
             else do { c \<leftarrow> fdt_first_subnode m fdto subnode; apply_subnodes m fdt nnode fdto c });
          if ret \<noteq> 0 then Some (ret, m)
          else do { subnode \<leftarrow> fdt_next_subnode m fdto subnode; apply_subnodes m fdt target fdto subnode } } }
      else Some (0, m))"

definition overlay_apply_node :: "mem \<Rightarrow> int \<Rightarrow> int \<Rightarrow> int \<Rightarrow> int \<Rightarrow> (int \<times> mem) option" where
  "overlay_apply_node m fdt target fdto node = do {
     property \<leftarrow> fdt_first_property_offset m fdto node;
     (ret, m) \<leftarrow> apply_properties m fdt target fdto property;
     if ret \<noteq> 0 then Some (ret, m)
     else do { c \<leftarrow> fdt_first_subnode m fdto node; apply_subnodes m fdt target fdto c } }"

partial_function (option) merge_fragments ::
  "mem \<Rightarrow> literals \<Rightarrow> int \<Rightarrow> int \<Rightarrow> int \<Rightarrow> (int \<times> mem) option" where [code]:
  "merge_fragments m lit fdt fdto fragment =
     (if fragment \<ge> 0 then do {
        overlay \<leftarrow> fdt_subnode_offset m fdto fragment (lit ''__overlay__'');
        (ret, m) \<leftarrow> (if overlay = - FDT_ERR_NOTFOUND then Some (0, m)
           else if overlay < 0 then Some (overlay, m) else do {
             (target, _) \<leftarrow> fdt_overlay_target_offset m lit fdt fdto fragment;
             if target < 0 then Some (target, m) else overlay_apply_node m fdt target fdto overlay });
        if ret \<noteq> 0 then Some (ret, m)
        else do { fragment \<leftarrow> fdt_next_subnode m fdto fragment; merge_fragments m lit fdt fdto fragment } }
      else Some (0, m))"

definition overlay_merge :: "mem \<Rightarrow> literals \<Rightarrow> int \<Rightarrow> int \<Rightarrow> (int \<times> mem) option" where
  "overlay_merge m lit fdt fdto = do {
     fragment \<leftarrow> fdt_first_subnode m fdto 0; merge_fragments m lit fdt fdto fragment }"

section \<open>Symbols\<close>

partial_function (option) path_len_from :: "mem \<Rightarrow> int \<Rightarrow> int \<Rightarrow> int \<Rightarrow> int option" where [code]:
  "path_len_from m fdt nodeoffset len = do {
     (name, namelen) \<leftarrow> fdt_get_name m fdt nodeoffset;
     if name = 0 then Some namelen
     else if namelen = 0 then Some (if len = 0 then len + 1 else len)
     else do {
       nodeoffset \<leftarrow> fdt_parent_offset m fdt nodeoffset;
       if nodeoffset < 0 then Some nodeoffset
       else path_len_from m fdt nodeoffset (to_s32 (len + namelen + 1)) } }"

definition get_path_len :: "mem \<Rightarrow> int \<Rightarrow> int \<Rightarrow> int option" where
  "get_path_len m fdt nodeoffset = do {
     err \<leftarrow> fdt_ro_probe m fdt;
     if err < 0 then Some err else path_len_from m fdt nodeoffset 0 }"

text \<open>The standard library's \<open>strchr\<close> for a character other than NUL.\<close>

partial_function (option) strchr :: "mem \<Rightarrow> int \<Rightarrow> int \<Rightarrow> int option" where [code]:
  "strchr m p c = do {
     b \<leftarrow> load8 m p; if uint b = c then Some p else if b = 0 then Some 0 else strchr m (p + 1) c }"

text \<open>
  The path below \<open>__overlay__\<close> of a symbol path \<open>/fragment/__overlay__/path\<close> whose second slash is at
  \<open>s\<close> and whose end is \<open>e\<close>; \<open>None\<close> for any other path.
\<close>

definition symbol_rel_path :: "mem \<Rightarrow> literals \<Rightarrow> int \<Rightarrow> int \<Rightarrow> (int \<times> int) option option" where
  "symbol_rel_path m lit s e =
     (let len = 13 in do {
      sub \<leftarrow> (if e - s > len then do { c \<leftarrow> memcmp m s (lit ''/__overlay__/'') (nat len); Some (c = 0) }
        else Some False);
      if sub then Some (Some (s + len, e - (s + len) - 1))
      else do {
        top \<leftarrow> (if e - s = len then do { c \<leftarrow> memcmp m s (lit ''/__overlay__'') (nat (len - 1)); Some (c = 0) }
          else Some False);
        Some (if top then Some (lit '''', 0) else None) } })"

text \<open>Writing the new path into the value at \<open>buf\<close>; \<open>Some err\<close> leaves the function.\<close>

definition write_symbol_path ::
  "mem \<Rightarrow> int \<Rightarrow> int \<Rightarrow> int \<Rightarrow> int \<Rightarrow> int \<Rightarrow> int \<Rightarrow> int \<Rightarrow> (int option \<times> mem) option" where
  "write_symbol_path m fdt target target_path buf len rel_path rel_path_len = do {
     (ret, len, m) \<leftarrow>
       (if len > 1 then
          (if target_path = 0 then do {
             (ret, m) \<leftarrow> fdt_get_path m fdt target buf (len + 1); Some (ret, len, m) }
           else do { (_, m) \<leftarrow> memcpy m buf target_path (nat (to_u32 (len + 1))); Some (0, len, m) })
        else Some (0, len - 1, m));
     if ret < 0 then Some (Some ret, m)
     else do {
       m \<leftarrow> store8 m (buf + len) 47;
       (_, m) \<leftarrow> memcpy m (buf + len + 1) rel_path (nat (to_u32 rel_path_len));
       m \<leftarrow> store8 m (buf + len + 1 + rel_path_len) 0;
       Some (None, m) } }"

text \<open>The symbol of one property, once its path is split; \<open>None\<close> goes on with the next property.\<close>

definition place_symbol ::
  "mem \<Rightarrow> literals \<Rightarrow> int \<Rightarrow> int \<Rightarrow> int \<Rightarrow> int \<Rightarrow> int \<Rightarrow> int \<Rightarrow> int \<Rightarrow> int \<Rightarrow> (int option \<times> mem) option" where
  "place_symbol m lit fdt fdto root_sym name frag_name frag_name_len rel_path rel_path_len = do {
     ret \<leftarrow> fdt_subnode_offset_namelen m fdto 0 frag_name frag_name_len;
     if ret < 0 then Some (Some (- FDT_ERR_BADOVERLAY), m) else
     let fragment = ret in do {
     ret \<leftarrow> fdt_subnode_offset m fdto fragment (lit ''__overlay__'');
     if ret < 0 then Some (Some (- FDT_ERR_BADOVERLAY), m) else do {
     (ret, target_path) \<leftarrow> fdt_overlay_target_offset m lit fdt fdto fragment;
     if ret < 0 then Some (Some ret, m) else
     let target = ret in do {
     len \<leftarrow> (if target_path = 0 then get_path_len m fdt target
            else do { n \<leftarrow> strlen m target_path; Some (to_s32 n) });
     if target_path = 0 \<and> len < 0 then Some (Some len, m) else do {
     (ret, buf, m) \<leftarrow> fdt_setprop_placeholder m fdt root_sym name
        (to_s32 (len + (if len > 1 then 1 else 0) + rel_path_len + 1));
     if ret < 0 then Some (Some ret, m) else do {
     (ret, target, target_path) \<leftarrow> (if target_path = 0 then do {
          (ret, target_path) \<leftarrow> fdt_overlay_target_offset m lit fdt fdto fragment;
          Some (ret, ret, target_path) }
        else Some (0, target, target_path));
     if ret < 0 then Some (Some ret, m)
     else write_symbol_path m fdt target target_path buf len rel_path rel_path_len } } } } } }"

definition update_symbol ::
  "mem \<Rightarrow> literals \<Rightarrow> int \<Rightarrow> int \<Rightarrow> int \<Rightarrow> int \<Rightarrow> (int option \<times> mem) option" where
  "update_symbol m lit fdt fdto root_sym prop_off = do {
     (path, name, path_len) \<leftarrow> fdt_getprop_by_offset m fdto prop_off True;
     if path = 0 then Some (Some path_len, m) else do {
     bad \<leftarrow> (if path_len < 1 then Some True
        else do { z \<leftarrow> memchr m path 0 (nat path_len); Some (z \<noteq> path + path_len - 1) });
     if bad then Some (Some (- FDT_ERR_BADVALUE), m) else
     let e = path + path_len in do {
     b \<leftarrow> load8 m path;
     if b \<noteq> 47 then Some (Some (- FDT_ERR_BADVALUE), m) else do {
     s \<leftarrow> strchr m (path + 1) 47;
     if s = 0 then Some (None, m) else do {
     rel \<leftarrow> symbol_rel_path m lit s e;
     case rel of None \<Rightarrow> Some (None, m)
     | Some (rel_path, rel_path_len) \<Rightarrow>
         place_symbol m lit fdt fdto root_sym (the name) (path + 1) (s - path - 1) rel_path rel_path_len } } } } }"

partial_function (option) update_symbols ::
  "mem \<Rightarrow> literals \<Rightarrow> int \<Rightarrow> int \<Rightarrow> int \<Rightarrow> int \<Rightarrow> (int \<times> mem) option" where [code]:
  "update_symbols m lit fdt fdto root_sym prop_off =
     (if prop_off \<ge> 0 then do {
        (r, m) \<leftarrow> update_symbol m lit fdt fdto root_sym prop_off;
        case r of Some ret \<Rightarrow> Some (ret, m)
        | None \<Rightarrow> do {
            prop_off \<leftarrow> fdt_next_property_offset m fdto prop_off;
            update_symbols m lit fdt fdto root_sym prop_off } }
      else Some (0, m))"

definition overlay_symbol_update :: "mem \<Rightarrow> literals \<Rightarrow> int \<Rightarrow> int \<Rightarrow> (int \<times> mem) option" where
  "overlay_symbol_update m lit fdt fdto = do {
     ov_sym \<leftarrow> fdt_subnode_offset m fdto 0 (lit ''__symbols__'');
     if ov_sym < 0 then Some (0, m) else do {
     root_sym \<leftarrow> fdt_subnode_offset m fdt 0 (lit ''__symbols__'');
     (root_sym, m) \<leftarrow> (if root_sym = - FDT_ERR_NOTFOUND then fdt_add_subnode m fdt 0 (lit ''__symbols__'')
        else Some (root_sym, m));
     if root_sym < 0 then Some (root_sym, m) else do {
     prop_off \<leftarrow> fdt_first_property_offset m fdto ov_sym;
     update_symbols m lit fdt fdto root_sym prop_off } } }"

section \<open>Applying an overlay\<close>

abbreviation and_then :: "(int \<times> mem) option \<Rightarrow> (mem \<Rightarrow> (int \<times> mem) option) \<Rightarrow> (int \<times> mem) option" where
  "and_then r f \<equiv> do { (ret, m) \<leftarrow> r; if ret \<noteq> 0 then Some (ret, m) else f m }"

text \<open>The steps up to the first error, then the end of the function, which spoils the magic.\<close>

definition overlay_apply_steps :: "mem \<Rightarrow> literals \<Rightarrow> int \<Rightarrow> int \<Rightarrow> int \<Rightarrow> (int \<times> mem) option" where
  "overlay_apply_steps m lit fdt fdto tmp = do {
     (ret, delta) \<leftarrow> fdt_find_max_phandle m lit fdt;
     if ret \<noteq> 0 then Some (ret, m)
     else and_then (overlay_adjust_local_phandles m lit fdto (the delta)) (\<lambda>m.
          and_then (overlay_update_local_references m lit fdto (the delta)) (\<lambda>m.
          and_then (overlay_fixup_phandles m lit fdt fdto tmp) (\<lambda>m.
          and_then (overlay_prevent_phandle_overwrite m lit fdt fdto tmp) (\<lambda>m.
          and_then (overlay_merge m lit fdt fdto) (\<lambda>m.
          overlay_symbol_update m lit fdt fdto))))) }"

definition fdt_overlay_apply :: "mem \<Rightarrow> literals \<Rightarrow> int \<Rightarrow> int \<Rightarrow> int \<Rightarrow> (int \<times> mem) option" where
  "fdt_overlay_apply m lit fdt fdto tmp = do {
     err \<leftarrow> fdt_ro_probe m fdt;
     if err < 0 then Some (err, m) else do {
     err \<leftarrow> fdt_ro_probe m fdto;
     if err < 0 then Some (err, m) else do {
     (ret, m) \<leftarrow> overlay_apply_steps m lit fdt fdto tmp;
     m \<leftarrow> fdt_set_magic m fdto UINT32_MAX;
     if ret = 0 then Some (0, m)
     else do { m \<leftarrow> fdt_set_magic m fdt UINT32_MAX; Some (ret, m) } } } }"

end
