(* ===== verification/Fdt_Merge.thy ===== *)
theory Fdt_Merge
  imports Fdt_Overlay
begin

text \<open>
  What applying an overlay does to memory: the walks over the overlay end, merging a node writes only
  to the base tree, raising phandles only to the overlay, while local references are followed
  without a bound.
\<close>

section \<open>Walks over subnodes\<close>

lemma first_subnode_spec:
  assumes b: "blob m fdt" and off: "off \<le> INT32_MAX"
  shows "\<exists>r. fdt_first_subnode m fdt off = Some r \<and> (r < 0 \<or> off < r \<and> r \<le> INT32_MAX \<and> node_at m fdt r)"
proof -
  from fdt_next_node_spec [OF b off, of "Some 0"] obtain r d where
    r: "fdt_next_node m fdt off (Some 0) = Some (r, d)" "node_result m fdt (max 0 (off + 1)) r d" by blast
  then show ?thesis by (auto simp: fdt_first_subnode_def node_result_def)
qed

lemma next_subnode_loop_spec:
  assumes b: "blob m fdt"
  shows "off \<le> INT32_MAX \<Longrightarrow> \<exists>r. fdt_next_subnode_loop m fdt off depth = Some r \<and>
    (r < 0 \<or> off < r \<and> r \<le> INT32_MAX \<and> node_at m fdt r)"
proof (induction "nat (INT32_MAX - off)" arbitrary: off depth rule: less_induct)
  case less
  from fdt_next_node_spec [OF b less.prems, of "Some depth"] obtain r d where
    r: "fdt_next_node m fdt off (Some depth) = Some (r, Some d)"
      "node_result m fdt (max 0 (off + 1)) r (Some d)" by auto
  show ?case
  proof (cases "0 \<le> r \<and> 1 < d")
    case False
    with r show ?thesis by (subst fdt_next_subnode_loop.simps) (auto simp: node_result_def Let_def)
  next
    case True
    with r(2) have o: "off < r" "r \<le> INT32_MAX" by (auto simp: node_result_def)
    then have "\<exists>x. fdt_next_subnode_loop m fdt r d = Some x \<and> (x < 0 \<or> r < x \<and> x \<le> INT32_MAX \<and> node_at m fdt x)"
      by (intro less.hyps) auto
    with True r(1) o(1) show ?thesis by (subst fdt_next_subnode_loop.simps) (auto simp: Let_def)
  qed
qed

lemma next_subnode_spec:
  assumes "blob m fdt" "off \<le> INT32_MAX"
  shows "\<exists>r. fdt_next_subnode m fdt off = Some r \<and> (r < 0 \<or> off < r \<and> r \<le> INT32_MAX \<and> node_at m fdt r)"
  unfolding fdt_next_subnode_def by (rule next_subnode_loop_spec [OF assms])

text \<open>
  A walk over all nodes below a node, in the order of the tree: \<open>enter\<close> works on one node and gives
  the context for its subnodes. When every \<open>enter\<close> returns and keeps what \<open>ok\<close> says of memory, which
  includes that the tree walked over stays mapped, so does the walk.
\<close>

locale subnode_walk =
  fixes walk :: "mem \<Rightarrow> 'c \<Rightarrow> int \<Rightarrow> (int \<times> mem) option"
    and enter :: "mem \<Rightarrow> 'c \<Rightarrow> int \<Rightarrow> (int \<times> 'c \<times> mem) option"
    and fdto :: int
    and ok :: "mem \<Rightarrow> bool" and good :: "'c \<Rightarrow> bool" and rel :: "mem \<Rightarrow> mem \<Rightarrow> bool"
  assumes walk_eq: "walk m c child =
      (if child \<ge> 0 then do {
         (ret, c', m) \<leftarrow> enter m c child;
         (ret, m) \<leftarrow> (if ret \<noteq> 0 then Some (ret, m) else do { d \<leftarrow> fdt_first_subnode m fdto child; walk m c' d });
         if ret \<noteq> 0 then Some (ret, m) else do { d \<leftarrow> fdt_next_subnode m fdto child; walk m c d } }
       else Some (0, m))"
    and enter_ok: "ok m \<Longrightarrow> good c \<Longrightarrow> node_at m fdto child \<Longrightarrow> 0 \<le> child \<Longrightarrow> child \<le> INT32_MAX \<Longrightarrow>
      \<exists>ret c' m'. enter m c child = Some (ret, c', m') \<and> ok m' \<and> rel m m' \<and> (ret = 0 \<longrightarrow> good c')"
    and ok_blob: "ok m \<Longrightarrow> blob m fdto"
    and rel_refl: "ok m \<Longrightarrow> rel m m"
    and rel_trans: "rel m m1 \<Longrightarrow> rel m1 m' \<Longrightarrow> rel m m'"
begin

lemma walk_returns:
  "ok m \<Longrightarrow> good c \<Longrightarrow> child < 0 \<or> child \<le> INT32_MAX \<and> node_at m fdto child \<Longrightarrow>
    \<exists>ret m'. walk m c child = Some (ret, m') \<and> ok m' \<and> rel m m'"
proof (induction "nat (INT32_MAX - child)" arbitrary: m c child rule: less_induct)
  case less
  show ?case
  proof (cases "child < 0")
    case True
    then show ?thesis using less.prems rel_refl by (subst walk_eq) simp
  next
    case False
    with less.prems(3) have ch: "0 \<le> child" "child \<le> INT32_MAX" "node_at m fdto child" by simp_all
    from enter_ok [OF less.prems(1,2) ch(3,1,2)] obtain ret c' m1 where
      e: "enter m c child = Some (ret, c', m1)" "ok m1" "rel m m1" "ret = 0 \<longrightarrow> good c'" by blast
    show ?thesis
    proof (cases "ret = 0")
      case False
      with e ch show ?thesis by (subst walk_eq) simp
    next
      case r0: True
      from first_subnode_spec [OF ok_blob [OF e(2)] ch(2)] obtain d where
        d: "fdt_first_subnode m1 fdto child = Some d"
          "d < 0 \<or> child < d \<and> d \<le> INT32_MAX \<and> node_at m1 fdto d" by blast
      have "\<exists>ret m'. walk m1 c' d = Some (ret, m') \<and> ok m' \<and> rel m1 m'"
      proof (cases "d < 0")
        case True
        then show ?thesis using e(2) rel_refl by (subst walk_eq) simp
      next
        case False
        with d(2) r0 e(2,4) ch show ?thesis by (intro less.hyps) auto
      qed
      then obtain ret2 m2 where w: "walk m1 c' d = Some (ret2, m2)" "ok m2" "rel m1 m2" by blast
      show ?thesis
      proof (cases "ret2 = 0")
        case False
        with e d(1) w ch r0 rel_trans [OF e(3) w(3)] show ?thesis by (subst walk_eq) simp
      next
        case True
        from next_subnode_spec [OF ok_blob [OF w(2)] ch(2)] obtain d' where
          d': "fdt_next_subnode m2 fdto child = Some d'"
            "d' < 0 \<or> child < d' \<and> d' \<le> INT32_MAX \<and> node_at m2 fdto d'" by blast
        have "\<exists>ret m'. walk m2 c d' = Some (ret, m') \<and> ok m' \<and> rel m2 m'"
        proof (cases "d' < 0")
          case True
          then show ?thesis using w(2) rel_refl by (subst walk_eq) simp
        next
          case False
          with d'(2) w(2) less.prems(2) ch show ?thesis by (intro less.hyps) auto
        qed
        then obtain ret3 m3 where x: "walk m2 c d' = Some (ret3, m3)" "ok m3" "rel m2 m3" by blast
        have "walk m c child = walk m2 c d'" using e d(1) w d'(1) ch r0 True by (subst walk_eq) simp
        with x rel_trans [OF rel_trans [OF e(3) w(3)] x(3)] show ?thesis by auto
      qed
    qed
  qed
qed

lemma walk_below:
  assumes m: "ok m" and c: "good c" and n: "node \<le> INT32_MAX"
  shows "\<exists>ret m'. do { d \<leftarrow> fdt_first_subnode m fdto node; walk m c d } = Some (ret, m') \<and> ok m' \<and> rel m m'"
proof -
  from first_subnode_spec [OF ok_blob [OF m] n] obtain d where
    d: "fdt_first_subnode m fdto node = Some d" "d < 0 \<or> d \<le> INT32_MAX \<and> node_at m fdto d" by blast
  with walk_returns [OF m c d(2)] show ?thesis by auto
qed

end

section \<open>Merging nodes into the base tree\<close>

text \<open>An overlay as it is read: mapped, with a header every query accepts.\<close>

definition overlay_ok :: "mem \<Rightarrow> int \<Rightarrow> bool" where
  "overlay_ok m fdto \<longleftrightarrow> blob m fdto \<and> 16 \<le> h_version m fdto \<and> hdr m fdto 0 = FDT_MAGIC \<and>
     h_last_comp m fdto \<le> 17 \<and> 40 \<le> h_totalsize m fdto \<and> h_totalsize m fdto \<le> 2147483600"

text \<open>A base tree in order and an overlay that do not overlap.\<close>

definition two_trees :: "mem \<Rightarrow> int \<Rightarrow> int \<Rightarrow> bool" where
  "two_trees m fdt fdto \<longleftrightarrow> rw_ok m fdt \<and> overlay_ok m fdto \<and> apart m fdt fdto (h_totalsize m fdto)"

lemma two_treesD:
  assumes "two_trees m fdt fdto"
  shows "rw_ok m fdt" "overlay_ok m fdto" "blob m fdto" "16 \<le> h_version m fdto"
    "h_totalsize m fdto \<le> 2147483600" "apart m fdt fdto (h_totalsize m fdto)"
  using assms by (simp_all add: two_trees_def overlay_ok_def)

lemma overlay_ok_frame:
  assumes o: "overlay_ok m fdto" and w: "writes_only m m' a n" "fdto + h_totalsize m fdto \<le> a \<or> a + n \<le> fdto"
  shows "overlay_ok m' fdto" "h_totalsize m' fdto = h_totalsize m fdto"
proof -
  have t: "40 \<le> h_totalsize m fdto" using o by (simp add: overlay_ok_def)
  have h: "hdr m' fdto k = hdr m fdto k" if "0 \<le> k" "k \<le> 36" for k
    using that t w fdt32_ld_frame [OF w(1), of "fdto + k"] by (auto simp: hdr_def)
  then show "h_totalsize m' fdto = h_totalsize m fdto" by simp
  show "overlay_ok m' fdto" using o h writes_only_mapped [OF w(1)] by (simp add: overlay_ok_def blob_def)
qed

lemma two_trees_edits:
  assumes t: "two_trees m fdt fdto" and e: "edits m m' fdt"
  shows "two_trees m' fdt fdto"
proof -
  note d = two_treesD [OF t]
  have w: "writes_only m m' fdt (h_totalsize m fdt)" "rw_ok m' fdt" "h_totalsize m' fdt \<le> h_totalsize m fdt"
    using e by (simp_all add: edits_def)
  have "fdto + h_totalsize m fdto \<le> fdt \<or> fdt + h_totalsize m fdt \<le> fdto" using d(6) by simp
  from overlay_ok_frame [OF d(2) w(1) this] w d(6) show ?thesis by (auto simp: two_trees_def)
qed

lemma overlay_string:
  assumes t: "two_trees m fdt fdto" and s: "string_in m fdto p s"
  shows "c_string m p s" "apart m fdt p (int (length s) + 1)" "int (length s) \<le> 2147483600"
proof -
  note d = two_treesD [OF t]
  have b: "0 < fdto" "fdto + h_totalsize m fdto \<le> 4294967296" using d(3) by (simp_all add: blob_def)
  have p: "cstr_at m p s" "fdto \<le> p" "p + int (length s) < fdto + h_totalsize m fdto"
    using s by (simp_all add: string_in_def)
  show "int (length s) \<le> 2147483600" using p d(5) by simp
  then show "c_string m p s" using p b string_in_last_word [OF d(3) s] by (simp add: c_string_def)
  show "apart m fdt p (int (length s) + 1)" using p d(6) by auto
qed

lemma getprop_by_offset_spec:
  assumes b: "blob m fdt" and v: "16 \<le> h_version m fdt" and p: "prop_at m fdt off"
  shows "\<exists>a nm n. fdt_getprop_by_offset m fdt off True = Some (a, nm, n) \<and>
    (a = 0 \<and> n < 0 \<or> (\<exists>q s. nm = Some q \<and> string_in m fdt q s \<and> a = prop_addr m fdt off + 12 \<and>
       n = sfield m fdt (off + 4) \<and> 0 \<le> n \<and> fdt \<le> a \<and> a + n \<le> fdt + h_totalsize m fdt))"
proof -
  from fdt_get_string_spec [OF b, of "to_s32 (sfield m fdt (off + 8))"] obtain q k where
    g: "fdt_get_string m fdt (to_s32 (sfield m fdt (off + 8))) = Some (q, k)"
      "q = 0 \<and> k < 0 \<or> (\<exists>s. q \<noteq> 0 \<and> string_in m fdt q s \<and> k = int (length s))" by blast
  note d = data_addr_spec(1) [OF b p] data_addr_spec(3) [OF b p v]
  note pb = prop_at_bounds [OF b p] and bb = blob_bounds [OF b]
  have rg: "fdt \<le> prop_addr m fdt off + 12"
    "prop_addr m fdt off + 12 + sfield m fdt (off + 4) \<le> fdt + h_totalsize m fdt"
    using pb bb by (simp_all add: struct_fits_def)
  from g(2) show ?thesis
  proof (elim disjE exE conjE)
    assume "q = 0" "k < 0"
    with g(1) show ?thesis using prop_at_reads [OF b p] by (simp add: fdt_getprop_by_offset_def)
  next
    fix s assume "q \<noteq> 0" "string_in m fdt q s"
    with g(1) d rg pb(3) show ?thesis using prop_at_reads [OF b p]
      by (auto simp: fdt_getprop_by_offset_def)
  qed
qed

lemma apply_properties_spec:
  assumes target: "target \<le> INT32_MAX"
  shows "two_trees m fdt fdto \<Longrightarrow> off < 0 \<or> prop_at m fdto off \<Longrightarrow>
    \<exists>ret m'. apply_properties m fdt target fdto off = Some (ret, m') \<and> edits m m' fdt"
proof (induction "nat (INT32_MAX - off)" arbitrary: m off rule: less_induct)
  case less
  note d = two_treesD [OF less.prems(1)]
  show ?case
  proof (cases "off < 0")
    case True
    then show ?thesis using edits_refl [OF d(1)] by (subst apply_properties.simps) simp
  next
    case False
    with less.prems(2) have p: "prop_at m fdto off" by simp
    note pb = prop_at_bounds [OF d(3) p]
    from getprop_by_offset_spec [OF d(3,4) p] obtain a nm n where g:
      "fdt_getprop_by_offset m fdto off True = Some (a, nm, n)"
      "a = 0 \<and> n < 0 \<or> (\<exists>q s. nm = Some q \<and> string_in m fdto q s \<and> a = prop_addr m fdto off + 12 \<and>
         n = sfield m fdto (off + 4) \<and> 0 \<le> n \<and> fdto \<le> a \<and> a + n \<le> fdto + h_totalsize m fdto)" by blast
    from g(2) show ?thesis
    proof (elim disjE exE conjE)
      assume "n < 0"
      with g(1) False edits_refl [OF d(1)] show ?thesis by (subst apply_properties.simps) simp
    next
      fix q s assume s: "nm = Some q" "string_in m fdto q s" "0 \<le> n" "fdto \<le> a" "a + n \<le> fdto + h_totalsize m fdto"
      note st = overlay_string [OF less.prems(1) s(2)]
      have "mapped m a n" using blob_mapped_tail [OF d(3) s(4,5)] .
      then have "mapped m a (int (nat n))" using s(3) by simp
      from load_bytes_mapped [OF this] obtain bs where bs: "bytes_at m a bs" "length bs = nat n"
        by (auto simp: load_bytes_Some)
      have n: "int (length bs) = n" using bs(2) s(3) by simp
      have l: "int (length bs) \<le> 2147483600" using n s(3-5) d(5) by simp
      have ap: "apart m fdt a (int (length bs))" using s(4,5) d(6) n by auto
      from setprop_spec [OF d(1) target st(1,2) l bs(1) ap] obtain r m1 where
        r: "fdt_setprop m fdt target q a n = Some (r, m1)" "rw_result m m1 fdt r" by (auto simp: n)
      have e: "edits m m1 fdt" using r(2) by (simp add: rw_result_def)
      show ?thesis
      proof (cases "r = 0")
        case r0: False
        with g(1) s(1,3) r(1) e False show ?thesis by (subst apply_properties.simps) simp
      next
        case r0: True
        have t1: "two_trees m1 fdt fdto" by (rule two_trees_edits [OF less.prems(1) e])
        have o: "off \<le> INT32_MAX" using pb by simp
        from fdt_next_property_offset_spec [OF two_treesD(3) [OF t1] o] obtain o' where
          o': "fdt_next_property_offset m1 fdto off = Some o'" "o' < 0 \<or> off < o' \<and> prop_at m1 fdto o'" by blast
        have "\<exists>ret m'. apply_properties m1 fdt target fdto o' = Some (ret, m') \<and> edits m1 m' fdt"
        proof (cases "o' < 0")
          case True
          then show ?thesis using edits_refl [OF two_treesD(1) [OF t1]] by (subst apply_properties.simps) simp
        next
          case False
          with o'(2) have "off < o'" "prop_at m1 fdto o'" by simp_all
          with prop_at_bounds(2) [OF two_treesD(3) [OF t1] this(2)] t1 show ?thesis by (intro less.hyps) auto
        qed
        then obtain ret m' where w: "apply_properties m1 fdt target fdto o' = Some (ret, m')" "edits m1 m' fdt"
          by blast
        have "apply_properties m fdt target fdto off = apply_properties m1 fdt target fdto o'"
          using g(1) s(1,3) r(1) r0 False o'(1) by (subst apply_properties.simps) simp
        with w edits_trans [OF e w(2)] show ?thesis by simp
      qed
    qed
  qed
qed

lemma merge_node_spec:
  assumes t: "two_trees m fdt fdto" and target: "target \<le> INT32_MAX" and s: "string_in m fdto name nm"
  shows "\<exists>nnode m'. merge_node m fdt target name = Some (nnode, m') \<and> edits m m' fdt \<and> nnode \<le> INT32_MAX"
proof -
  note st = overlay_string [OF t s] and d = two_treesD [OF t]
  from add_subnode_spec [OF d(1) target st] obtain r m1 where
    r: "fdt_add_subnode m fdt target name = Some (r, m1)" "rw_result m m1 fdt r" "r \<le> INT32_MAX" by blast
  have e: "edits m m1 fdt" using r(2) by (simp add: rw_result_def)
  show ?thesis
  proof (cases "r = - FDT_ERR_EXISTS")
    case False
    with r e show ?thesis by (simp add: merge_node_def)
  next
    case True
    have r1: "rw_ok m1 fdt" using e by (simp add: edits_def)
    have n1: "c_string m1 name nm" by (rule edits_frame(2) [OF e st(1,2)])
    have l: "int (length nm) \<le> INT32_MAX" using st(3) by simp
    from subnode_offset_total [OF r1 c_string_bytes(1) [OF n1] l target] obtain x where
      "fdt_subnode_offset m1 fdt target name = Some x" "x \<le> INT32_MAX"
      using c_string_strlen [OF n1] c_string_bytes(5) [OF n1] by (auto simp: fdt_subnode_offset_def)
    with True r(1) e show ?thesis by (simp add: merge_node_def)
  qed
qed

text \<open>What is done to one node of the overlay: its place in the base tree, its properties.\<close>

definition merge_enter :: "mem \<Rightarrow> int \<Rightarrow> int \<Rightarrow> int \<Rightarrow> int \<Rightarrow> (int \<times> int \<times> mem) option" where
  "merge_enter m fdt fdto target child = do {
     (name, _) \<leftarrow> fdt_get_name m fdto child;
     (nnode, m) \<leftarrow> merge_node m fdt target name;
     if nnode < 0 then Some (nnode, nnode, m)
     else do {
       property \<leftarrow> fdt_first_property_offset m fdto child;
       (ret, m) \<leftarrow> apply_properties m fdt nnode fdto property;
       Some (ret, nnode, m) } }"

lemma overlay_name:
  assumes o: "overlay_ok m fdto" and n: "node_at m fdto child" "0 \<le> child" "child \<le> INT32_MAX"
  shows "\<exists>p s. fdt_get_name m fdto child = Some (p, int (length s)) \<and> string_in m fdto p s"
proof -
  have b: "blob m fdto" and v: "16 \<le> h_version m fdto" using o by (simp_all add: overlay_ok_def)
  have pr: "fdt_ro_probe m fdto = Some (h_totalsize m fdto)" "0 \<le> h_totalsize m fdto"
    using o by (simp_all add: overlay_ok_def blob_def fdt_ro_probe_def blob_simps [OF b])
  from n obtain nx where t: "fdt_next_tag m fdto child = Some (FDT_BEGIN_NODE, nx)" "child mod 4 = 0"
    "tag_at m fdto child FDT_BEGIN_NODE nx" by (auto simp: node_at_def)
  have "fdt_check_node_offset m fdto child = Some nx" "0 \<le> nx"
    using t n(2) tag_at_bounds [OF b t(3)] by (simp_all add: fdt_check_node_offset_def)
  with fdt_get_name_spec [OF b n(3) v] pr obtain p k where g: "fdt_get_name m fdto child = Some (p, k)"
    "p = 0 \<and> k < 0 \<or> (\<exists>s. p \<noteq> 0 \<and> string_in m fdto p s \<and> k = int (length s))" by blast
  have "p \<noteq> 0"
  proof
    assume p: "p = 0"
    have "p = fdto + h_off_struct m fdto + child + 4"
      using g(1) pr \<open>fdt_check_node_offset m fdto child = Some nx\<close> \<open>0 \<le> nx\<close> v
      by (auto simp: fdt_get_name_def fdt_offset_ptr_raw_def blob_simps [OF b] bind_eq_Some_conv Let_def)
    with p n(2) blob_bounds [OF b] show False by simp
  qed
  with g show ?thesis by auto
qed

interpretation merge: subnode_walk "\<lambda>m target child. apply_subnodes m fdt target fdto child"
  "\<lambda>m target child. merge_enter m fdt fdto target child" fdto "\<lambda>m. two_trees m fdt fdto"
  "\<lambda>target. target \<le> INT32_MAX" "\<lambda>m m'. edits m m' fdt" for fdt fdto
proof unfold_locales
  fix m :: mem and c child :: int
  show "apply_subnodes m fdt c fdto child =
      (if child \<ge> 0 then do {
         (ret, c', m) \<leftarrow> merge_enter m fdt fdto c child;
         (ret, m) \<leftarrow> (if ret \<noteq> 0 then Some (ret, m)
            else do { d \<leftarrow> fdt_first_subnode m fdto child; apply_subnodes m fdt c' fdto d });
         if ret \<noteq> 0 then Some (ret, m) else do { d \<leftarrow> fdt_next_subnode m fdto child; apply_subnodes m fdt c fdto d } }
       else Some (0, m))"
    by (subst apply_subnodes.simps)
       (auto simp: merge_enter_def split_def intro!: arg_cong2 [of _ _ _ _ Option.bind] split: Option.bind_splits)
next
  fix m :: mem and c child :: int
  assume t: "two_trees m fdt fdto" and c: "c \<le> INT32_MAX" and n: "node_at m fdto child" "0 \<le> child" "child \<le> INT32_MAX"
  from overlay_name [OF two_treesD(2) [OF t] n] obtain p s where
    p: "fdt_get_name m fdto child = Some (p, int (length s))" "string_in m fdto p s" by blast
  from merge_node_spec [OF t c p(2)] obtain nn m1 where
    nn: "merge_node m fdt c p = Some (nn, m1)" "edits m m1 fdt" "nn \<le> INT32_MAX" by blast
  have t1: "two_trees m1 fdt fdto" by (rule two_trees_edits [OF t nn(2)])
  from fdt_first_property_offset_spec [OF two_treesD(3) [OF t1] n(3)] obtain f where
    f: "fdt_first_property_offset m1 fdto child = Some f" "f < 0 \<or> prop_at m1 fdto f" by blast
  from apply_properties_spec [OF nn(3) t1 f(2)] obtain ret m' where
    a: "apply_properties m1 fdt nn fdto f = Some (ret, m')" "edits m1 m' fdt" by blast
  show "\<exists>ret c' m'. merge_enter m fdt fdto c child = Some (ret, c', m') \<and> two_trees m' fdt fdto \<and>
      edits m m' fdt \<and> (ret = 0 \<longrightarrow> c' \<le> INT32_MAX)"
    using p(1) nn f(1) a t1 edits_trans [OF nn(2) a(2)] two_trees_edits [OF t1 a(2)]
    by (cases "nn < 0") (simp_all add: merge_enter_def)
next
  show "two_trees m fdt fdto \<Longrightarrow> blob m fdto" for m by (rule two_treesD)
  show "two_trees m fdt fdto \<Longrightarrow> edits m m fdt" for m by (rule edits_refl, rule two_treesD)
  show "edits m m1 fdt \<Longrightarrow> edits m1 m' fdt \<Longrightarrow> edits m m' fdt" for m m1 m' by (rule edits_trans)
qed

lemma apply_node_edits:
  assumes t: "two_trees m fdt fdto" and target: "target \<le> INT32_MAX" and node: "node \<le> INT32_MAX"
  shows "\<exists>ret m'. overlay_apply_node m fdt target fdto node = Some (ret, m') \<and> edits m m' fdt"
proof -
  from fdt_first_property_offset_spec [OF two_treesD(3) [OF t] node] obtain f where
    f: "fdt_first_property_offset m fdto node = Some f" "f < 0 \<or> prop_at m fdto f" by blast
  from apply_properties_spec [OF target t f(2)] obtain ret m1 where
    a: "apply_properties m fdt target fdto f = Some (ret, m1)" "edits m m1 fdt" by blast
  have t1: "two_trees m1 fdt fdto" by (rule two_trees_edits [OF t a(2)])
  from merge.walk_below [OF t1 target node] obtain ret' m' where
    w: "do { d \<leftarrow> fdt_first_subnode m1 fdto node; apply_subnodes m1 fdt target fdto d } = Some (ret', m')"
      "two_trees m' fdt fdto" "edits m1 m' fdt" by blast
  show ?thesis
  proof (cases "ret = 0")
    case False
    with f(1) a show ?thesis by (simp add: overlay_apply_node_def)
  next
    case True
    with f(1) a(1) w(1) have "overlay_apply_node m fdt target fdto node = Some (ret', m')"
      by (simp add: overlay_apply_node_def)
    with edits_trans [OF a(2) w(3)] show ?thesis by simp
  qed
qed

section \<open>Raising phandles\<close>

lemma to_u32_sum:
  assumes "0 \<le> x" "x \<le> 2 * UINT32_MAX"
  shows "to_u32 x = (if x \<le> UINT32_MAX then x else x - 4294967296)"
proof (cases "x \<le> UINT32_MAX")
  case False
  then have "(x - 4294967296) mod 4294967296 = x - 4294967296" using assms by (intro mod_pos_pos_trivial) simp_all
  with False show ?thesis by (simp add: to_u32_def)
qed (simp add: assms to_u32_id)

lemma phandle_add_offset_spec:
  assumes b: "blob m fdt" and v: "16 \<le> h_version m fdt" and node: "node \<le> INT32_MAX" and n: "c_string m name nm"
    and d: "0 \<le> delta" "delta \<le> UINT32_MAX"
  shows "\<exists>a l r m'. fdt_getprop m fdt node name = Some (a, l) \<and>
    overlay_phandle_add_offset m fdt node name delta = Some (r, m') \<and>
    (if a = 0 then r = l \<and> r < 0 \<and> m' = m
     else fdt + h_off_struct m fdt + 12 \<le> a \<and> a + l \<le> fdt + h_totalsize m fdt \<and>
       (if l \<noteq> 4 then r = - FDT_ERR_BADPHANDLE \<and> m' = m
        else \<exists>val. fdt32_ld m a = Some val \<and>
          (if UINT32_MAX \<le> val + delta then r = - FDT_ERR_NOPHANDLES \<and> m' = m
           else r = 0 \<and> fdt32_ld m' a = Some (val + delta) \<and> writes_only m m' a 4)))"
proof -
  obtain ps e where ps: "props_of m fdt node ps e" using props_of_exists [OF b node] by blast
  obtain a l where l: "lookup m fdt nm ps e = (a, l)" by force
  have g: "fdt_getprop m fdt node name = Some (a, l)" using fdt_getprop_lookup [OF b ps n] l by simp
  from lookup_range [OF b ps v l] show ?thesis
  proof (elim disjE conjE bexE)
    assume "a = 0" "l < 0"
    with g show ?thesis by (simp add: overlay_phandle_add_offset_def)
  next
    fix p assume al: "fdt < a" "a + l \<le> fdt + h_totalsize m fdt" and p: "prop_at m fdt p" "a = prop_addr m fdt p + 12"
    have low: "fdt + h_off_struct m fdt + 12 \<le> a" using p(2) prop_at_bounds(1) [OF b p(1)] by simp
    have a0: "a \<noteq> 0" using al(1) blob_bounds [OF b] by simp
    show ?thesis
    proof (cases "l = 4")
      case False
      with g al low a0 show ?thesis by (simp add: overlay_phandle_add_offset_def)
    next
    case True
    with al have al: "fdt < a" "a + 4 \<le> fdt + h_totalsize m fdt" "l = 4" by simp_all
    have mp: "mapped m a 4" using blob_mapped_tail [OF b, of a 4] al by simp
    then obtain val where val: "fdt32_ld m a = Some val" using fdt32_ld_mapped by blast
    note vr = fdt32_ld_range [OF val]
    have ov: "to_u32 (val + delta) < val \<or> to_u32 (val + delta) = UINT32_MAX \<longleftrightarrow> UINT32_MAX \<le> val + delta"
      using vr d to_u32_sum [of "val + delta"] by auto
    show ?thesis
    proof (cases "UINT32_MAX \<le> val + delta")
      case True
      with g al low a0 val ov show ?thesis by (simp add: overlay_phandle_add_offset_def)
    next
      case nov: False
      have u: "to_u32 (val + delta) = val + delta" using nov vr d by (simp add: to_u32_id)
      obtain m' where m': "fdt32_set m a (val + delta) = Some m'" "writes_only m m' a 4"
        "fdt32_ld m' a = Some (to_u32 (val + delta))" by (rule fdt32_set_ok [OF mp])
      have "uint (word_of_int (val + delta) :: u32) = val + delta"
        by (subst uint_word_of_int_u32) (rule u)
      then have "fdt32_st m a (word_of_int (val + delta)) = Some m'" using m'(1) by (simp add: fdt32_st_eq)
      with g al low a0 val ov nov m'(2,3) u show ?thesis by (simp add: overlay_phandle_add_offset_def)
    qed
    qed
  qed
qed

text \<open>What the walk that raises phandles relies on: the overlay, its body behind the header, and the names.\<close>

definition phandles_ok :: "mem \<Rightarrow> literals \<Rightarrow> int \<Rightarrow> bool" where
  "phandles_ok m lit fdto \<longleftrightarrow> overlay_ok m fdto \<and> 28 \<le> h_off_struct m fdto \<and>
     (\<forall>n \<in> {''phandle'', ''linux,phandle''}. c_string m (lit n) (lit_bytes n) \<and>
        apart m fdto (lit n) (int (length (lit_bytes n)) + 1))"

definition body_edit :: "mem \<Rightarrow> mem \<Rightarrow> int \<Rightarrow> bool" where
  "body_edit m m' fdto \<longleftrightarrow> h_totalsize m' fdto = h_totalsize m fdto \<and>
     writes_only m m' (fdto + 40) (h_totalsize m fdto - 40)"

lemma body_edit_refl: "body_edit m m fdto"
  by (simp add: body_edit_def)

lemma body_edit_trans: "body_edit m m1 fdto \<Longrightarrow> body_edit m1 m' fdto \<Longrightarrow> body_edit m m' fdto"
  by (auto simp: body_edit_def intro: writes_only_trans)

lemma phandles_ok_body:
  assumes p: "phandles_ok m lit fdto" and w: "writes_only m m' a n" "fdto + 40 \<le> a" "a + n \<le> fdto + h_totalsize m fdto"
  shows "phandles_ok m' lit fdto" "body_edit m m' fdto"
proof -
  have o: "overlay_ok m fdto" using p by (simp add: phandles_ok_def)
  have h: "hdr m' fdto k = hdr m fdto k" if "0 \<le> k" "k \<le> 36" for k
    using that w fdt32_ld_frame [OF w(1), of "fdto + k"] by (auto simp: hdr_def)
  have o': "overlay_ok m' fdto" using o h writes_only_mapped [OF w(1)] by (simp add: overlay_ok_def blob_def)
  have "c_string m' (lit nm) (lit_bytes nm)"
    if c: "c_string m (lit nm) (lit_bytes nm)" and ap: "apart m fdto (lit nm) (int (length (lit_bytes nm)) + 1)" for nm
    by (rule c_string_frame [OF c w(1)]) (use ap w in auto)
  with p o' h show "phandles_ok m' lit fdto" by (auto simp: phandles_ok_def)
  show "body_edit m m' fdto" using w h writes_only_mono [OF w(1), of "fdto + 40"] by (simp add: body_edit_def)
qed

lemma phandle_step:
  assumes p: "phandles_ok m lit fdto" and node: "node \<le> INT32_MAX" and d: "0 \<le> delta" "delta \<le> UINT32_MAX"
    and nm: "nm \<in> {''phandle'', ''linux,phandle''}"
  shows "\<exists>r m'. overlay_phandle_add_offset m fdto node (lit nm) delta = Some (r, m') \<and>
    phandles_ok m' lit fdto \<and> body_edit m m' fdto"
proof -
  have o: "overlay_ok m fdto" "blob m fdto" "16 \<le> h_version m fdto" "28 \<le> h_off_struct m fdto"
    and n: "c_string m (lit nm) (lit_bytes nm)" using p nm by (auto simp: phandles_ok_def overlay_ok_def)
  from phandle_add_offset_spec [OF o(2,3) node n d] obtain a l r m' where
    r: "overlay_phandle_add_offset m fdto node (lit nm) delta = Some (r, m')"
    and c: "m' = m \<or> fdto + h_off_struct m fdto + 12 \<le> a \<and> a + 4 \<le> fdto + h_totalsize m fdto \<and> writes_only m m' a 4"
    by (elim exE conjE) (auto split: if_splits)
  have r2: "m' = m \<or> fdto + 40 \<le> a \<and> a + 4 \<le> fdto + h_totalsize m fdto \<and> writes_only m m' a 4"
    using c o(4) by auto
  from r2 phandles_ok_body [OF p, of m' a 4] body_edit_refl p show ?thesis
    unfolding r by auto
qed

lemma adjust_own_spec:
  assumes p: "phandles_ok m lit fdto" and node: "node \<le> INT32_MAX" and d: "0 \<le> delta" "delta \<le> UINT32_MAX"
  shows "\<exists>r m'. adjust_own_phandles m lit fdto node delta = Some (r, m') \<and> phandles_ok m' lit fdto \<and> body_edit m m' fdto"
proof -
  from phandle_step [OF p node d, of "''phandle''"] obtain r m1 where
    r: "overlay_phandle_add_offset m fdto node (lit ''phandle'') delta = Some (r, m1)" "phandles_ok m1 lit fdto"
      "body_edit m m1 fdto" by auto
  from phandle_step [OF r(2) node d, of "''linux,phandle''"] obtain r' m' where
    r': "overlay_phandle_add_offset m1 fdto node (lit ''linux,phandle'') delta = Some (r', m')" "phandles_ok m' lit fdto"
      "body_edit m1 m' fdto" by auto
  show ?thesis using r r' body_edit_trans [OF r(3) r'(3)]
    by (cases "r \<noteq> 0 \<and> r \<noteq> - FDT_ERR_NOTFOUND") (auto simp: adjust_own_phandles_def)
qed

interpretation adjust: subnode_walk "\<lambda>m (_ :: unit) child. adjust_subnodes m lit fdto child delta"
  "\<lambda>m _ child. map_option (\<lambda>(r, m). (r, (), m)) (adjust_own_phandles m lit fdto child delta)" fdto
  "\<lambda>m. phandles_ok m lit fdto \<and> 0 \<le> delta \<and> delta \<le> UINT32_MAX" "\<lambda>_. True" "\<lambda>m m'. body_edit m m' fdto"
  for lit fdto delta
proof unfold_locales
  fix m :: mem and child :: int
  show "adjust_subnodes m lit fdto child delta =
      (if child \<ge> 0 then do {
         (ret, c', m) \<leftarrow> map_option (\<lambda>(r, m). (r, (), m)) (adjust_own_phandles m lit fdto child delta);
         (ret, m) \<leftarrow> (if ret \<noteq> 0 then Some (ret, m)
            else do { d \<leftarrow> fdt_first_subnode m fdto child; adjust_subnodes m lit fdto d delta });
         if ret \<noteq> 0 then Some (ret, m) else do { d \<leftarrow> fdt_next_subnode m fdto child; adjust_subnodes m lit fdto d delta } }
       else Some (0, m))"
    by (subst adjust_subnodes.simps)
       (auto simp: split_def map_conv_bind_option intro!: arg_cong2 [of _ _ _ _ Option.bind] split: Option.bind_splits)
next
  fix m :: mem and c :: unit and child :: int
  assume "phandles_ok m lit fdto \<and> 0 \<le> delta \<and> delta \<le> UINT32_MAX" "child \<le> INT32_MAX"
  with adjust_own_spec [of m lit fdto child delta]
  show "\<exists>ret c' m'. map_option (\<lambda>(r, m). (r, (), m)) (adjust_own_phandles m lit fdto child delta) = Some (ret, c', m') \<and>
      (phandles_ok m' lit fdto \<and> 0 \<le> delta \<and> delta \<le> UINT32_MAX) \<and> body_edit m m' fdto \<and> (ret = 0 \<longrightarrow> True)" by auto
qed (auto simp: phandles_ok_def overlay_ok_def body_edit_refl intro: body_edit_trans)

section \<open>A sample overlay\<close>

text \<open>
  At 8192 a base tree with an empty root and room for more, at 4096 an overlay whose fragment has
  \<open>target-path = "/"\<close> and a node \<open>n\<close> with \<open>phandle = 1\<close>; the names of the literals start at 256.
\<close>

definition demo_base :: "u8 list list" where
  "demo_base =
    [[208, 13, 254, 237, 0, 0, 0, 176, 0, 0, 0, 56, 0, 0, 0, 72],
     [0, 0, 0, 40, 0, 0, 0, 17, 0, 0, 0, 16, 0, 0, 0, 0],
     [0, 0, 0, 0, 0, 0, 0, 16, 0, 0, 0, 0, 0, 0, 0, 0],
     [0, 0, 0, 0, 0, 0, 0, 0, 0, 0, 0, 1, 0, 0, 0, 0],
     [0, 0, 0, 2, 0, 0, 0, 9, 0, 0, 0, 0, 0, 0, 0, 0],
     [0, 0, 0, 0, 0, 0, 0, 0, 0, 0, 0, 0, 0, 0, 0, 0],
     [0, 0, 0, 0, 0, 0, 0, 0, 0, 0, 0, 0, 0, 0, 0, 0],
     [0, 0, 0, 0, 0, 0, 0, 0, 0, 0, 0, 0, 0, 0, 0, 0],
     [0, 0, 0, 0, 0, 0, 0, 0, 0, 0, 0, 0, 0, 0, 0, 0],
     [0, 0, 0, 0, 0, 0, 0, 0, 0, 0, 0, 0, 0, 0, 0, 0],
     [0, 0, 0, 0, 0, 0, 0, 0, 0, 0, 0, 0, 0, 0, 0, 0]]"

definition demo_overlay :: "u8 list list" where
  "demo_overlay =
    [[208, 13, 254, 237, 0, 0, 0, 168, 0, 0, 0, 56, 0, 0, 0, 148],
     [0, 0, 0, 40, 0, 0, 0, 17, 0, 0, 0, 16, 0, 0, 0, 0],
     [0, 0, 0, 20, 0, 0, 0, 92, 0, 0, 0, 0, 0, 0, 0, 0],
     [0, 0, 0, 0, 0, 0, 0, 0, 0, 0, 0, 1, 0, 0, 0, 0],
     [0, 0, 0, 1, 102, 0, 0, 0, 0, 0, 0, 3, 0, 0, 0, 2],
     [0, 0, 0, 0, 47, 0, 0, 0, 0, 0, 0, 1, 95, 95, 111, 118],
     [101, 114, 108, 97, 121, 95, 95, 0, 0, 0, 0, 1, 110, 0, 0, 0],
     [0, 0, 0, 3, 0, 0, 0, 4, 0, 0, 0, 12, 0, 0, 0, 1],
     [0, 0, 0, 2, 0, 0, 0, 2, 0, 0, 0, 2, 0, 0, 0, 2],
     [0, 0, 0, 9, 116, 97, 114, 103, 101, 116, 45, 112, 97, 116, 104, 0],
     [112, 104, 97, 110, 100, 108, 101, 0, 0, 0, 0, 0, 0, 0, 0, 0]]"

definition demo_names :: "u8 list list" where
  "demo_names =
    [[112, 104, 97, 110, 100, 108, 101, 0, 108, 105, 110, 117, 120, 44, 112, 104],
     [97, 110, 100, 108, 101, 0, 116, 97, 114, 103, 101, 116, 0, 116, 97, 114],
     [103, 101, 116, 45, 112, 97, 116, 104, 0, 95, 95, 111, 118, 101, 114, 108],
     [97, 121, 95, 95, 0, 47, 95, 95, 108, 111, 99, 97, 108, 95, 102, 105],
     [120, 117, 112, 115, 95, 95, 0, 47, 95, 95, 102, 105, 120, 117, 112, 115],
     [95, 95, 0, 47, 95, 95, 115, 121, 109, 98, 111, 108, 115, 95, 95, 0],
     [95, 95, 115, 121, 109, 98, 111, 108, 115, 95, 95, 0, 0, 0, 0, 0]]"

definition demo_two_mem :: mem where
  "demo_two_mem a = (if 8192 \<le> a then mem_rows demo_base 8192 a else if 4096 \<le> a then mem_rows demo_overlay 4096 a
     else mem_rows demo_names 256 a)"

definition demo_names_at :: literals where
  "demo_names_at s = (if s = ''phandle'' then 256 else if s = ''linux,phandle'' then 264
     else if s = ''target'' then 278 else if s = ''target-path'' then 285 else if s = ''__overlay__'' then 297
     else if s = ''/__local_fixups__'' then 309 else if s = ''/__fixups__'' then 327
     else if s = ''/__symbols__'' then 339 else 352)"

lemma demo_two_fields:
  "hdr demo_two_mem 8192 0 = FDT_MAGIC" "h_totalsize demo_two_mem 8192 = 176" "h_off_struct demo_two_mem 8192 = 56"
  "h_off_rsvmap demo_two_mem 8192 = 40" "h_size_struct demo_two_mem 8192 = 16" "h_off_strings demo_two_mem 8192 = 72"
  "h_size_strings demo_two_mem 8192 = 0" "h_version demo_two_mem 8192 = 17" "h_last_comp demo_two_mem 8192 = 16"
  "hdr demo_two_mem 4096 0 = FDT_MAGIC" "h_totalsize demo_two_mem 4096 = 168" "h_off_struct demo_two_mem 4096 = 56"
  "h_version demo_two_mem 4096 = 17" "h_last_comp demo_two_mem 4096 = 16"
  by code_simp+

lemma demo_two_mapped:
  "mapped demo_two_mem 8192 176" "mapped demo_two_mem 4096 168" "mapped demo_two_mem 256 112"
proof -
  have "mapped (mem_rows demo_base 8192) 8192 176" "mapped (mem_rows demo_overlay 4096) 4096 176"
    "mapped (mem_rows demo_names 256) 256 112"
    using mapped_mem_rows [of demo_base 8192] mapped_mem_rows [of demo_overlay 4096] mapped_mem_rows [of demo_names 256]
    by (simp_all add: demo_base_def demo_overlay_def demo_names_def)
  then show "mapped demo_two_mem 8192 176" "mapped demo_two_mem 4096 168" "mapped demo_two_mem 256 112"
    by (auto simp: mapped_def demo_two_mem_def)
qed

lemma demo_two_trees: "two_trees demo_two_mem 8192 4096"
  by (simp add: two_trees_def overlay_ok_def rw_ok_def blob_def demo_two_fields mapped_sub [OF demo_two_mapped(1)]
      mapped_sub [OF demo_two_mapped(2)])

lemma demo_phandle_name: "c_string demo_two_mem 256 (lit_bytes ''phandle'')"
    "c_string demo_two_mem 264 (lit_bytes ''linux,phandle'')"
proof -
  have "cstr_at demo_two_mem 256 (lit_bytes ''phandle'')" "cstr_at demo_two_mem 264 (lit_bytes ''linux,phandle'')"
    by code_simp+
  then show "c_string demo_two_mem 256 (lit_bytes ''phandle'')"
    "c_string demo_two_mem 264 (lit_bytes ''linux,phandle'')"
    by (simp_all add: c_string_def last_word_mapped_def lit_bytes_def mapped_sub [OF demo_two_mapped(3)])
qed

section \<open>Properties\<close>

text \<open>Merging a node of an overlay into the base tree always returns: every node and property below it
  is visited, whatever the overlay and the blocks of the base tree contain; only bytes of the base
  tree are written, and its blocks stay in order inside its old size, also when an error stops
  the merge half way.\<close>

theorem apply_node_safe:
  assumes t: "two_trees m fdt fdto" and target: "target \<le> INT32_MAX" and node: "node \<le> INT32_MAX"
  shows "\<exists>ret m'. overlay_apply_node m fdt target fdto node = Some (ret, m') \<and> two_trees m' fdt fdto \<and>
    h_totalsize m' fdt \<le> h_totalsize m fdt \<and> writes_only m m' fdt (h_totalsize m fdt)"
  using apply_node_edits [OF assms] two_trees_edits [OF t] by (auto simp: edits_def)

theorem apply_node_safe_witness:
  "\<exists>m'. overlay_apply_node demo_two_mem 8192 0 4096 32 = Some (0, m') \<and> two_trees m' 8192 4096 \<and>
     writes_only demo_two_mem m' 8192 176"
proof -
  have "map_option fst (overlay_apply_node demo_two_mem 8192 0 4096 32) = Some 0" by code_simp
  with apply_node_safe [OF demo_two_trees, of 0 32] show ?thesis by (auto simp: demo_two_fields)
qed

text \<open>C34: raising the phandles of an overlay always returns and writes only behind the header of the overlay,
  so every later query still accepts it; the phandles already raised when an error occurs stay raised.\<close>

theorem adjust_phandles_returns:
  assumes p: "phandles_ok m lit fdto" and d: "0 \<le> delta" "delta \<le> UINT32_MAX"
  shows "\<exists>ret m'. overlay_adjust_local_phandles m lit fdto delta = Some (ret, m') \<and> overlay_ok m' fdto \<and>
    writes_only m m' (fdto + 40) (h_totalsize m fdto - 40)"
proof -
  have z: "(0::int) \<le> INT32_MAX" by simp
  from adjust_own_spec [OF p z d] obtain r m1 where
    r: "adjust_own_phandles m lit fdto 0 delta = Some (r, m1)" "phandles_ok m1 lit fdto" "body_edit m m1 fdto" by blast
  have ok: "phandles_ok m1 lit fdto \<and> 0 \<le> delta \<and> delta \<le> UINT32_MAX" using r(2) d by simp
  from adjust.walk_below [OF ok TrueI z] obtain ret m' where
    w: "do { c \<leftarrow> fdt_first_subnode m1 fdto 0; adjust_subnodes m1 lit fdto c delta } = Some (ret, m')"
      "phandles_ok m' lit fdto" "body_edit m1 m' fdto" by blast
  show ?thesis
  proof (cases "r = 0")
    case False
    with r show ?thesis
      by (simp add: overlay_adjust_local_phandles_def overlay_adjust_node_phandles_def phandles_ok_def body_edit_def)
  next
    case True
    with r(1) w(1) have "overlay_adjust_local_phandles m lit fdto delta = Some (ret, m')"
      by (simp add: overlay_adjust_local_phandles_def overlay_adjust_node_phandles_def)
    with w(2) body_edit_trans [OF r(3) w(3)] show ?thesis by (simp add: phandles_ok_def body_edit_def)
  qed
qed

theorem adjust_phandles_returns_witness:
  "\<exists>m'. overlay_adjust_local_phandles demo_two_mem demo_names_at 4096 5 = Some (0, m') \<and> overlay_ok m' 4096 \<and>
     fdt32_ld m' 4220 = Some 6"
proof -
  have e: "map_option (\<lambda>(r, m). (r, fdt32_ld m 4220)) (overlay_adjust_local_phandles demo_two_mem demo_names_at 4096 5) =
      Some (0, Some 6)" by code_simp
  have "phandles_ok demo_two_mem demo_names_at 4096"
    using demo_two_trees demo_phandle_name
    by (simp add: phandles_ok_def two_trees_def demo_two_fields demo_names_at_def lit_bytes_def)
  from adjust_phandles_returns [OF this, of 5] e show ?thesis by auto
qed

text \<open>Raising one phandle adds the offset, and nothing else changes, unless the sum would reach
  \<open>0xffffffff\<close>, the property is missing, or it is not one cell: then the error is returned and nothing
  is written.\<close>

theorem phandle_add_offset_exact:
  assumes "blob m fdt" "16 \<le> h_version m fdt" "node \<le> INT32_MAX" "c_string m name nm" "0 \<le> delta" "delta \<le> UINT32_MAX"
  shows "\<exists>a l r m'. fdt_getprop m fdt node name = Some (a, l) \<and>
    overlay_phandle_add_offset m fdt node name delta = Some (r, m') \<and>
    (if a = 0 then r = l \<and> r < 0 \<and> m' = m
     else if l \<noteq> 4 then r = - FDT_ERR_BADPHANDLE \<and> m' = m
     else \<exists>val. fdt32_ld m a = Some val \<and>
       (if UINT32_MAX \<le> val + delta then r = - FDT_ERR_NOPHANDLES \<and> m' = m
        else r = 0 \<and> fdt32_ld m' a = Some (val + delta) \<and> writes_only m m' a 4))"
  using phandle_add_offset_spec [OF assms] by (elim exE conjE) (auto split: if_splits)

theorem phandle_add_offset_exact_witness:
  "\<exists>m'. overlay_phandle_add_offset demo_two_mem 4096 48 256 5 = Some (0, m') \<and> fdt32_ld m' 4220 = Some 6"
proof -
  have g: "fdt_getprop demo_two_mem 4096 48 256 = Some (4220, 4)" "fdt32_ld demo_two_mem 4220 = Some 1" by code_simp+
  from phandle_add_offset_exact [OF two_treesD(3,4) [OF demo_two_trees] _ demo_phandle_name(1), of 48 5] g
  show ?thesis by auto
qed

text \<open>C40: an overlay can be applied once.  A call of \<open>fdt_overlay_apply\<close> that returns ends in one of three ways:
  the base tree is rejected by \<open>FDT_RO_PROBE\<close>, or else the overlay is, and nothing is written; or both are
  accepted, and then the overlay's magic is gone whatever the result is, and the base tree's as well when the
  result is an error, so that no query accepts them any more.\<close>

theorem overlay_apply_spoils:
  assumes run: "fdt_overlay_apply m lit fdt fdto tmp = Some (ret, m')"
    and apart: "fdt + 4 \<le> fdto \<or> fdto + 4 \<le> fdt"
  shows "\<exists>n. fdt_ro_probe m fdt = Some n \<and>
    (if n < 0 then ret = n \<and> m' = m
     else \<exists>k. fdt_ro_probe m fdto = Some k \<and>
       (if k < 0 then ret = k \<and> m' = m
        else hdr m' fdto 0 = UINT32_MAX \<and> (\<forall>t. fdt_ro_probe m' fdto = Some t \<longrightarrow> t < 0) \<and>
          (ret \<noteq> 0 \<longrightarrow> hdr m' fdt 0 = UINT32_MAX \<and> (\<forall>t. fdt_ro_probe m' fdt = Some t \<longrightarrow> t < 0))))"
proof -
  have set: "fdt32_ld b p = Some UINT32_MAX" if "fdt32_set a p UINT32_MAX = Some b" for a b p
  proof -
    from that have "mapped a p 4" by (auto simp: fdt32_set_def mem_simps)
    from fdt32_set_ok [OF this, of UINT32_MAX] that show ?thesis by (auto simp: to_u32_id)
  qed
  have spoilt: "hdr a p 0 = UINT32_MAX \<and> (\<forall>t. fdt_ro_probe a p = Some t \<longrightarrow> t < 0)"
    if "fdt32_ld a p = Some UINT32_MAX" for a p
    using that by (auto simp: hdr_def fdt_ro_probe_def fdt_magic_def bind_eq_Some_conv split: if_splits)
  from run obtain n where n: "fdt_ro_probe m fdt = Some n" by (auto simp: fdt_overlay_apply_def bind_eq_Some_conv)
  show ?thesis
  proof (cases "n < 0")
    case True
    with run n show ?thesis by (simp add: fdt_overlay_apply_def)
  next
    case n0: False
    from run n n0 obtain k where k: "fdt_ro_probe m fdto = Some k" by (auto simp: fdt_overlay_apply_def bind_eq_Some_conv)
    show ?thesis
    proof (cases "k < 0")
      case True
      with run n n0 k show ?thesis by (simp add: fdt_overlay_apply_def)
    next
      case False
      from run n n0 k False obtain m1 m2 where m: "fdt32_set m1 fdto UINT32_MAX = Some m2"
        "if ret = 0 then m' = m2 else fdt32_set m2 fdt UINT32_MAX = Some m'"
        by (auto simp: fdt_overlay_apply_def fdt_set_magic_def bind_eq_Some_conv split: if_splits)
      have "fdt32_ld m' fdto = Some UINT32_MAX"
        using m set [OF m(1)] fdt32_set_frame [of m2 fdt _ m' fdto] apart by (auto split: if_splits)
      moreover have "fdt32_ld m' fdt = Some UINT32_MAX" if "ret \<noteq> 0" using m(2) that set by simp
      ultimately show ?thesis using spoilt [of m' fdto] spoilt [of m' fdt] n n0 k False by simp
    qed
  qed
qed

theorem overlay_apply_spoils_witness:
  "\<exists>ret m'. fdt_overlay_apply (demo_two_mem(8251 \<mapsto> 7)) demo_names_at 8192 4096 200 = Some (ret, m') \<and> ret \<noteq> 0 \<and>
     hdr m' 4096 0 = UINT32_MAX \<and> hdr m' 8192 0 = UINT32_MAX"
proof -
  let ?m = "demo_two_mem(8251 \<mapsto> 7)"
  have e: "map_option fst (fdt_overlay_apply ?m demo_names_at 8192 4096 200) = Some (- FDT_ERR_BADSTRUCTURE)"
    "fdt_ro_probe ?m 8192 = Some 176" "fdt_ro_probe ?m 4096 = Some 168" by code_simp+
  from e(1) obtain m' where m': "fdt_overlay_apply ?m demo_names_at 8192 4096 200 = Some (- FDT_ERR_BADSTRUCTURE, m')"
    by auto
  from overlay_apply_spoils [OF m'] m' e(2,3) show ?thesis by auto
qed

end
