(* ===== verification/Fdt_Path.thy ===== *)
theory Fdt_Path
  imports Fdt_Built
begin

text \<open>
  Subnodes and paths in a tree that the sequential writer has built: the walk of
  \<open>fdt_subnode_offset_namelen\<close> finds the first child whose name fits, and \<open>fdt_path_offset\<close> follows the
  components of a path through the tree as data.
\<close>

section \<open>Names of nodes\<close>

text \<open>A requested name fits a node with that name, and without a unit address also one that has it in front
  of its at sign.\<close>

definition name_fits :: "u8 list \<Rightarrow> u8 list \<Rightarrow> bool" where
  "name_fits nd nm \<longleftrightarrow> take (length nm) nd = nm \<and>
     (length nd = length nm \<or> nd ! length nm = 64 \<and> 64 \<notin> set nm)"

lemma memchr_at_sign:
  assumes "bytes_at m s nm" "0 < s"
  shows "\<exists>a. memchr m s 64 (length nm) = Some a \<and> (a = 0 \<longleftrightarrow> 64 \<notin> set nm)"
proof (cases "64 \<in> set nm")
  case True
  then obtain us vs where nm: "nm = us @ 64 # vs" "64 \<notin> set us" by (meson split_list_first)
  then have "bytes_at m s (us @ [64])" using assms(1) by (simp add: bytes_at_append)
  from memchr_found [OF this nm(2), of "length nm"] nm assms(2) show ?thesis by simp
next
  case False
  with memchr_absent [OF assms(1) False] show ?thesis by simp
qed

lemma nodename_eq_spec:
  assumes g: "fdt_get_name m fdt off = Some (p, int (length nd))" "p \<noteq> 0" and c: "cstr_at m p nd"
    and n: "bytes_at m s nm" "int (length nm) \<le> INT32_MAX" "0 < s" "\<bar>p - s\<bar> < 4294967296"
  shows "fdt_nodename_eq m fdt off s (int (length nm)) = Some (name_fits nd nm)"
proof (cases "length nd < length nm")
  case True
  then have "take (length nm) nd \<noteq> nm" by auto
  with True g show ?thesis by (simp add: fdt_nodename_eq_def name_fits_def)
next
  case False
  define t where "t = take (length nm) nd"
  have t: "bytes_at m p t" "length t = length nm" using c False by (simp_all add: t_def cstr_at_iff bytes_at_take)
  then have e: "memcmp m p s (length nm) = Some 0 \<longleftrightarrow> t = nm"
    using memcmp_zero_iff [OF t(1) n(1)] n(4) by simp
  obtain c' where c': "memcmp m p s (length nm) = Some c'"
    using memcmp_spec [OF t(1) n(1)] t(2) by auto
  have z: "load8 m (p + int (length nm)) = Some (if length nd = length nm then 0 else nd ! length nm)"
    using c False by (auto simp: cstr_at_iff bytes_at_iff load8_def)
  have nz: "nd ! length nm \<noteq> 0" if "length nd \<noteq> length nm"
  proof -
    have "nd ! length nm \<in> set nd" using that False by simp
    then show ?thesis using c by (auto simp: cstr_at_iff)
  qed
  from memchr_at_sign [OF n(1,3)] obtain a where
    a: "memchr m s 64 (length nm) = Some a" "a = 0 \<longleftrightarrow> 64 \<notin> set nm" by blast
  show ?thesis
    using g n(2) False e c' z nz a
    by (auto simp: fdt_nodename_eq_def name_fits_def to_u32_id t_def [symmetric])
qed

section \<open>The walk over the items behind a node\<close>

text \<open>Where the search for a subnode ends, item by item: at an open item of depth 1 whose name fits, or at
  the end of the parent.\<close>

fun find_at :: "int \<Rightarrow> nat \<Rightarrow> u8 list \<Rightarrow> sw_item list \<Rightarrow> int" where
  "find_at off d nm [] = - FDT_ERR_NOTFOUND"
| "find_at off d nm (Open_item nd # is) =
     (if d = 0 \<and> name_fits nd nm then off else find_at (off + item_size (Open_item nd)) (Suc d) nm is)"
| "find_at off d nm (Prop_item n b # is) = find_at (off + item_size (Prop_item n b)) d nm is"
| "find_at off d nm (Close_item # is) =
     (case d of 0 \<Rightarrow> - FDT_ERR_NOTFOUND | Suc d' \<Rightarrow> find_at (off + item_size Close_item) d' nm is)"

definition walk_on :: "mem \<Rightarrow> int \<Rightarrow> int \<Rightarrow> int \<Rightarrow> int \<Rightarrow> int \<Rightarrow> int option" where
  "walk_on m fdt off d s k = do {
     (p, d) \<leftarrow> fdt_next_node_loop m fdt off (Some d); fdt_subnode_offset_loop m fdt p (the d) s k }"

lemma finished_nodename:
  assumes f: "finished m fdt is" and i: "is = pre @ Open_item nd # js"
    and n: "bytes_at m s nm" "int (length nm) \<le> INT32_MAX" "0 < s" "s < 4294967296"
  shows "fdt_nodename_eq m fdt (items_size pre) s (int (length nm)) = Some (name_fits nd nm)"
proof -
  note fd = finishedD [OF f] and z = items_size_nonneg [of pre]
  note bb = blob_bounds [OF fd(2)]
  have at: "item_at (str_ref m (fdt + h_off_strings m fdt) (h_size_strings m fdt)) m
      (fdt + h_off_struct m fdt + items_size pre) (Open_item nd)" using finished_split(2) [OF f i] by simp
  have fits: "struct_fits m fdt (items_size pre) (item_size (Open_item nd))"
    using fd(7,8,9) i z items_size_nonneg(1) [of js] bb by (simp add: struct_fits_def)
  note nm = open_item_name [OF fd(1) z(2) fits at]
  have c: "cstr_at m (fdt + h_off_struct m fdt + items_size pre + 4) nd" using nm(2) by (simp add: string_in_def)
  show ?thesis
    by (rule nodename_eq_spec [OF nm(1,3) c n(1-3)]) (use nm(2) rw_bounds [OF fd(1)] n(3,4) in \<open>auto simp: string_in_def\<close>)
qed

lemma walk_find:
  assumes f: "finished m fdt is" and n: "bytes_at m s nm" "int (length nm) \<le> INT32_MAX" "0 < s" "s < 4294967296"
  shows "is = pre @ js \<Longrightarrow> int d + int (length js) \<le> INT32_MAX \<Longrightarrow>
    walk_on m fdt (items_size pre) (int d) s (int (length nm)) = Some (find_at (items_size pre) d nm js)"
proof (induction js arbitrary: pre d)
  case Nil
  have "fdt_next_tag m fdt (items_size pre) = Some (FDT_END, items_size pre + 4)"
    using finished_split(1) [OF f Nil(1)] by simp
  then show ?case
    using items_size_nonneg(1) [of pre]
    by (simp add: walk_on_def fdt_next_node_loop.simps [of m fdt "items_size pre"]
      fdt_subnode_offset_loop.simps [of m fdt "- FDT_ERR_NOTFOUND"])
next
  case (Cons i js)
  note tag = finished_tag(2) [OF f Cons.prems(1)] and z = items_size_nonneg [of pre]
  note step = fdt_next_node_loop.simps [of m fdt "items_size pre"]
  define nx where "nx = items_size pre + item_size i"
  have nx: "0 \<le> nx" "items_size (pre @ [i]) = nx" using z item_size_pos(1) [of i] by (simp_all add: nx_def)
  have i': "is = (pre @ [i]) @ js" using Cons.prems(1) by simp
  have ih: "walk_on m fdt nx (int e) s (int (length nm)) = Some (find_at nx e nm js)" if "e \<le> Suc d" for e
    using Cons.IH [OF i', of e] Cons.prems(2) that nx(2) by simp
  show ?case
  proof (cases i)
    case (Open_item nd)
    have eq: "fdt_nodename_eq m fdt (items_size pre) s (int (length nm)) = Some (name_fits nd nm)"
      by (rule finished_nodename [OF f _ n]) (use Cons.prems(1) Open_item in simp)
    have chk: "fdt_check_node_offset m fdt (items_size pre) = Some nx"
      using tag z Open_item by (simp add: fdt_check_node_offset_def nx_def)
    have "fdt_next_node m fdt (items_size pre) (Some (1 + int d)) = fdt_next_node_loop m fdt nx (Some (1 + int d))"
      using chk z nx by (simp add: fdt_next_node_def)
    then have "fdt_subnode_offset_loop m fdt (items_size pre) (1 + int d) s (int (length nm)) =
      Some (find_at (items_size pre) d nm (i # js))"
      using eq z ih [of "Suc d"] Open_item
      by (cases "d = 0") (simp_all add: fdt_subnode_offset_loop.simps [of m fdt "items_size pre"] walk_on_def nx_def add.commute)
    then show ?thesis
      using tag Open_item Cons.prems(2) by (simp add: walk_on_def step to_s32_id add.commute)
  next
    case (Prop_item pn bs)
    then show ?thesis using tag ih [of d] by (simp add: walk_on_def step nx_def)
  next
    case Close_item
    show ?thesis
    proof (cases d)
      case 0
      then show ?thesis
        using tag Close_item nx
        by (simp add: walk_on_def step nx_def to_s32_id fdt_subnode_offset_loop.simps [of m fdt _ "- 1"])
    next
      case (Suc e)
      then show ?thesis
        using tag Close_item ih [of e] Cons.prems(2) by (simp add: walk_on_def step nx_def to_s32_id)
    qed
  qed
qed

lemma finished_subnode:
  assumes f: "finished m fdt is" and i: "is = pre @ Open_item nd # js"
    and n: "bytes_at m s nm" "int (length nm) \<le> INT32_MAX" "0 < s" "s < 4294967296"
  shows "fdt_subnode_offset_namelen m fdt (items_size pre) s (int (length nm)) =
    Some (find_at (items_size (pre @ [Open_item nd])) 0 nm js)"
proof -
  note fd = finishedD [OF f] and tag = finished_tag(2) [OF f i] and z = items_size_nonneg [of pre]
  define nx where "nx = items_size (pre @ [Open_item nd])"
  have nx: "0 \<le> nx" "items_size pre + item_size (Open_item nd) = nx"
    using items_size_nonneg(1) [of "pre @ [Open_item nd]"] by (simp_all add: nx_def)
  have "int (length js) \<le> INT32_MAX"
    using items_length [of js] i fd(7,8,9) rw_bounds [OF fd(1)] z item_size_pos(1) [of "Open_item nd"] by simp
  then have w: "walk_on m fdt nx 0 s (int (length nm)) = Some (find_at nx 0 nm js)"
    using walk_find [OF f n, of "pre @ [Open_item nd]" js 0] i by (simp add: nx_def)
  have "fdt_next_node m fdt (items_size pre) (Some 0) = fdt_next_node_loop m fdt nx (Some 0)"
    using tag z nx by (simp add: fdt_next_node_def fdt_check_node_offset_def del: item_size.simps)
  then have "fdt_subnode_offset_loop m fdt (items_size pre) 0 s (int (length nm)) = Some (find_at nx 0 nm js)"
    using w z by (simp add: fdt_subnode_offset_loop.simps [of m fdt "items_size pre" 0] walk_on_def)
  then show ?thesis
    using rw_ro_probe [OF fd(1)] rw_bounds [OF fd(1)] by (simp add: fdt_subnode_offset_namelen_def nx_def)
qed

section \<open>Children and paths in a tree as data\<close>

fun find_child :: "int \<Rightarrow> u8 list \<Rightarrow> dtree list \<Rightarrow> (int \<times> dtree) option" where
  "find_child off nm [] = None"
| "find_child off nm (DNode nd ps ts # us) =
     (if name_fits nd nm then Some (off, DNode nd ps ts)
      else find_child (off + items_size (tree_items (DNode nd ps ts))) nm us)"

fun find_path :: "int \<Rightarrow> dtree \<Rightarrow> u8 list list \<Rightarrow> (int \<times> dtree) option" where
  "find_path off t [] = Some (off, t)"
| "find_path off (DNode nd ps ts) (c # cs) =
     (case find_child (off + items_size (Open_item nd # prop_items ps)) c ts of
        None \<Rightarrow> None | Some (q, u) \<Rightarrow> find_path q u cs)"

lemma find_at_props: "find_at off d nm (prop_items ps @ js) = find_at (off + items_size (prop_items ps)) d nm js"
  by (induction ps arbitrary: off) (auto simp: add.assoc)

lemma find_at_tree:
  "find_at off (Suc d) nm (tree_items t @ js) = find_at (off + items_size (tree_items t)) (Suc d) nm js"
proof (induction t arbitrary: off d js rule: tree_items.induct)
  case (1 nd ps ts)
  have "find_at e (Suc d') nm (concat (map tree_items us) @ ks) =
      find_at (e + items_size (concat (map tree_items us))) (Suc d') nm ks" if "set us \<subseteq> set ts" for us e d' ks
    using that
  proof (induction us arbitrary: e)
    case (Cons u us)
    then show ?case using 1 [of u e d' "concat (map tree_items us) @ ks"] by (simp add: add.assoc)
  qed simp
  from this [of ts] show ?case by (simp add: find_at_props add.assoc)
qed

lemma find_at_trees:
  "find_at off (Suc d) nm (concat (map tree_items us) @ ks) =
   find_at (off + items_size (concat (map tree_items us))) (Suc d) nm ks"
  by (induction us arbitrary: off) (simp_all add: find_at_tree add.assoc)

lemma find_at_children:
  "find_at off 0 nm (concat (map tree_items ts) @ Close_item # js) =
   (case find_child off nm ts of None \<Rightarrow> - FDT_ERR_NOTFOUND | Some (q, t) \<Rightarrow> q)"
proof (induction off nm ts rule: find_child.induct)
  case (2 off nm nd ps ts us)
  then show ?case by (simp add: find_at_props find_at_trees add.assoc)
qed simp

lemma find_child_split:
  "find_child off nm ts = Some (q, t) \<Longrightarrow>
   \<exists>us vs. ts = us @ t # vs \<and> q = off + items_size (concat (map tree_items us))"
proof (induction off nm ts rule: find_child.induct)
  case (2 off nm nd ps ts us)
  show ?case
  proof (cases "name_fits nd nm")
    case True
    with 2(2) show ?thesis by (intro exI [of _ "[]"] exI [of _ us]) auto
  next
    case False
    with 2 obtain ws vs where "us = ws @ t # vs"
      "q = off + items_size (tree_items (DNode nd ps ts)) + items_size (concat (map tree_items ws))" by auto
    then show ?thesis by (intro exI [of _ "DNode nd ps ts # ws"] exI [of _ vs]) auto
  qed
qed simp

text \<open>A path is followed by its components, each behind a slash.\<close>

abbreviation slashed :: "u8 list list \<Rightarrow> u8 list" where
  "slashed cs \<equiv> concat (map (\<lambda>c. 47 # c) cs)"

definition path_bytes :: "u8 list list \<Rightarrow> u8 list" where
  "path_bytes cs = (if cs = [] then [47] else slashed cs)"

definition component :: "u8 list \<Rightarrow> bool" where
  "component c \<longleftrightarrow> c \<noteq> [] \<and> 47 \<notin> set c"

lemma next_component:
  assumes b: "bytes_at m p (slashed (c # cs))" "0 < p" and c: "component c"
  defines "stop \<equiv> p + int (length (slashed (c # cs)))"
  shows "skip_slashes m p stop = Some (Some (p + 1))" "bytes_at m (p + 1) c" "p + 1 < stop"
    "\<exists>q. memchr m (p + 1) 47 (nat (stop - (p + 1))) = Some q \<and>
       (if q = 0 then stop else q) = p + 1 + int (length c)"
proof -
  obtain x xs where x: "c = x # xs" using c by (cases c) (auto simp: component_def)
  have bb: "m p = Some 47" "bytes_at m (p + 1) c" "bytes_at m (p + 1 + int (length c)) (slashed cs)"
    using b(1) by (simp_all add: bytes_at_append)
  have n47: "x \<noteq> 47" "47 \<notin> set c" using c x by (auto simp: component_def)
  show "bytes_at m (p + 1) c" by (rule bb(2))
  show st: "p + 1 < stop" using x by (simp add: stop_def)
  show "skip_slashes m p stop = Some (Some (p + 1))"
    using bb(1,2) x st n47(1) by (simp add: skip_slashes.simps [of m p] skip_slashes.simps [of m "p + 1"] load8_def)
  show "\<exists>q. memchr m (p + 1) 47 (nat (stop - (p + 1))) = Some q \<and> (if q = 0 then stop else q) = p + 1 + int (length c)"
  proof (cases cs)
    case Nil
    then have "nat (stop - (p + 1)) = length c" "stop = p + 1 + int (length c)" by (simp_all add: stop_def)
    with memchr_absent [OF bb(2) n47(2)] show ?thesis by simp
  next
    case (Cons d ds)
    then have "bytes_at m (p + 1) (c @ [47])" using bb(2,3) by (simp add: bytes_at_append)
    from memchr_found [OF this n47(2), of "nat (stop - (p + 1))"] Cons b(2) show ?thesis by (simp add: stop_def)
  qed
qed

lemma tree_children:
  assumes f: "finished m fdt is" and i: "is = pre @ tree_items (DNode nd ps ts) @ post"
    and n: "bytes_at m s nm" "int (length nm) \<le> INT32_MAX" "0 < s" "s < 4294967296"
  shows "fdt_subnode_offset_namelen m fdt (items_size pre) s (int (length nm)) =
    Some (case find_child (items_size pre + items_size (Open_item nd # prop_items ps)) nm ts of
            None \<Rightarrow> - FDT_ERR_NOTFOUND | Some (q, t) \<Rightarrow> q)"
proof -
  have "is = pre @ Open_item nd # prop_items ps @ concat (map tree_items ts) @ Close_item # post" using i by simp
  from finished_subnode [OF f this n] show ?thesis by (simp add: find_at_props find_at_children add.assoc)
qed

lemma path_walk_find:
  assumes f: "finished m fdt is"
  shows "is = pre @ tree_items t @ post \<Longrightarrow> bytes_at m p (slashed cs) \<Longrightarrow> \<forall>c \<in> set cs. component c \<Longrightarrow>
    0 < p \<Longrightarrow> p + int (length (slashed cs)) < 4294967296 \<Longrightarrow> int (length (slashed cs)) \<le> INT32_MAX \<Longrightarrow>
    fdt_path_walk m fdt (items_size pre) p (p + int (length (slashed cs))) =
      Some (case find_path (items_size pre) t cs of None \<Rightarrow> - FDT_ERR_NOTFOUND | Some (q, u) \<Rightarrow> q) \<and>
    (\<forall>q u. find_path (items_size pre) t cs = Some (q, u) \<longrightarrow>
       (\<exists>pre' post'. is = pre' @ tree_items u @ post' \<and> q = items_size pre'))"
proof (induction cs arbitrary: p pre t post)
  case Nil
  then show ?case by (auto simp: fdt_path_walk.simps)
next
  case (Cons c cs)
  obtain nd ps ts where t: "t = DNode nd ps ts" by (cases t)
  have c: "component c" using Cons.prems(3) by simp
  define stop where "stop = p + int (length (slashed (c # cs)))"
  note nc = next_component [OF Cons.prems(2,4) c, folded stop_def]
  define q where "q = p + 1 + int (length c)"
  have stop: "stop = q + int (length (slashed cs))" by (simp add: stop_def q_def)
  have i: "is = pre @ tree_items (DNode nd ps ts) @ post" using Cons.prems(1) t by simp
  have "int (length c) \<le> INT32_MAX" "0 < p + 1" "p + 1 < 4294967296" using Cons.prems(4-6) by simp_all
  note sub = tree_children [OF f i nc(2) this]
  define base where "base = items_size pre + items_size (Open_item nd # prop_items ps)"
  from nc(4) obtain w where w: "memchr m (p + 1) 47 (nat (stop - (p + 1))) = Some w" "(if w = 0 then stop else w) = q"
    by (auto simp: q_def)
  have qp: "q - (p + 1) = int (length c)" "p < stop" using nc(3) by (simp_all add: q_def)
  have walk: "fdt_path_walk m fdt (items_size pre) p stop =
     (case find_child base c ts of None \<Rightarrow> Some (- FDT_ERR_NOTFOUND)
      | Some (o', u) \<Rightarrow> if o' < 0 then Some o' else fdt_path_walk m fdt o' q stop)"
    using sub unfolding fdt_path_walk.simps [of m fdt "items_size pre" p] base_def [symmetric]
    by (simp only: nc(1) w qp Let_def if_True option.case bind.bind_lunit) (auto split: option.split)
  show ?case
  proof (cases "find_child base c ts")
    case None
    then show ?thesis using walk t by (simp add: stop_def base_def)
  next
    case (Some r)
    obtain o' u where r: "r = (o', u)" by force
    from find_child_split Some r obtain us vs where
      uv: "ts = us @ u # vs" "o' = base + items_size (concat (map tree_items us))" by blast
    define pre' where "pre' = pre @ Open_item nd # prop_items ps @ concat (map tree_items us)"
    have pre': "o' = items_size pre'" "0 \<le> o'"
      using uv(2) items_size_nonneg(1) [of pre'] by (simp_all add: pre'_def base_def add.assoc)
    have "is = pre' @ tree_items u @ concat (map tree_items vs) @ Close_item # post"
      using i uv(1) by (simp add: pre'_def)
    moreover have "bytes_at m q (slashed cs)" using Cons.prems(2) by (simp add: bytes_at_append q_def add.assoc)
    ultimately have "fdt_path_walk m fdt (items_size pre') q (q + int (length (slashed cs))) =
      Some (case find_path (items_size pre') u cs of None \<Rightarrow> - FDT_ERR_NOTFOUND | Some (q, u) \<Rightarrow> q) \<and>
    (\<forall>q u'. find_path (items_size pre') u cs = Some (q, u') \<longrightarrow>
       (\<exists>pre' post'. is = pre' @ tree_items u' @ post' \<and> q = items_size pre'))"
      by (rule Cons.IH) (use Cons.prems(3-6) in \<open>simp_all add: q_def\<close>)
    then show ?thesis
      unfolding stop_def [symmetric] using walk Some r pre' t by (simp add: base_def stop [symmetric])
  qed
qed

section \<open>Properties\<close>

fun node_props :: "dtree \<Rightarrow> (u8 list \<times> u8 list) list" where
  "node_props (DNode nd ps ts) = ps"

lemma finished_path:
  assumes f: "finished m fdt (tree_items t)" and c: "c_string m path (path_bytes cs)" "\<forall>c \<in> set cs. component c"
  shows "fdt_path_offset m lit fdt path =
      Some (case find_path 0 t cs of None \<Rightarrow> - FDT_ERR_NOTFOUND | Some (q, u) \<Rightarrow> q)"
    "find_path 0 t cs = Some (q, u) \<Longrightarrow> \<exists>pre post. tree_items t = pre @ tree_items u @ post \<and> q = items_size pre"
proof -
  note fd = finishedD [OF f] and cb = c_string_bytes [OF c(1)]
  define k where "k = int (length (path_bytes cs))"
  have k: "0 < k" "k \<le> 2147483640" "path + k < 4294967296" "0 < path"
    using c(1) by (cases cs; simp add: k_def c_string_def path_bytes_def)+
  have b47: "m path = Some 47" using cb(1) by (cases cs) (simp_all add: path_bytes_def)
  have whole: "fdt_path_offset m lit fdt path = fdt_path_walk m fdt 0 path (path + k)"
    using c_string_strlen [OF c(1)] cb(5) rw_ro_probe [OF fd(1)] rw_bounds [OF fd(1)] b47 k(1)
    by (simp add: fdt_path_offset_def fdt_path_offset_namelen.simps [of m lit fdt path] k_def load8_def)
  have w: "fdt_path_walk m fdt 0 path (path + k) =
      Some (case find_path 0 t cs of None \<Rightarrow> - FDT_ERR_NOTFOUND | Some (q, u) \<Rightarrow> q) \<and>
    (\<forall>q u. find_path 0 t cs = Some (q, u) \<longrightarrow> (\<exists>pre post. tree_items t = pre @ tree_items u @ post \<and> q = items_size pre))"
  proof (cases "cs = []")
    case True
    then have "k = 1" by (simp add: k_def path_bytes_def)
    then have "fdt_path_walk m fdt 0 path (path + k) = Some 0"
      using b47 by (simp add: fdt_path_walk.simps [of m fdt 0 path] skip_slashes.simps [of m path] load8_def)
    with True show ?thesis by (auto intro!: exI [of _ "[]"])
  next
    case False
    then have p: "path_bytes cs = slashed cs" by (simp add: path_bytes_def)
    show ?thesis
      using path_walk_find [OF f, of "[]" t "[]" path cs] cb(1) c(2) k p by (simp add: k_def)
  qed
  from w whole show "fdt_path_offset m lit fdt path =
      Some (case find_path 0 t cs of None \<Rightarrow> - FDT_ERR_NOTFOUND | Some (q, u) \<Rightarrow> q)" by simp
  from w show "find_path 0 t cs = Some (q, u) \<Longrightarrow> \<exists>pre post. tree_items t = pre @ tree_items u @ post \<and> q = items_size pre"
    by blast
qed

lemma ends_props_children: "ends_props (concat (map tree_items ts) @ Close_item # post)"
proof (cases ts)
  case (Cons t us)
  then show ?thesis by (cases t) simp
qed simp

lemma finished_tree_reads:
  assumes f: "finished m fdt (tree_items t)" and p: "c_string m path (path_bytes ns)" "\<forall>c \<in> set ns. component c"
    and n: "c_string m name nm"
  shows "case find_path 0 t ns of
      None \<Rightarrow> fdt_path_offset m lit fdt path = Some (- FDT_ERR_NOTFOUND)
    | Some (off, u) \<Rightarrow> fdt_path_offset m lit fdt path = Some off \<and>
        (case find (\<lambda>(n, v). n = nm) (node_props u) of
           None \<Rightarrow> fdt_getprop m fdt off name = Some (0, - FDT_ERR_NOTFOUND)
         | Some (n, v) \<Rightarrow> \<exists>a. fdt_getprop m fdt off name = Some (a, int (length v)) \<and> a \<noteq> 0 \<and> bytes_at m a v)"
proof (cases "find_path 0 t ns")
  case None
  with finished_path(1) [OF f p] show ?thesis by simp
next
  case (Some r)
  obtain off nd ps ts where r: "r = (off, DNode nd ps ts)" by (cases r) (metis dtree.exhaust)
  from finished_path(2) [OF f p] Some r obtain pre post where
    i: "tree_items t = pre @ tree_items (DNode nd ps ts) @ post" "off = items_size pre" by blast
  then have "tree_items t = pre @ Open_item nd # prop_items ps @ (concat (map tree_items ts) @ Close_item # post)" by simp
  from finished_getprop [OF f this ends_props_children n] finished_path(1) [OF f p] Some r i(2) show ?thesis by simp
qed

text \<open>C3: in a tree that the sequential writer has built from a device tree given as data, \<open>fdt_path_offset\<close> finds
  the node that following the components of the path through the data leads to, at every step the first child
  whose name fits with or without its unit address, and \<open>-FDT_ERR_NOTFOUND\<close> when there is none; at the node
  found, \<open>fdt_getprop\<close> returns the value of its first property of the name asked for.\<close>

theorem built_path:
  assumes q: "build_request m buf bufsize flags es cs (tree_items t)" and b: "sw_build m buf bufsize flags es cs = Some (0, m')"
    and p: "c_string m path (path_bytes ns)" "outside buf bufsize path (int (length (path_bytes ns)) + 1)"
      "\<forall>c \<in> set ns. component c"
    and n: "c_string m name nm" "outside buf bufsize name (int (length nm) + 1)"
  shows "case find_path 0 t ns of
      None \<Rightarrow> fdt_path_offset m' lit buf path = Some (- FDT_ERR_NOTFOUND)
    | Some (off, u) \<Rightarrow> fdt_path_offset m' lit buf path = Some off \<and>
        (case find (\<lambda>(n, v). n = nm) (node_props u) of
           None \<Rightarrow> fdt_getprop m' buf off name = Some (0, - FDT_ERR_NOTFOUND)
         | Some (n, v) \<Rightarrow> \<exists>a. fdt_getprop m' buf off name = Some (a, int (length v)) \<and> a \<noteq> 0 \<and> bytes_at m' a v)"
proof -
  from sw_build_spec [OF q] b have f: "finished m' buf (tree_items t)" and w: "writes_only m m' buf bufsize" by auto
  have c: "c_string m' path (path_bytes ns)" "c_string m' name nm"
    by (rule c_string_frame [OF p(1) w], use p(2) in \<open>simp add: outside_def\<close>)
      (rule c_string_frame [OF n(1) w], use n(2) in \<open>simp add: outside_def\<close>)
  from finished_tree_reads [OF f c(1) p(3) c(2)] show ?thesis .
qed

text \<open>A buffer to build in, with \<open>/cpu\<close> at 256, the empty name at 260, \<open>cpu@0\<close> at 264 and \<open>reg\<close> at 272.\<close>

definition path_names :: "u8 list list" where
  "path_names = [[47, 99, 112, 117, 0, 0, 0, 0, 99, 112, 117, 64, 48, 0, 0, 0],
     [114, 101, 103, 0, 0, 0, 0, 0, 0, 0, 0, 0, 0, 0, 0, 0]]"

definition path_buffer :: mem where
  "path_buffer a = (if 4096 \<le> a \<and> a < 8192 then Some 170 else mem_rows path_names 256 a)"

definition cpu_tree :: dtree where
  "cpu_tree = DNode [] [] [DNode [99, 112, 117, 64, 48] [([114, 101, 103], [114, 101, 103, 0])] []]"

lemma path_buffer_names: "c_string path_buffer 256 (path_bytes [[99, 112, 117]])" "c_string path_buffer 260 []"
    "c_string path_buffer 264 [99, 112, 117, 64, 48]" "c_string path_buffer 272 [114, 101, 103]"
    "bytes_at path_buffer 272 [114, 101, 103, 0]"
proof -
  have "mapped (mem_rows path_names 256) 256 32" using mapped_mem_rows [of path_names 256] by (simp add: path_names_def)
  then have m: "mapped path_buffer 256 32" by (auto simp: mapped_def path_buffer_def)
  have "cstr_at path_buffer 256 [47, 99, 112, 117]" "cstr_at path_buffer 260 []"
    "cstr_at path_buffer 264 [99, 112, 117, 64, 48]" "cstr_at path_buffer 272 [114, 101, 103]" by code_simp+
  then show "c_string path_buffer 256 (path_bytes [[99, 112, 117]])" "c_string path_buffer 260 []"
    "c_string path_buffer 264 [99, 112, 117, 64, 48]" "c_string path_buffer 272 [114, 101, 103]"
    by (simp_all add: c_string_def path_bytes_def last_word_mapped_def mapped_sub [OF m])
  show "bytes_at path_buffer 272 [114, 101, 103, 0]" by code_simp
qed

lemma cpu_request:
  "build_request path_buffer 4096 256 0 [] [Begin_call 260, Begin_call 264, Property_call 272 272 4, End_call, End_call]
     (tree_items cpu_tree)"
proof -
  have "mapped path_buffer 4096 256" by (simp add: mapped_def path_buffer_def)
  then show ?thesis
    using path_buffer_names by (simp add: build_request_def names_room_def outside_def cpu_tree_def)
qed

theorem built_path_witness:
  "\<exists>m' a. sw_build path_buffer 4096 256 0 [] [Begin_call 260, Begin_call 264, Property_call 272 272 4, End_call, End_call] =
       Some (0, m') \<and>
     fdt_path_offset m' demo_lit 4096 256 = Some 8 \<and> fdt_getprop m' 4096 8 272 = Some (a, 4) \<and>
     bytes_at m' a [114, 101, 103, 0]"
proof -
  have "60 + 16 * int (length ([] :: (int \<times> int) list)) + items_size (tree_items cpu_tree) +
      names_room (tree_items cpu_tree) \<le> 256"
    by (simp add: items_size_def names_room_def tag_size_def cpu_tree_def)
  from sw_build_room [OF cpu_request this] obtain m' where
    m': "sw_build path_buffer 4096 256 0 [] [Begin_call 260, Begin_call 264, Property_call 272 272 4, End_call, End_call] =
       Some (0, m')" by blast
  have "find_path 0 cpu_tree [[99, 112, 117]] =
      Some (8, DNode [99, 112, 117, 64, 48] [([114, 101, 103], [114, 101, 103, 0])] [])"
    by code_simp
  with built_path [OF cpu_request m' path_buffer_names(1) _ _ path_buffer_names(4), of demo_lit] m' show ?thesis
    by (auto simp: outside_def path_bytes_def component_def)
qed

end
