(* ===== verification/Fdt_Items.thy ===== *)
theory Fdt_Items
  imports Fdt_Path "HOL-Library.AList"
begin

text \<open>
  Edits of \<^verbatim>\<open>libfdt/fdt_rw.c\<close> seen through the data a finished tree holds: an edit of the blob is the
  corresponding edit of the list of items, so that everything else in the tree is as it was.
\<close>

section \<open>Items that are moved\<close>

lemma fdt32_ld_moved: "fdt32_ld (\<lambda>a. m (a + d)) q = fdt32_ld m (q + d)"
  by (simp add: fdt32_ld_def load8_def ac_simps)

lemma item_at_moved: "item_at ref (\<lambda>a. m (a + d)) p i = item_at ref m (p + d) i"
proof -
  have bs: "bytes_at (\<lambda>a. m (a + d)) q bs = bytes_at m (q + d) bs" for q bs
    by (simp add: bytes_at_iff algebra_simps)
  show ?thesis by (cases i) (simp_all add: fdt32_ld_moved bs algebra_simps del: bytes_at.simps)
qed

lemma items_at_moved: "items_at ref (\<lambda>a. m (a + d)) p is = items_at ref m (p + d) is"
  by (induction "is" arbitrary: p) (simp_all add: item_at_moved algebra_simps)

lemma items_at_shift:
  assumes "items_at ref m p is" "\<And>a. p \<le> a \<Longrightarrow> a < p + items_size is \<Longrightarrow> m' (a + d) = m a"
    "\<And>v nm. ref v nm \<Longrightarrow> ref' v nm"
  shows "items_at ref' m' (p + d) is"
  using items_at_frame [OF assms(1), of "\<lambda>a. m' (a + d)" ref'] assms(2,3) by (simp add: items_at_moved)

lemma fdt32_ld_shift:
  assumes "\<And>a. p \<le> a \<Longrightarrow> a < p + 4 \<Longrightarrow> m' (a + d) = m a"
  shows "fdt32_ld m' (p + d) = fdt32_ld m p"
  unfolding fdt32_ld_moved [symmetric] by (rule fdt32_ld_bytes; rule assms) simp_all

lemma str_ref_moved:
  assumes "str_ref m s n v nm" "\<And>i. 0 \<le> i \<Longrightarrow> i < n \<Longrightarrow> m' (s' + i) = m (s + i)" "n \<le> n'"
  shows "str_ref m' s' n' v nm"
proof -
  have v: "0 \<le> v" "v + int (length nm) + 1 \<le> n" "bytes_at m (s + v) (nm @ [0])" using assms(1) by (simp_all add: str_ref_def)
  have "bytes_at m' (s' + v) (nm @ [0])"
    unfolding bytes_at_iff
  proof (intro allI impI)
    fix i assume i: "i < length (nm @ [0])"
    have "m' (s' + (v + int i)) = m (s + (v + int i))" by (rule assms(2)) (use v(1,2) i in simp_all)
    moreover have "m (s + v + int i) = Some ((nm @ [0]) ! i)" using v(3) i unfolding bytes_at_iff by blast
    ultimately show "m' (s' + v + int i) = Some ((nm @ [0]) ! i)" by (simp only: add.assoc)
  qed
  with v assms(3) show ?thesis by (simp add: str_ref_def)
qed

section \<open>A gap in the list of items\<close>

lemma rw_header_ok:
  assumes r: "rw_ok m fdt" and al: "h_off_rsvmap m fdt mod 8 = 0" "h_off_struct m fdt mod 4 = 0"
  shows "header_ok m fdt"
  using rw_bounds [OF r] r al by (simp add: rw_ok_def header_ok_def Let_def fdt_header_size_of_def)

abbreviation name_ref :: "mem \<Rightarrow> int \<Rightarrow> int \<Rightarrow> u8 list \<Rightarrow> bool" where
  "name_ref m fdt \<equiv> str_ref m (fdt + h_off_strings m fdt) (h_size_strings m fdt)"

lemma finished_aligned:
  assumes "finished m fdt is"
  shows "h_off_rsvmap m fdt mod 8 = 0" "h_off_struct m fdt mod 4 = 0"
  using finishedD(3) [OF assms] by (simp_all add: header_ok_def Let_def)

lemma finished_struct_aligned: "finished m fdt is \<Longrightarrow> h_size_struct m fdt mod 4 = 0"
  using items_size_nonneg(2) [of "is"] by (drule_tac finishedD(7)) presburger

text \<open>What was spliced, and the new items written over the place.\<close>

lemma finished_spliced:
  assumes f: "finished m fdt (pre @ old @ post)"
    and s: "struct_spliced m m1 fdt (prop_addr m fdt (items_size pre + k)) u n"
    and w: "writes_only m1 m' (prop_addr m fdt (items_size pre)) (items_size new)"
    and z: "0 \<le> k" "k + u \<le> items_size old" "0 \<le> u" "0 \<le> n" "items_size new = items_size old + n - u"
    and new: "items_at (name_ref m' fdt) m' (prop_addr m' fdt (items_size pre)) new"
  shows "finished m' fdt (pre @ new @ post)"
proof -
  note fd = finishedD [OF f] and b = rw_bounds [OF finishedD(1) [OF f]]
  define P where "P = items_size pre"
  define D where "D = n - u"
  note zz = items_size_nonneg(1) [of pre, folded P_def] items_size_nonneg(1) [of new] items_size_nonneg(1) [of post]
    items_size_nonneg(1) [of old]
  have szs: "h_size_struct m fdt = P + items_size old + items_size post + 4" using fd(7) by (simp add: P_def)
  have in_s: "0 \<le> P + k" "P + k + u \<le> h_size_struct m fdt" using zz z szs by simp_all
  note k1 = struct_spliced_keeps [OF fd(1) s [folded P_def] in_s z(3,4)]
  have sb: "h_off_rsvmap m1 fdt = h_off_rsvmap m fdt" "h_size_strings m1 fdt = h_size_strings m fdt"
    "h_off_strings m1 fdt = h_off_strings m fdt + D"
    using s same_butD [of "{12, 36}" m m1 fdt] by (simp_all add: struct_spliced_def D_def)
  have w1: "writes_only m1 m' (prop_addr m1 fdt P) (items_size new)" using w k1(2) by (simp add: P_def)
  have top: "P + items_size new \<le> h_size_struct m1 fdt" using k1(4) szs z zz by simp
  note k2 = write_keeps [OF k1(1) w1 zz(1,2) top]
  note b1 = rw_bounds [OF k1(1)]
  have lo: "fdt + 40 \<le> prop_addr m1 fdt P" "prop_addr m1 fdt P + items_size new \<le> fdt + h_totalsize m1 fdt"
    using b1 top zz by simp_all
  note bd = rw_body [OF k1(1) w1 lo]
  have h: "h_off_rsvmap m' fdt = h_off_rsvmap m fdt" "h_off_struct m' fdt = h_off_struct m fdt"
    "h_size_strings m' fdt = h_size_strings m fdt" "h_off_strings m' fdt = h_off_strings m fdt + D"
    "h_size_struct m' fdt = h_size_struct m fdt + D" using bd(4) sb k1(2,4) by (simp_all add: D_def)
  have low: "m' a = m a" if "fdt + 40 \<le> a" "a < prop_addr m fdt P" for a
  proof -
    have "m1 a = m a" using s that z(1) by (simp add: struct_spliced_def P_def)
    then show ?thesis using writes_only_same [OF w, of a] that by (simp add: P_def)
  qed
  have high: "m' (a + D) = m a" if "prop_addr m fdt (P + items_size old) \<le> a" "a < fdt + rw_end m fdt" for a
  proof -
    have "m1 (a - u + n) = m a" using s that z by (simp add: struct_spliced_def P_def)
    moreover have "m' (a + D) = m1 (a + D)" by (rule writes_only_same [OF w]) (use that z(5) in \<open>simp add: P_def D_def\<close>)
    ultimately show ?thesis by (simp add: D_def algebra_simps)
  qed
  have str: "name_ref m' fdt v nm" if "name_ref m fdt v nm" for v nm
  proof (rule str_ref_moved [OF that])
    fix i assume i: "0 \<le> i" "i < h_size_strings m fdt"
    have "m' (fdt + h_off_strings m fdt + i + D) = m (fdt + h_off_strings m fdt + i)"
      by (rule high) (use i b szs zz in \<open>simp_all add: rw_end_def\<close>)
    then show "m' (fdt + h_off_strings m' fdt + i) = m (fdt + h_off_strings m fdt + i)" by (simp add: h algebra_simps)
  qed (simp add: h)
  have it: "items_at (name_ref m fdt) m (prop_addr m fdt 0) pre"
    "items_at (name_ref m fdt) m (prop_addr m fdt (P + items_size old)) post"
    using fd(10) by (simp_all add: items_at_append P_def add.assoc)
  have "items_at (name_ref m' fdt) m' (prop_addr m fdt 0) pre"
    by (rule items_at_frame [OF it(1) _ str]) (rule low, use b in \<open>simp_all add: P_def\<close>)
  moreover have "items_at (name_ref m' fdt) m' (prop_addr m fdt (P + items_size old) + D) post"
    by (rule items_at_shift [OF it(2) _ str], rule high) (use b szs in \<open>simp_all add: rw_end_def\<close>)
  moreover have "fdt32_ld m' (prop_addr m fdt (P + items_size old + items_size post) + D) =
      fdt32_ld m (prop_addr m fdt (P + items_size old + items_size post))"
    by (rule fdt32_ld_shift, rule high) (use b szs zz in \<open>simp_all add: rw_end_def\<close>)
  moreover have "header_ok m' fdt" using rw_header_ok [OF k2(1)] finished_aligned [OF f] h by simp
  moreover have "h_size_struct m' fdt = items_size (pre @ new @ post) + 4" using h(5) szs z(5) by (simp add: P_def D_def)
  moreover have "prop_addr m fdt (P + items_size old) + D = prop_addr m' fdt (P + items_size new)"
    "prop_addr m fdt (P + items_size old + items_size post) + D = prop_addr m' fdt (items_size (pre @ new @ post))"
    using z(5) h(2) by (simp_all add: D_def P_def)
  moreover have "fdt32_ld m (prop_addr m fdt (P + items_size old + items_size post)) = Some FDT_END"
    using fd(11) by (simp add: P_def add.assoc)
  moreover have "prop_addr m fdt 0 = fdt + h_off_struct m' fdt" "prop_addr m' fdt P = fdt + h_off_struct m' fdt + items_size pre"
    using h(2) by (simp_all add: P_def)
  ultimately show ?thesis
    using k2(1) new unfolding finished_def by (simp only: items_at_append P_def add.assoc simp_thms)
qed

text \<open>More names in the strings block.\<close>

lemma finished_grown:
  assumes f: "finished m fdt is" and r: "rw_ok m' fdt" and s: "same_but {32} m m' fdt"
    and z: "h_size_strings m fdt \<le> h_size_strings m' fdt"
    and same: "\<And>a. fdt + 40 \<le> a \<Longrightarrow> a < fdt + rw_end m fdt \<Longrightarrow> m' a = m a"
  shows "finished m' fdt is"
proof -
  note fd = finishedD [OF f] and b = rw_bounds [OF finishedD(1) [OF f]] and e = rw_end_bounds [OF finishedD(1) [OF f]]
  have h: "h_off_rsvmap m' fdt = h_off_rsvmap m fdt" "h_off_struct m' fdt = h_off_struct m fdt"
    "h_off_strings m' fdt = h_off_strings m fdt" "h_size_struct m' fdt = h_size_struct m fdt"
    using same_butD [OF s] by simp_all
  have "items_at (name_ref m' fdt) m' (prop_addr m fdt 0) is"
    by (rule items_at_frame [of "name_ref m fdt" m])
      (use fd(7,10) b e z h in \<open>auto simp: rw_end_def intro!: same elim!: str_ref_moved\<close>)
  moreover have "fdt32_ld m' (prop_addr m fdt (items_size is)) = fdt32_ld m (prop_addr m fdt (items_size is))"
    by (rule fdt32_ld_bytes; rule same) (use fd(7) b e items_size_nonneg(1) [of "is"] in simp_all)
  moreover have "header_ok m' fdt" using rw_header_ok [OF r] finished_aligned [OF f] h by simp
  ultimately show ?thesis using r fd(7,11) h by (simp add: finished_def)
qed

section \<open>Setting a property\<close>

definition put :: "u8 list \<Rightarrow> u8 list \<Rightarrow> (u8 list \<times> u8 list) list \<Rightarrow> (u8 list \<times> u8 list) list" where
  "put nm bs ps = (if nm \<in> fst ` set ps then AList.update nm bs ps else (nm, bs) # ps)"

lemma put_split: "nm \<notin> fst ` set us \<Longrightarrow> put nm bs (us @ (nm, b) # vs) = us @ (nm, bs) # vs"
proof -
  have "nm \<notin> fst ` set us \<Longrightarrow> AList.update nm bs (us @ (nm, b) # vs) = us @ (nm, bs) # vs"
    by (induction us) auto
  then show "nm \<notin> fst ` set us \<Longrightarrow> ?thesis" by (simp add: put_def)
qed

lemma first_of_name: "nm \<in> fst ` set ps \<Longrightarrow> \<exists>us b vs. ps = us @ (nm, b) # vs \<and> nm \<notin> fst ` set us"
proof (induction ps)
  case (Cons p ps)
  obtain n b where p: "p = (n, b)" by force
  show ?case
  proof (cases "n = nm")
    case True
    then show ?thesis unfolding p by (intro exI [of _ "[]"]) auto
  next
    case False
    with Cons p obtain us b' vs where "ps = us @ (nm, b') # vs" "nm \<notin> fst ` set us" by auto
    then show ?thesis unfolding p using False by (intro exI [of _ "(n, b) # us"]) auto
  qed
qed simp

lemma find_name: "find (\<lambda>(n, b). n = nm) ps = None \<longleftrightarrow> nm \<notin> fst ` set ps"
  by (induction ps) auto

lemma props_from_unique: "props_from m fdt off ps r \<Longrightarrow> props_from m fdt off qs s \<Longrightarrow> ps = qs \<and> r = s"
proof (induction arbitrary: qs s rule: props_from.induct)
  case (stop r)
  then show ?case by (auto elim: props_from.cases)
next
  case (step off off' ps r)
  from step.prems step.hyps(1) obtain off'' qs' where
    q: "qs = off # qs'" "fdt_next_property_offset m fdt off = Some off''" "props_from m fdt off'' qs' s"
    by (auto elim: props_from.cases)
  with step.IH [of qs' s] step.hyps(2) show ?case by simp
qed

lemma props_of_unique: "props_of m fdt node ps r \<Longrightarrow> props_of m fdt node qs s \<Longrightarrow> ps = qs"
  unfolding props_of_def using props_from_unique by fastforce

text \<open>The first property of a name is found where it was written.\<close>

lemma find_first:
  assumes f: "finished m fdt is"
  shows "is = pre @ prop_items us @ Prop_item nm b # js \<Longrightarrow> nm \<notin> fst ` set us \<Longrightarrow>
    find (named m fdt nm) (item_offsets (items_size pre) (prop_items us @ Prop_item nm b # ks)) =
      Some (items_size (pre @ prop_items us))"
proof (induction us arbitrary: pre)
  case Nil
  then show ?case using finished_prop(2) [OF f, of pre nm b js] by (simp del: item_size.simps)
next
  case (Cons u us)
  obtain n c where u: "u = (n, c)" by force
  have i: "is = pre @ Prop_item n c # prop_items us @ Prop_item nm b # js"
    "is = (pre @ [Prop_item n c]) @ prop_items us @ Prop_item nm b # js" using Cons.prems(1) u by simp_all
  have "\<not> named m fdt nm (items_size pre)" using finished_prop(2) [OF f i(1), of nm] Cons.prems(2) u by auto
  with Cons.IH [OF i(2)] Cons.prems(2) u show ?case by (simp add: add.assoc del: item_size.simps)
qed

lemma finished_first:
  assumes f: "finished m fdt (pre @ Open_item nd # prop_items (us @ (nm, b) # vs) @ rest)" and e: "ends_props rest"
    and u: "nm \<notin> fst ` set us" and ps: "props_of m fdt (items_size pre) qs r"
  shows "find (named m fdt nm) qs = Some (items_size (pre @ Open_item nd # prop_items us))"
proof -
  have i: "pre @ Open_item nd # prop_items (us @ (nm, b) # vs) @ rest =
    (pre @ [Open_item nd]) @ prop_items us @ Prop_item nm b # prop_items vs @ rest" by simp
  have "qs = item_offsets (items_size (pre @ [Open_item nd])) (prop_items (us @ (nm, b) # vs))"
    by (rule props_of_unique [OF ps finished_props_of(1) [OF f refl e]])
  with find_first [OF f i u, of "prop_items vs"] show ?thesis by (simp add: add.assoc)
qed

text \<open>A property cell that is found under its name is an item.\<close>

lemma str_is_ref:
  assumes r: "rw_ok m fdt" and n: "0 \<notin> set nm"
  shows "str_is m fdt v nm \<longleftrightarrow> name_ref m fdt v nm"
  using n by (auto simp: str_is_iff [OF r] str_ref_def cstr_at_iff bytes_at_snoc add.assoc)

lemma cell_item:
  assumes r: "rw_ok m fdt" and p: "prop_found m fdt node nm p" and c: "cell_at m fdt p so (int (length bs))"
    and bs: "bytes_at m (prop_addr m fdt p + 12) bs" and n: "0 \<notin> set nm"
  shows "item_at (name_ref m fdt) m (prop_addr m fdt p) (Prop_item nm bs)"
proof -
  note b = rw_blob [OF r]
  have pa: "prop_at m fdt p" by (rule cell_prop_at [OF r c])
  note pr = prop_at_reads [OF b pa]
  have fld: "sfield m fdt p = FDT_PROP" "sfield m fdt (p + 4) = int (length bs)" "sfield m fdt (p + 8) = so"
    using c by (simp_all add: cell_at_def)
  have "struct_fits m fdt p 4" by (rule struct_fits_le [OF prop_at_bounds(4) [OF b pa]]) (use prop_at_bounds(3) [OF b pa] in simp_all)
  then have "fdt32_ld m (prop_addr m fdt p) = Some FDT_PROP" using sfield_load(1) [OF b] fld(1) by simp
  moreover have "name_ref m fdt (to_s32 so) nm"
    using p fld(3) str_is_ref [OF r n] by (auto simp: prop_found_def find_Some_iff named_def)
  moreover have "to_s32 so = so" if "0 \<le> to_s32 so"
  proof -
    have "0 \<le> so" "so \<le> UINT32_MAX" using fdt32_ld_range [OF pr(2)] fld(3) by simp_all
    with that show ?thesis by (cases "so \<le> INT32_MAX") (simp_all add: to_s32_id to_s32_neg)
  qed
  ultimately show ?thesis using pr(2,3) fld bs n by (auto simp: str_ref_def)
qed

lemma setprop_replaces:
  assumes f: "finished m fdt (pre @ Open_item nd # prop_items (us @ (nm, b) # vs) @ rest)"
    and off: "items_size pre \<le> INT32_MAX" and len: "int (length bs) \<le> 2147483600" and z: "0 \<notin> set nm"
    and p: "prop_at m fdt p" "4 \<le> p" "prop_found m fdt (items_size pre) nm p"
      "p = items_size (pre @ Open_item nd # prop_items us)"
    and s: "struct_spliced m m1 fdt (prop_addr m fdt p + 12) (tag_size (sfield m fdt (p + 4))) (tag_size (int (length bs)))"
      "writes_only m1 m2 (prop_addr m fdt p + 4) 4" "fdt32_ld m2 (prop_addr m fdt p + 4) = Some (int (length bs))"
    and w: "writes_only m2 m' (prop_addr m fdt p + 12) (int (length bs))" "bytes_at m' (prop_addr m fdt p + 12) bs"
  shows "finished m' fdt (pre @ Open_item nd # prop_items (us @ (nm, bs) # vs) @ rest)"
proof -
  note fd = finishedD [OF f]
  define L where "L = int (length bs)"
  define pre' where "pre' = pre @ Open_item nd # prop_items us"
  have al: "h_size_struct m fdt mod 4 = 0" by (rule finished_struct_aligned [OF f])
  have l: "0 \<le> L" "L \<le> 2147483640" "L \<le> tag_size L" "0 \<le> tag_size L"
    using len tag_size_bounds(1) [of L] by (simp_all add: L_def tag_size_nonneg)
  have i: "pre @ Open_item nd # prop_items (us @ (nm, b) # vs) @ rest = pre' @ Prop_item nm b # prop_items vs @ rest"
    by (simp add: pre'_def)
  have lb: "sfield m fdt (p + 4) = int (length b)" using finished_prop(4) [OF f i] p(4) by (simp add: pre'_def)
  note rf = resized_found [OF fd(1) al off p(1-3) l(1,2) s [folded L_def]]
  have w2: "writes_only m2 m' (prop_addr m2 fdt p + 12) L" using w(1) rf(5) by (simp add: L_def)
  note ff = filled_found [OF rf(4) off rf(1,2) w2]
  have o: "prop_addr m' fdt p = prop_addr m fdt p" using ff(3) rf(5) by simp
  have f': "finished m fdt (pre' @ [Prop_item nm b] @ prop_items vs @ rest)" using f unfolding i by simp
  have it: "item_at (name_ref m' fdt) m' (prop_addr m' fdt p) (Prop_item nm bs)"
    by (rule cell_item [OF ff(4,1) ff(2) [unfolded L_def] _ z]) (use w(2) o in simp)
  have w1: "writes_only m1 m' (prop_addr m fdt p) (12 + tag_size L)"
    using writes_only_mono [OF s(2), of "prop_addr m fdt p" "12 + tag_size L"]
      writes_only_mono [OF w(1), of "prop_addr m fdt p" "12 + tag_size L"] l by (auto intro: writes_only_trans simp: L_def)
  have s1: "struct_spliced m m1 fdt (prop_addr m fdt (items_size pre' + 12)) (tag_size (int (length b))) (tag_size L)"
    using s(1) lb p(4) by (simp add: L_def add.assoc pre'_def)
  have "finished m' fdt (pre' @ [Prop_item nm bs] @ prop_items vs @ rest)"
    by (rule finished_spliced [OF f' s1])
      (use w1 it p(4) l tag_size_nonneg [of "int (length b)"] in \<open>simp_all add: pre'_def L_def\<close>)
  then show ?thesis by (simp add: pre'_def)
qed

lemma setprop_adds:
  assumes f: "finished m fdt (pre @ Open_item nd # its)"
    and off: "items_size pre \<le> INT32_MAX" and len: "int (length bs) \<le> 2147483600" and z: "0 \<notin> set nm"
    and nx: "fdt_check_node_offset m fdt (items_size pre) = Some nx" and hs: "has_string m ma fdt so nm"
    and s: "struct_spliced ma m1 fdt (prop_addr ma fdt nx) 0 (12 + tag_size (int (length bs)))"
      "writes_only m1 m2 (prop_addr ma fdt nx) 12" "fdt32_ld m2 (prop_addr ma fdt nx) = Some FDT_PROP"
      "fdt32_ld m2 (prop_addr ma fdt nx + 4) = Some (int (length bs))" "fdt32_ld m2 (prop_addr ma fdt nx + 8) = Some (to_u32 so)"
    and w: "writes_only m2 m' (prop_addr ma fdt nx + 12) (int (length bs))" "bytes_at m' (prop_addr ma fdt nx + 12) bs"
  shows "finished m' fdt (pre @ Open_item nd # Prop_item nm bs # its)"
proof -
  note fd = finishedD [OF f]
  define L where "L = int (length bs)"
  define pre' where "pre' = pre @ [Open_item nd]"
  note al = finished_struct_aligned [OF f]
  have l: "0 \<le> L" "L \<le> 2147483600" "L \<le> tag_size L" "0 \<le> tag_size L"
    using len tag_size_bounds(1) [of L] by (simp_all add: L_def tag_size_nonneg)
  note tag = finished_tag [OF f refl] and zp = items_size_nonneg [of pre]
  have nx': "nx = items_size pre'" using nx tag(2) zp by (simp add: fdt_check_node_offset_def pre'_def)
  have tg: "tag_at m fdt (items_size pre) FDT_BEGIN_NODE nx" using tag(1) nx' by (simp add: pre'_def)
  note k = has_string_keeps [OF fd(1) al hs z]
  have nn: "0 \<le> nx" using nx' items_size_nonneg(1) [of pre'] by simp
  have nxa: "fdt_check_node_offset ma fdt (items_size pre) = Some nx" "tag_at ma fdt (items_size pre) FDT_BEGIN_NODE nx"
    using k(7) [OF nx tg nn off] by simp_all
  have so: "0 \<le> so" and ala: "h_size_struct ma fdt mod 4 = 0" using hs k(2) al by (simp_all add: has_string_def)
  note pf = placed_found [OF k(1) ala off nxa l(1,2) so k(6,5) s [folded L_def]]
  have w2: "writes_only m2 m' (prop_addr m2 fdt nx + 12) L" using w(1) pf(5) by (simp add: L_def)
  note ff = filled_found [OF pf(4) off pf(1,2) w2]
  have eq: "prop_addr m' fdt nx = prop_addr ma fdt nx" using ff(3) pf(5) by simp
  have it: "item_at (name_ref m' fdt) m' (prop_addr m' fdt nx) (Prop_item nm bs)"
    by (rule cell_item [OF ff(4,1) ff(2) [unfolded L_def] _ z]) (use w(2) eq in simp)
  have w1: "writes_only m1 m' (prop_addr ma fdt nx) (12 + tag_size L)"
    using writes_only_mono [OF s(2), of "prop_addr ma fdt nx" "12 + tag_size L"]
      writes_only_mono [OF w(1), of "prop_addr ma fdt nx" "12 + tag_size L"] l by (auto intro: writes_only_trans simp: L_def)
  have fa: "finished ma fdt (pre' @ [] @ its)"
    by (rule finished_grown [of m]) (use f hs in \<open>simp_all add: has_string_def pre'_def\<close>)
  have s1: "struct_spliced ma m1 fdt (prop_addr ma fdt (items_size pre' + 0)) 0 (12 + tag_size L)"
    using s(1) nx' by (simp add: L_def)
  have "finished m' fdt (pre' @ [Prop_item nm bs] @ its)"
    by (rule finished_spliced [OF fa s1]) (use w1 it nx' l in \<open>simp_all add: L_def\<close>)
  then show ?thesis by (simp add: pre'_def)
qed

text \<open>\<open>fdt_setprop\<close> on the items: the value replaced, or a property put in front.\<close>

lemma setprop_items:
  assumes f: "finished m fdt (pre @ Open_item nd # prop_items ps @ rest)" and e: "ends_props rest"
    and n: "c_string m name nm" and ap: "apart m fdt name (int (length nm) + 1)" and len: "int (length bs) \<le> 2147483600"
    and bs: "bytes_at m val bs" "apart m fdt val (int (length bs))"
    and run: "fdt_setprop m fdt (items_size pre) name val (int (length bs)) = Some (0, m')"
  shows "finished m' fdt (pre @ Open_item nd # prop_items (put nm bs ps) @ rest)" "edits m m' fdt"
proof -
  note fd = finishedD [OF f] and al = finished_struct_aligned [OF f] and z = c_string_bytes(6) [OF n]
  have off: "items_size pre \<le> INT32_MAX" using tag_at_bounds [OF fd(2) finished_tag(1) [OF f refl]] by simp
  have l: "0 \<le> int (length bs)" by simp
  obtain q m2 where s: "fdt_setprop_placeholder_namelen m fdt (items_size pre) name (int (length nm)) (int (length bs)) = Some (0, q, m2)"
    "bytes_at m' q bs" "writes_only m2 m' q (int (length bs))" "edits m m' fdt"
    by (rule setprop_filled [OF fd(1) off n ap len bs run])
  show "edits m m' fdt" by (rule s(4))
  have none: "nm \<notin> fst ` set ps" if "\<And>qs e. props_of m fdt (items_size pre) qs e \<Longrightarrow> find (named m fdt nm) qs = None"
  proof (rule ccontr)
    assume "\<not> nm \<notin> fst ` set ps"
    then have "nm \<in> fst ` set ps" by simp
    from first_of_name [OF this] obtain us b vs where u: "ps = us @ (nm, b) # vs" "nm \<notin> fst ` set us" by blast
    note po = finished_props_of(1) [OF f refl e]
    from finished_first [OF f [unfolded u(1)] e u(2) po] that [OF po] show False by simp
  qed
  show "finished m' fdt (pre @ Open_item nd # prop_items (put nm bs ps) @ rest)"
    using fd(1) al off n ap l len s(1)
  proof (cases rule: placeholder_cases)
    case (resized p qs x m1)
    have "nm \<in> fst ` set ps"
    proof (rule ccontr)
      assume "nm \<notin> fst ` set ps"
      then have "find (\<lambda>(n, b). n = nm) ps = None" by (simp add: find_name)
      with finished_props_of(2) [OF f refl e, of nm] resized(5)
        props_of_unique [OF resized(4) finished_props_of(1) [OF f refl e]] show False by simp
    qed
    from first_of_name [OF this] obtain us b vs where u: "ps = us @ (nm, b) # vs" "nm \<notin> fst ` set us" by blast
    have p: "p = items_size (pre @ Open_item nd # prop_items us)"
      using finished_first [OF f [unfolded u(1)] e u(2) resized(4)] resized(5) by simp
    have pf: "prop_found m fdt (items_size pre) nm p" using resized(4,5) by (auto simp: prop_found_def)
    show ?thesis unfolding u(1) put_split [OF u(2)]
      by (rule setprop_replaces [OF f [unfolded u(1)] off len z resized(2,3) pf p resized(6-8)
        s(3,2) [unfolded resized(1)]])
  next
    case (added nx so ma m1)
    have "put nm bs ps = (nm, bs) # ps" using none added(1) by (auto simp: put_def)
    with setprop_adds [OF f off len z added(2,4,6-10) s(3,2) [unfolded added(5)]] show ?thesis by simp
  qed
qed

section \<open>Deleting a property, a node\<close>

definition drop_prop :: "u8 list \<Rightarrow> (u8 list \<times> u8 list) list \<Rightarrow> (u8 list \<times> u8 list) list" where
  "drop_prop nm ps = takeWhile (\<lambda>p. fst p \<noteq> nm) ps @ tl (dropWhile (\<lambda>p. fst p \<noteq> nm) ps)"

lemma drop_split: "nm \<notin> fst ` set us \<Longrightarrow> drop_prop nm (us @ (nm, b) # vs) = us @ vs"
  unfolding drop_prop_def by (induction us) auto

text \<open>A splice alone: items taken out.\<close>

lemma finished_removed:
  assumes f: "finished m fdt (pre @ old @ post)"
    and s: "struct_spliced m m' fdt (prop_addr m fdt (items_size pre)) (items_size old) 0"
  shows "finished m' fdt (pre @ post)"
proof -
  have s1: "struct_spliced m m' fdt (prop_addr m fdt (items_size pre + 0)) (items_size old) 0" using s by simp
  have "finished m' fdt (pre @ [] @ post)"
    by (rule finished_spliced [OF f s1]) (use items_size_nonneg(1) [of old] in \<open>simp_all add: writes_only_def\<close>)
  then show ?thesis by simp
qed

lemma finished_spot:
  assumes f: "finished m fdt (pre @ old @ post)"
  shows "fdt + 40 \<le> prop_addr m fdt (items_size pre)" "prop_addr m fdt (items_size pre) - fdt \<le> UINT32_MAX"
    "items_size old \<le> h_size_struct m fdt" "items_size pre \<le> INT32_MAX"
  using finishedD(7) [OF f] rw_bounds [OF finishedD(1) [OF f]] items_size_nonneg(1) [of pre]
    items_size_nonneg(1) [of old] items_size_nonneg(1) [of post] by simp_all

lemma rw_probe_passes:
  assumes r: "rw_ok m fdt" and run: "do { (err, m) \<leftarrow> fdt_rw_probe m fdt; if err \<noteq> 0 then Some (err, m) else f m } = Some (x, m')"
    "0 \<le> x"
  shows "fdt_rw_probe m fdt = Some (0, m)" "f m = Some (x, m')"
  by (rule rw_probe_cases [OF r]; use run in simp)+

text \<open>The property that a lookup in the tree finds, among the items.\<close>

lemma property_item:
  assumes f: "finished m fdt (pre @ Open_item nd # prop_items ps @ rest)" and e: "ends_props rest" and n: "c_string m name nm"
  obtains (none) err where "fdt_get_property m fdt (items_size pre) name = Some (0, err)" "err < 0" "nm \<notin> fst ` set ps"
    | (found) us b vs p where "ps = us @ (nm, b) # vs" "nm \<notin> fst ` set us" "p = items_size (pre @ Open_item nd # prop_items us)"
        "fdt_get_property m fdt (items_size pre) name = Some (prop_addr m fdt p, int (length b))" "prop_addr m fdt p \<noteq> 0"
        "prop_at m fdt p" "4 \<le> p" "prop_found m fdt (items_size pre) nm p" "sfield m fdt (p + 4) = int (length b)"
        "bytes_at m (prop_addr m fdt p + 12) b"
proof -
  note fd = finishedD [OF f] and po = finished_props_of(1) [OF f refl e]
  have off: "items_size pre \<le> INT32_MAX" using tag_at_bounds [OF fd(2) finished_tag(1) [OF f refl]] by simp
  have nl: "strlen m name = Some (int (length nm))" "to_s32 (int (length nm)) = int (length nm)"
    using c_string_strlen [OF n] c_string_bytes(5) [OF n] by simp_all
  have first: "find (named m fdt nm) (item_offsets (items_size (pre @ [Open_item nd])) (prop_items ps)) =
      Some (items_size (pre @ Open_item nd # prop_items us))" if "ps = us @ (nm, b) # vs" "nm \<notin> fst ` set us" for us b vs
    using finished_first [OF f [unfolded that(1)] e that(2) po] .
  show thesis
  proof (rule get_property_spec [OF fd(1) off n])
    fix err
    assume g: "fdt_get_property_namelen m fdt (items_size pre) name (int (length nm)) = Some (0, err)" "err < 0"
      "\<And>qs e. props_of m fdt (items_size pre) qs e \<Longrightarrow> find (named m fdt nm) qs = None"
    have "nm \<notin> fst ` set ps"
    proof
      assume "nm \<in> fst ` set ps"
      from first_of_name [OF this] first g(3) [OF po] show False by fastforce
    qed
    with none g(1,2) show thesis by (simp add: fdt_get_property_def nl)
  next
    fix p qs x
    assume g: "fdt_get_property_namelen m fdt (items_size pre) name (int (length nm)) =
        Some (prop_addr m fdt p, sfield m fdt (p + 4))" "prop_at m fdt p" "4 \<le> p" "props_of m fdt (items_size pre) qs x"
      "find (named m fdt nm) qs = Some p" "prop_addr m fdt p \<noteq> 0"
    have qs: "qs = item_offsets (items_size (pre @ [Open_item nd])) (prop_items ps)" by (rule props_of_unique [OF g(4) po])
    have "nm \<in> fst ` set ps"
    proof (rule ccontr)
      assume "nm \<notin> fst ` set ps"
      then have "find (\<lambda>(n, b). n = nm) ps = None" by (simp add: find_name)
      with finished_props_of(2) [OF f refl e, of nm] g(5) qs show False by simp
    qed
    from first_of_name [OF this] obtain us b vs where u: "ps = us @ (nm, b) # vs" "nm \<notin> fst ` set us" by blast
    have p: "p = items_size (pre @ Open_item nd # prop_items us)" using first [OF u] g(5) qs by simp
    have i: "pre @ Open_item nd # prop_items ps @ rest = (pre @ Open_item nd # prop_items us) @ Prop_item nm b # prop_items vs @ rest"
      by (simp add: u(1))
    note fp = finished_prop(3,4) [OF f i, folded p]
    have pf: "prop_found m fdt (items_size pre) nm p" using g(4,5) by (auto simp: prop_found_def)
    have "fdt_get_property m fdt (items_size pre) name = Some (prop_addr m fdt p, int (length b))"
      using g(1) fp(2) by (simp add: fdt_get_property_def nl)
    from found [OF u p this g(6,2,3) pf fp(2,1)] show thesis .
  qed
qed

lemma delprop_items:
  assumes f: "finished m fdt (pre @ Open_item nd # prop_items ps @ rest)" and e: "ends_props rest"
    and n: "c_string m name nm" and run: "fdt_delprop m fdt (items_size pre) name = Some (0, m')"
  shows "finished m' fdt (pre @ Open_item nd # prop_items (drop_prop nm ps) @ rest)" "edits m m' fdt"
proof -
  note fd = finishedD [OF f]
  note run' = rw_probe_passes [OF fd(1) run [unfolded fdt_delprop_def]]
  have "finished m' fdt (pre @ Open_item nd # prop_items (drop_prop nm ps) @ rest) \<and> edits m m' fdt"
    using f e n
  proof (cases rule: property_item)
    case (none err)
    then show ?thesis using run'(2) by simp
  next
    case (found us b vs p)
    define pre' where "pre' = pre @ Open_item nd # prop_items us"
    have f': "finished m fdt (pre' @ [Prop_item nm b] @ prop_items vs @ rest)" using f found(1) by (simp add: pre'_def)
    note rg = rw_prop_range [OF fd(1) found(6,7), unfolded found(9)] and sp = finished_spot [OF f']
    have t: "0 \<le> 12 + tag_size (int (length b))" "to_s32 (12 + tag_size (int (length b))) = 12 + tag_size (int (length b))"
      using rg(5) rw_bounds [OF fd(1)] tag_size_nonneg [OF rg(1)] by (simp_all add: to_s32_id)
    have eq: "fdt_splice_struct m fdt (prop_addr m fdt (items_size pre')) (items_size [Prop_item nm b]) 0 = Some (0, m')"
      using run'(2) found(3-5) rg(1,2) t(2) by (simp add: tagalign_size pre'_def)
    have z0: "0 \<le> items_size [Prop_item nm b]" "0 \<le> (0::int)" "(0::int) \<le> INT32_MAX" using t(1) by simp_all
    have "struct_spliced m m' fdt (prop_addr m fdt (items_size pre')) (items_size [Prop_item nm b]) 0"
      using splice_struct_spec [OF fd(1) sp(1,2) z0(1) sp(3) z0(2,3)] eq by auto
    with finished_removed [OF f' this] found(1,2) show ?thesis by (auto simp: pre'_def drop_split struct_spliced_def)
  qed
  then show "finished m' fdt (pre @ Open_item nd # prop_items (drop_prop nm ps) @ rest)" "edits m m' fdt" by simp_all
qed

text \<open>The end of a node among the items.\<close>

fun end_at :: "int \<Rightarrow> nat \<Rightarrow> sw_item list \<Rightarrow> int" where
  "end_at off d [] = - FDT_ERR_NOTFOUND"
| "end_at off d (Open_item nd # is) = end_at (off + item_size (Open_item nd)) (Suc d) is"
| "end_at off d (Prop_item n b # is) = end_at (off + item_size (Prop_item n b)) d is"
| "end_at off d (Close_item # is) = (case d of 0 \<Rightarrow> off + item_size Close_item | Suc d' \<Rightarrow> end_at (off + item_size Close_item) d' is)"

definition end_walk :: "mem \<Rightarrow> int \<Rightarrow> int \<Rightarrow> int \<Rightarrow> int option" where
  "end_walk m fdt off d = do { (p, d) \<leftarrow> fdt_next_node_loop m fdt off (Some d); fdt_node_end_loop m fdt p (the d) }"

lemma end_walk_at:
  assumes f: "finished m fdt is"
  shows "is = pre @ js \<Longrightarrow> int d + int (length js) \<le> INT32_MAX \<Longrightarrow>
    end_walk m fdt (items_size pre) (int d) = Some (end_at (items_size pre) d js)"
proof (induction js arbitrary: pre d)
  case Nil
  have "fdt_next_tag m fdt (items_size pre) = Some (FDT_END, items_size pre + 4)"
    using finished_split(1) [OF f Nil(1)] by simp
  then show ?case
    using items_size_nonneg(1) [of pre]
    by (simp add: end_walk_def fdt_next_node_loop.simps [of m fdt "items_size pre"]
      fdt_node_end_loop.simps [of m fdt "- FDT_ERR_NOTFOUND"])
next
  case (Cons i js)
  note tag = finished_tag(2) [OF f Cons.prems(1)] and z = items_size_nonneg [of pre]
  note step = fdt_next_node_loop.simps [of m fdt "items_size pre"]
  define nx where "nx = items_size pre + item_size i"
  have nx: "0 \<le> nx" "items_size (pre @ [i]) = nx" using z item_size_pos(1) [of i] by (simp_all add: nx_def)
  have i': "is = (pre @ [i]) @ js" using Cons.prems(1) by simp
  have ih: "end_walk m fdt nx (int e) = Some (end_at nx e js)" if "e \<le> Suc d" for e
    using Cons.IH [OF i', of e] Cons.prems(2) that nx(2) by simp
  show ?case
  proof (cases i)
    case (Open_item nd)
    have chk: "fdt_check_node_offset m fdt (items_size pre) = Some nx"
      using tag z Open_item by (simp add: fdt_check_node_offset_def nx_def)
    have "fdt_node_end_loop m fdt (items_size pre) (1 + int d) = end_walk m fdt nx (1 + int d)"
      using chk z nx by (simp add: fdt_node_end_loop.simps [of m fdt "items_size pre"] fdt_next_node_def end_walk_def)
    then show ?thesis
      using tag Open_item Cons.prems(2) ih [of "Suc d"] by (simp add: end_walk_def step to_s32_id add.commute nx_def)
  next
    case (Prop_item pn bs)
    then show ?thesis using tag ih [of d] by (simp add: end_walk_def step nx_def)
  next
    case Close_item
    show ?thesis
    proof (cases d)
      case 0
      then show ?thesis
        using tag Close_item nx by (simp add: end_walk_def step nx_def to_s32_id fdt_node_end_loop.simps [of m fdt _ "- 1"])
    next
      case (Suc e)
      then show ?thesis
        using tag Close_item ih [of e] Cons.prems(2) by (simp add: end_walk_def step nx_def to_s32_id)
    qed
  qed
qed

lemma end_at_props: "end_at off d (prop_items ps @ js) = end_at (off + items_size (prop_items ps)) d js"
  by (induction ps arbitrary: off) (auto simp: add.assoc)

lemma end_at_tree: "end_at off d (tree_items t @ js) = end_at (off + items_size (tree_items t)) d js"
proof (induction t arbitrary: off d js rule: tree_items.induct)
  case (1 nd ps ts)
  have "end_at e d' (concat (map tree_items us) @ ks) = end_at (e + items_size (concat (map tree_items us))) d' ks"
    if "set us \<subseteq> set ts" for us e d' ks
    using that
  proof (induction us arbitrary: e)
    case (Cons u us)
    then show ?case using 1 [of u e d' "concat (map tree_items us) @ ks"] by (simp add: add.assoc)
  qed simp
  from this [of ts] show ?case by (simp add: end_at_props add.assoc)
qed

lemma end_at_trees:
  "end_at off d (concat (map tree_items us) @ ks) = end_at (off + items_size (concat (map tree_items us))) d ks"
  by (induction us arbitrary: off) (simp_all add: end_at_tree add.assoc)

lemma finished_node_end:
  assumes f: "finished m fdt (pre @ tree_items u @ post)"
  shows "fdt_node_end_offset m fdt (items_size pre) = Some (items_size (pre @ tree_items u))"
proof -
  obtain nd ps ts where u: "u = DNode nd ps ts" by (cases u)
  define js where "js = prop_items ps @ concat (map tree_items ts) @ Close_item # post"
  have f': "finished m fdt (pre @ Open_item nd # js)" using f u by (simp add: js_def)
  note fd = finishedD [OF f'] and tag = finished_tag(2) [OF f' refl] and z = items_size_nonneg [of pre]
  define nx where "nx = items_size (pre @ [Open_item nd])"
  have nx: "0 \<le> nx" "nx = items_size pre + item_size (Open_item nd)"
    using items_size_nonneg(1) [of "pre @ [Open_item nd]"] by (simp_all add: nx_def)
  have len: "int (length js) \<le> INT32_MAX"
    using items_length [of js] fd(7) rw_bounds [OF fd(1)] z item_size_pos(1) [of "Open_item nd"] by simp
  have "fdt_check_node_offset m fdt (items_size pre) = Some nx"
    using tag z by (simp add: fdt_check_node_offset_def nx(2))
  then have "fdt_node_end_offset m fdt (items_size pre) = end_walk m fdt nx 0"
    using z nx(1) by (simp add: fdt_node_end_offset_def fdt_node_end_loop.simps [of m fdt "items_size pre"]
      fdt_next_node_def end_walk_def)
  also have "\<dots> = Some (end_at nx 0 js)"
    using end_walk_at [OF f', of "pre @ [Open_item nd]" js 0] len by (simp add: nx_def)
  also have "end_at nx 0 js = items_size (pre @ tree_items u)"
    unfolding js_def end_at_props end_at_trees by (simp add: nx_def u)
  finally show ?thesis .
qed

lemma tree_items_pos: "0 < items_size (tree_items u)"
proof (cases u)
  case (DNode nd ps ts)
  then show ?thesis
    using item_size_pos(1) [of "Open_item nd"] items_size_nonneg(1) [of "prop_items ps @ concat (map tree_items ts) @ [Close_item]"]
    by simp
qed

lemma del_node_items:
  assumes f: "finished m fdt (pre @ tree_items u @ post)" and run: "fdt_del_node m fdt (items_size pre) = Some (r, m')" "0 \<le> r"
  shows "finished m' fdt (pre @ post)" "edits m m' fdt"
proof -
  note fd = finishedD [OF f] and sp = finished_spot [OF f] and u = tree_items_pos [of u]
  note run' = rw_probe_passes [OF fd(1) run(1) [unfolded fdt_del_node_def] run(2)]
  have "0 \<le> items_size pre + items_size (tree_items u)" using items_size_nonneg(1) [of "pre @ tree_items u"] by simp
  then have eq: "fdt_splice_struct m fdt (prop_addr m fdt (items_size pre)) (items_size (tree_items u)) 0 = Some (r, m')"
    using run'(2) finished_node_end [OF f] by (simp add: fdt_offset_ptr_raw_def rw_simps [OF fd(1)])
  have z0: "0 \<le> items_size (tree_items u)" "0 \<le> (0::int)" "(0::int) \<le> INT32_MAX" using u by simp_all
  have "struct_spliced m m' fdt (prop_addr m fdt (items_size pre)) (items_size (tree_items u)) 0"
    using splice_struct_spec [OF fd(1) sp(1,2) z0(1) sp(3) z0(2,3)] eq run(2) by auto
  from finished_removed [OF f this] this show "finished m' fdt (pre @ post)" "edits m m' fdt" by (simp_all add: struct_spliced_def)
qed

section \<open>Adding a node, renaming a node\<close>

lemma skip_properties_items:
  assumes f: "finished m fdt is" and e: "ends_props rest"
  shows "is = pre @ prop_items ps @ rest \<Longrightarrow>
    skip_properties m fdt (items_size pre) = Some (items_size (pre @ prop_items ps))"
proof (induction ps arbitrary: pre)
  case Nil
  from e obtain i js where r: "rest = i # js" "item_tag i \<noteq> FDT_PROP" "item_tag i \<noteq> FDT_NOP"
    by (cases rest rule: ends_props.cases) auto
  have "is = pre @ i # js" using Nil r(1) by simp
  from finished_tag(2) [OF f this] r(2,3) show ?case by (simp add: skip_properties.simps [of m fdt "items_size pre"])
next
  case (Cons p ps)
  obtain n b where p: "p = (n, b)" by force
  have i: "is = pre @ Prop_item n b # prop_items ps @ rest" "is = (pre @ [Prop_item n b]) @ prop_items ps @ rest"
    using Cons.prems p by simp_all
  from Cons.IH [OF i(2)] finished_tag(2) [OF f i(1)] p show ?case
    by (simp add: skip_properties.simps [of m fdt "items_size pre"] add.assoc)
qed

lemma add_subnode_items:
  assumes f: "finished m fdt (pre @ Open_item nd # prop_items ps @ rest)" and e: "ends_props rest"
    and n: "c_string m name nm" and ap: "apart m fdt name (int (length nm) + 1)" and len: "int (length nm) \<le> 2147483600"
    and run: "fdt_add_subnode m fdt (items_size pre) name = Some (p, m')" "0 \<le> p"
  shows "finished m' fdt (pre @ Open_item nd # prop_items ps @ [Open_item nm, Close_item] @ rest)" "edits m m' fdt"
    "p = items_size (pre @ Open_item nd # prop_items ps)"
proof -
  note fd = finishedD [OF f] and z = c_string_bytes(6) [OF n]
  define g where "g = tag_size (int (length nm) + 1)"
  define pre' where "pre' = pre @ Open_item nd # prop_items ps"
  have off: "items_size pre \<le> INT32_MAX" using tag_at_bounds [OF fd(2) finished_tag(1) [OF f refl]] by simp
  have ap': "apart m fdt name (int (length nm))" using ap by auto
  have f': "finished m fdt (pre' @ [] @ rest)" using f by (simp add: pre'_def)
  have i: "pre @ Open_item nd # prop_items ps @ rest = (pre @ [Open_item nd]) @ prop_items ps @ rest" by simp
  have sk: "skip_properties m fdt (items_size (pre @ [Open_item nd])) = Some (items_size pre')"
    using skip_properties_items [OF f e i] by (simp add: pre'_def)
  have P: "0 \<le> items_size pre'" "items_size pre' \<le> INT32_MAX" using items_size_nonneg(1) [of pre'] finished_spot(4) [OF f'] by simp_all
  obtain m1 where d: "p = items_size pre'" "edits m m' fdt" "struct_spliced m m1 fdt (prop_addr m fdt p) 0 (8 + g)"
    "writes_only m1 m' (prop_addr m fdt p) (8 + g)" "fdt32_ld m' (prop_addr m fdt p) = Some FDT_BEGIN_NODE"
    "bytes_at m' (prop_addr m fdt p + 4) nm" "m' (prop_addr m fdt p + 4 + int (length nm)) = Some 0"
    "fdt32_ld m' (prop_addr m fdt p + 4 + g) = Some FDT_END_NODE"
  proof (rule add_subnode_cases [OF fd(1) off n len])
    fix nx q
    assume t: "fdt_next_tag m fdt (items_size pre) = Some (FDT_BEGIN_NODE, nx)" "skip_properties m fdt nx = Some q"
      and eq: "fdt_add_subnode m fdt (items_size pre) name = (let nh = prop_addr m fdt q in do {
            (err, m1) \<leftarrow> fdt_splice_struct m fdt nh 0 (8 + tag_size (int (length nm) + 1));
            if err \<noteq> 0 then Some (err, m1) else do {
            m2 \<leftarrow> fdt32_set m1 nh FDT_BEGIN_NODE;
            (_, m3) \<leftarrow> memset m2 (nh + 4) 0 (nat (tag_size (int (length nm) + 1)));
            (_, m4) \<leftarrow> memcpy m3 (nh + 4) name (length nm);
            m5 \<leftarrow> fdt32_set m4 (nh + 4 + tag_size (int (length nm) + 1)) FDT_END_NODE;
            Some (q, m5) } })"
    have q: "q = items_size pre'" using t finished_tag(2) [OF f refl] sk by simp
    have q0: "0 \<le> q" "q \<le> INT32_MAX" using P q by simp_all
    show thesis
    proof (rule place_node [OF fd(1) q0 c_string_bytes(1) [OF n] ap' len])
      fix m1 m2 m3 m4 mm
      assume "fdt_splice_struct m fdt (prop_addr m fdt q) 0 (8 + tag_size (int (length nm) + 1)) = Some (0, m1)"
        "fdt32_set m1 (prop_addr m fdt q) FDT_BEGIN_NODE = Some m2"
        "memset m2 (prop_addr m fdt q + 4) 0 (nat (tag_size (int (length nm) + 1))) = Some (prop_addr m fdt q + 4, m3)"
        "memcpy m3 (prop_addr m fdt q + 4) name (length nm) = Some (prop_addr m fdt q + 4, m4)"
        "fdt32_set m4 (prop_addr m fdt q + 4 + tag_size (int (length nm) + 1)) FDT_END_NODE = Some mm"
        and s: "edits m mm fdt" "struct_spliced m m1 fdt (prop_addr m fdt q) 0 (8 + tag_size (int (length nm) + 1))"
        "writes_only m1 mm (prop_addr m fdt q) (8 + tag_size (int (length nm) + 1))"
        "fdt32_ld mm (prop_addr m fdt q) = Some FDT_BEGIN_NODE" "bytes_at mm (prop_addr m fdt q + 4) nm"
        "mm (prop_addr m fdt q + 4 + int (length nm)) = Some 0"
        "fdt32_ld mm (prop_addr m fdt q + 4 + tag_size (int (length nm) + 1)) = Some FDT_END_NODE"
      with run eq have "q = p" "mm = m'" by (simp_all add: Let_def)
      with s q that show thesis by (simp add: g_def)
    qed (use run eq in \<open>simp add: Let_def\<close>)
  qed (use run in simp)
  show "edits m m' fdt" "p = items_size (pre @ Open_item nd # prop_items ps)" using d(1,2) by (simp_all add: pre'_def)
  have eq: "h_off_struct m' fdt = h_off_struct m fdt"
  proof -
    have gz: "0 \<le> 8 + g" using tag_size_nonneg [of "int (length nm) + 1"] by (simp add: g_def)
    have "p + 0 \<le> h_size_struct m fdt" using finishedD(7) [OF f'] d(1) items_size_nonneg(1) [of rest] by simp
    note k1 = struct_spliced_keeps [OF fd(1) d(3) P(1) [folded d(1)] this order_refl gz]
    have "p + (8 + g) \<le> h_size_struct m1 fdt" using k1(4) \<open>p + 0 \<le> h_size_struct m fdt\<close> by simp
    from write_keeps(2) [OF k1(1) d(4) [folded k1(2)] P(1) [folded d(1)] gz this] k1(2) show ?thesis by simp
  qed
  have "bytes_at m' (prop_addr m fdt p + 4) (nm @ [0])" using d(6,7) by (simp add: bytes_at_snoc)
  then have it: "items_at (name_ref m' fdt) m' (prop_addr m' fdt (items_size pre')) [Open_item nm, Close_item]"
    using d(1,5,8) z eq by (simp add: g_def add.assoc)
  have s1: "struct_spliced m m1 fdt (prop_addr m fdt (items_size pre' + 0)) 0 (8 + g)" using d(1,3) by simp
  have "finished m' fdt (pre' @ [Open_item nm, Close_item] @ rest)"
    by (rule finished_spliced [OF f' s1])
      (use d(1,4) it tag_size_nonneg [of "int (length nm) + 1"] in \<open>simp_all add: g_def\<close>)
  then show "finished m' fdt (pre @ Open_item nd # prop_items ps @ [Open_item nm, Close_item] @ rest)" by (simp add: pre'_def)
qed

lemma set_name_items:
  assumes f: "finished m fdt (pre @ Open_item nd # its)"
    and n: "c_string m name nm" and ap: "apart m fdt name (int (length nm) + 1)" and len: "int (length nm) \<le> 2147483600"
    and run: "fdt_set_name m fdt (items_size pre) name = Some (0, m')"
  shows "finished m' fdt (pre @ Open_item nm # its)" "edits m m' fdt"
proof -
  have f': "finished m fdt (pre @ [Open_item nd] @ its)" using f by simp
  note fd = finishedD [OF f'] and z = c_string_bytes(6) [OF n] and sp = finished_spot [OF f']
  note run' = rw_probe_passes [OF fd(1) run [unfolded fdt_set_name_def]]
  define P where "P = items_size pre"
  define k L where "k = int (length nd) + 1" and "L = int (length nm) + 1"
  define q where "q = prop_addr m fdt P + 4"
  note zz = items_size_nonneg [of pre, folded P_def]
  have at: "item_at (name_ref m fdt) m (prop_addr m fdt P) (Open_item nd)"
    using finished_split(2) [OF f refl] by (simp add: P_def)
  have fits: "struct_fits m fdt P (item_size (Open_item nd))"
    using fd(7,8,9) zz items_size_nonneg(1) [of its] blob_bounds [OF fd(2)] by (simp add: struct_fits_def P_def)
  note nmo = open_item_name [OF fd(1) zz(2) fits at]
  have nl: "strlen m name = Some (int (length nm))" "to_s32 (int (length nm)) = int (length nm)"
    using c_string_strlen [OF n] c_string_bytes(5) [OF n] by simp_all
  have L: "0 \<le> L" "L \<le> 2147483601" "nat (to_u32 L) = length (nm @ [0])" "int (length (nm @ [0])) = L"
    using len by (simp_all add: L_def to_u32_id)
  have fit: "P + 4 + tag_size k \<le> h_size_struct m fdt" using fits rw_bounds [OF fd(1)] by (simp add: struct_fits_def k_def)
  have kb: "0 \<le> k" "k \<le> 2147483640" "0 \<le> tag_size k"
    using fit rw_bounds [OF fd(1)] zz(1) tag_size_bounds(1) [of k] by (simp_all add: k_def tag_size_nonneg)
  have ta: "fdt_tagalign k = tag_size k" "fdt_tagalign L = tag_size L" using kb L by (simp_all add: tagalign_size)
  have new: "0 \<le> tag_size L" "tag_size L \<le> INT32_MAX"
    using L tag_size_bounds(2) [of L] tag_size_nonneg [OF L(1)] by linarith+
  have low: "fdt + 40 \<le> q" "q - fdt \<le> UINT32_MAX" "tag_size k \<le> h_size_struct m fdt"
    using rw_bounds [OF fd(1)] zz fit kb by (simp_all add: q_def)
  have go: "do { (err, m1) \<leftarrow> fdt_splice_struct m fdt q (tag_size k) (tag_size L);
      if err \<noteq> 0 then Some (err, m1) else do { (_, m2) \<leftarrow> memcpy m1 q name (length (nm @ [0])); Some (0, m2) } } = Some (0, m')"
    using run'(2) nmo(1,3) nl L(3) ta
    by (simp add: P_def q_def Let_def L_def [symmetric] k_def [symmetric] cong: if_cong)
  with splice_struct_spec [OF fd(1) low(1,2) kb(3) low(3) new] obtain m1 where
    m1: "fdt_splice_struct m fdt q (tag_size k) (tag_size L) = Some (0, m1)"
      "struct_spliced m m1 fdt q (tag_size k) (tag_size L)" "q + tag_size k \<le> fdt + rw_end m fdt" by auto
  have e1: "edits m m1 fdt" "rw_end m1 fdt = rw_end m fdt + tag_size L - tag_size k"
    using m1(2) same_butD [of "{12, 36}" m m1 fdt 32] by (simp_all add: struct_spliced_def rw_end_def)
  have top: "q + tag_size (int (length (nm @ [0]))) \<le> fdt + rw_end m1 fdt" using m1(3) unfolding L(4) by (simp add: e1(2))
  have ap': "apart m fdt name (int (length (nm @ [0])))" using ap by (simp add: add.commute)
  obtain m2 where m2: "memcpy m1 q name (length (nm @ [0])) = Some (q, m2)" "bytes_at m2 q (nm @ [0])"
    "writes_only m1 m2 q L" "edits m m2 fdt"
    using rw_fill [OF e1(1) c_string_bytes(7) [OF n] ap' low(1) top] unfolding L(4) by metis
  have mm: "m2 = m'" using go m1(1) m2(1) by simp
  then show "edits m m' fdt" using m2(4) by simp
  have s1: "struct_spliced m m1 fdt (prop_addr m fdt (items_size pre + 4)) (tag_size k) (tag_size L)"
    using m1(2) by (simp add: q_def P_def add.assoc)
  have w: "writes_only m1 m' (prop_addr m fdt P) (4 + tag_size L)"
    using writes_only_mono [OF m2(3), of "prop_addr m fdt P" "4 + tag_size L"] tag_size_bounds(1) [of L] mm by (simp add: q_def)
  have in_s: "0 \<le> P + 4" "P + 4 + tag_size k \<le> h_size_struct m fdt" using zz fit by simp_all
  note k1 = struct_spliced_keeps [OF fd(1) s1 [folded P_def] in_s kb(3) new(1)]
  have w1: "writes_only m1 m' (prop_addr m1 fdt (P + 4)) L" using m2(3) mm k1(2) by (simp add: q_def add.assoc)
  have "P + 4 + L \<le> h_size_struct m1 fdt" using k1(4) fit tag_size_bounds(1) [of L] by simp
  note k2 = write_keeps [OF k1(1) w1 in_s(1) L(1) this]
  have "fdt32_ld m' (prop_addr m fdt P) = fdt32_ld m1 (prop_addr m fdt P)"
    by (rule fdt32_ld_frame [OF m2(3) [unfolded mm]]) (simp add: q_def)
  also have "\<dots> = fdt32_ld m (prop_addr m fdt P)"
    by (rule fdt32_ld_bytes) (use s1 sp(1) in \<open>simp_all add: struct_spliced_def P_def\<close>)
  finally have "items_at (name_ref m' fdt) m' (prop_addr m' fdt (items_size pre)) [Open_item nm]"
    using at m2(2) mm z k1(2) k2(2) by (simp add: P_def q_def)
  then have "finished m' fdt (pre @ [Open_item nm] @ its)"
    by (intro finished_spliced [OF f' s1]) (use w kb new in \<open>simp_all add: P_def k_def L_def\<close>)
  then show "finished m' fdt (pre @ Open_item nm # its)" by simp
qed

section \<open>Appending to a property\<close>

definition value_of :: "u8 list \<Rightarrow> (u8 list \<times> u8 list) list \<Rightarrow> u8 list" where
  "value_of nm ps = (case find (\<lambda>(n, b). n = nm) ps of None \<Rightarrow> [] | Some (n, b) \<Rightarrow> b)"

lemma value_split: "nm \<notin> fst ` set us \<Longrightarrow> value_of nm (us @ (nm, b) # vs) = b"
  unfolding value_of_def by (induction us) auto

lemma appendprop_items:
  assumes f: "finished m fdt (pre @ Open_item nd # prop_items ps @ rest)" and e: "ends_props rest"
    and n: "c_string m name nm" and ap: "apart m fdt name (int (length nm) + 1)"
    and len: "int (length bs) + h_totalsize m fdt \<le> 2147483600"
    and bs: "bytes_at m val bs" "apart m fdt val (int (length bs))"
    and run: "fdt_appendprop m fdt (items_size pre) name val (int (length bs)) = Some (0, m')"
  shows "finished m' fdt (pre @ Open_item nd # prop_items (put nm (value_of nm ps @ bs) ps) @ rest) \<and> edits m m' fdt"
  using f e n
proof (cases rule: property_item)
  case (none err)
  note fd = finishedD [OF f] and z = c_string_bytes(6) [OF n]
  note run' = rw_probe_passes [OF fd(1) run [unfolded fdt_appendprop_def]]
  have off: "items_size pre \<le> INT32_MAX" using tag_at_bounds [OF fd(2) finished_tag(1) [OF f refl]] by simp
  define k where "k = int (length bs)"
  have k: "0 \<le> k" "k \<le> 2147483600" "nat (to_u32 k) = length bs"
    using len rw_end_bounds [OF fd(1)] by (simp_all add: k_def to_u32_id)
  have nl: "strlen m name = Some (int (length nm))" "to_s32 (int (length nm)) = int (length nm)"
    using c_string_strlen [OF n] c_string_bytes(5) [OF n] by simp_all
  from add_property_spec [OF fd(1) off n ap k(1,2)] obtain x q m1 where
    a: "fdt_add_property m fdt (items_size pre) name (int (length nm)) k = Some (x, q, m1)"
      "rw_result m m1 fdt x" "x = 0 \<longrightarrow> fdt + 40 \<le> q \<and> q + 12 + tag_size k \<le> fdt + rw_end m1 fdt" by blast
  have x: "x = 0" using run'(2) none(1) a(1) nl by (cases "x = 0") (simp_all add: k_def)
  have e1: "edits m m1 fdt" and q: "fdt + 40 \<le> q + 12" "q + 12 + tag_size (int (length bs)) \<le> fdt + rw_end m1 fdt"
    using a(2,3) x by (simp_all add: rw_result_def k_def)
  obtain m2 where m2: "memcpy m1 (q + 12) val (length bs) = Some (q + 12, m2)" "bytes_at m2 (q + 12) bs"
    "writes_only m1 m2 (q + 12) k" "edits m m2 fdt" unfolding k_def by (rule rw_fill [OF e1 bs q])
  have mm: "m2 = m'" using run'(2) none(1) a(1) nl x m2(1) k(3) by (simp add: k_def)
  have len': "int (length bs) \<le> 2147483600" using k(2) by (simp add: k_def)
  have put: "put nm (value_of nm ps @ bs) ps = (nm, bs) # ps"
    using none(3) find_name [of nm ps] by (simp add: put_def value_of_def)
  show ?thesis
  proof (rule add_property_placed [OF fd(1) off n ap k(1,2) a(1) [unfolded x]])
    fix nx so ma mb
    assume p: "fdt_check_node_offset m fdt (items_size pre) = Some nx" "has_string m ma fdt so nm" "q = prop_addr ma fdt nx"
      "struct_spliced ma mb fdt (prop_addr ma fdt nx) 0 (12 + tag_size k)"
      "writes_only mb m1 (prop_addr ma fdt nx) 12" "fdt32_ld m1 (prop_addr ma fdt nx) = Some FDT_PROP"
      "fdt32_ld m1 (prop_addr ma fdt nx + 4) = Some k" "fdt32_ld m1 (prop_addr ma fdt nx + 8) = Some (to_u32 so)"
    from setprop_adds [OF f off len' z p(1,2) p(4-8) [unfolded k_def] m2(3,2) [unfolded mm p(3) k_def]]
    show ?thesis using m2(4) mm by (simp add: put)
  qed
next
  case (found us b vs p)
  note fd = finishedD [OF f] and z = c_string_bytes(6) [OF n]
  note run' = rw_probe_passes [OF fd(1) run [unfolded fdt_appendprop_def]]
  have off: "items_size pre \<le> INT32_MAX" using tag_at_bounds [OF fd(2) finished_tag(1) [OF f refl]] by simp
  define k l a where "k = int (length bs)" and "l = int (length b)" and "a = prop_addr m fdt p"
  note rg = rw_prop_range [OF fd(1) found(6,7), unfolded found(9), folded l_def a_def]
  have kl: "0 \<le> k" "0 \<le> l" "k + l \<le> 2147483600" "0 \<le> k + l" "k + l \<le> 2147483640" "nat (to_u32 k) = length bs"
    "to_s32 (k + l) = k + l" "k + l = int (length (b @ bs))"
    using len rg(1,3) found(7) rw_bounds [OF fd(1)] by (simp_all add: k_def l_def to_u32_id to_s32_id)
  have ta: "fdt_tagalign l = tag_size l" "fdt_tagalign (k + l) = tag_size (k + l)" using rg(1,2) kl by (simp_all add: tagalign_size)
  have eq: "do { (err, m1) \<leftarrow> fdt_splice_struct m fdt (a + 12) (tag_size l) (tag_size (k + l));
      if err \<noteq> 0 then Some (err, m1) else do {
        m2 \<leftarrow> fdt32_set m1 (a + 4) (k + l);
        (_, m3) \<leftarrow> memcpy m2 (a + 12 + l) val (length bs); Some (0, m3) } } = Some (0, m')"
    using run'(2) found(4,5) kl(1-7) ta
    by (simp add: Let_def a_def [symmetric] l_def [symmetric] k_def [symmetric] cong: if_cong)
  show ?thesis
  proof (rule resize_at [OF fd(1) found(6,7) kl(4,5), unfolded found(9), folded a_def l_def])
    fix x assume "fdt_splice_struct m fdt (a + 12) (tag_size l) (tag_size (k + l)) = Some (x, m)" "x < 0"
    then show ?thesis using eq by simp
  next
    fix m1 m2
    assume m2: "fdt_splice_struct m fdt (a + 12) (tag_size l) (tag_size (k + l)) = Some (0, m1)"
      "struct_spliced m m1 fdt (a + 12) (tag_size l) (tag_size (k + l))" "fdt32_set m1 (a + 4) (k + l) = Some m2"
      "writes_only m1 m2 (a + 4) 4" "fdt32_ld m2 (a + 4) = Some (k + l)" "edits m m2 fdt"
      "a + 12 + tag_size (k + l) \<le> fdt + rw_end m2 fdt"
    have r2: "rw_ok m2 fdt" using m2(6) by (simp add: edits_def)
    have top: "a + 12 + l + int (length bs) \<le> fdt + h_totalsize m2 fdt"
      using m2(7) tag_size_bounds(1) [of "k + l"] rw_end_bounds(2) [OF r2] by (simp add: k_def)
    have low: "fdt \<le> a + 12 + l" "fdt + 40 \<le> a + 12 + l" using rg(6) kl(2) by simp_all
    obtain m3 where m3: "memcpy m2 (a + 12 + l) val (length bs) = Some (a + 12 + l, m3)" "bytes_at m3 (a + 12 + l) bs"
      "writes_only m2 m3 (a + 12 + l) k"
      unfolding k_def by (rule rw_copy [OF r2 edits_frame(1) [OF m2(6) bs] edits_frame(3) [OF m2(6) bs(2)] low(1) top])
    have mm: "m3 = m'" using eq m2(1,3) m3(1) by simp
    have "m' x = m x" if "a + 12 \<le> x" "x < a + 12 + l" for x
    proof -
      have "m1 x = m x" using m2(2) that tag_size_bounds(1) [of "k + l"] kl(1) by (simp add: struct_spliced_def)
      moreover have "m2 x = m1 x" by (rule writes_only_same [OF m2(4)]) (use that in simp)
      moreover have "m' x = m2 x" by (rule writes_only_same [OF m3(3) [unfolded mm]]) (use that in simp)
      ultimately show ?thesis by simp
    qed
    then have "bytes_at m' (a + 12) b" using found(10) by (simp add: bytes_at_iff a_def l_def)
    then have w: "bytes_at m' (a + 12) (b @ bs)" using m3(2) mm by (simp add: bytes_at_append l_def)
    have wo: "writes_only m2 m' (a + 12) (k + l)"
      by (rule writes_only_mono [OF m3(3) [unfolded mm]]) (use kl in simp_all)
    have "edits m m' fdt"
      by (rule edits_trans [OF m2(6) rw_body(1) [OF r2 m3(3) [unfolded mm] low(2)]]) (use top in \<open>simp add: k_def\<close>)
    moreover have "finished m' fdt (pre @ Open_item nd # prop_items (us @ (nm, b @ bs) # vs) @ rest)"
      by (rule setprop_replaces [OF f [unfolded found(1)] off _ z found(6-8,3)])
        (use m2(2,4,5) w wo kl(3,8) found(9) in \<open>simp_all add: a_def l_def add.commute [of "int (length bs)"]\<close>)
    ultimately show ?thesis using found(1,2) by (simp add: put_split value_split)
  qed
qed

end
