(* ===== verification/Fdt_Refine.thy ===== *)
theory Fdt_Refine
  imports Fdt_Items
begin

text \<open>
  Edits of trees given as data: an edit of \<^verbatim>\<open>libfdt/fdt_rw.c\<close> at the node a path leads to changes that node
  in the data and nothing else, over any number of edits, from building the tree to reading it back.
\<close>

section \<open>Edits of trees\<close>

fun node_name :: "dtree \<Rightarrow> u8 list" where
  "node_name (DNode nd ps ts) = nd"

fun splice_first :: "('a \<Rightarrow> bool) \<Rightarrow> ('a \<Rightarrow> 'a list) \<Rightarrow> 'a list \<Rightarrow> 'a list" where
  "splice_first P g [] = []"
| "splice_first P g (x # xs) = (if P x then g x @ xs else x # splice_first P g xs)"

text \<open>The node a path leads to, replaced by the trees \<open>g\<close> makes of it.\<close>

fun graft :: "(dtree \<Rightarrow> dtree list) \<Rightarrow> u8 list list \<Rightarrow> dtree \<Rightarrow> dtree list" where
  "graft g [] t = g t"
| "graft g (c # cs) (DNode nd ps ts) =
     [DNode nd ps (splice_first (\<lambda>t. name_fits (node_name t) c) (\<lambda>t. graft g cs t) ts)]"

abbreviation trees_items :: "dtree list \<Rightarrow> sw_item list" where
  "trees_items ts \<equiv> concat (map tree_items ts)"

lemma find_child_first:
  "find_child off nm ts = Some (q, t) \<Longrightarrow>
   \<exists>us vs. ts = us @ t # vs \<and> q = off + items_size (trees_items us) \<and>
     (\<forall>g. splice_first (\<lambda>t. name_fits (node_name t) nm) g ts = us @ g t @ vs)"
proof (induction off nm ts rule: find_child.induct)
  case (2 off nm nd ps ts us)
  show ?case
  proof (cases "name_fits nd nm")
    case True
    with 2(2) show ?thesis by (intro exI [of _ "[]"] exI [of _ us]) auto
  next
    case False
    with 2 obtain ws vs where "us = ws @ t # vs"
      "q = off + items_size (tree_items (DNode nd ps ts)) + items_size (trees_items ws)"
      "\<forall>g. splice_first (\<lambda>t. name_fits (node_name t) nm) g us = ws @ g t @ vs" by auto
    with False show ?thesis by (intro exI [of _ "DNode nd ps ts # ws"] exI [of _ vs]) auto
  qed
qed simp

lemma graft_context:
  "find_path off t ns = Some (q, u) \<Longrightarrow>
   \<exists>pre post. tree_items t = pre @ tree_items u @ post \<and> q = off + items_size pre \<and>
     (\<forall>g. trees_items (graft g ns t) = pre @ trees_items (g u) @ post)"
proof (induction off t ns rule: find_path.induct)
  case (1 off t)
  then show ?case by (intro exI [of _ "[]"]) simp
next
  case (2 off nd ps ts c cs)
  define base where "base = off + items_size (Open_item nd # prop_items ps)"
  from 2(2) obtain q' t' where c: "find_child base c ts = Some (q', t')" "find_path q' t' cs = Some (q, u)"
    by (auto simp: base_def split: option.splits)
  from find_child_first [OF c(1)] obtain us vs where u: "ts = us @ t' # vs" "q' = base + items_size (trees_items us)"
    "\<And>g. splice_first (\<lambda>t. name_fits (node_name t) c) g ts = us @ g t' @ vs" by blast
  from 2(1) [OF c(1) [unfolded base_def] refl c(2)] obtain pre post where
    ih: "tree_items t' = pre @ tree_items u @ post" "q = q' + items_size pre"
      "\<And>g. trees_items (graft g cs t') = pre @ trees_items (g u) @ post" by blast
  show ?case
    by (rule exI [of _ "Open_item nd # prop_items ps @ trees_items us @ pre"],
        rule exI [of _ "post @ trees_items vs @ [Close_item]"])
      (simp add: u(1,2) u(3) [unfolded u(1)] ih base_def)
qed

text \<open>
  The edits of \<^verbatim>\<open>libfdt/fdt_rw.c\<close> at a node, and what each is on the data.  Strings and values that are
  passed lie outside the tree.
\<close>

datatype tree_edit = Set_value int int int | Append_value int int int | Del_value int
  | Set_name int | Add_node int | Del_node

fun edit_run :: "mem \<Rightarrow> int \<Rightarrow> int \<Rightarrow> tree_edit \<Rightarrow> (int \<times> mem) option" where
  "edit_run m fdt node (Set_value name val len) = fdt_setprop m fdt node name val len"
| "edit_run m fdt node (Append_value name val len) = fdt_appendprop m fdt node name val len"
| "edit_run m fdt node (Del_value name) = fdt_delprop m fdt node name"
| "edit_run m fdt node (Set_name name) = fdt_set_name m fdt node name"
| "edit_run m fdt node (Add_node name) = fdt_add_subnode m fdt node name"
| "edit_run m fdt node Del_node = fdt_del_node m fdt node"

fun with_props :: "((u8 list \<times> u8 list) list \<Rightarrow> (u8 list \<times> u8 list) list) \<Rightarrow> dtree \<Rightarrow> dtree list" where
  "with_props h (DNode nd ps ts) = [DNode nd (h ps) ts]"

fun with_name :: "u8 list \<Rightarrow> dtree \<Rightarrow> dtree list" where
  "with_name nm (DNode nd ps ts) = [DNode nm ps ts]"

fun with_child :: "u8 list \<Rightarrow> dtree \<Rightarrow> dtree list" where
  "with_child nm (DNode nd ps ts) = [DNode nd ps (DNode nm [] [] # ts)]"

definition passed_string :: "mem \<Rightarrow> int \<Rightarrow> int \<Rightarrow> u8 list \<Rightarrow> bool" where
  "passed_string m fdt p s \<longleftrightarrow> c_string m p s \<and> apart m fdt p (int (length s) + 1) \<and> int (length s) \<le> 2147483600"

definition passed_bytes :: "mem \<Rightarrow> int \<Rightarrow> int \<Rightarrow> u8 list \<Rightarrow> bool" where
  "passed_bytes m fdt p bs \<longleftrightarrow> bytes_at m p bs \<and> apart m fdt p (int (length bs)) \<and>
     int (length bs) + h_totalsize m fdt \<le> 2147483600"

inductive edit_says :: "mem \<Rightarrow> int \<Rightarrow> tree_edit \<Rightarrow> (dtree \<Rightarrow> dtree list) \<Rightarrow> bool" for m fdt where
  set_value: "passed_string m fdt name nm \<Longrightarrow> passed_bytes m fdt val bs \<Longrightarrow>
    edit_says m fdt (Set_value name val (int (length bs))) (with_props (put nm bs))"
| append_value: "passed_string m fdt name nm \<Longrightarrow> passed_bytes m fdt val bs \<Longrightarrow>
    edit_says m fdt (Append_value name val (int (length bs))) (with_props (\<lambda>ps. put nm (value_of nm ps @ bs) ps))"
| del_value: "passed_string m fdt name nm \<Longrightarrow> edit_says m fdt (Del_value name) (with_props (drop_prop nm))"
| set_name: "passed_string m fdt name nm \<Longrightarrow> edit_says m fdt (Set_name name) (with_name nm)"
| add_node: "passed_string m fdt name nm \<Longrightarrow> edit_says m fdt (Add_node name) (with_child nm)"
| del_node: "edit_says m fdt Del_node (\<lambda>t. [])"

lemma edit_items:
  assumes f: "finished m fdt (pre @ tree_items u @ post)" and s: "edit_says m fdt e g"
    and run: "edit_run m fdt (items_size pre) e = Some (r, m')" "0 \<le> r"
  shows "finished m' fdt (pre @ trees_items (g u) @ post) \<and> edits m m' fdt"
proof -
  obtain nd ps ts where u: "u = DNode nd ps ts" by (cases u)
  define rest where "rest = trees_items ts @ Close_item # post"
  have e: "ends_props rest" unfolding rest_def by (rule ends_props_children)
  have f': "finished m fdt (pre @ Open_item nd # prop_items ps @ rest)" using f u by (simp add: rest_def)
  note fd = finishedD [OF f'] and t0 = blob_bounds(3) [OF finishedD(2) [OF f']]
  have off: "items_size pre \<le> INT32_MAX" using tag_at_bounds [OF fd(2) finished_tag(1) [OF f' refl]] by simp
  show ?thesis using s
  proof cases
    case (set_value name nm val bs)
    then have a: "c_string m name nm" "apart m fdt name (int (length nm) + 1)" "int (length bs) \<le> 2147483600"
      "bytes_at m val bs" "apart m fdt val (int (length bs))" using t0 by (simp_all add: passed_string_def passed_bytes_def)
    have "r = 0" using setprop_spec [OF fd(1) off a] run set_value(1) by fastforce
    with setprop_items [OF f' e a] run(1) set_value(1,2) show ?thesis by (simp add: u rest_def)
  next
    case (append_value name nm val bs)
    then have a: "c_string m name nm" "apart m fdt name (int (length nm) + 1)"
      "int (length bs) + h_totalsize m fdt \<le> 2147483600"
      "bytes_at m val bs" "apart m fdt val (int (length bs))" by (simp_all add: passed_string_def passed_bytes_def)
    have "r = 0" using appendprop_spec [OF fd(1) off a] run append_value(1) by fastforce
    with appendprop_items [OF f' e a] run(1) append_value(1,2) show ?thesis by (simp add: u rest_def)
  next
    case (del_value name nm)
    then have a: "c_string m name nm" by (simp add: passed_string_def)
    have "r = 0" using delprop_spec [OF fd(1) off a] run del_value(1) by fastforce
    with delprop_items [OF f' e a] run(1) del_value(1,2) show ?thesis by (simp add: u rest_def)
  next
    case (set_name name nm)
    then have a: "c_string m name nm" "apart m fdt name (int (length nm) + 1)" "int (length nm) \<le> 2147483600"
      by (simp_all add: passed_string_def)
    have "r = 0" using set_name_spec [OF fd(1) off a] run set_name(1) by fastforce
    with set_name_items [OF f' a] run(1) set_name(1,2) show ?thesis by (simp add: u rest_def)
  next
    case (add_node name nm)
    then have a: "c_string m name nm" "apart m fdt name (int (length nm) + 1)" "int (length nm) \<le> 2147483600"
      by (simp_all add: passed_string_def)
    with add_subnode_items [OF f' e a, of r m'] run add_node(1,2) show ?thesis by (simp add: u rest_def)
  next
    case del_node
    with del_node_items [OF f, of r m'] run show ?thesis by simp
  qed
qed

text \<open>
  A run of edits: each at the node that a path leads to at that moment, each successful, on the memory
  and on the data side by side.
\<close>

inductive tree_steps :: "int \<Rightarrow> literals \<Rightarrow> mem \<Rightarrow> dtree \<Rightarrow> mem \<Rightarrow> dtree \<Rightarrow> bool" for fdt lit where
  stop: "tree_steps fdt lit m t m t"
| step: "c_string m path (path_bytes ns) \<Longrightarrow> \<forall>c \<in> set ns. component c \<Longrightarrow> fdt_path_offset m lit fdt path = Some off \<Longrightarrow>
    0 \<le> off \<Longrightarrow> edit_says m fdt e g \<Longrightarrow> edit_run m fdt off e = Some (r, m1) \<Longrightarrow> 0 \<le> r \<Longrightarrow> graft g ns t = [t1] \<Longrightarrow>
    tree_steps fdt lit m1 t1 m' t' \<Longrightarrow> tree_steps fdt lit m t m' t'"

text \<open>One edit at a path.\<close>

lemma edit_at_path:
  assumes f: "finished m fdt (tree_items t)" and p: "c_string m path (path_bytes ns)" "\<forall>c \<in> set ns. component c"
      "fdt_path_offset m lit fdt path = Some off" "0 \<le> off"
    and e: "edit_says m fdt e g" "edit_run m fdt off e = Some (r, m')" "0 \<le> r"
  shows "finished m' fdt (trees_items (graft g ns t)) \<and> edits m m' fdt"
proof -
  obtain u where u: "find_path 0 t ns = Some (off, u)"
    using finished_path(1) [OF f p(1,2), of lit] p(3,4) by (auto split: option.splits)
  from graft_context [OF u] obtain pre post where
    c: "tree_items t = pre @ tree_items u @ post" "off = items_size pre"
      "\<And>g. trees_items (graft g ns t) = pre @ trees_items (g u) @ post" by auto
  from edit_items [OF f [unfolded c(1)] e(1) e(2) [unfolded c(2)] e(3)] c(3) show ?thesis by simp
qed

lemma tree_steps_finished:
  "tree_steps fdt lit m t m' t' \<Longrightarrow> finished m fdt (tree_items t) \<Longrightarrow>
   finished m' fdt (tree_items t') \<and> writes_only m m' fdt (h_totalsize m fdt)"
proof (induction rule: tree_steps.induct)
  case (stop m t)
  then show ?case by (simp add: writes_only_def)
next
  case (step m path ns off e g r m1 t t1 m' t')
  from edit_at_path [OF step.prems step.hyps(1-7)] step.hyps(8) have
    s: "finished m1 fdt (tree_items t1)" "edits m m1 fdt" by simp_all
  then have w: "writes_only m m1 fdt (h_totalsize m fdt)" "h_totalsize m1 fdt \<le> h_totalsize m fdt"
    by (simp_all add: edits_def)
  from step.IH [OF s(1)] have "finished m' fdt (tree_items t')" "writes_only m1 m' fdt (h_totalsize m1 fdt)" by simp_all
  with writes_only_trans [OF w(1) writes_only_mono [of m1 m' fdt "h_totalsize m1 fdt" fdt "h_totalsize m fdt"]] w(2)
  show ?case by simp
qed

section \<open>Room for edits\<close>

text \<open>\<open>fdt_open_into\<close> on a finished tree copies it to a buffer of another size.\<close>

lemma moved_header:
  assumes c: "\<And>i. 0 \<le> i \<Longrightarrow> i < n \<Longrightarrow> m' (buf + i) = m (fdt + i)" and k: "0 \<le> k" "k + 4 \<le> n"
  shows "hdr m' buf k = hdr m fdt k"
proof -
  have "fdt32_ld m' (fdt + k + (buf - fdt)) = fdt32_ld m (fdt + k)"
  proof (rule fdt32_ld_shift)
    fix a assume "fdt + k \<le> a" "a < fdt + k + 4"
    with c [of "a - fdt"] k show "m' (a + (buf - fdt)) = m a" by (simp add: algebra_simps)
  qed
  then show ?thesis by (simp add: hdr_def algebra_simps)
qed

lemma open_fields:
  assumes h: "mapped m buf 40" and v: "0 \<le> ss" "ss \<le> UINT32_MAX" "0 \<le> ts" "ts \<le> UINT32_MAX"
  obtains m1 m2 m' where "fdt_set_version m buf 17 = Some m1" "fdt_set_size_dt_struct m1 buf ss = Some m2"
    "fdt_set_totalsize m2 buf ts = Some m'" "writes_only m m' buf 40" "h_version m' buf = 17" "h_size_struct m' buf = ss"
    "h_totalsize m' buf = ts" "\<forall>k \<in> {0, 8, 12, 16, 24, 32}. hdr m' buf k = hdr m buf k"
proof -
  obtain m1 where m1: "fdt32_set m (buf + 20) 17 = Some m1" "writes_only m m1 (buf + 20) 4" "mapped m1 buf 40"
    "hdr m1 buf 20 = to_u32 17" "\<And>j. j + 4 \<le> 20 \<or> 20 + 4 \<le> j \<Longrightarrow> hdr m1 buf j = hdr m buf j"
    by (rule hdr_set [OF h, of 20 17]) auto
  obtain m2 where m2: "fdt32_set m1 (buf + 36) ss = Some m2" "writes_only m1 m2 (buf + 36) 4" "mapped m2 buf 40"
    "hdr m2 buf 36 = to_u32 ss" "\<And>j. j + 4 \<le> 36 \<or> 36 + 4 \<le> j \<Longrightarrow> hdr m2 buf j = hdr m1 buf j"
    by (rule hdr_set [OF m1(3), of 36 ss]) auto
  obtain m3 where m3: "fdt32_set m2 (buf + 4) ts = Some m3" "writes_only m2 m3 (buf + 4) 4" "mapped m3 buf 40"
    "hdr m3 buf 4 = to_u32 ts" "\<And>j. j + 4 \<le> 4 \<or> 4 + 4 \<le> j \<Longrightarrow> hdr m3 buf j = hdr m2 buf j"
    by (rule hdr_set [OF m2(3), of 4 ts]) auto
  show thesis
  proof (rule that [of m1 m2 m3])
    show "writes_only m m3 buf 40"
      by (rule writes_only_trans [of _ m2], rule writes_only_trans [of _ m1])
        (rule writes_only_mono [OF m1(2)] writes_only_mono [OF m2(2)] writes_only_mono [OF m3(2)]; simp)+
    show "\<forall>k \<in> {0, 8, 12, 16, 24, 32}. hdr m3 buf k = hdr m buf k" using m1(5) m2(5) m3(5) by simp
  qed (use m1 m2 m3 v in \<open>simp_all add: fdt_set_defs to_u32_id\<close>)
qed

lemma finished_copied:
  assumes f: "finished m fdt is" and b: "0 < buf" "buf mod 8 = 0" "n < INT32_MAX" "buf + n \<le> 4294967296"
      "mapped m' buf 40" "mapped m' buf (4 * ((n + 3) div 4))" "h_totalsize m fdt \<le> n"
    and h: "h_version m' buf = 17" "h_size_struct m' buf = h_size_struct m fdt" "h_totalsize m' buf = n"
      "\<forall>k \<in> {0, 8, 12, 16, 24, 32}. hdr m' buf k = hdr m fdt k"
    and c: "\<And>i. 40 \<le> i \<Longrightarrow> i < h_totalsize m fdt \<Longrightarrow> m' (buf + i) = m (fdt + i)"
  shows "finished m' buf is"
proof -
  note fd = finishedD [OF f] and bd = rw_bounds [OF finishedD(1) [OF f]]
  define d where "d = buf - fdt"
  have mv: "m' (a + d) = m a" if "fdt + 40 \<le> a" "a < fdt + h_totalsize m fdt" for a
    using c [of "a - fdt"] that by (simp add: d_def algebra_simps)
  have lc: "h_last_comp m fdt \<le> 17" using fd(1) by (simp add: rw_ok_def)
  have r: "rw_ok m' buf" using b h bd lc fd(6) by (simp add: rw_ok_def)
  have str: "name_ref m' buf v nm" if "name_ref m fdt v nm" for v nm
  proof (rule str_ref_moved [OF that])
    fix i assume "0 \<le> i" "i < h_size_strings m fdt"
    with c [of "h_off_strings m fdt + i"] bd h(4) show "m' (buf + h_off_strings m' buf + i) = m (fdt + h_off_strings m fdt + i)"
      by (simp add: add.assoc)
  qed (use h(4) in simp)
  have z: "0 \<le> items_size is" by (rule items_size_nonneg(1))
  have at: "fdt + h_off_struct m fdt + d = buf + h_off_struct m' buf" using h(4) by (simp add: d_def)
  have "items_at (name_ref m' buf) m' (buf + h_off_struct m' buf) is" unfolding at [symmetric]
    by (rule items_at_shift [OF fd(10) _ str]) (use fd(7) bd in \<open>auto intro!: mv\<close>)
  moreover have "fdt32_ld m' (prop_addr m fdt (items_size is) + d) = fdt32_ld m (prop_addr m fdt (items_size is))"
    by (rule fdt32_ld_shift, rule mv) (use fd(7) bd z in simp_all)
  moreover have "prop_addr m fdt (items_size is) + d = buf + h_off_struct m' buf + items_size is" using at by simp
  moreover have "header_ok m' buf" using rw_header_ok [OF r] finished_aligned [OF f] h(4) by simp
  ultimately show ?thesis using r fd(7,11) h(2) unfolding finished_def by simp
qed

definition buffer_for :: "mem \<Rightarrow> int \<Rightarrow> int \<Rightarrow> bool" where
  "buffer_for m buf n \<longleftrightarrow> 0 < buf \<and> buf mod 8 = 0 \<and> n < INT32_MAX \<and> buf + n \<le> 4294967296 \<and>
     mapped m buf (4 * ((n + 3) div 4))"

text \<open>C9: \<open>fdt_open_into\<close> copies a tree that the sequential writer has built into a buffer of another size, which may
  overlap the tree: when the buffer is large enough it writes only there and leaves a tree with the same nodes,
  properties and values whose size is that of the buffer, otherwise it returns \<open>-FDT_ERR_NOSPACE\<close> without a
  write.\<close>

theorem open_into_copies:
  assumes f: "finished m fdt is" and rs: "reserved m fdt (es @ [(0, 0)])" and b: "buffer_for m buf n" and n: "0 \<le> n"
  shows "if h_totalsize m fdt \<le> n
    then \<exists>m'. fdt_open_into m fdt buf n = Some (0, m') \<and> finished m' buf is \<and> h_totalsize m' buf = n \<and> writes_only m m' buf n
    else fdt_open_into m fdt buf n = Some (- FDT_ERR_NOSPACE, m)"
proof -
  note fd = finishedD [OF f] and bd = rw_bounds [OF finishedD(1) [OF f]]
  define k where "k = int (length (takeWhile (\<lambda>e. snd e \<noteq> 0) es))"
  have kb: "0 \<le> k" "k \<le> int (length es)" using length_takeWhile_le [of "\<lambda>e. snd e \<noteq> 0" es] by (simp_all add: k_def)
  have rv: "h_off_rsvmap m fdt = 40" "h_off_struct m fdt = 56 + 16 * int (length es)" using rs by (simp_all add: reserved_def)
  have num: "fdt_num_mem_rsv m fdt = Some k" unfolding k_def by (rule built_reserved(2) [OF f rs])
  have u: "to_s32 (k * 16 + 16) = k * 16 + 16" using kb rv bd by (simp add: to_s32_id)
  have mo: "fdt_blocks_misordered m fdt ((k + 1) * 16) (h_size_struct m fdt) = Some False"
    using rw_misordered [OF fd(1), of "(k + 1) * 16"] kb rv bd by simp
  have ss: "open_struct_size m fdt = Some (h_size_struct m fdt)"
    using bd by (simp add: open_struct_size_def rw_simps [OF fd(1)] to_s32_id)
  have t0: "0 \<le> h_totalsize m fdt" "40 \<le> h_totalsize m fdt" using bd by simp_all
  have go: "fdt_open_into m fdt buf n = do { (err, ma) \<leftarrow> fdt_move m fdt buf n;
       if err \<noteq> 0 then Some (err, ma) else do {
       mb \<leftarrow> fdt_set_version ma buf 17; mc \<leftarrow> fdt_set_size_dt_struct mb buf (h_size_struct m fdt);
       md \<leftarrow> fdt_set_totalsize mc buf n; Some (0, md) } }"
    using num mo ss bd t0 kb by (simp add: fdt_open_into_def rw_ro_probe [OF fd(1)] rw_simps [OF fd(1)] u Let_def)
  have bf: "0 < buf" "buf mod 8 = 0" "n < INT32_MAX" "buf + n \<le> 4294967296" "mapped m buf (4 * ((n + 3) div 4))"
    using b by (simp_all add: buffer_for_def)
  have un: "to_u32 n = n" using bf(3) n by (simp add: to_u32_id)
  show ?thesis
  proof (cases "h_totalsize m fdt \<le> n")
    case False
    then show ?thesis
      using go un n t0 by (simp add: fdt_move_def rw_ro_probe [OF fd(1)] rw_simps [OF fd(1)])
  next
    case room: True
    have "4 * ((n + 3) div 4) \<ge> n" by presburger
    then have mb: "mapped m buf n" using mapped_sub [OF bf(5)] by simp
    define ts where "ts = nat (h_totalsize m fdt)"
    have ts: "int ts = h_totalsize m fdt" using t0 by (simp add: ts_def)
    obtain m1 where m1: "memmove m buf fdt ts = Some (buf, m1)" "writes_only m m1 buf (int ts)"
      "\<And>i. 0 \<le> i \<Longrightarrow> i < int ts \<Longrightarrow> m1 (buf + i) = m (fdt + i)"
      by (rule memmove_spec [of m fdt ts buf]) (use rw_mapped [OF fd(1)] mapped_sub [OF mb] room ts in auto)
    have mv: "fdt_move m fdt buf n = Some (0, m1)"
      using m1(1) room un rw_ro_probe [OF fd(1)] t0 by (simp add: fdt_move_def rw_simps [OF fd(1)] ts_def)
    have mp1: "mapped m1 buf k" if "k \<le> 4 * ((n + 3) div 4)" for k
      by (rule writes_only_mapped [OF m1(2)], rule mapped_sub [OF bf(5)]) (use that in simp_all)
    have h1: "mapped m1 buf 40" by (rule mp1) (use room t0 in presburger)
    have hc: "hdr m1 buf k = hdr m fdt k" if "0 \<le> k" "k \<le> 36" for k
      by (rule moved_header [of "int ts"]) (use m1(3) that t0 ts in auto)
    have v: "0 \<le> h_size_struct m fdt" "h_size_struct m fdt \<le> UINT32_MAX" "0 \<le> n" "n \<le> UINT32_MAX"
      using bd room bf(3) by simp_all
    obtain ma mb' m2 where o: "fdt_set_version m1 buf 17 = Some ma" "fdt_set_size_dt_struct ma buf (h_size_struct m fdt) = Some mb'"
      "fdt_set_totalsize mb' buf n = Some m2" "writes_only m1 m2 buf 40" "h_version m2 buf = 17"
      "h_size_struct m2 buf = h_size_struct m fdt" "h_totalsize m2 buf = n" "\<forall>k \<in> {0, 8, 12, 16, 24, 32}. hdr m2 buf k = hdr m1 buf k"
      by (rule open_fields [OF h1 v])
    have run: "fdt_open_into m fdt buf n = Some (0, m2)" using go mv o(1-3) by simp
    have mp2: "mapped m2 buf k" if "k \<le> 4 * ((n + 3) div 4)" for k
      using writes_only_mapped [OF o(4) mp1 [OF that]] by simp
    have "finished m2 buf is"
    proof (rule finished_copied [OF f bf(1-4) mp2 mp2 [OF order_refl] room])
      show "m2 (buf + i) = m (fdt + i)" if "40 \<le> i" "i < h_totalsize m fdt" for i
        using writes_only_same [OF o(4), of "buf + i"] m1(3) [of i] that ts by simp
      show "\<forall>k \<in> {0, 8, 12, 16, 24, 32}. hdr m2 buf k = hdr m fdt k" using o(8) hc by simp
      show "40 \<le> 4 * ((n + 3) div 4)" using room t0 by presburger
    qed (use o(5-7) in simp_all)
    moreover have "h_totalsize m2 buf = n" using o(7) by simp
    moreover have "writes_only m m2 buf n"
    proof (rule writes_only_trans)
      show "writes_only m m1 buf n" by (rule writes_only_mono [OF m1(2)]) (use ts room in simp_all)
      show "writes_only m1 m2 buf n" by (rule writes_only_mono [OF o(4) ]) (use t0 room in simp_all)
    qed
    ultimately show ?thesis using run room by auto
  qed
qed

section \<open>Properties\<close>

text \<open>C4: editing a tree is editing its data: after any number of successful edits of a tree in memory, each at the
  node some path leads to (setting, appending to and deleting a property, renaming a node, adding and deleting a
  subnode), a lookup by any path and any name gives what following the path and the name through the edited data
  gives, and only the tree was written; so every edit changes what it says and leaves every other node and property
  as it was.\<close>

theorem edited_tree_reads:
  assumes "finished m fdt (tree_items t)" "tree_steps fdt lit m t m' t'"
    and "c_string m' path (path_bytes ns)" "\<forall>c \<in> set ns. component c" "c_string m' name nm"
  shows "writes_only m m' fdt (h_totalsize m fdt) \<and>
    (case find_path 0 t' ns of
       None \<Rightarrow> fdt_path_offset m' lit fdt path = Some (- FDT_ERR_NOTFOUND)
     | Some (off, u) \<Rightarrow> fdt_path_offset m' lit fdt path = Some off \<and>
         (case find (\<lambda>(n, v). n = nm) (node_props u) of
            None \<Rightarrow> fdt_getprop m' fdt off name = Some (0, - FDT_ERR_NOTFOUND)
          | Some (n, v) \<Rightarrow> \<exists>a. fdt_getprop m' fdt off name = Some (a, int (length v)) \<and> a \<noteq> 0 \<and> bytes_at m' a v))"
  using finished_tree_reads [OF _ assms(3-5), of fdt t' lit] tree_steps_finished [OF assms(2,1)] by simp

text \<open>
  The tree \<open>cpu_tree\<close> in 256 bytes at 4096, with \<open>/\<close> at 256, \<open>/cpu\<close> at 260, \<open>reg\<close> at 268, \<open>mem\<close> at 272
  and \<open>/mem\<close> at 276.
\<close>

definition edit_names :: "u8 list list" where
  "edit_names = [[47, 0, 0, 0, 47, 99, 112, 117, 0, 0, 0, 0, 114, 101, 103, 0],
     [109, 101, 109, 0, 47, 109, 101, 109, 0, 0, 0, 0, 0, 0, 0, 0]]"

definition edit_tree :: "u8 list list" where
  "edit_tree = [[208, 13, 254, 237, 0, 0, 1, 0, 0, 0, 0, 56, 0, 0, 0, 104],
     [0, 0, 0, 40, 0, 0, 0, 17, 0, 0, 0, 16, 0, 0, 0, 0], [0, 0, 0, 4, 0, 0, 0, 48, 0, 0, 0, 0, 0, 0, 0, 0],
     [0, 0, 0, 0, 0, 0, 0, 0, 0, 0, 0, 1, 0, 0, 0, 0], [0, 0, 0, 1, 99, 112, 117, 64, 48, 0, 0, 0, 0, 0, 0, 3],
     [0, 0, 0, 4, 0, 0, 0, 0, 114, 101, 103, 0, 0, 0, 0, 2], [0, 0, 0, 2, 0, 0, 0, 9, 114, 101, 103, 0, 0, 0, 0, 0]] @
     replicate 9 (replicate 16 0)"

definition edit_mem :: mem where
  "edit_mem a = (if 4096 \<le> a then mem_rows edit_tree 4096 a else mem_rows edit_names 256 a)"

lemma edit_mem_fields:
  "hdr edit_mem 4096 0 = FDT_MAGIC" "h_totalsize edit_mem 4096 = 256" "h_off_struct edit_mem 4096 = 56"
  "h_off_strings edit_mem 4096 = 104" "h_off_rsvmap edit_mem 4096 = 40" "h_version edit_mem 4096 = 17"
  "h_last_comp edit_mem 4096 = 16" "h_size_strings edit_mem 4096 = 4" "h_size_struct edit_mem 4096 = 48"
  by code_simp+

lemma edit_mem_finished: "finished edit_mem 4096 (tree_items cpu_tree)"
proof -
  have "mapped (mem_rows edit_tree 4096) 4096 256" using mapped_mem_rows [of edit_tree 4096] by (simp add: edit_tree_def)
  then have m: "mapped edit_mem 4096 256" by (auto simp: mapped_def edit_mem_def)
  have r: "rw_ok edit_mem 4096" using m mapped_sub [OF m, of 4096 40] by (simp add: rw_ok_def edit_mem_fields)
  moreover have "header_ok edit_mem 4096" by (rule rw_header_ok [OF r]) (simp_all add: edit_mem_fields)
  moreover have "fdt32_ld edit_mem 4152 = Some 1" "bytes_at edit_mem 4156 [0]" "fdt32_ld edit_mem 4160 = Some 1"
    "bytes_at edit_mem 4164 [99, 112, 117, 64, 48, 0]" "fdt32_ld edit_mem 4172 = Some 3" "fdt32_ld edit_mem 4176 = Some 4"
    "fdt32_ld edit_mem 4180 = Some 0" "bytes_at edit_mem 4184 [114, 101, 103, 0]" "fdt32_ld edit_mem 4188 = Some 2"
    "fdt32_ld edit_mem 4192 = Some 2" "fdt32_ld edit_mem 4196 = Some 9" "bytes_at edit_mem 4200 [114, 101, 103, 0]"
    by code_simp+
  ultimately show ?thesis
    by (simp add: finished_def edit_mem_fields cpu_tree_def tag_size_def str_ref_def)
qed

lemma edit_mem_strings:
  "c_string edit_mem 256 (path_bytes [])" "c_string edit_mem 260 (path_bytes [[99, 112, 117]])"
  "c_string edit_mem 268 [114, 101, 103]" "c_string edit_mem 272 [109, 101, 109]" "bytes_at edit_mem 272 [109, 101, 109]"
proof -
  have "mapped (mem_rows edit_names 256) 256 32" using mapped_mem_rows [of edit_names 256] by (simp add: edit_names_def)
  then have m: "mapped edit_mem 256 32" by (auto simp: mapped_def edit_mem_def)
  have "cstr_at edit_mem 256 [47]" "cstr_at edit_mem 260 [47, 99, 112, 117]" "cstr_at edit_mem 268 [114, 101, 103]"
    "cstr_at edit_mem 272 [109, 101, 109]" by code_simp+
  then show "c_string edit_mem 256 (path_bytes [])" "c_string edit_mem 260 (path_bytes [[99, 112, 117]])"
    "c_string edit_mem 268 [114, 101, 103]" "c_string edit_mem 272 [109, 101, 109]"
    by (simp_all add: c_string_def path_bytes_def last_word_mapped_def mapped_sub [OF m])
  show "bytes_at edit_mem 272 [109, 101, 109]" by code_simp
qed

text \<open>\<open>reg\<close> of \<open>/cpu\<close> set to another value, and a node \<open>/mem\<close> added.\<close>

abbreviation edited_cpu :: dtree where
  "edited_cpu \<equiv> DNode [99, 112, 117, 64, 48] [([114, 101, 103], [109, 101, 109])] []"

lemma edit_mem_steps:
  "\<exists>m'. tree_steps 4096 demo_lit edit_mem cpu_tree m' (DNode [] [] [DNode [109, 101, 109] [] [], edited_cpu])"
proof -
  have "do { (r, m) \<leftarrow> edit_run edit_mem 4096 8 (Set_value 268 272 3); (q, m) \<leftarrow> edit_run m 4096 0 (Add_node 272);
      Some (r, q) } = Some (0, 8)" by code_simp
  then obtain m1 m2 where e: "edit_run edit_mem 4096 8 (Set_value 268 272 (int (length [109 :: u8, 101, 109]))) = Some (0, m1)"
    "edit_run m1 4096 0 (Add_node 272) = Some (8, m2)" by (auto simp: bind_eq_Some_conv)
  note s = edit_mem_strings and f = edit_mem_finished
  have c: "\<forall>c \<in> set [[99, 112, 117 :: u8]]. component c" by (simp add: component_def)
  have "find_path 0 cpu_tree [[99, 112, 117]] = Some (8, DNode [99, 112, 117, 64, 48] [([114, 101, 103], [114, 101, 103, 0])] [])"
    by code_simp
  with finished_path(1) [OF f s(2) c, of demo_lit] have p: "fdt_path_offset edit_mem demo_lit 4096 260 = Some 8" by simp
  have says: "edit_says edit_mem 4096 (Set_value 268 272 (int (length [109 :: u8, 101, 109])))
      (with_props (put [114, 101, 103] [109, 101, 109]))"
    by (rule edit_says.set_value) (use s in \<open>simp_all add: passed_string_def passed_bytes_def edit_mem_fields\<close>)
  have g: "graft (with_props (put [114, 101, 103] [109, 101, 109])) [[99, 112, 117]] cpu_tree = [DNode [] [] [edited_cpu]]"
    by code_simp
  have z: "0 \<le> (8::int)" "0 \<le> (0::int)" by simp_all
  from edit_at_path [OF f s(2) c p z(1) says e(1) z(2)] g have
    f1: "finished m1 4096 (tree_items (DNode [] [] [edited_cpu]))" and ed: "edits edit_mem m1 4096" by simp_all
  have s1: "c_string m1 256 (path_bytes [])" "c_string m1 272 [109, 101, 109]"
    by (rule edits_frame(2) [OF ed s(1)] edits_frame(2) [OF ed s(4)]; simp add: edit_mem_fields path_bytes_def)+
  have c0: "\<forall>c \<in> set ([] :: u8 list list). component c" by simp
  have p1: "fdt_path_offset m1 demo_lit 4096 256 = Some 0" using finished_path(1) [OF f1 s1(1) c0, of demo_lit] by simp
  have says1: "edit_says m1 4096 (Add_node 272) (with_child [109, 101, 109])"
    by (rule edit_says.add_node) (use s1(2) in \<open>simp add: passed_string_def\<close>)
  have g1: "graft (with_child [109, 101, 109]) [] (DNode [] [] [edited_cpu]) =
      [DNode [] [] [DNode [109, 101, 109] [] [], edited_cpu]]" by simp
  from tree_steps.step [OF s1(1) c0 p1 z(2) says1 e(2) z(1) g1 tree_steps.stop]
  have "tree_steps 4096 demo_lit m1 (DNode [] [] [edited_cpu]) m2 (DNode [] [] [DNode [109, 101, 109] [] [], edited_cpu])" .
  from tree_steps.step [OF s(2) c p z(1) says e(1) z(2) g this] show ?thesis by blast
qed

theorem edited_tree_reads_witness:
  "\<exists>m' a. tree_steps 4096 demo_lit edit_mem cpu_tree m' (DNode [] [] [DNode [109, 101, 109] [] [], edited_cpu]) \<and>
     fdt_path_offset m' demo_lit 4096 260 = Some 20 \<and> fdt_getprop m' 4096 20 268 = Some (a, 3) \<and>
     bytes_at m' a [109, 101, 109]"
proof -
  obtain m' where m': "tree_steps 4096 demo_lit edit_mem cpu_tree m' (DNode [] [] [DNode [109, 101, 109] [] [], edited_cpu])"
    using edit_mem_steps by blast
  have w: "writes_only edit_mem m' 4096 256" using tree_steps_finished [OF m' edit_mem_finished] by (simp add: edit_mem_fields)
  have s: "c_string m' 260 (path_bytes [[99, 112, 117]])" "c_string m' 268 [114, 101, 103]"
    by (rule c_string_frame [OF edit_mem_strings(2) w] c_string_frame [OF edit_mem_strings(3) w]; simp add: path_bytes_def)+
  have c: "\<forall>c \<in> set [[99, 112, 117 :: u8]]. component c" by (simp add: component_def)
  have "find_path 0 (DNode [] [] [DNode [109, 101, 109] [] [], edited_cpu]) [[99, 112, 117]] = Some (20, edited_cpu)" by code_simp
  with edited_tree_reads [OF edit_mem_finished m' s(1) c s(2)] m' show ?thesis by auto
qed

theorem open_into_copies_witness:
  "\<exists>m m'. sw_build path_buffer 4096 256 0 [] [Begin_call 260, Begin_call 264, Property_call 272 272 4, End_call, End_call] =
       Some (0, m) \<and>
     fdt_open_into m 4096 4096 512 = Some (0, m') \<and> finished m' 4096 (tree_items cpu_tree) \<and> h_totalsize m' 4096 = 512"
proof -
  have "60 + 16 * int (length ([] :: (int \<times> int) list)) + items_size (tree_items cpu_tree) +
      names_room (tree_items cpu_tree) \<le> 256"
    by (simp add: items_size_def names_room_def tag_size_def cpu_tree_def)
  from sw_build_room [OF cpu_request this] obtain m where
    m: "sw_build path_buffer 4096 256 0 [] [Begin_call 260, Begin_call 264, Property_call 272 272 4, End_call, End_call] =
       Some (0, m)" "finished m 4096 (tree_items cpu_tree)" "reserved m 4096 ([] @ [(0, 0)])" "h_totalsize m 4096 \<le> 256" by blast
  have "writes_only path_buffer m 4096 256" using sw_build_spec [OF cpu_request] m(1) by auto
  then have "mapped m 4096 512" by (rule writes_only_mapped) (simp add: mapped_def path_buffer_def)
  then have "buffer_for m 4096 512" by (simp add: buffer_for_def)
  from open_into_copies [OF m(2,3) this] m(1,4) show ?thesis by auto
qed

end
