(* ===== verification/Fdt_Subnode.thy ===== *)
theory Fdt_Subnode
  imports Fdt_Path Fdt_Merge
begin

text \<open>
  A subnode that \<open>fdt_add_subnode\<close> has added is found by \<open>fdt_subnode_offset\<close>: the walk from the parent
  over its properties is the same as before the edit and ends at the new node.
\<close>

section \<open>The walk up to the new node\<close>

lemma skip_properties_front:
  assumes f: "front m m' fdt p"
  shows "0 \<le> off \<Longrightarrow> off \<le> INT32_MAX \<Longrightarrow> skip_properties m fdt off = Some p \<Longrightarrow>
    fdt_next_node_loop m' fdt off d = fdt_next_node_loop m' fdt p d"
proof (induction "nat (INT32_MAX - off)" arbitrary: off rule: less_induct)
  case less
  have b: "blob m fdt" using f by (simp add: front_def rw_blob)
  show ?case
  proof (rule fdt_next_tag_cases [OF b less.prems(2)])
    fix nx assume "fdt_next_tag m fdt off = Some (FDT_END, nx)"
    then show ?thesis using less.prems(3) by (simp add: skip_properties.simps [of m fdt off])
  next
    fix tag nx assume t: "fdt_next_tag m fdt off = Some (tag, nx)" "tag_at m fdt off tag nx"
    note tb = tag_at_bounds [OF b t(2)]
    show ?thesis
    proof (cases "tag = FDT_PROP \<or> tag = FDT_NOP")
      case False
      with t(1) less.prems(3) show ?thesis by (simp add: skip_properties.simps [of m fdt off])
    next
      case True
      with t(1) less.prems(3) have s: "skip_properties m fdt nx = Some p"
        by (auto simp: skip_properties.simps [of m fdt off])
      have nx: "0 \<le> nx" "nx \<le> INT32_MAX" using tb by simp_all
      have "nx \<le> p" using skip_properties_spec [OF b nx] s by simp
      from front_tag_at(2) [OF f t(2) this] True
      have "fdt_next_node_loop m' fdt off d = fdt_next_node_loop m' fdt nx d"
        by (auto simp: fdt_next_node_loop.simps [of m' fdt off])
      also have "\<dots> = fdt_next_node_loop m' fdt p d" using tb nx s less.prems(1) by (intro less.hyps) auto
      finally show ?thesis .
    qed
  qed
qed

lemma skip_properties_within:
  assumes r: "rw_ok m fdt" "h_size_struct m fdt mod 4 = 0"
  shows "0 \<le> off \<Longrightarrow> off \<le> INT32_MAX \<Longrightarrow> off mod 4 = 0 \<Longrightarrow> off \<le> h_size_struct m fdt \<Longrightarrow>
    skip_properties m fdt off = Some p \<Longrightarrow> p mod 4 = 0 \<and> p \<le> h_size_struct m fdt"
proof (induction "nat (INT32_MAX - off)" arbitrary: off rule: less_induct)
  case less
  note b = rw_blob [OF r(1)]
  show ?case
  proof (rule fdt_next_tag_cases [OF b less.prems(2)])
    fix nx assume "fdt_next_tag m fdt off = Some (FDT_END, nx)"
    then show ?thesis using less.prems by (simp add: skip_properties.simps [of m fdt off])
  next
    fix tag nx assume t: "fdt_next_tag m fdt off = Some (tag, nx)" "tag_at m fdt off tag nx"
    note tb = tag_at_bounds [OF b t(2)]
    show ?thesis
    proof (cases "tag = FDT_PROP \<or> tag = FDT_NOP")
      case False
      with t(1) less.prems show ?thesis by (simp add: skip_properties.simps [of m fdt off])
    next
      case True
      with t(1) less.prems(5) have s: "skip_properties m fdt nx = Some p"
        by (auto simp: skip_properties.simps [of m fdt off])
      show ?thesis using tb s less.prems(1) tag_next_le [OF r t(2)] by (intro less.hyps [of nx]) auto
    qed
  qed
qed

text \<open>The tree with the new node in place.\<close>

lemma placed_node:
  fixes nm :: "u8 list"
  assumes r: "rw_ok m fdt" "h_size_struct m fdt mod 4 = 0" and p: "0 \<le> p" "p mod 4 = 0" "p \<le> h_size_struct m fdt"
  defines "a \<equiv> prop_addr m fdt p" and "g \<equiv> tag_size (int (length nm) + 1)"
  assumes s: "struct_spliced m m1 fdt a 0 (8 + g)" "writes_only m1 m' a (8 + g)"
    and n: "fdt32_ld m' a = Some FDT_BEGIN_NODE" "bytes_at m' (a + 4) nm" "m' (a + 4 + int (length nm)) = Some 0"
      "0 \<notin> set nm"
  shows "front m m' fdt p" "rw_ok m' fdt" "struct_fits m' fdt p (item_size (Open_item nm))"
    "item_at (\<lambda>_ _. False) m' (prop_addr m' fdt p) (Open_item nm)"
proof -
  have g: "0 \<le> g" using tag_size_bounds(1) [of "int (length nm) + 1"] by (simp add: g_def)
  have s1: "struct_spliced m m1 fdt (prop_addr m fdt p) 0 (8 + g)" using s(1) by (simp add: a_def)
  have z: "p + 0 \<le> h_size_struct m fdt" "(0::int) \<le> 0" "0 \<le> 8 + g" using p(3) g by simp_all
  note k1 = struct_spliced_keeps [OF r(1) s1 p(1) z]
  have s2: "writes_only m1 m' (prop_addr m1 fdt p) (8 + g)" using s(2) k1(2) by (simp add: a_def)
  have b2: "p + (8 + g) \<le> h_size_struct m1 fdt" using p(3) k1(4) by simp
  note k2 = write_keeps [OF k1(1) s2 p(1) z(3) b2]
  have f1: "front m m1 fdt p" and f2: "front m1 m' fdt p" by (rule k1(5), simp) (rule k2(5), simp)
  show "front m m' fdt p" using f1 f2 k1(2) k2(2) by (simp add: front_def)
  show r': "rw_ok m' fdt" by (rule k2(1))
  show "struct_fits m' fdt p (item_size (Open_item nm))"
    using p b2 k2(4) rw_bounds [OF r'] by (simp add: struct_fits_def g_def)
  have "bytes_at m' (a + 4) (nm @ [0])"
    using n(2,3) by (auto simp: bytes_at_iff nth_append less_Suc_eq)
  with n(1,4) k1(2) k2(2) show "item_at (\<lambda>_ _. False) m' (prop_addr m' fdt p) (Open_item nm)"
    by (simp add: a_def)
qed

text \<open>A parent that is not at a tag boundary is refused.\<close>

lemma add_subnode_aligned:
  assumes r: "rw_ok m fdt" and n: "c_string m name nm" and off: "0 \<le> node"
    and run: "fdt_add_subnode m fdt node name = Some (p, m')" "0 \<le> p"
  shows "node mod 4 = 0"
proof (rule ccontr)
  assume a: "node mod 4 \<noteq> 0"
  then have "fdt_next_node m fdt node (Some 0) = Some (- FDT_ERR_BADOFFSET, Some 0)"
    using off by (simp add: fdt_next_node_def fdt_check_node_offset_def)
  then have "fdt_subnode_offset_loop m fdt node 0 name k = Some (- FDT_ERR_BADOFFSET)" for k
    using off by (simp add: fdt_subnode_offset_loop.simps [of m fdt node 0]
      fdt_subnode_offset_loop.simps [of m fdt "- FDT_ERR_BADOFFSET"])
  then have s: "fdt_subnode_offset_namelen m fdt node name k = Some (- FDT_ERR_BADOFFSET)" for k
    using rw_ro_probe [OF r] rw_bounds [OF r] by (simp add: fdt_subnode_offset_namelen_def)
  show False
    by (rule rw_probe_cases [OF r])
      (use run s c_string_strlen [OF n] in \<open>simp_all add: fdt_add_subnode_def fdt_add_subnode_namelen_def\<close>)
qed

text \<open>The step from the parent to a node right behind its properties, and the hit there.\<close>

lemma subnode_hit:
  assumes c: "fdt_check_node_offset m fdt node = Some nx" "0 \<le> nx" "0 \<le> node"
    and l: "fdt_next_node_loop m fdt nx (Some 0) = Some (p, Some 1)" "0 \<le> p"
    and h: "fdt_nodename_eq m fdt p name k = Some True"
  shows "fdt_subnode_offset_loop m fdt node 0 name k = Some p"
proof -
  have "fdt_next_node m fdt node (Some 0) = Some (p, Some 1)" using c l by (simp add: fdt_next_node_def)
  with c l h show ?thesis
    by (simp add: fdt_subnode_offset_loop.simps [of m fdt node 0] fdt_subnode_offset_loop.simps [of m fdt p 1])
qed

section \<open>The property\<close>

text \<open>C6: a subnode that \<open>fdt_add_subnode\<close> has added to a tree with its blocks in order is the one that
  \<open>fdt_subnode_offset\<close> finds under its name afterwards, at the offset that was returned, and the node there
  has the name.\<close>

theorem add_subnode_found:
  assumes r: "rw_ok m fdt" "h_size_struct m fdt mod 4 = 0" and off: "node \<le> INT32_MAX" and n: "c_string m name nm"
    and ap: "apart m fdt name (int (length nm) + 1)" and len: "int (length nm) \<le> 2147483600"
    and run: "fdt_add_subnode m fdt node name = Some (p, m')" "0 \<le> p"
  shows "fdt_subnode_offset m' fdt node name = Some p \<and>
    (\<exists>a. fdt_get_name m' fdt p = Some (a, int (length nm)) \<and> cstr_at m' a nm)"
proof (rule add_subnode_cases [OF r(1) off n len])
  define g where "g = tag_size (int (length nm) + 1)"
  fix nx q
  assume t: "fdt_next_tag m fdt node = Some (FDT_BEGIN_NODE, nx)" "tag_at m fdt node FDT_BEGIN_NODE nx"
    and q: "skip_properties m fdt nx = Some q" "nx \<le> q" "q \<le> INT32_MAX"
    and eq: "fdt_add_subnode m fdt node name = (let nh = prop_addr m fdt q in do {
            (err, m1) \<leftarrow> fdt_splice_struct m fdt nh 0 (8 + tag_size (int (length nm) + 1));
            if err \<noteq> 0 then Some (err, m1) else do {
            m2 \<leftarrow> fdt32_set m1 nh FDT_BEGIN_NODE;
            (_, m3) \<leftarrow> memset m2 (nh + 4) 0 (nat (tag_size (int (length nm) + 1)));
            (_, m4) \<leftarrow> memcpy m3 (nh + 4) name (length nm);
            m5 \<leftarrow> fdt32_set m4 (nh + 4 + tag_size (int (length nm) + 1)) FDT_END_NODE;
            Some (q, m5) } })"
  note b = rw_blob [OF r(1)] and nb = c_string_bytes [OF n]
  note tb = tag_at_bounds [OF b t(2)]
  have nx: "0 \<le> nx" "nx \<le> INT32_MAX" "nx mod 4 = 0" using tb by simp_all
  note w = skip_properties_within [OF r nx tag_next_le [OF r t(2)] q(1)]
  have q0: "0 \<le> q" using q(2) nx by simp
  have ap': "apart m fdt name (int (length nm))" using ap by auto
  obtain m1 where pq: "q = p"
    and e: "edits m m' fdt" "struct_spliced m m1 fdt (prop_addr m fdt q) 0 (8 + tag_size (int (length nm) + 1))"
      "writes_only m1 m' (prop_addr m fdt q) (8 + tag_size (int (length nm) + 1))"
      "fdt32_ld m' (prop_addr m fdt q) = Some FDT_BEGIN_NODE" "bytes_at m' (prop_addr m fdt q + 4) nm"
      "m' (prop_addr m fdt q + 4 + int (length nm)) = Some 0"
  proof (rule place_node [OF r(1) q0 q(3) nb(1) ap' len])
    fix m1 m2 m3 m4 mm
    assume "fdt_splice_struct m fdt (prop_addr m fdt q) 0 (8 + tag_size (int (length nm) + 1)) = Some (0, m1)"
      "fdt32_set m1 (prop_addr m fdt q) FDT_BEGIN_NODE = Some m2"
      "memset m2 (prop_addr m fdt q + 4) 0 (nat (tag_size (int (length nm) + 1))) = Some (prop_addr m fdt q + 4, m3)"
      "memcpy m3 (prop_addr m fdt q + 4) name (length nm) = Some (prop_addr m fdt q + 4, m4)"
      "fdt32_set m4 (prop_addr m fdt q + 4 + tag_size (int (length nm) + 1)) FDT_END_NODE = Some mm"
      and s: "edits m mm fdt" "struct_spliced m m1 fdt (prop_addr m fdt q) 0 (8 + tag_size (int (length nm) + 1))"
      "writes_only m1 mm (prop_addr m fdt q) (8 + tag_size (int (length nm) + 1))"
      "fdt32_ld mm (prop_addr m fdt q) = Some FDT_BEGIN_NODE" "bytes_at mm (prop_addr m fdt q + 4) nm"
      "mm (prop_addr m fdt q + 4 + int (length nm)) = Some 0"
    with run eq have "q = p" "mm = m'" by (simp_all add: Let_def)
    with s that show thesis by blast
  qed (use run eq in \<open>simp add: Let_def\<close>)
  note pn = placed_node [OF r q0 conjunct1 [OF w] conjunct2 [OF w] e(2-6) nb(6)]
  have al: "node mod 4 = 0" by (rule add_subnode_aligned [OF r(1) n tb(1) run])
  have chk: "fdt_check_node_offset m fdt node = Some nx"
    using t(1) tb al by (simp add: fdt_check_node_offset_def)
  have chk': "fdt_check_node_offset m' fdt node = Some nx"
    by (rule front_check_node [OF pn(1) chk nx(1) q(2) off])
  note b' = rw_blob [OF pn(2)]
  have v: "16 \<le> h_version m' fdt" using rw_bounds(10) [OF pn(2)] by simp
  have "fdt_next_tag m' fdt q = Some (FDT_BEGIN_NODE, q + item_size (Open_item nm))"
    using item_tag_at(2) [OF b' v conjunct1 [OF w] pn(3)] pn(4) by simp
  then have "fdt_next_node_loop m' fdt q (Some 0) = Some (q, Some 1)"
    by (simp add: fdt_next_node_loop.simps [of m' fdt q] to_s32_id)
  with skip_properties_front [OF pn(1) nx(1,2) q(1)]
  have l: "fdt_next_node_loop m' fdt nx (Some 0) = Some (q, Some 1)" by simp
  note nm' = open_item_name [OF pn(2) conjunct1 [OF w] pn(3) pn(4)]
  have c': "c_string m' name nm" by (rule edits_frame(2) [OF e(1) n ap])
  have at: "cstr_at m' (prop_addr m' fdt q + 4) nm" using nm'(2) by (simp add: string_in_def)
  have near: "\<bar>prop_addr m' fdt q + 4 - name\<bar> < 4294967296"
    using nm'(2) rw_bounds [OF pn(2)] c' by (auto simp: string_in_def c_string_def)
  have "fdt_nodename_eq m' fdt q name (int (length nm)) = Some True"
    using nodename_eq_spec [OF nm'(1,3) at c_string_bytes(1) [OF c'] _ _ near] len c'
    by (simp add: name_fits_def c_string_def)
  from subnode_hit [OF chk' nx(1) tb(1) l q0 this]
  have "fdt_subnode_offset m' fdt node name = Some q"
    using c_string_strlen [OF c'] c_string_bytes(5) [OF c'] rw_ro_probe [OF pn(2)] rw_bounds [OF pn(2)]
    by (simp add: fdt_subnode_offset_def fdt_subnode_offset_namelen_def)
  with nm'(1) at pq show ?thesis by auto
qed (use run in simp)

theorem add_subnode_found_witness:
  "\<exists>p m'. fdt_add_subnode demo_two_mem 8192 0 256 = Some (p, m') \<and> 0 \<le> p \<and>
     fdt_subnode_offset m' 8192 0 256 = Some p"
proof -
  have "map_option fst (fdt_add_subnode demo_two_mem 8192 0 256) = Some 8" by code_simp
  then obtain m' where m': "fdt_add_subnode demo_two_mem 8192 0 256 = Some (8, m')" by auto
  have r: "rw_ok demo_two_mem 8192" using demo_two_trees by (simp add: two_trees_def)
  from add_subnode_found [OF r _ _ demo_phandle_name(1) _ _ m'] m' show ?thesis
    by (simp add: demo_two_fields lit_bytes_def)
qed

end
