(* ===== verification/Fdt_Apply.thy ===== *)
theory Fdt_Apply
  imports Fdt_Merge
begin

text \<open>
  Lookups by path and by phandle return on any tree that is accepted, aliases included, and with them
  the merge of all fragments of an overlay into the base tree.
\<close>

section \<open>Trees that can be read\<close>

definition accepted :: "mem \<Rightarrow> int \<Rightarrow> bool" where
  "accepted m fdt \<longleftrightarrow> blob m fdt \<and> 16 \<le> h_version m fdt \<and> fdt_ro_probe m fdt = Some (h_totalsize m fdt) \<and>
     0 \<le> h_totalsize m fdt \<and> fdt + h_totalsize m fdt \<le> 4294967296"

lemma acceptedD:
  assumes "accepted m fdt"
  shows "blob m fdt" "16 \<le> h_version m fdt" "fdt_ro_probe m fdt = Some (h_totalsize m fdt)"
    "0 \<le> h_totalsize m fdt" "fdt + h_totalsize m fdt \<le> 4294967296"
  using assms by (simp_all add: accepted_def)

lemma rw_accepted: "rw_ok m fdt \<Longrightarrow> accepted m fdt"
  using rw_blob [of m fdt] rw_bounds [of m fdt] rw_ro_probe [of m fdt] rw_end_bounds [of m fdt]
  by (simp add: accepted_def)

lemma overlay_accepted:
  assumes "overlay_ok m fdto"
  shows "accepted m fdto"
proof -
  have b: "blob m fdto" using assms by (simp add: overlay_ok_def)
  then show ?thesis using assms by (simp add: overlay_ok_def accepted_def blob_def fdt_ro_probe_def blob_simps [OF b])
qed

lemma subnode_total:
  assumes r: "accepted m fdt" and s: "mapped m s n" "0 \<le> n" "n \<le> INT32_MAX" and off: "off \<le> INT32_MAX"
  shows "\<exists>x. fdt_subnode_offset_namelen m fdt off s n = Some x \<and> x \<le> INT32_MAX"
  using subnode_loop_total [OF acceptedD(1,2) [OF r] s off, of 0] acceptedD(3,4) [OF r]
  by (auto simp: fdt_subnode_offset_namelen_def)

lemma getprop_namelen_lookup:
  assumes b: "blob m fdt" and ps: "props_of m fdt node ps r"
    and n: "bytes_at m name s" "0 \<le> name" "name < 4294967296" "int (length s) \<le> UINT32_MAX"
  shows "fdt_getprop_namelen m fdt node name (int (length s)) = Some (lookup m fdt s ps r)"
proof -
  from ps obtain f where f: "fdt_first_property_offset m fdt node = Some f" "props_from m fdt f ps r"
    "\<forall>p \<in> set ps. prop_at m fdt p" by (auto simp: props_of_def)
  note loop = fdt_get_property_loop_find [OF b n f(2,3)]
  note eq = fdt_getprop_namelen_def fdt_get_property_namelen_any_def lookup_def
  show ?thesis
  proof (cases "find (named m fdt s) ps")
    case None
    with f(1) loop show ?thesis by (simp add: eq)
  next
    case (Some p)
    then have "p \<in> set ps" by (auto simp: find_Some_iff)
    with f(3) have p: "prop_at m fdt p" by simp
    from Some f(1) loop prop_at_reads(4) [OF b p] data_addr_spec(1) [OF b p] show ?thesis by (simp add: eq)
  qed
qed

text \<open>The value a lookup returns lies inside the tree.\<close>

abbreviation value_in :: "mem \<Rightarrow> int \<Rightarrow> int \<Rightarrow> int \<Rightarrow> bool" where
  "value_in m fdt a l \<equiv> a = 0 \<and> l < 0 \<or> fdt < a \<and> 0 \<le> l \<and> a + l \<le> fdt + h_totalsize m fdt"

lemma getprop_namelen_total:
  assumes r: "accepted m fdt" and node: "node \<le> INT32_MAX" and s: "mapped m name n" "0 < name" "0 \<le> n" "name + n < 4294967296"
  shows "\<exists>a l. fdt_getprop_namelen m fdt node name n = Some (a, l) \<and> value_in m fdt a l"
proof -
  note b = acceptedD(1) [OF r]
  have "mapped m name (int (nat n))" using s by simp
  from load_bytes_mapped [OF this] obtain bs where bs: "bytes_at m name bs" "length bs = nat n"
    by (auto simp: load_bytes_Some)
  obtain ps e where ps: "props_of m fdt node ps e" using props_of_exists [OF b node] by blast
  obtain a l where l: "lookup m fdt bs ps e = (a, l)" by force
  have "fdt_getprop_namelen m fdt node name (int (length bs)) = Some (a, l)"
    using getprop_namelen_lookup [OF b ps bs(1)] s bs(2) l by simp
  with lookup_range [OF b ps acceptedD(2) [OF r] l] s(3) bs(2) show ?thesis by auto
qed

lemma getprop_total:
  assumes r: "accepted m fdt" and node: "node \<le> INT32_MAX" and n: "c_string m name nm"
  shows "\<exists>a l. fdt_getprop m fdt node name = Some (a, l) \<and> value_in m fdt a l"
proof -
  note b = acceptedD(1) [OF r]
  obtain ps e where ps: "props_of m fdt node ps e" using props_of_exists [OF b node] by blast
  obtain a l where l: "lookup m fdt nm ps e = (a, l)" by force
  from lookup_range [OF b ps acceptedD(2) [OF r] l] fdt_getprop_lookup [OF b ps n] l show ?thesis by auto
qed

section \<open>Paths\<close>

lemma skip_slashes_total:
  "mapped m p (stop - p) \<Longrightarrow> p < stop \<Longrightarrow> skip_slashes m p stop = Some None \<or>
     (\<exists>q b. skip_slashes m p stop = Some (Some q) \<and> p \<le> q \<and> q < stop \<and> m q = Some b \<and> b \<noteq> 47)"
proof (induction "nat (stop - p)" arbitrary: p rule: less_induct)
  case less
  obtain b where b: "m p = Some b" using mappedD [OF less.prems(1), of p] less.prems(2) by auto
  show ?case
  proof (cases "b = 47 \<and> p + 1 \<noteq> stop")
    case False
    with b less.prems(2) show ?thesis by (auto simp: skip_slashes.simps [of m p] load8_def)
  next
    case True
    have "mapped m (p + 1) (stop - (p + 1))" by (rule mapped_sub [OF less.prems(1)]) simp_all
    with True less.prems(2) have "skip_slashes m (p + 1) stop = Some None \<or>
       (\<exists>q b. skip_slashes m (p + 1) stop = Some (Some q) \<and> p + 1 \<le> q \<and> q < stop \<and> m q = Some b \<and> b \<noteq> 47)"
      by (intro less.hyps) auto
    moreover have "skip_slashes m p stop = skip_slashes m (p + 1) stop"
      using b True by (simp add: skip_slashes.simps [of m p] load8_def)
    ultimately show ?thesis by auto
  qed
qed

lemma memchr_range:
  "mapped m p (int n) \<Longrightarrow> \<exists>r. memchr m p c n = Some r \<and>
     (r = 0 \<or> p \<le> r \<and> r < p + int n \<and> (\<exists>b. m r = Some b \<and> uint b = c))"
proof (induction n arbitrary: p)
  case (Suc n)
  obtain b where b: "m p = Some b" using mappedD [OF Suc.prems, of p] by auto
  have "mapped m (p + 1) (int n)" by (rule mapped_sub [OF Suc.prems]) simp_all
  from Suc.IH [OF this] b show ?case by (cases "uint b = c") (auto simp: load8_def)
qed simp

lemma uint_eq_47: "uint (b :: u8) = 47 \<longleftrightarrow> b = 47"
  by (simp add: word_uint_eq_iff)

lemma path_walk_total:
  assumes r: "accepted m fdt"
  shows "mapped m p (stop - p) \<Longrightarrow> 0 < p \<Longrightarrow> stop - p \<le> INT32_MAX \<Longrightarrow> off \<le> INT32_MAX \<Longrightarrow>
    \<exists>x. fdt_path_walk m fdt off p stop = Some x \<and> x \<le> INT32_MAX"
proof (induction "nat (stop - p)" arbitrary: p off rule: less_induct)
  case less
  show ?case
  proof (cases "p < stop")
    case False
    with less.prems show ?thesis by (simp add: fdt_path_walk.simps [of m fdt off p])
  next
    case True
    from skip_slashes_total [OF less.prems(1) True] show ?thesis
    proof (elim disjE exE conjE)
      assume "skip_slashes m p stop = Some None"
      with True less.prems(4) show ?thesis by (simp add: fdt_path_walk.simps [of m fdt off p])
    next
      fix q b assume q: "skip_slashes m p stop = Some (Some q)" "p \<le> q" "q < stop" "m q = Some b" "b \<noteq> 47"
      have mq: "mapped m q (stop - q)" by (rule mapped_sub [OF less.prems(1)]) (use q in simp_all)
      then have "mapped m q (int (nat (stop - q)))" using q(3) by simp
      from memchr_range [OF this, of 47] obtain w where w: "memchr m q 47 (nat (stop - q)) = Some w"
        "w = 0 \<or> q \<le> w \<and> w < stop \<and> (\<exists>b. m w = Some b \<and> uint b = 47)" using q(3) by auto
      define e where "e = (if w = 0 then stop else w)"
      have "w \<noteq> q" using w(2) q(4,5) less.prems(2) q(2) by (auto simp: uint_eq_47)
      then have e: "q < e" "e \<le> stop" using w(2) q(3) by (auto simp: e_def)
      have "mapped m q (e - q)" by (rule mapped_sub [OF mq]) (use e in simp_all)
      with subnode_total [OF r this _ _ less.prems(4)] e less.prems(3) q(2) obtain x where
        x: "fdt_subnode_offset_namelen m fdt off q (e - q) = Some x" "x \<le> INT32_MAX" by auto
      have "\<exists>y. fdt_path_walk m fdt x e stop = Some y \<and> y \<le> INT32_MAX"
      proof (rule less.hyps)
        show "mapped m e (stop - e)" by (rule mapped_sub [OF less.prems(1)]) (use e q in simp_all)
      qed (use e q(2) less.prems x(2) in auto)
      then show ?thesis
        using True q(1) w(1) x by (auto simp: fdt_path_walk.simps [of m fdt off p] e_def [symmetric] Let_def)
    qed
  qed
qed

text \<open>A string in front of a zero byte.\<close>

lemma cstring_before:
  "mapped m p (int (Suc n)) \<Longrightarrow> m (p + int n) = Some 0 \<Longrightarrow> \<exists>s. cstr_at m p s \<and> length s \<le> n"
proof (induction n arbitrary: p)
  case 0
  then show ?case by (intro exI [of _ "[]"]) simp
next
  case (Suc n)
  obtain b where b: "m p = Some b" using mappedD [OF Suc.prems(1), of p] by auto
  show ?case
  proof (cases "b = 0")
    case True
    with b show ?thesis by (intro exI [of _ "[]"]) simp
  next
    case False
    have "mapped m (p + 1) (int (Suc n))" by (rule mapped_sub [OF Suc.prems(1)]) simp_all
    from Suc.IH [OF this] Suc.prems(2) obtain s where "cstr_at m (p + 1) s" "length s \<le> n"
      by (auto simp: add.assoc)
    with b False show ?thesis by (intro exI [of _ "b # s"]) simp
  qed
qed

text \<open>An alias that passes the test is a path inside the tree.\<close>

lemma alias_ok_total:
  assumes b: "blob m fdt" and v: "a = 0 \<or> fdt < a \<and> 0 \<le> the l \<and> a + the l \<le> fdt + h_totalsize m fdt"
  shows "\<exists>ok. alias_ok m a l = Some ok \<and>
    (ok \<longrightarrow> (\<exists>s. string_in m fdt a (47 # s)))"
proof (cases "a \<noteq> 0 \<and> the l > 0")
  case False
  then show ?thesis by (auto simp: alias_ok_def)
next
  case True
  define n where "n = nat (the l - 1)"
  have n: "int (Suc n) = the l" "a + int n = a + the l - 1" using True by (simp_all add: n_def)
  have mp: "mapped m a (int (Suc n))" unfolding n(1) using True v by (intro blob_mapped_tail [OF b]) auto
  obtain z where z: "m (a + int n) = Some z" using mappedD [OF mp, of "a + int n"] by auto
  obtain x where x: "m a = Some x" using mappedD [OF mp, of a] by auto
  have ok: "alias_ok m a l = Some (z = 0 \<and> x = 47)"
    using True x z unfolding n(2) by (auto simp: alias_ok_def load8_def)
  have "\<exists>s. string_in m fdt a (47 # s)" if zx: "z = 0" "x = 47"
  proof -
    from cstring_before [OF mp] z zx(1) obtain t where t: "cstr_at m a t" "length t \<le> n" by auto
    with x zx(2) obtain s where "t = 47 # s" by (cases t) auto
    with t n(1) True v show ?thesis by (auto simp: string_in_def intro!: exI [of _ s])
  qed
  with ok show ?thesis by auto
qed

lemma path_from_slash_total:
  assumes r: "accepted m fdt" and p: "mapped m path n" "0 < path" "n \<le> INT32_MAX" "m path = Some 47"
  shows "\<exists>x. fdt_path_offset_namelen m lit fdt path n = Some x \<and> x \<le> INT32_MAX"
proof -
  have "mapped m path (path + n - path)" using p(1) by simp
  from path_walk_total [OF r this p(2), of 0] p(3) obtain x where
    "fdt_path_walk m fdt 0 path (path + n) = Some x" "x \<le> INT32_MAX" by auto
  then show ?thesis
    using acceptedD(3,4) [OF r] p(4) by (simp add: fdt_path_offset_namelen.simps [of m lit fdt path n] load8_def)
qed

lemma string_in_c_string:
  assumes r: "accepted m fdt" and s: "string_in m fdt p s"
  shows "strlen m p = Some (int (length s))" "mapped m p (int (length s))" "0 < p" "int (length s) \<le> INT32_MAX"
proof -
  note b = acceptedD(1) [OF r] and e = acceptedD(4,5) [OF r] and bb = blob_bounds [OF acceptedD(1) [OF r]]
  show "strlen m p = Some (int (length s))" by (rule strlen_string_in [OF b s])
  show "0 < p" "int (length s) \<le> INT32_MAX" using s bb by (simp_all add: string_in_def)
  show "mapped m p (int (length s))" using s by (intro blob_mapped_tail [OF b]) (simp_all add: string_in_def)
qed

abbreviation aliases_name :: "mem \<Rightarrow> literals \<Rightarrow> bool" where
  "aliases_name m lit \<equiv> c_string m (lit ''/aliases'') (lit_bytes ''/aliases'')"

lemma path_offset_total:
  assumes r: "accepted m fdt" and l: "aliases_name m lit"
    and p: "mapped m path n" "0 < path" "path + n < 4294967296" "n \<le> INT32_MAX"
  shows "\<exists>x. fdt_path_offset_namelen m lit fdt path n = Some x \<and> x \<le> INT32_MAX"
proof (cases "n \<le> 0")
  case True
  then show ?thesis
    using acceptedD(3,4) [OF r] by (simp add: fdt_path_offset_namelen.simps [of m lit fdt path n])
next
  case False
  obtain b where b: "m path = Some b" using mappedD [OF p(1), of path] False by auto
  show ?thesis
  proof (cases "b = 47")
    case True
    with path_from_slash_total [OF r p(1,2,4)] b show ?thesis by simp
  next
    case n47: False
    note bl = acceptedD(1) [OF r]
    have "mapped m path (int (nat n))" using p(1) False by simp
    from memchr_range [OF this, of 47] False obtain w where w: "memchr m path 47 (nat n) = Some w"
      "w = 0 \<or> path \<le> w \<and> w < path + n" by auto
    define e where "e = (if w = 0 then path + n else w)"
    have e: "path \<le> e" "e \<le> path + n" using w(2) False by (auto simp: e_def)
    have "m (lit ''/aliases'') = Some 47" "mapped m (lit ''/aliases'') 8" "0 < lit ''/aliases''"
      using c_string_bytes(1) [OF l] bytes_at_mapped [OF c_string_bytes(1) [OF l]] l
      by (simp_all add: lit_bytes_def c_string_def)
    from path_from_slash_total [OF r this(2,3) _ this(1)] obtain node where
      node: "fdt_path_offset_namelen m lit fdt (lit ''/aliases'') 8 = Some node" "node \<le> INT32_MAX" by auto
    have len: "strlen m (lit ''/aliases'') = Some 8" "to_s32 8 = 8"
      using c_string_strlen [OF l] by (simp_all add: lit_bytes_def to_s32_id)
    have me: "mapped m path (e - path)" by (rule mapped_sub [OF p(1)]) (use e in simp_all)
    obtain a k where g: "path_getprop_at m fdt node path (e - path) = Some (a, k)"
      "a = 0 \<or> fdt < a \<and> 0 \<le> the k \<and> a + the k \<le> fdt + h_totalsize m fdt"
    proof (cases "node < 0")
      case True
      with that [of 0 None] show thesis by (simp add: path_getprop_at_def)
    next
      case False
      from getprop_namelen_total [OF r node(2) me p(2)] e p(3) obtain a j where
        "fdt_getprop_namelen m fdt node path (e - path) = Some (a, j)" "value_in m fdt a j" by auto
      with False that [of a "Some j"] show thesis by (auto simp: path_getprop_at_def)
    qed
    from alias_ok_total [OF bl g(2)] obtain ok where ok: "alias_ok m a k = Some ok"
      "ok \<longrightarrow> (\<exists>s. string_in m fdt a (47 # s))" by blast
    note eq = fdt_path_offset_namelen.simps [of m lit fdt path n] load8_def
    show ?thesis
    proof (cases ok)
      case False
      with ok(1) show ?thesis
        using acceptedD(3,4) [OF r] \<open>\<not> n \<le> 0\<close> b n47 w(1) len node(1) g(1)
        by (simp add: eq e_def [symmetric] Let_def)
    next
      case True
      with ok(2) obtain s where s: "string_in m fdt a (47 # s)" by blast
      note sc = string_in_c_string [OF r s]
      have "m a = Some 47" using s by (simp add: string_in_def)
      from path_from_slash_total [OF r sc(2,3,4) this] obtain x where
        x: "fdt_path_offset_namelen m lit fdt a (int (length (47 # s))) = Some x" "x \<le> INT32_MAX" by blast
      have "mapped m e (path + n - e)" by (rule mapped_sub [OF p(1)]) (use e in simp_all)
      from path_walk_total [OF r this _ _ x(2)] e p(2,4) obtain y where
        y: "fdt_path_walk m fdt x e (path + n) = Some y" "y \<le> INT32_MAX" by auto
      have "to_s32 (int (length (47 # s))) = int (length (47 # s))" using sc(4) by (intro to_s32_id) simp_all
      with ok(1) True x y sc(1) show ?thesis
        using acceptedD(3,4) [OF r] \<open>\<not> n \<le> 0\<close> b n47 w(1) len node(1) g(1)
        by (simp add: eq e_def [symmetric] Let_def)
    qed
  qed
qed

section \<open>Phandles\<close>

lemma value_cell:
  assumes b: "blob m fdt" and v: "value_in m fdt a l" "a \<noteq> 0" "l = 4"
  shows "\<exists>x. fdt32_ld m a = Some x"
proof -
  have "mapped m a 4" using v by (intro blob_mapped_tail [OF b]) auto
  then show ?thesis using fdt32_ld_mapped by blast
qed

lemma get_phandle_total:
  assumes r: "accepted m fdt" and node: "node \<le> INT32_MAX"
    and n: "c_string m (lit ''phandle'') s" "c_string m (lit ''linux,phandle'') t"
  shows "\<exists>v. fdt_get_phandle m lit fdt node = Some v"
proof -
  from getprop_total [OF r node n(1)] obtain a l where
    g: "fdt_getprop m fdt node (lit ''phandle'') = Some (a, l)" "value_in m fdt a l" by blast
  from getprop_total [OF r node n(2)] obtain a' l' where
    g': "fdt_getprop m fdt node (lit ''linux,phandle'') = Some (a', l')" "value_in m fdt a' l'" by blast
  note c = value_cell [OF acceptedD(1) [OF r] g(2)] value_cell [OF acceptedD(1) [OF r] g'(2)]
  show ?thesis
    using g(1) g'(1) c by (cases "a = 0 \<or> l \<noteq> 4"; cases "a' = 0 \<or> l' \<noteq> 4") (auto simp: fdt_get_phandle_def)
qed

lemma node_by_phandle_loop_total:
  assumes r: "accepted m fdt" and n: "c_string m (lit ''phandle'') s" "c_string m (lit ''linux,phandle'') t"
  shows "off \<le> INT32_MAX \<Longrightarrow> \<exists>x. fdt_node_by_phandle_loop m lit fdt off ph = Some x \<and> x \<le> INT32_MAX"
proof (induction "nat (INT32_MAX - off)" arbitrary: off rule: less_induct)
  case less
  obtain q where q: "fdt_next_node m fdt off None = Some (q, None)"
    "q < 0 \<or> (max 0 (off + 1) \<le> q \<and> q \<le> 2147483644 \<and> node_at m fdt q)"
    by (rule fdt_next_node_None [OF acceptedD(1) [OF r] less.prems])
  show ?case
  proof (cases "q < 0")
    case True
    with q(1) show ?thesis by (simp add: fdt_node_by_phandle_loop.simps [of m lit fdt off])
  next
    case False
    with q(2) have o: "off < q" "q \<le> INT32_MAX" by simp_all
    from get_phandle_total [OF r o(2) n] obtain v where v: "fdt_get_phandle m lit fdt q = Some v" by blast
    from less.hyps [of q] o obtain x where "fdt_node_by_phandle_loop m lit fdt q ph = Some x" "x \<le> INT32_MAX" by auto
    with q(1) False v o show ?thesis by (simp add: fdt_node_by_phandle_loop.simps [of m lit fdt off])
  qed
qed

lemma find_max_phandle_total:
  assumes r: "accepted m fdt" and n: "c_string m (lit ''phandle'') s" "c_string m (lit ''linux,phandle'') t"
  shows "off \<le> INT32_MAX \<Longrightarrow> \<exists>x. fdt_find_max_phandle_from m lit fdt off best = Some x"
proof (induction "nat (INT32_MAX - off)" arbitrary: off best rule: less_induct)
  case less
  obtain q where q: "fdt_next_node m fdt off None = Some (q, None)"
    "q < 0 \<or> (max 0 (off + 1) \<le> q \<and> q \<le> 2147483644 \<and> node_at m fdt q)"
    by (rule fdt_next_node_None [OF acceptedD(1) [OF r] less.prems])
  show ?case
  proof (cases "q < 0")
    case True
    with q(1) show ?thesis by (simp add: fdt_find_max_phandle_from.simps [of m lit fdt off])
  next
    case False
    with q(2) have o: "off < q" "q \<le> INT32_MAX" by simp_all
    from get_phandle_total [OF r o(2) n] obtain v where v: "fdt_get_phandle m lit fdt q = Some v" by blast
    from less.hyps [of q "if v > best then v else best"] o q(1) False v show ?thesis
      by (simp add: fdt_find_max_phandle_from.simps [of m lit fdt off])
  qed
qed

section \<open>The target of a fragment\<close>

definition merge_names :: "string list" where
  "merge_names = [''/aliases'', ''phandle'', ''linux,phandle'', ''target'', ''target-path'', ''__overlay__'']"

text \<open>
  The literals are strings outside of the base tree, and a NUL follows the overlay: the value of
  \<open>target-path\<close> goes to \<open>strlen\<close> without a check that it ends in one.
\<close>

definition names_at :: "mem \<Rightarrow> literals \<Rightarrow> int \<Rightarrow> bool" where
  "names_at m lit fdt \<longleftrightarrow> (\<forall>k \<in> set merge_names. c_string m (lit k) (lit_bytes k) \<and>
     apart m fdt (lit k) (int (length (lit_bytes k)) + 1))"

definition terminated :: "mem \<Rightarrow> int \<Rightarrow> int \<Rightarrow> bool" where
  "terminated m fdt fdto \<longleftrightarrow> (let e = fdto + h_totalsize m fdto in m e = Some 0 \<and> last_word_mapped m e \<and>
     e < 4294967296 \<and> apart m fdt fdto (h_totalsize m fdto + 1))"

lemma names_at_string: "names_at m lit fdt \<Longrightarrow> k \<in> set merge_names \<Longrightarrow> c_string m (lit k) (lit_bytes k)"
  by (simp add: names_at_def)

lemma terminated_string:
  assumes o: "overlay_ok m fdto" and t: "terminated m fdt fdto" and p: "fdto < p" "p \<le> fdto + h_totalsize m fdto"
  shows "\<exists>s. c_string m p s"
proof -
  define e where "e = fdto + h_totalsize m fdto"
  have e: "m e = Some 0" "last_word_mapped m e" "e < 4294967296" using t by (simp_all add: terminated_def e_def Let_def)
  have b: "blob m fdto" "h_totalsize m fdto \<le> 2147483600" using o by (simp_all add: overlay_ok_def)
  define n where "n = nat (e - p)"
  have n: "p + int n = e" using p by (simp add: n_def e_def)
  have "mapped m p (e - p)" using p by (intro blob_mapped_tail [OF b(1)]) (simp_all add: e_def)
  then have "mapped m p (int (Suc n))" using e(1) n by (auto simp: mapped_def not_less less_le)
  from cstring_before [OF this] e(1) n obtain s where s: "cstr_at m p s" "length s \<le> n" by auto
  have "last_word_mapped m (p + int (length s))"
  proof (cases "p + int (length s) = e")
    case False
    with s n p have "string_in m fdto p s" by (auto simp: string_in_def e_def [symmetric])
    then show ?thesis by (rule string_in_last_word [OF b(1)])
  qed (simp add: e(2))
  moreover have "0 < p" using p(1) b(1) by (simp add: blob_def)
  ultimately show ?thesis using s n e(3) p b(2) by (auto simp: c_string_def e_def)
qed

lemma target_offset_total:
  assumes t: "two_trees m fdt fdto" and n: "names_at m lit fdt" and z: "terminated m fdt fdto" and f: "fragment \<le> INT32_MAX"
  shows "\<exists>x p. fdt_overlay_target_offset m lit fdt fdto fragment = Some (x, p) \<and> x \<le> INT32_MAX"
proof -
  note d = two_treesD [OF t]
  note rd = rw_accepted [OF d(1)] and ro = overlay_accepted [OF d(2)]
  note str = names_at_string [OF n]
  have s: "c_string m (lit ''target'') (lit_bytes ''target'')" "c_string m (lit ''target-path'') (lit_bytes ''target-path'')"
    "c_string m (lit ''phandle'') (lit_bytes ''phandle'')"
    "c_string m (lit ''linux,phandle'') (lit_bytes ''linux,phandle'')" "aliases_name m lit"
    by (rule str, simp add: merge_names_def)+
  from getprop_total [OF ro f s(1)] obtain a l where
    g: "fdt_getprop m fdto fragment (lit ''target'') = Some (a, l)" "value_in m fdto a l" by blast
  have "\<exists>ph. overlay_get_target_phandle m lit fdto fragment = Some ph"
    using value_cell [OF d(3) g(2)] g(1)
    by (cases "a = 0"; cases "l = 4") (auto simp: overlay_get_target_phandle_def fdt32_ld_native_eq)
  then obtain ph where ph: "overlay_get_target_phandle m lit fdto fragment = Some ph" by blast
  from getprop_total [OF ro f s(2)] obtain p k where
    p: "fdt_getprop m fdto fragment (lit ''target-path'') = Some (p, k)" "value_in m fdto p k" by blast
  have "\<exists>x. fdt_path_offset m lit fdt p = Some x \<and> x \<le> INT32_MAX" if "p \<noteq> 0"
  proof -
    have "fdto < p" "p \<le> fdto + h_totalsize m fdto" using p(2) that by auto
    from terminated_string [OF d(2) z this] obtain t where t: "c_string m p t" by blast
    note tb = c_string_bytes [OF t]
    have "mapped m p (int (length t))" by (rule bytes_at_mapped [OF tb(1)])
    with path_offset_total [of m fdt lit p "int (length t)"] rd s(5) t show ?thesis
      using c_string_strlen [OF t] tb(5) by (simp add: fdt_path_offset_def c_string_def)
  qed
  moreover have "\<exists>x. fdt_node_offset_by_phandle m lit fdt ph = Some x \<and> x \<le> INT32_MAX"
    using node_by_phandle_loop_total [OF rd s(3,4), of "- 1" ph] acceptedD(3,4) [OF rd]
    by (auto simp: fdt_node_offset_by_phandle_def)
  moreover have "k \<le> INT32_MAX" if "p = 0" using p(2) that d(3) by (auto simp: blob_def)
  ultimately show ?thesis
    using ph p(1) by (cases "ph = UINT32_MAX"; cases "ph = 0"; cases "p = 0") (auto simp: fdt_overlay_target_offset_def Let_def)
qed

section \<open>Merging all fragments\<close>

definition merge_ok :: "mem \<Rightarrow> literals \<Rightarrow> int \<Rightarrow> int \<Rightarrow> bool" where
  "merge_ok m lit fdt fdto \<longleftrightarrow> two_trees m fdt fdto \<and> names_at m lit fdt \<and> terminated m fdt fdto"

lemma merge_ok_edits:
  assumes k: "merge_ok m lit fdt fdto" and e: "edits m m' fdt"
  shows "merge_ok m' lit fdt fdto"
proof -
  have t: "two_trees m fdt fdto" and n: "names_at m lit fdt" and z: "terminated m fdt fdto"
    using k by (simp_all add: merge_ok_def)
  note fr = edits_frame [OF e] and d = two_treesD [OF t]
  have w: "writes_only m m' fdt (h_totalsize m fdt)" using e by (simp add: edits_def)
  have "fdto + h_totalsize m fdto \<le> fdt \<or> fdt + h_totalsize m fdt \<le> fdto" using d(6) by simp
  from overlay_ok_frame(2) [OF d(2) w this] have ts: "h_totalsize m' fdto = h_totalsize m fdto" .
  define q where "q = fdto + h_totalsize m fdto"
  have q: "m q = Some 0" "apart m fdt q 1" "apart m fdt fdto (h_totalsize m fdto + 1)" "last_word_mapped m q" "q < 4294967296"
    using z d(2) by (auto simp: terminated_def overlay_ok_def q_def Let_def)
  have "m' q = Some 0" using fr(1) [of q "[0]"] q(1,2) by simp
  moreover have "last_word_mapped m' q"
    using q(4) w by (simp add: last_word_mapped_def mapped_def writes_only_def dom_def set_eq_iff)
  moreover have "apart m' fdt fdto (h_totalsize m fdto + 1)" by (rule fr(3) [OF q(3)])
  ultimately have "terminated m' fdt fdto" using q(5) by (simp add: terminated_def ts q_def Let_def)
  moreover have "names_at m' lit fdt" using n fr(2,3) by (auto simp: names_at_def)
  ultimately show ?thesis using two_trees_edits [OF t e] by (simp add: merge_ok_def)
qed

lemma merge_fragments_spec:
  "merge_ok m lit fdt fdto \<Longrightarrow> fragment < 0 \<or> fragment \<le> INT32_MAX \<Longrightarrow>
   \<exists>ret m'. merge_fragments m lit fdt fdto fragment = Some (ret, m') \<and> edits m m' fdt"
proof (induction "nat (INT32_MAX - fragment)" arbitrary: m fragment rule: less_induct)
  case less
  have t: "two_trees m fdt fdto" and n: "names_at m lit fdt" and z: "terminated m fdt fdto"
    using less.prems(1) by (simp_all add: merge_ok_def)
  note d = two_treesD [OF t]
  note step = merge_fragments.simps [of m lit fdt fdto fragment]
  show ?case
  proof (cases "fragment < 0")
    case True
    then show ?thesis using edits_refl [OF d(1)] by (simp add: step)
  next
    case False
    with less.prems(2) have f: "fragment \<le> INT32_MAX" by simp
    have c: "c_string m (lit ''__overlay__'') (lit_bytes ''__overlay__'')"
      by (rule names_at_string [OF n]) (simp add: merge_names_def)
    note cb = c_string_bytes [OF c]
    have "int (length (lit_bytes ''__overlay__'')) \<le> INT32_MAX" by (simp add: lit_bytes_def)
    from subnode_total [OF overlay_accepted [OF d(2)] bytes_at_mapped [OF cb(1)] _ this f] obtain ov where
      ov: "fdt_subnode_offset m fdto fragment (lit ''__overlay__'') = Some ov" "ov \<le> INT32_MAX"
      using c_string_strlen [OF c] cb(5) by (auto simp: fdt_subnode_offset_def)
    from target_offset_total [OF t n z f] obtain tg p where
      tg: "fdt_overlay_target_offset m lit fdt fdto fragment = Some (tg, p)" "tg \<le> INT32_MAX" by blast
    from apply_node_edits [OF t tg(2) ov(2)] obtain ret m1 where
      a: "overlay_apply_node m fdt tg fdto ov = Some (ret, m1)" "edits m m1 fdt" by blast
    define one where "one = (if ov = - FDT_ERR_NOTFOUND then (0, m) else if ov < 0 then (ov, m)
      else if tg < 0 then (tg, m) else (ret, m1))"
    obtain ret' m2 where one': "one = (ret', m2)" by force
    have e: "edits m m2 fdt" using one' a(2) edits_refl [OF d(1)] by (auto simp: one_def split: if_splits)
    have run: "merge_fragments m lit fdt fdto fragment =
      (if ret' \<noteq> 0 then Some (ret', m2) else do { fragment \<leftarrow> fdt_next_subnode m2 fdto fragment; merge_fragments m2 lit fdt fdto fragment })"
      using False ov(1) tg(1) a(1) one' by (auto simp: step one_def split: if_splits)
    show ?thesis
    proof (cases "ret' = 0")
      case False
      with run e show ?thesis by simp
    next
      case True
      have k2: "merge_ok m2 lit fdt fdto" by (rule merge_ok_edits [OF less.prems(1) e])
      then have "blob m2 fdto" by (auto simp: merge_ok_def dest: two_treesD(3))
      from next_subnode_spec [OF this f] obtain nx where
        nx: "fdt_next_subnode m2 fdto fragment = Some nx" "nx < 0 \<or> fragment < nx \<and> nx \<le> INT32_MAX" by blast
      have "\<exists>ret m'. merge_fragments m2 lit fdt fdto nx = Some (ret, m') \<and> edits m2 m' fdt"
      proof (cases "nx < 0")
        case True
        then show ?thesis
          using k2 edits_refl two_treesD(1) by (auto simp: merge_fragments.simps [of m2 lit fdt fdto nx] merge_ok_def)
      next
        case False
        with nx(2) f k2 show ?thesis by (intro less.hyps) auto
      qed
      then obtain r3 m3 where w: "merge_fragments m2 lit fdt fdto nx = Some (r3, m3)" "edits m2 m3 fdt" by blast
      with run True nx(1) edits_trans [OF e w(2)] show ?thesis by simp
    qed
  qed
qed

section \<open>Properties\<close>

text \<open>C21: every lookup by path returns on a mapped tree of version 16 or later that \<open>FDT_RO_PROBE\<close> accepts:
  absolute paths and paths that start with an alias, whatever the tree and the path contain.  (The probe also
  accepts the versions 2 to 15, where \<open>fdt_get_name\<close> calls the \<open>strrchr\<close> that never advances.)\<close>

theorem path_lookup_returns:
  assumes r: "accepted m fdt" and l: "aliases_name m lit" and p: "c_string m path s"
  shows "\<exists>x. fdt_path_offset m lit fdt path = Some x \<and> x \<le> INT32_MAX"
proof -
  note b = c_string_bytes [OF p]
  have "mapped m path (int (length s))" by (rule bytes_at_mapped [OF b(1)])
  with path_offset_total [of m fdt lit path "int (length s)"] r l p show ?thesis
    using c_string_strlen [OF p] b(5) by (simp add: fdt_path_offset_def c_string_def)
qed

text \<open>C8: merging all fragments of an overlay into the base tree returns, whatever both contain, as long as a
  NUL follows the overlay: only the base tree is written, its blocks stay in order inside its old
  size, and the overlay stays accepted, also when an error stops the merge half way.\<close>

theorem overlay_merge_safe:
  assumes t: "two_trees m fdt fdto" and n: "names_at m lit fdt" and z: "terminated m fdt fdto"
  shows "\<exists>ret m'. overlay_merge m lit fdt fdto = Some (ret, m') \<and> two_trees m' fdt fdto \<and>
    h_totalsize m' fdt \<le> h_totalsize m fdt \<and> writes_only m m' fdt (h_totalsize m fdt)"
proof -
  have k: "merge_ok m lit fdt fdto" using t n z by (simp add: merge_ok_def)
  have "(0 :: int) \<le> INT32_MAX" by simp
  from first_subnode_spec [OF two_treesD(3) [OF t] this] obtain f where
    f: "fdt_first_subnode m fdto 0 = Some f" "f < 0 \<or> f \<le> INT32_MAX" by blast
  from merge_fragments_spec [OF k f(2)] obtain ret m' where
    "merge_fragments m lit fdt fdto f = Some (ret, m')" "edits m m' fdt" by blast
  with f(1) two_trees_edits [OF t] show ?thesis by (auto simp: overlay_merge_def edits_def)
qed

text \<open>The sample trees with the name \<open>/aliases\<close> at 368.\<close>

definition demo_merge_mem :: mem where
  "demo_merge_mem a = (if 368 \<le> a \<and> a < 384
     then mem_rows [[47, 97, 108, 105, 97, 115, 101, 115, 0, 0, 0, 0, 0, 0, 0, 0]] 368 a else demo_two_mem a)"

definition demo_merge_at :: literals where
  "demo_merge_at s = (if s = ''/aliases'' then 368 else demo_names_at s)"

lemma demo_merge_fields:
  "hdr demo_merge_mem 8192 0 = FDT_MAGIC" "h_totalsize demo_merge_mem 8192 = 176" "h_off_struct demo_merge_mem 8192 = 56"
  "h_off_rsvmap demo_merge_mem 8192 = 40" "h_size_struct demo_merge_mem 8192 = 16" "h_off_strings demo_merge_mem 8192 = 72"
  "h_size_strings demo_merge_mem 8192 = 0" "h_version demo_merge_mem 8192 = 17" "h_last_comp demo_merge_mem 8192 = 16"
  "hdr demo_merge_mem 4096 0 = FDT_MAGIC" "h_totalsize demo_merge_mem 4096 = 168" "h_off_struct demo_merge_mem 4096 = 56"
  "h_version demo_merge_mem 4096 = 17" "h_last_comp demo_merge_mem 4096 = 16"
  by code_simp+

lemma demo_merge_mapped:
  "mapped demo_merge_mem 8192 176" "mapped demo_merge_mem 4096 176" "mapped demo_merge_mem 256 128"
proof -
  have "mapped (mem_rows demo_base 8192) 8192 176" "mapped (mem_rows demo_overlay 4096) 4096 176"
    "mapped (mem_rows demo_names 256) 256 112"
    using mapped_mem_rows [of demo_base 8192] mapped_mem_rows [of demo_overlay 4096] mapped_mem_rows [of demo_names 256]
    by (simp_all add: demo_base_def demo_overlay_def demo_names_def)
  moreover have "mapped (mem_rows [[47, 97, 108, 105, 97, 115, 101, 115, 0, 0, 0, 0, 0, 0, 0, 0]] 368) 368 16"
    using mapped_mem_rows [of "[[47, 97, 108, 105, 97, 115, 101, 115, 0, 0, 0, 0, 0, 0, 0, 0]]" 368] by simp
  ultimately show "mapped demo_merge_mem 8192 176" "mapped demo_merge_mem 4096 176" "mapped demo_merge_mem 256 128"
    by (auto simp: mapped_def demo_merge_mem_def demo_two_mem_def)
qed

lemma demo_merge_trees: "two_trees demo_merge_mem 8192 4096" "terminated demo_merge_mem 8192 4096"
proof -
  show "two_trees demo_merge_mem 8192 4096"
    by (simp add: two_trees_def overlay_ok_def rw_ok_def blob_def demo_merge_fields mapped_sub [OF demo_merge_mapped(1)]
        mapped_sub [OF demo_merge_mapped(2)])
  have "demo_merge_mem 4264 = Some 0" by code_simp
  then show "terminated demo_merge_mem 8192 4096"
    by (simp add: terminated_def demo_merge_fields last_word_mapped_def mapped_sub [OF demo_merge_mapped(2)])
qed

lemma demo_merge_names: "names_at demo_merge_mem demo_merge_at 8192"
proof -
  have "\<forall>k \<in> set merge_names. cstr_at demo_merge_mem (demo_merge_at k) (lit_bytes k)"
    unfolding merge_names_def by code_simp
  moreover have "\<forall>k \<in> set merge_names. 256 \<le> demo_merge_at k \<and> demo_merge_at k + int (length (lit_bytes k)) \<le> 376"
    by (simp add: merge_names_def demo_merge_at_def demo_names_at_def lit_bytes_def)
  moreover have "last_word_mapped demo_merge_mem e" if "256 \<le> e" "e \<le> 376" for e
    unfolding last_word_mapped_def by (rule mapped_sub [OF demo_merge_mapped(3)]) (use that in presburger)+
  ultimately show ?thesis by (auto simp: names_at_def c_string_def demo_merge_fields)
qed

theorem path_lookup_returns_witness:
  "\<exists>x. fdt_path_offset demo_merge_mem demo_merge_at 8192 278 = Some x \<and> x \<le> INT32_MAX"
proof -
  have "accepted demo_merge_mem 8192" using rw_accepted two_treesD(1) [OF demo_merge_trees(1)] .
  moreover have "c_string demo_merge_mem 278 (lit_bytes ''target'')" "aliases_name demo_merge_mem demo_merge_at"
    using names_at_string [OF demo_merge_names, of "''target''"] names_at_string [OF demo_merge_names, of "''/aliases''"]
    by (simp_all add: merge_names_def demo_merge_at_def demo_names_at_def)
  ultimately show ?thesis
    using path_lookup_returns [of demo_merge_mem 8192 demo_merge_at 278 "lit_bytes ''target''"] by blast
qed

theorem overlay_merge_safe_witness:
  "\<exists>ret m'. overlay_merge demo_merge_mem demo_merge_at 8192 4096 = Some (ret, m') \<and> two_trees m' 8192 4096 \<and>
     writes_only demo_merge_mem m' 8192 176"
  using overlay_merge_safe [OF demo_merge_trees(1) demo_merge_names demo_merge_trees(2)] by (auto simp: demo_merge_fields)

end
