(* ===== verification/Uart.thy ===== *)
theory Uart
  imports Devices
begin

text \<open>
  The initialisation of the UART from the device tree (\<^verbatim>\<open>src/drivers/uart.c\<close>) and the registers of
  \<^verbatim>\<open>src/drivers/uart.h\<close>.  Printing to the UART is in \<open>Kernel\<close>.
\<close>

section \<open>Initialisation\<close>

text \<open>
  The build does not define \<^verbatim>\<open>QEMU_VIRT\<close>, so \<open>uart_base\<close> is a constant object: the store that \<open>parse_reg\<close> makes
  through its address is undefined, and so is printing \<open>size\<close> when \<open>parse_reg\<close> has failed before it got
  there.  Both are a fault.
\<close>

definition init_uart :: "image \<Rightarrow> int \<Rightarrow> int kc" where
  "init_uart img fdt =
     kbind (kread (\<lambda>m. fdt_node_offset_by_compatible m (lit img) fdt (-1) (lit img ''ns16550a''))) (\<lambda>uart_node.
     if uart_node < 0 then kret uart_node else
     kbind (kread (\<lambda>m. parse_reg m img fdt uart_node)) (\<lambda>(_, base, size).
     if base \<noteq> None \<or> size = None then kstop Fault
     else kthen [k_printf (''[OK] Found UART: starts at 0x%x, size = %i'' @ nl)
            [u32_arg uart_base, u32_arg (the size)]] (kret 0)))"

lemma parse_reg_size:
  assumes "parse_reg m img t n = Some (r, a, s)"
  shows "s \<noteq> None \<Longrightarrow> a \<noteq> None"
  using assms by (auto simp: parse_reg_def bind_eq_Some_conv Let_def split: if_splits)

lemma init_uart_outcome:
  assumes "fdt_node_offset_by_compatible (k_mem k) (lit img) fdt (-1) (lit img ''ns16550a'') = Some n"
  shows "init_uart img fdt k = (if n < 0 then (Inr n, k) else (Inl Fault, k))"
proof (cases "parse_reg (k_mem k) img fdt n")
  case None
  then show ?thesis using assms by (simp add: init_uart_def kread_def)
next
  case (Some x)
  obtain r a s where x: "x = (r, a, s)" by (cases x)
  have "a \<noteq> None \<or> s = None" using parse_reg_size [of "k_mem k" img fdt n r a s] Some x by blast
  with assms Some x show ?thesis by (simp add: init_uart_def)
qed

section \<open>Registers\<close>

datatype uart_registers = UART_RECEIVER_BUFF | UART_TRANSMITTER_HOLDING | UART_INTERRUPT_ENABLE
  | UART_INTERRUPT_ID | UART_FIFO_CONTROL | UART_LINE_CONTROL | UART_MODEM_CONTROL | UART_LINE_STATUS
  | UART_MODEM_STATUS | UART_SCRATCH | UART_DIVISOR_LATCH

primrec uart_offset :: "uart_registers \<Rightarrow> int" where
  "uart_offset UART_RECEIVER_BUFF = 0"
| "uart_offset UART_TRANSMITTER_HOLDING = 1"
| "uart_offset UART_INTERRUPT_ENABLE = 2"
| "uart_offset UART_INTERRUPT_ID = 3"
| "uart_offset UART_FIFO_CONTROL = 4"
| "uart_offset UART_LINE_CONTROL = 5"
| "uart_offset UART_MODEM_CONTROL = 6"
| "uart_offset UART_LINE_STATUS = 7"
| "uart_offset UART_MODEM_STATUS = 8"
| "uart_offset UART_SCRATCH = 9"
| "uart_offset UART_DIVISOR_LATCH = 10"

text \<open>The bit fields of the unions, from the least significant bit on.\<close>

record uart_line_control_reg =
  char_bit :: u8
  stop_bits :: bool
  parity_enable :: bool
  even_parity_select :: bool
  stick_parity :: bool
  break_control :: bool
  divisor_latch_access :: bool

definition line_control_of :: "u8 \<Rightarrow> uart_line_control_reg" where
  "line_control_of raw_value = \<lparr>char_bit = raw_value AND 3, stop_bits = bit raw_value 2,
     parity_enable = bit raw_value 3, even_parity_select = bit raw_value 4, stick_parity = bit raw_value 5,
     break_control = bit raw_value 6, divisor_latch_access = bit raw_value 7\<rparr>"

definition line_control_raw :: "uart_line_control_reg \<Rightarrow> u8" where
  "line_control_raw r = (char_bit r AND 3) OR push_bit 2 (of_bool (stop_bits r)) OR
     push_bit 3 (of_bool (parity_enable r)) OR push_bit 4 (of_bool (even_parity_select r)) OR
     push_bit 5 (of_bool (stick_parity r)) OR push_bit 6 (of_bool (break_control r)) OR
     push_bit 7 (of_bool (divisor_latch_access r))"

record uart_line_status_reg =
  data_ready :: bool
  overrun_error :: bool
  parity_error :: bool
  framing_error :: bool
  transmitter_ready :: bool
  transmitter_empty :: bool

definition line_status_of :: "u8 \<Rightarrow> uart_line_status_reg" where
  "line_status_of raw_value = \<lparr>data_ready = bit raw_value 0, overrun_error = bit raw_value 1,
     parity_error = bit raw_value 2, framing_error = bit raw_value 3, transmitter_ready = bit raw_value 4,
     transmitter_empty = bit raw_value 5\<rparr>"

record uart_interrupt_enable_reg =
  intrp_received_data_available :: bool
  intrp_transmitter_holding_is_empty :: bool
  intrp_reciver_line_status :: bool
  intr_modem_status :: bool

definition interrupt_enable_of :: "u8 \<Rightarrow> uart_interrupt_enable_reg" where
  "interrupt_enable_of raw_value = \<lparr>intrp_received_data_available = bit raw_value 0,
     intrp_transmitter_holding_is_empty = bit raw_value 1, intrp_reciver_line_status = bit raw_value 2,
     intr_modem_status = bit raw_value 3\<rparr>"

lemma bit_of_bool_word: "bit (of_bool b :: 'a::len word) n \<longleftrightarrow> b \<and> n = 0"
  by (cases b) (auto simp: bit_simps)

lemma mask_2: "(3 :: u8) = mask 2"
  by (simp add: mask_eq_exp_minus_1)

lemma line_control_roundtrip: "line_control_raw (line_control_of raw_value) = raw_value"
proof (rule bit_word_eqI)
  fix n assume "n < LENGTH(8)"
  then have "n = 0 \<or> n = 1 \<or> n = 2 \<or> n = 3 \<or> n = 4 \<or> n = 5 \<or> n = 6 \<or> n = 7" by auto
  then show "bit (line_control_raw (line_control_of raw_value)) n = bit raw_value n"
    unfolding line_control_raw_def line_control_of_def mask_2
    by (elim disjE; simp only: bit_or_iff bit_and_iff bit_push_bit_iff bit_of_bool_word bit_mask_iff
      uart_line_control_reg.simps) simp_all
qed

end
