(* ===== verification/Bitmap_Tests.thy ===== *)
theory Bitmap_Tests
  imports Kernel
begin

text \<open>
  The test driver of the bitmap, \<^verbatim>\<open>src/tests/test_bitmap.c\<close>.  Its two globals are an argument: the
  address of the array \<open>slots\<close>, and \<open>my_bitmap\<close>, which is threaded through.
\<close>

abbreviation SLOTS_SIZE :: nat where "SLOTS_SIZE \<equiv> 10"

definition kupdate :: "(mem \<Rightarrow> mem option) \<Rightarrow> unit kc" where
  "kupdate f k = (case f (k_mem k) of None \<Rightarrow> (Inl Fault, k) | Some m \<Rightarrow> (Inr (), k\<lparr>k_mem := m\<rparr>))"

lemma kupdate_Some [simp]: "f (k_mem k) = Some m \<Longrightarrow> kupdate f k = (Inr (), k\<lparr>k_mem := m\<rparr>)"
  by (simp add: kupdate_def)

section \<open>The driver\<close>

definition print_slot_bit :: "bitmap \<Rightarrow> nat \<Rightarrow> nat \<Rightarrow> unit kc" where
  "print_slot_bit bm i j = kbind (kread (\<lambda>m. load32 m (slot_addr bm i))) (\<lambda>w.
     k_putchar (char_of (48 + unat (drop_bit j w AND 1))))"

definition debug_print_bitmap :: "bitmap \<Rightarrow> unit kc" where
  "debug_print_bitmap bm = kdo (
     [k_printf (''----------------'' @ [CHR 0x0A]) []] @
     map (\<lambda>i. kdo (map (print_slot_bit bm i) [0..<WORD_SIZE] @ [k_putchar CHR 0x0A])) [0..<slots_size bm] @
     [k_printf (''----------------'' @ [CHR 0x0A]) []])"

definition test_enable_bit :: "int \<Rightarrow> bitmap \<Rightarrow> bool kc" where
  "test_enable_bit slots bm = (let off = 25; index = 5 * WORD_SIZE; result = push_bit off (1 :: u32) in
     kthen [kupdate (\<lambda>m. map_option snd (enable_bit m bm (index + off)))]
       (kbind (kread (\<lambda>m. load32 m (slots + 4 * 5))) (\<lambda>w. kret (w AND result \<noteq> 0))))"

text \<open>One round of a loop of \<open>test_mark_as_used\<close>, with the line of its assertion.\<close>

definition assert_used :: "image \<Rightarrow> bitmap \<Rightarrow> bool \<Rightarrow> u32 \<Rightarrow> nat \<Rightarrow> unit kc" where
  "assert_used img bm v line i = kbind (kread (\<lambda>m. bitmap_is_used m bm i)) (\<lambda>u.
     DEBUG_ASSERT img (u = v) (''bitmap_is_used(&my_bitmap, i) == '' @ (if v then ''1'' else ''0''))
       ''tests/test_bitmap.c'' ''test_mark_as_used'' line)"

definition test_mark_as_used :: "image \<Rightarrow> bitmap \<Rightarrow> bool kc" where
  "test_mark_as_used img bm = kthen (
     [kupdate (\<lambda>m. bitmap_mark_as_used m bm 0 50), kupdate (\<lambda>m. bitmap_mark_as_used m bm 55 5)] @
     map (assert_used img bm True 35) [0..<50] @ map (assert_used img bm False 38) [50..<55] @
     map (assert_used img bm True 41) [55..<60] @ map (assert_used img bm False 44) [60..<WORD_SIZE * SLOTS_SIZE] @
     [debug_print_bitmap bm]) (kret True)"

definition test_mark_as_used2 :: "int \<Rightarrow> bitmap \<Rightarrow> bool kc" where
  "test_mark_as_used2 slots bm = kthen
     [kupdate (\<lambda>m. bitmap_mark_as_used m bm 0 12), kupdate (\<lambda>m. bitmap_mark_as_used m bm 12 2),
      k_printf (''%b'' @ [CHR 0x0A]) [AInt (word_of_int slots)]]
     (kbind (kread (\<lambda>m. load32 m slots)) (\<lambda>w. kret (w = 0b111111111111111111)))"

text \<open>The first assertion assigns instead of comparing; what it tests is the value assigned.\<close>

definition run_all_tests :: "image \<Rightarrow> int \<Rightarrow> bitmap \<Rightarrow> bitmap kc" where
  "run_all_tests img slots my_bitmap k =
     (case bitmap_init (k_mem k) my_bitmap slots SLOTS_SIZE of
        Inl e \<Rightarrow> (Inl e, k)
      | Inr (bm, m) \<Rightarrow>
          let bm = bm\<lparr>slots_size := SLOTS_SIZE\<rparr> in
          kthen [DEBUG_ASSERT img (SLOTS_SIZE \<noteq> 0) ''my_bitmap.slots_size = SLOTS_SIZE''
                   ''tests/test_bitmap.c'' ''run_all_tests'' 59,
                 kbind (test_mark_as_used img bm) (\<lambda>ok. DEBUG_ASSERT img ok ''test_mark_as_used()''
                   ''tests/test_bitmap.c'' ''run_all_tests'' 60),
                 k_printf ''[OK] All tests passed!'' []]
            (kret bm) (k\<lparr>k_mem := m\<rparr>))"

section \<open>What it prints\<close>

definition bit_rows :: "nat \<Rightarrow> nat set \<Rightarrow> string" where
  "bit_rows n u = concat (map (\<lambda>i.
     map (\<lambda>j. if 32 * i + j \<in> u then CHR ''1'' else CHR ''0'') [0..<WORD_SIZE] @ [CHR 0x0A]) [0..<n])"

lemma kdo_append: "kdo cs k = (Inr (), k') \<Longrightarrow> kdo (cs @ ds) k = kdo ds k'"
proof (induction cs arbitrary: k)
  case (Cons c cs)
  then show ?case by (auto simp: kdo.simps(2) elim!: kbind_cases)
qed simp

lemma kdo_prints:
  assumes "\<And>x k. x \<in> set xs \<Longrightarrow> k_mem k = m \<Longrightarrow> f x k = (Inr (), k\<lparr>k_console := k_console k @ g x\<rparr>)"
  shows "k_mem k = m \<Longrightarrow> kdo (map f xs) k = (Inr (), k\<lparr>k_console := k_console k @ concat (map g xs)\<rparr>)"
  using assms by (induction xs arbitrary: k) simp_all

lemma digit_chars: "char_of (48 :: nat) = CHR ''0''" "char_of (49 :: nat) = CHR ''1''"
  by code_simp+

lemma print_slot_bit_run:
  assumes ok: "bm_ok m bm" and i: "i < slots_size bm" "j < 32" and k: "k_mem k = m"
  shows "print_slot_bit bm i j k =
    (Inr (), k\<lparr>k_console := k_console k @ (if 32 * i + j \<in> used_slots m bm then ''1'' else ''0'')\<rparr>)"
proof -
  obtain w where w: "load32 m (slot_addr bm i) = Some w" using bm_ok_word(2) [OF ok i(1)] by blast
  have "32 * i + j \<in> used_slots m bm \<longleftrightarrow> bit w j"
    using i slots_of_word [OF w i(2)] by (simp add: used_slots_def bm_capacity_def)
  moreover have "drop_bit j w AND 1 = (if bit w j then 1 else 0)"
    by (simp add: and_one_eq bit_iff_odd_drop_bit odd_iff_mod_2_eq_one mod2_eq_if)
  ultimately show ?thesis using w k by (simp add: print_slot_bit_def digit_chars)
qed

lemma debug_print_run:
  assumes ok: "bm_ok m bm" and k: "k_mem k = m"
  shows "debug_print_bitmap bm k = (Inr (), k\<lparr>k_console := k_console k @ ''----------------'' @ [CHR 0x0A] @
     bit_rows (slots_size bm) (used_slots m bm) @ ''----------------'' @ [CHR 0x0A]\<rparr>)"
proof -
  define g where "g = (\<lambda>i. map (\<lambda>j. if 32 * i + j \<in> used_slots m bm then CHR ''1'' else CHR ''0'') [0..<WORD_SIZE] @
    [CHR 0x0A])"
  have row: "kdo (map (print_slot_bit bm i) [0..<WORD_SIZE] @ [k_putchar CHR 0x0A]) k =
      (Inr (), k\<lparr>k_console := k_console k @ g i\<rparr>)" if "i < slots_size bm" "k_mem k = m" for i k
  proof -
    have "kdo (map (print_slot_bit bm i) [0..<WORD_SIZE]) k = (Inr (), k\<lparr>k_console := k_console k @
        concat (map (\<lambda>j. if 32 * i + j \<in> used_slots m bm then ''1'' else ''0'') [0..<WORD_SIZE])\<rparr>)"
      by (rule kdo_prints [OF _ that(2)]) (use ok that(1) in \<open>simp add: print_slot_bit_run\<close>)
    moreover have "concat (map (\<lambda>j. if P j then ''1'' else ''0'') js) = map (\<lambda>j. if P j then CHR ''1'' else CHR ''0'') js"
      for P and js :: "nat list" by (induction js) auto
    ultimately show ?thesis by (simp add: kdo_append g_def del: upt_rec_numeral)
  qed
  have "kdo (map (\<lambda>i. kdo (map (print_slot_bit bm i) [0..<WORD_SIZE] @ [k_putchar CHR 0x0A])) [0..<slots_size bm])
      (k\<lparr>k_console := c\<rparr>) = (Inr (), k\<lparr>k_console := c @ concat (map g [0..<slots_size bm])\<rparr>)" for c
    using kdo_prints [of "[0..<slots_size bm]" m _ g "k\<lparr>k_console := c\<rparr>", OF row] k by simp
  then show ?thesis
    by (simp add: debug_print_bitmap_def kdo_append bit_rows_def g_def del: upt_rec_numeral)
qed

lemma assert_used_run:
  assumes ok: "bm_ok m bm" and k: "k_mem k = m" and i: "i < bm_capacity bm" "i \<in> used_slots m bm \<longleftrightarrow> v"
  shows "assert_used img bm v line i k = (Inr (), k)"
  using bitmap_is_used_spec [OF ok i(1)] k i(2) by (simp add: assert_used_def)

lemma assert_all_used:
  assumes ok: "bm_ok m bm" and k: "k_mem k = m"
    and i: "\<And>i. i \<in> set is \<Longrightarrow> i < bm_capacity bm \<and> (i \<in> used_slots m bm \<longleftrightarrow> v)"
  shows "kdo (map (assert_used img bm v line) is @ cs) k = kdo cs k"
proof (rule kdo_append)
  show "kdo (map (assert_used img bm v line) is) k = (Inr (), k)"
    using i by (induction "is") (simp_all add: assert_used_run [OF ok k])
qed

section \<open>Properties\<close>

text \<open>C29: the test driver of the bitmap passes: called with an array of ten words in memory it returns, no assertion
  halts the kernel, it prints the table of its ten words with exactly the slots 0 to 49 and 55 to 59 marked and
  the line that all tests passed, and it changes nothing but the array and the console.\<close>

theorem all_tests_pass:
  assumes "mapped (k_mem k) slots 40" "slots \<noteq> 0"
  shows "\<exists>bm' m'. run_all_tests img slots bm k = (Inr bm', k\<lparr>k_mem := m', k_console := k_console k @
        ''----------------'' @ [CHR 0x0A] @ bit_rows SLOTS_SIZE ({..<50} \<union> {55..<60}) @
        ''----------------'' @ [CHR 0x0A] @ ''[OK] All tests passed!''\<rparr>) \<and>
     used_slots m' bm' = {..<50} \<union> {55..<60} \<and> writes_only (k_mem k) m' slots 40"
proof -
  obtain b m0 where b: "bitmap_init (k_mem k) bm slots SLOTS_SIZE = Inr (b, m0)" "bm_ok m0 b" "slots_ptr b = slots"
    "slots_size b = SLOTS_SIZE" "used_slots m0 b = {}" "writes_only (k_mem k) m0 slots 40"
    using bitmap_init_spec [of "k_mem k" slots SLOTS_SIZE bm] assms by auto
  have range: "{..<50} \<inter> {..<320} = {..<50 :: nat}" "{55..<60} \<inter> {..<320} = {55..<60 :: nat}" by auto
  obtain m1 where m1: "bitmap_mark_as_used m0 b 0 50 = Some m1" "bm_ok m1 b" "used_slots m1 b = {..<50}"
    "writes_only m0 m1 slots 40"
    using bitmap_mark_as_used_spec [OF b(2), of 0 50] b(3-5) by (auto simp: bm_capacity_def atLeast0LessThan range)
  obtain m2 where m2: "bitmap_mark_as_used m1 b 55 5 = Some m2" "bm_ok m2 b"
    "used_slots m2 b = {..<50} \<union> {55..<60}" "writes_only m1 m2 slots 40"
    using bitmap_mark_as_used_spec [OF m1(2), of 55 5] m1(3) b(3,4) by (auto simp: bm_capacity_def range)
  have cap: "bm_capacity b = 320" using b(4) by (simp add: bm_capacity_def)
  define k2 where "k2 = k\<lparr>k_mem := m2\<rparr>"
  have k2: "k_mem k2 = m2" "k_console k2 = k_console k" by (simp_all add: k2_def)
  note checks = assert_all_used [OF m2(2) k2(1)] and m2(3) [simp] cap [simp]
  define out where "out = ''----------------'' @ [CHR 0x0A] @ bit_rows SLOTS_SIZE ({..<50} \<union> {55..<60}) @
    ''----------------'' @ [CHR 0x0A]"
  have "debug_print_bitmap b k2 = (Inr (), k2\<lparr>k_console := k_console k @ out\<rparr>)"
    using debug_print_run [OF m2(2) k2(1)] k2(2) b(4) by (simp add: out_def del: append.simps)
  moreover have "kdo (map (assert_used img b True 35) [0..<50] @ map (assert_used img b False 38) [50..<55] @
     map (assert_used img b True 41) [55..<60] @ map (assert_used img b False 44) [60..<WORD_SIZE * SLOTS_SIZE] @
     [debug_print_bitmap b]) k2 = kdo [debug_print_bitmap b] k2"
    by (rule trans [OF checks], fastforce, rule trans [OF checks], fastforce, rule trans [OF checks], fastforce,
      rule checks, fastforce)
  moreover have "kupdate (\<lambda>m. bitmap_mark_as_used m b 0 50) (k\<lparr>k_mem := m0\<rparr>) = (Inr (), k\<lparr>k_mem := m1\<rparr>)"
    "kupdate (\<lambda>m. bitmap_mark_as_used m b 55 5) (k\<lparr>k_mem := m1\<rparr>) = (Inr (), k2)"
    using m1(1) m2(1) by (simp_all add: k2_def)
  ultimately have "test_mark_as_used img b (k\<lparr>k_mem := m0\<rparr>) = (Inr True, k2\<lparr>k_console := k_console k @ out\<rparr>)"
    by (simp add: test_mark_as_used_def kthen_def del: upt_rec_numeral)
  moreover have "b\<lparr>slots_size := SLOTS_SIZE\<rparr> = b" using b(4) by simp
  ultimately have "run_all_tests img slots bm k =
      (Inr b, k2\<lparr>k_console := k_console k @ out @ ''[OK] All tests passed!''\<rparr>)"
    using b(1) by (simp add: run_all_tests_def Let_def)
  moreover have "writes_only (k_mem k) m2 slots 40" using b(6) m1(4) m2(4) by (blast intro: writes_only_trans)
  ultimately show ?thesis using m2(3) by (auto simp: out_def k2_def)
qed

theorem all_tests_pass_witness:
  "\<forall>img bm k. \<exists>bm' m'. run_all_tests img 4096 bm (k\<lparr>k_mem := (\<lambda>a. if 4096 \<le> a \<and> a < 4136 then Some 7 else None), k_console := []\<rparr>) =
     (Inr bm', k\<lparr>k_mem := m', k_console := ''----------------'' @ [CHR 0x0A] @
        bit_rows SLOTS_SIZE ({..<50} \<union> {55..<60}) @ ''----------------'' @ [CHR 0x0A] @ ''[OK] All tests passed!''\<rparr>) \<and>
     used_slots m' bm' = {..<50} \<union> {55..<60}"
proof (intro allI, goal_cases)
  case (1 img bm k)
  define k' where "k' = k\<lparr>k_mem := (\<lambda>a. if 4096 \<le> a \<and> a < 4136 then Some 7 else None), k_console := []\<rparr>"
  have "mapped (k_mem k') 4096 40" by (simp add: k'_def mapped_def)
  from all_tests_pass [OF this, of img bm] show ?case by (auto simp: k'_def)
qed

lemma binary_chars:
  "render (CHR ''%'' # CHR ''b'' # fmt) (AInt w # va) =
     do { cs \<leftarrow> render fmt va; Some (rev (map (digit_char False) (lsd 2 (uint w))) @ cs) }"
  by (simp add: directive_defs convert_chars_def integer_chars_def spec_flags_def spec_base_def
      has_flag_def unsigned_arg_def long_chars_plain length_lsd_u32)

text \<open>The second test compares the first word with 18 ones after 14 slots have been marked: on a fresh bitmap
  it gives false.\<close>

theorem second_test_fails:
  assumes bm: "bm_ok m bm" "slots_ptr bm = slots" "slots_size bm = SLOTS_SIZE" "used_slots m bm = {}" and k: "k_mem k = m"
  shows "\<exists>k'. test_mark_as_used2 slots bm k = (Inr False, k') \<and> used_slots (k_mem k') bm = {..<14}"
proof -
  obtain m1 where m1: "bitmap_mark_as_used m bm 0 12 = Some m1" "bm_ok m1 bm" "used_slots m1 bm = {..<12} \<inter> {..<320}"
    using bitmap_mark_as_used_spec [OF bm(1), of 0 12] bm(3,4) by (auto simp: bm_capacity_def atLeast0LessThan)
  obtain m2 where m2: "bitmap_mark_as_used m1 bm 12 2 = Some m2" "bm_ok m2 bm"
    "used_slots m2 bm = used_slots m1 bm \<union> ({12..<14} \<inter> {..<320})"
    using bitmap_mark_as_used_spec [OF m1(2), of 12 2] bm(3) by (auto simp: bm_capacity_def)
  have "{..<12} \<inter> {..<320} \<union> {12..<14} \<inter> {..<320} = {..<14 :: nat}" by auto
  then have u: "used_slots m2 bm = {..<14}" using m1(3) m2(3) by simp
  obtain w where w: "load32 m2 slots = Some w" using bm_ok_word(2) [OF m2(2), of 0] bm(2,3) by (auto simp: slot_addr_def)
  have "14 \<notin> used_slots m2 bm" using u by simp
  then have "\<not> bit w 14"
    using slots_of_word [of m2 bm 0 w 14] w bm(2,3) by (simp add: used_slots_def bm_capacity_def slot_addr_def)
  moreover have "bit (0b111111111111111111 :: u32) 14" by code_simp
  ultimately have n: "w \<noteq> 0b111111111111111111" by metis
  obtain cs where "render (''%b'' @ [CHR 0x0A]) [AInt (word_of_int slots)] = Some cs"
    by (simp add: render_cons binary_chars del: render_simps(2))
  note pr = k_printf_render [OF this]
  define k2 where "k2 = k\<lparr>k_mem := m2\<rparr>"
  define k3 where "k3 = k2\<lparr>k_console := k_console k2 @ non_nul cs\<rparr>"
  have "kupdate (\<lambda>m. bitmap_mark_as_used m bm 0 12) k = (Inr (), k\<lparr>k_mem := m1\<rparr>)"
    "kupdate (\<lambda>m. bitmap_mark_as_used m bm 12 2) (k\<lparr>k_mem := m1\<rparr>) = (Inr (), k2)"
    "kread (\<lambda>m. load32 m slots) k3 = (Inr w, k3)"
    using k m1(1) m2(1) w by (simp_all add: k2_def k3_def)
  then have "test_mark_as_used2 slots bm k = (Inr False, k3)"
    using pr [of k2, folded k3_def] n unfolding test_mark_as_used2_def by simp
  with u show ?thesis by (auto simp: k3_def k2_def)
qed

text \<open>The test of a single bit is not called by the driver; it passes on every bitmap over the array.\<close>

lemma enable_bit_test_passes:
  assumes bm: "bm_ok (k_mem k) bm" "slots_ptr bm = slots" "slots_size bm = SLOTS_SIZE"
  shows "\<exists>m'. test_enable_bit slots bm k = (Inr True, k\<lparr>k_mem := m'\<rparr>) \<and>
    used_slots m' bm = insert 185 (used_slots (k_mem k) bm)"
proof -
  obtain m' where m': "enable_bit (k_mem k) bm 185 = Some (True, m')" "bm_ok m' bm"
    "used_slots m' bm = insert 185 (used_slots (k_mem k) bm)"
    using enable_bit_spec [OF bm(1), of 185] bm(3) by (auto simp: bm_capacity_def)
  obtain w where w: "load32 m' (slots + 20) = Some w" using bm_ok_word(2) [OF m'(2), of 5] bm(2,3)
    by (auto simp: slot_addr_def)
  have "185 \<in> used_slots m' bm" using m'(3) by simp
  then have "bit w 25"
    using slots_of_word [of m' bm 5 w 25] w bm(2,3) by (simp add: used_slots_def slot_addr_def)
  then have hit: "w AND push_bit 25 1 \<noteq> 0" by (simp only: and_push_1)
  have "kupdate (\<lambda>m. map_option snd (enable_bit m bm 185)) k = (Inr (), k\<lparr>k_mem := m'\<rparr>)" using m'(1) by simp
  then have "test_enable_bit slots bm k = (Inr True, k\<lparr>k_mem := m'\<rparr>)"
    using w hit unfolding test_enable_bit_def Let_def by (simp del: push_bit_of_1 push_bit_numeral)
  with m'(3) show ?thesis by blast
qed

end
