(* ===== verification/Boot_Types.thy ===== *)
theory Boot_Types
  imports Boot
begin

text \<open>
  The static variables of the kernel are 32-bit words and a table of 16 regions; the model keeps them
  as integers and a list.  Every step of the boot path keeps them in range, also when it stops.
\<close>

section \<open>State invariants\<close>

text \<open>\<open>holds I c Q\<close>: from a state with \<open>I\<close>, \<open>c\<close> ends in one, and a result it returns has \<open>Q\<close>.\<close>

definition holds :: "(kernel \<Rightarrow> bool) \<Rightarrow> 'a kc \<Rightarrow> ('a \<Rightarrow> bool) \<Rightarrow> bool" where
  "holds I c Q \<longleftrightarrow> (\<forall>k r k'. I k \<longrightarrow> c k = (r, k') \<longrightarrow> I k' \<and> (\<forall>x. r = Inr x \<longrightarrow> Q x))"

named_theorems holds_intros

lemma holdsI: "(\<And>k r k'. I k \<Longrightarrow> c k = (r, k') \<Longrightarrow> I k' \<and> (\<forall>x. r = Inr x \<longrightarrow> Q x)) \<Longrightarrow> holds I c Q"
  by (simp add: holds_def)

lemma holdsD: "holds I c Q \<Longrightarrow> I k \<Longrightarrow> c k = (r, k') \<Longrightarrow> I k' \<and> (\<forall>x. r = Inr x \<longrightarrow> Q x)"
  by (simp add: holds_def)

lemma holds_mono: "holds I c Q \<Longrightarrow> (\<And>x. Q x \<Longrightarrow> R x) \<Longrightarrow> holds I c R"
  by (simp add: holds_def)

lemma holds_basic [holds_intros]:
  "Q x \<Longrightarrow> holds I (kret x) Q" "holds I (kstop e) Q"
  "holds I (kdo []) (\<lambda>_. True)"
  by (auto simp: holds_def)

lemma holds_kget: "(\<And>k. I k \<Longrightarrow> Q (f k)) \<Longrightarrow> holds I (kget f) Q"
  by (auto simp: holds_def)

lemma holds_kread: "(\<And>m x. f m = Some x \<Longrightarrow> Q x) \<Longrightarrow> holds I (kread f) Q"
  by (auto simp: holds_def kread_def)

lemma holds_kmod: "(\<And>k. I k \<Longrightarrow> I (f k)) \<Longrightarrow> holds I (kmod f) (\<lambda>_. True)"
  by (auto simp: holds_def)

lemma holds_kbind:
  assumes "holds I c Q" "\<And>x. Q x \<Longrightarrow> holds I (g x) R"
  shows "holds I (kbind c g) R"
proof (rule holdsI)
  fix k r k' assume k: "I k" and run: "kbind c g k = (r, k')"
  from run show "I k' \<and> (\<forall>x. r = Inr x \<longrightarrow> R x)"
  proof (cases rule: kbind_cases)
    case (stop e)
    with holdsD [OF assms(1) k stop(1)] show ?thesis by simp
  next
    case (step x k1)
    from holdsD [OF assms(1) k step(1)] have "I k1" "Q x" by simp_all
    from holdsD [OF assms(2) [OF this(2)] this(1) step(2)] show ?thesis .
  qed
qed

lemma holds_kdo_Cons [holds_intros]:
  "holds I c (\<lambda>_. True) \<Longrightarrow> holds I (kdo cs) (\<lambda>_. True) \<Longrightarrow> holds I (kdo (c # cs)) (\<lambda>_. True)"
  by (auto simp: kdo.simps(2) intro: holds_kbind)

lemma holds_kthen [holds_intros]: "holds I (kdo cs) (\<lambda>_. True) \<Longrightarrow> holds I c Q \<Longrightarrow> holds I (kthen cs c) Q"
  unfolding kthen_def by (rule holds_kbind)

lemma holds_kwhen [holds_intros]: "holds I c (\<lambda>_. True) \<Longrightarrow> holds I (kwhen b c) (\<lambda>_. True)"
  by (auto simp: holds_def split: if_splits)

lemma holds_if [holds_intros]: "(b \<Longrightarrow> holds I c Q) \<Longrightarrow> (\<not> b \<Longrightarrow> holds I d Q) \<Longrightarrow> holds I (if b then c else d) Q"
  by simp

lemma holds_kdo_all: "(\<And>c. c \<in> set cs \<Longrightarrow> holds I c (\<lambda>_. True)) \<Longrightarrow> holds I (kdo cs) (\<lambda>_. True)"
  by (induction cs) (auto intro: holds_intros)

text \<open>
  An invariant that does not look at the console, the CSRs and the power functions: printing, halting,
  assertions and the register setup keep it.
\<close>

locale quiet_invariant =
  fixes I :: "kernel \<Rightarrow> bool"
  assumes console: "I (k\<lparr>k_console := c\<rparr>) = I k"
    and csrs: "I (k\<lparr>k_csr := r, k_csr_log := l\<rparr>) = I k"
    and power: "I (k\<lparr>shutdown_fn := f, reboot_fn := g\<rparr>) = I k"
    and mmio: "I (k\<lparr>k_mmio := w\<rparr>) = I k"
begin

lemma printing: "holds I (k_printf fmt va) (\<lambda>_. True)" "holds I (k_putchar ch) (\<lambda>_. True)"
proof -
  show "holds I (k_printf fmt va) (\<lambda>_. True)"
  proof (rule holdsI)
    fix k r k' assume "I k" "k_printf fmt va k = (r, k')"
    then show "I k' \<and> (\<forall>x. r = Inr x \<longrightarrow> True)"
      by (cases rule: k_printf_cases [of fmt va k]) (auto simp: console)
  qed
qed (auto simp: holds_def console)

lemma registers: "holds I (WRITE_CSR img c v) (\<lambda>_. True)" "holds I (READ_CSR c) (\<lambda>_. True)"
  "holds I (disable_interrupts img) (\<lambda>_. True)" "holds I (mmio_write a v) (\<lambda>_. True)"
  by (auto simp: holds_def halted_def Let_def csrs mmio)

lemma stopping: "holds I (halt img) Q" "holds I (KERNEL_PANIC img fmt va) Q"
proof -
  show h: "holds I (halt img) Q" for Q :: "'b \<Rightarrow> bool"
    unfolding halt_def by (rule holds_kbind [OF registers(3)]) (rule holds_basic)
  show "holds I (KERNEL_PANIC img fmt va) Q"
    unfolding KERNEL_PANIC_def by (intro holds_intros printing h)
qed

lemma asserting: "holds I (DEBUG_ASSERT img b t f g l) (\<lambda>_. b)"
proof (cases b)
  case False
  have "holds I (DEBUG_ASSERT img b t f g l) (\<lambda>_. True)"
    unfolding DEBUG_ASSERT_def by (intro holds_intros printing stopping)
  with False DEBUG_ASSERT_False [of img t f g l] show ?thesis by (fastforce simp: holds_def)
qed (auto simp: holds_def)

lemma asserting_any: "holds I (DEBUG_ASSERT img b t f g l) (\<lambda>_. True)"
  by (rule holds_mono [OF asserting]) simp

lemmas quiet = printing registers stopping asserting_any

lemma setup_steps: "holds I (ensure_extensions_present img req) (\<lambda>_. True)" "holds I (setup_interrupt_handler img) (\<lambda>_. True)"
  "holds I (check_device_tree img t) (\<lambda>_. True)" "holds I (riscv_switch_to_supervisor img a) (\<lambda>_. True)"
  "holds I init_power_controller (\<lambda>_. True)"
proof -
  show "holds I (ensure_extensions_present img req) (\<lambda>_. True)"
    unfolding ensure_extensions_present_def by (rule holds_kbind [OF registers(2)]) (intro holds_intros quiet)
  show "holds I (setup_interrupt_handler img) (\<lambda>_. True)"
    unfolding setup_interrupt_handler_def by (intro holds_intros quiet)
  show "holds I (check_device_tree img t) (\<lambda>_. True)"
    unfolding check_device_tree_def
    by (intro holds_intros quiet holds_kbind [OF holds_kread [where Q = "\<lambda>_. True"]] TrueI)
  show "holds I (riscv_switch_to_supervisor img a) (\<lambda>_. True)"
    unfolding riscv_switch_to_supervisor_def by (rule holds_kbind [OF registers(2)]) (intro holds_intros quiet)
  show "holds I init_power_controller (\<lambda>_. True)" by (auto simp: holds_def init_power_controller_def power)
qed

end

section \<open>The static variables\<close>

abbreviation u32_value :: "int \<Rightarrow> bool" where
  "u32_value x \<equiv> 0 \<le> x \<and> x < 4294967296"

definition region_typed :: "ram_descriptor \<Rightarrow> bool" where
  "region_typed r \<longleftrightarrow> u32_value (physicaddr r) \<and> u32_value (space_size r)"

text \<open>
  32768 words have a bit for every page of the 32-bit address space: under this bound the C expressions
  \<open>slots_size * sizeof(size_t)\<close> and \<open>slots_size * WORD_SIZE\<close>, computed in \<open>size_t\<close>, do not wrap around.
\<close>

definition kernel_typed :: "kernel \<Rightarrow> bool" where
  "kernel_typed k \<longleftrightarrow> length (ram_regions k) = MAX_MEM_REGIONS \<and> ram_regions_index k \<le> MAX_MEM_REGIONS \<and>
     (\<forall>r \<in> set (ram_regions k). region_typed r) \<and> u32_value (clint_addr k) \<and>
     u32_value (mtime (present_timer k)) \<and> u32_value (mtimecmp (present_timer k)) \<and>
     u32_value (slots_ptr (physical_bitmap k)) \<and> slots_size (physical_bitmap k) \<le> 32768"

interpretation typed: quiet_invariant kernel_typed
  by unfold_locales (simp_all add: kernel_typed_def)

lemma to_u32_typed: "u32_value (to_u32 x)"
  by (simp add: to_u32_def)

lemma fetch_lowest_typed: "fetch_lowest m p n = Some v \<Longrightarrow> u32_value v"
proof -
  have loop: "fetch_lowest_loop m p c = Some v \<Longrightarrow> u32_value v" for p c
  proof (induction m p c rule: fetch_lowest_loop.induct)
    case (1 m p c)
    from 1(2) show ?case
      by (subst (asm) fetch_lowest_loop.simps)
        (use 1(1) uint_lt2p [where 'a = 32] in \<open>auto simp: bind_eq_Some_conv split: if_splits\<close>)
  qed
  assume "fetch_lowest m p n = Some v"
  then show ?thesis
    using loop uint_lt2p [where 'a = 32] by (auto simp: fetch_lowest_def bind_eq_Some_conv split: if_splits)
qed

lemma parse_reg_typed:
  assumes "parse_reg m img t n = Some (r, a, s)"
  shows "pred_option u32_value a \<and> pred_option u32_value s"
  using assms fetch_lowest_typed by (fastforce simp: parse_reg_def bind_eq_Some_conv Let_def split: if_splits)

lemma reg_typed: "holds kernel_typed (kread (\<lambda>m. parse_reg m img t n))
    (\<lambda>(r, a, s). pred_option u32_value a \<and> pred_option u32_value s)"
  by (rule holds_kread) (use parse_reg_typed in auto)

lemma put_region_typed:
  assumes "kernel_typed k" "pred_option u32_value a" "pred_option u32_value s" "i < MAX_MEM_REGIONS"
  shows "kernel_typed (put_region i a s k)"
proof -
  have l: "length (ram_regions k) = MAX_MEM_REGIONS" "\<forall>r \<in> set (ram_regions k). region_typed r"
    using assms(1) by (simp_all add: kernel_typed_def)
  then have "region_typed (ram_regions k ! i)" using assms(4) by simp
  with assms l show ?thesis
    by (auto simp: kernel_typed_def put_region_def Let_def region_typed_def pred_option_def
      dest!: set_update_subset_insert [THEN subsetD] split: option.splits)
qed

lemma extract_typed: "holds kernel_typed (extract_ram_region_info img t n) (\<lambda>_. True)"
proof -
  have idx: "holds kernel_typed (kmod (\<lambda>k. k\<lparr>ram_regions_index := Suc i\<rparr>)) (\<lambda>_. True)"
    if "\<not> MAX_MEM_REGIONS \<le> i" for i
    by (rule holds_kmod) (use that in \<open>simp add: kernel_typed_def\<close>)
  have put: "holds kernel_typed (kmod (put_region i a s)) (\<lambda>_. True)"
    if "\<not> MAX_MEM_REGIONS \<le> i" "pred_option u32_value a \<and> pred_option u32_value s" for i a s
    by (rule holds_kmod) (use that put_region_typed in auto)
  show ?thesis
    unfolding extract_ram_region_info_def
    by (rule holds_kbind [OF holds_kget [where Q = "\<lambda>_. True"]], simp, rule holds_if, rule holds_basic, simp,
        rule holds_kbind [OF idx], assumption, rule holds_kbind [OF reg_typed], clarify, rule holds_kbind [OF put],
        assumption, simp,
        intro holds_kbind [OF holds_kget [where Q = "\<lambda>_. True"]] holds_intros typed.quiet TrueI)
qed

lemma log_typed: "holds kernel_typed log_detected_memory (\<lambda>_. True)"
  unfolding log_detected_memory_def Let_def
  by (intro holds_kbind [OF holds_kget [where Q = "\<lambda>_. True"]] holds_kdo_all TrueI)
    (auto simp: region_line_def intro: typed.quiet)

lemma next_node_typed: "holds kernel_typed (next_memory_node img t n) (\<lambda>_. True)"
  unfolding next_memory_node_def by (rule holds_kread) simp

lemma detect_loop_typed:
  "kernel_typed k \<Longrightarrow> detect_memory_loop img t n k = (r, k') \<Longrightarrow> kernel_typed k'"
proof (induction img t n k arbitrary: r k' rule: detect_memory_loop.induct)
  case (1 img t n k)
  have lg: "holds kernel_typed (kbind log_detected_memory (\<lambda>_. kret (0 :: int))) (\<lambda>_. True)"
    by (rule holds_kbind [OF log_typed]) (rule holds_basic, simp)
  from 1(3) show ?case
    using holdsD [OF extract_typed 1(2), of img t n] holdsD [OF lg 1(2)]
      1(1) holdsD [OF next_node_typed]
    by (subst (asm) detect_memory_loop.simps) (fastforce split: if_splits prod.splits sum.splits)
qed

lemma detect_typed: "holds kernel_typed (detect_memory img t) (\<lambda>_. True)"
  unfolding detect_memory_def
  by (rule holds_kbind [OF next_node_typed]) (auto simp: holds_def intro: detect_loop_typed)

lemma clint_typed: "holds kernel_typed (init_interrupt_controller img t) (\<lambda>_. True)"
proof -
  have set_clint: "holds kernel_typed (kmod (\<lambda>k. case a of Some a \<Rightarrow> k\<lparr>clint_addr := a\<rparr> | None \<Rightarrow> k)) (\<lambda>_. True)"
    if "pred_option u32_value a" for a
    by (rule holds_kmod) (use that in \<open>auto simp: kernel_typed_def split: option.splits\<close>)
  have disc: "holds kernel_typed (discover_clint img t) (\<lambda>_. True)"
    unfolding discover_clint_def
    by (intro holds_kbind [OF holds_kread [where Q = "\<lambda>_. True"]] holds_if holds_kbind [OF reg_typed] TrueI)
      (auto intro!: holds_intros typed.quiet holds_kbind [OF set_clint] holds_kbind [OF holds_kget [where Q = "\<lambda>_. True"]])
  have timer: "holds kernel_typed clint_init_timer (\<lambda>t. u32_value (mtime t) \<and> u32_value (mtimecmp t))"
    unfolding clint_init_timer_def clint_get_time_def clint_get_mtimecmp_def
  proof (rule holds_kbind [OF holds_kget [where Q = u32_value]])
    show "u32_value (to_u32 (clint_addr k + CLINT_MTIME_OFFSET))" for k by (rule to_u32_typed)
    fix x assume x: "u32_value x"
    show "holds kernel_typed (kbind (kbind (READ_CSR Mhartid) (\<lambda>hart. kget (\<lambda>k.
        to_u32 (to_u32 (clint_addr k + CLINT_MTIMECMP_OFFSET) + 8 * uint hart)))) (\<lambda>c. kret \<lparr>mtime = x, mtimecmp = c\<rparr>))
      (\<lambda>t. u32_value (mtime t) \<and> u32_value (mtimecmp t))"
      by (rule holds_kbind [where Q = u32_value], rule holds_kbind [OF typed.registers(2)],
          rule holds_kget, rule to_u32_typed, rule holds_basic) (use x in simp)
  qed
  have put: "holds kernel_typed (kmod (\<lambda>k. k\<lparr>present_timer := t\<rparr>)) (\<lambda>_. True)"
    if "u32_value (mtime t) \<and> u32_value (mtimecmp t)" for t
    by (rule holds_kmod) (use that in \<open>simp add: kernel_typed_def\<close>)
  show ?thesis
    unfolding init_interrupt_controller_def
    by (intro holds_kbind [OF disc] holds_if holds_kbind [OF timer] holds_intros typed.quiet put TrueI)
qed

lemma region_got: "holds kernel_typed (pmm_get_region img i) region_typed"
proof (rule holdsI)
  fix k r k' assume k: "kernel_typed k" and run: "pmm_get_region img i k = (r, k')"
  show "kernel_typed k' \<and> (\<forall>x. r = Inr x \<longrightarrow> region_typed x)"
  proof (cases "i < ram_regions_index k")
    case True
    then have "ram_regions k ! i \<in> set (ram_regions k)" using k by (simp add: kernel_typed_def)
    with True k run show ?thesis by (auto simp: kernel_typed_def)
  next
    case False
    have "holds kernel_typed (pmm_get_region img i) (\<lambda>_. True)"
      unfolding pmm_get_region_def
      by (intro holds_kbind [OF holds_kget [where Q = "\<lambda>_. True"]] holds_intros typed.quiet holds_kget TrueI)
    from holdsD [OF this k run] have "kernel_typed k'" by simp
    moreover have "\<exists>e. r = Inl e"
      using run False DEBUG_ASSERT_False
      by (auto simp: pmm_get_region_def kthen_def kdo.simps kbind_def split: prod.splits sum.splits dest!: DEBUG_ASSERT_run)
    ultimately show ?thesis by auto
  qed
qed

lemma place_typed:
  assumes "u32_value (kernel_end img)"
  shows "holds kernel_typed (place_bitmap img b n i) u32_value"
proof (induction n arbitrary: i)
  case (Suc n)
  show ?case
    unfolding place_bitmap.simps Let_def
    by (rule holds_kbind [OF region_got], intro holds_if holds_basic Suc)
      (use assms in \<open>auto simp: region_typed_def\<close>)
qed (simp add: holds_def)

lemma bitmap_calls_typed:
  "u32_value a \<Longrightarrow> n \<le> 32768 \<Longrightarrow> holds kernel_typed (kbitmap_init a n) (\<lambda>_. True)"
  "holds kernel_typed (kbitmap_mark_as_used i n) (\<lambda>_. True)"
  by (auto simp: holds_def kernel_typed_def kbitmap_init_def kbitmap_mark_as_used_def bitmap_init_def lift_mem_def
      bind_eq_Some_conv split: sum.splits option.splits if_splits)

lemma ppn_typed: "holds kernel_typed (physic_addr_to_ppn img a) (\<lambda>_. True)"
proof -
  have "holds kernel_typed (physic_addr_to_ppn_loop img p n i c) (\<lambda>_. True)" for p n i c
    by (induction n arbitrary: i c)
      (auto intro!: holds_basic holds_kbind [OF region_got])
  then show ?thesis
    unfolding physic_addr_to_ppn_def total_memory_regions_def
    by (intro holds_kbind [OF holds_kget [where Q = "\<lambda>_. True"]] TrueI)
qed

lemma borrow_typed: "holds kernel_typed (pmm_borrow_pages img a n) (\<lambda>_. True)"
  unfolding pmm_borrow_pages_def
  by (rule holds_kbind [OF ppn_typed]) (intro holds_intros typed.quiet bitmap_calls_typed)

lemma total_typed: "holds kernel_typed get_total_mem u32_value"
proof -
  have sum: "u32_value (foldl (\<lambda>counter r. to_u32 (counter + space_size r)) x rs)" if "u32_value x" for x rs
    using that by (induction rs arbitrary: x) (use to_u32_typed in auto)
  show ?thesis unfolding get_total_mem_def by (rule holds_kget, rule sum) simp
qed

text \<open>A bit for every page of less than 4 GiB.\<close>

lemma bitmap_words:
  assumes "u32_value t"
  shows "nat (uint (udiv_and_ceil (word_of_int (t div PAGE_SIZE)) (of_nat WORD_SIZE))) \<le> 32768"
proof -
  have "t div PAGE_SIZE < 1048576" "0 \<le> t div PAGE_SIZE" using assms by auto
  then have "uint (word_of_int (t div PAGE_SIZE) :: u32) < 1048576"
    by (simp add: uint_word_of_int)
  then have "unat (word_of_int (t div PAGE_SIZE) :: u32) < 1048576"
    using uint_nat [of "word_of_int (t div PAGE_SIZE) :: u32"] by linarith
  then show ?thesis using unat_udiv_and_ceil [of "of_nat WORD_SIZE" "word_of_int (t div PAGE_SIZE)"]
    by (simp add: nat_uint_eq)
qed

lemma init_phys_typed:
  assumes "u32_value (kernel_end img)"
  shows "holds kernel_typed (init_phys_allocator img) (\<lambda>_. True)"
  unfolding init_phys_allocator_def Let_def total_memory_regions_def
  by (intro holds_kbind [OF holds_kget [where Q = "\<lambda>_. True"]] holds_kbind [OF total_typed]
      holds_kbind [OF place_typed [OF assms]] holds_intros
      typed.quiet bitmap_calls_typed bitmap_words borrow_typed TrueI)

section \<open>The property\<close>

text \<open>C12: the boot does not leave the bounds of the kernel's static variables: from any state in which the
  region table has 16 entries, the index is at most 16 and the bitmap has at most 32768 words (and in
  which the addresses, sizes and timer registers, integers in the model, are 32-bit values),
  \<open>kmain\<close> reaches only such states, whatever the device tree contains and wherever the run stops.\<close>

theorem kmain_typed:
  assumes img: "u32_value (kernel_end img)" and k: "kernel_typed k" and run: "kmain img hart tree k = (r, k')"
  shows "kernel_typed k'"
proof -
  have sh: "holds kernel_typed (shutdown 0) (\<lambda>_. True)"
    unfolding shutdown_def call_power_def syscon_shutdown_def syscon_reboot_def
    by (rule holds_kbind [OF holds_kget [where Q = "\<lambda>_. True"]])
      (auto split: option.splits power_fn.splits intro!: holds_intros typed.quiet)
  have dm: "holds kernel_typed (kbind (detect_memory img tree) (\<lambda>_. kret ())) (\<lambda>_. True)"
    by (rule holds_kbind [OF detect_typed]) (rule holds_basic, simp)
  have "holds kernel_typed (kmain img hart tree) (\<lambda>_. True)"
    unfolding kmain_def
    by (intro holds_intros typed.quiet typed.setup_steps clint_typed dm init_phys_typed [OF img] sh)
  from holdsD [OF this k run] show ?thesis by simp
qed

theorem kmain_typed_witness:
  "\<exists>k'. kmain machine_image 0 4096 machine = (Inl Left_M_Mode, k') \<and> kernel_typed k'"
proof -
  obtain k' where k': "kmain machine_image 0 4096 machine = (Inl Left_M_Mode, k')"
    using kmain_boots_run [OF machine_tree_describes [folded machine_boot_facts(1)] machine_boot_facts(2-5)
      machine_kernel_first] by blast
  have "kernel_typed machine" "u32_value (kernel_end machine_image)"
    by (simp_all add: kernel_typed_def region_typed_def machine_def demo_kernel_def machine_image_def demo_image_def)
  from kmain_typed [OF this(2,1) k'] k' show ?thesis by blast
qed

section \<open>The region table\<close>

text \<open>The table keeps its first \<open>n\<close> entries, those of \<open>rs\<close>.\<close>

definition table_kept :: "nat \<Rightarrow> ram_descriptor list \<Rightarrow> kernel \<Rightarrow> bool" where
  "table_kept n rs k \<longleftrightarrow> length (ram_regions k) = MAX_MEM_REGIONS \<and>
     n \<le> ram_regions_index k \<and> ram_regions_index k \<le> MAX_MEM_REGIONS \<and>
     (\<forall>i < n. ram_regions k ! i = rs ! i)"

interpretation kept: quiet_invariant "table_kept n rs" for n rs
  by unfold_locales (simp_all add: table_kept_def)

lemma extract_kept: "holds (table_kept n rs) (extract_ram_region_info img t node) (\<lambda>_. True)"
proof (rule holdsI)
  fix k r k' assume k: "table_kept n rs k" and run: "extract_ram_region_info img t node k = (r, k')"
  show "table_kept n rs k' \<and> (\<forall>x. r = Inr x \<longrightarrow> True)"
  proof (cases "MAX_MEM_REGIONS \<le> ram_regions_index k")
    case True
    with k run show ?thesis by (simp add: extract_ram_region_info_def)
  next
    case False
    let ?i = "ram_regions_index k" and ?k = "k\<lparr>ram_regions_index := Suc (ram_regions_index k)\<rparr>"
    have old: "table_kept n rs ?k" using k False by (simp add: table_kept_def)
    have new: "table_kept n rs (put_region ?i a s ?k)" for a s
      using k False by (simp add: table_kept_def)
    have rest: "holds (table_kept n rs) (kbind (kget (\<lambda>k. space_size (ram_regions k ! ?i))) (\<lambda>sz.
        kthen [DEBUG_ASSERT img (sz \<noteq> 0) ''buf->space_size != 0'' ''mem/memory.c'' ''extract_ram_region_info'' 41]
          (kret res))) (\<lambda>_. True)" for res :: int
      by (intro holds_kbind [OF holds_kget [where Q = "\<lambda>_. True"]] holds_intros kept.quiet TrueI)
    show ?thesis
    proof (cases "parse_reg (k_mem k) img t node")
      case None
      with run False old show ?thesis by (simp add: extract_ram_region_info_def kread_def)
    next
      case (Some p)
      obtain res a s where p: "p = (res, a, s)" by (cases p)
      with run Some False have "kbind (kget (\<lambda>k. space_size (ram_regions k ! ?i))) (\<lambda>sz.
        kthen [DEBUG_ASSERT img (sz \<noteq> 0) ''buf->space_size != 0'' ''mem/memory.c'' ''extract_ram_region_info'' 41]
          (kret res)) (put_region ?i a s ?k) = (r, k')"
        by (simp add: extract_ram_region_info_def kread_def)
      from holdsD [OF rest new this] show ?thesis by simp
    qed
  qed
qed

lemma detect_loop_kept:
  "table_kept n rs k \<Longrightarrow> detect_memory_loop img t node k = (r, k') \<Longrightarrow> table_kept n rs k'"
proof (induction img t node k arbitrary: r k' rule: detect_memory_loop.induct)
  case (1 img t node k)
  have lg: "holds (table_kept n rs) (kbind log_detected_memory (\<lambda>_. kret (0 :: int))) (\<lambda>_. True)"
    unfolding log_detected_memory_def Let_def
    by (rule holds_kbind [where Q = "\<lambda>_. True"],
        intro holds_kbind [OF holds_kget [where Q = "\<lambda>_. True"]] holds_kdo_all TrueI)
      (auto simp: region_line_def intro: kept.quiet holds_basic)
  have nx: "holds (table_kept n rs) (next_memory_node img t node) (\<lambda>_. True)"
    unfolding next_memory_node_def by (rule holds_kread) simp
  from 1(3) show ?case
    using holdsD [OF extract_kept 1(2), of img t node] holdsD [OF lg 1(2)] 1(1) holdsD [OF nx]
    by (subst (asm) detect_memory_loop.simps) (fastforce split: if_splits prod.splits sum.splits)
qed

text \<open>C36: whatever the tree contains, \<open>detect_memory\<close> ends in one of three ways: it returns 0 or -1 with
  every region of the table non-empty, it halts, or it faults.  In each of them at most 16 regions are
  recorded, and the regions recorded before the call are as they were.\<close>

theorem detect_memory_regions:
  assumes k: "regions_ok k" and run: "detect_memory img tree k = (r, k')"
  shows "length (ram_regions k') = MAX_MEM_REGIONS \<and>
    ram_regions_index k \<le> ram_regions_index k' \<and> ram_regions_index k' \<le> MAX_MEM_REGIONS \<and>
    (\<forall>i < ram_regions_index k. ram_regions k' ! i = ram_regions k ! i) \<and>
    (case r of
       Inr x \<Rightarrow> (x = 0 \<or> x = -1) \<and> (\<forall>i < ram_regions_index k'. space_size (ram_regions k' ! i) \<noteq> 0)
     | Inl e \<Rightarrow> e = Halted \<or> e = Fault)"
proof -
  obtain q k1 where nx: "next_memory_node img tree (-1) k = (q, k1)" by force
  then have k1: "k1 = k" by (rule next_memory_node_state)
  have start: "table_kept (ram_regions_index k) (ram_regions k) k"
    using k by (simp add: table_kept_def regions_ok_def)
  have kept: "table_kept (ram_regions_index k) (ram_regions k) k'"
  proof (cases q)
    case (Inl e)
    with nx k1 run start show ?thesis by (simp add: detect_memory_def)
  next
    case (Inr node)
    with nx k1 run have "detect_memory_loop img tree node k = (r, k')" by (simp add: detect_memory_def)
    from detect_loop_kept [OF start this] show ?thesis .
  qed
  have res: "case r of Inr x \<Rightarrow> regions_ok k' \<and> (x = 0 \<or> x = -1) | Inl e \<Rightarrow> e = Halted \<or> e = Fault"
  proof (cases r)
    case (Inl e)
    with no_mret_detect [of img tree, unfolded no_mret_def] run show ?thesis by auto
  next
    case (Inr x)
    with nx k1 run obtain node where "detect_memory_loop img tree node k = (Inr x, k')"
      unfolding detect_memory_def by (cases q) auto
    from detect_memory_loop_regions [OF k this] Inr show ?thesis by simp
  qed
  from kept res show ?thesis by (auto simp: table_kept_def regions_ok_def split: sum.splits)
qed

theorem detect_memory_regions_witness:
  "\<exists>k'. detect_memory machine_image 4096 machine = (Inr 0, k') \<and>
     (\<forall>i < ram_regions_index k'. space_size (ram_regions k' ! i) \<noteq> 0)"
proof -
  have m: "k_mem machine = machine_mem" "length (ram_regions machine) = MAX_MEM_REGIONS"
    "ram_regions_index machine = 0" "regions_ok machine"
    by (simp_all add: machine_def demo_kernel_def regions_ok_def)
  from detect_memory_run [OF machine_tree_describes [folded m(1)] m(2,3)]
  obtain k' where k': "detect_memory machine_image 4096 machine = (Inr 0, k')" by blast
  with detect_memory_regions [OF m(4) k'] show ?thesis by simp
qed

end
