(* ===== verification/Printf_Spec.thy ===== *)
theory Printf_Spec
  imports Printf
begin

text \<open>
  What formats mean, on their own terms: a format is a list of pieces (text, characters, strings, signed
  and unsigned numbers, pointers), \<open>piece_format\<close> writes it down, \<open>piece_text\<close> is what it stands for.  The
  meaning knows nothing of flags words, digit buffers, scanning or indices.
\<close>

section \<open>Pieces\<close>

datatype justify = Pad_left | Pad_zero | Pad_right
datatype sign_style = Sign_minus | Sign_always | Sign_blank
datatype radix = Decimal | Hex_lower | Hex_upper | Octal | Binary

text \<open>Numbers carry a width (0 is none), a precision, the modifiers \<open>l\<close> and \<open>h\<close>, and the argument.\<close>

datatype modifier = Plain | Long | Short

datatype piece =
    Text char
  | Percent
  | Char_piece bool nat char
  | String_piece bool nat "nat option" string
  | Signed_piece justify sign_style nat "nat option" modifier u32
  | Unsigned_piece justify radix nat "nat option" modifier u32
  | Pointer_piece u32

definition digit_text :: "bool \<Rightarrow> nat \<Rightarrow> char" where
  "digit_text upper d = (if upper then ''0123456789ABCDEF'' else ''0123456789abcdef'') ! d"

fun numeral_text :: "bool \<Rightarrow> nat \<Rightarrow> nat \<Rightarrow> string" where
  "numeral_text upper b n =
     (if n < b \<or> b < 2 then [digit_text upper n] else numeral_text upper b (n div b) @ [digit_text upper (n mod b)])"

declare numeral_text.simps [simp del]

section \<open>Formats\<close>

definition width_format :: "nat \<Rightarrow> string" where
  "width_format w = (if w = 0 then [] else numeral_text False 10 w)"

definition precision_format :: "nat option \<Rightarrow> string" where
  "precision_format p = (case p of None \<Rightarrow> [] | Some p \<Rightarrow> ''.'' @ width_format p)"

primrec justify_format :: "justify \<Rightarrow> string" where
  "justify_format Pad_left = []" | "justify_format Pad_zero = ''0''" | "justify_format Pad_right = ''-''"

primrec sign_format :: "sign_style \<Rightarrow> string" where
  "sign_format Sign_minus = []" | "sign_format Sign_always = ''+''" | "sign_format Sign_blank = '' ''"

primrec modifier_format :: "modifier \<Rightarrow> string" where
  "modifier_format Plain = []" | "modifier_format Long = ''l''" | "modifier_format Short = ''h''"

primrec radix_format :: "radix \<Rightarrow> char" where
  "radix_format Decimal = CHR ''u''" | "radix_format Hex_lower = CHR ''x''" | "radix_format Hex_upper = CHR ''X''"
| "radix_format Octal = CHR ''o''" | "radix_format Binary = CHR ''b''"

definition left_format :: "bool \<Rightarrow> string" where
  "left_format left = (if left then ''-'' else [])"

primrec piece_format :: "piece \<Rightarrow> string" where
  "piece_format (Text c) = [c]"
| "piece_format Percent = ''%%''"
| "piece_format (Char_piece left w c) = ''%'' @ left_format left @ width_format w @ ''c''"
| "piece_format (String_piece left w p t) = ''%'' @ left_format left @ width_format w @ precision_format p @ ''s''"
| "piece_format (Signed_piece j sg w p l v) =
     ''%'' @ justify_format j @ sign_format sg @ width_format w @ precision_format p @ modifier_format l @ ''d''"
| "piece_format (Unsigned_piece j r w p l v) =
     ''%'' @ justify_format j @ width_format w @ precision_format p @ modifier_format l @ [radix_format r]"
| "piece_format (Pointer_piece v) = ''%p''"

primrec piece_args :: "piece \<Rightarrow> arg list" where
  "piece_args (Text c) = []"
| "piece_args Percent = []"
| "piece_args (Char_piece left w c) = [AInt (word_of_int (of_char c))]"
| "piece_args (String_piece left w p t) = [AStr t]"
| "piece_args (Signed_piece j sg w p l v) = [AInt v]"
| "piece_args (Unsigned_piece j r w p l v) = [AInt v]"
| "piece_args (Pointer_piece v) = [AInt v]"

section \<open>Meanings\<close>

definition blanks :: "nat \<Rightarrow> string \<Rightarrow> string" where
  "blanks w t = replicate (w - length t) CHR '' ''"

definition padded :: "bool \<Rightarrow> nat \<Rightarrow> string \<Rightarrow> string" where
  "padded left w t = (if left then t @ blanks w t else blanks w t @ t)"

text \<open>
  The digits of \<open>n\<close>, with zeros up to the precision; a zero with precision 0 has none.  A precision
  cancels the padding with zeros.
\<close>

definition precise_digits :: "nat option \<Rightarrow> bool \<Rightarrow> nat \<Rightarrow> nat \<Rightarrow> string" where
  "precise_digits p upper b n =
     (let ds = (if p \<noteq> None \<and> n = 0 then [] else numeral_text upper b n)
      in replicate ((case p of None \<Rightarrow> 0 | Some q \<Rightarrow> q) - length ds) CHR ''0'' @ ds)"

definition number_text :: "justify \<Rightarrow> nat \<Rightarrow> nat option \<Rightarrow> string \<Rightarrow> string \<Rightarrow> string" where
  "number_text j w p pre ds =
     (if j = Pad_zero \<and> p = None then pre @ replicate (w - length (pre @ ds)) CHR ''0'' @ ds
      else padded (j = Pad_right) w (pre @ ds))"

definition sign_text :: "sign_style \<Rightarrow> int \<Rightarrow> string" where
  "sign_text sg v = (if v < 0 then ''-'' else case sg of Sign_minus \<Rightarrow> [] | Sign_always \<Rightarrow> ''+'' | Sign_blank \<Rightarrow> '' '')"

definition signed_value :: "modifier \<Rightarrow> u32 \<Rightarrow> int" where
  "signed_value l v = (if l = Short then (uint v + 32768) mod 65536 - 32768 else sint v)"

definition unsigned_value :: "modifier \<Rightarrow> u32 \<Rightarrow> int" where
  "unsigned_value l v = (if l = Short then uint v mod 65536 else uint v)"

primrec radix_base :: "radix \<Rightarrow> nat" where
  "radix_base Decimal = 10" | "radix_base Hex_lower = 16" | "radix_base Hex_upper = 16"
| "radix_base Octal = 8" | "radix_base Binary = 2"

primrec piece_text :: "piece \<Rightarrow> string" where
  "piece_text (Text c) = [c]"
| "piece_text Percent = ''%''"
| "piece_text (Char_piece left w c) = padded left w [c]"
| "piece_text (String_piece left w p t) = padded left w (case p of None \<Rightarrow> t | Some p \<Rightarrow> take p t)"
| "piece_text (Signed_piece j sg w p l v) = number_text j w p (sign_text sg (signed_value l v))
     (precise_digits p False 10 (nat \<bar>signed_value l v\<bar>))"
| "piece_text (Unsigned_piece j r w p l v) = number_text j w p []
     (precise_digits p (r = Hex_upper) (radix_base r) (nat (unsigned_value l v)))"
| "piece_text (Pointer_piece v) = number_text Pad_zero 8 None [] (numeral_text True 16 (nat (uint v)))"

text \<open>
  The engine keeps to this within its limits: 32 characters for the zeros and digits of a number, and no
  zeros for a precision when the number is justified to the left.
\<close>

definition precision_ok :: "justify \<Rightarrow> nat \<Rightarrow> nat option \<Rightarrow> bool" where
  "precision_ok j w p \<longleftrightarrow> int w \<le> UINT32_MAX \<and> (j = Pad_zero \<longrightarrow> w \<le> 32) \<and>
     (case p of None \<Rightarrow> True | Some q \<Rightarrow> q < 32 \<and> j \<noteq> Pad_right)"

primrec piece_ok :: "piece \<Rightarrow> bool" where
  "piece_ok (Text c) \<longleftrightarrow> c \<noteq> CHR ''%''"
| "piece_ok Percent \<longleftrightarrow> True"
| "piece_ok (Char_piece left w c) \<longleftrightarrow> int w \<le> UINT32_MAX"
| "piece_ok (String_piece left w p t) \<longleftrightarrow> int w \<le> UINT32_MAX \<and> int (length t) \<le> UINT32_MAX \<and>
     (case p of None \<Rightarrow> True | Some q \<Rightarrow> int q \<le> UINT32_MAX)"
| "piece_ok (Signed_piece j sg w p l v) \<longleftrightarrow> precision_ok j w p"
| "piece_ok (Unsigned_piece j r w p l v) \<longleftrightarrow> precision_ok j w p"
| "piece_ok (Pointer_piece v) \<longleftrightarrow> True"

abbreviation pieces_format :: "piece list \<Rightarrow> string" where
  "pieces_format ps \<equiv> concat (map piece_format ps)"

abbreviation pieces_args :: "piece list \<Rightarrow> arg list" where
  "pieces_args ps \<equiv> concat (map piece_args ps)"

abbreviation pieces_text :: "piece list \<Rightarrow> string" where
  "pieces_text ps \<equiv> concat (map piece_text ps)"

section \<open>Scanning\<close>

lemma digit_text_char: "d < 16 \<Longrightarrow> digit_text up d = digit_char up (int d)"
proof -
  assume d: "d < 16"
  have "list_all (\<lambda>d. digit_text False d = digit_char False (int d) \<and> digit_text True d = digit_char True (int d)) [0..<16]"
    by code_simp
  with d show ?thesis by (cases up) (auto simp: list_all_iff)
qed

lemma numeral_text_lsd:
  "2 \<le> b \<Longrightarrow> b \<le> 16 \<Longrightarrow> numeral_text up b n = rev (map (digit_char up) (lsd (int b) (int n)))"
proof (induction up b n rule: numeral_text.induct)
  case (1 up b n)
  show ?case
  proof (cases "n < b")
    case True
    with 1 show ?thesis by (simp add: numeral_text.simps [of up b n] lsd_small digit_text_char)
  next
    case False
    have m: "n mod b < 16" using mod_less_divisor [of b n] 1(2,3) by linarith
    have l: "lsd (int b) (int n) = int (n mod b) # lsd (int b) (int (n div b))"
      using lsd_step [of "int b" "int n"] False 1(2) by (simp add: of_nat_div of_nat_mod)
    have "numeral_text up b n = numeral_text up b (n div b) @ [digit_text up (n mod b)]"
      using False 1(2) by (subst numeral_text.simps) simp
    with 1 False m show ?thesis unfolding l by (simp add: digit_text_char)
  qed
qed

lemma numeral_nonempty: "numeral_text up b n \<noteq> []"
  by (subst numeral_text.simps) simp

lemma numeral_hd: "0 < n \<Longrightarrow> \<exists>d. 0 < d \<and> d < 10 \<and> hd (numeral_text False 10 n) = digit_char False (int d)"
proof (induction n rule: less_induct)
  case (less n)
  show ?case
  proof (cases "n < 10")
    case True
    with less.prems show ?thesis
      by (intro exI [of _ n]) (simp add: numeral_text.simps [of False 10 n] digit_text_char)
  next
    case False
    then have "\<exists>d. 0 < d \<and> d < 10 \<and> hd (numeral_text False 10 (n div 10)) = digit_char False (int d)"
      by (intro less.IH) auto
    with False show ?thesis by (simp add: numeral_text.simps [of False 10 n] numeral_nonempty)
  qed
qed

definition flag_stop :: "string \<Rightarrow> bool" where
  "flag_stop s \<longleftrightarrow> s \<noteq> [] \<and> hd s \<notin> set ''0-+ #''"

lemma parse_flags_stop: "flag_stop s \<Longrightarrow> parse_flags f s = (f, s)"
  by (cases s) (auto simp: flag_stop_def)

lemma digit_char_small: "0 < d \<Longrightarrow> d < 10 \<Longrightarrow> digit_char False (int d) \<in> set ''123456789''"
proof -
  assume d: "0 < d" "d < 10"
  have "list_all (\<lambda>d. digit_char False (int d) \<in> set ''123456789'') [1..<10]" by code_simp
  with d show ?thesis by (auto simp: list_all_iff)
qed

lemma width_stop:
  assumes "rest \<noteq> []" "hd rest \<notin> set ''0-+ #''"
  shows "flag_stop (width_format w @ rest)"
proof (cases "w = 0")
  case False
  then obtain d where "0 < d" "d < 10" "hd (numeral_text False 10 w) = digit_char False (int d)"
    using numeral_hd by blast
  with digit_char_small [of d] False show ?thesis
    by (auto simp: width_format_def flag_stop_def numeral_nonempty)
qed (use assms in \<open>simp add: width_format_def flag_stop_def\<close>)

lemma atoi_numeral:
  assumes "int n \<le> UINT32_MAX" "rest = [] \<or> \<not> is_digit (hd rest)"
  shows "atoi (numeral_text False 10 n @ rest) = (int n, rest)"
proof -
  let ?cs = "rev (map (digit_char False) (lsd 10 (int n)))"
  have n: "numeral_text False 10 n = ?cs" using numeral_text_lsd [of 10 False n] by simp
  have "is_digit (digit_char False d)" if "d \<in> set (lsd 10 (int n))" for d
    using lsd_digits [OF _ _ that] by (intro is_digit_char) simp_all
  then have "\<forall>c \<in> set ?cs. is_digit c" by simp
  from atoi_from_append [OF this, of 0 rest] atoi_lsd [of "int n" False] atoi_from_stop [OF assms(2)] assms(1)
  show ?thesis by (simp add: atoi_def n)
qed

lemma is_digit_hd: "0 < n \<Longrightarrow> is_digit (peek (numeral_text False 10 n @ rest))"
  using numeral_hd [of n] numeral_nonempty [of False 10 n]
  by (cases "numeral_text False 10 n") (auto simp: peek_def intro!: is_digit_char)

lemma parse_width_format:
  assumes "int w \<le> UINT32_MAX" "rest \<noteq> []" "\<not> is_digit (hd rest)" "hd rest \<noteq> CHR ''*''"
  shows "parse_width f (width_format w @ rest) va = Some (int w, f, rest, va)"
proof (cases "w = 0")
  case True
  with assms show ?thesis by (cases rest) (simp_all add: parse_width_def width_format_def peek_def)
next
  case False
  then show ?thesis
    using is_digit_hd [of w rest] atoi_numeral [OF assms(1), of rest] assms(3)
    by (simp add: parse_width_def width_format_def)
qed

abbreviation prec_value :: "nat option \<Rightarrow> int" where
  "prec_value p \<equiv> (case p of None \<Rightarrow> 0 | Some q \<Rightarrow> int q)"

abbreviation prec_flag :: "nat option \<Rightarrow> u32" where
  "prec_flag p \<equiv> (if p = None then 0 else FLAGS_PRECISION)"

lemma parse_precision_format:
  assumes "pred_option (\<lambda>q. int q \<le> UINT32_MAX) p" "rest \<noteq> []" "\<not> is_digit (hd rest)" "hd rest \<notin> set ''.*''"
  shows "parse_precision f (precision_format p @ rest) va = Some (prec_value p, f OR prec_flag p, rest, va)"
proof (cases p)
  case None
  with assms show ?thesis by (cases rest) (simp_all add: parse_precision_def precision_format_def peek_def)
next
  case (Some q)
  show ?thesis
  proof (cases "q = 0")
    case True
    with assms Some show ?thesis
      by (cases rest) (simp_all add: parse_precision_def precision_format_def width_format_def peek_def)
  next
    case False
    have "peek (''.'' @ x) = CHR ''.''" for x by (simp add: peek_def)
    with False show ?thesis
      using is_digit_hd [of q rest] atoi_numeral [of q rest] assms Some
      by (simp add: parse_precision_def precision_format_def width_format_def)
  qed
qed

primrec modifier_flag :: "modifier \<Rightarrow> u32" where
  "modifier_flag Plain = 0" | "modifier_flag Long = FLAGS_LONG" | "modifier_flag Short = FLAGS_SHORT"

lemma parse_length_format:
  "c \<notin> set ''lhtjz'' \<Longrightarrow> parse_length f (modifier_format l @ c # rest) = (f OR modifier_flag l, c # rest)"
  by (cases l) (simp_all add: parse_length_def peek_def)

primrec justify_flag :: "justify \<Rightarrow> u32" where
  "justify_flag Pad_left = 0" | "justify_flag Pad_zero = FLAGS_ZEROPAD" | "justify_flag Pad_right = FLAGS_LEFT"

primrec sign_flag :: "sign_style \<Rightarrow> u32" where
  "sign_flag Sign_minus = 0" | "sign_flag Sign_always = FLAGS_PLUS" | "sign_flag Sign_blank = FLAGS_SPACE"

lemma parse_flags_format:
  "flag_stop rest \<Longrightarrow> parse_flags 0 (justify_format j @ sign_format sg @ rest) = (justify_flag j OR sign_flag sg, rest)"
  by (cases j; cases sg) (simp_all add: parse_flags_stop)

lemma parse_directive_format:
  assumes w: "int w \<le> UINT32_MAX" and p: "pred_option (\<lambda>q. int q \<le> UINT32_MAX) p" and c: "c \<in> set ''diuxXobcs''"
  shows "parse_directive (justify_format j @ sign_format sg @ width_format w @ precision_format p @ modifier_format l @ c # rest) va =
    Some (c, justify_flag j OR sign_flag sg OR prec_flag p OR modifier_flag l, int w, prec_value p, rest, va)"
proof -
  define r3 where "r3 = modifier_format l @ c # rest"
  define r2 where "r2 = precision_format p @ r3"
  have c': "c \<notin> set ''lhtjz''" "c \<notin> set ''0-+ #.*''" "\<not> is_digit c" using c by (auto simp: is_digit_def)
  have r3: "r3 \<noteq> []" "hd r3 \<notin> set ''0-+ #.*''" "\<not> is_digit (hd r3)"
    using c' by (cases l; simp add: r3_def is_digit_def)+
  have r2: "r2 \<noteq> []" "hd r2 \<notin> set ''0-+ #*''" "\<not> is_digit (hd r2)"
    using r3 by (cases p; simp add: r2_def precision_format_def is_digit_def)+
  have "flag_stop (width_format w @ r2)" by (rule width_stop) (use r2 in auto)
  from parse_flags_format [OF this] have
    "parse_flags 0 (justify_format j @ sign_format sg @ width_format w @ r2) = (justify_flag j OR sign_flag sg, width_format w @ r2)" .
  moreover have "parse_width f (width_format w @ r2) va = Some (int w, f, r2, va)" for f
    by (rule parse_width_format [OF w]) (use r2 in auto)
  moreover have "parse_precision f r2 va = Some (prec_value p, f OR prec_flag p, r3, va)" for f
    unfolding r2_def by (rule parse_precision_format [OF p]) (use r3 in auto)
  moreover have "parse_length f r3 = (f OR modifier_flag l, c # rest)" for f
    unfolding r3_def by (rule parse_length_format [OF c'(1)])
  ultimately show ?thesis
    by (simp add: parse_directive_def r2_def [symmetric] r3_def [symmetric] or.assoc)
qed

section \<open>Converting\<close>

lemma zero_fill_replicate:
  "length buf \<le> 32 \<Longrightarrow> n \<le> 32 \<Longrightarrow> zero_fill buf (int n) = buf @ replicate (n - length buf) CHR ''0''"
proof (induction "n - length buf" arbitrary: buf)
  case (Suc k)
  then have "zero_fill (buf @ ''0'') (int n) = (buf @ ''0'') @ replicate (n - length (buf @ ''0'')) CHR ''0''"
    by (intro Suc.hyps(1)) simp_all
  moreover have "n - length buf = Suc (n - length (buf @ ''0''))" using Suc.hyps(2) by simp
  ultimately show ?case using Suc.hyps(2) Suc.prems by (subst zero_fill.simps) (simp add: replicate_app_Cons_same)
qed (subst zero_fill.simps, simp)

lemma has_flag_clear: "\<not> has_flag f h \<Longrightarrow> f AND NOT h = f"
proof (rule bit_word_eqI)
  fix n assume h: "\<not> has_flag f h" and n: "n < LENGTH(32)"
  have "\<not> (bit f n \<and> bit h n)" using h bit_and_iff [of f h n] by (auto simp: has_flag_def)
  with n show "bit (f AND NOT h) n = bit f n" by (auto simp: bit_simps)
qed

text \<open>The sign in front of a number, and the room it takes in the digit buffer.\<close>

definition sign_of :: "bool \<Rightarrow> u32 \<Rightarrow> string" where
  "sign_of neg f = (if neg then ''-'' else if has_flag f FLAGS_PLUS then ''+'' else if has_flag f FLAGS_SPACE then '' '' else [])"

lemma sign_flags: "has_flag f (FLAGS_PLUS OR FLAGS_SPACE) \<longleftrightarrow> has_flag f FLAGS_PLUS \<or> has_flag f FLAGS_SPACE"
  by (simp add: has_flag_def bit.conj_disj_distrib or_eq_0_iff)

lemma format_buf_sign:
  assumes "\<not> has_flag f FLAGS_HASH" "length buf + length (sign_of neg f) \<le> 32"
    "buf = (if \<not> has_flag f FLAGS_LEFT then (let buf = zero_fill ds prec in
              if has_flag f FLAGS_ZEROPAD then zero_fill buf width else buf) else ds)"
  shows "format_buf ds neg base prec width f = buf @ sign_of neg f"
  using assms(1,2) unfolding format_buf_def assms(3) [symmetric]
  by (auto simp: sign_of_def split: if_splits)

lemma long_chars_number:
  assumes f: "\<not> has_flag f FLAGS_HASH" "has_flag f FLAGS_LEFT \<longleftrightarrow> j = Pad_right"
      "has_flag f FLAGS_ZEROPAD \<longleftrightarrow> j = Pad_zero \<and> p = None" "has_flag f FLAGS_PRECISION \<longleftrightarrow> p \<noteq> None"
    and ok: "precision_ok j w p" and b: "2 \<le> b" "b \<le> 16"
    and l: "length (lsd (int b) (int n)) + length (sign_of neg f) \<le> 32" "sign_of neg f = pre"
  shows "long_chars (int n) neg (int b) (prec_value p) (int w) f =
    number_text j w p pre (precise_digits p (has_flag f FLAGS_UPPERCASE) b n)"
proof -
  define up where "up = has_flag f FLAGS_UPPERCASE"
  define ds where "ds = (if p \<noteq> None \<and> n = 0 then [] else numeral_text up b n)"
  have num: "numeral_text up b n = rev (map (digit_char up) (lsd (int b) (int n)))" by (rule numeral_text_lsd [OF b])
  have "ntoa_digits (int n) (int b) up [] = rev (numeral_text up b n)"
    using ntoa_digits_lsd [of "int b" "int n" "[]" up] b l(1) by (simp add: num)
  then have digits: "(if \<not> has_flag f FLAGS_PRECISION \<or> int n \<noteq> 0 then ntoa_digits (int n) (int b) up [] else []) = rev ds"
    using f(4) by (simp add: ds_def)
  have len: "length ds + length pre \<le> 32" "length pre \<le> 1" "length ds \<le> 32"
    using l by (auto simp: ds_def num sign_of_def)
  have fl: "f AND NOT FLAGS_HASH = f" by (rule has_flag_clear [OF f(1)])
  define w' where "w' = format_width neg (int w) f"
  have chars: "long_chars (int n) neg (int b) (prec_value p) (int w) f =
      rev_chars (format_buf (rev ds) neg (int b) (prec_value p) w' f) w' f"
    by (simp only: long_chars_def Let_def fl if_cancel up_def [symmetric] digits w'_def)
  define pd where "pd = precise_digits p up b n"
  have pd: "pd = replicate ((case p of None \<Rightarrow> 0 | Some q \<Rightarrow> q) - length ds) CHR ''0'' @ ds"
    by (simp add: pd_def precise_digits_def ds_def Let_def)
  have q: "(case p of None \<Rightarrow> 0 | Some q \<Rightarrow> q) < 32" using ok by (auto simp: precision_ok_def split: option.splits)
  have "prec_value p = int (case p of None \<Rightarrow> 0 | Some q \<Rightarrow> q)" by (simp split: option.splits)
  then have zf: "zero_fill (rev ds) (prec_value p) = rev pd"
    using zero_fill_replicate [of "rev ds" "case p of None \<Rightarrow> 0 | Some q \<Rightarrow> q"] len q by (simp add: pd)
  have pdl: "length pd + length pre \<le> 32" using len q by (simp add: pd)
  show ?thesis
  proof (cases "j = Pad_zero \<and> p = None")
    case True
    then have fz: "has_flag f FLAGS_ZEROPAD" "\<not> has_flag f FLAGS_LEFT" using f by auto
    have w: "w \<le> 32" using ok True by (simp add: precision_ok_def)
    have "has_flag f (FLAGS_PLUS OR FLAGS_SPACE) \<or> neg \<longleftrightarrow> pre \<noteq> []" using l(2)
      by (auto simp: sign_flags sign_of_def split: if_splits)
    with fz len(2) have w': "w' = int (w - length pre)"
      by (cases pre; cases "w = 0") (auto simp: w'_def format_width_def)
    have zz: "zero_fill (rev pd) w' = rev (replicate (w - length pre - length pd) CHR ''0'' @ pd)"
      unfolding w' using zero_fill_replicate [of "rev pd" "w - length pre"] pdl w by simp
    have "format_buf (rev ds) neg (int b) (prec_value p) w' f = rev (replicate (w - length pre - length pd) CHR ''0'' @ pd) @ sign_of neg f"
      by (rule format_buf_sign [OF f(1)]) (use fz zf zz pdl l(2) w in auto)
    moreover have "precise_digits p up b n = pd" "precise_digits None up b n = pd" using True by (simp_all add: pd_def)
    ultimately show ?thesis
      using True fz len(2) unfolding chars
      by (cases pre) (auto simp: rev_chars_def l(2) number_text_def up_def [symmetric])
  next
    case False
    then have fz: "\<not> has_flag f FLAGS_ZEROPAD" using f(3) by simp
    then have w': "w' = int w" by (simp add: w'_def format_width_def)
    have left: "pd = ds" if "has_flag f FLAGS_LEFT"
      using that f(2) ok by (auto simp: pd precision_ok_def split: option.splits)
    have "format_buf (rev ds) neg (int b) (prec_value p) w' f = rev pd @ sign_of neg f"
      by (rule format_buf_sign [OF f(1)]) (use fz zf left pdl l(2) in auto)
    moreover have "rev pre = pre" using len(2) by (cases pre) auto
    ultimately show ?thesis
      using False f(2) fz unfolding chars
      by (auto simp: rev_chars_def l(2) number_text_def pd_def [symmetric] up_def [symmetric] padded_def blanks_def w' nat_diff_distrib)
  qed
qed

text \<open>One piece.\<close>

definition rendered :: "string \<Rightarrow> arg list \<Rightarrow> string \<Rightarrow> string \<Rightarrow> arg list \<Rightarrow> bool" where
  "rendered fmt va cs rest va' \<longleftrightarrow> render fmt va = do { ds \<leftarrow> render rest va'; Some (cs @ ds) }"

lemma rendered_directive:
  assumes "parse_directive fmt va = Some (c, f, w, p, rest, va1)" "convert_chars c f w p va1 = Some (cs, va')"
  shows "rendered (CHR ''%'' # fmt) va cs rest va'"
  using assms by (simp add: rendered_def)

abbreviation piece_rendered :: "piece \<Rightarrow> bool" where
  "piece_rendered x \<equiv> \<forall>rest va. rendered (piece_format x @ rest) (piece_args x @ va) (piece_text x) rest va"

lemma plain_pieces:
  "c \<noteq> CHR ''%'' \<Longrightarrow> piece_rendered (Text c)" "piece_rendered Percent"
proof -
  show "c \<noteq> CHR ''%'' \<Longrightarrow> piece_rendered (Text c)" by (simp add: rendered_def)
  show "piece_rendered Percent"
    by (simp, intro allI, rule rendered_directive [where c = "CHR ''%''"])
      (simp_all add: directive_defs convert_chars_def)
qed

lemma left_justify: "left_format left = justify_format (if left then Pad_right else Pad_left)"
  by (simp add: left_format_def)

lemma pad_to_padded: "int w \<le> UINT32_MAX \<Longrightarrow> has_flag f FLAGS_LEFT = left \<Longrightarrow> pad_to f (int w) (int (length t)) t = padded left w t"
  by (simp add: pad_to_def padded_def blanks_def Let_def nat_diff_distrib')

lemma char_piece:
  assumes "int w \<le> UINT32_MAX"
  shows "piece_rendered (Char_piece left w c)"
proof (intro allI)
  fix rest va
  let ?j = "if left then Pad_right else Pad_left"
  from parse_directive_format [OF assms, of None "CHR ''c''" ?j Sign_minus Plain rest]
  have d: "parse_directive (left_format left @ width_format w @ ''c'' @ rest) va =
      Some (CHR ''c'', justify_flag ?j, int w, 0, rest, va)" for va
    by (simp add: left_justify precision_format_def)
  have u: "uint (word_of_int (of_char c) :: u32) = of_char c"
  proof -
    have "(of_char c :: int) mod 256 = of_char c" by (rule of_char_mod_256)
    then have "0 \<le> (of_char c :: int)" "(of_char c :: int) < 256"
      using pos_mod_bound [of 256 "of_char c :: int"] pos_mod_sign [of 256 "of_char c :: int"] by linarith+
    then show ?thesis by (simp add: uint_word_of_int)
  qed
  have "has_flag (justify_flag ?j) FLAGS_LEFT = left" by (simp add: has_flag_def flag_defs)
  from pad_to_padded [OF assms this, of "[c]"]
  have "convert_chars (CHR ''c'') (justify_flag ?j) (int w) 0 (AInt (word_of_int (of_char c)) # va) =
      Some (padded left w [c], va)"
    by (simp add: convert_chars_def u)
  from rendered_directive [OF d this]
  show "rendered (piece_format (Char_piece left w c) @ rest) (piece_args (Char_piece left w c) @ va)
      (piece_text (Char_piece left w c)) rest va" by simp
qed

lemma string_piece:
  assumes w: "int w \<le> UINT32_MAX" and t: "int (length t) \<le> UINT32_MAX"
    and p: "case p of None \<Rightarrow> True | Some q \<Rightarrow> int q \<le> UINT32_MAX"
  shows "piece_rendered (String_piece left w p t)"
proof (intro allI)
  fix rest va
  let ?j = "if left then Pad_right else Pad_left"
  define f where "f = (justify_flag ?j OR prec_flag p)"
  have "pred_option (\<lambda>q. int q \<le> UINT32_MAX) p" using p by (cases p) simp_all
  from parse_directive_format [OF w this, of "CHR ''s''" ?j Sign_minus Plain rest]
  have d: "parse_directive (left_format left @ width_format w @ precision_format p @ ''s'' @ rest) va =
      Some (CHR ''s'', f, int w, prec_value p, rest, va)" for va
    by (simp add: left_justify f_def)
  have lf: "has_flag f FLAGS_LEFT = left" and pf: "has_flag f FLAGS_PRECISION = (p \<noteq> None)"
    by (simp_all add: f_def has_flag_def flag_defs)
  let ?t = "case p of None \<Rightarrow> t | Some p \<Rightarrow> take p t"
  have "string_chars f (int w) (prec_value p) t = pad_to f (int w) (int (length ?t)) ?t"
    using t by (cases p) (auto simp: string_chars_def pf strnlen_s_def Let_def min_def)
  with pad_to_padded [OF w lf, of ?t]
  have "convert_chars (CHR ''s'') f (int w) (prec_value p) (AStr t # va) = Some (padded left w ?t, va)"
    by (simp add: convert_chars_def)
  from rendered_directive [OF d this]
  show "rendered (piece_format (String_piece left w p t) @ rest) (piece_args (String_piece left w p t) @ va)
      (piece_text (String_piece left w p t)) rest va" by simp
qed

lemma length_lsd_nat:
  assumes "2 \<le> b" "n < 4294967296"
  shows "length (lsd (int b) (int n)) \<le> 32"
proof (rule length_lsd)
  have "int n < 2 ^ 32" using assms(2) by simp
  also have "(2 :: int) ^ 32 \<le> int b ^ 32" using assms(1) by (intro power_mono) auto
  finally show "int n < int b ^ 32" .
qed (use assms(1) in simp_all)

lemma unsigned_arg_value:
  assumes "\<not> has_flag f FLAGS_CHAR" "has_flag f FLAGS_LONG = (l = Long)" "has_flag f FLAGS_SHORT = (l = Short)"
  shows "(if has_flag f FLAGS_LONG then uint v else unsigned_arg f v) = unsigned_value l v"
  using assms by (cases l) (simp_all add: unsigned_arg_def unsigned_value_def unsigned_ucast_eq take_bit_eq_mod)

lemma sint_short: "sint (ucast (v :: u32) :: u16) = (uint v + 32768) mod 65536 - 32768"
  by (simp add: signed_ucast_eq signed_take_bit_eq_take_bit_shift take_bit_eq_mod)

lemma signed_arg_value:
  assumes "\<not> has_flag f FLAGS_CHAR" "has_flag f FLAGS_LONG = (l = Long)" "has_flag f FLAGS_SHORT = (l = Short)"
  shows "(if has_flag f FLAGS_LONG then sint v else signed_arg f v) = signed_value l v"
  using assms by (cases l) (simp_all add: signed_arg_def signed_value_def sint_short)

lemma signed_value_bounds: "\<bar>signed_value l v\<bar> \<le> 2147483648"
proof -
  have "0 \<le> (uint v + 32768) mod 65536" "(uint v + 32768) mod 65536 < 65536" by simp_all
  moreover have "- 2147483648 \<le> sint v" "sint v < 2147483648"
    using sint_greater_eq [of v] sint_less [of v] by simp_all
  ultimately show ?thesis by (cases l) (simp_all add: signed_value_def)
qed

lemma unsigned_value_bounds: "0 \<le> unsigned_value l v" "unsigned_value l v < 4294967296"
proof -
  have "0 \<le> uint v mod 65536" "uint v mod 65536 < 65536" by simp_all
  with uint_u32_bound [of v] show "0 \<le> unsigned_value l v" "unsigned_value l v < 4294967296"
    by (cases l; simp add: unsigned_value_def)+
qed

lemma precision_limits: "precision_ok j w p \<Longrightarrow> pred_option (\<lambda>q. int q \<le> UINT32_MAX) p"
  by (cases p) (auto simp: precision_ok_def)

text \<open>The flags of a number after its directive has been read, as \<open>_vsnprintf\<close> adjusts them.\<close>

definition number_flags :: "justify \<Rightarrow> sign_style \<Rightarrow> nat option \<Rightarrow> modifier \<Rightarrow> u32" where
  "number_flags j sg p l = justify_flag j OR sign_flag sg OR prec_flag p OR modifier_flag l"

lemma number_flags_after:
  "has_flag (spec_flags CHR ''d'' (number_flags j sg p l)) FLAGS_PLUS \<longleftrightarrow> sg = Sign_always"
  "has_flag (spec_flags CHR ''d'' (number_flags j sg p l)) FLAGS_SPACE \<longleftrightarrow> sg = Sign_blank"
  "has_flag (spec_flags (radix_format r) (number_flags j Sign_minus p l)) FLAGS_UPPERCASE \<longleftrightarrow> r = Hex_upper"
  "\<not> has_flag (spec_flags CHR ''d'' (number_flags j sg p l)) FLAGS_UPPERCASE"
  "\<not> has_flag (spec_flags (radix_format r) (number_flags j Sign_minus p l)) FLAGS_PLUS"
  "\<not> has_flag (spec_flags (radix_format r) (number_flags j Sign_minus p l)) FLAGS_SPACE"
  by (cases j; cases sg; cases p; cases l; cases r;
      simp add: number_flags_def spec_flags_def spec_base_def has_flag_def flag_defs)+

lemma number_flags_common:
  fixes j sg p l c
  defines "f \<equiv> spec_flags c (number_flags j sg p l)"
  assumes "c = CHR ''d'' \<or> sg = Sign_minus \<and> c \<in> set ''uxXob''"
  shows "\<not> has_flag f FLAGS_HASH" "has_flag f FLAGS_LEFT \<longleftrightarrow> j = Pad_right"
    "has_flag f FLAGS_ZEROPAD \<longleftrightarrow> j = Pad_zero \<and> p = None" "has_flag f FLAGS_PRECISION \<longleftrightarrow> p \<noteq> None"
    "\<not> has_flag f FLAGS_CHAR" "has_flag f FLAGS_LONG \<longleftrightarrow> l = Long" "has_flag f FLAGS_SHORT \<longleftrightarrow> l = Short"
    "\<not> has_flag f FLAGS_LONG_LONG"
  using assms(2) unfolding f_def
  by (cases j; cases sg; cases p; cases l;
      force simp: number_flags_def spec_flags_def spec_base_def has_flag_def flag_defs)+

lemma sign_of_unsigned: "\<not> has_flag f FLAGS_PLUS \<Longrightarrow> \<not> has_flag f FLAGS_SPACE \<Longrightarrow> sign_of False f = []"
  by (simp add: sign_of_def)

lemma signed_piece:
  assumes "precision_ok j w p"
  shows "piece_rendered (Signed_piece j sg w p l v)"
proof (intro allI)
  fix rest va
  define g where "g = number_flags j sg p l"
  define f where "f = spec_flags CHR ''d'' g"
  have w: "int w \<le> UINT32_MAX" using assms by (simp add: precision_ok_def)
  from parse_directive_format [OF w precision_limits [OF assms], of "CHR ''d''" j sg l rest]
  have d: "parse_directive (justify_format j @ sign_format sg @ width_format w @ precision_format p @ modifier_format l @ ''d'' @ rest) va =
      Some (CHR ''d'', g, int w, prec_value p, rest, va)" for va
    by (simp add: g_def number_flags_def)
  have c: "CHR ''d'' = CHR ''d'' \<or> sg = Sign_minus \<and> CHR ''d'' \<in> set ''uxXob''" by simp
  note fc = number_flags_common [OF c, of j p l, folded g_def, folded f_def]
    and fa = number_flags_after(1,2,4) [of j sg p l, folded g_def, folded f_def]
  define x where "x = signed_value l v"
  have sg: "sign_of (x < 0) f = sign_text sg x" using fa(1,2) by (cases sg) (auto simp: sign_of_def sign_text_def)
  have n: "nat \<bar>x\<bar> < 4294967296" "int (nat \<bar>x\<bar>) = \<bar>x\<bar>" using signed_value_bounds [of l v] by (simp_all add: x_def)
  have "length (lsd 10 (int (nat \<bar>x\<bar>))) \<le> 10"
    by (rule length_lsd) (use n(1) in simp_all)
  moreover have "length (sign_of (x < 0) f) \<le> 1" by (simp add: sign_of_def)
  ultimately have room: "length (lsd (int 10) (int (nat \<bar>x\<bar>))) + length (sign_of (x < 0) f) \<le> 32" by simp
  have base: "int 10 = 10" by simp
  have "spec_base CHR ''d'' = 10" by (simp add: spec_base_def)
  moreover note long_chars_number [OF fc(1-4) assms _ _ room sg]
  ultimately have "integer_chars CHR ''d'' g (int w) (prec_value p) (AInt v # va) =
      Some (piece_text (Signed_piece j sg w p l v), va)"
    using fc(8) fa(3) n(2) signed_arg_value [OF fc(5-7), of v]
    by (simp add: integer_chars_def f_def [symmetric] x_def [symmetric] Let_def)
  then have "convert_chars CHR ''d'' g (int w) (prec_value p) (AInt v # va) =
      Some (piece_text (Signed_piece j sg w p l v), va)" by (simp add: convert_chars_def)
  from rendered_directive [OF d this]
  show "rendered (piece_format (Signed_piece j sg w p l v) @ rest) (piece_args (Signed_piece j sg w p l v) @ va)
      (piece_text (Signed_piece j sg w p l v)) rest va" by simp
qed

lemma radix_facts:
  "radix_format r \<in> set ''uxXob''" "spec_base (radix_format r) = int (radix_base r)" "2 \<le> radix_base r" "radix_base r \<le> 16"
  by (cases r; simp add: spec_base_def)+

lemma unsigned_piece:
  assumes "precision_ok j w p"
  shows "piece_rendered (Unsigned_piece j r w p l v)"
proof (intro allI)
  fix rest va
  define c where "c = radix_format r"
  define g where "g = number_flags j Sign_minus p l"
  define f where "f = spec_flags c g"
  have cs: "c \<in> set ''uxXob''" "c \<in> set ''diuxXob''" "c \<in> set ''diuxXobcs''" "c \<noteq> CHR ''d''" "c \<noteq> CHR ''i''"
    using radix_facts(1) [of r] by (auto simp: c_def)
  have w: "int w \<le> UINT32_MAX" using assms by (simp add: precision_ok_def)
  from parse_directive_format [OF w precision_limits [OF assms] cs(3), of j Sign_minus l rest]
  have d: "parse_directive (justify_format j @ width_format w @ precision_format p @ modifier_format l @ c # rest) va =
      Some (c, g, int w, prec_value p, rest, va)" for va
    by (simp add: g_def number_flags_def)
  have c: "c = CHR ''d'' \<or> Sign_minus = Sign_minus \<and> c \<in> set ''uxXob''" using cs(1) by simp
  note fc = number_flags_common [OF c, of j p l, folded g_def, folded f_def]
    and fa = number_flags_after(3,5,6) [of r j p l, folded c_def, folded g_def, folded f_def]
  define x where "x = unsigned_value l v"
  have n: "nat x < 4294967296" "int (nat x) = x" using unsigned_value_bounds [of l v] by (simp_all add: x_def)
  have sg: "sign_of False f = []" using fa(2,3) by (simp add: sign_of_def)
  have room: "length (lsd (int (radix_base r)) (int (nat x))) + length (sign_of False f) \<le> 32"
    using length_lsd_nat [OF radix_facts(3) n(1)] by (simp add: sg)
  from long_chars_number [OF fc(1-4) assms radix_facts(3,4) room sg]
  have "integer_chars c g (int w) (prec_value p) (AInt v # va) = Some (piece_text (Unsigned_piece j r w p l v), va)"
    using fc(8) fa(1) n(2) unsigned_arg_value [OF fc(5-7), of v] radix_facts(2) [of r] cs(4,5)
    by (simp add: integer_chars_def f_def [symmetric] x_def [symmetric] c_def [symmetric] Let_def)
  then have "convert_chars c g (int w) (prec_value p) (AInt v # va) = Some (piece_text (Unsigned_piece j r w p l v), va)"
    using cs(2) by (simp only: convert_chars_def if_True)
  from rendered_directive [OF d this]
  show "rendered (piece_format (Unsigned_piece j r w p l v) @ rest) (piece_args (Unsigned_piece j r w p l v) @ va)
      (piece_text (Unsigned_piece j r w p l v)) rest va" by (simp add: c_def)
qed

lemma unat_bound: "unat (v :: u32) < 4294967296"
proof -
  have "unat v < 2 ^ LENGTH(32)" by (rule unsigned_less)
  then show ?thesis by simp
qed

lemma pointer_piece: "piece_rendered (Pointer_piece v)"
proof (intro allI)
  fix rest va
  define f where "f = FLAGS_ZEROPAD OR FLAGS_UPPERCASE"
  have "\<not> has_flag f FLAGS_HASH" "has_flag f FLAGS_LEFT \<longleftrightarrow> Pad_zero = Pad_right"
    "has_flag f FLAGS_ZEROPAD \<longleftrightarrow> Pad_zero = Pad_zero \<and> (None :: nat option) = None"
    "has_flag f FLAGS_PRECISION \<longleftrightarrow> (None :: nat option) \<noteq> None" "has_flag f FLAGS_UPPERCASE"
    and sg: "sign_of False f = []"
    by (simp_all add: f_def has_flag_def flag_defs sign_of_def)
  note fc = this(1-5)
  have n: "nat (uint v) < 4294967296" "int (nat (uint v)) = uint v" using unat_bound [of v] by simp_all
  have room: "length (lsd (int 16) (int (nat (uint v)))) + length (sign_of False f) \<le> 32"
    using length_lsd_nat [of 16 "nat (uint v)"] n(1) by (simp add: sg)
  have ok: "precision_ok Pad_zero 8 None" by (simp add: precision_ok_def)
  from long_chars_number [OF fc(1-4) ok _ _ room sg] fc(5) n(2)
  have t: "long_chars (uint v) False 16 0 8 f = piece_text (Pointer_piece v)"
    by (simp add: precise_digits_def)
  show "rendered (piece_format (Pointer_piece v) @ rest) (piece_args (Pointer_piece v) @ va)
      (piece_text (Pointer_piece v)) rest va"
    using pointer_chars [of rest v va] by (simp add: rendered_def t f_def [symmetric] del: piece_text.simps render_simps)
qed

lemma piece_renders: "piece_ok x \<Longrightarrow> piece_rendered x"
  by (cases x) (use plain_pieces char_piece string_piece signed_piece unsigned_piece pointer_piece in
    \<open>simp_all only: piece_ok.simps\<close>, blast+)

lemma render_pieces: "\<forall>x \<in> set ps. piece_ok x \<Longrightarrow> render (pieces_format ps) (pieces_args ps) = Some (pieces_text ps)"
proof (induction ps)
  case (Cons x ps)
  then have "rendered (piece_format x @ pieces_format ps) (piece_args x @ pieces_args ps) (piece_text x)
      (pieces_format ps) (pieces_args ps)"
    using piece_renders by simp
  with Cons show ?case by (simp add: rendered_def)
qed simp

section \<open>Properties\<close>






text \<open>An output that keeps every character.\<close>

definition collect :: "string sink" where
  "collect c b idx maxlen = Some (b @ [c])"

lemma out_string_collect: "\<exists>i. out_string collect maxlen cs (b, j) = Some (b @ cs, i)"
proof (induction cs arbitrary: b j)
  case (Cons c cs)
  then show ?case using Cons.IH [of "b @ [c]"] by (simp add: collect_def)
qed simp

lemma collected: "vsnprintf_loop collect maxlen fmt va ([], 0) = Some (cs, i) \<Longrightarrow> render fmt va = Some cs"
proof -
  assume "vsnprintf_loop collect maxlen fmt va ([], 0) = Some (cs, i)"
  then obtain ds where "render fmt va = Some ds" "out_string collect maxlen ds ([], 0) = Some (cs, i)"
    by (auto simp: vsnprintf_loop_render bind_eq_Some_conv)
  with out_string_collect [of maxlen ds "[]" 0] show ?thesis by simp
qed

lemma snprintf_zero:
  assumes "render fmt va = Some cs"
  shows "snprintf buffer 0 fmt va = Some (buffer, to_s32 (int (length cs)))"
proof -
  have s: "out_string out_buffer 0 cs (b, i) = Some (b, to_u32 (i + int (length cs)))"
    if "0 \<le> i" "i \<le> UINT32_MAX" for b i
    using that
  proof (induction cs arbitrary: i)
    case (Cons c cs)
    from Cons.IH [of "to_u32 (i + 1)"] Cons.prems show ?case
      by (simp add: out_buffer_def to_u32_def mod_simps algebra_simps)
  qed (simp add: to_u32_id)
  have "\<not> to_u32 x < 0" for x by (simp add: not_less)
  then show ?thesis
    using assms s [of 0 buffer] by (simp add: snprintf_def internal_vsnprintf_def vsnprintf_loop_render out_buffer_def
        to_s32_to_u32)
qed

text \<open>C31: \<open>snprintf\<close> with a limit of \<open>n\<close> characters, for any format whose text is shorter than 2 to the 32:
  it writes the first \<open>n - 1\<close> characters of the text and a terminator and leaves the rest of the buffer alone;
  with a limit of 0 it writes nothing.  It returns the length of the whole text, converted to \<open>int\<close>.\<close>

theorem snprintf_bounded:
  assumes "n \<le> length buffer" "int n \<le> UINT32_MAX"
    and "vsnprintf_loop collect 0 fmt va ([], 0) = Some (cs, i)" "int (length cs) \<le> UINT32_MAX"
  shows "snprintf buffer (int n) fmt va = Some
    (if n = 0 then buffer else take (n - 1) cs @ CHR 0x00 # drop (Suc (min (length cs) (n - 1))) buffer,
     to_s32 (int (length cs)))"
  using snprintf_render [OF _ assms(1) collected [OF assms(3)] assms(2,4)] snprintf_zero [OF collected [OF assms(3)]]
  by simp

theorem snprintf_bounded_witness:
  "snprintf ''......'' 4 ''%d!'' [AInt 12345] = Some (''123'' @ CHR 0x00 # ''..'', 6)"
proof -
  have "vsnprintf_loop collect 0 ''%d!'' [AInt 12345] ([], 0) = Some (''12345!'', 6)" by code_simp
  from snprintf_bounded [OF _ _ this, of 4 "''......''"] show ?thesis by (simp add: numeral_eq_Suc to_s32_def)
qed

text \<open>C32: a 32-bit value printed with \<open>%u\<close> into a buffer of at least eleven characters is read back from the
  buffer by \<open>_atoi\<close>, which stops at the terminator; the length returned is that of the digits.\<close>

theorem decimal_round_trip:
  assumes "11 \<le> n" "n \<le> length buffer" "int n \<le> UINT32_MAX"
  shows "\<exists>b l. snprintf buffer (int n) ''%u'' [AInt w] = Some (b, int l) \<and> l \<le> 10 \<and> b ! l = CHR 0x00 \<and>
    drop (Suc l) b = drop (Suc l) buffer \<and> atoi b = (uint w, drop l b)"
proof -
  define cs where "cs = numeral_text False 10 (nat (uint w))"
  have p: "\<forall>x \<in> set [Unsigned_piece Pad_left Decimal 0 None Plain w]. piece_ok x" by (simp add: precision_ok_def)
  have "render ''%u'' [AInt w] = Some cs"
    using render_pieces [OF p] by (simp add: precise_digits_def number_text_def padded_def blanks_def
        width_format_def precision_format_def unsigned_value_def cs_def)
  moreover have u: "nat (uint w) < 4294967296" "int (nat (uint w)) = uint w" using unat_bound [of w] by simp_all
  have "length (lsd 10 (int (nat (uint w)))) \<le> 10"
    by (rule length_lsd) (use uint_u32_bound [of w] in simp_all)
  then have len: "length cs \<le> 10" using numeral_text_lsd [of 10 False "nat (uint w)"] by (simp add: cs_def)
  ultimately have run: "snprintf buffer (int n) ''%u'' [AInt w] =
      Some (cs @ CHR 0x00 # drop (Suc (length cs)) buffer, int (length cs))"
    using snprintf_render [of n buffer "''%u''" "[AInt w]" cs] assms by (simp add: to_s32_id min_def)
  have "atoi (cs @ CHR 0x00 # x) = (uint w, CHR 0x00 # x)" for x
    unfolding cs_def using atoi_numeral [of "nat (uint w)" "CHR 0x00 # x"] u by (simp add: is_digit_def)
  with run len show ?thesis by (intro exI [of _ "cs @ CHR 0x00 # drop (Suc (length cs)) buffer"] exI [of _ "length cs"]) simp
qed

theorem decimal_round_trip_witness:
  "\<exists>b l. snprintf (replicate 12 CHR ''.'') 11 ''%u'' [AInt 4000000000] = Some (b, int l) \<and> atoi b = (4000000000, drop l b)"
  using decimal_round_trip [of 11 "replicate 12 CHR ''.''" 4000000000] by auto

end
