(* ===== verification/Fdt_Find.thy ===== *)
theory Fdt_Find
  imports Fdt_Refine
begin

text \<open>
  Reading and erasing what is in a tree, against a description of the bytes: the cells behind a node's
  name (\<^verbatim>\<open>fdt_getprop\<close> of \<^verbatim>\<open>libfdt/fdt_ro.c\<close>) and the words of a node (\<^verbatim>\<open>fdt_nop_node\<close> of
  \<^verbatim>\<open>libfdt/fdt_wip.c\<close>).
\<close>

section \<open>Erasing a node\<close>

text \<open>C35: in a finished tree, \<open>fdt_nop_node\<close> at any node returns 0, every word of the node, from its
  begin tag over its properties and subnodes to its end tag, is a NOP tag afterwards, and no other byte
  is written.\<close>

theorem nop_node_erases:
  assumes f: "finished m fdt (pre @ tree_items u @ post)"
  shows "\<exists>m'. fdt_nop_node m fdt (items_size pre) = Some (0, m') \<and>
    writes_only m m' (prop_addr m fdt (items_size pre)) (items_size (tree_items u)) \<and>
    (\<forall>j. 0 \<le> j \<and> 4 * j < items_size (tree_items u) \<longrightarrow>
       fdt32_ld m' (prop_addr m fdt (items_size pre) + 4 * j) = Some FDT_NOP)"
proof -
  note fd = finishedD [OF f] and z = items_size_nonneg [of pre] and u = items_size_nonneg [of "tree_items u"]
    and b = rw_bounds [OF finishedD(1) [OF f]] and pos = tree_items_pos [of u]
  define k where "k = nat (items_size (tree_items u) div 4)"
  have k: "4 * int k = items_size (tree_items u)" 
    using u pos mult_div_mod_eq [of 4 "items_size (tree_items u)"] by (simp add: k_def pos_imp_zdiv_nonneg_iff)
  have fit: "items_size pre + items_size (tree_items u) \<le> h_size_struct m fdt"
    using fd(7) items_size_nonneg(1) [of post] by simp
  have sf: "struct_fits m fdt (items_size pre) (items_size (tree_items u))" "struct_fits m fdt (items_size pre) 0"
    using fit fd(8,9) z(1) u(1) b by (simp_all add: struct_fits_def)
  have lim: "items_size pre \<le> INT32_MAX" using fit u(1) b by simp
  have ptr: "fdt_offset_ptr m fdt (items_size pre) 0 = Some (prop_addr m fdt (items_size pre))"
    using sf(2) z(1) lim by (simp add: fdt_offset_ptr_eq [OF fd(2)])
  have "mapped m (prop_addr m fdt (items_size pre)) (4 * int k)"
    using struct_fits_mapped [OF fd(2) sf(1)] k by simp
  from fdt_nop_region_from_spec [OF this] obtain m' where
    m': "fdt_nop_region_from m (prop_addr m fdt (items_size pre)) (prop_addr m fdt (items_size pre) + 4 * int k) = Some m'"
    "writes_only m m' (prop_addr m fdt (items_size pre)) (4 * int k)"
    "\<forall>i < k. fdt32_ld m' (prop_addr m fdt (items_size pre) + 4 * int i) = Some FDT_NOP" by blast
  have "fdt_nop_node m fdt (items_size pre) = Some (0, m')"
    using m'(1) finished_node_end [OF f] z(1) u(1) ptr k by (simp add: fdt_nop_node_def fdt_nop_region_def)
  moreover have "fdt32_ld m' (prop_addr m fdt (items_size pre) + 4 * j) = Some FDT_NOP"
    if "0 \<le> j" "4 * j < items_size (tree_items u)" for j
    using m'(3) [rule_format, of "nat j"] that k by simp
  ultimately show ?thesis using m'(2) k by auto
qed

theorem nop_node_erases_witness:
  "\<exists>m'. fdt_nop_node edit_mem 4096 8 = Some (0, m') \<and>
     (\<forall>j. 0 \<le> j \<and> 4 * j < 32 \<longrightarrow> fdt32_ld m' (4160 + 4 * j) = Some FDT_NOP) \<and> writes_only edit_mem m' 4160 32"
proof -
  have i: "tree_items cpu_tree = [Open_item []] @ tree_items (DNode [99, 112, 117, 64, 48] [([114, 101, 103], [114, 101, 103, 0])] []) @
      [Close_item]" by (simp add: cpu_tree_def)
  have "items_size [Open_item []] = 8"
    "items_size (tree_items (DNode [99, 112, 117, 64, 48] [([114, 101, 103], [114, 101, 103, 0])] [])) = 32"
    by (simp_all add: tag_size_def)
  with nop_node_erases [OF edit_mem_finished [unfolded i]] show ?thesis
    unfolding edit_mem_fields by (simp only:) (auto simp: ac_simps)
qed

section \<open>The value of a property\<close>

text \<open>
  What lies behind the name of a node: erased words and property cells.  A property cell is the tag, the
  length, the offset of the name in the strings block, and the value.
\<close>

datatype cell = Nop_cell | Prop_cell "u8 list" "u8 list"

fun cell_size :: "cell \<Rightarrow> int" where
  "cell_size Nop_cell = 4"
| "cell_size (Prop_cell nm bs) = item_size (Prop_item nm bs)"

fun cell_there :: "(int \<Rightarrow> u8 list \<Rightarrow> bool) \<Rightarrow> mem \<Rightarrow> int \<Rightarrow> cell \<Rightarrow> bool" where
  "cell_there ref m p Nop_cell \<longleftrightarrow> fdt32_ld m p = Some FDT_NOP"
| "cell_there ref m p (Prop_cell nm bs) \<longleftrightarrow> item_at ref m p (Prop_item nm bs)"

fun cells_there :: "(int \<Rightarrow> u8 list \<Rightarrow> bool) \<Rightarrow> mem \<Rightarrow> int \<Rightarrow> cell list \<Rightarrow> bool" where
  "cells_there ref m p [] \<longleftrightarrow> True"
| "cells_there ref m p (c # cs) \<longleftrightarrow> cell_there ref m p c \<and> cells_there ref m (p + cell_size c) cs"

definition cells_size :: "cell list \<Rightarrow> int" where
  "cells_size cs = sum_list (map cell_size cs)"

lemma cells_size_simps [simp]: "cells_size [] = 0" "cells_size (c # cs) = cell_size c + cells_size cs"
  by (simp_all add: cells_size_def)

lemma cell_size_pos: "4 \<le> cell_size c" "cell_size c mod 4 = 0"
  using item_size_pos by (cases c; simp del: item_size.simps)+

lemma cells_size_nonneg: "0 \<le> cells_size cs"
proof (induction cs)
  case (Cons c cs)
  with cell_size_pos(1) [of c] show ?case by simp
qed simp

text \<open>Where the value of the first property of the name starts, and its length.\<close>

fun first_value :: "int \<Rightarrow> u8 list \<Rightarrow> cell list \<Rightarrow> (int \<times> int) option" where
  "first_value p s [] = None"
| "first_value p s (Nop_cell # cs) = first_value (p + 4) s cs"
| "first_value p s (Prop_cell nm bs # cs) =
     (if nm = s then Some (p + 12, int (length bs)) else first_value (p + item_size (Prop_item nm bs)) s cs)"

text \<open>A tree the readers accept, of version 16 or 17.\<close>

definition readable :: "mem \<Rightarrow> int \<Rightarrow> bool" where
  "readable m fdt \<longleftrightarrow> blob m fdt \<and> header_ok m fdt \<and> 16 \<le> h_version m fdt \<and> h_totalsize m fdt < INT32_MAX"

lemma readableD:
  assumes "readable m fdt"
  shows "blob m fdt" "16 \<le> h_version m fdt" "hdr m fdt 0 = FDT_MAGIC" "h_totalsize m fdt < INT32_MAX"
    "h_off_strings m fdt + h_size_strings m fdt \<le> h_totalsize m fdt" "fdt_ro_probe m fdt = Some (h_totalsize m fdt)"
proof -
  show b: "blob m fdt" "16 \<le> h_version m fdt" "h_totalsize m fdt < INT32_MAX" using assms by (simp_all add: readable_def)
  show h: "hdr m fdt 0 = FDT_MAGIC" "h_off_strings m fdt + h_size_strings m fdt \<le> h_totalsize m fdt"
    using assms by (simp_all add: readable_def header_ok_def Let_def)
  show "fdt_ro_probe m fdt = Some (h_totalsize m fdt)"
    using fdt_ro_probe_magic [OF b(1) h(1) _ _ b(3)] b(2) assms by (simp add: readable_def header_ok_def Let_def)
qed

lemma readable_string:
  assumes r: "readable m fdt" and s: "name_ref m fdt v nm" and n: "0 \<notin> set nm"
  shows "fdt_get_string m fdt v = Some (fdt + h_off_strings m fdt + v, int (length nm))"
proof -
  note rd = readableD [OF r] and bb = blob_bounds [OF readableD(1) [OF r]]
  have v: "0 \<le> v" "v + int (length nm) + 1 \<le> h_size_strings m fdt"
    "bytes_at m (fdt + h_off_strings m fdt + v) (nm @ [0])" using s by (simp_all add: str_ref_def)
  define a where "a = fdt + h_off_strings m fdt + v"
  have u: "to_u32 (v + h_off_strings m fdt) = v + h_off_strings m fdt"
    using v rd(5) bb by (intro to_u32_id) simp_all
  have mc: "memchr m a 0 n' = Some (a + int (length nm))" if "length nm < n'" for n'
    using memchr_found [of m a nm 0 n'] v n that by (simp add: a_def)
  have le: "int (length nm) < h_size_strings m fdt - v" "int (length nm) < h_totalsize m fdt - (v + h_off_strings m fdt)"
    using v rd(5) by simp_all
  have "a + int (length nm) \<noteq> 0" "to_s32 (int (length nm)) = int (length nm)" "fdt + (v + h_off_strings m fdt) = a"
    "\<not> h_totalsize m fdt < 0" "\<not> h_totalsize m fdt \<le> v + h_off_strings m fdt" "\<not> h_size_strings m fdt \<le> v" "\<not> v < 0"
    using v bb rd(5) le by (simp_all add: a_def to_s32_id)
  then show ?thesis
    using mc [of "nat (h_size_strings m fdt - v)"] mc [of "nat (h_totalsize m fdt - (v + h_off_strings m fdt))"] le u rd(3,6)
    by (simp add: fdt_get_string_def blob_simps [OF rd(1)] Let_def a_def [symmetric])
qed

text \<open>One property cell, as the readers see it.\<close>

lemma readable_prop:
  assumes r: "readable m fdt" and al: "off mod 4 = 0" and f: "struct_fits m fdt off (item_size (Prop_item nm bs))"
    and i: "item_at (name_ref m fdt) m (prop_addr m fdt off) (Prop_item nm bs)"
  shows "fdt_next_tag m fdt off = Some (FDT_PROP, off + item_size (Prop_item nm bs))" "prop_at m fdt off"
    "named m fdt s off \<longleftrightarrow> nm = s" "sfield m fdt (off + 4) = int (length bs)"
proof -
  note rd = readableD [OF r] and bb = blob_bounds [OF readableD(1) [OF r]]
  note tag = item_tag_at [OF rd(1,2) al f i]
  then show "fdt_next_tag m fdt off = Some (FDT_PROP, off + item_size (Prop_item nm bs))" "prop_at m fdt off"
    using al by (auto simp: prop_at_def)
  obtain w where w: "fdt32_ld m (prop_addr m fdt off + 8) = Some w" "name_ref m fdt w nm" "0 \<notin> set nm"
    "fdt32_ld m (prop_addr m fdt off + 4) = Some (int (length bs))" using i by auto
  have fld: "sfield m fdt (off + 8) = w" "sfield m fdt (off + 4) = int (length bs)"
    by (rule sfield_at; use w in \<open>simp add: add.assoc\<close>)+
  then show "sfield m fdt (off + 4) = int (length bs)" by simp
  have "to_s32 w = w" using w(2) rd(5) bb by (simp add: str_ref_def to_s32_id)
  then have g: "fdt_get_string m fdt (to_s32 (sfield m fdt (off + 8))) =
      Some (fdt + h_off_strings m fdt + w, int (length nm))" using readable_string [OF r w(2,3)] fld by simp
  have c: "cstr_at m (fdt + h_off_strings m fdt + w) nm" using w(2,3) bytes_cstr by (simp add: str_ref_def)
  have "fdt + h_off_strings m fdt + w \<noteq> 0" using w(2) bb by (simp add: str_ref_def)
  then show "named m fdt s off \<longleftrightarrow> nm = s" using c cstr_at_unique [OF c, of s] by (auto simp: named_def str_is_def g)
qed

text \<open>The search, from the offset behind the cells already passed.\<close>

lemma cells_search:
  assumes r: "readable m fdt" and n: "c_string m name s"
    and stop: "item_tag i \<noteq> FDT_PROP" "item_at ref m (prop_addr m fdt (q + cells_size cs)) i"
      "struct_fits m fdt (q + cells_size cs) (item_size i)"
  shows "q = off \<Longrightarrow> off mod 4 = 0 \<Longrightarrow> 0 \<le> off \<Longrightarrow> cells_there (name_ref m fdt) m (prop_addr m fdt off) cs \<Longrightarrow>
    do { p \<leftarrow> nextprop m fdt off; fdt_get_property_loop m fdt p name (int (length s)) } =
      Some (case first_value (prop_addr m fdt off) s cs of
              None \<Rightarrow> (0, - FDT_ERR_NOTFOUND, 0) | Some (a, l) \<Rightarrow> (a - 12, l, a - 12 - prop_addr m fdt 0))"
  using stop(2,3)
proof (induction cs arbitrary: off q)
  case Nil
  note rd = readableD [OF r]
  have f: "struct_fits m fdt off (item_size i)" using Nil by simp
  note tag = item_tag_at(2) [OF rd(1,2) Nil.prems(2) f]
  have "item_tag i = FDT_BEGIN_NODE \<or> item_tag i = FDT_END_NODE" using stop(1) by (cases i) simp_all
  with tag [of ref] Nil show ?case
    by (auto simp: nextprop.simps [of m fdt off] fdt_get_property_loop.simps [of m fdt "- FDT_ERR_NOTFOUND"])
next
  case (Cons c cs)
  note rd = readableD [OF r] and nb = c_string_bytes [OF n]
  have al: "(off + cell_size c) mod 4 = 0" "0 \<le> off + cell_size c"
    using Cons.prems(2,3) cell_size_pos [of c] by presburger+
  have fit: "struct_fits m fdt off (cell_size c)"
    using Cons.prems(1,3,6) item_size_pos(1) [of i] cells_size_nonneg [of cs] by (auto simp: struct_fits_def)
  have ih: "do { p \<leftarrow> nextprop m fdt (off + cell_size c); fdt_get_property_loop m fdt p name (int (length s)) } =
      Some (case first_value (prop_addr m fdt off + cell_size c) s cs of
              None \<Rightarrow> (0, - FDT_ERR_NOTFOUND, 0) | Some (a, l) \<Rightarrow> (a - 12, l, a - 12 - prop_addr m fdt 0))"
    using Cons.IH [OF refl al] Cons.prems by (simp add: add.assoc)
  show ?case
  proof (cases c)
    case Nop_cell
    have "fdt_next_tag m fdt off = Some (FDT_NOP, off + 4)"
      using nop_tag [OF rd(1) _ Cons.prems(2)] fit Cons.prems(4) Nop_cell by simp
    with ih Nop_cell show ?thesis by (simp add: nextprop.simps [of m fdt off])
  next
    case (Prop_cell nm bs)
    note pr = readable_prop [OF r Cons.prems(2), of nm bs]
    have f: "struct_fits m fdt off (item_size (Prop_item nm bs))"
      "item_at (name_ref m fdt) m (prop_addr m fdt off) (Prop_item nm bs)"
      using fit Cons.prems(4) Prop_cell by simp_all
    note pr = pr [OF f]
    have nx: "nextprop m fdt off = Some off" using pr(1) by (simp add: nextprop.simps [of m fdt off])
    have nxo: "fdt_next_property_offset m fdt off = nextprop m fdt (off + cell_size c)"
      using pr(1) Cons.prems(2,3) al(2) Prop_cell
      by (simp add: fdt_next_property_offset_def fdt_check_prop_offset_def del: item_size.simps)
    have eq: "fdt_string_eq m fdt (to_s32 (sfield m fdt (off + 8))) name (int (length s)) = Some (nm = s)"
      using fdt_string_eq_spec [OF rd(1) nb(1-4)] pr(3) [of s] by (simp add: named_def)
    note reads = prop_at_reads [OF rd(1) pr(2)]
    have "fdt_get_property_loop m fdt off name (int (length s)) =
        (if nm = s then Some (prop_addr m fdt off, int (length bs), off)
         else do { p \<leftarrow> nextprop m fdt (off + cell_size c); fdt_get_property_loop m fdt p name (int (length s)) })"
      using reads eq Cons.prems(3) nxo pr(4) by (simp add: fdt_get_property_loop.simps [of m fdt off])
    with ih nx Prop_cell show ?thesis by (auto simp del: item_size.simps)
  qed
qed

text \<open>C13: let the name of a node be followed by any sequence of erased words and property cells, up to a
  begin or end tag.  Then \<open>fdt_getprop\<close> returns the address and the length of the value of the first of
  these cells that has the name, behind any erased words and any other properties, or null and
  \<open>-FDT_ERR_NOTFOUND\<close> when none has it, whatever the rest of the tree holds.  The tree is of
  version 16 or later, smaller than 2 GiB, and has a header that \<open>fdt_check_header\<close> accepts.\<close>

theorem getprop_first_match:
  assumes r: "readable m fdt" and n: "c_string m name s"
    and node: "0 \<le> node" "node mod 4 = 0" "item_at (name_ref m fdt) m (prop_addr m fdt node) (Open_item nd)"
    and cells: "cells_there (name_ref m fdt) m (prop_addr m fdt (node + item_size (Open_item nd))) cs"
    and stop: "item_at (name_ref m fdt) m (prop_addr m fdt (node + item_size (Open_item nd) + cells_size cs)) i"
      "item_tag i \<noteq> FDT_PROP" "struct_fits m fdt (node + item_size (Open_item nd) + cells_size cs) (item_size i)"
  shows "fdt_getprop m fdt node name =
    Some (case first_value (prop_addr m fdt (node + item_size (Open_item nd))) s cs of
            None \<Rightarrow> (0, - FDT_ERR_NOTFOUND) | Some (a, l) \<Rightarrow> (a, l))"
proof -
  define off where "off = node + item_size (Open_item nd)"
  note rd = readableD [OF r] and nb = c_string_bytes [OF n]
  have z: "0 \<le> off" "off mod 4 = 0" "node < off"
    using node item_size_pos [of "Open_item nd"] unfolding off_def by presburger+
  have "struct_fits m fdt node (item_size (Open_item nd))"
    using stop(3) node(1) item_size_pos(1) [of i] cells_size_nonneg [of cs] by (auto simp: struct_fits_def)
  from item_tag_at(2) [OF rd(1,2) node(2) this node(3)]
  have first: "fdt_first_property_offset m fdt node = nextprop m fdt off"
    using node z by (simp add: fdt_first_property_offset_def fdt_check_node_offset_def off_def del: item_size.simps)
  have search: "fdt_get_property_namelen_any m fdt node name (int (length s)) =
      Some (case first_value (prop_addr m fdt off) s cs of
              None \<Rightarrow> (0, - FDT_ERR_NOTFOUND, 0) | Some (a, l) \<Rightarrow> (a - 12, l, a - 12 - prop_addr m fdt 0))"
    using cells_search [OF r n stop(2,1,3) _ z(2,1)] cells first
    by (simp add: fdt_get_property_namelen_any_def off_def)
  have above: "prop_addr m fdt off + 12 \<le> a" if "first_value (prop_addr m fdt off) s cs = Some (a, l)" for a l
  proof -
    have "first_value p s ks = Some (a, l) \<Longrightarrow> p + 12 \<le> a" for p ks
    proof (induction p s ks rule: first_value.induct)
      case (3 p s nm bs ks)
      then show ?case using item_size_pos(1) [of "Prop_item nm bs"] by (auto split: if_splits)
    qed auto
    then show ?thesis using that by blast
  qed
  show ?thesis
    unfolding off_def [symmetric]
    using search c_string_strlen [OF n] nb(5) above z(1) blob_bounds [OF rd(1)] rd(2)
    by (auto simp: fdt_getprop_def fdt_getprop_namelen_def prop_data_def blob_simps [OF rd(1)] split: option.splits)
qed

text \<open>\<open>/cpu@0\<close> of the example with its begin tag and name erased: its property is one of the root.\<close>

definition nop_mem :: mem where
  "nop_mem a = (if 4160 \<le> a \<and> a < 4172 then Some (if (a - 4160) mod 4 = 3 then 4 else 0) else edit_mem a)"

theorem getprop_first_match_witness:
  "fdt_getprop nop_mem 4096 0 268 = Some (4184, 4)"
proof -
  note f = finishedD [OF edit_mem_finished]
  have "mapped edit_mem 4160 12" using blob_mapped_tail [OF f(2), of 4160 12] by (simp add: edit_mem_fields)
  then have w: "writes_only edit_mem nop_mem 4160 12" by (auto simp: writes_only_def nop_mem_def mapped_def split: if_splits)
  have h: "header_ok nop_mem 4096" "h_version nop_mem 4096 = 17" "h_totalsize nop_mem 4096 = 256"
    "h_off_struct nop_mem 4096 = 56" "h_size_struct nop_mem 4096 = 48" "h_off_strings nop_mem 4096 = 104"
    "h_size_strings nop_mem 4096 = 4" by code_simp+
  have r: "readable nop_mem 4096"
    using blob_frame(1) [OF f(2) w] h by (simp add: readable_def)
  have n: "c_string nop_mem 268 [114, 101, 103]" by (rule c_string_frame [OF edit_mem_strings(3) w]) simp
  have at: "fdt32_ld nop_mem 4152 = Some 1" "bytes_at nop_mem 4156 [0]" "fdt32_ld nop_mem 4160 = Some 4"
    "fdt32_ld nop_mem 4164 = Some 4" "fdt32_ld nop_mem 4168 = Some 4" "fdt32_ld nop_mem 4172 = Some 3"
    "fdt32_ld nop_mem 4176 = Some 4" "fdt32_ld nop_mem 4180 = Some 0" "bytes_at nop_mem 4184 [114, 101, 103, 0]"
    "fdt32_ld nop_mem 4188 = Some 2" "bytes_at nop_mem 4200 [114, 101, 103, 0]" by code_simp+
  show ?thesis
    using getprop_first_match [OF r n, of 0 "[]" "[Nop_cell, Nop_cell, Nop_cell, Prop_cell [114, 101, 103] [114, 101, 103, 0]]"
        Close_item] at h
    by (simp add: tag_size_def struct_fits_def str_ref_def)
qed

end
