(* ===== verification/Fdt_Compat.thy ===== *)
theory Fdt_Compat
  imports Fdt_Find
begin

text \<open>
  The search for a compatible node (\<^verbatim>\<open>fdt_node_offset_by_compatible\<close> of \<^verbatim>\<open>libfdt/fdt_ro.c\<close>), which the
  kernel uses to find the CLINT and the power device, against the tree as data.
\<close>

section \<open>The specification\<close>

text \<open>The offsets and the properties of the nodes of a tree, in the order of the blob.\<close>

fun nodes_of :: "int \<Rightarrow> dtree \<Rightarrow> (int \<times> (u8 list \<times> u8 list) list) list"
  and nodes_in :: "int \<Rightarrow> dtree list \<Rightarrow> (int \<times> (u8 list \<times> u8 list) list) list" where
  "nodes_of off (DNode nd ps ts) = (off, ps) # nodes_in (off + items_size (Open_item nd # prop_items ps)) ts"
| "nodes_in off [] = []"
| "nodes_in off (t # ts) = nodes_of off t @ nodes_in (off + items_size (tree_items t)) ts"

text \<open>The node says it is compatible with \<open>s\<close>: \<open>s\<close> is one of the NUL-terminated strings of its first property
  \<open>key\<close>.\<close>

definition says_compatible :: "u8 list \<Rightarrow> u8 list \<Rightarrow> (u8 list \<times> u8 list) list \<Rightarrow> bool" where
  "says_compatible key s ps \<longleftrightarrow>
     (case find (\<lambda>(n, b). n = key) ps of None \<Rightarrow> False | Some (n, b) \<Rightarrow> s \<in> set (nul_strings b))"

text \<open>The value is a list of terminated strings.\<close>

definition string_list :: "u8 list \<Rightarrow> bool" where
  "string_list b \<longleftrightarrow> b = [] \<or> last b = 0"

section \<open>The value of a property\<close>

lemma finished_value:
  assumes f: "finished m fdt (pre @ Open_item nd # prop_items ps @ rest)" and e: "ends_props rest"
    and n: "c_string m name nm" and s: "find (\<lambda>(n, b). n = nm) ps = Some (n', b)"
  obtains a nb where "fdt_getprop m fdt (items_size pre) name = Some (a, int (length b))" "0 < a"
    "bytes_at m a (b @ [nb])" "a + int (length b) \<le> 4294967295" "int (length b) \<le> INT32_MAX"
proof -
  have "nm \<in> fst ` set ps" using s find_name [of nm ps] by (metis option.distinct(1))
  from first_of_name [OF this] obtain us b' vs where u: "ps = us @ (nm, b') # vs" "nm \<notin> fst ` set us" by blast
  have "find (\<lambda>(n, b). n = nm) (us @ (nm, b') # vs) = Some (nm, b')" using u(2) by (induction us) auto
  with s u(1) have b: "b' = b" by simp
  define pre' post where "pre' = pre @ Open_item nd # prop_items us" and "post = prop_items vs @ rest"
  have f': "finished m fdt (pre' @ Prop_item nm b # post)" using f u(1) b by (simp add: pre'_def post_def)
  note fd = finishedD [OF f'] and z = items_size_nonneg [of pre'] and bb = blob_bounds [OF finishedD(2) [OF f']]
    and rb = rw_bounds [OF finishedD(1) [OF f']]
  note p = finished_prop [OF f' refl]
  define q where "q = items_size pre'"
  define a where "a = prop_addr m fdt q + 12"
  note po = finished_props_of(1) [OF f refl e]
  from finished_first [OF f [unfolded u(1)] e u(2)] po u(1) have
    "find (named m fdt nm) (item_offsets (items_size (pre @ [Open_item nd])) (prop_items ps)) = Some q"
    by (simp add: q_def pre'_def)
  moreover have "data_addr m fdt q = a" using data_addr_spec(3) [OF fd(2) p(1) fd(5)] by (simp add: a_def q_def)
  ultimately have g: "fdt_getprop m fdt (items_size pre) name = Some (a, int (length b))"
    using fdt_getprop_lookup [OF fd(2) po n] p(4) by (simp add: lookup_def q_def)
  have in_s: "q + 12 + int (length b) + 4 \<le> h_size_struct m fdt"
    using fd(7) items_size_nonneg(1) [of post] tag_size_bounds(1) [of "int (length b)"] by (simp add: q_def)
  then have "a + int (length b) + 1 \<le> fdt + h_totalsize m fdt" using fd(8,9) bb by (simp add: a_def)
  then have "mapped m (a + int (length b)) 1" using blob_mapped_tail [OF fd(2)] bb z(1) by (simp add: a_def q_def)
  then obtain nb where "m (a + int (length b)) = Some nb" by (auto simp: mapped_def)
  then have val: "bytes_at m a (b @ [nb])" using p(3) by (simp add: bytes_at_append a_def q_def)
  show thesis
    by (rule that [OF g _ val]) (use in_s fd(8,9) bb rb z(1) in \<open>simp_all add: a_def q_def\<close>)
qed

lemma nul_strings_snoc:
  assumes "string_list b"
  shows "nul_strings (b @ [nb]) = nul_strings b @ (if nb = 0 then [[]] else [])"
  using assms
proof (induction b rule: nul_strings.induct)
  case (1 b)
  show ?case
  proof (cases "0 \<in> set b")
    case True
    then obtain t rest where b: "b = t @ 0 # rest" "0 \<notin> set t" by (rule split_at_zero)
    then have tl: "tl (dropWhile (\<lambda>b. b \<noteq> 0) b) = rest" by (simp add: dropWhile_nul)
    have "string_list rest" using 1(2) b by (auto simp: string_list_def split: if_splits)
    with 1(1) [OF True] b tl show ?thesis by (simp add: nul_strings_split)
  next
    case False
    with 1(2) have "b = []" unfolding string_list_def by (metis last_in_set)
    then show ?thesis using nul_strings_split [of "[]" "[]"] by (simp add: nul_strings_none)
  qed
qed

lemma finished_compatible:
  assumes f: "finished m fdt (pre @ Open_item nd # prop_items ps @ rest)" and e: "ends_props rest"
    and n: "c_string m (lit ''compatible'') key" and s: "c_string m cs str" "str \<noteq> []"
    and ok: "\<And>b. (key, b) \<in> set ps \<Longrightarrow> string_list b"
  shows "\<exists>r. fdt_node_check_compatible m lit fdt (items_size pre) cs = Some r \<and>
    (if says_compatible key str ps then r = 0 else r = 1 \<or> r = - FDT_ERR_NOTFOUND)"
proof (cases "find (\<lambda>(n, b). n = key) ps")
  case None
  then show ?thesis
    using finished_getprop [OF f refl e n] by (simp add: fdt_node_check_compatible_def says_compatible_def)
next
  case (Some p)
  obtain n' b where p: "p = (n', b)" by force
  from Some p have "(key, b) \<in> set ps" by (auto simp: find_Some_iff) (metis nth_mem)
  then have "string_list b" by (rule ok)
  obtain a nb where a: "fdt_getprop m fdt (items_size pre) (lit ''compatible'') = Some (a, int (length b))" "0 < a"
    "bytes_at m a (b @ [nb])" "a + int (length b) \<le> 4294967295" "int (length b) \<le> INT32_MAX"
    using finished_value [OF f e n] Some p by metis
  from fdt_stringlist_contains_spec [OF s(1) a(3,2,4,5)] nul_strings_snoc [OF \<open>string_list b\<close>, of nb] s(2)
  have "fdt_stringlist_contains m a (int (length b)) cs = Some (if str \<in> set (nul_strings b) then 1 else 0)" by auto
  with a(1,2) Some p show ?thesis by (simp add: fdt_node_check_compatible_def says_compatible_def)
qed

section \<open>The walk over the items\<close>

fun leading_props :: "sw_item list \<Rightarrow> (u8 list \<times> u8 list) list" where
  "leading_props (Prop_item n b # is) = (n, b) # leading_props is"
| "leading_props _ = []"

lemma leading_split:
  "is \<noteq> [] \<Longrightarrow> last is = Close_item \<Longrightarrow> \<exists>rest. is = prop_items (leading_props is) @ rest \<and> ends_props rest"
proof (induction "is" rule: leading_props.induct)
  case (1 n b "is")
  then have "is \<noteq> []" "last is = Close_item" by (auto split: if_splits)
  with 1 show ?case by auto
qed auto

lemma leading_props_items: "leading_props (prop_items ps @ is) = ps @ leading_props is"
  by (induction ps) auto

fun opens :: "int \<Rightarrow> sw_item list \<Rightarrow> (int \<times> (u8 list \<times> u8 list) list) list" where
  "opens off [] = []"
| "opens off (Open_item nd # is) = (off, leading_props is) # opens (off + item_size (Open_item nd)) is"
| "opens off (i # is) = opens (off + item_size i) is"

lemma opens_Cons: "opens off (i # is) =
    (case i of Open_item nd \<Rightarrow> [(off, leading_props is)] | _ \<Rightarrow> []) @ opens (off + item_size i) is"
  by (cases i) simp_all

lemma opens_low: "(q, ps) \<in> set (opens off is) \<Longrightarrow> off \<le> q"
proof (induction "is" arbitrary: off)
  case (Cons i "is")
  then show ?case using item_size_pos(1) [of i] by (fastforce simp: opens_Cons split: sw_item.splits)
qed simp

lemma opens_split:
  "q \<in> fst ` set (opens off is) \<Longrightarrow> \<exists>pre nd js. is = pre @ Open_item nd # js \<and> q = off + items_size pre"
proof (induction "is" arbitrary: off)
  case (Cons i "is")
  show ?case
  proof (cases "q = off \<and> (\<exists>nd. i = Open_item nd)")
    case True
    then obtain nd where "q = off" "i = Open_item nd" by blast
    then show ?thesis by (intro exI [of _ "[]"] exI [of _ nd] exI [of _ "is"]) simp
  next
    case False
    with Cons.prems have "q \<in> fst ` set (opens (off + item_size i) is)" by (auto simp: opens_Cons split: sw_item.splits)
    from Cons.IH [OF this] obtain pre nd js where "is = pre @ Open_item nd # js" "q = off + item_size i + items_size pre" by blast
    then show ?thesis by (intro exI [of _ "i # pre"]) auto
  qed
qed simp

lemma opens_behind:
  "filter (\<lambda>(q, ps). off + items_size pre < q) (opens off (pre @ Open_item nd # js)) =
     opens (off + items_size (pre @ [Open_item nd])) js"
proof (induction pre arbitrary: off)
  case Nil
  have "\<forall>x \<in> set (opens (off + item_size (Open_item nd)) js). case x of (q, ps) \<Rightarrow> off < q"
    using opens_low item_size_pos(1) [of "Open_item nd"] by fastforce
  then show ?case by (simp add: filter_id_conv del: item_size.simps)
next
  case (Cons i pre)
  have "\<not> off + (item_size i + items_size pre) < off"
    using item_size_pos(1) [of i] items_size_nonneg(1) [of pre] by simp
  then show ?case using Cons.IH [of "off + item_size i"]
    by (simp add: opens_Cons add.assoc split: sw_item.split)
qed

lemma opens_props: "opens off (prop_items ps @ is) = opens (off + items_size (prop_items ps)) is"
  by (induction ps arbitrary: off) (auto simp: add.assoc)

lemma opens_tree:
  "opens off (tree_items t @ is) = nodes_of off t @ opens (off + items_size (tree_items t)) is"
  "opens off (concat (map tree_items ts) @ is) = nodes_in off ts @ opens (off + items_size (concat (map tree_items ts))) is"
proof (induction off t and off ts arbitrary: "is" and "is" rule: nodes_of_nodes_in.induct)
  case (1 off nd ps ts)
  have "leading_props (concat (map tree_items ts) @ Close_item # is) = []"
  proof (cases ts)
    case (Cons t us)
    then show ?thesis by (cases t) simp
  qed simp
  then show ?case using 1 [of "Close_item # is"] by (simp add: opens_props leading_props_items add.assoc)
qed (simp_all add: add.assoc)

text \<open>The search from an offset between two items on.\<close>

definition compatible_walk :: "mem \<Rightarrow> literals \<Rightarrow> int \<Rightarrow> int \<Rightarrow> int \<Rightarrow> int option" where
  "compatible_walk m lit fdt off cs = do {
     (p, _) \<leftarrow> fdt_next_node_loop m fdt off None;
     if p < 0 then Some p else do {
     err \<leftarrow> fdt_node_check_compatible m lit fdt p cs;
     if err < 0 \<and> err \<noteq> - FDT_ERR_NOTFOUND then Some err
     else if err = 0 then Some p
     else fdt_node_by_compatible_loop m lit fdt p cs } }"

definition compatible_in :: "u8 list \<Rightarrow> u8 list \<Rightarrow> (int \<times> (u8 list \<times> u8 list) list) list \<Rightarrow> int" where
  "compatible_in key str ns =
     (case find (\<lambda>(q, ps). says_compatible key str ps) ns of Some (q, ps) \<Rightarrow> q | None \<Rightarrow> - FDT_ERR_NOTFOUND)"

lemma compatible_walk_items:
  assumes f: "finished m fdt is" and last: "last is = Close_item"
    and n: "c_string m (lit ''compatible'') key" and s: "c_string m cs str" "str \<noteq> []"
    and ok: "\<And>b. Prop_item key b \<in> set is \<Longrightarrow> string_list b"
  shows "is = pre @ js \<Longrightarrow>
    compatible_walk m lit fdt (items_size pre) cs = Some (compatible_in key str (opens (items_size pre) js))"
proof (induction js arbitrary: pre)
  case Nil
  have "fdt_next_tag m fdt (items_size pre) = Some (FDT_END, items_size pre + 4)"
    using finished_split(1) [OF f Nil(1)] by simp
  then show ?case
    using items_size_nonneg(1) [of pre]
    by (simp add: compatible_walk_def compatible_in_def fdt_next_node_loop.simps [of m fdt "items_size pre"])
next
  case (Cons i js)
  note tag = finished_tag(2) [OF f Cons.prems(1)] and z = items_size_nonneg [of pre]
  note step = fdt_next_node_loop.simps [of m fdt "items_size pre"]
  define nx where "nx = items_size pre + item_size i"
  have nx: "0 \<le> nx" "items_size (pre @ [i]) = nx" using z item_size_pos(1) [of i] by (simp_all add: nx_def)
  have i': "is = (pre @ [i]) @ js" using Cons.prems(1) by simp
  note ih = Cons.IH [OF i', unfolded nx(2)]
  show ?case
  proof (cases i)
    case (Open_item nd)
    have "js \<noteq> []" "last js = Close_item" using last Cons.prems(1) Open_item by (auto split: if_splits)
    from leading_split [OF this] obtain rest where r: "js = prop_items (leading_props js) @ rest" "ends_props rest" by blast
    have fo: "finished m fdt (pre @ Open_item nd # prop_items (leading_props js) @ rest)"
      using f Cons.prems(1) Open_item r(1) by simp
    have "string_list b" if "(key, b) \<in> set (leading_props js)" for b
    proof (rule ok)
      have "Prop_item key b \<in> set (prop_items (leading_props js))" using that by force
      then show "Prop_item key b \<in> set is" using r(1) Cons.prems(1) by (metis Un_iff list.set_intros(2) set_append)
    qed
    from finished_compatible [where lit = lit, OF fo r(2) n s this] obtain e where
      e: "fdt_node_check_compatible m lit fdt (items_size pre) cs = Some e"
        "if says_compatible key str (leading_props js) then e = 0 else e = 1 \<or> e = - FDT_ERR_NOTFOUND" by blast
    have chk: "fdt_check_node_offset m fdt (items_size pre) = Some nx"
      using tag z Open_item by (simp add: fdt_check_node_offset_def nx_def)
    have "fdt_next_node m fdt (items_size pre) None = fdt_next_node_loop m fdt nx None"
      using chk z nx by (simp add: fdt_next_node_def)
    then have "fdt_node_by_compatible_loop m lit fdt (items_size pre) cs = compatible_walk m lit fdt nx cs"
      by (simp add: fdt_node_by_compatible_loop.simps [of m lit fdt "items_size pre"] compatible_walk_def)
    then show ?thesis
      using tag Open_item z e ih by (auto simp: compatible_walk_def step compatible_in_def nx_def split: if_splits)
  next
    case (Prop_item pn bs)
    then show ?thesis using tag ih by (simp add: compatible_walk_def step nx_def)
  next
    case Close_item
    then show ?thesis using tag ih by (simp add: compatible_walk_def step nx_def)
  qed
qed

section \<open>The property\<close>

lemma tree_item_props:
  "Prop_item nm b \<in> set (tree_items t) \<Longrightarrow> \<exists>(q, ps) \<in> set (nodes_of off t). (nm, b) \<in> set ps"
  "Prop_item nm b \<in> set (concat (map tree_items ts)) \<Longrightarrow> \<exists>(q, ps) \<in> set (nodes_in off ts). (nm, b) \<in> set ps"
proof (induction off t and off ts rule: nodes_of_nodes_in.induct)
  case (1 off nd ps ts)
  then show ?case by (auto simp: image_iff)
next
  case (3 off t ts)
  then show ?case by fastforce
qed simp

text \<open>C19: \<open>fdt_node_offset_by_compatible\<close> on a finished tree whose \<open>compatible\<close> values are lists of
  terminated strings: from the start of the tree, or from any of its nodes, it returns the offset of
  the next node in the order of the blob whose first \<open>compatible\<close> property lists the string, and
  \<open>-FDT_ERR_NOTFOUND\<close> when there is none, for every non-empty string and every tree as data.\<close>

theorem by_compatible_first:
  assumes f: "finished m fdt (tree_items t)"
    and n: "c_string m (lit ''compatible'') (lit_bytes ''compatible'')" and s: "c_string m cs str" "str \<noteq> []"
    and ok: "\<forall>(q, ps) \<in> set (nodes_of 0 t). \<forall>b. (lit_bytes ''compatible'', b) \<in> set ps \<longrightarrow> string_list b"
    and start: "start < 0 \<or> start \<in> fst ` set (nodes_of 0 t)"
  shows "fdt_node_offset_by_compatible m lit fdt start cs =
    Some (case find (\<lambda>(q, ps). says_compatible (lit_bytes ''compatible'') str ps)
            (filter (\<lambda>(q, ps). start < q) (nodes_of 0 t)) of
            Some (q, ps) \<Rightarrow> q | None \<Rightarrow> - FDT_ERR_NOTFOUND)"
proof -
  note fd = finishedD [OF f]
  have last: "last (tree_items t) = Close_item" by (cases t) simp
  have "string_list b" if "Prop_item (lit_bytes ''compatible'') b \<in> set (tree_items t)" for b
    using tree_item_props(1) [OF that, of 0] ok by blast
  note walk = compatible_walk_items [where lit = lit, OF f last n s this]
  have opens: "opens 0 (tree_items t) = nodes_of 0 t" using opens_tree(1) [of 0 t "[]"] by simp
  have loop: "fdt_node_offset_by_compatible m lit fdt start cs = fdt_node_by_compatible_loop m lit fdt start cs"
    using rw_ro_probe [OF fd(1)] blob_bounds [OF fd(2)] by (simp add: fdt_node_offset_by_compatible_def)
  show ?thesis
  proof (cases "start < 0")
    case True
    have "\<forall>x \<in> set (nodes_of 0 t). case x of (q, ps) \<Rightarrow> start < q"
      using opens_low [of _ _ 0 "tree_items t"] True unfolding opens by fastforce
    then have all: "filter (\<lambda>(q, ps). start < q) (nodes_of 0 t) = nodes_of 0 t" by (simp add: filter_id_conv)
    have "fdt_next_node m fdt start None = fdt_next_node_loop m fdt 0 None" using True by (simp add: fdt_next_node_def)
    then have "fdt_node_by_compatible_loop m lit fdt start cs = compatible_walk m lit fdt 0 cs"
      by (simp add: fdt_node_by_compatible_loop.simps [of m lit fdt start] compatible_walk_def)
    with walk [of "[]"] loop all show ?thesis by (simp add: opens compatible_in_def)
  next
    case False
    then have "start \<in> fst ` set (opens 0 (tree_items t))" using start opens by simp
    from opens_split [OF this] obtain pre nd js where
      i: "tree_items t = pre @ Open_item nd # js" "start = items_size pre" by auto
    define nx where "nx = items_size (pre @ [Open_item nd])"
    have "filter (\<lambda>(q, ps). start < q) (nodes_of 0 t) = opens nx js"
      using opens_behind [of 0 pre nd js] i opens by (simp add: nx_def)
    moreover have nz: "0 \<le> nx" unfolding nx_def by (rule items_size_nonneg)
    have "fdt_check_node_offset m fdt start = Some nx"
      using finished_tag(2) [OF f i(1)] items_size_nonneg [of pre] i(2) by (simp add: fdt_check_node_offset_def nx_def)
    then have "fdt_next_node m fdt start None = fdt_next_node_loop m fdt nx None"
      using False nz by (simp add: fdt_next_node_def)
    then have "fdt_node_by_compatible_loop m lit fdt start cs = compatible_walk m lit fdt nx cs"
      by (simp add: fdt_node_by_compatible_loop.simps [of m lit fdt start] compatible_walk_def)
    ultimately show ?thesis using walk [of "pre @ [Open_item nd]" js] i(1) loop by (simp add: compatible_in_def nx_def)
  qed
qed

text \<open>Two nodes, the second of them compatible with \<open>virt\<close>.\<close>

definition compat_tree :: dtree where
  "compat_tree = DNode [] [] [DNode [97] [(lit_bytes ''compatible'', [120, 0])] [],
     DNode [98] [(lit_bytes ''compatible'', [120, 0, 118, 105, 114, 116, 0])] []]"

definition compat_rows :: "u8 list list" where
  "compat_rows =
    [[208, 13, 254, 237, 0, 0, 0, 144, 0, 0, 0, 56, 0, 0, 0, 132],
     [0, 0, 0, 40, 0, 0, 0, 17, 0, 0, 0, 16, 0, 0, 0, 0],
     [0, 0, 0, 11, 0, 0, 0, 76, 0, 0, 0, 0, 0, 0, 0, 0],
     [0, 0, 0, 0, 0, 0, 0, 0, 0, 0, 0, 1, 0, 0, 0, 0],
     [0, 0, 0, 1, 97, 0, 0, 0, 0, 0, 0, 3, 0, 0, 0, 2],
     [0, 0, 0, 0, 120, 0, 0, 0, 0, 0, 0, 2, 0, 0, 0, 1],
     [98, 0, 0, 0, 0, 0, 0, 3, 0, 0, 0, 7, 0, 0, 0, 0],
     [120, 0, 118, 105, 114, 116, 0, 0, 0, 0, 0, 2, 0, 0, 0, 2],
     [0, 0, 0, 9, 99, 111, 109, 112, 97, 116, 105, 98, 108, 101, 0, 0]]"

definition compat_strings :: "u8 list list" where
  "compat_strings =
    [[99, 111, 109, 112, 97, 116, 105, 98, 108, 101, 0, 118, 105, 114, 116, 0],
     [0, 0, 0, 0, 0, 0, 0, 0, 0, 0, 0, 0, 0, 0, 0, 0]]"

definition compat_mem :: mem where
  "compat_mem a = (if 4096 \<le> a then mem_rows compat_rows 4096 a else mem_rows compat_strings 256 a)"

lemma compat_bytes: "lit_bytes ''compatible'' = [99, 111, 109, 112, 97, 116, 105, 98, 108, 101]" "lit_bytes ''virt'' = [118, 105, 114, 116]"
  by code_simp+

lemma compat_mem_fields:
  "hdr compat_mem 4096 0 = FDT_MAGIC" "h_totalsize compat_mem 4096 = 144" "h_off_struct compat_mem 4096 = 56"
  "h_off_strings compat_mem 4096 = 132" "h_off_rsvmap compat_mem 4096 = 40" "h_version compat_mem 4096 = 17"
  "h_last_comp compat_mem 4096 = 16" "h_size_strings compat_mem 4096 = 11" "h_size_struct compat_mem 4096 = 76"
  by code_simp+

lemma compat_finished: "finished compat_mem 4096 (tree_items compat_tree)"
proof -
  have "mapped (mem_rows compat_rows 4096) 4096 144" using mapped_mem_rows [of compat_rows 4096] by (simp add: compat_rows_def)
  then have m: "mapped compat_mem 4096 144" by (auto simp: mapped_def compat_mem_def)
  have r: "rw_ok compat_mem 4096" using m mapped_sub [OF m, of 4096 40] by (simp add: rw_ok_def compat_mem_fields)
  moreover have "header_ok compat_mem 4096" by (rule rw_header_ok [OF r]) (simp_all add: compat_mem_fields)
  moreover have "fdt32_ld compat_mem 4152 = Some 1" "bytes_at compat_mem 4156 [0]" "fdt32_ld compat_mem 4160 = Some 1"
    "bytes_at compat_mem 4164 [97, 0]" "fdt32_ld compat_mem 4168 = Some 3" "fdt32_ld compat_mem 4172 = Some 2"
    "fdt32_ld compat_mem 4176 = Some 0" "bytes_at compat_mem 4180 [120, 0]" "fdt32_ld compat_mem 4184 = Some 2"
    "fdt32_ld compat_mem 4188 = Some 1" "bytes_at compat_mem 4192 [98, 0]" "fdt32_ld compat_mem 4196 = Some 3"
    "fdt32_ld compat_mem 4200 = Some 7" "fdt32_ld compat_mem 4204 = Some 0"
    "bytes_at compat_mem 4208 [120, 0, 118, 105, 114, 116, 0]" "fdt32_ld compat_mem 4216 = Some 2"
    "fdt32_ld compat_mem 4220 = Some 2" "fdt32_ld compat_mem 4224 = Some 9"
    "bytes_at compat_mem 4228 [99, 111, 109, 112, 97, 116, 105, 98, 108, 101, 0]"
    by code_simp+
  ultimately show ?thesis
    by (simp add: finished_def compat_mem_fields compat_tree_def tag_size_def str_ref_def compat_bytes)
qed

theorem by_compatible_first_witness:
  "fdt_node_offset_by_compatible compat_mem demo_lit 4096 (- 1) 267 = Some 36 \<and>
   fdt_node_offset_by_compatible compat_mem demo_lit 4096 36 267 = Some (- FDT_ERR_NOTFOUND)"
proof -
  have "mapped (mem_rows compat_strings 256) 256 32" using mapped_mem_rows [of compat_strings 256] by (simp add: compat_strings_def)
  then have m: "mapped compat_mem 256 32" by (auto simp: mapped_def compat_mem_def)
  have "cstr_at compat_mem 256 (lit_bytes ''compatible'')" "cstr_at compat_mem 267 (lit_bytes ''virt'')" by code_simp+
  then have s: "c_string compat_mem (demo_lit ''compatible'') (lit_bytes ''compatible'')" "c_string compat_mem 267 (lit_bytes ''virt'')"
    by (simp_all add: c_string_def last_word_mapped_def mapped_sub [OF m] demo_lit_def compat_bytes)
  have ns: "nodes_of 0 compat_tree = [(0, []), (8, [(lit_bytes ''compatible'', [120, 0])]),
      (36, [(lit_bytes ''compatible'', [120, 0, 118, 105, 114, 116, 0])])]"
    by (simp add: compat_tree_def tag_size_def compat_bytes)
  have nul: "nul_strings [120, 0] = [[120]]" "nul_strings [120, 0, 118, 105, 114, 116, 0] = [[120], [118, 105, 114, 116]]"
    by (simp_all add: nul_strings.simps)
  note first = by_compatible_first [where lit = demo_lit, OF compat_finished s, unfolded ns]
  show ?thesis
    using first [of "- 1"] first [of 36] by (simp add: string_list_def says_compatible_def nul compat_bytes)
qed

end
