(* ===== verification/Fdt_Fixup.thy ===== *)
theory Fdt_Fixup
  imports Fdt_Compat Fdt_Merge
begin

text \<open>
  The local references of an overlay (\<^verbatim>\<open>overlay_update_local_references\<close> of
  \<^verbatim>\<open>libfdt/fdt_overlay.c\<close>) on trees as data: an entry below \<open>/__local_fixups__\<close> can name a word outside the
  overlay.
\<close>

section \<open>A tree is not changed by a write outside it\<close>

lemma finished_outside:
  assumes f: "finished m fdt is" and w: "writes_only m m' a n" and out: "a + n \<le> fdt \<or> fdt + h_totalsize m fdt \<le> a"
  shows "finished m' fdt is" "h_totalsize m' fdt = h_totalsize m fdt"
proof -
  note fd = finishedD [OF f] and b = rw_bounds [OF finishedD(1) [OF f]]
  have same: "m' x = m x" if "fdt \<le> x" "x < fdt + h_totalsize m fdt" for x
    by (rule writes_only_same [OF w]) (use that out in auto)
  have h: "hdr m' fdt k = hdr m fdt k" if "0 \<le> k" "k \<le> 36" for k
    unfolding hdr_def by (rule arg_cong [where f = the], rule fdt32_ld_bytes; rule same) (use that b in simp_all)
  show "h_totalsize m' fdt = h_totalsize m fdt" using h by simp
  have "mapped m fdt 40" "mapped m fdt (4 * ((h_totalsize m fdt + 3) div 4))" "0 < fdt" "fdt mod 8 = 0"
    "h_totalsize m fdt < INT32_MAX" "fdt + h_totalsize m fdt \<le> 4294967296" using fd(1) by (simp_all add: rw_ok_def)
  then show "finished m' fdt is"
    using h same fd(4) writes_only_mapped [OF w] by (intro finished_copied [OF f]) simp_all
qed

section \<open>A node with one property and no subnodes\<close>

lemma lone_property:
  assumes f: "finished m fdt (pre @ tree_items (DNode nd [(nm, w)] []) @ post)"
  defines "q \<equiv> items_size pre" and "p \<equiv> items_size (pre @ [Open_item nd])"
  shows "fdt_first_property_offset m fdt q = Some p" "0 \<le> p" "fdt_next_property_offset m fdt p = Some (- FDT_ERR_NOTFOUND)"
    "fdt_first_subnode m fdt q = Some (- FDT_ERR_NOTFOUND)"
    "\<exists>v s. fdt_getprop_by_offset m fdt p True = Some (v, Some s, int (length w)) \<and> v \<noteq> 0 \<and> c_string m s nm"
    "c_string m name nm \<Longrightarrow> fdt_getprop m fdt q name = Some (a, l) \<Longrightarrow>
      fdt_getprop_by_offset m fdt p True = Some (v, s, n) \<Longrightarrow> a = v"
proof -
  have f0: "finished m fdt (pre @ Open_item nd # prop_items [(nm, w)] @ Close_item # post)" using f by simp
  have f1: "finished m fdt ((pre @ [Open_item nd]) @ Prop_item nm w # Close_item # post)" using f by simp
  have f2: "finished m fdt ((pre @ [Open_item nd, Prop_item nm w]) @ Close_item # post)" using f by simp
  note fd = finishedD [OF f0] and b = rw_bounds [OF finishedD(1) [OF f0]] and bb = blob_bounds [OF finishedD(2) [OF f0]]
    and z = items_size_nonneg [of pre, folded q_def]
  have e: "ends_props (Close_item # post)" by simp
  note po = finished_props_of(1) [OF f0 refl e]
  have offs: "item_offsets (items_size (pre @ [Open_item nd])) (prop_items [(nm, w)]) = [p]" by (simp add: p_def)
  show p0: "0 \<le> p" unfolding p_def by (rule items_size_nonneg)
  from po obtain first where first: "fdt_first_property_offset m fdt q = Some first" "props_from m fdt first [p] (- FDT_ERR_NOTFOUND)"
    unfolding offs by (auto simp: props_of_def q_def)
  then show "fdt_first_property_offset m fdt q = Some p" by (simp add: props_from_Cons)
  from first(2) show nx: "fdt_next_property_offset m fdt p = Some (- FDT_ERR_NOTFOUND)"
    by (auto simp: props_from_Cons props_from_neg)
  show "fdt_first_subnode m fdt q = Some (- FDT_ERR_NOTFOUND)"
  proof -
    note t0 = finished_tag(2) [OF f0 refl]
    define r where "r = items_size (pre @ [Open_item nd, Prop_item nm w])"
    have pq: "p = q + item_size (Open_item nd)" "r = p + item_size (Prop_item nm w)" by (simp_all add: p_def q_def r_def)
    have t1: "fdt_next_tag m fdt p = Some (FDT_PROP, r)"
      using finished_tag(2) [OF f1 refl] by (simp only: p_def [symmetric] pq(2) item_tag.simps)
    have t2: "fdt_next_tag m fdt r = Some (FDT_END_NODE, r + 4)"
      using finished_tag(2) [OF f2 refl] by (simp only: r_def [symmetric] item_tag.simps item_size.simps)
    have "fdt_check_node_offset m fdt q = Some p" using t0 z by (simp add: fdt_check_node_offset_def q_def pq(1) [unfolded q_def])
    then have "fdt_next_node m fdt q (Some 0) = fdt_next_node_loop m fdt p (Some 0)" using z p0 by (simp add: fdt_next_node_def)
    also have "\<dots> = fdt_next_node_loop m fdt r (Some 0)"
      using t1 by (simp add: fdt_next_node_loop.simps [of m fdt p])
    also have "\<dots> = Some (r + 4, Some (- 1))"
      using t2 by (simp add: fdt_next_node_loop.simps [of m fdt r] to_s32_id)
    finally show ?thesis by (simp add: fdt_first_subnode_def)
  qed
  have pa: "prop_at m fdt p" using finished_prop(1) [OF f1 refl] by (simp add: p_def)
  obtain v s where g: "fdt_getprop_by_offset m fdt p True = Some (v, Some s, int (length w))" "v \<noteq> 0" "cstr_at m s nm"
    using finished_split(1) [OF f1 refl] by (auto simp: p_def)
  from getprop_by_offset_spec [OF fd(2,5) pa] g obtain t where t: "string_in m fdt s t" "v = prop_addr m fdt p + 12" by auto
  then have "t = nm" using g(3) cstr_at_unique by (auto simp: string_in_def)
  with t have s: "string_in m fdt s nm" by simp
  have "int (length nm) + 1 \<le> h_size_strings m fdt"
    using finished_split(2) [OF f1 refl] by (auto simp: str_ref_def)
  then have "c_string m s nm"
    using s string_in_last_word [OF fd(2) s] bb b by (auto simp: c_string_def string_in_def)
  with g show "\<exists>v s. fdt_getprop_by_offset m fdt p True = Some (v, Some s, int (length w)) \<and> v \<noteq> 0 \<and> c_string m s nm" by blast
  show "a = v'" if n: "c_string m name nm" and "fdt_getprop m fdt q name = Some (a, l)"
    "fdt_getprop_by_offset m fdt p True = Some (v', s', n)" for v' s' n
  proof -
    have "named m fdt nm p" using finished_prop(2) [OF f1 refl] by (simp add: p_def)
    then have "lookup m fdt nm [p] (- FDT_ERR_NOTFOUND) = (prop_addr m fdt p + 12, sfield m fdt (p + 4))"
      using data_addr_spec(3) [OF fd(2) pa fd(5)] by (simp add: lookup_def)
    with fdt_getprop_lookup [OF fd(2) po n, unfolded offs] that(2,3) g(1) t(2) show ?thesis by (simp add: q_def)
  qed
qed

section \<open>The property\<close>

text \<open>C26: the local references of an overlay are followed without a bound check.  Let a finished overlay
  have a node \<open>/__local_fixups__\<close> with one property and no subnodes, whose value is the one offset
  \<open>t - a\<close>, where \<open>a\<close> is the address of the value of the root's property of the same name and \<open>t\<close> is any mapped
  word outside the overlay.  Then \<open>overlay_update_local_references\<close> returns 0 and has added \<open>delta\<close> to the word at
  \<open>t\<close>, and nothing else is written: neither the length of the property nor the overlay's size is
  looked at.\<close>

theorem local_fixup_unchecked:
  assumes f: "finished m fdto (tree_items (DNode rn ps ts))"
    and path: "c_string m (lit ''/__local_fixups__'') (path_bytes [lit_bytes ''__local_fixups__''])"
      "find_path 0 (DNode rn ps ts) [lit_bytes ''__local_fixups__''] = Some (q, DNode nd [(nm, w)] [])"
    and n: "c_string m name nm"
    and src: "fdt_getprop m fdto q name = Some (v, 4)" "fdt32_ld m v = Some (to_u32 (t - a))" "length w = 4"
    and tgt: "fdt_getprop m fdto 0 name = Some (a, l)" "a \<noteq> 0"
    and t: "0 \<le> t" "t \<le> UINT32_MAX" "mapped m t 4" "t + 4 \<le> fdto \<or> fdto + h_totalsize m fdto \<le> t" "fdt32_ld m t = Some x"
  shows "\<exists>m'. overlay_update_local_references m lit fdto delta = Some (0, m') \<and>
    fdt32_ld m' t = Some (to_u32 (x + delta)) \<and> writes_only m m' t 4"
proof -
  have comp: "\<forall>c \<in> set [lit_bytes ''__local_fixups__'']. component c" by code_simp
  have po: "fdt_path_offset m lit fdto (lit ''/__local_fixups__'') = Some q"
    using finished_path(1) [OF f path(1) comp] path(2) by simp
  from finished_path(2) [OF f path(1) comp path(2)] obtain pre post where
    i: "tree_items (DNode rn ps ts) = pre @ tree_items (DNode nd [(nm, w)] []) @ post" "q = items_size pre" by blast
  define p where "p = items_size (pre @ [Open_item nd])"
  note lone = lone_property [OF f [unfolded i(1)], folded i(2) p_def]
  obtain v' s where g: "fdt_getprop_by_offset m fdto p True = Some (v', Some s, 4)" "v' \<noteq> 0" "c_string m s nm"
    using lone(5) src(3) by auto
  have vv: "v' = v" using lone(6) [OF n src(1) g(1)] by simp
  have root: "fdt_getprop m fdto 0 s = Some (a, l)"
  proof -
    from props_of_exists [OF finishedD(2) [OF f], of 0] obtain qs r where qs: "props_of m fdto 0 qs r" by auto
    from fdt_getprop_lookup [OF finishedD(2) [OF f] qs n] fdt_getprop_lookup [OF finishedD(2) [OF f] qs g(3)] tgt(1)
    show ?thesis by simp
  qed
  have u: "to_u32 (a + to_u32 (t - a)) = t"
  proof -
    have "to_u32 (a + to_u32 (t - a)) = to_u32 t" by (simp add: to_u32_def mod_add_right_eq)
    then show ?thesis using t by (simp add: to_u32_id)
  qed
  obtain m' where m': "fdt32_set m t (to_u32 (x + delta)) = Some m'" "writes_only m m' t 4"
    "fdt32_ld m' t = Some (to_u32 (to_u32 (x + delta)))" by (rule fdt32_set_ok [OF t(3)])
  have "fdt32_st m t (word_of_int (x + delta)) = Some m'"
    using m'(1) uint_word_of_int_u32 [of "x + delta"] by (simp add: fdt32_st_eq del: of_int_add)
  then have "fixup_words (add_delta delta) m a v (Suc 0) = Some m'"
    using src(2) u t(5) by (simp add: fdt32_ld_native_eq add_delta_def to_u32_def del: of_int_add)
  moreover have four: "to_u32 4 = 4" "nat (4 div 4) = Suc 0" by (simp_all add: to_u32_id)
  ultimately have words: "fixup_words (add_delta delta) m a v (nat (to_u32 4 div 4)) = Some m'" by simp
  note f' = finished_outside [OF f m'(2) t(4)]
  note lone' = lone_property [OF f'(1) [unfolded i(1)], folded i(2) p_def]
  have props: "fixup_properties (add_delta delta) m fdto 0 p = Some (0, m')"
    using lone(2) lone'(3) g(1,2) root tgt(2) words vv four(1)
    by (simp del: fixup_words.simps add: fixup_properties.simps [of _ m _ _ p] fixup_properties.simps [of _ m' _ _ "- 1"])
  have "overlay_update_local_references m lit fdto delta = Some (0, m')"
    using po i(2) items_size_nonneg(1) [of pre] lone(1) props lone'(4)
    by (simp add: overlay_update_local_references_def overlay_update_local_node_references_def fixup_references_def
      fixup_subnodes.simps [of _ m' _ _ "- 1"])
  moreover have "to_u32 (to_u32 (x + delta)) = to_u32 (x + delta)" by (simp add: to_u32_def)
  ultimately show ?thesis using m'(2,3) by auto
qed

text \<open>An overlay at 8192 whose fixup for the root's \<open>reg\<close> names the word at 4096.\<close>

definition fixup_tree :: dtree where
  "fixup_tree = DNode [] [([114, 101, 103], [0, 0, 0, 7])]
     [DNode (lit_bytes ''__local_fixups__'') [([114, 101, 103], [255, 255, 239, 180])] []]"

definition fixup_rows :: "u8 list list" where
  "fixup_rows =
    [[208, 13, 254, 237, 0, 0, 0, 144, 0, 0, 0, 56, 0, 0, 0, 132],
     [0, 0, 0, 40, 0, 0, 0, 17, 0, 0, 0, 16, 0, 0, 0, 0],
     [0, 0, 0, 4, 0, 0, 0, 76, 0, 0, 0, 0, 0, 0, 0, 0],
     [0, 0, 0, 0, 0, 0, 0, 0, 0, 0, 0, 1, 0, 0, 0, 0],
     [0, 0, 0, 3, 0, 0, 0, 4, 0, 0, 0, 0, 0, 0, 0, 7],
     [0, 0, 0, 1, 95, 95, 108, 111, 99, 97, 108, 95, 102, 105, 120, 117],
     [112, 115, 95, 95, 0, 0, 0, 0, 0, 0, 0, 3, 0, 0, 0, 4],
     [0, 0, 0, 0, 255, 255, 239, 180, 0, 0, 0, 2, 0, 0, 0, 2],
     [0, 0, 0, 9, 114, 101, 103, 0, 0, 0, 0, 0, 0, 0, 0, 0]]"

definition fixup_strings :: "u8 list list" where
  "fixup_strings =
    [[47, 95, 95, 108, 111, 99, 97, 108, 95, 102, 105, 120, 117, 112, 115, 95],
     [95, 0, 114, 101, 103, 0, 0, 0, 0, 0, 0, 0, 0, 0, 0, 0]]"

definition fixup_mem :: mem where
  "fixup_mem a = (if 8192 \<le> a then mem_rows fixup_rows 8192 a
     else if 4096 \<le> a then (if a < 4100 then Some 1 else None) else mem_rows fixup_strings 256 a)"

lemma fixup_mem_fields:
  "hdr fixup_mem 8192 0 = FDT_MAGIC" "h_totalsize fixup_mem 8192 = 144" "h_off_struct fixup_mem 8192 = 56"
  "h_off_strings fixup_mem 8192 = 132" "h_off_rsvmap fixup_mem 8192 = 40" "h_version fixup_mem 8192 = 17"
  "h_last_comp fixup_mem 8192 = 16" "h_size_strings fixup_mem 8192 = 4" "h_size_struct fixup_mem 8192 = 76"
  by code_simp+

lemma fixup_finished: "finished fixup_mem 8192 (tree_items fixup_tree)"
proof -
  have "mapped (mem_rows fixup_rows 8192) 8192 144" using mapped_mem_rows [of fixup_rows 8192] by (simp add: fixup_rows_def)
  then have m: "mapped fixup_mem 8192 144" by (auto simp: mapped_def fixup_mem_def)
  have r: "rw_ok fixup_mem 8192" using m mapped_sub [OF m, of 8192 40] by (simp add: rw_ok_def fixup_mem_fields)
  moreover have "header_ok fixup_mem 8192" by (rule rw_header_ok [OF r]) (simp_all add: fixup_mem_fields)
  moreover have "fdt32_ld fixup_mem 8248 = Some 1" "bytes_at fixup_mem 8252 [0]" "fdt32_ld fixup_mem 8256 = Some 3"
    "fdt32_ld fixup_mem 8260 = Some 4" "fdt32_ld fixup_mem 8264 = Some 0" "bytes_at fixup_mem 8268 [0, 0, 0, 7]"
    "fdt32_ld fixup_mem 8272 = Some 1" "bytes_at fixup_mem 8276 (lit_bytes ''__local_fixups__'' @ [0])"
    "fdt32_ld fixup_mem 8296 = Some 3" "fdt32_ld fixup_mem 8300 = Some 4" "fdt32_ld fixup_mem 8304 = Some 0"
    "bytes_at fixup_mem 8308 [255, 255, 239, 180]" "fdt32_ld fixup_mem 8312 = Some 2" "fdt32_ld fixup_mem 8316 = Some 2"
    "fdt32_ld fixup_mem 8320 = Some 9" "bytes_at fixup_mem 8324 [114, 101, 103, 0]" "0 \<notin> set (lit_bytes ''__local_fixups__'')"
    "length (lit_bytes ''__local_fixups__'') = 16"
    by code_simp+
  ultimately show ?thesis
    by (simp add: finished_def fixup_mem_fields fixup_tree_def tag_size_def str_ref_def del: bytes_at.simps)
qed

theorem local_fixup_unchecked_witness:
  "\<exists>m'. overlay_update_local_references fixup_mem (\<lambda>s. 256) 8192 5 = Some (0, m') \<and>
     fdt32_ld m' 4096 = Some 0x01010106 \<and> writes_only fixup_mem m' 4096 4"
proof -
  have "mapped (mem_rows fixup_strings 256) 256 32" using mapped_mem_rows [of fixup_strings 256] by (simp add: fixup_strings_def)
  then have m: "mapped fixup_mem 256 32" by (auto simp: mapped_def fixup_mem_def)
  have "cstr_at fixup_mem 256 (path_bytes [lit_bytes ''__local_fixups__''])" "cstr_at fixup_mem 274 [114, 101, 103]"
    "length (path_bytes [lit_bytes ''__local_fixups__'']) = 17" by code_simp+
  then have s: "c_string fixup_mem 256 (path_bytes [lit_bytes ''__local_fixups__''])" "c_string fixup_mem 274 [114, 101, 103]"
    by (simp_all add: c_string_def last_word_mapped_def mapped_sub [OF m])
  have p: "find_path 0 fixup_tree [lit_bytes ''__local_fixups__''] =
      Some (24, DNode (lit_bytes ''__local_fixups__'') [([114, 101, 103], [255, 255, 239, 180])] [])"
    "fdt_getprop fixup_mem 8192 24 274 = Some (8308, 4)" "fdt32_ld fixup_mem 8308 = Some (to_u32 (4096 - 8268))"
    "fdt_getprop fixup_mem 8192 0 274 = Some (8268, 4)" "fdt32_ld fixup_mem 4096 = Some 0x01010101" by code_simp+
  have "mapped fixup_mem 4096 4" by (auto simp: mapped_def fixup_mem_def)
  from local_fixup_unchecked [where lit = "\<lambda>s. 256", OF fixup_finished [unfolded fixup_tree_def] s(1) p(1) [unfolded fixup_tree_def]
      s(2) p(2,3) _ p(4) _ _ _ this _ p(5), of 5]
  show ?thesis by (simp add: fixup_mem_fields to_u32_id)
qed

end
