(* ===== verification/Spec2Isabelle.thy ===== *)
theory Spec2Isabelle
  imports Prelude Klibc_String Bit_Utils Bitmap Printf Fdt Fdt_Ro Fdt_Check Kernel Interrupts
    Devices Phys_Alloc Machine Boot Fdt_Write Fdt_Sw Fdt_Rw Fdt_Edit Fdt_Lookup Fdt_Build Fdt_Built
    Fdt_Inline Fdt_Overlay Fdt_Merge Fdt_Path Fdt_Items Fdt_Refine Fdt_Subnode Fdt_Apply Uart Bitmap_Tests
    Boot_Types Printf_Spec Fdt_Find Fdt_Compat Fdt_Fixup
begin

text \<open>
  Verification development of a small RISC-V kernel: what hart 0 runs from \<^verbatim>\<open>kmain\<close> to the
  switch into supervisor mode, the C library routines it brings along, and the device tree library
  \<^verbatim>\<open>libfdt/\<close> it reads the machine description with.  Paths are relative to \<^verbatim>\<open>src/\<close>.

  \<^bold>\<open>The program.\<close>  \<^verbatim>\<open>src/boot/entry.S\<close> calls \<^verbatim>\<open>kmain\<close> on every hart with the hart number and the address of
  a flattened device tree.  Hart 0 disables interrupts, asserts the ISA extensions it needs, sets up
  interrupt delivery, checks the tree, finds the CLINT (timer) and the memory nodes in it, builds the
  page allocator (a bitmap placed behind the kernel image) and leaves M-mode with \<^verbatim>\<open>mret\<close>; the other
  harts halt.  A failed check prints through the kernel's own \<^verbatim>\<open>printf\<close> and halts.  All that is known of
  the machine comes out of the tree through \<^verbatim>\<open>libfdt/\<close>, whose readers, writers and overlays work on the
  same block of memory.

  \<^bold>\<open>The model.\<close>  Memory is a partial map from \<open>int\<close> addresses to bytes, pointers are addresses and \<open>NULL\<close>
  is 0.  A routine that touches memory returns an option: \<open>None\<close> is an access outside the mapped bytes
  or a loop that never ends, so that \<open>f x = Some y\<close> states at once that \<open>f\<close> returns, that it stayed
  inside mapped memory, and what it returned.  Loops whose end depends on memory are
  \<open>partial_function (option)\<close>, other loops are structural or have a measure; no definition uses fuel.
  Unsigned 32-bit arithmetic on \<open>int\<close> is followed by \<open>to_u32\<close>, a conversion to a signed \<open>int\<close> by \<open>to_s32\<close>;
  bit patterns are \<open>u8\<close> and \<open>u32\<close> words.  Kernel code is a computation on the record \<open>kernel\<close> (memory, CSRs
  and their log, console, device stores, the static variables) that ends with a value or with a
  reason to stop (halted, left M-mode, faulted); what the build and the machine decide is the record
  \<open>image\<close>.  An assertion or a panic is a branch that prints and halts.

  \<^bold>\<open>Theories and sources.\<close>
  \<^item> \<open>Prelude\<close>: machine types, 32-bit conversions, byte memory, \<open>mapped\<close> and \<open>writes_only\<close>.
  \<^item> \<open>Klibc_String\<close>: \<^verbatim>\<open>src/boot/crt0.c\<close> (\<^verbatim>\<open>strlen\<close>, \<^verbatim>\<open>memcmp\<close>, \<^verbatim>\<open>memchr\<close>, \<^verbatim>\<open>strrchr\<close>, \<^verbatim>\<open>memset\<close>, \<^verbatim>\<open>memcpy\<close> and the rest).
  \<^item> \<open>Bit_Utils\<close>: \<^verbatim>\<open>src/klibc/bitwise_utils.c\<close>, \<^verbatim>\<open>src/klibc/math_utils.c\<close> and their headers.
  \<^item> \<open>Bitmap\<close>: \<^verbatim>\<open>src/klibc/bitmap.c\<close>; the locale \<open>slot_allocator\<close> is what its users rely on.
  \<^item> \<open>Printf\<close>: \<^verbatim>\<open>src/klibc/printf.c\<close>; the locale \<open>stream_sink\<close> is what the engine asks of an output.
    \<open>Printf_Spec\<close>: what a format made of pieces means, and that the engine prints it.
  \<^item> \<open>Kernel\<close>: the state; \<^verbatim>\<open>src/klibc/panic.h\<close>, \<^verbatim>\<open>src/klibc/k_assert.h\<close>, \<^verbatim>\<open>src/riscv/csr_operations.h\<close>,
    \<^verbatim>\<open>src/riscv/halt.c\<close>, \<^verbatim>\<open>src/drivers/\<close>.  The byte stores of \<open>_putchar\<close> are kept as the console \<open>k_console\<close>,
    every other device store in \<open>k_mmio\<close>.  \<open>Bitmap_Tests\<close>: \<^verbatim>\<open>src/tests/test_bitmap.c\<close>.
  \<^item> \<open>Interrupts\<close>: \<^verbatim>\<open>src/riscv/interrupts/\<close>, \<^verbatim>\<open>src/riscv/switch_to_supervisor.c\<close>, \<^verbatim>\<open>src/riscv/extension_check.c\<close>,
    \<^verbatim>\<open>src/riscv/pmp/page_tables.h\<close>.
  \<^item> \<open>Devices\<close>: \<^verbatim>\<open>src/init_devices.c\<close>, \<^verbatim>\<open>src/mem/memory.c\<close>, \<^verbatim>\<open>src/riscv/clint/clint.c\<close>, \<^verbatim>\<open>src/riscv/timer.c\<close>.
    \<open>Uart\<close>: \<open>init_uart\<close> of \<^verbatim>\<open>src/drivers/uart.c\<close> and the registers of \<^verbatim>\<open>src/drivers/uart.h\<close>.
  \<^item> \<open>Phys_Alloc\<close>: \<^verbatim>\<open>src/mem/phys_alloc.c\<close>.  \<open>Boot\<close>: \<^verbatim>\<open>src/boot/kmain.c\<close>.  \<open>Machine\<close>: a sample machine with its
    tree as bytes, on which the boot theorems are evaluated.
  \<^item> \<open>Fdt\<close>: \<^verbatim>\<open>libfdt/fdt.c\<close>, \<^verbatim>\<open>libfdt/fdt.h\<close>, \<^verbatim>\<open>libfdt/libfdt_internal.h\<close>.  \<open>Fdt_Ro\<close>: \<^verbatim>\<open>libfdt/fdt_ro.c\<close>.
    \<open>Fdt_Check\<close>: \<^verbatim>\<open>libfdt/fdt_check.c\<close>, \<^verbatim>\<open>libfdt/fdt_addresses.c\<close>, \<^verbatim>\<open>libfdt/fdt_strerror.c\<close>.
  \<^item> \<open>Fdt_Write\<close>: \<^verbatim>\<open>libfdt/fdt_wip.c\<close>.  \<open>Fdt_Sw\<close>: \<^verbatim>\<open>libfdt/fdt_sw.c\<close>.  \<open>Fdt_Rw\<close>: \<^verbatim>\<open>libfdt/fdt_rw.c\<close>,
    \<^verbatim>\<open>libfdt/fdt_empty_tree.c\<close>.  \<open>Fdt_Inline\<close>: the value functions of \<^verbatim>\<open>libfdt/libfdt.h\<close>.
    \<open>Fdt_Overlay\<close>: \<^verbatim>\<open>libfdt/fdt_overlay.c\<close>.
  \<^item> \<open>Fdt_Edit\<close>, \<open>Fdt_Lookup\<close>, \<open>Fdt_Build\<close>, \<open>Fdt_Built\<close>, \<open>Fdt_Path\<close>, \<open>Fdt_Items\<close>, \<open>Fdt_Refine\<close>, \<open>Fdt_Find\<close>,
    \<open>Fdt_Compat\<close>, \<open>Fdt_Merge\<close>, \<open>Fdt_Subnode\<close>, \<open>Fdt_Apply\<close>, \<open>Fdt_Fixup\<close> and \<open>Boot_Types\<close> hold proofs about these operations and the specifications they meet.
\<close>

text \<open>
  \<^bold>\<open>What the lemmas show.\<close>
  \<^item> Boot: \<open>kmain\<close> never returns; every run that reaches supervisor mode writes the CSRs in one order; on
    a machine the tree describes well, hart 0 gets there by an \<open>mret\<close> to \<open>test\<close> with MPP = S, the timer found, the
    memory recorded and exactly the used pages marked (\<open>Boot\<close>, over the frame lemmas \<open>keeps\<close> and \<open>no_mret\<close>).  That
    every run stops is shown for the harts that halt and for such machines; in general a loop that does not end is
    \<open>Fault\<close>.  The static variables stay within their bounds on every run, the region table is never overrun and keeps
    what it holds (\<open>Boot_Types\<close>, over the locale \<open>quiet_invariant\<close>: an invariant that console, CSRs and
    device stores do not touch).
  \<^item> Allocation: the bitmap refines a set of used slots, allocations are the least free slot and pairwise
    distinct, page numbers and addresses are inverse to each other with one region; the cases where this
    breaks (several regions, large memories, freeing) are stated as theorems, too.  The
    test driver of the bitmap passes, its uncalled second test would fail.
  \<^item> \<open>printf\<close>: the engine renders the format and feeds the output (\<open>Printf\<close>); a format made of text and directives
    is printed as these mean, which is defined without the engine's parsers and digit loops (\<open>piece_text\<close> in
    \<open>Printf_Spec\<close>); bounded output; decimal round trip.  The index wraps at 32 bits and the result is an \<open>int\<close>.
  \<^item> Reading trees: \<open>blob\<close> says only that the header and \<open>totalsize\<close> bytes are mapped.  On any blob the walkers
    return, stay inside, and make progress; the header check holds exactly for \<open>header_ok\<close>.
    A property is found behind any erased words and other properties of its node (\<open>cells_there\<close> in \<open>Fdt_Find\<close>); the
    search for a compatible node goes through a tree given as data in order (\<open>nodes_of\<close> in \<open>Fdt_Compat\<close>).  On a tree that the
    readers accept, every lookup by path returns (\<open>Fdt_Apply\<close>).
  \<^item> Building trees: \<open>sw_ok\<close> is kept by every call in any order, as long as each name fits into the buffer beside the
    strings, which the code does not check (\<open>add_string_underflow\<close>).  \<open>built\<close> relates the structure block to the
    list of items written so far, \<open>finished\<close> the tree that \<open>fdt_finish\<close> leaves; \<open>Fdt_Built\<close> composes all calls
    (\<open>sw_build\<close>) and shows that reading gives back what was written, that the full check accepts exactly
    the nested item lists, in particular every \<open>dtree\<close>, and that a lookup finds the first property of
    the name.  \<open>Fdt_Path\<close> shows that a path leads in the blob to the node it leads to in the data
    (\<open>find_path\<close>).  The bound on the buffer (header, reserve map, items, names, end tag) is explicit.
  \<^item> Editing trees: \<open>rw_ok\<close> (blocks in order) is kept by the calls of the read-write interface that \<open>rw_step\<close>
    lists (it names the three uses left out, where the code breaks a tree), a failed
    call changes nothing that is visible, these calls return, a value that was set is looked up, and a
    subnode that was added is found under its name.  \<open>Fdt_Items\<close> gives for each operation the item list it
    leaves; \<open>Fdt_Refine\<close> lifts that to trees given as data: an edit at the node of a path is the edit of the data
    at that path (\<open>graft\<close>), over any number of edits (\<open>tree_steps\<close>), with every other node and property as before.
    \<open>fdt_nop_node\<close> erases exactly the words of a node.  \<open>fdt_open_into\<close> copies a built tree into the larger buffer in which such edits have room.
  \<^item> Overlays: the recursions over an overlay are instances of the locale \<open>subnode_walk\<close>; merging all
    fragments returns, writes only to the base tree and keeps its layout; that the offsets of
    local references are not checked is stated as a theorem (\<open>Fdt_Fixup\<close>), as is the spoiling of both headers.

  \<^bold>\<open>Witnesses.\<close>  A theorem with hypotheses has one at a concrete memory: sample trees given as bytes
  (\<open>demo_fdt_mem\<close>, \<open>demo_two_mem\<close>, the tree of \<open>Machine\<close>), an empty buffer (\<open>sw_buffer\<close>,
  \<open>path_buffer\<close>), a tree with free room behind it (\<open>edit_mem\<close>), or a base tree with an overlay behind it
  (\<open>demo_merge_mem\<close>, \<open>fixup_mem\<close>).

  \<^bold>\<open>Parameters.\<close>  The addresses of string literals (\<open>literals\<close>), the legalisation of CSR writes and what
  a device register answers are arguments.  \<^verbatim>\<open>memmove\<close>, \<^verbatim>\<open>strtoul\<close> and \<^verbatim>\<open>strchr\<close>, which the repository does not
  define, are modelled as the C standard has them.

  \<^bold>\<open>Not modelled.\<close>  The assembly entry code, the trap entry and the context switch (assembly);
  \<^verbatim>\<open>src/drivers/soc.c\<close>, \<^verbatim>\<open>src/mem/vmalloc.c\<close> and the remaining unit tests (their bodies are empty); the
  float, exponential and long long conversions of \<^verbatim>\<open>printf\<close>, which the build switches off; what runs
  after \<^verbatim>\<open>mret\<close>.

  \<^bold>\<open>Open.\<close>  The whole of \<open>fdt_overlay_apply\<close> on overlays whose references are in range is composed of parts
  that are proved apart (raising phandles, merging fragments), without one theorem for all of it; an
  edit is an edit of the data on trees of version 17 without NOP tags, as the writers of the library leave them,
  on other trees it is shown to be visible and to keep the layout.
\<close>

end
